(* ===== verification/Prelude.thy ===== *)
theory Prelude
  imports Main "HOL-Library.Word" "HOL-Library.AList"
begin

text \<open>
  What every component of the development shares: the type of characters and their ASCII
  helpers, decimal numbers, slicing helpers of Rust's string and vector API, and the three
  interfaces the components are verified against:
  \<^item> \<open>update_store\<close>: a keyed store whose last write wins;
  \<^item> \<open>guarded_system\<close>: operations that keep an invariant, lifted to runs of operations;
  \<^item> \<open>simulation\<close>: a guarded system that implements an abstract one, lifted to runs.

  A Rust \<open>char\<close> is a Unicode scalar value; it is modelled by its code point, a natural
  number, and a \<open>String\<close> by its list of code points.
\<close>

type_synonym uchar = nat
type_synonym ustring = "uchar list"
type_synonym byte = "8 word"

abbreviation uc :: "char \<Rightarrow> uchar" where
  "uc c \<equiv> of_char c"

abbreviation us :: "string \<Rightarrow> ustring" where
  "us s \<equiv> map of_char s"

named_theorems shape_simps \<open>unfolding equations of the model's small accessors\<close>

section \<open>ASCII\<close>

definition is_ascii_digit :: "uchar \<Rightarrow> bool" where
  "is_ascii_digit c \<longleftrightarrow> 48 \<le> c \<and> c \<le> 57"

definition is_ascii_uppercase :: "uchar \<Rightarrow> bool" where
  "is_ascii_uppercase c \<longleftrightarrow> 65 \<le> c \<and> c \<le> 90"

definition is_ascii_lowercase :: "uchar \<Rightarrow> bool" where
  "is_ascii_lowercase c \<longleftrightarrow> 97 \<le> c \<and> c \<le> 122"

definition is_ascii_alphabetic :: "uchar \<Rightarrow> bool" where
  "is_ascii_alphabetic c \<longleftrightarrow> is_ascii_uppercase c \<or> is_ascii_lowercase c"

definition to_ascii_lowercase :: "uchar \<Rightarrow> uchar" where
  "to_ascii_lowercase c = (if is_ascii_uppercase c then c + 32 else c)"

definition to_ascii_uppercase :: "uchar \<Rightarrow> uchar" where
  "to_ascii_uppercase c = (if is_ascii_lowercase c then c - 32 else c)"

lemmas ascii_simps =
  is_ascii_digit_def is_ascii_uppercase_def is_ascii_lowercase_def is_ascii_alphabetic_def
  to_ascii_lowercase_def to_ascii_uppercase_def

lemma lower_idem [simp]: "to_ascii_lowercase (to_ascii_lowercase c) = to_ascii_lowercase c"
  by (simp add: ascii_simps)

lemma lower_not_upper [simp]: "\<not> is_ascii_uppercase (to_ascii_lowercase c)"
  by (simp add: ascii_simps)

lemma lower_id [simp]: "\<not> is_ascii_uppercase c \<Longrightarrow> to_ascii_lowercase c = c"
  by (simp add: to_ascii_lowercase_def)

section \<open>Decimal numbers\<close>

text \<open>\<open>format!("{n}")\<close> and \<open>str::parse\<close> on a run of ASCII digits.\<close>

fun show_nat :: "nat \<Rightarrow> ustring" where
  "show_nat n = (if n < 10 then [48 + n] else show_nat (n div 10) @ [48 + n mod 10])"

declare show_nat.simps [simp del]

definition digits_value :: "ustring \<Rightarrow> nat" where
  "digits_value ds = foldl (\<lambda>n d. 10 * n + (d - 48)) 0 ds"

definition parse_u8 :: "ustring \<Rightarrow> 8 word option" where
  "parse_u8 ds =
     (if ds = [] \<or> \<not> list_all is_ascii_digit ds \<or> 255 < digits_value ds then None
      else Some (of_nat (digits_value ds)))"

lemma show_nat_digits: "list_all is_ascii_digit (show_nat n)"
proof (induction n rule: show_nat.induct)
  case (1 n)
  then show ?case
    by (cases "n < 10") (auto simp: show_nat.simps[of n] is_ascii_digit_def)
qed

lemma show_nat_nonempty [simp]: "show_nat n \<noteq> []"
  by (subst show_nat.simps) simp

lemma digits_value_append1 [simp]: "digits_value (ds @ [d]) = 10 * digits_value ds + (d - 48)"
  by (simp add: digits_value_def)

lemma digits_value_show [simp]: "digits_value (show_nat n) = n"
proof (induction n rule: show_nat.induct)
  case (1 n)
  then show ?case
    by (cases "n < 10") (auto simp: show_nat.simps[of n] digits_value_def[of "[_]"])
qed

lemma parse_u8_show: "n < 256 \<Longrightarrow> parse_u8 (show_nat n) = Some (of_nat n)"
  by (simp add: parse_u8_def show_nat_digits)

lemma show_nat_inject: "show_nat m = show_nat n \<longleftrightarrow> m = n"
  by (metis digits_value_show)

section \<open>Slices\<close>

text \<open>Rust's \<open>str::split_once(c)\<close>: the text before and after the first \<open>c\<close>.\<close>

definition split_once :: "'a \<Rightarrow> 'a list \<Rightarrow> ('a list \<times> 'a list) option" where
  "split_once c s =
     (case dropWhile (\<lambda>x. x \<noteq> c) s of
        [] \<Rightarrow> None
      | _ # after \<Rightarrow> Some (takeWhile (\<lambda>x. x \<noteq> c) s, after))"

lemma split_once_append:
  "c \<notin> set pre \<Longrightarrow> split_once c (pre @ c # post) = Some (pre, post)"
proof -
  assume "c \<notin> set pre"
  then have "dropWhile (\<lambda>x. x \<noteq> c) (pre @ c # post) = c # post"
    and "takeWhile (\<lambda>x. x \<noteq> c) (pre @ c # post) = pre"
    by (induction pre) auto
  then show ?thesis by (simp add: split_once_def)
qed

lemma split_once_none: "c \<notin> set s \<Longrightarrow> split_once c s = None"
  by (subst split_once_def, subst dropWhile_eq_Nil_conv[THEN iffD2]) auto

lemma split_once_length:
  assumes "split_once c s = Some (pre, post)"
  shows "length post < length s"
proof -
  from assms obtain x rest where "dropWhile (\<lambda>x. x \<noteq> c) s = x # rest"
    by (auto simp: split_once_def split: list.splits)
  with assms have "dropWhile (\<lambda>x. x \<noteq> c) s = x # post"
    by (simp add: split_once_def)
  then show ?thesis
    using length_dropWhile_le[of "\<lambda>x. x \<noteq> c" s] by simp
qed

text \<open>A vector searched for its first element with a property (\<open>Iterator::position\<close>).\<close>

fun position :: "('a \<Rightarrow> bool) \<Rightarrow> 'a list \<Rightarrow> nat option" where
  "position P [] = None"
| "position P (x # xs) = (if P x then Some 0 else map_option Suc (position P xs))"

lemma position_Some:
  "position P xs = Some i \<Longrightarrow> i < length xs \<and> P (xs ! i) \<and> (\<forall>j<i. \<not> P (xs ! j))"
proof (induction xs arbitrary: i)
  case (Cons x xs)
  show ?case
  proof (cases "P x")
    case False
    with Cons.prems obtain j where j: "i = Suc j" "position P xs = Some j" by auto
    with Cons.IH[OF j(2)] False show ?thesis
      by (auto simp: less_Suc_eq_0_disj)
  qed (use Cons.prems in auto)
qed simp

lemma position_None: "position P xs = None \<longleftrightarrow> (\<forall>x \<in> set xs. \<not> P x)"
  by (induction xs) auto

section \<open>Saturating 64-bit integers\<close>

definition I64_MAX :: int where
  "I64_MAX = 2 ^ 63 - 1"

definition I64_MIN :: int where
  "I64_MIN = - (2 ^ 63)"

definition sat_i64 :: "int \<Rightarrow> int" where
  "sat_i64 x = max I64_MIN (min I64_MAX x)"

definition U64_MAX :: nat where
  "U64_MAX = 2 ^ 64 - 1"

lemmas i64_simps = I64_MAX_def I64_MIN_def sat_i64_def

section \<open>Keyed stores\<close>

locale update_store =
  fixes look :: "'s \<Rightarrow> 'k \<Rightarrow> 'v option"
    and upd :: "'k \<Rightarrow> 'v \<Rightarrow> 's \<Rightarrow> 's"
  assumes look_upd: "look (upd k v s) j = (if j = k then Some v else look s j)"
begin

lemma look_upd_same: "look (upd k v s) k = Some v"
  by (simp add: look_upd)

lemma look_upd_other: "j \<noteq> k \<Longrightarrow> look (upd k v s) j = look s j"
  by (simp add: look_upd)

text \<open>Replaying a log of writes: the last write to a key wins.\<close>

lemma look_fold:
  "look (fold (\<lambda>(k, v). upd k v) log s) j =
     (case map_of (rev log) j of Some v \<Rightarrow> Some v | None \<Rightarrow> look s j)"
  by (induction log arbitrary: s)
     (auto simp: look_upd map_add_def split: option.splits)

end

section \<open>Systems of operations\<close>

locale guarded_system =
  fixes step :: "'s \<Rightarrow> 'op \<Rightarrow> 's"
    and inv :: "'s \<Rightarrow> bool"
  assumes step_inv: "inv s \<Longrightarrow> inv (step s op)"
begin

lemma run_inv: "inv s \<Longrightarrow> inv (foldl step s ops)"
  by (induction ops arbitrary: s) (auto intro: step_inv)

end

text \<open>Operations that may fail to return (\<open>None\<close>: a loop that does not end, or a panic), on
  states where they never do.\<close>

fun run_ops :: "('s \<Rightarrow> 'op \<Rightarrow> 's option) \<Rightarrow> 's \<Rightarrow> 'op list \<Rightarrow> 's option" where
  "run_ops step s [] = Some s"
| "run_ops step s (op # ops) =
     (case step s op of Some s' \<Rightarrow> run_ops step s' ops | None \<Rightarrow> None)"

locale partial_system =
  fixes step :: "'s \<Rightarrow> 'op \<Rightarrow> 's option"
    and inv :: "'s \<Rightarrow> bool"
  assumes step_total: "inv s \<Longrightarrow> \<exists>s'. step s op = Some s' \<and> inv s'"
begin

lemma run_total: "inv s \<Longrightarrow> \<exists>s'. run_ops step s ops = Some s' \<and> inv s'"
proof (induction ops arbitrary: s)
  case (Cons op ops)
  with step_total[of s op] show ?case by auto
qed simp

end

text \<open>An operation that never fails keeps its invariant in the partial sense too.\<close>

sublocale guarded_system \<subseteq> partial: partial_system "\<lambda>s op. Some (step s op)" inv
  by unfold_locales (auto intro: step_inv)

locale simulation = guarded_system step inv
  for step :: "'s \<Rightarrow> 'op \<Rightarrow> 's" and inv :: "'s \<Rightarrow> bool" +
  fixes abs :: "'s \<Rightarrow> 'a"
    and astep :: "'a \<Rightarrow> 'op \<Rightarrow> 'a"
  assumes step_sim: "inv s \<Longrightarrow> abs (step s op) = astep (abs s) op"
begin

lemma run_sim: "inv s \<Longrightarrow> abs (foldl step s ops) = foldl astep (abs s) ops"
  by (induction ops arbitrary: s) (auto simp: step_sim step_inv)

end

text \<open>\<open>Iterator::max_by_key\<close> keeps the last of several maxima, \<open>min_by_key\<close> the first of
  several minima.\<close>

fun max_by_key :: "('a \<Rightarrow> 'k::linorder) \<Rightarrow> 'a list \<Rightarrow> 'a option" where
  "max_by_key f [] = None"
| "max_by_key f (x # xs) =
     (case max_by_key f xs of
        None \<Rightarrow> Some x
      | Some y \<Rightarrow> if f x \<le> f y then Some y else Some x)"

fun min_by_key :: "('a \<Rightarrow> 'k::linorder) \<Rightarrow> 'a list \<Rightarrow> 'a option" where
  "min_by_key f [] = None"
| "min_by_key f (x # xs) =
     (case min_by_key f xs of
        None \<Rightarrow> Some x
      | Some y \<Rightarrow> if f x \<le> f y then Some x else Some y)"

lemma max_by_key_None [simp]: "max_by_key f xs = None \<longleftrightarrow> xs = []"
  by (cases xs; simp split: option.splits)

lemma min_by_key_None [simp]: "min_by_key f xs = None \<longleftrightarrow> xs = []"
  by (cases xs; simp split: option.splits)

lemma max_by_key_Some:
  "max_by_key f xs = Some x \<Longrightarrow> x \<in> set xs \<and> (\<forall>y \<in> set xs. f y \<le> f x)"
proof (induction xs arbitrary: x)
  case (Cons a xs)
  show ?case
  proof (cases "max_by_key f xs")
    case None
    with Cons.prems show ?thesis by (simp add: max_by_key_None)
  next
    case (Some b)
    from Cons.IH[OF Some] Cons.prems Some show ?thesis
      by (auto split: if_splits intro: order_trans)
  qed
qed simp

lemma min_by_key_Some:
  "min_by_key f xs = Some x \<Longrightarrow> x \<in> set xs \<and> (\<forall>y \<in> set xs. f x \<le> f y)"
proof (induction xs arbitrary: x)
  case (Cons a xs)
  show ?case
  proof (cases "min_by_key f xs")
    case None
    with Cons.prems show ?thesis by (simp add: min_by_key_None)
  next
    case (Some b)
    from Cons.IH[OF Some] Cons.prems Some show ?thesis
      by (auto split: if_splits intro: order_trans)
  qed
qed simp

end
