(* ===== verification/Input.thy ===== *)
theory Input
  imports Prelude
begin

text \<open>
  Input keys and their notation: \<open>crates/bemtvi-core/src/input.rs\<close>. \<open>parse_keys\<close> reads a
  notation string (\<open>i\<close>, \<open><Esc>\<close>, \<open><C-w>\<close>) into keys, \<open>key_to_notation\<close> writes
  one key back, \<open>key_to_termcode\<close> and \<open>key_from_control_byte\<close> translate to and from the control
  bytes of a terminal, and \<open>MouseEvent::parse\<close> reads a mouse call. Strings are lists of code
  points, so the source's byte offsets become positions in the list. An error message is
  modelled by a constructor that carries the value the message names.
\<close>

section \<open>Keys\<close>

datatype mouse_button = MbLeft | MbRight | MbMiddle | MbWheel | MbMove | MbX1 | MbX2

datatype mouse_kind = MkPress | MkDrag | MkRelease

datatype wheel_dir = WdUp | WdDown | WdLeft | WdRight

datatype key_code =
    KChar uchar
  | KEnter | KEsc | KBackspace | KTab | KDelete
  | KLeft | KRight | KUp | KDown | KHome | KEnd | KPageUp | KPageDown
  | KFunction "8 word"
  | KMouse mouse_button "8 word" mouse_kind
  | KPasteStart | KPasteEnd
  | KScrollWheel wheel_dir

record key =
  kcode :: key_code
  kctrl :: bool
  kalt :: bool
  kshift :: bool
  kcmd :: bool

definition key_new :: "key_code \<Rightarrow> key" where
  "key_new c = \<lparr>kcode = c, kctrl = False, kalt = False, kshift = False, kcmd = False\<rparr>"

definition key_char :: "uchar \<Rightarrow> key" where
  "key_char c = key_new (KChar c)"

definition key_ctrl :: "uchar \<Rightarrow> key" where
  "key_ctrl c = \<lparr>kcode = KChar c, kctrl = True, kalt = False, kshift = False, kcmd = False\<rparr>"

definition as_char :: "key \<Rightarrow> uchar option" where
  "as_char k =
     (case kcode k of
        KChar c \<Rightarrow> if \<not> kctrl k \<and> \<not> kalt k \<and> \<not> kcmd k then Some c else None
      | _ \<Rightarrow> None)"

section \<open>Mouse events\<close>

datatype mouse_action =
  MaPress | MaDrag | MaRelease | MaMoveTo | MaWheelUp | MaWheelDown | MaWheelLeft | MaWheelRight

record mouse_event =
  me_button :: mouse_button
  me_action :: mouse_action
  me_ctrl :: bool
  me_alt :: bool
  me_shift :: bool
  me_row :: nat
  me_col :: nat
  me_stamp_ms :: nat

datatype mouse_error =
    UnknownButton ustring
  | BadWheelAction ustring
  | BadButtonAction ustring
  | UnknownModifier uchar

fun parse_mouse_modifier_from ::
  "bool \<Rightarrow> bool \<Rightarrow> bool \<Rightarrow> ustring \<Rightarrow> mouse_error + bool \<times> bool \<times> bool" where
  "parse_mouse_modifier_from ctrl alt shift [] = Inr (ctrl, alt, shift)"
| "parse_mouse_modifier_from ctrl alt shift (c # cs) =
     (let u = to_ascii_uppercase c in
      if u = uc CHR ''C'' then parse_mouse_modifier_from True alt shift cs
      else if u = uc CHR ''A'' \<or> u = uc CHR ''M'' \<or> u = uc CHR ''D''
        then parse_mouse_modifier_from ctrl True shift cs
      else if u = uc CHR ''S'' then parse_mouse_modifier_from ctrl alt True cs
      else if u = uc CHR ''-'' then parse_mouse_modifier_from ctrl alt shift cs
      else Inl (UnknownModifier u))"

definition parse_mouse_modifier :: "ustring \<Rightarrow> mouse_error + bool \<times> bool \<times> bool" where
  "parse_mouse_modifier s = parse_mouse_modifier_from False False False s"

definition button_names :: "(ustring \<times> mouse_button) list" where
  "button_names =
     [(us ''left'', MbLeft), (us ''right'', MbRight), (us ''middle'', MbMiddle),
      (us ''wheel'', MbWheel), (us ''move'', MbMove), (us ''x1'', MbX1), (us ''x2'', MbX2)]"

definition wheel_actions :: "(ustring \<times> mouse_action) list" where
  "wheel_actions =
     [(us ''up'', MaWheelUp), (us ''down'', MaWheelDown), (us ''left'', MaWheelLeft),
      (us ''right'', MaWheelRight)]"

definition button_actions :: "(ustring \<times> mouse_action) list" where
  "button_actions =
     [(us ''press'', MaPress), (us ''drag'', MaDrag), (us ''release'', MaRelease)]"

definition mouse_action_of :: "mouse_button \<Rightarrow> ustring \<Rightarrow> mouse_error + mouse_action" where
  "mouse_action_of b action =
     (case b of
        MbWheel \<Rightarrow>
          (case map_of wheel_actions action of
             Some a \<Rightarrow> Inr a | None \<Rightarrow> Inl (BadWheelAction action))
      | MbMove \<Rightarrow> Inr MaMoveTo
      | _ \<Rightarrow>
          (case map_of button_actions action of
             Some a \<Rightarrow> Inr a | None \<Rightarrow> Inl (BadButtonAction action)))"

definition mouse_event_parse ::
  "ustring \<Rightarrow> ustring \<Rightarrow> ustring \<Rightarrow> nat \<Rightarrow> nat \<Rightarrow> mouse_error + mouse_event" where
  "mouse_event_parse button action modifier row col =
     (case map_of button_names button of
        None \<Rightarrow> Inl (UnknownButton button)
      | Some b \<Rightarrow>
          (case mouse_action_of b action of
             Inl e \<Rightarrow> Inl e
           | Inr a \<Rightarrow>
               (case parse_mouse_modifier modifier of
                  Inl e \<Rightarrow> Inl e
                | Inr (ctrl, alt, shift) \<Rightarrow>
                    Inr \<lparr>me_button = b, me_action = a, me_ctrl = ctrl, me_alt = alt,
                         me_shift = shift, me_row = row, me_col = col, me_stamp_ms = 0\<rparr>)))"

section \<open>Control bytes\<close>

definition key_from_control_byte :: "uchar \<Rightarrow> key option" where
  "key_from_control_byte c =
     (if c = 0x0d then Some (key_new KEnter)
      else if c = 0x1b then Some (key_new KEsc)
      else if c = 0x09 then Some (key_new KTab)
      else if c = 0x08 then Some (key_new KBackspace)
      else if c \<le> 0x1f then Some (key_ctrl (to_ascii_lowercase (Bit_Operations.xor c 0x40)))
      else None)"

definition key_to_termcode :: "key \<Rightarrow> uchar option" where
  "key_to_termcode k =
     (if kalt k then None
      else case kcode k of
        KChar c \<Rightarrow>
          if kctrl k then
            (let u = Bit_Operations.xor (to_ascii_uppercase c) 0x40 in
             if u \<le> 0x1f \<or> u = 0x7f then Some u else None)
          else Some c
      | code \<Rightarrow>
          if kctrl k \<or> kshift k then None
          else case code of
            KEnter \<Rightarrow> Some 0x0d
          | KEsc \<Rightarrow> Some 0x1b
          | KTab \<Rightarrow> Some 0x09
          | KBackspace \<Rightarrow> Some 0x08
          | _ \<Rightarrow> None)"

section \<open>Notation: printing\<close>

definition mouse_button_name :: "mouse_button \<Rightarrow> ustring" where
  "mouse_button_name b =
     (case b of MbLeft \<Rightarrow> us ''Left'' | MbRight \<Rightarrow> us ''Right'' | MbMiddle \<Rightarrow> us ''Middle''
      | _ \<Rightarrow> us ''Left'')"

definition mouse_base :: "mouse_button \<Rightarrow> 8 word \<Rightarrow> mouse_kind \<Rightarrow> ustring" where
  "mouse_base b clicks kind =
     (let name =
        mouse_button_name b @
        (case kind of MkPress \<Rightarrow> us ''Mouse'' | MkDrag \<Rightarrow> us ''Drag'' | MkRelease \<Rightarrow> us ''Release'')
      in if kind = MkPress \<and> 1 < clicks then show_nat (unat clicks) @ us ''-'' @ name else name)"

definition wheel_base :: "wheel_dir \<Rightarrow> ustring" where
  "wheel_base d =
     us ''ScrollWheel'' @
     (case d of WdUp \<Rightarrow> us ''Up'' | WdDown \<Rightarrow> us ''Down'' | WdLeft \<Rightarrow> us ''Left'' | WdRight \<Rightarrow> us ''Right'')"

text \<open>The pair \<open>(named, base)\<close>: whether the code needs a \<open><...>\<close> wrapper, and its stem.\<close>

definition notation_base :: "key \<Rightarrow> bool \<times> ustring" where
  "notation_base k =
     (let modified = kctrl k \<or> kalt k \<or> kcmd k in
      case kcode k of
        KChar c \<Rightarrow>
          if c = uc CHR '' '' then (True, us ''Space'')
          else if c = uc CHR ''<'' \<and> \<not> modified then (True, us ''lt'')
          else if c = uc CHR ''>'' \<and> modified then (True, us ''gt'')
          else (False, [c])
      | KEnter \<Rightarrow> (True, us ''CR'')
      | KEsc \<Rightarrow> (True, us ''Esc'')
      | KBackspace \<Rightarrow> (True, us ''BS'')
      | KTab \<Rightarrow> (True, us ''Tab'')
      | KDelete \<Rightarrow> (True, us ''Del'')
      | KLeft \<Rightarrow> (True, us ''Left'')
      | KRight \<Rightarrow> (True, us ''Right'')
      | KUp \<Rightarrow> (True, us ''Up'')
      | KDown \<Rightarrow> (True, us ''Down'')
      | KHome \<Rightarrow> (True, us ''Home'')
      | KEnd \<Rightarrow> (True, us ''End'')
      | KPageUp \<Rightarrow> (True, us ''PageUp'')
      | KPageDown \<Rightarrow> (True, us ''PageDown'')
      | KFunction n \<Rightarrow> (True, us ''F'' @ show_nat (unat n))
      | KPasteStart \<Rightarrow> (True, us ''PasteStart'')
      | KPasteEnd \<Rightarrow> (True, us ''PasteEnd'')
      | KMouse b clicks kind \<Rightarrow> (True, mouse_base b clicks kind)
      | KScrollWheel d \<Rightarrow> (True, wheel_base d))"

definition mod_prefix :: "bool \<Rightarrow> bool \<Rightarrow> bool \<Rightarrow> bool \<Rightarrow> ustring" where
  "mod_prefix ctrl alt cmd shift =
     (if ctrl then us ''C-'' else []) @ (if alt then us ''A-'' else []) @
     (if cmd then us ''D-'' else []) @ (if shift then us ''S-'' else [])"

definition key_to_notation :: "key \<Rightarrow> ustring" where
  "key_to_notation k =
     (case notation_base k of (named, base) \<Rightarrow>
        if \<not> named \<and> \<not> kctrl k \<and> \<not> kalt k \<and> \<not> kcmd k then base
        else us ''<'' @ mod_prefix (kctrl k) (kalt k) (kcmd k) (kshift k \<and> named) @ base @ us ''>'')"

definition replace_with_termcodes :: "key list \<Rightarrow> ustring" where
  "replace_with_termcodes ks =
     concat (map (\<lambda>k. case key_to_termcode k of Some c \<Rightarrow> [c] | None \<Rightarrow> key_to_notation k) ks)"

section \<open>Notation: parsing\<close>

definition mouse_names :: "(ustring \<times> mouse_button \<times> mouse_kind) list" where
  "mouse_names =
     [(us ''leftmouse'', MbLeft, MkPress), (us ''rightmouse'', MbRight, MkPress),
      (us ''middlemouse'', MbMiddle, MkPress), (us ''leftdrag'', MbLeft, MkDrag),
      (us ''rightdrag'', MbRight, MkDrag), (us ''middledrag'', MbMiddle, MkDrag),
      (us ''leftrelease'', MbLeft, MkRelease), (us ''rightrelease'', MbRight, MkRelease),
      (us ''middlerelease'', MbMiddle, MkRelease)]"

text \<open>The count before the first \<open>-\<close>: a run of digits there that overflows a byte refuses the
  whole form; anything else leaves the name as it is, with one click.\<close>

definition click_count :: "ustring \<Rightarrow> (8 word \<times> ustring) option" where
  "click_count lower =
     (case split_once (uc CHR ''-'') lower of
        Some (n, name) \<Rightarrow>
          if n \<noteq> [] \<and> list_all is_ascii_digit n
          then map_option (\<lambda>k. (k, name)) (parse_u8 n)
          else Some (1, lower)
      | None \<Rightarrow> Some (1, lower))"

definition parse_mouse_notation :: "ustring \<Rightarrow> (mouse_button \<times> 8 word \<times> mouse_kind) option" where
  "parse_mouse_notation rest =
     (case click_count (map to_ascii_lowercase rest) of
        None \<Rightarrow> None
      | Some (clicks, name) \<Rightarrow>
          if clicks = 0 \<or> 4 < clicks then None
          else case map_of mouse_names name of
            None \<Rightarrow> None
          | Some (button, kind) \<Rightarrow>
              Some (button, if kind = MkPress then clicks else 1, kind))"

definition special_names :: "(ustring \<times> key_code) list" where
  "special_names =
     [(us ''cr'', KEnter), (us ''enter'', KEnter), (us ''return'', KEnter), (us ''esc'', KEsc),
      (us ''tab'', KTab), (us ''bs'', KBackspace), (us ''backspace'', KBackspace),
      (us ''del'', KDelete), (us ''delete'', KDelete), (us ''space'', KChar (uc CHR '' '')),
      (us ''lt'', KChar (uc CHR ''<'')), (us ''gt'', KChar (uc CHR ''>'')),
      (us ''bar'', KChar (uc CHR ''|'')), (us ''bslash'', KChar 92), (us ''nul'', KChar 0),
      (us ''up'', KUp), (us ''down'', KDown), (us ''left'', KLeft), (us ''right'', KRight),
      (us ''home'', KHome), (us ''end'', KEnd), (us ''pageup'', KPageUp),
      (us ''pagedown'', KPageDown), (us ''pastestart'', KPasteStart), (us ''pasteend'', KPasteEnd),
      (us ''scrollwheelup'', KScrollWheel WdUp), (us ''scrollwheeldown'', KScrollWheel WdDown),
      (us ''scrollwheelleft'', KScrollWheel WdLeft),
      (us ''scrollwheelright'', KScrollWheel WdRight)]"

definition code_of_name :: "ustring \<Rightarrow> key_code option" where
  "code_of_name name =
     (case map_of special_names name of
        Some code \<Rightarrow> Some code
      | None \<Rightarrow>
          (case name of
             [] \<Rightarrow> None
           | c # cs \<Rightarrow>
               if cs \<noteq> [] \<and> c = uc CHR ''f'' \<and> list_all is_ascii_digit cs
               then map_option KFunction (parse_u8 cs)
               else if cs \<noteq> [] then None
               else Some (KChar c)))"

record mods =
  m_ctrl :: bool
  m_shift :: bool
  m_alt :: bool
  m_cmd :: bool

definition no_mods :: mods where
  "no_mods = \<lparr>m_ctrl = False, m_shift = False, m_alt = False, m_cmd = False\<rparr>"

text \<open>The flag a prefix letter sets, when it is one.\<close>

definition set_mod :: "uchar \<Rightarrow> mods \<Rightarrow> mods option" where
  "set_mod c m =
     (let u = to_ascii_uppercase c in
      if u = uc CHR ''C'' then Some (m\<lparr>m_ctrl := True\<rparr>)
      else if u = uc CHR ''S'' then Some (m\<lparr>m_shift := True\<rparr>)
      else if u = uc CHR ''A'' \<or> u = uc CHR ''M'' then Some (m\<lparr>m_alt := True\<rparr>)
      else if u = uc CHR ''D'' then Some (m\<lparr>m_cmd := True\<rparr>)
      else None)"

fun strip_mods :: "mods \<Rightarrow> ustring \<Rightarrow> mods \<times> ustring" where
  "strip_mods m (c # d # rest) =
     (if d = uc CHR ''-'' then
        (case set_mod c m of
           Some m' \<Rightarrow> strip_mods m' rest
         | None \<Rightarrow> (m, c # d # rest))
      else (m, c # d # rest))"
| "strip_mods m rest = (m, rest)"

definition with_mods :: "mods \<Rightarrow> key_code \<Rightarrow> key" where
  "with_mods m c =
     \<lparr>kcode = c, kctrl = m_ctrl m, kalt = m_alt m, kshift = m_shift m, kcmd = m_cmd m\<rparr>"

definition parse_special :: "ustring \<Rightarrow> key option" where
  "parse_special inner =
     (case strip_mods no_mods inner of (m, rest) \<Rightarrow>
        case parse_mouse_notation rest of
          Some (button, clicks, kind) \<Rightarrow> Some (with_mods m (KMouse button clicks kind))
        | None \<Rightarrow> map_option (with_mods m) (code_of_name (map to_ascii_lowercase rest)))"

definition text_mode_ctrl_alias :: "key \<Rightarrow> key option" where
  "text_mode_ctrl_alias k =
     (if \<not> kctrl k \<or> kalt k \<or> kshift k \<or> kcmd k then None
      else if kcode k = KChar (uc CHR ''h'') then Some (key_new KBackspace)
      else if kcode k = KChar (uc CHR ''i'') then Some (key_new KTab)
      else if kcode k = KChar (uc CHR ''j'') \<or> kcode k = KChar (uc CHR ''m'')
        then Some (key_new KEnter)
      else if kcode k = KChar (uc CHR ''['') then Some (key_new KEsc)
      else None)"

definition canonical_ctrl_alias :: "key \<Rightarrow> key" where
  "canonical_ctrl_alias k =
     (if \<not> kctrl k \<or> kalt k \<or> kshift k then k
      else if kcode k = KChar (uc CHR ''i'') then key_new KTab
      else if kcode k = KChar (uc CHR ''m'') then key_new KEnter
      else if kcode k = KChar (uc CHR ''['') then key_new KEsc
      else if kcode k = KChar (uc CHR ''h'') then key_new KBackspace
      else k)"

function parse_keys_inner :: "bool \<Rightarrow> ustring \<Rightarrow> key list" where
  "parse_keys_inner fold_aliases [] = []"
| "parse_keys_inner fold_aliases (c # rest) =
     (if c = uc CHR ''<'' then
        (case split_once (uc CHR ''>'') rest of
           Some (inner, after) \<Rightarrow>
             (case parse_special inner of
                Some k \<Rightarrow>
                  (if fold_aliases then canonical_ctrl_alias k else k)
                  # parse_keys_inner fold_aliases after
              | None \<Rightarrow> key_char (uc CHR ''<'') # parse_keys_inner fold_aliases rest)
         | None \<Rightarrow> key_char (uc CHR ''<'') # parse_keys_inner fold_aliases rest)
      else
        (case key_from_control_byte c of Some k \<Rightarrow> k | None \<Rightarrow> key_char c)
        # parse_keys_inner fold_aliases rest)"
  by pat_completeness auto
termination
  by (relation "measure (\<lambda>(_, s). length s)") (auto dest: split_once_length)

definition parse_keys :: "ustring \<Rightarrow> key list" where
  "parse_keys s = parse_keys_inner True s"

definition parse_keys_raw :: "ustring \<Rightarrow> key list" where
  "parse_keys_raw s = parse_keys_inner False s"

definition replace_termcodes :: "ustring \<Rightarrow> ustring" where
  "replace_termcodes s = replace_with_termcodes (parse_keys s)"

section \<open>Round trip of the notation\<close>

text \<open>
  The keys the notation can carry. A character key holds no raw control character; under Ctrl, Alt
  or Cmd it is no upper-case letter and carries Shift only if it is the space or \<open>>\<close>; without them
  it carries Shift only if it is the space or \<open><\<close>. A mouse key is of one of the three mappable
  buttons and has a click count, of up to four, only on a press. Every other key is free. A client
  can produce keys outside this set; what becomes of them is in \<open>shift_lost\<close>.
\<close>

definition canonical_key :: "key \<Rightarrow> bool" where
  "canonical_key k =
     (let modified = kctrl k \<or> kalt k \<or> kcmd k in
      case kcode k of
        KChar c \<Rightarrow>
          32 \<le> c \<and>
          (c = uc CHR '' '' \<or>
           (if modified then \<not> is_ascii_uppercase c \<and> (kshift k \<longrightarrow> c = uc CHR ''>'')
            else kshift k \<longrightarrow> c = uc CHR ''<''))
      | KMouse b n kind \<Rightarrow>
          b \<in> {MbLeft, MbRight, MbMiddle} \<and>
          (if kind = MkPress then n \<in> {1, 2, 3, 4} else n = 1)
      | _ \<Rightarrow> True)"

lemma strip_mods_prefix:
  "strip_mods m (mod_prefix c a d s @ base) =
   strip_mods \<lparr>m_ctrl = m_ctrl m \<or> c, m_shift = m_shift m \<or> s, m_alt = m_alt m \<or> a,
               m_cmd = m_cmd m \<or> d\<rparr> base"
  by (cases c; cases a; cases d; cases s; cases m)
     (simp_all add: mod_prefix_def set_mod_def ascii_simps)

lemma mod_prefix_no_gt: "uc CHR ''>'' \<notin> set (mod_prefix c a d s)"
  by (simp add: mod_prefix_def)

text \<open>A stem read on its own: the mouse names first, then the special names.\<close>

definition code_of_stem :: "ustring \<Rightarrow> key_code option" where
  "code_of_stem rest =
     (case parse_mouse_notation rest of
        Some (button, clicks, kind) \<Rightarrow> Some (KMouse button clicks kind)
      | None \<Rightarrow> code_of_name (map to_ascii_lowercase rest))"

definition no_mod_stem :: "ustring \<Rightarrow> bool" where
  "no_mod_stem base \<longleftrightarrow> (\<forall>m. strip_mods m base = (m, base)) \<and> uc CHR ''>'' \<notin> set base"

lemma parse_special_prefix:
  assumes "no_mod_stem base" and "code_of_stem base = Some code"
  shows "parse_special (mod_prefix c a d s @ base) =
    Some \<lparr>kcode = code, kctrl = c, kalt = a, kshift = s, kcmd = d\<rparr>"
  using assms
  by (auto simp: parse_special_def strip_mods_prefix no_mods_def no_mod_stem_def
      code_of_stem_def with_mods_def split: option.splits)

lemmas stem_simps =
  code_of_stem_def no_mod_stem_def parse_mouse_notation_def click_count_def split_once_def
  mouse_names_def code_of_name_def special_names_def ascii_simps set_mod_def

lemma stem_char:
  assumes "\<not> is_ascii_uppercase c" and "c \<noteq> uc CHR ''>''"
  shows "no_mod_stem [c] \<and> code_of_stem [c] = Some (KChar c)"
  using assms by (simp add: stem_simps)

lemma stem_function:
  "no_mod_stem (us ''F'' @ show_nat (unat n)) \<and>
   code_of_stem (us ''F'' @ show_nat (unat n)) = Some (KFunction n)"
proof -
  let ?ds = "show_nat (unat n)"
  have dig: "\<forall>d \<in> set ?ds. 48 \<le> d \<and> d \<le> 57"
    using show_nat_digits[of "unat n"] by (simp add: list_all_iff is_ascii_digit_def)
  then have lower: "map to_ascii_lowercase ?ds = ?ds"
    by (intro map_idI) (auto simp: ascii_simps)
  from dig have nodash: "45 \<notin> set ?ds" and nogt: "62 \<notin> set ?ds" by auto
  obtain d ds where ds: "?ds = d # ds" by (cases ?ds) auto
  with nodash have d: "d \<noteq> 45" by auto
  have strip: "strip_mods m (70 # ?ds) = (m, 70 # ?ds)" for m
    using ds d by (simp add: set_mod_def ascii_simps)
  have mouse: "parse_mouse_notation (70 # ?ds) = None"
    using nodash lower
    by (simp add: parse_mouse_notation_def click_count_def split_once_none mouse_names_def ascii_simps)
  have "unat n < 2 ^ LENGTH(8)" by (rule unsigned_less)
  then have "parse_u8 ?ds = Some n"
    using parse_u8_show[of "unat n"] by simp
  then have "code_of_name (102 # ?ds) = Some (KFunction n)"
    using show_nat_digits[of "unat n"] by (simp add: code_of_name_def special_names_def)
  with mouse lower have "code_of_stem (70 # ?ds) = Some (KFunction n)"
    by (simp add: code_of_stem_def ascii_simps)
  with strip nogt show ?thesis by (simp add: no_mod_stem_def)
qed

lemma show_small: "show_nat 2 = [50]" "show_nat 3 = [51]" "show_nat 4 = [52]"
  by (simp_all add: show_nat.simps)

lemma stem_mouse:
  assumes "b \<in> {MbLeft, MbRight, MbMiddle}"
    and "if kind = MkPress then n \<in> {1, 2, 3, 4} else n = 1"
  shows "no_mod_stem (mouse_base b n kind) \<and>
    code_of_stem (mouse_base b n kind) = Some (KMouse b n kind)"
  using assms
  by (cases kind)
     (auto simp: mouse_base_def mouse_button_name_def show_small parse_u8_def digits_value_def
       stem_simps)

lemma stem_named:
  assumes "canonical_key k" and "notation_base k = (named, base)"
    and "named \<or> kctrl k \<or> kalt k \<or> kcmd k"
  shows "no_mod_stem base \<and> code_of_stem base = Some (kcode k)"
proof (cases "kcode k")
  case (KChar c)
  consider "c = 32" | "c = 60" "\<not> (kctrl k \<or> kalt k \<or> kcmd k)"
    | "c = 62" "kctrl k \<or> kalt k \<or> kcmd k"
    | "c \<noteq> 32" "c \<noteq> 62" "\<not> is_ascii_uppercase c" "base = [c]"
    using assms KChar by (auto simp: notation_base_def canonical_key_def Let_def split: if_splits)
  then show ?thesis
  proof cases
    case 4
    with KChar show ?thesis by (simp add: stem_char)
  qed (use assms KChar in \<open>auto simp: notation_base_def stem_simps Let_def\<close>)
next
  case (KMouse b n kind)
  with assms have "b \<in> {MbLeft, MbRight, MbMiddle}"
    and "if kind = MkPress then n \<in> {1, 2, 3, 4} else n = 1" and "base = mouse_base b n kind"
    by (auto simp: notation_base_def canonical_key_def Let_def split: if_splits)
  from stem_mouse[OF this(1,2)] this(3) KMouse show ?thesis by simp
next
  case (KFunction n)
  with assms show ?thesis
    using stem_function[of n] by (simp add: notation_base_def Let_def)
next
  case (KScrollWheel d)
  with assms show ?thesis
    by (cases d) (auto simp: notation_base_def wheel_base_def stem_simps Let_def)
qed (use assms in \<open>auto simp: notation_base_def stem_simps Let_def\<close>)

lemma parse_notation_append:
  assumes "canonical_key k"
  shows "parse_keys_inner False (key_to_notation k @ rest) = k # parse_keys_inner False rest"
proof -
  obtain named base where nb: "notation_base k = (named, base)" by fastforce
  let ?wrap = "named \<or> kctrl k \<or> kalt k \<or> kcmd k"
  show ?thesis
  proof (cases ?wrap)
    case True
    let ?p = "mod_prefix (kctrl k) (kalt k) (kcmd k) (kshift k \<and> named)"
    have stem: "no_mod_stem base" "code_of_stem base = Some (kcode k)"
      using stem_named[OF assms nb True] by auto
    have shift: "(kshift k \<and> named) = kshift k"
      using assms nb True
      by (auto simp: canonical_key_def notation_base_def Let_def split: key_code.splits if_splits)
    have "split_once 62 ((?p @ base) @ 62 # rest) = Some (?p @ base, rest)"
      using stem(1) mod_prefix_no_gt by (intro split_once_append) (auto simp: no_mod_stem_def)
    moreover have "parse_special (?p @ base) = Some k"
      using parse_special_prefix[OF stem] shift by simp
    ultimately show ?thesis
      using True nb by (auto simp: key_to_notation_def)
  next
    case False
    then obtain c where c: "kcode k = KChar c" "base = [c]" "c \<noteq> 60" "32 \<le> c" "\<not> kshift k"
      using assms nb
      by (auto simp: canonical_key_def notation_base_def Let_def split: key_code.splits if_splits)
    with False have "k = key_char c"
      by (cases k) (simp add: key_char_def key_new_def)
    with c False nb show ?thesis
      by (simp add: key_to_notation_def key_from_control_byte_def)
  qed
qed

lemma parse_notation_list:
  "list_all canonical_key ks \<Longrightarrow> parse_keys_raw (concat (map key_to_notation ks)) = ks"
  unfolding parse_keys_raw_def by (induction ks) (auto simp: parse_notation_append)

section \<open>The terminal-alias fold\<close>

lemma canonical_alias_idem [simp]:
  "canonical_ctrl_alias (canonical_ctrl_alias k) = canonical_ctrl_alias k"
  by (simp add: canonical_ctrl_alias_def key_new_def)

lemma canonical_alias_plain [simp]:
  "\<not> kctrl k \<Longrightarrow> canonical_ctrl_alias k = k"
  by (simp add: canonical_ctrl_alias_def)

lemma canonical_alias_char [simp]: "canonical_ctrl_alias (key_char c) = key_char c"
  by (simp add: key_char_def key_new_def)

text \<open>The control bytes, all thirty-two of them, by evaluation.\<close>

definition control_byte_ok :: "nat \<Rightarrow> bool" where
  "control_byte_ok b =
     (case key_from_control_byte b of
        Some k \<Rightarrow> key_to_termcode k = Some b \<and> canonical_ctrl_alias k = k
      | None \<Rightarrow> False)"

lemma control_bytes_ok: "list_all control_byte_ok [0..<32]"
  by code_simp

lemma control_byte_okD: "b \<le> 0x1f \<Longrightarrow> control_byte_ok b"
  using control_bytes_ok by (simp add: list_all_iff)

lemma control_byte_none: "0x1f < b \<Longrightarrow> key_from_control_byte b = None"
  by (simp add: key_from_control_byte_def)

lemma control_byte_alias:
  "key_from_control_byte c = Some k \<Longrightarrow> canonical_ctrl_alias k = k"
  using control_byte_okD[of c] control_byte_none[of c]
  by (cases "c \<le> 0x1f") (auto simp: control_byte_ok_def)

lemma parse_fold_map:
  "parse_keys_inner True s = map canonical_ctrl_alias (parse_keys_inner False s)"
  by (induction "False" s rule: parse_keys_inner.induct)
     (auto split: option.splits dest: control_byte_alias)

section \<open>Properties\<close>

text \<open>C6. notation is re-parseable on the keys it can carry: writing any list of canonical keys and
  parsing the text with the raw parser gives the same keys back, whatever follows each key. Canonical
  are all named keys under any modifiers, wheel and function keys, mouse keys of the three buttons
  (1 to 4 clicks on a press), and characters from the space up that are, under Ctrl, Alt or Cmd, no
  upper-case letter and without Shift unless they are space or \<open>>\<close>, and else without Shift unless they
  are space or \<open><\<close>. Chords outside that set, as Ctrl with Shift on a letter, do not survive.\<close>

theorem notation_roundtrip:
  "list_all canonical_key ks \<Longrightarrow> parse_keys_raw (concat (map key_to_notation ks)) = ks"
  by (rule parse_notation_list)

theorem notation_roundtrip_witness:
  "parse_keys_raw (us ''<C-w><lt>5<2-LeftMouse><S-Tab>'') =
   [key_ctrl (uc CHR ''w''), key_char (uc CHR ''<''), key_char (uc CHR ''5''),
    key_new (KMouse MbLeft 2 MkPress),
    \<lparr>kcode = KTab, kctrl = False, kalt = False, kshift = True, kcmd = False\<rparr>]"
proof -
  let ?ks = "[key_ctrl (uc CHR ''w''), key_char (uc CHR ''<''), key_char (uc CHR ''5''),
    key_new (KMouse MbLeft 2 MkPress),
    \<lparr>kcode = KTab, kctrl = False, kalt = False, kshift = True, kcmd = False\<rparr>]"
  have "list_all canonical_key ?ks" by code_simp
  moreover have "concat (map key_to_notation ?ks) = us ''<C-w><lt>5<2-LeftMouse><S-Tab>''"
    by code_simp
  ultimately show ?thesis using notation_roundtrip[of ?ks] by simp
qed

text \<open>Outside the canonical keys the notation is not lossless: the Shift of a modified character is
  not written, and the case of a modified letter is not read, so both chords come back as another
  key.\<close>

lemma shift_lost:
  "parse_keys_raw (us ''<C-S-c>'') = [(key_ctrl (uc CHR ''c''))\<lparr>kshift := True\<rparr>]"
  "key_to_notation ((key_ctrl (uc CHR ''c''))\<lparr>kshift := True\<rparr>) = us ''<C-c>''"
  "parse_keys_raw (key_to_notation ((key_ctrl (uc CHR ''c''))\<lparr>kshift := True\<rparr>)) =
   [key_ctrl (uc CHR ''c'')]"
  "parse_keys_raw (key_to_notation ((key_char (uc CHR ''X''))\<lparr>kalt := True\<rparr>)) =
   [(key_char (uc CHR ''x''))\<lparr>kalt := True\<rparr>]"
  by code_simp+

text \<open>the default parser is the raw parser followed by the terminal-alias fold, key by key, and
  the fold is idempotent, so no key it returns is an alias chord.\<close>

theorem parse_keys_folds:
  "parse_keys s = map canonical_ctrl_alias (parse_keys_raw s) \<and>
   list_all (\<lambda>k. canonical_ctrl_alias k = k) (parse_keys s)"
  by (simp add: parse_keys_def parse_keys_raw_def parse_fold_map list_all_iff)

text \<open>every control byte decodes to a key that encodes back to the same byte.\<close>

theorem control_byte_roundtrip:
  "b \<le> 0x1f \<Longrightarrow> \<exists>k. key_from_control_byte b = Some k \<and> key_to_termcode k = Some b"
  using control_byte_okD[of b] by (auto simp: control_byte_ok_def split: option.splits)

theorem control_byte_roundtrip_witness:
  "\<exists>k. key_from_control_byte 0x0f = Some k \<and> key_to_termcode k = Some 0x0f"
  by (rule control_byte_roundtrip) simp

text \<open>The encoder tests Ctrl, Alt and Shift but not Command: a Command chord loses its modifier.\<close>

lemma termcode_drops_cmd:
  "replace_termcodes (us ''<D-c>'') = us ''c'' \<and> replace_termcodes (us ''<D-CR>'') = [0x0d]"
  by code_simp

lemma fold_drops_cmd:
  "parse_keys (us ''<C-D-i>'') = [key_new KTab]"
  by code_simp

end
