(* ===== verification/Trie.thy ===== *)
theory Trie
  imports Input "HOL-Library.List_Lexorder"
begin

text \<open>
  The per-mode prefix trie of \<open>crates/bemtvi-server/src/keymap.rs\<close>: mappings stored at key
  paths, the classification of a run of keys against them, the longest complete prefix of a run,
  and the continuations of a prefix. A node's \<open>HashMap\<close> of children is an association list
  with one entry per key; its order stands for the map's unspecified iteration order.
\<close>

datatype mapping_rhs = RhsLua nat | RhsKeys "key list" bool

record mapping =
  rhs :: mapping_rhs
  nowait :: bool
  silent :: bool
  expr :: bool
  desc :: "ustring option"
  dflt :: bool

datatype trie = Node "(key \<times> trie) list" "mapping option"

fun children :: "trie \<Rightarrow> (key \<times> trie) list" where
  "children (Node ch m) = ch"

fun node_mapping :: "trie \<Rightarrow> mapping option" where
  "node_mapping (Node ch m) = m"

definition trie_empty :: trie where
  "trie_empty = Node [] None"

datatype classify = CPrefix | CComplete mapping | CNone

fun trie_insert :: "key list \<Rightarrow> mapping \<Rightarrow> trie \<Rightarrow> trie" where
  "trie_insert [] m (Node ch old) = Node ch (Some m)"
| "trie_insert (k # ks) m (Node ch old) =
     Node (AList.update k
             (trie_insert ks m (case map_of ch k of Some n \<Rightarrow> n | None \<Rightarrow> trie_empty)) ch)
          old"

text \<open>The walk every query makes: down the children, key by key.\<close>

fun node_at :: "trie \<Rightarrow> key list \<Rightarrow> trie option" where
  "node_at t [] = Some t"
| "node_at t (k # ks) =
     (case map_of (children t) k of
        Some n \<Rightarrow> node_at n ks
      | None \<Rightarrow> None)"

definition trie_classify :: "trie \<Rightarrow> key list \<Rightarrow> classify" where
  "trie_classify t ks =
     (case node_at t ks of
        None \<Rightarrow> CNone
      | Some n \<Rightarrow>
          (case (node_mapping n, children n = []) of
             (Some m, True) \<Rightarrow> CComplete m
           | (Some m, False) \<Rightarrow> if nowait m then CComplete m else CPrefix
           | (None, False) \<Rightarrow> CPrefix
           | (None, True) \<Rightarrow> CNone))"

text \<open>\<open>longest_complete\<close>: the loop over the keys with the best match so far; \<open>i\<close> is the number
  of keys already walked.\<close>

fun longest_from :: "trie \<Rightarrow> nat \<Rightarrow> (mapping \<times> nat) option \<Rightarrow> key list \<Rightarrow> (mapping \<times> nat) option"
where
  "longest_from t i best [] = best"
| "longest_from t i best (k # ks) =
     (case map_of (children t) k of
        Some n \<Rightarrow>
          longest_from n (Suc i)
            (case node_mapping n of Some m \<Rightarrow> Some (m, Suc i) | None \<Rightarrow> best) ks
      | None \<Rightarrow> best)"

definition longest_complete :: "trie \<Rightarrow> key list \<Rightarrow> (mapping \<times> nat) option" where
  "longest_complete t ks = longest_from t 0 None ks"

definition trie_lookup :: "trie \<Rightarrow> key list \<Rightarrow> mapping option" where
  "trie_lookup t ks = (case node_at t ks of Some n \<Rightarrow> node_mapping n | None \<Rightarrow> None)"

lemma node_at_append:
  "node_at t (xs @ ys) = (case node_at t xs of Some n \<Rightarrow> node_at n ys | None \<Rightarrow> None)"
  by (induction t xs rule: node_at.induct) (auto split: option.splits)

section \<open>Lookup after insert\<close>

lemma node_mapping_empty [simp]: "node_mapping trie_empty = None"
  and children_empty [simp]: "children trie_empty = []"
  by (simp_all add: trie_empty_def)

lemma node_at_empty: "node_at trie_empty ks = (if ks = [] then Some trie_empty else None)"
  by (cases ks) simp_all

lemma lookup_Nil [simp]: "trie_lookup t [] = node_mapping t"
  by (simp add: trie_lookup_def)

lemma lookup_Cons:
  "trie_lookup t (k # ks) =
     (case map_of (children t) k of Some n \<Rightarrow> trie_lookup n ks | None \<Rightarrow> None)"
  by (simp add: trie_lookup_def split: option.splits)

lemma lookup_empty [simp]: "trie_lookup trie_empty ks = None"
  by (cases ks) (simp_all add: lookup_Cons)

lemma lookup_insert:
  "trie_lookup (trie_insert ks m t) js = (if js = ks then Some m else trie_lookup t js)"
proof (induction ks m t arbitrary: js rule: trie_insert.induct)
  case (1 m ch old)
  then show ?case by (cases js) (simp_all add: lookup_Cons)
next
  case (2 k ks m ch old)
  show ?case
  proof (cases js)
    case (Cons j js')
    with "2.IH"[of js'] show ?thesis
      by (auto simp: lookup_Cons update_conv' split: option.splits)
  qed simp
qed

interpretation tr: update_store trie_lookup trie_insert
  by unfold_locales (rule lookup_insert)

section \<open>Well-formed tries\<close>

text \<open>Every node but an empty root leads to a mapping, and has one child per key.\<close>

fun wf_trie :: "trie \<Rightarrow> bool" where
  "wf_trie (Node ch m) \<longleftrightarrow>
     (ch \<noteq> [] \<or> m \<noteq> None) \<and> distinct (map fst ch) \<and> (\<forall>(k, n) \<in> set ch. wf_trie n)"

lemma wf_children: "wf_trie t \<Longrightarrow> map_of (children t) k = Some n \<Longrightarrow> wf_trie n"
  by (cases t) (auto dest: map_of_SomeD)

lemma update_mem: "(j, n) \<in> set (AList.update k v al) \<Longrightarrow> (j, n) = (k, v) \<or> (j, n) \<in> set al"
  by (induction al) (auto split: if_splits)

lemma update_nonempty [simp]: "AList.update k v al \<noteq> []"
  by (cases al) auto

lemma wf_insert: "wf_trie t \<or> t = trie_empty \<Longrightarrow> wf_trie (trie_insert ks m t)"
proof (induction ks m t rule: trie_insert.induct)
  case (1 m ch old)
  then show ?case by (auto simp: trie_empty_def)
next
  case (2 k ks m ch old)
  let ?n = "case map_of ch k of Some n \<Rightarrow> n | None \<Rightarrow> trie_empty"
  have "wf_trie ?n \<or> ?n = trie_empty"
    using 2(2) wf_children[of "Node ch old" k]
    by (auto simp: trie_empty_def split: option.splits)
  then have "wf_trie (trie_insert ks m ?n)" by (rule 2(1))
  moreover have "\<forall>(j, n) \<in> set ch. wf_trie n"
    using 2(2) by (auto simp: trie_empty_def)
  moreover have "distinct (map fst ch)"
    using 2(2) by (auto simp: trie_empty_def)
  ultimately show ?case
    by (auto dest!: update_mem simp: distinct_update)
qed

lemma wf_node_at: "wf_trie t \<Longrightarrow> node_at t ks = Some n \<Longrightarrow> wf_trie n"
  by (induction t ks rule: node_at.induct) (auto split: option.splits dest: wf_children)

section \<open>The longest complete prefix\<close>

text \<open>The specification: no longer prefix of the keys is a mapping.\<close>

definition maximal_prefix :: "trie \<Rightarrow> key list \<Rightarrow> nat \<Rightarrow> bool" where
  "maximal_prefix t ks used \<longleftrightarrow>
     (\<forall>n. used < n \<and> n \<le> length ks \<longrightarrow> trie_lookup t (take n ks) = None)"

lemma maximal_prefix_Cons:
  assumes "map_of (children t) k = Some c"
  shows "maximal_prefix t (k # ks) (Suc u) = maximal_prefix c ks u"
proof
  assume long: "maximal_prefix t (k # ks) (Suc u)"
  show "maximal_prefix c ks u"
    unfolding maximal_prefix_def
  proof (intro allI impI)
    fix n assume "u < n \<and> n \<le> length ks"
    with long have "trie_lookup t (take (Suc n) (k # ks)) = None"
      unfolding maximal_prefix_def by (metis Suc_less_eq Suc_le_mono length_Cons)
    with assms show "trie_lookup c (take n ks) = None" by (simp add: lookup_Cons)
  qed
next
  assume "maximal_prefix c ks u"
  with assms show "maximal_prefix t (k # ks) (Suc u)"
    by (auto simp: maximal_prefix_def lookup_Cons take_Cons split: nat.splits)
qed

lemma maximal_prefix_leaf:
  "map_of (children t) k = None \<Longrightarrow> maximal_prefix t (k # ks) 0"
  by (auto simp: maximal_prefix_def lookup_Cons take_Cons split: nat.splits)

lemma maximal_prefix_0:
  assumes "map_of (children t) k = Some c" and "node_mapping c = None" and "maximal_prefix c ks 0"
  shows "maximal_prefix t (k # ks) 0"
  unfolding maximal_prefix_def
proof (intro allI impI)
  fix n assume n: "0 < n \<and> n \<le> length (k # ks)"
  then obtain j where j: "n = Suc j" "j \<le> length ks" by (cases n) auto
  with assms(2,3) have "trie_lookup c (take j ks) = None"
    by (cases "j = 0") (auto simp: maximal_prefix_def)
  with assms(1) j show "trie_lookup t (take n (k # ks)) = None" by (simp add: lookup_Cons)
qed

lemma longest_from_spec:
  "case longest_from t i best ks of
     None \<Rightarrow> best = None \<and> maximal_prefix t ks 0
   | Some (m, u) \<Rightarrow>
       (best = Some (m, u) \<and> maximal_prefix t ks 0) \<or>
       (\<exists>n. u = i + n \<and> 0 < n \<and> n \<le> length ks \<and> trie_lookup t (take n ks) = Some m \<and>
            maximal_prefix t ks n)"
proof (induction ks arbitrary: t i best)
  case Nil
  then show ?case by (auto simp: maximal_prefix_def split: option.splits)
next
  case (Cons k ks)
  show ?case
  proof (cases "map_of (children t) k")
    case None
    then show ?thesis by (auto simp: maximal_prefix_leaf split: option.splits)
  next
    case (Some n)
    let ?best = "case node_mapping n of Some m \<Rightarrow> Some (m, Suc i) | None \<Rightarrow> best"
    let ?r = "longest_from n (Suc i) ?best ks"
    have eq: "longest_from t i best (k # ks) = ?r" using Some by simp
    note IH = Cons.IH[where t = n and i = "Suc i" and best = ?best]
    show ?thesis
    proof (cases ?r)
      case None
      with IH have "?best = None" "maximal_prefix n ks 0" by auto
      with Some None show ?thesis
        by (auto simp: eq intro: maximal_prefix_0 split: option.splits)
    next
      case r: (Some mu)
      obtain m u where mu: "mu = (m, u)" by fastforce
      from IH r mu consider
        (here) "?best = Some (m, u)" "maximal_prefix n ks 0"
        | (deep) j where "u = Suc i + j" "0 < j" "j \<le> length ks"
            "trie_lookup n (take j ks) = Some m" "maximal_prefix n ks j"
        by auto
      then show ?thesis
      proof cases
        case here
        show ?thesis
        proof (cases "node_mapping n")
          case None
          with here Some r mu show ?thesis by (auto simp: eq intro: maximal_prefix_0)
        next
          case (Some m')
          with here \<open>map_of (children t) k = Some n\<close> r mu show ?thesis
            by (auto simp: eq lookup_Cons maximal_prefix_Cons intro!: exI[of _ 1])
        qed
      next
        case deep
        with Some have "\<exists>n'. u = i + n' \<and> 0 < n' \<and> n' \<le> length (k # ks) \<and>
          trie_lookup t (take n' (k # ks)) = Some m \<and> maximal_prefix t (k # ks) n'"
          by (intro exI[of _ "Suc j"]) (auto simp: lookup_Cons maximal_prefix_Cons)
        with r mu show ?thesis unfolding eq by auto
      qed
    qed
  qed
qed

lemma longest_complete_Some:
  "longest_complete t ks = Some (m, used) \<Longrightarrow>
   0 < used \<and> used \<le> length ks \<and> trie_lookup t (take used ks) = Some m \<and>
   maximal_prefix t ks used"
  using longest_from_spec[where best = None and t = t and i = 0 and ks = ks] by (auto simp: longest_complete_def)

lemma longest_complete_None:
  "longest_complete t ks = None \<Longrightarrow> maximal_prefix t ks 0"
  using longest_from_spec[where best = None and t = t and i = 0 and ks = ks] by (auto simp: longest_complete_def)

section \<open>Classification\<close>

lemma classify_complete: "trie_classify t ks = CComplete m \<Longrightarrow> trie_lookup t ks = Some m"
  by (auto simp: trie_classify_def trie_lookup_def split: option.splits if_splits bool.splits)

lemma classify_node: "trie_classify t ks \<noteq> CNone \<Longrightarrow> \<exists>n. node_at t ks = Some n"
  by (auto simp: trie_classify_def split: option.splits)

text \<open>In a well-formed trie the source's unreachable arm is unreachable.\<close>

lemma classify_none_iff: "wf_trie t \<Longrightarrow> trie_classify t ks = CNone \<longleftrightarrow> node_at t ks = None"
proof (cases "node_at t ks")
  case (Some n)
  assume "wf_trie t"
  with Some have "wf_trie n" by (blast intro: wf_node_at)
  then have "children n \<noteq> [] \<or> node_mapping n \<noteq> None" by (cases n) auto
  with Some show ?thesis by (auto simp: trie_classify_def split: option.splits bool.splits)
qed (simp add: trie_classify_def)

fun trie_height :: "trie \<Rightarrow> nat" where
  "trie_height (Node ch m) = foldr max (map (\<lambda>(k, n). Suc (trie_height n)) ch) 0"

lemma foldr_max_mem: "x \<in> set xs \<Longrightarrow> x \<le> foldr max xs (0::nat)"
  by (induction xs) auto

lemma height_child: "map_of (children t) k = Some n \<Longrightarrow> Suc (trie_height n) \<le> trie_height t"
proof (cases t)
  case (Node ch m)
  assume "map_of (children t) k = Some n"
  with Node have "(k, n) \<in> set ch" by (simp add: map_of_SomeD)
  then have "Suc (trie_height n) \<in> set (map (\<lambda>(k, n). Suc (trie_height n)) ch)" by force
  with Node show ?thesis by (simp add: foldr_max_mem del: set_map)
qed

lemma height_node_at: "node_at t ks = Some n \<Longrightarrow> length ks \<le> trie_height t"
proof (induction t ks rule: node_at.induct)
  case (2 t k ks)
  then obtain c where c: "map_of (children t) k = Some c" "node_at c ks = Some n"
    by (auto split: option.splits)
  with 2 have "length ks \<le> trie_height c" by auto
  with height_child[OF c(1)] show ?case by simp
qed simp

section \<open>Continuations\<close>

datatype continuation_kind = CkMap | CkGroup

fun continuation_kind_str :: "continuation_kind \<Rightarrow> ustring" where
  "continuation_kind_str CkMap = us ''map''"
| "continuation_kind_str CkGroup = us ''group''"

record continuation =
  cont_key :: ustring
  cont_desc :: "ustring option"
  cont_kind :: continuation_kind
  available :: bool

definition continuation_of :: "key \<times> trie \<Rightarrow> continuation" where
  "continuation_of = (\<lambda>(k, child).
     (case (case node_mapping child of
              Some m \<Rightarrow> (CkMap, desc m)
            | None \<Rightarrow> (CkGroup, None)) of
        (kind, d) \<Rightarrow>
          \<lparr>cont_key = key_to_notation k, cont_desc = d, cont_kind = kind, available = True\<rparr>))"

definition trie_continuations :: "trie \<Rightarrow> key list \<Rightarrow> continuation list option" where
  "trie_continuations t ks =
     (case node_at t ks of
        None \<Rightarrow> None
      | Some n \<Rightarrow> Some (sort_key cont_key (map continuation_of (children n))))"

text \<open>The continuations of a prefix are exactly the keys that extend it, in the order of their
  notation.\<close>

lemma continuations_of_node:
  assumes "wf_trie t" and "node_at t ks = Some n"
  shows "\<exists>cs. trie_continuations t ks = Some cs \<and> sorted (map cont_key cs) \<and>
    set cs = {continuation_of (k, c) | k c. node_at t (ks @ [k]) = Some c}"
proof -
  from assms have "wf_trie n" by (rule wf_node_at)
  then have dist: "distinct (map fst (children n))" by (cases n) simp
  have "node_at t (ks @ [k]) = Some c \<longleftrightarrow> (k, c) \<in> set (children n)" for k c
    using assms(2) map_of_eq_Some_iff[OF dist, of k c]
    by (auto simp: node_at_append split: option.splits)
  then have "continuation_of ` set (children n) =
      {continuation_of (k, c) | k c. node_at t (ks @ [k]) = Some c}"
    by force
  with assms(2) show ?thesis by (simp add: trie_continuations_def)
qed

end
