(* ===== verification/Mode.thy ===== *)
theory Mode
  imports Prelude
begin

text \<open>
  The editor's input modes and the context that owns a keystroke:
  \<open>crates/bemtvi-core/src/mode.rs\<close>.
\<close>

datatype mode =
    Normal | Insert | Replace | Visual | VisualLine | Command | MultiCursor | Select
  | HelixNormal | HelixSelect | Terminal

datatype key_context = CtxEditing | CtxPicker | CtxSelect

fun mode_label :: "mode \<Rightarrow> ustring" where
  "mode_label Normal = us ''NORMAL''"
| "mode_label Insert = us ''INSERT''"
| "mode_label Replace = us ''REPLACE''"
| "mode_label Visual = us ''VISUAL''"
| "mode_label VisualLine = us ''V-LINE''"
| "mode_label Command = us ''COMMAND''"
| "mode_label MultiCursor = us ''MULTICURSOR''"
| "mode_label Select = us ''SELECT''"
| "mode_label HelixNormal = us ''HELIX''"
| "mode_label HelixSelect = us ''HELIX-SEL''"
| "mode_label Terminal = us ''TERMINAL''"

fun short_code :: "mode \<Rightarrow> ustring" where
  "short_code Normal = us ''n''"
| "short_code Insert = us ''i''"
| "short_code Replace = us ''R''"
| "short_code Visual = us ''v''"
| "short_code VisualLine = us ''V''"
| "short_code Command = us ''c''"
| "short_code MultiCursor = us ''m''"
| "short_code Select = us ''s''"
| "short_code HelixNormal = us ''hn''"
| "short_code HelixSelect = us ''hs''"
| "short_code Terminal = us ''t''"

definition is_multicursor :: "mode \<Rightarrow> bool" where
  "is_multicursor m \<longleftrightarrow> m = MultiCursor"

definition is_insert :: "mode \<Rightarrow> bool" where
  "is_insert m \<longleftrightarrow> m = Insert \<or> m = Replace"

definition is_visual :: "mode \<Rightarrow> bool" where
  "is_visual m \<longleftrightarrow> m = Visual \<or> m = VisualLine"

definition is_helix :: "mode \<Rightarrow> bool" where
  "is_helix m \<longleftrightarrow> m = HelixNormal \<or> m = HelixSelect"

definition shows_selection :: "mode \<Rightarrow> bool" where
  "shows_selection m \<longleftrightarrow> is_visual m \<or> is_helix m"

lemmas mode_preds =
  is_multicursor_def is_insert_def is_visual_def is_helix_def shows_selection_def

text \<open>The reported codes are pairwise different, so a change of mode is always reported.\<close>

lemma short_code_inject: "short_code m = short_code n \<longleftrightarrow> m = n"
  by (cases m; cases n) simp_all

lemma short_code_nonempty [simp]: "short_code m \<noteq> []"
  by (cases m) simp_all

end
