(* ===== verification/Keymap.thy ===== *)
theory Keymap
  imports Trie Mode "HOL-Library.Product_Lexorder"
begin

text \<open>
  The key-mapping engine of \<open>crates/bemtvi-server/src/keymap.rs\<close>: the registry snapshot in
  precedence order, the per-mode tries compiled from it, and the matcher that withholds the keys
  of a live prefix, fires a completed mapping, replays a broken prefix and re-feeds a remapped
  right-hand side. The command grammar consulted on the break path is a function argument
  (\<open>grammar\<close>), so every statement holds for the editor's own \<open>command_status\<close>.

  \<open>feed_key\<close> and its callees are mutually recursive in the source. The model ties the knot with a
  fuel that counts the nesting of \<open>feed_key\<close> calls; \<open>None\<close> stands for running out of fuel or
  for the source's panic on a missing trie. \<open>feed_fuel\<close> is an amount that is always enough.
\<close>

section \<open>Scopes and buckets\<close>

datatype match_scope = Editing mode | Modeless mode | Widget uchar

definition MODELESS_INSERT :: uchar where
  "MODELESS_INSERT = uc CHR ''E''"

definition MODELESS_SELECT :: uchar where
  "MODELESS_SELECT = uc CHR ''Z''"

definition mode_key :: "mode \<Rightarrow> uchar" where
  "mode_key m =
     (if m = MultiCursor then uc CHR ''m''
      else case short_code m of c # _ \<Rightarrow> c | [] \<Rightarrow> uc CHR ''n'')"

fun bucket :: "match_scope \<Rightarrow> uchar" where
  "bucket (Editing m) = mode_key m"
| "bucket (Modeless m) = (if m = Select then MODELESS_SELECT else MODELESS_INSERT)"
| "bucket (Widget b) = b"

fun oracle_mode :: "match_scope \<Rightarrow> mode option" where
  "oracle_mode (Editing m) = (if is_helix m then None else Some m)"
| "oracle_mode (Modeless m) = Some m"
| "oracle_mode (Widget b) = None"

fun mode_code :: "match_scope \<Rightarrow> ustring" where
  "mode_code (Editing m) = short_code m"
| "mode_code (Modeless m) = short_code m"
| "mode_code (Widget b) =
     (if b = uc CHR ''P'' then us ''picker'' else if b = uc CHR ''S'' then us ''select'' else [])"

fun widget_bucket :: "key_context \<Rightarrow> uchar option" where
  "widget_bucket CtxEditing = None"
| "widget_bucket CtxPicker = Some (uc CHR ''P'')"
| "widget_bucket CtxSelect = Some (uc CHR ''S'')"

definition mode_buckets :: "ustring \<Rightarrow> uchar list" where
  "mode_buckets code =
     (if code = us ''n'' then us ''n''
      else if code = us ''i'' then us ''i''
      else if code = us ''c'' then us ''c''
      else if code = us ''v'' \<or> code = us ''x'' then us ''vV''
      else if code = us ''s'' then us ''s''
      else if code = us ''m'' then us ''m''
      else if code = us ''helix'' then us ''h''
      else if code = us ''picker'' then us ''P''
      else if code = us ''select'' then us ''S''
      else if code = us ''cmdline'' then us ''c''
      else if code = [] then us ''nvVm''
      else [])"

section \<open>The registry and the tries compiled from it\<close>

datatype raw_rhs = RawLua nat | RawStr ustring

record raw_keymap =
  rk_modes :: "ustring list"
  rk_lhs :: ustring
  rk_rhs :: raw_rhs
  rk_noremap :: bool
  rk_buffer :: "nat option"
  rk_desc :: "ustring option"
  rk_nowait :: bool
  rk_silent :: bool
  rk_expr :: bool
  rk_default :: bool
  rk_seq :: nat

type_synonym tries = "uchar \<Rightarrow> trie option"

record keymaps =
  version :: nat
  snapshot :: "raw_keymap list"
  built_buffer :: "nat option"
  tries :: tries
  pending :: "key list"
  remap_budget :: nat
  keyboard_protocol :: bool

definition keymaps_default :: keymaps where
  "keymaps_default =
     \<lparr>version = 0, snapshot = [], built_buffer = None, tries = Map.empty, pending = [],
      remap_budget = 0, keyboard_protocol = False\<rparr>"

definition MAX_MAP_DEPTH :: nat where
  "MAX_MAP_DEPTH = 100"

text \<open>The precedence ladder: buffer-local over global, user over default, later over earlier.\<close>

definition rank :: "raw_keymap \<Rightarrow> bool \<times> bool \<times> nat" where
  "rank e = (rk_buffer e \<noteq> None, \<not> rk_default e, rk_seq e)"

definition set_snapshot :: "nat \<Rightarrow> raw_keymap list \<Rightarrow> keymaps \<Rightarrow> keymaps" where
  "set_snapshot v snap km =
     km\<lparr>version := v, snapshot := sort_key rank snap, built_buffer := None\<rparr>"

definition set_keyboard_protocol :: "bool \<Rightarrow> keymaps \<Rightarrow> keymaps" where
  "set_keyboard_protocol active km =
     (if keyboard_protocol km \<noteq> active
      then km\<lparr>keyboard_protocol := active, built_buffer := None\<rparr> else km)"

definition needs_build :: "nat \<Rightarrow> keymaps \<Rightarrow> bool" where
  "needs_build buffer km \<longleftrightarrow> built_buffer km \<noteq> Some buffer"

definition entry_lhs :: "bool \<Rightarrow> raw_keymap \<Rightarrow> key list" where
  "entry_lhs protocol e = (if protocol then parse_keys_raw (rk_lhs e) else parse_keys (rk_lhs e))"

definition entry_mapping :: "raw_keymap \<Rightarrow> mapping" where
  "entry_mapping e =
     \<lparr>rhs = (case rk_rhs e of
               RawLua i \<Rightarrow> RhsLua i
             | RawStr s \<Rightarrow> RhsKeys (parse_keys s) (rk_noremap e)),
      nowait = rk_nowait e, silent = rk_silent e, expr = rk_expr e, desc = rk_desc e,
      dflt = rk_default e\<rparr>"

text \<open>\<open>tries.entry(bucket).or_default().insert(lhs, mapping)\<close>\<close>

definition tries_insert :: "uchar \<Rightarrow> key list \<Rightarrow> mapping \<Rightarrow> tries \<Rightarrow> tries" where
  "tries_insert b ks m ts =
     ts(b \<mapsto> trie_insert ks m (case ts b of Some t \<Rightarrow> t | None \<Rightarrow> trie_empty))"

definition overlay_bucket :: "ustring \<Rightarrow> uchar option" where
  "overlay_bucket code =
     (if code = us ''i'' then Some MODELESS_INSERT
      else if code = us ''s'' then Some MODELESS_SELECT else None)"

definition insert_mode :: "key list \<Rightarrow> mapping \<Rightarrow> ustring \<Rightarrow> tries \<Rightarrow> tries" where
  "insert_mode ks m code ts =
     (let ts = fold (\<lambda>b. tries_insert b ks m) (mode_buckets code) ts in
      case overlay_bucket code of Some b \<Rightarrow> tries_insert b ks m ts | None \<Rightarrow> ts)"

definition build_entry ::
  "bool \<Rightarrow> nat \<Rightarrow> raw_keymap \<Rightarrow> tries \<times> (key list \<times> mapping) list
   \<Rightarrow> tries \<times> (key list \<times> mapping) list" where
  "build_entry protocol buffer e = (\<lambda>(ts, layer).
     if (case rk_buffer e of Some b \<Rightarrow> b \<noteq> buffer | None \<Rightarrow> False) then (ts, layer)
     else let ks = entry_lhs protocol e in
       if ks = [] then (ts, layer)
       else let m = entry_mapping e in
         (fold (insert_mode ks m) (rk_modes e) ts,
          if list_ex (\<lambda>code. code = us ''modeless'') (rk_modes e) then layer @ [(ks, m)] else layer))"

definition build_for :: "nat \<Rightarrow> keymaps \<Rightarrow> keymaps" where
  "build_for buffer km =
     (case fold (build_entry (keyboard_protocol km) buffer) (snapshot km) (Map.empty, []) of
        (ts, layer) \<Rightarrow>
          km\<lparr>built_buffer := Some buffer,
             tries := fold (\<lambda>(ks, m) ts.
                        fold (\<lambda>b. tries_insert b ks m) [MODELESS_INSERT, MODELESS_SELECT] ts)
                      layer ts\<rparr>)"

section \<open>Queries\<close>

record key_pending =
  kp_mode :: ustring
  kp_keys :: ustring
  kp_continuations :: "continuation list"
  kp_label :: "ustring option"

definition pending_empty :: "keymaps \<Rightarrow> bool" where
  "pending_empty km \<longleftrightarrow> pending km = []"

definition pending_notation :: "keymaps \<Rightarrow> ustring" where
  "pending_notation km = concat (map key_to_notation (pending km))"

definition pending_context :: "match_scope \<Rightarrow> keymaps \<Rightarrow> key_pending option" where
  "pending_context sc km =
     (if pending km = [] then None
      else case tries km (bucket sc) of
        None \<Rightarrow> None
      | Some t \<Rightarrow>
          (case trie_continuations t (pending km) of
             None \<Rightarrow> None
           | Some cs \<Rightarrow>
               Some \<lparr>kp_mode = mode_code sc, kp_keys = pending_notation km,
                     kp_continuations = cs, kp_label = None\<rparr>))"

definition continuations_at :: "match_scope \<Rightarrow> key list \<Rightarrow> keymaps \<Rightarrow> continuation list" where
  "continuations_at sc ks km =
     (case tries km (bucket sc) of
        None \<Rightarrow> []
      | Some t \<Rightarrow> (case trie_continuations t ks of None \<Rightarrow> [] | Some cs \<Rightarrow> cs))"

definition lookup_mouse :: "match_scope \<Rightarrow> key \<Rightarrow> keymaps \<Rightarrow> mapping option" where
  "lookup_mouse sc k km =
     (case tries km (bucket sc) of
        None \<Rightarrow> None
      | Some t \<Rightarrow> (case trie_classify t [k] of CComplete m \<Rightarrow> Some m | _ \<Rightarrow> None))"

definition scope_binds :: "match_scope \<Rightarrow> key \<Rightarrow> keymaps \<Rightarrow> bool" where
  "scope_binds sc k km =
     (case tries km (bucket sc) of
        None \<Rightarrow> False
      | Some t \<Rightarrow> trie_classify t [k] \<noteq> CNone)"

definition lookup_default :: "match_scope \<Rightarrow> key \<Rightarrow> keymaps \<Rightarrow> mapping option" where
  "lookup_default sc k km =
     (case tries km (bucket sc) of
        None \<Rightarrow> None
      | Some t \<Rightarrow>
          (case trie_classify t [k] of
             CComplete m \<Rightarrow> if dflt m then Some m else None
           | _ \<Rightarrow> None))"

section \<open>The matcher\<close>

datatype key_step = SEditor key | SFire mapping_rhs bool bool "key list"

datatype command_status = CsComplete | CsPrefix | CsInvalid

type_synonym grammar = "mode \<Rightarrow> key list \<Rightarrow> command_status"
type_synonym mstate = "keymaps \<times> key_step list"

fun feed_all :: "(key \<Rightarrow> mstate \<Rightarrow> mstate option) \<Rightarrow> key list \<Rightarrow> mstate \<Rightarrow> mstate option" where
  "feed_all feed [] st = Some st"
| "feed_all feed (k # ks) st =
     (case feed k st of Some st' \<Rightarrow> feed_all feed ks st' | None \<Rightarrow> None)"

definition fire ::
  "(key \<Rightarrow> mstate \<Rightarrow> mstate option) \<Rightarrow> mapping \<Rightarrow> key list \<Rightarrow> mstate \<Rightarrow> mstate option" where
  "fire feed m lhs = (\<lambda>(km, steps).
     let fired = Some (km, steps @ [SFire (rhs m) (silent m) (expr m) lhs]) in
     case rhs m of
       RhsKeys ks False \<Rightarrow>
         if 0 < remap_budget km
         then feed_all feed ks (km\<lparr>remap_budget := remap_budget km - 1\<rparr>, steps)
         else fired
     | _ \<Rightarrow> fired)"

text \<open>The replayed run, when the keys were replayed raw, with the new state.\<close>

definition resolve_buffered ::
  "(key \<Rightarrow> mstate \<Rightarrow> mstate option) \<Rightarrow> trie \<Rightarrow> key list \<Rightarrow> mstate
   \<Rightarrow> (key list option \<times> mstate) option" where
  "resolve_buffered feed t buffered st =
     (case longest_complete t buffered of
        Some (m, used) \<Rightarrow>
          (case fire feed m (take used buffered) st of
             None \<Rightarrow> None
           | Some st' \<Rightarrow> map_option (Pair None) (feed_all feed (drop used buffered) st'))
      | None \<Rightarrow> Some (Some buffered, fst st, snd st @ map SEditor buffered))"

text \<open>Whether the key that broke a raw-replayed run completes a built-in command with it.\<close>

definition oracle_releases ::
  "grammar \<Rightarrow> match_scope \<Rightarrow> trie \<Rightarrow> key list option \<Rightarrow> key \<Rightarrow> bool" where
  "oracle_releases grammar sc t raw k =
     (case (raw, oracle_mode sc) of
        (Some raw_run, Some m) \<Rightarrow>
          (let is_own_mapping = longest_complete t [k] \<noteq> None;
               would_hold = (\<not> is_own_mapping \<and> trie_classify t [k] = CPrefix);
               run_already_complete = (grammar m raw_run = CsComplete)
           in would_hold \<and> \<not> run_already_complete \<and> grammar m (raw_run @ [k]) = CsComplete)
      | _ \<Rightarrow> False)"

fun feed_key :: "grammar \<Rightarrow> nat \<Rightarrow> match_scope \<Rightarrow> key \<Rightarrow> mstate \<Rightarrow> mstate option" where
  "feed_key grammar 0 sc k st = None"
| "feed_key grammar (Suc n) sc k (km, steps) =
     (case tries km (bucket sc) of
        None \<Rightarrow> Some (km\<lparr>pending := []\<rparr>, steps @ map SEditor (pending km) @ [SEditor k])
      | Some t \<Rightarrow>
          (let buffered = pending km; held = buffered @ [k] in
           case trie_classify t held of
             CPrefix \<Rightarrow> Some (km\<lparr>pending := held\<rparr>, steps)
           | CComplete m \<Rightarrow>
               fire (feed_key grammar n sc) m held (km\<lparr>pending := []\<rparr>, steps)
           | CNone \<Rightarrow>
               if buffered = [] then Some (km\<lparr>pending := []\<rparr>, steps @ [SEditor k])
               else
                 (case resolve_buffered (feed_key grammar n sc) t buffered
                         (km\<lparr>pending := []\<rparr>, steps) of
                    None \<Rightarrow> None
                  | Some (raw, km', steps') \<Rightarrow>
                      if oracle_releases grammar sc t raw k then Some (km', steps' @ [SEditor k])
                      else feed_key grammar n sc k (km', steps'))))"

definition scope_height :: "match_scope \<Rightarrow> keymaps \<Rightarrow> nat" where
  "scope_height sc km =
     (case tries km (bucket sc) of Some t \<Rightarrow> trie_height t | None \<Rightarrow> 0)"

text \<open>Enough fuel: each unit of the remap budget opens at most a trie's height of nested calls,
  and the keys already withheld at most their number.\<close>

definition fuel_bound :: "nat \<Rightarrow> nat \<Rightarrow> nat \<Rightarrow> nat" where
  "fuel_bound budget h withheld = budget * (h + 1) + withheld + 1"

definition feed_fuel :: "match_scope \<Rightarrow> keymaps \<Rightarrow> nat" where
  "feed_fuel sc km = fuel_bound MAX_MAP_DEPTH (scope_height sc km) (length (pending km))"

definition feed :: "grammar \<Rightarrow> match_scope \<Rightarrow> key \<Rightarrow> keymaps \<Rightarrow> mstate option" where
  "feed grammar sc k km =
     feed_key grammar (feed_fuel sc km) sc k (km\<lparr>remap_budget := MAX_MAP_DEPTH\<rparr>, [])"

text \<open>One pass of the idle flush: resolve what is withheld as if a timeout had passed.\<close>

definition flush_pass ::
  "grammar \<Rightarrow> nat \<Rightarrow> match_scope \<Rightarrow> mstate \<Rightarrow> mstate option" where
  "flush_pass grammar fuel sc = (\<lambda>(km, steps).
     let buffered = pending km; st = (km\<lparr>pending := []\<rparr>, steps) in
     case tries km (bucket sc) of
       Some t \<Rightarrow> map_option snd (resolve_buffered (feed_key grammar fuel sc) t buffered st)
     | None \<Rightarrow> Some (km\<lparr>pending := []\<rparr>, steps @ map SEditor buffered))"

function flush_loop :: "grammar \<Rightarrow> nat \<Rightarrow> match_scope \<Rightarrow> mstate \<Rightarrow> mstate option" where
  "flush_loop grammar fuel sc (km, steps) =
     (if pending km = [] then Some (km, steps)
      else case flush_pass grammar fuel sc (km, steps) of
        None \<Rightarrow> None
      | Some (km', steps') \<Rightarrow>
          if length (pending km) \<le> length (pending km') then Some (km', steps')
          else flush_loop grammar fuel sc (km', steps'))"
  by pat_completeness auto
termination
  by (relation "measure (\<lambda>(_, _, _, km, _). length (pending km))") auto

definition flush :: "grammar \<Rightarrow> match_scope \<Rightarrow> keymaps \<Rightarrow> mstate option" where
  "flush grammar sc km =
     flush_loop grammar (feed_fuel sc km) sc (km\<lparr>remap_budget := MAX_MAP_DEPTH\<rparr>, [])"

end
