(* ===== verification/Matcher.thy ===== *)
theory Matcher
  imports Keymap
begin

text \<open>
  The matcher of \<open>keymap.rs\<close> verified. Its specification is a small-step machine over the
  withheld keys, the queue of keys still to be read, the steps emitted and the remaining remap
  budget; \<open>feed_key\<close> and \<open>flush\<close> refine runs of it. Conservation of the typed keys, soundness
  of every fired mapping and the live-prefix invariant are invariants of the machine; the machine
  is terminating and \<open>feed_fuel\<close> is enough fuel for every state.
\<close>

section \<open>The matching machine\<close>

definition is_remap :: "mapping \<Rightarrow> bool" where
  "is_remap m \<longleftrightarrow> (case rhs m of RhsKeys ks False \<Rightarrow> True | _ \<Rightarrow> False)"

definition fire_step :: "mapping \<Rightarrow> key list \<Rightarrow> key_step" where
  "fire_step m lhs = SFire (rhs m) (silent m) (expr m) lhs"

type_synonym config = "key list \<times> key list \<times> key_step list \<times> nat"

text \<open>What firing does to the queue, the emitted steps and the budget.\<close>

fun fired :: "mapping \<Rightarrow> key list \<Rightarrow> key list \<times> key_step list \<times> nat \<Rightarrow> key list \<times> key_step list \<times> nat"
where
  "fired m lhs (q, out, b) =
     (case rhs m of
        RhsKeys ks False \<Rightarrow>
          if 0 < b then (ks @ q, out, b - 1) else (q, out @ [fire_step m lhs], b)
      | _ \<Rightarrow> (q, out @ [fire_step m lhs], b))"

declare fired.simps [simp del]

inductive mstep :: "grammar \<Rightarrow> match_scope \<Rightarrow> trie \<Rightarrow> config \<Rightarrow> config \<Rightarrow> bool"
  for gr :: grammar and sc :: match_scope and t :: trie where
  withhold: "trie_classify t (p @ [k]) = CPrefix \<Longrightarrow>
     mstep gr sc t (p, k # q, out, b) (p @ [k], q, out, b)"
| complete: "trie_classify t (p @ [k]) = CComplete m \<Longrightarrow>
     mstep gr sc t (p, k # q, out, b) ([], fired m (p @ [k]) (q, out, b))"
| pass: "trie_classify t [k] = CNone \<Longrightarrow>
     mstep gr sc t ([], k # q, out, b) ([], q, out @ [SEditor k], b)"
| shorter: "p \<noteq> [] \<Longrightarrow> trie_classify t (p @ [k]) = CNone \<Longrightarrow>
     longest_complete t p = Some (m, used) \<Longrightarrow>
     mstep gr sc t (p, k # q, out, b)
       ([], fired m (take used p) (drop used p @ k # q, out, b))"
| replay: "p \<noteq> [] \<Longrightarrow> trie_classify t (p @ [k]) = CNone \<Longrightarrow>
     longest_complete t p = None \<Longrightarrow> \<not> oracle_releases gr sc t (Some p) k \<Longrightarrow>
     mstep gr sc t (p, k # q, out, b) ([], k # q, out @ map SEditor p, b)"
| release: "p \<noteq> [] \<Longrightarrow> trie_classify t (p @ [k]) = CNone \<Longrightarrow>
     longest_complete t p = None \<Longrightarrow> oracle_releases gr sc t (Some p) k \<Longrightarrow>
     mstep gr sc t (p, k # q, out, b) ([], q, out @ map SEditor p @ [SEditor k], b)"

inductive_cases mstep_cases: "mstep gr sc t (p, k # q, out, b) c"

inductive_simps mstep_empty_queue: "mstep gr sc t (p, [], out, b) c"

text \<open>The machine stops only with an empty queue, and always stops.\<close>

lemma mstep_progress: "\<exists>c. mstep gr sc t (p, k # q, out, b) c"
proof (cases "trie_classify t (p @ [k])")
  case CNone
  show ?thesis
  proof (cases "p = []")
    case True
    with CNone show ?thesis by (metis append_Nil mstep.pass)
  next
    case False
    with CNone show ?thesis
      by (cases "longest_complete t p"; cases "oracle_releases gr sc t (Some p) k")
         (metis surj_pair mstep.intros(4-6))+
  qed
qed (blast intro: mstep.intros)+

definition machine_measure :: "(config \<times> config) set" where
  "machine_measure =
     measures [\<lambda>(p, q, out, b). b, \<lambda>(p, q, out, b). length p + length q, \<lambda>(p, q, out, b). length q]"

lemma fired_measure:
  "length q' < length p + Suc (length q) \<Longrightarrow>
   (([], fired m lhs (q', out, b)), (p, k # q, out', b)) \<in> machine_measure"
  by (auto simp: machine_measure_def fired.simps split: mapping_rhs.splits bool.splits)

lemma mstep_decreases: "mstep gr sc t c c' \<Longrightarrow> (c', c) \<in> machine_measure"
proof (induction rule: mstep.induct)
  case (shorter p k m used q out b)
  from shorter(3) have "0 < used" "used \<le> length p"
    by (auto dest: longest_complete_Some)
  then show ?case by (intro fired_measure) auto
next
  case (complete p k m q out b)
  show ?case by (rule fired_measure) simp
qed (auto simp: machine_measure_def)

lemma mstep_wf: "wf {(c', c). mstep gr sc t c c'}"
proof (rule wf_subset)
  show "wf machine_measure" by (simp add: machine_measure_def)
  show "{(c', c). mstep gr sc t c c'} \<subseteq> machine_measure"
    by (auto dest: mstep_decreases)
qed

section \<open>Refinement: the matcher runs the machine\<close>

definition frame :: "keymaps \<Rightarrow> keymaps \<Rightarrow> bool" where
  "frame km km' \<longleftrightarrow>
     version km' = version km \<and> snapshot km' = snapshot km \<and> built_buffer km' = built_buffer km \<and>
     tries km' = tries km \<and> keyboard_protocol km' = keyboard_protocol km"

lemma frame_refl [simp]: "frame km km"
  by (simp add: frame_def)

lemma frame_trans: "frame a b \<Longrightarrow> frame b c \<Longrightarrow> frame a c"
  by (simp add: frame_def)

lemma frame_update [simp]:
  "frame km (km\<lparr>pending := p\<rparr>)" "frame km (km\<lparr>remap_budget := b\<rparr>)"
  "frame km (km\<lparr>pending := p, remap_budget := b\<rparr>)"
  by (simp_all add: frame_def)

lemma frame_tries: "frame km km' \<Longrightarrow> tries km' = tries km"
  by (simp add: frame_def)

text \<open>\<open>runs\<close> relates a state of the matcher to a later one that has consumed the keys \<open>ks\<close>.\<close>

definition runs :: "grammar \<Rightarrow> match_scope \<Rightarrow> trie \<Rightarrow> mstate \<Rightarrow> key list \<Rightarrow> mstate \<Rightarrow> bool" where
  "runs gr sc t st ks st' \<longleftrightarrow>
     (\<forall>q. (mstep gr sc t)\<^sup>*\<^sup>*
        (pending (fst st), ks @ q, snd st, remap_budget (fst st))
        (pending (fst st'), q, snd st', remap_budget (fst st')))
     \<and> frame (fst st) (fst st')"

lemma runs_refl [simp]: "runs gr sc t st [] st"
  by (simp add: runs_def)

lemma runs_trans: "runs gr sc t a xs b \<Longrightarrow> runs gr sc t b ys c \<Longrightarrow> runs gr sc t a (xs @ ys) c"
  unfolding runs_def by (auto intro: frame_trans rtranclp_trans)

text \<open>The contract of a feeding function, and what the callees of \<open>feed_key\<close> make of it.\<close>

locale feeder =
  fixes fd :: "key \<Rightarrow> mstate \<Rightarrow> mstate option"
    and gr :: grammar and sc :: match_scope and t :: trie
  assumes feed_runs: "tries (fst st) (bucket sc) = Some t \<Longrightarrow> fd k st = Some st' \<Longrightarrow>
    runs gr sc t st [k] st'"
begin

lemma feed_all_runs:
  "tries (fst st) (bucket sc) = Some t \<Longrightarrow> feed_all fd ks st = Some st' \<Longrightarrow> runs gr sc t st ks st'"
proof (induction ks arbitrary: st)
  case (Cons k ks)
  from Cons.prems(2) obtain st1 where k: "fd k st = Some st1" and ks: "feed_all fd ks st1 = Some st'"
    by (auto split: option.splits)
  from feed_runs[OF Cons.prems(1) k] have r1: "runs gr sc t st [k] st1" .
  then have "tries (fst st1) (bucket sc) = Some t"
    using Cons.prems(1) unfolding runs_def by (metis frame_tries)
  from runs_trans[OF r1 Cons.IH[OF this ks]] show ?case by simp
qed simp

text \<open>Firing puts the right-hand side of a remap, or nothing, in front of the queue.\<close>

lemma fire_runs:
  assumes "tries km (bucket sc) = Some t" and "fire fd m lhs (km, out) = Some (km', out')"
  shows "(mstep gr sc t)\<^sup>*\<^sup>*
      (pending km, fired m lhs (q, out, remap_budget km))
      (pending km', q, out', remap_budget km') \<and> frame km km'"
proof (cases "\<exists>ks. rhs m = RhsKeys ks False \<and> 0 < remap_budget km")
  case True
  then obtain ks where ks: "rhs m = RhsKeys ks False" "0 < remap_budget km" by blast
  let ?st = "(km\<lparr>remap_budget := remap_budget km - 1\<rparr>, out)"
  from ks assms(2) have "feed_all fd ks ?st = Some (km', out')"
    by (simp add: fire_def)
  from feed_all_runs[OF _ this] assms(1) have "runs gr sc t ?st ks (km', out')" by simp
  with ks show ?thesis by (auto simp: runs_def frame_def fired.simps)
next
  case False
  with assms(2) show ?thesis
    by (auto simp: fire_def fire_step_def fired.simps split: mapping_rhs.splits bool.splits if_splits)
qed

end

lemma runs_step:
  assumes "\<And>q. (mstep gr sc t)\<^sup>*\<^sup>*
      (pending km, k # q, out, remap_budget km)
      (pending km', q, out', remap_budget km')"
    and "frame km km'"
  shows "runs gr sc t (km, out) [k] (km', out')"
  using assms by (simp add: runs_def)

lemma resolve_buffered_runs:
  assumes fdr: "feeder fd gr sc t"
    and tries: "tries km (bucket sc) = Some t" and p: "pending km = []"
    and res: "resolve_buffered fd t buffered (km, out) = Some (raw, km', out')"
  shows "case raw of
      None \<Rightarrow> \<exists>m used. longest_complete t buffered = Some (m, used) \<and> frame km km' \<and>
        (\<forall>q. (mstep gr sc t)\<^sup>*\<^sup>*
          ([], fired m (take used buffered) (drop used buffered @ q, out, remap_budget km))
          (pending km', q, out', remap_budget km'))
    | Some r \<Rightarrow> longest_complete t buffered = None \<and> r = buffered \<and> km' = km \<and>
        out' = out @ map SEditor buffered"
proof (cases "longest_complete t buffered")
  case None
  with res show ?thesis by (auto simp: resolve_buffered_def)
next
  case (Some mu)
  then obtain m used where mu: "longest_complete t buffered = Some (m, used)" by (cases mu) auto
  with res obtain km1 out1 where
    f: "fire fd m (take used buffered) (km, out) = Some (km1, out1)" and
    a: "feed_all fd (drop used buffered) (km1, out1) = Some (km', out')" and raw: "raw = None"
    by (auto simp: resolve_buffered_def split: option.splits)
  have f1: "(mstep gr sc t)\<^sup>*\<^sup>*
      (pending km, fired m (take used buffered) (q, out, remap_budget km))
      (pending km1, q, out1, remap_budget km1)" "frame km km1" for q
    using feeder.fire_runs[OF fdr tries f] by auto
  from f1(2) have "tries (fst (km1, out1)) (bucket sc) = Some t"
    using tries by (simp add: frame_tries)
  then have "runs gr sc t (km1, out1) (drop used buffered) (km', out')"
    by (rule feeder.feed_all_runs[OF fdr _ a])
  with f1 have "frame km km'" and "(mstep gr sc t)\<^sup>*\<^sup>*
      ([], fired m (take used buffered) (drop used buffered @ q, out, remap_budget km))
      (pending km', q, out', remap_budget km')" for q
    using p unfolding runs_def by (auto intro: frame_trans rtranclp_trans)
  with raw mu show ?thesis by auto
qed

text \<open>Every call of \<open>feed_key\<close> that returns has run the machine.\<close>

lemma feed_key_runs:
  "tries (fst st) (bucket sc) = Some t \<Longrightarrow> feed_key gr n sc k st = Some st' \<Longrightarrow>
   runs gr sc t st [k] st'"
proof (induction n arbitrary: k st st')
  case 0
  then show ?case by simp
next
  case (Suc n)
  obtain km out km' out' where st: "st = (km, out)" "st' = (km', out')" by fastforce
  have fdr: "feeder (feed_key gr n sc) gr sc t"
    by unfold_locales (rule Suc.IH)
  from Suc.prems(1) st have t: "tries km (bucket sc) = Some t" by simp
  let ?km0 = "km\<lparr>pending := []\<rparr>"
  have t0: "tries ?km0 (bucket sc) = Some t" using t by simp
  note call = Suc.prems(2)[unfolded st]
  show ?case
  proof (cases "trie_classify t (pending km @ [k])")
    case CPrefix
    with call t have "km' = km\<lparr>pending := pending km @ [k]\<rparr>" "out' = out"
      by (auto simp: Let_def)
    then show ?thesis
      unfolding st using CPrefix by (intro runs_step) (auto intro: mstep.withhold)
  next
    case (CComplete m)
    with call t have "fire (feed_key gr n sc) m (pending km @ [k]) (?km0, out) = Some (km', out')"
      by (simp add: Let_def)
    from feeder.fire_runs[OF fdr t0 this]
    have f: "(mstep gr sc t)\<^sup>*\<^sup>*
        ([], fired m (pending km @ [k]) (q, out, remap_budget km))
        (pending km', q, out', remap_budget km')" "frame ?km0 km'" for q
      by auto
    have "(mstep gr sc t)\<^sup>*\<^sup>* (pending km, k # q, out, remap_budget km)
        (pending km', q, out', remap_budget km')" for q
      using mstep.complete[OF CComplete, of gr sc q out "remap_budget km"] f(1)[of q]
      by (rule converse_rtranclp_into_rtranclp)
    then show ?thesis
      unfolding st using f(2) by (intro runs_step) (auto simp: frame_def)
  next
    case CNone
    show ?thesis
    proof (cases "pending km = []")
      case True
      with CNone call t have "km' = ?km0" "out' = out @ [SEditor k]" by (auto simp: Let_def)
      then show ?thesis
        unfolding st using CNone True by (intro runs_step) (auto intro: mstep.pass)
    next
      case False
      with CNone call t obtain raw km1 out1 where
        res: "resolve_buffered (feed_key gr n sc) t (pending km) (?km0, out) = Some (raw, km1, out1)"
        and rest: "(if oracle_releases gr sc t raw k then Some (km1, out1 @ [SEditor k])
                    else feed_key gr n sc k (km1, out1)) = Some (km', out')"
        by (auto simp: Let_def split: option.splits)
      note r = resolve_buffered_runs[OF fdr t0 _ res, simplified]
      show ?thesis
      proof (cases raw)
        case None
        then have "\<not> oracle_releases gr sc t raw k" by (simp add: oracle_releases_def)
        with rest have fk: "feed_key gr n sc k (km1, out1) = Some (km', out')" by simp
        from r None obtain m used where lc: "longest_complete t (pending km) = Some (m, used)"
          and fr: "frame ?km0 km1"
          and run: "\<And>q. (mstep gr sc t)\<^sup>*\<^sup>*
            ([], fired m (take used (pending km)) (drop used (pending km) @ q, out, remap_budget km))
            (pending km1, q, out1, remap_budget km1)"
          by auto
        have "tries (fst (km1, out1)) (bucket sc) = Some t"
          using fr t0 by (simp add: frame_tries)
        from Suc.IH[OF this fk] have last: "runs gr sc t (km1, out1) [k] (km', out')" .
        have "(mstep gr sc t)\<^sup>*\<^sup>* (pending km, k # q, out, remap_budget km)
            (pending km', q, out', remap_budget km')" for q
          using mstep.shorter[OF False CNone lc, of gr sc q out "remap_budget km"]
            run[of "k # q"] last unfolding runs_def
          by (auto intro: converse_rtranclp_into_rtranclp rtranclp_trans)
        then show ?thesis
          unfolding st using fr last by (intro runs_step) (auto simp: runs_def frame_def)
      next
        case (Some r')
        with r have r: "longest_complete t (pending km) = None" "raw = Some (pending km)"
          "km1 = ?km0" "out1 = out @ map SEditor (pending km)"
          by auto
        show ?thesis
        proof (cases "oracle_releases gr sc t raw k")
          case True
          with rest r have "km' = ?km0" "out' = out @ map SEditor (pending km) @ [SEditor k]"
            by auto
          with True r False CNone show ?thesis
            unfolding st by (intro runs_step) (auto intro: mstep.release)
        next
          case rel: False
          with rest r have fk: "feed_key gr n sc k (?km0, out @ map SEditor (pending km)) = Some (km', out')"
            by simp
          from Suc.IH[OF _ this] t0
          have last: "runs gr sc t (?km0, out @ map SEditor (pending km)) [k] (km', out')" by simp
          have "(mstep gr sc t)\<^sup>*\<^sup>* (pending km, k # q, out, remap_budget km)
              (pending km', q, out', remap_budget km')" for q
            using mstep.replay[OF False CNone r(1), of gr sc q out "remap_budget km"] rel r(2) last
            unfolding runs_def by (auto intro: converse_rtranclp_into_rtranclp)
          then show ?thesis
            unfolding st using last by (intro runs_step) (auto simp: runs_def frame_def)
        qed
      qed
    qed
  qed
qed

interpretation fk: feeder "feed_key gr n sc" gr sc t for gr n sc t
  by unfold_locales (rule feed_key_runs)

section \<open>The fuel is enough\<close>

text \<open>
  \<open>room h f b0 m km r\<close>: fuel \<open>f\<close> is enough for \<open>r\<close> more keys from \<open>km\<close>, whose budget is below
  \<open>b0\<close>, or is still \<open>b0\<close> with at most \<open>m\<close> keys withheld or to come.
\<close>

definition room :: "nat \<Rightarrow> nat \<Rightarrow> nat \<Rightarrow> nat \<Rightarrow> keymaps \<Rightarrow> nat \<Rightarrow> bool" where
  "room h f b0 m km r \<longleftrightarrow>
     length (pending km) \<le> h \<and>
     (remap_budget km < b0 \<and> b0 * (h + 1) \<le> f \<or>
      remap_budget km = b0 \<and> length (pending km) + r \<le> m \<and> b0 * (h + 1) + m \<le> f)"

definition grown :: "nat \<Rightarrow> keymaps \<Rightarrow> keymaps \<Rightarrow> bool" where
  "grown h km km' \<longleftrightarrow>
     remap_budget km' \<le> remap_budget km \<and> length (pending km') \<le> h \<and>
     (remap_budget km' = remap_budget km \<longrightarrow> length (pending km') \<le> Suc (length (pending km)))"

lemma room_fuel: "room h f b0 m km (Suc r) \<Longrightarrow> fuel_bound (remap_budget km) h (length (pending km)) \<le> f"
proof -
  assume room: "room h f b0 m km (Suc r)"
  show ?thesis
  proof (cases "remap_budget km < b0")
    case True
    then have "(remap_budget km + 1) * (h + 1) \<le> b0 * (h + 1)" by (intro mult_le_mono1) simp
    with room True show ?thesis by (auto simp: room_def fuel_bound_def)
  next
    case False
    with room show ?thesis by (auto simp: room_def fuel_bound_def)
  qed
qed

lemma room_grown: "room h f b0 m km (Suc r) \<Longrightarrow> grown h km km' \<Longrightarrow> room h f b0 m km' r"
  by (auto simp: room_def grown_def)

definition total_feed ::
  "(key \<Rightarrow> mstate \<Rightarrow> mstate option) \<Rightarrow> match_scope \<Rightarrow> trie \<Rightarrow> nat \<Rightarrow> bool" where
  "total_feed fd sc t f \<longleftrightarrow>
     (\<forall>k km out. tries km (bucket sc) = Some t \<longrightarrow>
        fuel_bound (remap_budget km) (trie_height t) (length (pending km)) \<le> f \<longrightarrow>
        (\<exists>km' out'. fd k (km, out) = Some (km', out') \<and> tries km' = tries km \<and>
           grown (trie_height t) km km'))"

lemma feed_all_total:
  assumes "total_feed fd sc t f" and "tries km (bucket sc) = Some t"
    and "room (trie_height t) f b0 m km (length ks + r)"
  shows "\<exists>km' out'. feed_all fd ks (km, out) = Some (km', out') \<and> tries km' = tries km \<and>
    room (trie_height t) f b0 m km' r"
  using assms(2,3)
proof (induction ks arbitrary: km out)
  case (Cons k ks)
  from Cons.prems(2) have room: "room (trie_height t) f b0 m km (Suc (length ks + r))" by simp
  from room_fuel[OF this] assms(1) Cons.prems(1) obtain km1 out1 where
    k: "fd k (km, out) = Some (km1, out1)" "tries km1 = tries km" "grown (trie_height t) km km1"
    unfolding total_feed_def by blast
  with Cons.IH[of km1 out1] Cons.prems(1) room_grown[OF room k(3)] show ?case by auto
qed auto

lemma fire_total:
  assumes "total_feed fd sc t f" and "tries km (bucket sc) = Some t" and "pending km = []"
    and "remap_budget km * (trie_height t + 1) + m \<le> f" and "r \<le> m"
  shows "\<exists>km' out'. fire fd mp lhs (km, out) = Some (km', out') \<and> tries km' = tries km \<and>
    room (trie_height t) f (remap_budget km) m km' r"
proof (cases "\<exists>ks. rhs mp = RhsKeys ks False \<and> 0 < remap_budget km")
  case True
  then obtain ks where ks: "rhs mp = RhsKeys ks False" "0 < remap_budget km" by blast
  let ?km = "km\<lparr>remap_budget := remap_budget km - 1\<rparr>"
  have "room (trie_height t) f (remap_budget km) m ?km (length ks + r)"
    using assms(3,4) ks(2) by (auto simp: room_def)
  from feed_all_total[OF assms(1) _ this, of out] assms(2) ks show ?thesis
    by (auto simp: fire_def)
next
  case False
  with assms(3-5) have "fire fd mp lhs (km, out) = Some (km, out @ [fire_step mp lhs])"
    and "room (trie_height t) f (remap_budget km) m km r"
    by (auto simp: fire_def fire_step_def room_def Let_def split: mapping_rhs.splits bool.splits)
  then show ?thesis by blast
qed

lemma resolve_buffered_total:
  assumes "total_feed fd sc t f" and "tries km (bucket sc) = Some t" and "pending km = []"
    and "remap_budget km * (trie_height t + 1) + m \<le> f" and "length buffered + r \<le> Suc m"
    and "buffered \<noteq> []"
  shows "\<exists>raw km' out'. resolve_buffered fd t buffered (km, out) = Some (raw, km', out') \<and>
    tries km' = tries km \<and> room (trie_height t) f (remap_budget km) m km' r"
proof (cases "longest_complete t buffered")
  case None
  with assms(3-6) show ?thesis
    by (cases buffered) (auto simp: resolve_buffered_def room_def)
next
  case (Some mu)
  then obtain mp used where mu: "longest_complete t buffered = Some (mp, used)" by (cases mu) auto
  then have used: "0 < used" "used \<le> length buffered" by (auto dest: longest_complete_Some)
  let ?rest = "drop used buffered"
  have "length ?rest + r \<le> m" using used assms(5) by simp
  from fire_total[OF assms(1-4) this, of mp "take used buffered" out] obtain km1 out1 where
    f: "fire fd mp (take used buffered) (km, out) = Some (km1, out1)" "tries km1 = tries km"
      "room (trie_height t) f (remap_budget km) m km1 (length ?rest + r)" by blast
  with feed_all_total[OF assms(1) _ f(3), of out1] assms(2) mu show ?thesis
    by (fastforce simp: resolve_buffered_def)
qed

lemma feed_key_total: "total_feed (feed_key gr f sc) sc t f"
proof (induction f)
  case 0
  then show ?case by (simp add: total_feed_def fuel_bound_def)
next
  case (Suc f)
  show ?case
    unfolding total_feed_def
  proof (intro allI impI)
    fix k out and km :: keymaps
    let ?b = "remap_budget km" and ?h = "trie_height t" and ?n = "length (pending km)"
    let ?km0 = "km\<lparr>pending := []\<rparr>"
    assume t: "tries km (bucket sc) = Some t" and "fuel_bound ?b ?h ?n \<le> Suc f"
    then have fuel: "?b * (?h + 1) + ?n \<le> f" by (simp add: fuel_bound_def)
    have settle: "room ?h f ?b ?n km' 0 \<Longrightarrow> grown ?h km km'" for km' :: keymaps
      by (auto simp: room_def grown_def)
    show "\<exists>km' out'. feed_key gr (Suc f) sc k (km, out) = Some (km', out') \<and> tries km' = tries km \<and>
      grown ?h km km'"
    proof (cases "trie_classify t (pending km @ [k])")
      case CPrefix
      then have "\<exists>nd. node_at t (pending km @ [k]) = Some nd" by (intro classify_node) simp
      then have "length (pending km @ [k]) \<le> ?h" by (auto dest: height_node_at)
      with CPrefix t show ?thesis by (auto simp: Let_def grown_def)
    next
      case (CComplete mp)
      from fire_total[OF Suc.IH, of ?km0 ?n 0 mp "pending km @ [k]" out] t fuel
      obtain km' out' where
        "fire (feed_key gr f sc) mp (pending km @ [k]) (?km0, out) = Some (km', out')"
        "tries km' = tries km" "room ?h f ?b ?n km' 0"
        by auto
      with CComplete t settle[of km'] show ?thesis by (simp add: Let_def)
    next
      case CNone
      show ?thesis
      proof (cases "pending km = []")
        case True
        with CNone t show ?thesis by (simp add: Let_def grown_def)
      next
        case False
        from resolve_buffered_total[OF Suc.IH, of ?km0 ?n "pending km" 1 out] t fuel False
        obtain raw km1 out1 where
          res: "resolve_buffered (feed_key gr f sc) t (pending km) (?km0, out) = Some (raw, km1, out1)"
          and t1: "tries km1 = tries km" and room: "room ?h f ?b ?n km1 (Suc 0)"
          by auto
        from room_fuel[OF room] Suc.IH t t1 obtain km2 out2 where
          last: "feed_key gr f sc k (km1, out1) = Some (km2, out2)" "tries km2 = tries km"
            "grown ?h km1 km2"
          unfolding total_feed_def by metis
        have "grown ?h km km1" using room by (auto simp: room_def grown_def)
        moreover have "grown ?h km km2" using room_grown[OF room last(3)] by (rule settle)
        ultimately show ?thesis
          using CNone False t t1 res last by (simp add: Let_def)
      qed
    qed
  qed
qed

lemma total_feedD:
  "total_feed fd sc t f \<Longrightarrow> tries km (bucket sc) = Some t \<Longrightarrow>
   fuel_bound (remap_budget km) (trie_height t) (length (pending km)) \<le> f \<Longrightarrow>
   \<exists>km' out'. fd k (km, out) = Some (km', out') \<and> tries km' = tries km \<and>
     grown (trie_height t) km km'"
  unfolding total_feed_def by blast

text \<open>\<open>feed\<close> and \<open>flush\<close> always return.\<close>

lemma feed_total: "\<exists>km' out'. feed gr sc k km = Some (km', out') \<and> tries km' = tries km"
proof (cases "tries km (bucket sc)")
  case None
  then show ?thesis
    by (simp add: feed_def feed_fuel_def fuel_bound_def)
next
  case (Some t)
  let ?km = "km\<lparr>remap_budget := MAX_MAP_DEPTH\<rparr>"
  have fuel: "fuel_bound (remap_budget ?km) (trie_height t) (length (pending ?km)) \<le> feed_fuel sc km"
    using Some by (simp add: feed_fuel_def scope_height_def)
  from Some have "tries ?km (bucket sc) = Some t" by simp
  from total_feedD[OF feed_key_total this fuel, of gr k "[]"] show ?thesis
    unfolding feed_def by auto
qed

lemma flush_pass_total:
  assumes "pending km \<noteq> []"
    and "remap_budget km * (scope_height sc km + 1) + length (pending km) \<le> f"
  shows "\<exists>km' out'. flush_pass gr f sc (km, out) = Some (km', out') \<and> tries km' = tries km \<and>
    remap_budget km' \<le> remap_budget km"
proof (cases "tries km (bucket sc)")
  case None
  then show ?thesis by (simp add: flush_pass_def)
next
  case (Some t)
  then have h: "scope_height sc km = trie_height t" by (simp add: scope_height_def)
  have "\<exists>raw km' out'. resolve_buffered (feed_key gr f sc) t (pending km) (km\<lparr>pending := []\<rparr>, out)
      = Some (raw, km', out') \<and> tries km' = tries (km\<lparr>pending := []\<rparr>) \<and>
    room (trie_height t) f (remap_budget (km\<lparr>pending := []\<rparr>)) (length (pending km)) km' 0"
    by (rule resolve_buffered_total[OF feed_key_total]) (use Some h assms in auto)
  with Some show ?thesis by (auto simp: flush_pass_def room_def Let_def)
qed

lemma flush_loop_total:
  "remap_budget km * (scope_height sc km + 1) + length (pending km) \<le> f \<Longrightarrow>
   \<exists>km' out'. flush_loop gr f sc (km, out) = Some (km', out') \<and> tries km' = tries km"
proof (induction gr f sc "(km, out)" arbitrary: km out rule: flush_loop.induct)
  case (1 gr f sc km out)
  show ?case
  proof (cases "pending km = []")
    case False
    from flush_pass_total[OF False "1.prems"] obtain km1 out1 where
      pass: "flush_pass gr f sc (km, out) = Some (km1, out1)" "tries km1 = tries km"
        "remap_budget km1 \<le> remap_budget km"
      by blast
    show ?thesis
    proof (cases "length (pending km) \<le> length (pending km1)")
      case True
      with False pass show ?thesis by (subst flush_loop.simps) simp
    next
      case shorter: False
      have "remap_budget km1 * (scope_height sc km1 + 1) + length (pending km1) \<le>
        remap_budget km * (scope_height sc km + 1) + length (pending km)"
        using pass shorter by (intro add_mono mult_le_mono) (auto simp: scope_height_def)
      with "1.prems" have "remap_budget km1 * (scope_height sc km1 + 1) + length (pending km1) \<le> f"
        by linarith
      from "1.hyps"[OF False pass(1) refl shorter this] pass False shorter show ?thesis
        by (subst flush_loop.simps) (auto simp del: flush_loop.simps)
    qed
  qed simp
qed

lemma flush_total: "\<exists>km' out'. flush gr sc km = Some (km', out') \<and> tries km' = tries km"
proof -
  let ?km = "km\<lparr>remap_budget := MAX_MAP_DEPTH\<rparr>"
  have "remap_budget ?km * (scope_height sc ?km + 1) + length (pending ?km) \<le> feed_fuel sc km"
    by (simp add: feed_fuel_def fuel_bound_def scope_height_def)
  from flush_loop_total[OF this, of gr "[]"] show ?thesis
    unfolding flush_def by simp
qed

section \<open>Invariants of the machine\<close>

fun typed_by :: "key_step \<Rightarrow> key list" where
  "typed_by (SEditor k) = [k]"
| "typed_by (SFire r s e lhs) = lhs"

definition typed :: "key_step list \<Rightarrow> key list" where
  "typed out = concat (map typed_by out)"

fun trie_mappings :: "trie \<Rightarrow> mapping list" where
  "trie_mappings (Node ch m) =
     (case m of Some x \<Rightarrow> [x] | None \<Rightarrow> []) @ concat (map (\<lambda>(k, n). trie_mappings n) ch)"

definition no_remap :: "trie \<Rightarrow> bool" where
  "no_remap t \<longleftrightarrow> list_all (\<lambda>m. \<not> is_remap m) (trie_mappings t)"

lemma typed_simps [simp]:
  "typed [] = []" "typed (xs @ ys) = typed xs @ typed ys" "typed [x] = typed_by x"
  "typed (map SEditor ks) = ks"
  by (simp_all add: typed_def comp_def)

lemma typed_fire_step [simp]: "typed_by (fire_step m lhs) = lhs"
  by (simp add: fire_step_def)

lemma lookup_in_mappings: "trie_lookup t ks = Some m \<Longrightarrow> m \<in> set (trie_mappings t)"
proof (induction ks arbitrary: t)
  case Nil
  then show ?case by (cases t) (auto split: option.splits)
next
  case (Cons k ks)
  then obtain n where n: "map_of (children t) k = Some n" "trie_lookup n ks = Some m"
    by (auto simp: lookup_Cons split: option.splits)
  from Cons.IH[OF n(2)] map_of_SomeD[OF n(1)] show ?case by (cases t) force
qed

lemma no_remap_lookup: "no_remap t \<Longrightarrow> trie_lookup t ks = Some m \<Longrightarrow> \<not> is_remap m"
  by (auto simp: no_remap_def list_all_iff dest: lookup_in_mappings)

lemma fired_no_remap: "\<not> is_remap m \<Longrightarrow> fired m lhs (q, out, b) = (q, out @ [fire_step m lhs], b)"
  by (auto simp: fired.simps is_remap_def split: mapping_rhs.splits bool.splits)

text \<open>Conservation: without remaps no key is lost, invented or reordered.\<close>

fun conserved :: "config \<Rightarrow> key list" where
  "conserved (p, q, out, b) = typed out @ p @ q"

lemma mstep_conserves: "mstep gr sc t c c' \<Longrightarrow> no_remap t \<Longrightarrow> conserved c' = conserved c"
  by (induction rule: mstep.induct)
     (auto simp: fired_no_remap dest!: classify_complete longest_complete_Some no_remap_lookup)

lemma msteps_conserve: "(mstep gr sc t)\<^sup>*\<^sup>* c c' \<Longrightarrow> no_remap t \<Longrightarrow> conserved c' = conserved c"
  by (induction rule: rtranclp_induct) (auto dest: mstep_conserves)

fun load :: "config \<Rightarrow> nat" where
  "load (p, q, out, b) = length p + length q"

lemma mstep_load: "mstep gr sc t c c' \<Longrightarrow> no_remap t \<Longrightarrow> load c' \<le> load c"
  by (induction rule: mstep.induct)
     (auto simp: fired_no_remap dest!: classify_complete longest_complete_Some no_remap_lookup)

lemma msteps_load: "(mstep gr sc t)\<^sup>*\<^sup>* c c' \<Longrightarrow> no_remap t \<Longrightarrow> load c' \<le> load c"
  by (induction rule: rtranclp_induct) (auto dest: mstep_load)

text \<open>Soundness: what fires is a stored mapping, under its own keys.\<close>

definition justified :: "trie \<Rightarrow> key_step \<Rightarrow> bool" where
  "justified t x =
     (case x of
        SEditor k \<Rightarrow> True
      | SFire r s e lhs \<Rightarrow>
          (case trie_lookup t lhs of Some m \<Rightarrow> x = fire_step m lhs | None \<Rightarrow> False))"

fun sound_out :: "trie \<Rightarrow> config \<Rightarrow> bool" where
  "sound_out t (p, q, out, b) = list_all (justified t) out"

lemma justified_simps [simp]: "justified t (SEditor k)" "list_all (justified t) (map SEditor ks)"
  by (simp_all add: justified_def list_all_iff)

lemma fired_sound:
  "trie_lookup t lhs = Some m \<Longrightarrow> list_all (justified t) out \<Longrightarrow>
   sound_out t ([], fired m lhs (q, out, b))"
  by (auto simp: fired.simps justified_def fire_step_def split: mapping_rhs.splits bool.splits)

lemma mstep_sound: "mstep gr sc t c c' \<Longrightarrow> sound_out t c \<Longrightarrow> sound_out t c'"
  by (induction rule: mstep.induct)
     (auto dest: classify_complete longest_complete_Some intro: fired_sound simp del: split_paired_Ex)

lemma msteps_sound: "(mstep gr sc t)\<^sup>*\<^sup>* c c' \<Longrightarrow> sound_out t c \<Longrightarrow> sound_out t c'"
  by (induction rule: rtranclp_induct) (auto dest: mstep_sound)

text \<open>What stays withheld is a live prefix.\<close>

fun live :: "trie \<Rightarrow> config \<Rightarrow> bool" where
  "live t (p, q, out, b) \<longleftrightarrow> p = [] \<or> trie_classify t p = CPrefix"

lemma live_Nil [simp]: "live t ([], x)"
  by (cases x) auto

lemma mstep_live: "mstep gr sc t c c' \<Longrightarrow> live t c'"
  by (induction rule: mstep.induct) auto

lemma msteps_live: "(mstep gr sc t)\<^sup>*\<^sup>* c c' \<Longrightarrow> c \<noteq> c' \<Longrightarrow> live t c'"
  by (induction rule: rtranclp_induct) (auto dest: mstep_live)

end
