(* ===== verification/Matching.thy ===== *)
theory Matching
  imports Matcher
begin

text \<open>
  What typing at the keymaps does: the machine of \<open>Matcher\<close> read back as statements about
  \<open>feed\<close> and \<open>flush\<close>. Every key gets an answer, what is withheld is a live prefix, every
  fired mapping is one the trie stores under the keys reported, and without remaps the keys come
  out in the order they were typed.
\<close>

section \<open>Runs of feed\<close>

definition scope_justified :: "match_scope \<Rightarrow> keymaps \<Rightarrow> key_step \<Rightarrow> bool" where
  "scope_justified sc km x =
     (case (tries km (bucket sc), x) of
        (Some t, _) \<Rightarrow> justified t x
      | (None, SEditor k) \<Rightarrow> True
      | (None, SFire r s e lhs) \<Rightarrow> False)"

definition scope_remap_free :: "match_scope \<Rightarrow> keymaps \<Rightarrow> bool" where
  "scope_remap_free sc km =
     (case tries km (bucket sc) of Some t \<Rightarrow> no_remap t | None \<Rightarrow> True)"

definition live_pending :: "match_scope \<Rightarrow> keymaps \<Rightarrow> bool" where
  "live_pending sc km \<longleftrightarrow>
     pending km = [] \<or>
     (case tries km (bucket sc) of
        Some t \<Rightarrow> trie_classify t (pending km) = CPrefix | None \<Rightarrow> False)"

lemma feed_none:
  "tries km (bucket sc) = None \<Longrightarrow>
   feed gr sc k km = Some (km\<lparr>pending := [], remap_budget := MAX_MAP_DEPTH\<rparr>,
                           map SEditor (pending km) @ [SEditor k])"
  by (simp add: feed_def feed_fuel_def fuel_bound_def)

lemma feed_runs:
  assumes "tries km (bucket sc) = Some t" and "feed gr sc k km = Some (km', out)"
  shows "(mstep gr sc t)\<^sup>*\<^sup>* (pending km, [k], [], MAX_MAP_DEPTH)
           (pending km', [], out, remap_budget km')" and "frame km km'"
proof -
  let ?km = "km\<lparr>remap_budget := MAX_MAP_DEPTH\<rparr>"
  have "runs gr sc t (?km, []) [k] (km', out)"
    by (rule fk.feed_runs) (use assms in \<open>auto simp: feed_def\<close>)
  then have run: "(mstep gr sc t)\<^sup>*\<^sup>* (pending km, [k] @ q, [], MAX_MAP_DEPTH)
        (pending km', q, out, remap_budget km')" "frame ?km km'" for q
    unfolding runs_def by simp_all
  show "(mstep gr sc t)\<^sup>*\<^sup>* (pending km, [k], [], MAX_MAP_DEPTH)
           (pending km', [], out, remap_budget km')" using run(1)[of "[]"] by simp
  show "frame km km'" using run(2) by (simp add: frame_def)
qed

lemma feed_trie:
  assumes "tries km (bucket sc) = Some t" and "feed gr sc k km = Some (km', out)"
  shows "live t (pending km', [], out, remap_budget km')" "list_all (justified t) out"
    "no_remap t \<Longrightarrow> typed out @ pending km' = pending km @ [k]"
  using msteps_live[OF feed_runs(1)[OF assms]] msteps_sound[OF feed_runs(1)[OF assms]]
    msteps_conserve[OF feed_runs(1)[OF assms]]
  by auto

text \<open>
  C1. Typing a key always gets an answer: whatever the mappings (self-recursive and mutually
  recursive remaps included), whatever is already withheld and whatever the command grammar says,
  \<open>feed\<close> returns; what it leaves withheld is empty or a live prefix of some mapping; and every
  \<open>Fire\<close> step carries a mapping the scope's trie stores under exactly the reported keys.
\<close>
theorem feed_answers:
  "\<exists>km' out. feed gr sc k km = Some (km', out) \<and> live_pending sc km' \<and>
     list_all (scope_justified sc km) out"
proof (cases "tries km (bucket sc)")
  case None
  then show ?thesis
    by (auto simp: feed_none live_pending_def scope_justified_def list_all_iff)
next
  case (Some t)
  from feed_total obtain km' out where f: "feed gr sc k km = Some (km', out)" by blast
  have "tries km' = tries km" using feed_runs(2)[OF Some f] by (rule frame_tries)
  with Some f feed_trie(1,2)[OF Some f] show ?thesis
    by (auto simp: live_pending_def scope_justified_def list_all_iff)
qed

text \<open>
  C2. Without remaps, feeding loses, invents and reorders nothing: the keys handed to the editor
  and the keys reported by fired mappings, in order, followed by the keys now withheld, are
  the keys withheld before followed by the typed key.
\<close>
theorem feed_conserves:
  assumes "scope_remap_free sc km"
  shows "\<exists>km' out. feed gr sc k km = Some (km', out) \<and>
           typed out @ pending km' = pending km @ [k]"
proof (cases "tries km (bucket sc)")
  case None
  then show ?thesis by (simp add: feed_none flip: map_append)
next
  case (Some t)
  from feed_total obtain km' out where f: "feed gr sc k km = Some (km', out)" by blast
  with Some assms feed_trie(3)[OF Some f] show ?thesis by (auto simp: scope_remap_free_def)
qed

section \<open>Runs of flush\<close>

lemma pass_trie:
  assumes "tries km (bucket sc) = Some t" and nr: "no_remap t" and ne: "pending km \<noteq> []"
    and pass: "flush_pass gr f sc (km, out) = Some (km', out')"
  shows "typed out' @ pending km' = typed out @ pending km \<and>
    length (pending km') < length (pending km) \<and> tries km' = tries km"
proof -
  let ?km0 = "km\<lparr>pending := []\<rparr>"
  from assms obtain raw where
    res: "resolve_buffered (feed_key gr f sc) t (pending km) (?km0, out) = Some (raw, km', out')"
    by (auto simp: flush_pass_def Let_def)
  have fdr: "feeder (feed_key gr f sc) gr sc t" by (rule fk.feeder_axioms)
  have t0: "tries ?km0 (bucket sc) = Some t" using assms(1) by simp
  note r = resolve_buffered_runs[OF fdr t0 _ res, simplified]
  show ?thesis
  proof (cases raw)
    case None
    with r[simplified] obtain m used where lc: "longest_complete t (pending km) = Some (m, used)"
      and fr: "frame ?km0 km'" and run: "(mstep gr sc t)\<^sup>*\<^sup>*
        ([], fired m (take used (pending km)) (drop used (pending km), out, remap_budget km))
        (pending km', [], out', remap_budget km')"
      by simp (metis append_Nil2)
    from longest_complete_Some[OF lc] nr have used: "0 < used" "used \<le> length (pending km)"
      and "\<not> is_remap m" by (auto dest: no_remap_lookup)
    then have start: "fired m (take used (pending km)) (drop used (pending km), out, remap_budget km)
      = (drop used (pending km), out @ [fire_step m (take used (pending km))], remap_budget km)"
      by (simp add: fired_no_remap)
    from msteps_conserve[OF run nr] have all: "typed out' @ pending km' = typed out @ pending km"
      unfolding start by simp
    from msteps_load[OF run nr] have "length (pending km') \<le> length (drop used (pending km))"
      unfolding start by simp
    with all used fr show ?thesis by (auto simp: frame_def)
  next
    case (Some r')
    with r assms(1) ne show ?thesis by auto
  qed
qed

lemma flush_loop_drains:
  "scope_remap_free sc km \<Longrightarrow> flush_loop gr f sc (km, out) = Some (km', out') \<Longrightarrow>
   pending km' = [] \<and> typed out' = typed out @ pending km"
proof (induction gr f sc "(km, out)" arbitrary: km out rule: flush_loop.induct)
  case (1 gr f sc km out)
  show ?case
  proof (cases "pending km = []")
    case False
    with "1.prems"(2) obtain km1 out1 where pass: "flush_pass gr f sc (km, out) = Some (km1, out1)"
      and rest: "(if length (pending km) \<le> length (pending km1) then Some (km1, out1)
        else flush_loop gr f sc (km1, out1)) = Some (km', out')"
      by (subst (asm) flush_loop.simps)
         (auto split: option.splits if_splits simp del: flush_loop.simps)
    have p: "typed out1 @ pending km1 = typed out @ pending km \<and>
      length (pending km1) < length (pending km) \<and> tries km1 = tries km"
    proof (cases "tries km (bucket sc)")
      case None
      with pass False show ?thesis by (auto simp: flush_pass_def Let_def)
    next
      case (Some t)
      with "1.prems"(1) have "no_remap t" by (simp add: scope_remap_free_def)
      from pass_trie[OF Some this False pass] show ?thesis .
    qed
    then have loop: "flush_loop gr f sc (km1, out1) = Some (km', out')"
      and le: "\<not> length (pending km) \<le> length (pending km1)" and free: "scope_remap_free sc km1"
      using rest "1.prems"(1) by (auto simp: scope_remap_free_def simp del: flush_loop.simps)
    from "1.hyps"[OF False pass refl le free loop] p show ?thesis by auto
  qed (use "1.prems" in simp)
qed

text \<open>
  C3. The idle flush always returns, whatever is mapped: a pass that shortens nothing ends it, so
  remaps that rebuild each other cannot keep it running. When no mapping of the scope is a remap it
  also resolves everything withheld: nothing stays pending and the emitted steps carry exactly the
  withheld keys, in order.
\<close>
theorem flush_drains:
  "\<exists>km' out. flush gr sc km = Some (km', out) \<and>
     (scope_remap_free sc km \<longrightarrow> pending km' = [] \<and> typed out = pending km)"
proof -
  obtain km' out where f: "flush gr sc km = Some (km', out)" using flush_total by blast
  have "pending km' = [] \<and> typed out = pending km" if "scope_remap_free sc km"
  proof -
    from that have "scope_remap_free sc (km\<lparr>remap_budget := MAX_MAP_DEPTH\<rparr>)"
      by (simp add: scope_remap_free_def)
    with f show ?thesis
      using flush_loop_drains[of sc "km\<lparr>remap_budget := MAX_MAP_DEPTH\<rparr>" gr "feed_fuel sc km" "[]"
        km' out]
      unfolding flush_def by simp
  qed
  with f show ?thesis by blast
qed

section \<open>Typing a mapping\<close>

text \<open>The caller's loop: each key fed in turn, the steps carried out in order.\<close>

fun feed_keys :: "grammar \<Rightarrow> match_scope \<Rightarrow> key list \<Rightarrow> keymaps \<Rightarrow> mstate option" where
  "feed_keys gr sc [] km = Some (km, [])"
| "feed_keys gr sc (k # ks) km =
     (case feed gr sc k km of
        None \<Rightarrow> None
      | Some (km1, out1) \<Rightarrow>
          (case feed_keys gr sc ks km1 of
             None \<Rightarrow> None
           | Some (km2, out2) \<Rightarrow> Some (km2, out1 @ out2)))"

text \<open>A mapping at a leaf, behind no \<open>nowait\<close> mapping on a shorter prefix.\<close>

definition binds_exactly :: "trie \<Rightarrow> key list \<Rightarrow> mapping \<Rightarrow> bool" where
  "binds_exactly t lhs m \<longleftrightarrow>
     lhs \<noteq> [] \<and> node_at t lhs = Some (Node [] (Some m)) \<and>
     list_all (\<lambda>n. case trie_lookup t (take n lhs) of Some m' \<Rightarrow> \<not> nowait m' | None \<Rightarrow> True)
       [1..<length lhs]"

lemma binds_complete: "binds_exactly t lhs m \<Longrightarrow> trie_classify t lhs = CComplete m"
  by (simp add: binds_exactly_def trie_classify_def)

lemma binds_prefix:
  assumes "binds_exactly t lhs m" and "0 < n" and "n < length lhs"
  shows "trie_classify t (take n lhs) = CPrefix"
proof -
  have split: "node_at t (take n lhs @ drop n lhs) = Some (Node [] (Some m))"
    using assms(1) by (simp add: binds_exactly_def)
  then obtain nd where nd: "node_at t (take n lhs) = Some nd" "node_at nd (drop n lhs) \<noteq> None"
    unfolding node_at_append by (auto split: option.splits)
  moreover from assms(3) obtain k ks where "drop n lhs = k # ks"
    by (cases "drop n lhs") auto
  ultimately have "children nd \<noteq> []" by auto
  moreover have "case trie_lookup t (take n lhs) of Some m' \<Rightarrow> \<not> nowait m' | None \<Rightarrow> True"
    using assms by (auto simp: binds_exactly_def list_all_iff)
  ultimately show ?thesis
    using nd(1) by (auto simp: trie_classify_def trie_lookup_def split: option.splits)
qed

lemma feed_prefix:
  assumes "tries km (bucket sc) = Some t" and "trie_classify t (pending km @ [k]) = CPrefix"
  shows "feed gr sc k km =
    Some (km\<lparr>pending := pending km @ [k], remap_budget := MAX_MAP_DEPTH\<rparr>, [])"
  using assms by (simp add: feed_def feed_fuel_def fuel_bound_def)

lemma feed_prefixes:
  assumes "tries km (bucket sc) = Some t"
    and "\<And>n. 0 < n \<Longrightarrow> n \<le> length ks \<Longrightarrow> trie_classify t (pending km @ take n ks) = CPrefix"
  shows "\<exists>km'. feed_keys gr sc ks km = Some (km', []) \<and> frame km km' \<and>
    pending km' = pending km @ ks"
  using assms
proof (induction ks arbitrary: km)
  case (Cons k ks)
  let ?km1 = "km\<lparr>pending := pending km @ [k], remap_budget := MAX_MAP_DEPTH\<rparr>"
  have "trie_classify t (pending km @ [k]) = CPrefix" using Cons.prems(2)[of 1] by simp
  from feed_prefix[OF Cons.prems(1) this] have f: "feed gr sc k km = Some (?km1, [])" .
  have "trie_classify t (pending ?km1 @ take n ks) = CPrefix" if "0 < n" "n \<le> length ks" for n
    using Cons.prems(2)[of "Suc n"] that by simp
  then obtain km' where "feed_keys gr sc ks ?km1 = Some (km', [])" "frame ?km1 km'"
    "pending km' = pending ?km1 @ ks"
    using Cons.IH[of ?km1] Cons.prems(1) by auto
  with f show ?case by (auto simp: frame_def)
qed simp

lemma feed_keys_append:
  "feed_keys gr sc (xs @ ys) km =
     (case feed_keys gr sc xs km of
        None \<Rightarrow> None
      | Some (km1, out1) \<Rightarrow>
          (case feed_keys gr sc ys km1 of
             None \<Rightarrow> None
           | Some (km2, out2) \<Rightarrow> Some (km2, out1 @ out2)))"
  by (induction xs arbitrary: km) (auto split: option.splits)

text \<open>What a completed mapping does when its right-hand side keys are themselves unmapped.\<close>

definition outcome :: "mapping \<Rightarrow> key list \<Rightarrow> key_step list" where
  "outcome m lhs =
     (case rhs m of RhsKeys ks False \<Rightarrow> map SEditor ks | _ \<Rightarrow> [fire_step m lhs])"

definition rhs_unmapped :: "trie \<Rightarrow> mapping \<Rightarrow> bool" where
  "rhs_unmapped t m =
     (case rhs m of
        RhsKeys ks False \<Rightarrow> list_all (\<lambda>k. trie_classify t [k] = CNone) ks
      | _ \<Rightarrow> True)"

lemma feed_all_pass:
  "tries km (bucket sc) = Some t \<Longrightarrow> pending km = [] \<Longrightarrow>
   list_all (\<lambda>k. trie_classify t [k] = CNone) ks \<Longrightarrow>
   \<exists>km'. feed_all (feed_key gr (Suc n) sc) ks (km, out) = Some (km', out @ map SEditor ks) \<and>
     pending km' = [] \<and> frame km km'"
proof (induction ks arbitrary: km out)
  case (Cons k ks)
  have "feed_key gr (Suc n) sc k (km, out) = Some (km\<lparr>pending := []\<rparr>, out @ [SEditor k])"
    using Cons.prems by simp
  moreover obtain km' where
    "feed_all (feed_key gr (Suc n) sc) ks (km\<lparr>pending := []\<rparr>, out @ [SEditor k]) =
       Some (km', (out @ [SEditor k]) @ map SEditor ks)"
    "pending km' = []" "frame (km\<lparr>pending := []\<rparr>) km'"
    using Cons.IH[of "km\<lparr>pending := []\<rparr>" "out @ [SEditor k]"] Cons.prems by auto
  ultimately show ?case by (auto simp: frame_def)
qed auto

lemma feed_completes:
  assumes "tries km (bucket sc) = Some t" and "trie_classify t (pending km @ [k]) = CComplete m"
    and "rhs_unmapped t m"
  shows "\<exists>km'. feed gr sc k km = Some (km', outcome m (pending km @ [k])) \<and>
    pending km' = [] \<and> frame km km'"
proof -
  let ?lhs = "pending km @ [k]"
  let ?km0 = "km\<lparr>pending := [], remap_budget := MAX_MAP_DEPTH\<rparr>"
  have "2 \<le> feed_fuel sc km" by (simp add: feed_fuel_def fuel_bound_def MAX_MAP_DEPTH_def)
  then obtain f where f: "feed_fuel sc km = Suc (Suc f)" by (metis add_2_eq_Suc le_Suc_ex)
  have swap: "km\<lparr>remap_budget := MAX_MAP_DEPTH, pending := []\<rparr> = ?km0" by simp
  have step: "feed gr sc k km = fire (feed_key gr (Suc f) sc) m ?lhs (?km0, [])"
    using assms(1,2) unfolding feed_def f by (subst feed_key.simps) (simp add: swap)
  show ?thesis
  proof (cases "is_remap m")
    case False
    then have "outcome m ?lhs = [fire_step m ?lhs]"
      by (auto simp: is_remap_def outcome_def split: mapping_rhs.splits bool.splits)
    with False show ?thesis
      unfolding step by (auto simp: fire_def fire_step_def is_remap_def Let_def
        split: mapping_rhs.splits bool.splits)
  next
    case True
    then obtain ks where ks: "rhs m = RhsKeys ks False"
      by (auto simp: is_remap_def split: mapping_rhs.splits bool.splits)
    let ?km1 = "?km0\<lparr>remap_budget := MAX_MAP_DEPTH - 1\<rparr>"
    from assms(1,3) ks feed_all_pass[of ?km1 sc t ks gr f "[]"] obtain km' where
      "feed_all (feed_key gr (Suc f) sc) ks (?km1, []) = Some (km', map SEditor ks)"
      "pending km' = []" "frame ?km1 km'"
      by (auto simp: rhs_unmapped_def)
    with ks show ?thesis
      unfolding step by (auto simp: fire_def outcome_def frame_def MAX_MAP_DEPTH_def)
  qed
qed

text \<open>
  C4. Typing the keys of a mapping fires it: from an idle matcher, the keys of a mapping stored
  at a leaf of the scope's trie, with no \<open>nowait\<close> mapping on a shorter prefix, produce
  nothing but that mapping's effect - the \<open>Fire\<close> step, or the remapped keys when the
  right-hand side is a remap to unmapped keys - and leave nothing withheld.
\<close>
theorem mapping_fires:
  assumes "tries km (bucket sc) = Some t" and "pending km = []"
    and "binds_exactly t lhs m" and "rhs_unmapped t m"
  shows "\<exists>km'. feed_keys gr sc lhs km = Some (km', outcome m lhs) \<and> pending km' = []"
proof -
  from assms(3) obtain ks k where lhs: "lhs = ks @ [k]"
    by (cases lhs rule: rev_cases) (auto simp: binds_exactly_def)
  have pre: "trie_classify t (pending km @ take n ks) = CPrefix"
    if "0 < n" "n \<le> length ks" for n
    using binds_prefix[OF assms(3), of n] that assms(2) lhs by simp
  obtain km1 where km1:
    "feed_keys gr sc ks km = Some (km1, [])" "frame km km1" "pending km1 = ks"
    using feed_prefixes[OF assms(1) pre, of gr] assms(2) by auto
  then have "tries km1 (bucket sc) = Some t" using assms(1) by (simp add: frame_tries)
  moreover have "trie_classify t (pending km1 @ [k]) = CComplete m"
    using binds_complete[OF assms(3)] km1(3) lhs by simp
  ultimately obtain km2 where
    "feed gr sc k km1 = Some (km2, outcome m (pending km1 @ [k]))" "pending km2 = []"
    using feed_completes assms(4) by blast
  with km1 show ?thesis unfolding lhs by (auto simp: feed_keys_append)
qed

section \<open>Witnesses\<close>

text \<open>\<open>gd\<close> runs the Lua function 7, or is remapped to \<open>xy\<close>.\<close>

definition sample_mapping :: "mapping_rhs \<Rightarrow> mapping" where
  "sample_mapping r =
     \<lparr>rhs = r, nowait = False, silent = False, expr = False, desc = None, dflt = False\<rparr>"

definition sample_lhs :: "key list" where
  "sample_lhs = [key_char (uc CHR ''g''), key_char (uc CHR ''d'')]"

definition sample_trie :: "mapping_rhs \<Rightarrow> trie" where
  "sample_trie r = trie_insert sample_lhs (sample_mapping r) trie_empty"

definition sample_km :: "mapping_rhs \<Rightarrow> key list \<Rightarrow> keymaps" where
  "sample_km r p =
     keymaps_default\<lparr>tries := [bucket (Editing Normal) \<mapsto> sample_trie r], pending := p\<rparr>"

definition sample_remap :: mapping_rhs where
  "sample_remap = RhsKeys [key_char (uc CHR ''x''), key_char (uc CHR ''y'')] False"

lemmas sample_defs =
  sample_mapping_def sample_lhs_def sample_trie_def sample_km_def sample_remap_def
  keymaps_default_def trie_empty_def

theorem feed_conserves_witness:
  "\<exists>km' out. feed (\<lambda>m ks. CsInvalid) (Editing Normal) (key_char (uc CHR ''x''))
       (sample_km (RhsLua 7) [key_char (uc CHR ''g'')]) = Some (km', out) \<and>
     typed out @ pending km' = [key_char (uc CHR ''g''), key_char (uc CHR ''x'')]"
proof -
  let ?km = "sample_km (RhsLua 7) [key_char (uc CHR ''g'')]"
  have "scope_remap_free (Editing Normal) ?km"
    by (simp add: scope_remap_free_def sample_defs no_remap_def is_remap_def)
  from feed_conserves[OF this] show ?thesis by (simp add: sample_km_def)
qed

theorem flush_drains_witness:
  "\<exists>km' out. flush (\<lambda>m ks. CsInvalid) (Editing Normal)
       (sample_km (RhsLua 7) [key_char (uc CHR ''g'')]) = Some (km', out) \<and>
     pending km' = [] \<and> typed out = [key_char (uc CHR ''g'')]"
proof -
  let ?km = "sample_km (RhsLua 7) [key_char (uc CHR ''g'')]"
  have "scope_remap_free (Editing Normal) ?km"
    by (simp add: scope_remap_free_def sample_defs no_remap_def is_remap_def)
  with flush_drains[of "\<lambda>m ks. CsInvalid" "Editing Normal" ?km] show ?thesis
    by (simp add: sample_km_def)
qed

theorem mapping_fires_witness:
  "\<exists>km'. feed_keys (\<lambda>m ks. CsInvalid) (Editing Normal) sample_lhs (sample_km sample_remap []) =
     Some (km', [SEditor (key_char (uc CHR ''x'')), SEditor (key_char (uc CHR ''y''))]) \<and>
   pending km' = []"
proof -
  let ?km = "sample_km sample_remap []" and ?m = "sample_mapping sample_remap"
  have "tries ?km (bucket (Editing Normal)) = Some (sample_trie sample_remap)" "pending ?km = []"
    by (simp_all add: sample_km_def)
  moreover have "binds_exactly (sample_trie sample_remap) sample_lhs ?m"
    by (simp add: binds_exactly_def sample_defs trie_lookup_def upt_rec)
  moreover have "rhs_unmapped (sample_trie sample_remap) ?m"
    by (simp add: rhs_unmapped_def sample_defs trie_classify_def key_char_def key_new_def)
  moreover have "outcome ?m sample_lhs =
      [SEditor (key_char (uc CHR ''x'')), SEditor (key_char (uc CHR ''y''))]"
    by (simp add: outcome_def sample_defs)
  ultimately show ?thesis using mapping_fires by metis
qed

end
