(* ===== verification/Building.thy ===== *)
theory Building
  imports Matcher
begin

text \<open>
  \<open>build_for\<close> verified: the compiled tries answer a lookup with the last write of a log that
  lists the active registry entries in rank order, the modeless layer after them. From it follow
  the precedence rules: buffer-local over global, user over default, later over earlier.
\<close>

section \<open>The tries as one keyed store\<close>

type_synonym bound_key = "uchar \<times> key list"

definition tries_lookup :: "tries \<Rightarrow> bound_key \<Rightarrow> mapping option" where
  "tries_lookup ts = (\<lambda>(b, ks). case ts b of Some t \<Rightarrow> trie_lookup t ks | None \<Rightarrow> None)"

definition tries_write :: "bound_key \<Rightarrow> mapping \<Rightarrow> tries \<Rightarrow> tries" where
  "tries_write = (\<lambda>(b, ks). tries_insert b ks)"

lemma tries_lookup_write:
  "tries_lookup (tries_write k m ts) j = (if j = k then Some m else tries_lookup ts j)"
  by (cases k; cases j; cases "fst j = fst k")
     (auto simp: tries_lookup_def tries_write_def tries_insert_def tr.look_upd split: option.splits)

interpretation ts: update_store tries_lookup tries_write
  by unfold_locales (rule tries_lookup_write)

type_synonym write_log = "(bound_key \<times> mapping) list"

definition replay :: "write_log \<Rightarrow> tries \<Rightarrow> tries" where
  "replay = fold (\<lambda>(k, m). tries_write k m)"

lemma replay_Nil [simp]: "replay [] ts = ts"
  by (simp add: replay_def)

lemma replay_append: "replay (xs @ ys) ts = replay ys (replay xs ts)"
  by (simp add: replay_def)

lemma replay_buckets: "replay (map (\<lambda>b. ((b, ks), m)) bs) = fold (\<lambda>b. tries_insert b ks m) bs"
  by (rule ext) (simp add: replay_def fold_map comp_def tries_write_def)

text \<open>The buckets one declared mode covers.\<close>

definition covered :: "ustring \<Rightarrow> uchar list" where
  "covered code =
     mode_buckets code @ (case overlay_bucket code of Some b \<Rightarrow> [b] | None \<Rightarrow> [])"

lemma insert_mode_replay:
  "insert_mode ks m code ts = replay (map (\<lambda>b. ((b, ks), m)) (covered code)) ts"
  by (simp add: insert_mode_def covered_def replay_buckets Let_def replay_append del: map_append
      split: option.splits)

definition entry_active :: "bool \<Rightarrow> nat \<Rightarrow> raw_keymap \<Rightarrow> bool" where
  "entry_active protocol buffer e \<longleftrightarrow>
     (rk_buffer e = None \<or> rk_buffer e = Some buffer) \<and> entry_lhs protocol e \<noteq> []"

definition entry_log :: "bool \<Rightarrow> raw_keymap \<Rightarrow> write_log" where
  "entry_log protocol e =
     map (\<lambda>b. ((b, entry_lhs protocol e), entry_mapping e)) (concat (map covered (rk_modes e)))"

definition modeless_entry :: "raw_keymap \<Rightarrow> bool" where
  "modeless_entry e \<longleftrightarrow> list_ex (\<lambda>code. code = us ''modeless'') (rk_modes e)"

definition layer_log :: "bool \<Rightarrow> raw_keymap \<Rightarrow> write_log" where
  "layer_log protocol e =
     (if modeless_entry e
      then map (\<lambda>b. ((b, entry_lhs protocol e), entry_mapping e)) [MODELESS_INSERT, MODELESS_SELECT]
      else [])"

definition build_log :: "bool \<Rightarrow> nat \<Rightarrow> raw_keymap list \<Rightarrow> write_log" where
  "build_log protocol buffer es =
     (let act = filter (entry_active protocol buffer) es in
      concat (map (entry_log protocol) act) @ concat (map (layer_log protocol) act))"

lemma insert_modes_replay:
  "fold (insert_mode ks m) codes ts =
     replay (map (\<lambda>b. ((b, ks), m)) (concat (map covered codes))) ts"
  by (induction codes arbitrary: ts) (simp_all add: insert_mode_replay replay_append)

lemma build_entry_replay:
  "build_entry protocol buffer e (ts, layer) =
     (if entry_active protocol buffer e
      then (replay (entry_log protocol e) ts,
            layer @ (if modeless_entry e then [(entry_lhs protocol e, entry_mapping e)] else []))
      else (ts, layer))"
  by (auto simp: build_entry_def entry_active_def entry_log_def insert_modes_replay Let_def
      modeless_entry_def split: option.splits)

lemma build_entries_replay:
  "fold (build_entry protocol buffer) es (ts, layer) =
     (let act = filter (entry_active protocol buffer) es in
      (replay (concat (map (entry_log protocol) act)) ts,
       layer @ map (\<lambda>e. (entry_lhs protocol e, entry_mapping e)) (filter modeless_entry act)))"
  by (induction es arbitrary: ts layer)
     (simp_all add: build_entry_replay Let_def replay_append)

lemma layer_replay:
  "fold (\<lambda>(ks, m) ts. fold (\<lambda>b. tries_insert b ks m) [MODELESS_INSERT, MODELESS_SELECT] ts)
     (map (\<lambda>e. (entry_lhs protocol e, entry_mapping e)) (filter modeless_entry es)) ts =
   replay (concat (map (layer_log protocol) es)) ts"
proof (induction es arbitrary: ts)
  case (Cons e es)
  then show ?case
    by (simp add: layer_log_def replay_append) (simp add: replay_def tries_write_def)
qed (simp add: replay_def)

lemma build_for_replay:
  "build_for buffer km =
     km\<lparr>built_buffer := Some buffer,
        tries := replay (build_log (keyboard_protocol km) buffer (snapshot km)) Map.empty\<rparr>"
  unfolding build_for_def build_entries_replay Let_def prod.case append_Nil layer_replay
    build_log_def replay_append ..

lemma build_for_lookup:
  "tries_lookup (tries (build_for buffer km)) bk =
     map_of (rev (build_log (keyboard_protocol km) buffer (snapshot km))) bk"
proof -
  have "tries_lookup Map.empty bk = None" by (cases bk) (simp add: tries_lookup_def)
  then show ?thesis
    by (simp add: build_for_replay replay_def ts.look_fold split: option.splits)
qed

section \<open>The last writer wins\<close>

lemma map_of_const:
  "map_of (rev (map (\<lambda>b. ((b, ks), m)) bs)) (b', ks') =
     (if b' \<in> set bs \<and> ks' = ks then Some m else None)"
  by (induction bs) (auto simp: map_add_def split: option.splits)

text \<open>In a log sorted by rank, the highest-ranked writer of a key has the last word.\<close>

lemma last_writer:
  assumes "sorted (map r xs)" and "x \<in> set xs" and "map_of (rev (f x)) k = Some v"
    and "\<And>y. y \<in> set xs \<Longrightarrow> y \<noteq> x \<Longrightarrow> map_of (rev (f y)) k \<noteq> None \<Longrightarrow> r y < (r x :: 'r::linorder)"
  shows "map_of (rev (concat (map f xs))) k = Some v"
  using assms(1,2,4)
proof (induction xs rule: rev_induct)
  case (snoc y ys)
  show ?case
  proof (cases "y = x")
    case True
    then show ?thesis using assms(3) by (simp add: map_add_def)
  next
    case False
    then have x: "x \<in> set ys" using snoc.prems(2) by simp
    then have "r x \<le> r y" using snoc.prems(1) by (simp add: sorted_append)
    then have "map_of (rev (f y)) k = None"
      using snoc.prems(3)[of y] False by fastforce
    moreover have "map_of (rev (concat (map f ys))) k = Some v"
      using snoc x by (auto simp: sorted_append)
    ultimately show ?thesis by (simp add: map_add_def)
  qed
qed simp

lemma map_of_concat_none:
  "(\<And>x. x \<in> set xs \<Longrightarrow> map_of (rev (f x)) k = None) \<Longrightarrow> map_of (rev (concat (map f xs))) k = None"
  by (induction xs) (auto simp: map_add_def)

definition entry_buckets :: "raw_keymap \<Rightarrow> uchar list" where
  "entry_buckets e = concat (map covered (rk_modes e))"

lemma entry_log_at:
  "map_of (rev (entry_log p e)) (b, ks) =
     (if b \<in> set (entry_buckets e) \<and> ks = entry_lhs p e then Some (entry_mapping e) else None)"
  unfolding entry_log_def entry_buckets_def by (rule map_of_const)

lemma layer_log_at:
  "map_of (rev (layer_log p e)) (b, ks) =
     (if modeless_entry e \<and> b \<in> {MODELESS_INSERT, MODELESS_SELECT} \<and> ks = entry_lhs p e
      then Some (entry_mapping e) else None)"
  unfolding layer_log_def using map_of_const[of "entry_lhs p e" "entry_mapping e"
    "[MODELESS_INSERT, MODELESS_SELECT]" b ks] by simp

text \<open>\<open>e'\<close> competes with \<open>e\<close> for the keys of \<open>e\<close>: an active entry with the same left-hand side.\<close>

definition competes :: "bool \<Rightarrow> nat \<Rightarrow> raw_keymap \<Rightarrow> raw_keymap \<Rightarrow> bool" where
  "competes p buffer e e' \<longleftrightarrow>
     entry_active p buffer e' \<and> entry_lhs p e' = entry_lhs p e \<and> e' \<noteq> e"

text \<open>
  C5. Mapping precedence: after the snapshot is taken and the tries are compiled for a buffer,
  a lookup in an editing or widget bucket answers with the entry of highest rank among the active
  ones that bind the same keys there - buffer-local before global, then user before default,
  then the later one - and entries local to other buffers take no part.
\<close>
theorem highest_rank_wins:
  assumes "e \<in> set es" and "entry_active (keyboard_protocol km) buffer e"
    and "b \<in> set (entry_buckets e)" and "b \<noteq> MODELESS_INSERT" and "b \<noteq> MODELESS_SELECT"
    and "\<forall>e' \<in> set es. competes (keyboard_protocol km) buffer e e' \<and> b \<in> set (entry_buckets e')
           \<longrightarrow> rank e' < rank e"
  shows "tries_lookup (tries (build_for buffer (set_snapshot v es km)))
           (b, entry_lhs (keyboard_protocol km) e) = Some (entry_mapping e)"
proof -
  let ?p = "keyboard_protocol km"
  let ?act = "filter (entry_active ?p buffer) (sort_key rank es)"
  let ?k = "(b, entry_lhs ?p e)"
  have "map_of (rev (concat (map (entry_log ?p) ?act))) ?k = Some (entry_mapping e)"
  proof (rule last_writer[where r = rank])
    show "sorted (map rank ?act)" by (simp add: sorted_filter)
    show "map_of (rev (entry_log ?p e)) ?k = Some (entry_mapping e)"
      using assms(3) by (simp add: entry_log_at)
    show "rank e' < rank e" if "e' \<in> set ?act" "e' \<noteq> e" "map_of (rev (entry_log ?p e')) ?k \<noteq> None" for e'
      using that assms(6) by (auto simp: entry_log_at competes_def split: if_splits)
  qed (use assms in simp)
  moreover have "map_of (rev (concat (map (layer_log ?p) ?act))) ?k = None"
    by (rule map_of_concat_none) (use assms in \<open>simp add: layer_log_at\<close>)
  ultimately show ?thesis
    by (simp add: build_for_lookup set_snapshot_def build_log_def Let_def map_add_def)
qed

text \<open>
  The modeless layer is on top: a \<open>modeless\<close> entry that outranks the other modeless
  entries on its keys answers in both modeless buckets, whatever Insert or Select mappings bind
  the same keys and whatever their rank.
\<close>
theorem modeless_layer_wins:
  assumes "e \<in> set es" and "entry_active (keyboard_protocol km) buffer e" and "modeless_entry e"
    and "b \<in> {MODELESS_INSERT, MODELESS_SELECT}"
    and "\<forall>e' \<in> set es. competes (keyboard_protocol km) buffer e e' \<and> modeless_entry e'
           \<longrightarrow> rank e' < rank e"
  shows "tries_lookup (tries (build_for buffer (set_snapshot v es km)))
           (b, entry_lhs (keyboard_protocol km) e) = Some (entry_mapping e)"
proof -
  let ?p = "keyboard_protocol km"
  let ?act = "filter (entry_active ?p buffer) (sort_key rank es)"
  let ?k = "(b, entry_lhs ?p e)"
  have "map_of (rev (concat (map (layer_log ?p) ?act))) ?k = Some (entry_mapping e)"
  proof (rule last_writer[where r = rank])
    show "sorted (map rank ?act)" by (simp add: sorted_filter)
    show "map_of (rev (layer_log ?p e)) ?k = Some (entry_mapping e)"
      using assms(3,4) by (simp add: layer_log_at)
    show "rank e' < rank e" if "e' \<in> set ?act" "e' \<noteq> e" "map_of (rev (layer_log ?p e')) ?k \<noteq> None" for e'
      using that assms(5) by (auto simp: layer_log_at competes_def split: if_splits)
  qed (use assms in simp)
  then show ?thesis
    by (simp add: build_for_lookup set_snapshot_def build_log_def Let_def map_add_def)
qed

section \<open>The compiled tries are well-formed\<close>

definition wf_tries :: "tries \<Rightarrow> bool" where
  "wf_tries ts \<longleftrightarrow> (\<forall>b t. ts b = Some t \<longrightarrow> wf_trie t)"

lemma wf_tries_write: "wf_tries ts \<Longrightarrow> wf_tries (tries_write k m ts)"
  by (cases k) (auto simp: wf_tries_def tries_write_def tries_insert_def
    intro!: wf_insert split: option.splits if_splits)

interpretation tw: guarded_system "\<lambda>ts (k, m). tries_write k m ts" wf_tries
  by unfold_locales (auto intro: wf_tries_write)

lemma build_for_wf: "wf_tries (tries (build_for buffer km))"
proof -
  have "replay log ts = foldl (\<lambda>ts (k, m). tries_write k m ts) ts log" for log ts
    by (simp add: replay_def foldl_conv_fold case_prod_unfold)
  moreover have "wf_tries Map.empty" by (simp add: wf_tries_def)
  ultimately show ?thesis by (simp add: build_for_replay tw.run_inv)
qed

text \<open>
  The continuations offered after a prefix are exactly the keys that continue it in the
  compiled trie, each tagged with the mapping or group it leads to, sorted by notation.
\<close>
theorem continuations_exact:
  "sorted (map cont_key (continuations_at sc ks (build_for buffer km))) \<and>
   set (continuations_at sc ks (build_for buffer km)) =
     {continuation_of (k, c) | k c.
        (case tries (build_for buffer km) (bucket sc) of
           Some t \<Rightarrow> node_at t (ks @ [k]) | None \<Rightarrow> None) = Some c}"
proof (cases "tries (build_for buffer km) (bucket sc)")
  case None
  then show ?thesis by (simp add: continuations_at_def)
next
  case (Some t)
  with build_for_wf have wf: "wf_trie t" unfolding wf_tries_def by blast
  show ?thesis
  proof (cases "node_at t ks")
    case None
    with Some show ?thesis by (simp add: continuations_at_def trie_continuations_def node_at_append)
  next
    case n: (Some n)
    from continuations_of_node[OF wf n] obtain cs where "trie_continuations t ks = Some cs"
      "sorted (map cont_key cs)"
      "set cs = {continuation_of (k, c) | k c. node_at t (ks @ [k]) = Some c}" by blast
    with Some show ?thesis by (simp add: continuations_at_def)
  qed
qed

section \<open>Witnesses\<close>

definition sample_entry :: "nat \<Rightarrow> nat option \<Rightarrow> bool \<Rightarrow> ustring list \<Rightarrow> nat \<Rightarrow> raw_keymap" where
  "sample_entry i buf d modes n =
     \<lparr>rk_modes = modes, rk_lhs = us ''gd'', rk_rhs = RawLua i, rk_noremap = True, rk_buffer = buf,
      rk_desc = None, rk_nowait = False, rk_silent = False, rk_expr = False, rk_default = d,
      rk_seq = n\<rparr>"

definition sample_registry :: "raw_keymap list" where
  "sample_registry =
     [sample_entry 1 (Some 3) False [us ''n''] 0, sample_entry 2 None False [us ''n''] 1,
      sample_entry 3 None True [us ''n''] 2, sample_entry 4 (Some 9) False [us ''n''] 3,
      sample_entry 5 None True [us ''modeless''] 4, sample_entry 6 None False [us ''i''] 5]"

lemma sample_lhs: "parse_keys [103, 100] = [key_char (uc CHR ''g''), key_char (uc CHR ''d'')]"
  by (simp add: parse_keys_def control_byte_none)

lemmas sample_simps =
  sample_registry_def sample_entry_def entry_active_def entry_lhs_def sample_lhs competes_def
  rank_def keymaps_default_def entry_buckets_def covered_def mode_buckets_def overlay_bucket_def
  entry_mapping_def modeless_entry_def

theorem highest_rank_wins_witness:
  "tries_lookup (tries (build_for 3 (set_snapshot 1 sample_registry keymaps_default)))
     (uc CHR ''n'', [key_char (uc CHR ''g''), key_char (uc CHR ''d'')]) =
   Some \<lparr>rhs = RhsLua 1, nowait = False, silent = False, expr = False, desc = None, dflt = False\<rparr>"
proof -
  let ?e = "sample_entry 1 (Some 3) False [us ''n''] 0"
  have "?e \<in> set sample_registry" by (simp add: sample_registry_def)
  moreover have "entry_active (keyboard_protocol keymaps_default) 3 ?e" by (simp add: sample_simps)
  moreover have "uc CHR ''n'' \<in> set (entry_buckets ?e)" by (simp add: sample_simps)
  moreover have "uc CHR ''n'' \<noteq> MODELESS_INSERT" "uc CHR ''n'' \<noteq> MODELESS_SELECT"
    by (simp_all add: MODELESS_INSERT_def MODELESS_SELECT_def)
  moreover have "\<forall>e' \<in> set sample_registry. competes (keyboard_protocol keymaps_default) 3 ?e e' \<and>
      uc CHR ''n'' \<in> set (entry_buckets e') \<longrightarrow> rank e' < rank ?e"
    by code_simp
  ultimately have "tries_lookup (tries (build_for 3 (set_snapshot 1 sample_registry keymaps_default)))
      (uc CHR ''n'', entry_lhs (keyboard_protocol keymaps_default) ?e) = Some (entry_mapping ?e)"
    by (rule highest_rank_wins)
  then show ?thesis by (simp add: sample_simps)
qed

theorem modeless_layer_wins_witness:
  "tries_lookup (tries (build_for 3 (set_snapshot 1 sample_registry keymaps_default)))
     (MODELESS_INSERT, [key_char (uc CHR ''g''), key_char (uc CHR ''d'')]) =
   Some \<lparr>rhs = RhsLua 5, nowait = False, silent = False, expr = False, desc = None, dflt = True\<rparr>"
proof -
  let ?e = "sample_entry 5 None True [us ''modeless''] 4"
  have "?e \<in> set sample_registry" by (simp add: sample_registry_def)
  moreover have "entry_active (keyboard_protocol keymaps_default) 3 ?e" by (simp add: sample_simps)
  moreover have "modeless_entry ?e" by (simp add: sample_simps)
  moreover have "MODELESS_INSERT \<in> {MODELESS_INSERT, MODELESS_SELECT}" by simp
  moreover have "\<forall>e' \<in> set sample_registry. competes (keyboard_protocol keymaps_default) 3 ?e e' \<and>
      modeless_entry e' \<longrightarrow> rank e' < rank ?e"
    by code_simp
  ultimately have "tries_lookup (tries (build_for 3 (set_snapshot 1 sample_registry keymaps_default)))
      (MODELESS_INSERT, entry_lhs (keyboard_protocol keymaps_default) ?e) = Some (entry_mapping ?e)"
    by (rule modeless_layer_wins)
  then show ?thesis by (simp add: sample_simps)
qed

end
