(* ===== verification/Undo.thy ===== *)
theory Undo
  imports Prelude "HOL-Library.Product_Lexorder"
begin

text \<open>
  The undo tree of \<open>crates/bemtvi-core/src/editor/undo.rs\<close> (its structs are in
  \<open>editor/mod.rs\<close>): an arena of states linked by parent and child indices, lazy commit of a
  pending change group, travel by sequence number, time and file write, and pruning to
  \<open>'undolevels'\<close> by re-rooting. A snapshot is represented by its text \<open>'t\<close>; the cursor, marks
  and extmarks a node also carries are not part of the model.

  A loop that climbs to the root, and the traversal of \<open>reroot\<close>, are partial functions:
  \<open>None\<close> is a loop that does not end. On a well-formed tree they all return (\<open>UndoTree\<close>).
\<close>

section \<open>The tree\<close>

record 't undo_node =
  seq :: nat
  parent :: "nat option"
  children :: "nat list"
  time :: int
  save :: "nat option"
  snap :: 't

record 't undo_tree =
  nodes :: "'t undo_node list"
  cur :: nat
  next_seq :: nat
  dirty :: bool
  dirty_since :: int
  dirty_tick :: nat
  save_last :: nat

definition tree_new :: "'t \<Rightarrow> 't undo_tree" where
  "tree_new text =
     \<lparr>nodes = [\<lparr>seq = 0, parent = None, children = [], time = 0, save = None, snap = text\<rparr>],
      cur = 0, next_seq = 1, dirty = False, dirty_since = 0, dirty_tick = 0, save_last = 0\<rparr>"

abbreviation node :: "'t undo_tree \<Rightarrow> nat \<Rightarrow> 't undo_node" where
  "node t i \<equiv> nodes t ! i"

definition mark_dirty :: "int \<Rightarrow> nat \<Rightarrow> 't undo_tree \<Rightarrow> 't undo_tree" where
  "mark_dirty now tick t =
     (if \<not> dirty t then t\<lparr>dirty := True, dirty_since := now, dirty_tick := tick\<rparr> else t)"

definition undo_pending :: "nat \<Rightarrow> 't undo_tree \<Rightarrow> bool" where
  "undo_pending tick t \<longleftrightarrow> dirty t \<and> tick \<noteq> dirty_tick t"

definition cur_seq :: "'t undo_tree \<Rightarrow> nat" where
  "cur_seq t = seq (node t (cur t))"

definition seq_last :: "'t undo_tree \<Rightarrow> nat" where
  "seq_last t = next_seq t - 1"

definition node_of_seq :: "nat \<Rightarrow> 't undo_tree \<Rightarrow> nat option" where
  "node_of_seq s t = position (\<lambda>n. seq n = s) (nodes t)"

section \<open>Seeking a state\<close>

definition indices :: "'t undo_tree \<Rightarrow> nat list" where
  "indices t = [0..<length (nodes t)]"

definition or_cur :: "'t undo_tree \<Rightarrow> nat option \<Rightarrow> nat" where
  "or_cur t pick = (case pick of Some i \<Rightarrow> i | None \<Rightarrow> cur t)"

definition on_travel_side :: "'t undo_tree \<Rightarrow> bool \<Rightarrow> nat \<Rightarrow> bool" where
  "on_travel_side t back i =
     (if back then seq (node t i) \<le> cur_seq t else cur_seq t < seq (node t i))"

definition end_node :: "bool \<Rightarrow> 't undo_tree \<Rightarrow> nat" where
  "end_node back t =
     or_cur t (if back then min_by_key (\<lambda>i. seq (node t i)) (indices t)
               else max_by_key (\<lambda>i. seq (node t i)) (indices t))"

definition abs_diff :: "nat \<Rightarrow> nat \<Rightarrow> nat" where
  "abs_diff a b = (if a \<le> b then b - a else a - b)"

definition node_near_seq :: "nat \<Rightarrow> bool \<Rightarrow> 't undo_tree \<Rightarrow> nat" where
  "node_near_seq target back t =
     (let on_side = filter (\<lambda>i. on_travel_side t back i \<and>
            (if back then seq (node t i) \<le> target else target \<le> seq (node t i))) (indices t);
          pick = (if back then max_by_key (\<lambda>i. seq (node t i)) on_side
                  else min_by_key (\<lambda>i. seq (node t i)) on_side)
      in case pick of
           Some i \<Rightarrow> i
         | None \<Rightarrow> or_cur t (min_by_key (\<lambda>i. abs_diff (seq (node t i)) target)
                              (filter (on_travel_side t back) (indices t))))"

definition node_near_time :: "int \<Rightarrow> bool \<Rightarrow> 't undo_tree \<Rightarrow> nat" where
  "node_near_time target back t =
     (let on_side = filter (\<lambda>i. on_travel_side t back i \<and>
            (if back then time (node t i) \<le> target else target \<le> time (node t i))) (indices t);
          key = (\<lambda>i. (time (node t i), seq (node t i)));
          pick = (if back then max_by_key key on_side else min_by_key key on_side)
      in case pick of Some i \<Rightarrow> i | None \<Rightarrow> end_node back t)"

partial_function (option) save_from :: "'t undo_tree \<Rightarrow> nat \<Rightarrow> nat option option" where
  "save_from t at =
     (case save (node t at) of
        Some nr \<Rightarrow> Some (Some nr)
      | None \<Rightarrow> (case parent (node t at) of
                   None \<Rightarrow> Some None
                 | Some p \<Rightarrow> save_from t p))"

definition save_at_or_above_cur :: "'t undo_tree \<Rightarrow> nat option option" where
  "save_at_or_above_cur t = save_from t (cur t)"

definition node_near_save :: "int \<Rightarrow> bool \<Rightarrow> 't undo_tree \<Rightarrow> nat" where
  "node_near_save target back t =
     (if target \<le> 0 then end_node True t
      else
        (let saves = filter (\<lambda>(i, nr). if back then nr \<le> nat target else nat target \<le> nr)
               (List.map_filter (\<lambda>i. map_option (Pair i) (save (node t i)))
                 (filter (on_travel_side t back) (indices t)));
             pick = (if back then max_by_key snd saves else min_by_key snd saves)
         in case pick of Some (i, nr) \<Rightarrow> i | None \<Rightarrow> end_node back t))"

partial_function (option) depth_of :: "'t undo_tree \<Rightarrow> nat \<Rightarrow> nat option" where
  "depth_of t at =
     (case parent (node t at) of
        None \<Rightarrow> Some 0
      | Some p \<Rightarrow> Option.bind (depth_of t p) (\<lambda>d. Some (Suc d)))"

section \<open>Commit, prune, reroot\<close>

definition tree_commit :: "'t \<Rightarrow> 't undo_tree \<Rightarrow> 't undo_tree" where
  "tree_commit text t =
     (let idx = length (nodes t);
          leaf = \<lparr>seq = next_seq t, parent = Some (cur t), children = [], time = dirty_since t,
                  save = None, snap = text\<rparr>;
          ns = nodes t @ [leaf]
      in t\<lparr>nodes := ns[cur t := (ns ! cur t)\<lparr>children := children (ns ! cur t) @ [idx]\<rparr>],
           cur := idx, next_seq := next_seq t + 1, dirty := False\<rparr>)"

partial_function (option) child_toward :: "'t undo_tree \<Rightarrow> nat \<Rightarrow> nat \<Rightarrow> nat option option" where
  "child_toward t from at =
     (case parent (node t at) of
        None \<Rightarrow> Some None
      | Some p \<Rightarrow> if p = from then Some (Some at) else child_toward t from p)"

definition child_toward_cur :: "nat \<Rightarrow> 't undo_tree \<Rightarrow> nat option option" where
  "child_toward_cur from t = child_toward t from (cur t)"

text \<open>The traversal's stack has its top at the head: the children are pushed in order, so the
  last one is popped first.\<close>

partial_function (option) collect_from ::
  "'t undo_tree \<Rightarrow> nat list \<Rightarrow> nat list \<Rightarrow> nat list option" where
  "collect_from t stack keep =
     (case stack of
        [] \<Rightarrow> Some keep
      | i # rest \<Rightarrow> collect_from t (rev (children (node t i)) @ rest) (keep @ [i]))"

definition USIZE_MAX :: nat where
  "USIZE_MAX = 2 ^ 64 - 1"

definition slot_of :: "nat list \<Rightarrow> nat \<Rightarrow> nat option" where
  "slot_of keep i = map_of (zip keep [0..<length keep]) i"

definition move_node :: "nat list \<Rightarrow> 't undo_node \<Rightarrow> 't undo_node" where
  "move_node keep n =
     n\<lparr>parent := Option.bind (parent n) (slot_of keep),
       children := List.map_filter (slot_of keep) (children n)\<rparr>"

definition reroot :: "nat \<Rightarrow> 't undo_tree \<Rightarrow> 't undo_tree option" where
  "reroot heir t =
     (case collect_from t [heir] [] of
        None \<Rightarrow> None
      | Some found \<Rightarrow>
          (let keep = sort found in
           Some (t\<lparr>nodes := map (\<lambda>i. move_node keep (node t i)) keep,
                   cur := (case slot_of keep (cur t) of Some c \<Rightarrow> c | None \<Rightarrow> USIZE_MAX)\<rparr>)))"

partial_function (option) prune :: "nat \<Rightarrow> 't undo_tree \<Rightarrow> 't undo_tree option" where
  "prune keep t =
     (if keep < length (nodes t) - 1
      then Option.bind (child_toward_cur 0 t)
             (\<lambda>h. case h of
                    None \<Rightarrow> Some t
                  | Some heir \<Rightarrow> Option.bind (reroot heir t) (prune keep))
      else Some t)"

section \<open>Projections\<close>

record undo_leaf =
  leaf_seq :: nat
  leaf_changes :: nat
  leaf_time :: int
  leaf_save :: "nat option"

text \<open>\<open>None\<close>: a depth that never reaches the root.\<close>

definition leaves :: "nat \<Rightarrow> 't undo_tree \<Rightarrow> undo_leaf list option" where
  "leaves tick t =
     (let pending = undo_pending tick t;
          tips = filter (\<lambda>i. children (node t i) = [] \<and> \<not> (pending \<and> i = cur t)) (indices t)
      in Option.bind
           (those (map (\<lambda>i. map_option (\<lambda>d.
              \<lparr>leaf_seq = seq (node t i), leaf_changes = d, leaf_time = time (node t i),
               leaf_save = save (node t i)\<rparr>) (depth_of t i)) tips))
           (\<lambda>out. Option.bind (if pending
                                 then map_option (\<lambda>d.
                                   [\<lparr>leaf_seq = next_seq t, leaf_changes = d + 1,
                                     leaf_time = dirty_since t, leaf_save = None\<rparr>]) (depth_of t (cur t))
                                 else Some [])
              (\<lambda>extra. Some (sort_key leaf_seq (out @ extra)))))"

datatype undo_entry =
  UndoEntry (ue_seq: nat) (ue_time: int) (ue_save: "nat option") (ue_alt: "undo_entry list")

datatype sib_item = Real nat | SibPending nat int

type_synonym pending_node = "(nat \<times> nat \<times> int) option"

definition sibs_of :: "'t undo_tree \<Rightarrow> pending_node \<Rightarrow> nat \<Rightarrow> sib_item list" where
  "sibs_of t p parent_idx =
     map Real (children (node t parent_idx)) @
     (case p of
        Some (at, s, tm) \<Rightarrow> if at = parent_idx then [SibPending s tm] else []
      | None \<Rightarrow> [])"

text \<open>\<open>encode_sibs\<close> with its call of \<open>encode_children\<close> written out.\<close>

partial_function (option) encode_sibs ::
  "'t undo_tree \<Rightarrow> pending_node \<Rightarrow> sib_item list \<Rightarrow> undo_entry list option" where
  "encode_sibs t p sibs =
     (case sibs of
        [] \<Rightarrow> Some []
      | head # rest \<Rightarrow>
          Option.bind (encode_sibs t p rest) (\<lambda>alt.
            case head of
              Real c \<Rightarrow>
                Option.bind (encode_sibs t p (sibs_of t p c)) (\<lambda>tail.
                  Some (UndoEntry (seq (node t c)) (time (node t c)) (save (node t c)) alt # tail))
            | SibPending s tm \<Rightarrow> Some [UndoEntry s tm None alt]))"

definition encode_children ::
  "'t undo_tree \<Rightarrow> pending_node \<Rightarrow> nat \<Rightarrow> undo_entry list option" where
  "encode_children t p parent_idx = encode_sibs t p (sibs_of t p parent_idx)"

record undo_view =
  view_seq_last :: nat
  view_seq_cur :: nat
  view_save_last :: nat
  view_save_cur :: nat
  view_time_cur :: int
  view_entries :: "undo_entry list"

definition tree_view :: "nat \<Rightarrow> 't undo_tree \<Rightarrow> undo_view option" where
  "tree_view tick t =
     (let p = (if undo_pending tick t then Some (cur t, next_seq t, dirty_since t) else None) in
      Option.bind (save_at_or_above_cur t) (\<lambda>sv.
      Option.bind (encode_children t p 0) (\<lambda>es.
        Some (case p of
          Some (_, s, tm) \<Rightarrow>
            \<lparr>view_seq_last = s, view_seq_cur = s, view_save_last = save_last t,
             view_save_cur = (case sv of Some nr \<Rightarrow> nr | None \<Rightarrow> 0), view_time_cur = tm,
             view_entries = es\<rparr>
        | None \<Rightarrow>
            \<lparr>view_seq_last = seq_last t, view_seq_cur = cur_seq t, view_save_last = save_last t,
             view_save_cur = (case sv of Some nr \<Rightarrow> nr | None \<Rightarrow> 0),
             view_time_cur = time (node t (cur t)), view_entries = es\<rparr>))))"

section \<open>Arguments and labels\<close>

definition undo_levels_to_keep :: "int \<Rightarrow> nat" where
  "undo_levels_to_keep undolevels = (if undolevels < 0 then 0 else max (nat undolevels) 1)"

datatype travel_arg = TravelStates nat | TravelSeconds int | TravelWrites nat

definition parse_u64 :: "ustring \<Rightarrow> nat option" where
  "parse_u64 ds =
     (if ds = [] \<or> \<not> list_all is_ascii_digit ds \<or> U64_MAX < digits_value ds then None
      else Some (digits_value ds))"

definition parse_travel_arg :: "ustring \<Rightarrow> travel_arg option" where
  "parse_travel_arg arg =
     (let digits = takeWhile is_ascii_digit arg in
      case parse_u64 digits of
        None \<Rightarrow> None
      | Some n \<Rightarrow>
          (let secs = min (int n) I64_MAX; unit = drop (length digits) arg in
           if unit = [] then Some (TravelStates n)
           else if unit = us ''s'' then Some (TravelSeconds secs)
           else if unit = us ''m'' then Some (TravelSeconds (sat_i64 (secs * 60)))
           else if unit = us ''h'' then Some (TravelSeconds (sat_i64 (secs * 3600)))
           else if unit = us ''d'' then Some (TravelSeconds (sat_i64 (secs * 86400)))
           else if unit = us ''f'' then Some (TravelWrites n)
           else None))"

definition format_ago :: "int \<Rightarrow> ustring" where
  "format_ago secs =
     (let s = nat (max secs 0);
          (n, unit) = (if s < 60 then (s, us ''second'')
                       else if s < 3600 then (s div 60, us ''minute'')
                       else if s < 86400 then (s div 3600, us ''hour'')
                       else (s div 86400, us ''day''));
          plural = (if n = 1 then [] else us ''s'')
      in show_nat n @ us '' '' @ unit @ plural @ us '' ago'')"

text \<open>The loops compute.\<close>

lemmas [code] =
  save_from.simps depth_of.simps child_toward.simps collect_from.simps prune.simps encode_sibs.simps

end
