(* ===== verification/UndoTree.thy ===== *)
theory UndoTree
  imports Undo "HOL-Library.Multiset"
begin

text \<open>
  The undo tree verified: the shape invariant of the arena, and that \<open>commit\<close>, \<open>reroot\<close> and
  \<open>prune\<close> keep it, return, and never lose the current state.
\<close>

section \<open>The shape of the arena\<close>

definition wf_undo :: "'t undo_tree \<Rightarrow> bool" where
  "wf_undo t \<longleftrightarrow>
     cur t < length (nodes t) \<and>
     parent (node t 0) = None \<and>
     (\<forall>i<length (nodes t). 0 < i \<longrightarrow>
        (case parent (node t i) of Some p \<Rightarrow> p < i | None \<Rightarrow> False)) \<and>
     (\<forall>p<length (nodes t).
        children (node t p) = filter (\<lambda>c. parent (node t c) = Some p) (indices t)) \<and>
     sorted_wrt (<) (map seq (nodes t)) \<and>
     (\<forall>n \<in> set (nodes t). seq n < next_seq t)"

lemma wf_cur: "wf_undo t \<Longrightarrow> cur t < length (nodes t)"
  and wf_root: "wf_undo t \<Longrightarrow> parent (node t 0) = None"
  and wf_children: "wf_undo t \<Longrightarrow> p < length (nodes t) \<Longrightarrow>
    children (node t p) = filter (\<lambda>c. parent (node t c) = Some p) (indices t)"
  and wf_sorted: "wf_undo t \<Longrightarrow> sorted_wrt (<) (map seq (nodes t))"
  and wf_next: "wf_undo t \<Longrightarrow> i < length (nodes t) \<Longrightarrow> seq (node t i) < next_seq t"
  by (auto simp: wf_undo_def)

lemma wf_parent:
  "wf_undo t \<Longrightarrow> i < length (nodes t) \<Longrightarrow> parent (node t i) = Some p \<Longrightarrow> p < i"
  unfolding wf_undo_def by (cases "i = 0") (auto split: option.splits)

lemma wf_not_root:
  "wf_undo t \<Longrightarrow> i < length (nodes t) \<Longrightarrow> 0 < i \<Longrightarrow> \<exists>p. parent (node t i) = Some p"
  unfolding wf_undo_def by (auto split: option.splits)

lemma wf_child: "wf_undo t \<Longrightarrow> p < length (nodes t) \<Longrightarrow>
  c \<in> set (children (node t p)) \<longleftrightarrow> c < length (nodes t) \<and> parent (node t c) = Some p"
  by (auto simp: wf_children indices_def)

lemma wf_seq_less:
  "wf_undo t \<Longrightarrow> i < j \<Longrightarrow> j < length (nodes t) \<Longrightarrow> seq (node t i) < seq (node t j)"
  by (auto simp: wf_undo_def sorted_wrt_iff_nth_less)

lemma wf_seq_inj:
  "wf_undo t \<Longrightarrow> i < length (nodes t) \<Longrightarrow> j < length (nodes t) \<Longrightarrow>
   seq (node t i) = seq (node t j) \<Longrightarrow> i = j"
  by (metis linorder_neqE_nat less_irrefl wf_seq_less)

lemma tree_new_wf: "wf_undo (tree_new text)"
  by (auto simp: wf_undo_def tree_new_def indices_def)

section \<open>Climbing to the root\<close>

text \<open>The induction every climbing loop is verified by.\<close>

lemma climb_induct [consumes 2, case_names root up]:
  assumes "wf_undo t" and "i < length (nodes t)"
    and "\<And>i. i < length (nodes t) \<Longrightarrow> parent (node t i) = None \<Longrightarrow> P i"
    and "\<And>i p. i < length (nodes t) \<Longrightarrow> parent (node t i) = Some p \<Longrightarrow> p < i \<Longrightarrow> P p \<Longrightarrow> P i"
  shows "P i"
  using assms(2)
proof (induction i rule: less_induct)
  case (less i)
  show ?case
  proof (cases "parent (node t i)")
    case None
    with less assms(3) show ?thesis by blast
  next
    case (Some p)
    with less assms(1,4) wf_parent[OF assms(1)] show ?thesis
      by (meson order_less_trans)
  qed
qed

lemma depth_of_returns: "wf_undo t \<Longrightarrow> i < length (nodes t) \<Longrightarrow> \<exists>d. depth_of t i = Some d"
  by (induction i rule: climb_induct) (auto simp: depth_of.simps)

lemma save_from_returns: "wf_undo t \<Longrightarrow> i < length (nodes t) \<Longrightarrow> \<exists>r. save_from t i = Some r"
  by (induction i rule: climb_induct)
     (auto simp: save_from.simps[of t] split: option.splits)

text \<open>\<open>under t a i\<close>: the state \<open>i\<close> is \<open>a\<close> or descends from it.\<close>

definition under :: "'t undo_tree \<Rightarrow> nat \<Rightarrow> nat \<Rightarrow> bool" where
  "under t a i \<longleftrightarrow> (\<lambda>c p. parent (node t c) = Some p)\<^sup>*\<^sup>* i a"

lemma under_refl [simp]: "under t a a"
  by (simp add: under_def)

lemma under_unfold:
  "under t a i \<longleftrightarrow> i = a \<or> (\<exists>p. parent (node t i) = Some p \<and> under t a p)"
  unfolding under_def by (auto elim: converse_rtranclpE intro: converse_rtranclp_into_rtranclp)

lemma under_trans: "under t b i \<Longrightarrow> under t a b \<Longrightarrow> under t a i"
  unfolding under_def by (rule rtranclp_trans)

lemma under_le: "wf_undo t \<Longrightarrow> i < length (nodes t) \<Longrightarrow> under t a i \<Longrightarrow> a \<le> i"
proof (induction i rule: climb_induct)
  case (root i)
  then show ?case using under_unfold[of t a i] by auto
next
  case (up i p)
  then show ?case using under_unfold[of t a i] by auto
qed

lemma under_root:
  assumes wf: "wf_undo t" and "i < length (nodes t)"
  shows "under t 0 i"
  using assms
proof (induction i rule: climb_induct)
  case (root i)
  then show ?case using wf_not_root[OF wf, of i] by (cases "i = 0") auto
next
  case (up i p)
  then show ?case using under_unfold[of t 0 i] by auto
qed

lemma under_child:
  assumes wf: "wf_undo t" and "i < length (nodes t)" and a: "a < length (nodes t)"
  shows "under t a i \<longleftrightarrow> i = a \<or> (\<exists>c \<in> set (children (node t a)). under t c i)"
  using wf assms(2)
proof (induction i rule: climb_induct)
  case (root i)
  have "under t c i \<Longrightarrow> c = i" for c using under_unfold[of t c i] root by auto
  then show ?case using under_unfold[of t a i] root wf_child[OF wf a] by force
next
  case (up i p)
  show ?case
  proof
    assume "under t a i"
    with up under_unfold[of t a i] have "i = a \<or> under t a p" by auto
    then show "i = a \<or> (\<exists>c \<in> set (children (node t a)). under t c i)"
    proof
      assume "under t a p"
      with up have "p = a \<or> (\<exists>c \<in> set (children (node t a)). under t c p)" by simp
      moreover have "under t c p \<Longrightarrow> under t c i" for c using under_unfold[of t c i] up by auto
      moreover have "p = a \<Longrightarrow> i \<in> set (children (node t a))" using up wf_child[OF wf a] by simp
      ultimately show ?thesis by (metis under_refl)
    qed simp
  next
    assume "i = a \<or> (\<exists>c \<in> set (children (node t a)). under t c i)"
    then show "under t a i"
    proof
      assume "\<exists>c \<in> set (children (node t a)). under t c i"
      then obtain c where c: "c \<in> set (children (node t a))" "under t c i" by blast
      then have "under t a c" using under_unfold[of t a c] wf_child[OF wf a] by simp
      with c show ?thesis by (blast intro: under_trans)
    qed simp
  qed
qed

text \<open>Two different children of a state have disjoint descendants.\<close>

lemma under_linear:
  "wf_undo t \<Longrightarrow> i < length (nodes t) \<Longrightarrow> under t a i \<Longrightarrow> under t b i \<Longrightarrow> under t a b \<or> under t b a"
proof (induction i rule: climb_induct)
  case (root i)
  then show ?case using under_unfold[of t a i] under_unfold[of t b i] by auto
next
  case (up i p)
  then show ?case using under_unfold[of t a i] under_unfold[of t b i] by auto
qed

lemma children_disjoint:
  assumes "wf_undo t" and "a < length (nodes t)" and "i < length (nodes t)"
    and "c \<in> set (children (node t a))" and "d \<in> set (children (node t a))"
    and "under t c i" and "under t d i"
  shows "c = d"
proof -
  from assms have c: "c < length (nodes t)" "parent (node t c) = Some a" "d < length (nodes t)"
    "parent (node t d) = Some a" by (auto simp: wf_child)
  have "\<not> under t c a" "\<not> under t d a"
    using under_le[OF assms(1,2)] wf_parent[OF assms(1)] c by fastforce+
  with c under_linear[OF assms(1,3,6,7)] under_unfold[of t c d] under_unfold[of t d c]
  show ?thesis by auto
qed

section \<open>The traversal of reroot\<close>

definition subtree :: "'t undo_tree \<Rightarrow> nat \<Rightarrow> nat list" where
  "subtree t a = filter (under t a) (indices t)"

lemma sum_list_indicator:
  "distinct cs \<Longrightarrow> (\<And>c d. c \<in> set cs \<Longrightarrow> d \<in> set cs \<Longrightarrow> P c \<Longrightarrow> P d \<Longrightarrow> c = d) \<Longrightarrow>
   sum_list (map (\<lambda>c. if P c then 1 else 0) cs) = (if \<exists>c \<in> set cs. P c then 1 else (0::nat))"
proof (induction cs)
  case (Cons c cs)
  have IH: "sum_list (map (\<lambda>c. if P c then 1 else 0) cs) = (if \<exists>c \<in> set cs. P c then 1 else (0::nat))"
    using Cons by auto
  have "P c \<Longrightarrow> \<not> (\<exists>d \<in> set cs. P d)" using Cons.prems by auto
  with IH show ?case by auto
qed simp

lemma count_sum_list: "count (sum_list ms) x = sum_list (map (\<lambda>m. count m x) ms)"
  by (induction ms) auto

lemma count_subtree:
  "count (mset (subtree t a)) i = (if i < length (nodes t) \<and> under t a i then 1 else 0)"
proof -
  have "distinct (subtree t a)" by (simp add: subtree_def indices_def)
  then have "count (mset (subtree t a)) i = (if i \<in> set (subtree t a) then 1 else 0)"
    using distinct_count_atmost_1 by metis
  then show ?thesis by (auto simp: subtree_def indices_def)
qed

lemma distinct_children: "wf_undo t \<Longrightarrow> a < length (nodes t) \<Longrightarrow> distinct (children (node t a))"
  by (simp add: wf_children indices_def)

lemma subtree_unfold:
  assumes "wf_undo t" and "a < length (nodes t)"
  shows "mset (subtree t a) = {#a#} + sum_list (map (\<lambda>c. mset (subtree t c)) (children (node t a)))"
proof (rule multiset_eqI)
  fix i
  let ?cs = "children (node t a)"
  show "count (mset (subtree t a)) i =
    count ({#a#} + sum_list (map (\<lambda>c. mset (subtree t c)) ?cs)) i"
  proof (cases "i < length (nodes t)")
    case True
    have "sum_list (map (\<lambda>c. if under t c i then 1 else 0) ?cs) =
        (if \<exists>c \<in> set ?cs. under t c i then 1 else (0::nat))"
      by (rule sum_list_indicator)
         (use assms True children_disjoint[OF assms True] distinct_children in auto)
    moreover have "\<not> under t c i" if "c \<in> set ?cs" "i = a" for c
      using that assms under_le[OF assms(1) True, of c] wf_parent[OF assms(1), of c a]
      by (auto simp: wf_child)
    ultimately show ?thesis
      using True under_child[OF assms(1) True assms(2)]
      by (auto simp: count_subtree count_sum_list comp_def)
  next
    case False
    with assms(2) show ?thesis by (auto simp: count_subtree count_sum_list comp_def)
  qed
qed

lemma collect_from_all:
  assumes "wf_undo t" and "\<forall>s \<in> set stack. s < length (nodes t)"
  shows "\<exists>found. collect_from t stack keep = Some found \<and>
    mset found = mset keep + sum_list (map (\<lambda>s. mset (subtree t s)) stack)"
  using assms(2)
proof (induction "size (sum_list (map (\<lambda>s. mset (subtree t s)) stack))" arbitrary: stack keep
    rule: less_induct)
  case less
  show ?case
  proof (cases stack)
    case Nil
    then show ?thesis by (simp add: collect_from.simps)
  next
    case (Cons i rest)
    let ?cs = "children (node t i)" and ?w = "\<lambda>ss. sum_list (map (\<lambda>s. mset (subtree t s)) ss)"
    from Cons less.prems have i: "i < length (nodes t)" by simp
    have w: "?w stack = {#i#} + ?w (rev ?cs @ rest)"
      using Cons subtree_unfold[OF assms(1) i] by (simp add: sum_list_rev flip: rev_map)
    have "\<forall>s \<in> set (rev ?cs @ rest). s < length (nodes t)"
      using less.prems Cons wf_child[OF assms(1) i] by auto
    with less.hyps[of "rev ?cs @ rest" "keep @ [i]"] w obtain found where
      "collect_from t (rev ?cs @ rest) (keep @ [i]) = Some found"
      "mset found = mset (keep @ [i]) + ?w (rev ?cs @ rest)"
      by auto
    with w Cons show ?thesis by (subst collect_from.simps) auto
  qed
qed

section \<open>Reroot\<close>

lemma slot_of_Some: "distinct keep \<Longrightarrow> slot_of keep i = Some k \<longleftrightarrow> k < length keep \<and> keep ! k = i"
  by (auto simp: slot_of_def map_of_eq_Some_iff in_set_zip)

lemma slot_of_None: "slot_of keep i = None \<longleftrightarrow> i \<notin> set keep"
  by (simp add: slot_of_def map_of_zip_is_None)

lemma slot_of_nth [simp]: "distinct keep \<Longrightarrow> k < length keep \<Longrightarrow> slot_of keep (keep ! k) = Some k"
  by (simp add: slot_of_Some)

definition heir_tree :: "nat list \<Rightarrow> 't undo_tree \<Rightarrow> 't undo_tree" where
  "heir_tree keep t =
     t\<lparr>nodes := map (\<lambda>i. move_node keep (node t i)) keep,
       cur := (case slot_of keep (cur t) of Some c \<Rightarrow> c | None \<Rightarrow> USIZE_MAX)\<rparr>"

lemma reroot_heir_tree:
  assumes "wf_undo t" and "heir < length (nodes t)"
  shows "reroot heir t = Some (heir_tree (subtree t heir) t)"
proof -
  from collect_from_all[of t "[heir]" "[]"] assms obtain found where
    f: "collect_from t [heir] [] = Some found" "mset found = mset (subtree t heir)"
    by auto
  have "sort found = subtree t heir"
    by (rule properties_for_sort) (simp_all add: f subtree_def indices_def sorted_wrt_filter)
  with f show ?thesis by (simp add: reroot_def heir_tree_def Let_def)
qed

lemma subtree_facts:
  assumes "wf_undo t" and "heir < length (nodes t)"
  shows "distinct (subtree t heir)" and "sorted_wrt (<) (subtree t heir)"
    and "set (subtree t heir) = {i. i < length (nodes t) \<and> under t heir i}"
    and "subtree t heir \<noteq> []" and "subtree t heir ! 0 = heir"
proof -
  show sorted: "sorted_wrt (<) (subtree t heir)"
    by (simp add: subtree_def indices_def sorted_wrt_filter)
  show "distinct (subtree t heir)" by (simp add: subtree_def indices_def)
  show sets: "set (subtree t heir) = {i. i < length (nodes t) \<and> under t heir i}"
    by (auto simp: subtree_def indices_def)
  with assms(2) have mem: "heir \<in> set (subtree t heir)" by simp
  then show ne: "subtree t heir \<noteq> []" by auto
  from mem obtain k where k: "k < length (subtree t heir)" "subtree t heir ! k = heir"
    by (auto simp: in_set_conv_nth)
  have "subtree t heir ! 0 \<in> set (subtree t heir)" using ne by simp
  then have "heir \<le> subtree t heir ! 0" using sets under_le[OF assms(1)] by simp
  moreover have "k = 0 \<or> subtree t heir ! 0 < subtree t heir ! k"
    using sorted k(1) by (auto simp: sorted_wrt_iff_nth_less)
  ultimately show "subtree t heir ! 0 = heir" using k by auto
qed

lemma filter_map_slot:
  assumes "distinct keep"
  shows "List.map_filter (slot_of keep) (filter Q keep) = filter (\<lambda>k. Q (keep ! k)) [0..<length keep]"
proof -
  have "filter Q keep = map ((!) keep) (filter (\<lambda>k. Q (keep ! k)) [0..<length keep])"
    by (subst (1) map_nth[of keep, symmetric]) (simp only: filter_map comp_def)
  moreover have "List.map_filter (slot_of keep) (map ((!) keep) ks) = ks" if "\<forall>k \<in> set ks. k < length keep" for ks
    using that assms by (induction ks) (auto simp: List.map_filter_def)
  ultimately show ?thesis by simp
qed

lemma map_filter_restrict:
  "(\<And>x. x \<in> set xs \<Longrightarrow> f x \<noteq> None \<Longrightarrow> P x) \<Longrightarrow> List.map_filter f xs = List.map_filter f (filter P xs)"
  by (induction xs) (auto simp: List.map_filter_def)

lemma subtree_filter:
  "(\<And>c. Q c \<Longrightarrow> under t a c) \<Longrightarrow> filter Q (indices t) = filter Q (subtree t a)"
  unfolding subtree_def filter_filter by (rule filter_cong) auto

lemma heir_tree_wf:
  assumes wf: "wf_undo t" and heir: "heir < length (nodes t)" and at: "under t heir (cur t)"
  shows "wf_undo (heir_tree (subtree t heir) t)"
proof -
  let ?keep = "subtree t heir" and ?t = "heir_tree (subtree t heir) t"
  note keep = subtree_facts[OF wf heir]
  have node: "node ?t k = move_node ?keep (node t (?keep ! k))" if "k < length ?keep" for k
    using that by (simp add: heir_tree_def)
  have kept: "?keep ! k < length (nodes t)" "under t heir (?keep ! k)" if "k < length ?keep" for k
    using that keep(3) nth_mem[OF that] by auto
  have mono: "?keep ! j < ?keep ! k" if "j < k" "k < length ?keep" for j k
    using keep(2) that by (auto simp: sorted_wrt_iff_nth_less)
  have par: "parent (node ?t k) = Some j \<longleftrightarrow>
      j < length ?keep \<and> parent (node t (?keep ! k)) = Some (?keep ! j)" if "k < length ?keep" for j k
    using that by (auto simp: node move_node_def slot_of_Some[OF keep(1)] bind_eq_Some_conv)
  have len: "length (nodes ?t) = length ?keep" by (simp add: heir_tree_def)
  have "cur t \<in> set ?keep" using at wf_cur[OF wf] keep(3) by simp
  then have "cur ?t < length (nodes ?t)"
    by (auto simp: len heir_tree_def slot_of_None slot_of_Some[OF keep(1)] split: option.splits)
  moreover have "parent (node ?t 0) = None"
  proof (rule ccontr)
    assume "parent (node ?t 0) \<noteq> None"
    then obtain j where j: "j < length ?keep" "parent (node t heir) = Some (?keep ! j)"
      using par[of 0] keep(4,5) by (metis length_greater_0_conv not_None_eq)
    with wf_parent[OF wf heir] mono[of 0 j] keep(5) show False
      by (cases "j = 0") fastforce+
  qed
  moreover have "case parent (node ?t k) of Some p \<Rightarrow> p < k | None \<Rightarrow> False"
    if "k < length (nodes ?t)" "0 < k" for k
  proof -
    from that have k: "k < length ?keep" by (simp add: len)
    with mono[of 0 k] that keep(5) have "?keep ! k \<noteq> heir" by auto
    with kept[OF k] under_unfold[of t heir "?keep ! k"] obtain p where
      p: "parent (node t (?keep ! k)) = Some p" "under t heir p" by auto
    with wf_parent[OF wf kept(1)[OF k]] have lt: "p < ?keep ! k" by blast
    with p kept[OF k] keep(3) obtain j where j: "j < length ?keep" "?keep ! j = p"
      by (metis (mono_tags, lifting) in_set_conv_nth mem_Collect_eq order_less_trans)
    then have "j < k" using lt mono[of k j] by (metis linorder_neqE_nat less_asym less_irrefl)
    with p j par[OF k, of j] show ?thesis by simp
  qed
  moreover have "children (node ?t k) = filter (\<lambda>c. parent (node ?t c) = Some k) (indices ?t)"
    if "k < length (nodes ?t)" for k
  proof -
    from that have k: "k < length ?keep" by (simp add: len)
    let ?Q = "\<lambda>c. parent (node t c) = Some (?keep ! k)"
    have sub: "under t heir c" if "?Q c" for c
      using under_unfold[of t heir c] kept(2)[OF k] that by simp
    have "children (node ?t k) = List.map_filter (slot_of ?keep) (filter ?Q (indices t))"
      using k by (simp add: node move_node_def wf_children[OF wf kept(1)])
    also have "filter ?Q (indices t) = filter ?Q ?keep"
      using sub by (rule subtree_filter)
    also have "List.map_filter (slot_of ?keep) (filter ?Q ?keep) =
        filter (\<lambda>c. ?Q (?keep ! c)) [0..<length ?keep]"
      by (rule filter_map_slot[OF keep(1)])
    also have "\<dots> = filter (\<lambda>c. parent (node ?t c) = Some k) (indices ?t)"
      unfolding indices_def len by (rule filter_cong) (use k in \<open>simp_all add: par\<close>)
    finally show ?thesis .
  qed
  moreover have "sorted_wrt (<) (map seq (nodes ?t))"
  proof -
    have "seq (node ?t j) < seq (node ?t k)" if "j < k" "k < length ?keep" for j k
      using wf_seq_less[OF wf mono[OF that]] kept that by (simp add: node move_node_def)
    then show ?thesis by (auto simp: sorted_wrt_iff_nth_less len)
  qed
  moreover have "\<forall>n \<in> set (nodes ?t). seq n < next_seq ?t"
    using wf_next[OF wf] keep(3) by (auto simp: heir_tree_def move_node_def)
  ultimately show ?thesis unfolding wf_undo_def by blast
qed

lemma heir_tree_cur:
  assumes "wf_undo t" and "heir < length (nodes t)" and "under t heir (cur t)"
  shows "node (heir_tree (subtree t heir) t) (cur (heir_tree (subtree t heir) t)) =
    move_node (subtree t heir) (node t (cur t))"
proof -
  note keep = subtree_facts[OF assms(1,2)]
  have "cur t \<in> set (subtree t heir)" using assms wf_cur[OF assms(1)] keep(3) by simp
  then obtain k where k: "slot_of (subtree t heir) (cur t) = Some k"
    using slot_of_None by (metis not_None_eq)
  then have "k < length (subtree t heir)" "subtree t heir ! k = cur t"
    by (simp_all add: slot_of_Some[OF keep(1)])
  with k show ?thesis by (simp add: heir_tree_def)
qed

lemma heir_tree_shrinks:
  assumes "wf_undo t" and "heir < length (nodes t)" and "0 < heir"
  shows "length (nodes (heir_tree (subtree t heir) t)) < length (nodes t)"
proof -
  have "0 \<notin> set (subtree t heir)"
    unfolding subtree_facts(3)[OF assms(1,2)] using under_le[OF assms(1), of 0 heir] assms(3) by auto
  moreover have "set (subtree t heir) \<subseteq> {0..<length (nodes t)}"
    unfolding subtree_facts(3)[OF assms(1,2)] by auto
  ultimately have "set (subtree t heir) \<subseteq> {0..<length (nodes t)} - {0}" by blast
  also have "{0..<length (nodes t)} - {0} = {1..<length (nodes t)}" by auto
  finally have "set (subtree t heir) \<subseteq> {1..<length (nodes t)}" .
  then have "card (set (subtree t heir)) \<le> length (nodes t) - 1"
    using card_mono[of "{1..<length (nodes t)}"] by simp
  with subtree_facts(1)[OF assms(1,2)] assms(2,3) show ?thesis
    by (simp add: heir_tree_def distinct_card)
qed

section \<open>Prune\<close>

lemma child_toward_root:
  assumes wf: "wf_undo t" and i: "i < length (nodes t)"
  shows "\<exists>r. child_toward t 0 i = Some r \<and>
    (case r of None \<Rightarrow> i = 0
     | Some h \<Rightarrow> h < length (nodes t) \<and> 0 < h \<and> parent (node t h) = Some 0 \<and> under t h i)"
  using assms
proof (induction i rule: climb_induct)
  case (root i)
  then have "i = 0" using wf_not_root[OF wf, of i] by (cases "i = 0") auto
  with root show ?case by (auto simp: child_toward.simps)
next
  case (up i p)
  show ?case
  proof (cases "p = 0")
    case True
    with up show ?thesis by (subst child_toward.simps) (auto intro!: exI[of _ "Some i"])
  next
    case False
    with up obtain h where "child_toward t 0 p = Some (Some h)"
      "h < length (nodes t)" "0 < h" "parent (node t h) = Some 0" "under t h p"
      by (auto split: option.splits)
    moreover have "under t h i" using under_unfold[of t h i] up \<open>under t h p\<close> by auto
    ultimately show ?thesis
      using up False by (subst child_toward.simps) (auto intro!: exI[of _ "Some h"])
  qed
qed

text \<open>What pruning promises of the tree it returns.\<close>

definition pruned :: "nat \<Rightarrow> 't undo_tree \<Rightarrow> 't undo_tree \<Rightarrow> bool" where
  "pruned keep t t' \<longleftrightarrow>
     wf_undo t' \<and>
     (children (node t (cur t)) = [] \<longrightarrow>
        children (node t' (cur t')) = [] \<and> length (nodes t') \<le> keep + 1) \<and>
     (length (nodes t) \<le> keep + 1 \<longrightarrow> t' = t) \<and>
     seq (node t' (cur t')) = seq (node t (cur t)) \<and>
     snap (node t' (cur t')) = snap (node t (cur t)) \<and>
     time (node t' (cur t')) = time (node t (cur t)) \<and>
     next_seq t' = next_seq t \<and> dirty t' = dirty t \<and> dirty_since t' = dirty_since t \<and>
     dirty_tick t' = dirty_tick t \<and> save_last t' = save_last t"

lemma root_leaf_alone:
  assumes "wf_undo t" and "children (node t 0) = []"
  shows "length (nodes t) = 1"
proof (rule ccontr)
  have len: "0 < length (nodes t)" using wf_cur[OF assms(1)] by (rule le_less_trans[OF le0])
  assume "length (nodes t) \<noteq> 1"
  with len have one: "1 < length (nodes t)" by linarith
  then obtain p where "parent (node t 1) = Some p" "p < 1"
    using wf_not_root[OF assms(1), of 1] wf_parent[OF assms(1), of 1] by auto
  then have "1 \<in> set (children (node t 0))" using wf_child[OF assms(1) len] one by simp
  with assms(2) show False by simp
qed

lemma prune_returns: "wf_undo t \<Longrightarrow> \<exists>t'. prune keep t = Some t' \<and> pruned keep t t'"
proof (induction "length (nodes t)" arbitrary: t rule: less_induct)
  case less
  note wf = less.prems
  show ?case
  proof (cases "keep < length (nodes t) - 1")
    case False
    with wf show ?thesis by (auto simp: prune.simps[of keep t] pruned_def)
  next
    case True
    from child_toward_root[OF wf wf_cur[OF wf]] obtain r where
      r: "child_toward_cur 0 t = Some r" and r': "case r of None \<Rightarrow> cur t = 0
        | Some h \<Rightarrow> h < length (nodes t) \<and> 0 < h \<and> parent (node t h) = Some 0 \<and> under t h (cur t)"
      by (auto simp: child_toward_cur_def)
    show ?thesis
    proof (cases r)
      case None
      with True r r' have p: "prune keep t = Some t" "cur t = 0" by (auto simp: prune.simps[of keep t])
      moreover have "children (node t 0) \<noteq> []"
        using root_leaf_alone[OF wf] True by fastforce
      ultimately show ?thesis using wf True by (auto simp: pruned_def)
    next
      case (Some h)
      with r' have h: "h < length (nodes t)" "0 < h" "under t h (cur t)" by auto
      let ?t = "heir_tree (subtree t h) t"
      from less.hyps[OF heir_tree_shrinks[OF wf h(1,2)] heir_tree_wf[OF wf h(1,3)]] obtain t' where
        t': "prune keep ?t = Some t'" "pruned keep ?t t'" by blast
      have "prune keep t = Some t'"
        using True r Some t'(1) reroot_heir_tree[OF wf h(1)] by (simp add: prune.simps[of keep t])
      moreover have "pruned keep t t'"
        using t'(2) True unfolding pruned_def heir_tree_cur[OF wf h(1,3)]
        by (auto simp: move_node_def heir_tree_def List.map_filter_def)
      ultimately show ?thesis by blast
    qed
  qed
qed

section \<open>Commit\<close>

lemma tree_commit_wf:
  assumes wf: "wf_undo t"
  shows "wf_undo (tree_commit text t)"
proof -
  let ?t = "tree_commit text t" and ?n = "length (nodes t)"
  have cur: "cur t < ?n" using wf by (rule wf_cur)
  have len: "length (nodes ?t) = Suc ?n" by (simp add: tree_commit_def Let_def)
  have par: "parent (node ?t i) = (if i = ?n then Some (cur t) else parent (node t i))"
    and sq: "seq (node ?t i) = (if i = ?n then next_seq t else seq (node t i))"
    and ch: "children (node ?t i) = (if i = ?n then [] else
      children (node t i) @ (if i = cur t then [?n] else []))" if "i \<le> ?n" for i
    using that cur by (auto simp: tree_commit_def Let_def nth_append nth_list_update)
  have nxt: "next_seq ?t = Suc (next_seq t)" by (simp add: tree_commit_def Let_def)
  have "cur ?t < length (nodes ?t)" by (simp add: tree_commit_def Let_def)
  moreover have "parent (node ?t 0) = None" using par[of 0] cur wf_root[OF wf] by auto
  moreover have "case parent (node ?t i) of Some p \<Rightarrow> p < i | None \<Rightarrow> False"
    if "i < length (nodes ?t)" "0 < i" for i
    using that cur wf by (cases "i = ?n") (auto simp: len par wf_undo_def)
  moreover have "children (node ?t p) = filter (\<lambda>c. parent (node ?t c) = Some p) (indices ?t)"
    if "p < length (nodes ?t)" for p
  proof -
    have "filter (\<lambda>c. parent (node ?t c) = Some p) [0..<?n] =
        filter (\<lambda>c. parent (node t c) = Some p) [0..<?n]"
      by (rule filter_cong) (simp_all add: par)
    moreover have "filter (\<lambda>c. parent (node t c) = Some ?n) [0..<?n] = []"
      using wf_parent[OF wf] by (fastforce simp: filter_empty_conv)
    ultimately show ?thesis
      using that cur wf_children[OF wf] by (auto simp: len indices_def par ch)
  qed
  moreover have "sorted_wrt (<) (map seq (nodes ?t))"
    using wf_seq_less[OF wf] wf_next[OF wf] by (auto simp: sorted_wrt_iff_nth_less len sq)
  moreover have "\<forall>n \<in> set (nodes ?t). seq n < next_seq ?t"
    using wf_next[OF wf] by (auto simp: in_set_conv_nth len sq nxt less_Suc_eq)
  ultimately show ?thesis unfolding wf_undo_def by blast
qed

lemma tree_commit_cur:
  assumes "wf_undo t"
  shows "node (tree_commit text t) (cur (tree_commit text t)) =
    \<lparr>seq = next_seq t, parent = Some (cur t), children = [], time = dirty_since t, save = None,
     snap = text\<rparr>"
  using wf_cur[OF assms] by (simp add: tree_commit_def Let_def nth_append nth_list_update)

lemma tree_commit_keeps:
  "wf_undo t \<Longrightarrow> i < length (nodes t) \<Longrightarrow>
   seq (node (tree_commit text t) i) = seq (node t i) \<and>
   snap (node (tree_commit text t) i) = snap (node t i) \<and>
   parent (node (tree_commit text t) i) = parent (node t i)"
  by (auto simp: tree_commit_def Let_def nth_append nth_list_update)

end
