(* ===== verification/UndoDoc.thy ===== *)
theory UndoDoc
  imports Undo
begin

text \<open>
  The editor operations over the undo tree (\<open>undo.rs\<close>): the change-group discipline of
  \<open>push_undo\<close> and \<open>commit_undo\<close>, saving, undo, redo, the jumps and travels, and the rules that
  split an insert session into steps. The editor is cut to the fields these operations read and
  write, for the current buffer; a snapshot restores its text. A text edit by any other
  component is \<open>edit_text\<close>: new text, \<open>changedtick\<close> bumped, \<open>modified\<close> set.
\<close>

datatype edit_kind = InsertKind | DeleteKind

record typing_undo =
  ty_kind :: "edit_kind option"
  ty_last :: "uchar option"
  ty_tick :: nat
  ty_force :: bool
  ty_last_ms :: nat
  ty_at :: "(nat \<times> nat) option"

record 't undo_ed =
  tree :: "'t undo_tree"
  live :: 't
  changedtick :: nat
  modified :: bool
  saved_seq :: "nat option"
  undolevels :: int
  modifiable :: bool
  edit_refused :: bool
  echoed :: "ustring option"
  now_mono :: int
  snapshot_taken :: bool
  typing :: typing_undo
  atomic :: nat
  atomic_tick :: nat
  atomic_opened :: bool
  inserting :: bool
  replaying :: bool
  now_ms :: nat
  cursor_at :: "nat \<times> nat"

definition UNDO_PAUSE_MS :: nat where
  "UNDO_PAUSE_MS = 1000"

text \<open>\<open>char::is_alphanumeric\<close> is the parameter \<open>alnum\<close>.\<close>

definition starts_typing_step :: "(uchar \<Rightarrow> bool) \<Rightarrow> uchar option \<Rightarrow> uchar option \<Rightarrow> bool" where
  "starts_typing_step alnum prev nxt =
     (let is_word = (\<lambda>c. alnum c \<or> c = uc CHR ''_'') in
      case (prev, nxt) of
        (Some p, Some n) \<Rightarrow> if p = 10 then True else is_word p \<and> \<not> is_word n \<and> n \<noteq> 10
      | _ \<Rightarrow> False)"

definition edit_text :: "'t \<Rightarrow> 't undo_ed \<Rightarrow> 't undo_ed" where
  "edit_text text ed =
     ed\<lparr>live := text, changedtick := changedtick ed + 1, modified := True\<rparr>"

section \<open>Change groups\<close>

definition commit_undo :: "'t undo_ed \<Rightarrow> 't undo_ed option" where
  "commit_undo ed =
     (if \<not> dirty (tree ed) then Some ed
      else if \<not> undo_pending (changedtick ed) (tree ed)
      then Some (ed\<lparr>tree := (tree ed)\<lparr>dirty := False\<rparr>\<rparr>)
      else map_option (\<lambda>t. ed\<lparr>tree := t\<rparr>)
             (prune (undo_levels_to_keep (undolevels ed)) (tree_commit (live ed) (tree ed))))"

definition open_group :: "'t undo_ed \<Rightarrow> 't undo_ed" where
  "open_group ed = ed\<lparr>tree := mark_dirty (now_mono ed) (changedtick ed) (tree ed)\<rparr>"

definition push_undo_for :: "'t undo_ed \<Rightarrow> 't undo_ed option" where
  "push_undo_for ed = map_option open_group (commit_undo ed)"

definition push_undo :: "'t undo_ed \<Rightarrow> 't undo_ed option" where
  "push_undo ed =
     (if snapshot_taken ed
      then Some (if \<not> dirty (tree ed) then open_group ed else ed)
      else map_option open_group (commit_undo ed))"

definition mark_undo_saved :: "'t undo_ed \<Rightarrow> 't undo_ed option" where
  "mark_undo_saved ed =
     map_option (\<lambda>ed.
       let t = tree ed; nr = save_last t + 1; c = cur t in
       ed\<lparr>tree := t\<lparr>save_last := nr, nodes := (nodes t)[c := (node t c)\<lparr>save := Some nr\<rparr>]\<rparr>,
          saved_seq := Some (cur_seq t)\<rparr>)
     (commit_undo ed)"

definition undotree_of :: "'t undo_ed \<Rightarrow> undo_view option" where
  "undotree_of ed = tree_view (changedtick ed) (tree ed)"

definition undo_version :: "'t undo_ed \<Rightarrow> nat \<times> nat \<times> nat \<times> bool" where
  "undo_version ed =
     (next_seq (tree ed), cur (tree ed), save_last (tree ed),
      undo_pending (changedtick ed) (tree ed))"

section \<open>Navigation\<close>

definition refuse_edit :: "'t undo_ed \<Rightarrow> 't undo_ed" where
  "refuse_edit ed =
     ed\<lparr>edit_refused := True,
        echoed := Some (us ''E21: Cannot make changes, 'modifiable' is off'')\<rparr>"

definition echo :: "ustring \<Rightarrow> 't undo_ed \<Rightarrow> 't undo_ed" where
  "echo msg ed = ed\<lparr>echoed := Some msg\<rparr>"

text \<open>\<open>restore_snapshot\<close> over the modelled fields: \<open>mark_resync\<close> bumps the tick.\<close>

definition restore_snapshot :: "'t \<Rightarrow> nat \<Rightarrow> 't undo_ed \<Rightarrow> 't undo_ed" where
  "restore_snapshot text s ed =
     ed\<lparr>live := text, changedtick := changedtick ed + 1, modified := saved_seq ed \<noteq> Some s\<rparr>"

definition go_to :: "nat \<Rightarrow> 't undo_ed \<Rightarrow> 't undo_ed" where
  "go_to i ed =
     (let n = node (tree ed) i in
      restore_snapshot (snap n) (seq n) (ed\<lparr>tree := (tree ed)\<lparr>cur := i\<rparr>\<rparr>))"

definition undo :: "'t undo_ed \<Rightarrow> 't undo_ed option" where
  "undo ed =
     (if \<not> modifiable ed then Some (refuse_edit ed)
      else map_option (\<lambda>ed.
             case parent (node (tree ed) (cur (tree ed))) of
               None \<Rightarrow> echo (us ''Already at oldest change'') ed
             | Some p \<Rightarrow> go_to p ed)
           (commit_undo ed))"

definition redo :: "'t undo_ed \<Rightarrow> 't undo_ed option" where
  "redo ed =
     (if \<not> modifiable ed then Some (refuse_edit ed)
      else map_option (\<lambda>ed.
             let cs = children (node (tree ed) (cur (tree ed))) in
             if cs = [] then echo (us ''Already at newest change'') ed else go_to (last cs) ed)
           (commit_undo ed))"

definition undo_to_seq :: "nat \<Rightarrow> 't undo_ed \<Rightarrow> 't undo_ed option" where
  "undo_to_seq target ed =
     (if \<not> modifiable ed then Some (refuse_edit ed)
      else map_option (\<lambda>ed.
             case node_of_seq target (tree ed) of
               None \<Rightarrow> echo (us ''E830: Undo number '' @ show_nat target @ us '' not found'') ed
             | Some i \<Rightarrow> if i = cur (tree ed) then ed else go_to i ed)
           (commit_undo ed))"

definition undo_land_on :: "nat \<Rightarrow> bool \<Rightarrow> 't undo_ed \<Rightarrow> 't undo_ed" where
  "undo_land_on i back ed =
     (if i = cur (tree ed)
      then echo (if back then us ''Already at oldest change'' else us ''Already at newest change'') ed
      else if \<not> modifiable ed then refuse_edit ed
      else go_to i ed)"

definition travel_target :: "nat \<Rightarrow> bool \<Rightarrow> 't undo_tree \<Rightarrow> nat" where
  "travel_target count back t =
     (let c = int (cur_seq t); step = min (int count) I64_MAX;
          target = sat_i64 (if back then c - step else c + step)
      in nat (max 0 (min (int (seq_last t)) target)))"

definition undo_travel :: "nat \<Rightarrow> bool \<Rightarrow> 't undo_ed \<Rightarrow> 't undo_ed option" where
  "undo_travel count back ed =
     (if count = 0 then Some ed
      else map_option (\<lambda>ed.
             undo_land_on (node_near_seq (travel_target count back (tree ed)) back (tree ed)) back ed)
           (commit_undo ed))"

definition undo_travel_time :: "int \<Rightarrow> bool \<Rightarrow> 't undo_ed \<Rightarrow> 't undo_ed option" where
  "undo_travel_time secs back ed =
     map_option (\<lambda>ed.
       let base = time (node (tree ed) (cur (tree ed)));
           target = sat_i64 (if back then base - secs else base + secs)
       in undo_land_on (node_near_time target back (tree ed)) back ed)
     (commit_undo ed)"

definition undo_travel_file :: "nat \<Rightarrow> bool \<Rightarrow> 't undo_ed \<Rightarrow> 't undo_ed option" where
  "undo_travel_file count back ed =
     (if count = 0 then Some ed
      else Option.bind (commit_undo ed) (\<lambda>ed.
             map_option (\<lambda>sv.
               let at_save = save (node (tree ed) (cur (tree ed))) \<noteq> None;
                   base = int (case sv of Some nr \<Rightarrow> nr | None \<Rightarrow> 0);
                   step = min (int count) I64_MAX;
                   target = sat_i64 (if back then base - (if at_save then step else step - 1)
                                     else base + step)
               in undo_land_on (node_near_save target back (tree ed)) back ed)
             (save_at_or_above_cur (tree ed))))"

text \<open>\<open>str::trim\<close> is the parameter \<open>trim\<close>.\<close>

definition ex_undo_travel ::
  "(ustring \<Rightarrow> ustring) \<Rightarrow> ustring \<Rightarrow> bool \<Rightarrow> 't undo_ed \<Rightarrow> 't undo_ed option" where
  "ex_undo_travel trim args back ed =
     (let arg = trim args in
      if arg = [] then undo_travel 1 back ed
      else case parse_travel_arg arg of
        None \<Rightarrow> Some (echo (us ''E475: Invalid argument: '' @ arg) ed)
      | Some (TravelStates n) \<Rightarrow> undo_travel n back ed
      | Some (TravelSeconds s) \<Rightarrow> undo_travel_time s back ed
      | Some (TravelWrites n) \<Rightarrow> undo_travel_file n back ed)"

section \<open>Typing steps\<close>

definition reset_typing_undo :: "'t undo_ed \<Rightarrow> 't undo_ed" where
  "reset_typing_undo ed =
     ed\<lparr>typing := \<lparr>ty_kind = None, ty_last = None, ty_tick = changedtick ed, ty_force = False,
                   ty_last_ms = 0, ty_at = None\<rparr>\<rparr>"

definition typing_undo_suppressed :: "'t undo_ed \<Rightarrow> bool" where
  "typing_undo_suppressed ed \<longleftrightarrow> replaying ed \<or> 0 < atomic ed"

definition owe_typing_step :: "'t undo_ed \<Rightarrow> 't undo_ed" where
  "owe_typing_step ed = ed\<lparr>typing := (typing ed)\<lparr>ty_force := True\<rparr>\<rparr>"

definition begin_undo_atomic :: "'t undo_ed \<Rightarrow> 't undo_ed" where
  "begin_undo_atomic ed =
     (let ed = (if atomic ed = 0
                then ed\<lparr>atomic_tick := changedtick ed, atomic_opened := False\<rparr> else ed)
      in ed\<lparr>atomic := atomic ed + 1\<rparr>)"

definition end_undo_atomic :: "'t undo_ed \<Rightarrow> 't undo_ed" where
  "end_undo_atomic ed =
     (let ed = ed\<lparr>atomic := atomic ed - 1\<rparr> in
      if atomic ed = 0 \<and> changedtick ed \<noteq> atomic_tick ed then owe_typing_step ed else ed)"

definition break_undo_step :: "'t undo_ed \<Rightarrow> 't undo_ed option" where
  "break_undo_step ed =
     map_option (\<lambda>ed. let ed = open_group ed in
       ed\<lparr>typing := (typing ed)\<lparr>ty_tick := changedtick ed\<rparr>\<rparr>)
     (commit_undo ed)"

definition open_atomic_step :: "'t undo_ed \<Rightarrow> 't undo_ed option" where
  "open_atomic_step ed =
     (if atomic_opened ed then Some ed
      else let ed = ed\<lparr>atomic_opened := True\<rparr> in
        if inserting ed \<and> \<not> replaying ed \<and> changedtick ed \<noteq> ty_tick (typing ed)
        then break_undo_step ed else Some ed)"

definition step_starts ::
  "(uchar \<Rightarrow> bool) \<Rightarrow> edit_kind \<Rightarrow> uchar option \<Rightarrow> 't undo_ed \<Rightarrow> bool" where
  "step_starts alnum kind ch ed =
     (let t = typing ed;
          moved = (case ty_at t of Some at \<Rightarrow> at \<noteq> cursor_at ed | None \<Rightarrow> False);
          paused = (ty_kind t \<noteq> None \<and> UNDO_PAUSE_MS < now_ms ed - ty_last_ms t)
      in ty_force t \<or> moved \<or> paused \<or>
         (case ty_kind t of Some k \<Rightarrow> k \<noteq> kind | None \<Rightarrow> False) \<or>
         (kind = InsertKind \<and> ty_kind t = Some InsertKind \<and>
          starts_typing_step alnum (ty_last t) ch))"

definition before_typed_edit ::
  "(uchar \<Rightarrow> bool) \<Rightarrow> edit_kind \<Rightarrow> uchar option \<Rightarrow> 't undo_ed \<Rightarrow> 't undo_ed option" where
  "before_typed_edit alnum kind ch ed =
     Option.bind (push_undo ed) (\<lambda>ed.
       if 0 < atomic ed then open_atomic_step ed
       else if replaying ed then Some ed
       else map_option (\<lambda>ed.
              ed\<lparr>typing := (typing ed)\<lparr>ty_kind := Some kind, ty_last := ch, ty_force := False,
                                      ty_last_ms := now_ms ed\<rparr>\<rparr>)
            (if changedtick ed \<noteq> ty_tick (typing ed) \<and> step_starts alnum kind ch ed
             then break_undo_step ed else Some ed))"

definition after_typed_edit :: "'t undo_ed \<Rightarrow> 't undo_ed" where
  "after_typed_edit ed = ed\<lparr>typing := (typing ed)\<lparr>ty_at := Some (cursor_at ed)\<rparr>\<rparr>"

definition end_typing_step :: "'t undo_ed \<Rightarrow> 't undo_ed option" where
  "end_typing_step ed =
     (if 0 < atomic ed then open_atomic_step ed
      else if \<not> inserting ed \<or> replaying ed then Some ed
      else Option.bind (push_undo ed) (\<lambda>ed.
             if changedtick ed \<noteq> ty_tick (typing ed) then break_undo_step ed else Some ed))"

definition begin_replacing_step :: "'t undo_ed \<Rightarrow> 't undo_ed option" where
  "begin_replacing_step ed =
     map_option reset_typing_undo
       (if snapshot_taken ed \<and> \<not> typing_undo_suppressed ed \<and>
           changedtick ed \<noteq> ty_tick (typing ed)
        then break_undo_step ed else Some ed)"

definition mark_undo_point :: "'t undo_ed \<Rightarrow> 't undo_ed option" where
  "mark_undo_point ed =
     (if \<not> snapshot_taken ed \<or> replaying ed \<or> (0 < atomic ed \<and> atomic_opened ed) then Some ed
      else Option.bind (push_undo ed) (\<lambda>ed.
        let ed = (if 0 < atomic ed then ed\<lparr>atomic_opened := True\<rparr> else ed) in
        if changedtick ed \<noteq> ty_tick (typing ed) then break_undo_step ed else Some ed))"

end
