(* ===== verification/UndoProps.thy ===== *)
theory UndoProps
  imports UndoTree UndoDoc
begin

text \<open>
  The undo operations verified over runs: every sequence of operations returns and keeps the
  shape of the tree and the agreement of the live text with the current state; undo and redo
  invert each other; travels move in their direction; every state stays reachable while
  \<open>'undolevels'\<close> allows; and the projection lists every state exactly once.
\<close>

section \<open>Extremal elements\<close>

lemmas key_picks = max_by_key_Some min_by_key_Some

section \<open>The seeks stay in the tree and on their side\<close>

lemma on_side_cur: "on_travel_side t True (cur t)" "\<not> on_travel_side t False (cur t)"
  by (simp_all add: on_travel_side_def cur_seq_def)

text \<open>A state a travel in direction \<open>back\<close> may land on: one on that side, or where it is.\<close>

definition lands :: "'t undo_tree \<Rightarrow> bool \<Rightarrow> nat \<Rightarrow> bool" where
  "lands t back i \<longleftrightarrow> i < length (nodes t) \<and>
     (if back then seq (node t i) \<le> cur_seq t else cur_seq t \<le> seq (node t i))"

lemma lands_side: "i \<in> set (indices t) \<Longrightarrow> on_travel_side t back i \<Longrightarrow> lands t back i"
  by (auto simp: lands_def on_travel_side_def indices_def)

lemma end_node_lands:
  assumes "wf_undo t"
  shows "lands t back (end_node back t)"
proof -
  have cur: "cur t \<in> set (indices t)" using wf_cur[OF assms] by (simp add: indices_def)
  show ?thesis
  proof (cases "back")
    case True
    from cur obtain i where i: "min_by_key (\<lambda>i. seq (node t i)) (indices t) = Some i"
      by (metis empty_iff list.set(1) min_by_key_None not_None_eq)
    with True key_picks(2)[OF i] cur show ?thesis
      by (auto simp: end_node_def or_cur_def lands_def cur_seq_def indices_def)
  next
    case False
    from cur obtain i where i: "max_by_key (\<lambda>i. seq (node t i)) (indices t) = Some i"
      by (metis empty_iff list.set(1) max_by_key_None not_None_eq)
    with False key_picks(1)[OF i] cur show ?thesis
      by (auto simp: end_node_def or_cur_def lands_def cur_seq_def indices_def)
  qed
qed

lemma cur_lands: "wf_undo t \<Longrightarrow> lands t back (cur t)"
  by (auto simp: lands_def cur_seq_def wf_cur)

lemma picks_land:
  "(if back then max_by_key f (filter (\<lambda>i. on_travel_side t back i \<and> Q i) (indices t))
    else min_by_key f (filter (\<lambda>i. on_travel_side t back i \<and> Q i) (indices t))) = Some i \<Longrightarrow>
   lands t back i"
  by (cases "back") (auto dest!: key_picks intro: lands_side)

lemma node_near_seq_lands:
  assumes wf: "wf_undo t"
  shows "lands t back (node_near_seq target back t)"
proof -
  let ?side = "filter (\<lambda>i. on_travel_side t back i \<and>
    (if back then seq (node t i) \<le> target else target \<le> seq (node t i))) (indices t)"
  let ?pick = "if back then max_by_key (\<lambda>i. seq (node t i)) ?side
    else min_by_key (\<lambda>i. seq (node t i)) ?side"
  show ?thesis
  proof (cases ?pick)
    case (Some i)
    with picks_land[OF Some] show ?thesis by (simp add: node_near_seq_def Let_def del: if_split)
  next
    case None
    then have eq: "node_near_seq target back t =
      or_cur t (min_by_key (\<lambda>i. abs_diff (seq (node t i)) target)
        (filter (on_travel_side t back) (indices t)))" (is "_ = or_cur t ?m")
      by (simp add: node_near_seq_def Let_def del: if_split)
    show ?thesis
      by (cases ?m) (auto simp: eq or_cur_def cur_lands[OF wf] dest!: key_picks intro: lands_side)
  qed
qed

lemma node_near_time_lands:
  assumes wf: "wf_undo t"
  shows "lands t back (node_near_time target back t)"
proof -
  let ?side = "filter (\<lambda>i. on_travel_side t back i \<and>
    (if back then time (node t i) \<le> target else target \<le> time (node t i))) (indices t)"
  let ?key = "\<lambda>i. (time (node t i), seq (node t i))"
  let ?pick = "if back then max_by_key ?key ?side else min_by_key ?key ?side"
  show ?thesis
  proof (cases ?pick)
    case (Some i)
    with picks_land[OF Some] show ?thesis by (simp add: node_near_time_def Let_def del: if_split)
  next
    case None
    then show ?thesis
      using end_node_lands[OF wf] by (simp add: node_near_time_def Let_def del: if_split)
  qed
qed

lemma node_near_save_lands:
  assumes wf: "wf_undo t" and "back \<or> 0 < target"
  shows "lands t back (node_near_save target back t)"
proof (cases "target \<le> 0")
  case True
  with assms end_node_lands[OF wf, of True] show ?thesis by (simp add: node_near_save_def)
next
  case False
  let ?saves = "filter (\<lambda>(i, nr). if back then nr \<le> nat target else nat target \<le> nr)
    (List.map_filter (\<lambda>i. map_option (Pair i) (save (node t i)))
      (filter (on_travel_side t back) (indices t)))"
  let ?pick = "if back then max_by_key snd ?saves else min_by_key snd ?saves"
  have mem: "lands t back i" if "(i, nr) \<in> set ?saves" for i nr
    using that by (auto simp: List.map_filter_def intro: lands_side)
  show ?thesis
  proof (cases ?pick)
    case None
    with False end_node_lands[OF wf] show ?thesis
      by (simp add: node_near_save_def Let_def del: if_split)
  next
    case (Some p)
    then obtain i nr where p: "p = (i, nr)" "(i, nr) \<in> set ?saves"
      by (cases p; cases "back") (auto dest!: key_picks)
    with Some False mem[OF p(2)] show ?thesis
      by (simp add: node_near_save_def Let_def del: if_split)
  qed
qed

section \<open>Every operation returns and keeps the invariant\<close>

text \<open>The arena is well-formed; unless a change is pending, the live text is the current
  state's; an open group began at or before the present tick.\<close>

definition inv_ed :: "'t undo_ed \<Rightarrow> bool" where
  "inv_ed ed \<longleftrightarrow>
     wf_undo (tree ed) \<and>
     (\<not> undo_pending (changedtick ed) (tree ed) \<longrightarrow>
        live ed = snap (node (tree ed) (cur (tree ed)))) \<and>
     (dirty (tree ed) \<longrightarrow> dirty_tick (tree ed) \<le> changedtick ed)"

definition levels :: "'t undo_ed \<Rightarrow> nat" where
  "levels ed = undo_levels_to_keep (undolevels ed)"

lemma wf_undo_cong:
  "nodes t' = nodes t \<Longrightarrow> cur t' = cur t \<Longrightarrow> next_seq t' = next_seq t \<Longrightarrow> wf_undo t' \<longleftrightarrow> wf_undo t"
  by (simp add: wf_undo_def indices_def)

lemma wf_undo_flags [simp]:
  "wf_undo (t\<lparr>dirty := d\<rparr>) \<longleftrightarrow> wf_undo t"
  "wf_undo (t\<lparr>dirty := d, dirty_since := s, dirty_tick := k\<rparr>) \<longleftrightarrow> wf_undo t"
  by (rule wf_undo_cong; simp)+

lemma wf_undo_move: "wf_undo t \<Longrightarrow> i < length (nodes t) \<Longrightarrow> wf_undo (t\<lparr>cur := i\<rparr>)"
  by (simp add: wf_undo_def indices_def)

text \<open>What a commit does: the group is closed and the live text is the current state's; when
  the history fits in \<open>'undolevels'\<close> no state is lost.\<close>

definition committed :: "'t undo_ed \<Rightarrow> 't undo_tree \<Rightarrow> bool" where
  "committed ed t \<longleftrightarrow>
     wf_undo t \<and> \<not> dirty t \<and> snap (node t (cur t)) = live ed \<and>
     (undo_pending (changedtick ed) (tree ed) \<longrightarrow>
        length (nodes t) \<le> levels ed + 1 \<and> children (node t (cur t)) = [] \<and>
        seq (node t (cur t)) = next_seq (tree ed)) \<and>
     (length (nodes (tree ed)) \<le> levels ed \<longrightarrow>
        t = (if undo_pending (changedtick ed) (tree ed) then tree_commit (live ed) (tree ed)
             else (tree ed)\<lparr>dirty := False\<rparr>))"

lemma commit_undo_returns:
  assumes "inv_ed ed"
  shows "\<exists>t. commit_undo ed = Some (ed\<lparr>tree := t\<rparr>) \<and> committed ed t"
proof (cases "undo_pending (changedtick ed) (tree ed)")
  case False
  then have "commit_undo ed = Some (ed\<lparr>tree := (tree ed)\<lparr>dirty := False\<rparr>\<rparr>)"
    by (cases "dirty (tree ed)") (simp_all add: commit_undo_def)
  with False assms show ?thesis by (auto simp: inv_ed_def committed_def)
next
  case True
  from assms have wf: "wf_undo (tree ed)" by (simp add: inv_ed_def)
  let ?t = "tree_commit (live ed) (tree ed)"
  from prune_returns[OF tree_commit_wf[OF wf]] obtain t where
    t: "prune (levels ed) ?t = Some t" "pruned (levels ed) ?t t" by blast
  have "commit_undo ed = Some (ed\<lparr>tree := t\<rparr>)"
    using True t by (auto simp: commit_undo_def levels_def undo_pending_def)
  moreover have "committed ed t"
    using t(2) True tree_commit_cur[OF wf, of "live ed"]
    by (auto simp: pruned_def committed_def tree_commit_def[of "live ed" "tree ed"] Let_def)
  ultimately show ?thesis by blast
qed

lemma committed_inv: "committed ed t \<Longrightarrow> inv_ed (ed\<lparr>tree := t\<rparr>)"
  by (auto simp: committed_def inv_ed_def)

lemma open_group_inv: "inv_ed ed \<Longrightarrow> inv_ed (open_group ed)"
  by (auto simp: inv_ed_def open_group_def mark_dirty_def undo_pending_def)

lemma open_group_dirty: "dirty (tree (open_group ed))"
  by (simp add: open_group_def mark_dirty_def)

lemma push_undo_returns:
  assumes "inv_ed ed"
  shows "\<exists>ed'. push_undo ed = Some ed' \<and> inv_ed ed' \<and> dirty (tree ed')"
proof -
  from commit_undo_returns[OF assms] obtain t where
    "commit_undo ed = Some (ed\<lparr>tree := t\<rparr>)" "committed ed t" by blast
  with assms show ?thesis
    by (auto simp: push_undo_def intro: open_group_inv committed_inv open_group_dirty)
qed

lemma edit_text_inv: "inv_ed ed \<Longrightarrow> dirty (tree ed) \<Longrightarrow> inv_ed (edit_text x ed)"
  by (auto simp: inv_ed_def edit_text_def undo_pending_def)

lemma go_to_inv:
  assumes "inv_ed ed" and "\<not> dirty (tree ed)" and "i < length (nodes (tree ed))"
  shows "inv_ed (go_to i ed)"
  using assms wf_undo_move[of "tree ed" i]
  by (auto simp: inv_ed_def go_to_def restore_snapshot_def undo_pending_def Let_def)

lemma message_inv [simp]:
  "inv_ed (echo m ed) = inv_ed ed" "inv_ed (refuse_edit ed) = inv_ed ed"
  by (simp_all add: inv_ed_def echo_def refuse_edit_def)

lemma session_inv [simp]:
  "inv_ed (ed\<lparr>typing := ty\<rparr>) = inv_ed ed" "inv_ed (ed\<lparr>atomic_opened := b\<rparr>) = inv_ed ed"
  "inv_ed (ed\<lparr>atomic := n\<rparr>) = inv_ed ed"
  "inv_ed (ed\<lparr>atomic_tick := m\<rparr>) = inv_ed ed"
  "inv_ed (ed\<lparr>atomic_tick := m, atomic_opened := b\<rparr>) = inv_ed ed"
  by (simp_all add: inv_ed_def)

text \<open>An operation that commits and then acts on the committed editor.\<close>

lemma commit_then:
  assumes "inv_ed ed"
    and "\<And>t. committed ed t \<Longrightarrow> inv_ed (ed\<lparr>tree := t\<rparr>) \<Longrightarrow> Q (f (ed\<lparr>tree := t\<rparr>))"
  shows "\<exists>ed'. map_option f (commit_undo ed) = Some ed' \<and> Q ed'"
proof -
  from commit_undo_returns[OF assms(1)] obtain t where
    "commit_undo ed = Some (ed\<lparr>tree := t\<rparr>)" "committed ed t" by blast
  with assms(2)[OF this(2) committed_inv[OF this(2)]] show ?thesis by simp
qed

lemma break_undo_step_returns: "inv_ed ed \<Longrightarrow> \<exists>ed'. break_undo_step ed = Some ed' \<and> inv_ed ed' \<and> dirty (tree ed')"
  unfolding break_undo_step_def
  by (rule commit_then) (auto simp: Let_def open_group_dirty intro: open_group_inv)

lemma undo_land_on_inv:
  "inv_ed ed \<Longrightarrow> \<not> dirty (tree ed) \<Longrightarrow> i < length (nodes (tree ed)) \<Longrightarrow> inv_ed (undo_land_on i back ed)"
  by (simp add: undo_land_on_def go_to_inv)

lemma set_save_fields:
  "seq ((ns[c := (ns ! c)\<lparr>save := s\<rparr>]) ! i) = seq (ns ! i)"
  "parent ((ns[c := (ns ! c)\<lparr>save := s\<rparr>]) ! i) = parent (ns ! i)"
  "children ((ns[c := (ns ! c)\<lparr>save := s\<rparr>]) ! i) = children (ns ! i)"
  "snap ((ns[c := (ns ! c)\<lparr>save := s\<rparr>]) ! i) = snap (ns ! i)"
  by (cases "i = c \<and> c < length ns"; auto simp: nth_list_update list_update_beyond)+

lemma wf_save:
  assumes wf: "wf_undo t"
  shows "wf_undo (t\<lparr>save_last := k, nodes := (nodes t)[c := (node t c)\<lparr>save := s\<rparr>]\<rparr>)"
proof -
  let ?ns = "(nodes t)[c := (node t c)\<lparr>save := s\<rparr>]"
  have "map seq ?ns = map seq (nodes t)"
    by (rule nth_equalityI) (simp_all add: set_save_fields)
  moreover have "\<forall>n \<in> set ?ns. seq n < next_seq t"
    using wf by (auto simp: in_set_conv_nth set_save_fields wf_next)
  ultimately show ?thesis
    using wf by (simp add: wf_undo_def indices_def set_save_fields)
qed

lemma mark_undo_saved_returns:
  assumes "inv_ed ed"
  shows "\<exists>ed'. mark_undo_saved ed = Some ed' \<and> inv_ed ed' \<and> \<not> dirty (tree ed') \<and>
    live ed' = live ed \<and> saved_seq ed' = Some (cur_seq (tree ed'))"
proof -
  from commit_undo_returns[OF assms] obtain t where
    c: "commit_undo ed = Some (ed\<lparr>tree := t\<rparr>)" "committed ed t" by blast
  then have wf: "wf_undo t" and nd: "\<not> dirty t" and sn: "snap (node t (cur t)) = live ed"
    by (simp_all add: committed_def)
  let ?t = "t\<lparr>save_last := save_last t + 1,
    nodes := (nodes t)[cur t := (node t (cur t))\<lparr>save := Some (save_last t + 1)\<rparr>]\<rparr>"
  have "mark_undo_saved ed = Some (ed\<lparr>tree := ?t, saved_seq := Some (cur_seq t)\<rparr>)"
    using c by (simp add: mark_undo_saved_def Let_def)
  moreover have "inv_ed (ed\<lparr>tree := ?t, saved_seq := Some (cur_seq t)\<rparr>)"
    using wf_save[OF wf] nd sn by (simp add: inv_ed_def undo_pending_def set_save_fields)
  moreover have "cur_seq ?t = cur_seq t" by (simp add: cur_seq_def set_save_fields)
  ultimately show ?thesis using nd by auto
qed

lemma undo_travel_returns:
  assumes "inv_ed ed"
  shows "\<exists>ed'. undo_travel n back ed = Some ed' \<and> inv_ed ed'"
    and "\<exists>ed'. undo_travel_time secs back ed = Some ed' \<and> inv_ed ed'"
    and "\<exists>ed'. undo_travel_file n back ed = Some ed' \<and> inv_ed ed'"
proof -
  obtain t where c: "commit_undo ed = Some (ed\<lparr>tree := t\<rparr>)" "committed ed t"
    using commit_undo_returns[OF assms] by blast
  then have wf: "wf_undo t" and nd: "\<not> dirty t" by (simp_all add: committed_def)
  have land: "inv_ed (undo_land_on i bk (ed\<lparr>tree := t\<rparr>))" if "lands t bk i" for i bk
    using that nd undo_land_on_inv[OF committed_inv[OF c(2)]] by (simp add: lands_def)
  show "\<exists>ed'. undo_travel n back ed = Some ed' \<and> inv_ed ed'"
    using c(1) land[OF node_near_seq_lands[OF wf]] assms by (simp add: undo_travel_def)
  show "\<exists>ed'. undo_travel_time secs back ed = Some ed' \<and> inv_ed ed'"
    using c(1) land[OF node_near_time_lands[OF wf]] by (simp add: undo_travel_time_def Let_def)
  show "\<exists>ed'. undo_travel_file n back ed = Some ed' \<and> inv_ed ed'"
  proof (cases "n = 0")
    case False
    from save_from_returns[OF wf wf_cur[OF wf]] obtain sv where
      sv: "save_at_or_above_cur t = Some sv" by (auto simp: save_at_or_above_cur_def)
    have "lands t back (node_near_save (sat_i64 (if back then int b - k else int b + min (int n) I64_MAX))
        back t)" for b k
      by (rule node_near_save_lands[OF wf]) (use False in \<open>auto simp: i64_simps\<close>)
    with c(1) sv False land show ?thesis by (simp add: undo_travel_file_def Let_def)
  qed (use assms in \<open>simp add: undo_travel_file_def\<close>)
qed

datatype 't undo_op =
    OpPush | OpPushFor | OpChange 't | OpTyped edit_kind "uchar option" 't "nat \<times> nat"
  | OpUndo | OpRedo | OpSeq nat | OpTravel ustring bool | OpSave
  | OpBeginAtomic | OpEndAtomic | OpResetTyping | OpEndTyping | OpReplacing | OpMarkPoint
  | OpLevels int | OpModifiable bool | OpSession bool bool bool | OpClock int nat

text \<open>One operation. \<open>OpChange\<close> and \<open>OpTyped\<close> are an edit opened by \<open>push_undo\<close> and by the insert
  path; the last four are what other components set.\<close>

fun undo_exec ::
  "(uchar \<Rightarrow> bool) \<Rightarrow> (ustring \<Rightarrow> ustring) \<Rightarrow> 't undo_ed \<Rightarrow> 't undo_op \<Rightarrow> 't undo_ed option" where
  "undo_exec alnum trim ed OpPush = push_undo ed"
| "undo_exec alnum trim ed OpPushFor = push_undo_for ed"
| "undo_exec alnum trim ed (OpChange x) = map_option (edit_text x) (push_undo ed)"
| "undo_exec alnum trim ed (OpTyped kind ch x at) =
     map_option (\<lambda>ed. after_typed_edit ((edit_text x ed)\<lparr>cursor_at := at\<rparr>))
       (before_typed_edit alnum kind ch ed)"
| "undo_exec alnum trim ed OpUndo = undo ed"
| "undo_exec alnum trim ed OpRedo = redo ed"
| "undo_exec alnum trim ed (OpSeq n) = undo_to_seq n ed"
| "undo_exec alnum trim ed (OpTravel args back) = ex_undo_travel trim args back ed"
| "undo_exec alnum trim ed OpSave = mark_undo_saved ed"
| "undo_exec alnum trim ed OpBeginAtomic = Some (begin_undo_atomic ed)"
| "undo_exec alnum trim ed OpEndAtomic = Some (end_undo_atomic ed)"
| "undo_exec alnum trim ed OpResetTyping = Some (reset_typing_undo ed)"
| "undo_exec alnum trim ed OpEndTyping = end_typing_step ed"
| "undo_exec alnum trim ed OpReplacing = begin_replacing_step ed"
| "undo_exec alnum trim ed OpMarkPoint = mark_undo_point ed"
| "undo_exec alnum trim ed (OpLevels n) = Some (ed\<lparr>undolevels := n\<rparr>)"
| "undo_exec alnum trim ed (OpModifiable b) = Some (ed\<lparr>modifiable := b\<rparr>)"
| "undo_exec alnum trim ed (OpSession taken ins rep) =
     Some (ed\<lparr>snapshot_taken := taken, inserting := ins, replaying := rep\<rparr>)"
| "undo_exec alnum trim ed (OpClock tm ms) = Some (ed\<lparr>now_mono := tm, now_ms := ms\<rparr>)"

lemma atomic_step_returns:
  assumes "inv_ed ed" and "dirty (tree ed)"
  shows "\<exists>ed'. open_atomic_step ed = Some ed' \<and> inv_ed ed' \<and> dirty (tree ed')"
proof -
  have "inv_ed (ed\<lparr>atomic_opened := True\<rparr>)" using assms(1) by simp
  from break_undo_step_returns[OF this] assms show ?thesis
    by (auto simp: open_atomic_step_def Let_def)
qed

lemma before_typed_edit_returns:
  assumes "inv_ed ed"
  shows "\<exists>ed'. before_typed_edit alnum kind ch ed = Some ed' \<and> inv_ed ed' \<and> dirty (tree ed')"
proof -
  from push_undo_returns[OF assms] obtain e where
    e: "push_undo ed = Some e" "inv_ed e" "dirty (tree e)" by blast
  from break_undo_step_returns[OF e(2)] obtain b where
    b: "break_undo_step e = Some b" "inv_ed b" "dirty (tree b)" by blast
  with e atomic_step_returns[OF e(2,3)] show ?thesis
    by (cases "atomic e = 0"; cases "replaying e";
        cases "changedtick e \<noteq> ty_tick (typing e) \<and> step_starts alnum kind ch e")
       (simp_all add: before_typed_edit_def)
qed

lemma open_atomic_step_returns:
  assumes "inv_ed ed"
  shows "\<exists>ed'. open_atomic_step ed = Some ed' \<and> inv_ed ed'"
proof -
  have "inv_ed (ed\<lparr>atomic_opened := True\<rparr>)" using assms by simp
  from break_undo_step_returns[OF this] assms show ?thesis
    by (auto simp: open_atomic_step_def Let_def)
qed

lemma end_typing_step_returns:
  assumes "inv_ed ed"
  shows "\<exists>ed'. end_typing_step ed = Some ed' \<and> inv_ed ed'"
proof -
  from push_undo_returns[OF assms] obtain e where e: "push_undo ed = Some e" "inv_ed e" by blast
  with break_undo_step_returns[OF e(2)] open_atomic_step_returns[OF assms] assms show ?thesis
    by (auto simp: end_typing_step_def)
qed

lemma mark_undo_point_returns:
  assumes "inv_ed ed"
  shows "\<exists>ed'. mark_undo_point ed = Some ed' \<and> inv_ed ed'"
proof -
  from push_undo_returns[OF assms] obtain e where e: "push_undo ed = Some e" "inv_ed e" by blast
  let ?e = "if 0 < atomic e then e\<lparr>atomic_opened := True\<rparr> else e"
  have "inv_ed ?e" using e(2) by simp
  with e break_undo_step_returns[OF this] assms show ?thesis
    by (auto simp: mark_undo_point_def Let_def)
qed

lemma navigation_returns:
  assumes "inv_ed ed"
  shows "\<exists>ed'. undo ed = Some ed' \<and> inv_ed ed'"
    and "\<exists>ed'. redo ed = Some ed' \<and> inv_ed ed'"
    and "\<exists>ed'. undo_to_seq n ed = Some ed' \<and> inv_ed ed'"
proof -
  obtain t where c: "commit_undo ed = Some (ed\<lparr>tree := t\<rparr>)" "committed ed t"
    using commit_undo_returns[OF assms] by blast
  then have wf: "wf_undo t" and nd: "\<not> dirty t" by (simp_all add: committed_def)
  note inv = committed_inv[OF c(2)]
  have go: "inv_ed (go_to i (ed\<lparr>tree := t\<rparr>))" if "i < length (nodes t)" for i
    using go_to_inv[OF inv] that nd by simp
  have "p < length (nodes t)" if "parent (node t (cur t)) = Some p" for p
    using wf_parent[OF wf wf_cur[OF wf] that] wf_cur[OF wf] by simp
  with c(1) assms inv go show "\<exists>ed'. undo ed = Some ed' \<and> inv_ed ed'"
    by (auto simp: undo_def split: option.splits)
  have "last cs < length (nodes t)" if "cs = children (node t (cur t))" "cs \<noteq> []" for cs
    using that wf_child[OF wf wf_cur[OF wf], of "last cs"] by simp
  with c(1) assms inv go show "\<exists>ed'. redo ed = Some ed' \<and> inv_ed ed'"
    by (auto simp: redo_def Let_def)
  have "i < length (nodes t)" if "node_of_seq n t = Some i" for i
    using that position_Some unfolding node_of_seq_def by fastforce
  with c(1) assms inv go show "\<exists>ed'. undo_to_seq n ed = Some ed' \<and> inv_ed ed'"
    by (auto simp: undo_to_seq_def split: option.splits)
qed

lemma undo_exec_returns:
  assumes "inv_ed ed"
  shows "\<exists>ed'. undo_exec alnum trim ed op = Some ed' \<and> inv_ed ed'"
proof (cases op)
  case OpPush
  with push_undo_returns[OF assms] show ?thesis by auto
next
  case OpPushFor
  with commit_undo_returns[OF assms] show ?thesis
    by (auto simp: push_undo_for_def intro: open_group_inv committed_inv)
next
  case (OpChange x)
  with push_undo_returns[OF assms] show ?thesis by (auto intro: edit_text_inv)
next
  case (OpTyped kind ch x at)
  from before_typed_edit_returns[OF assms] obtain e where
    "before_typed_edit alnum kind ch ed = Some e" "inv_ed e" "dirty (tree e)" by blast
  with OpTyped show ?thesis
    using edit_text_inv[of e x] by (simp add: after_typed_edit_def) (simp add: inv_ed_def)
next
  case (OpTravel args bk)
  with undo_travel_returns[OF assms] assms show ?thesis
    by (auto simp: ex_undo_travel_def Let_def split: option.splits travel_arg.splits)
next
  case OpSave
  with mark_undo_saved_returns[OF assms] show ?thesis by auto
next
  case OpReplacing
  with break_undo_step_returns[OF assms] assms show ?thesis
    by (auto simp: begin_replacing_step_def reset_typing_undo_def)
next
  case OpEndAtomic
  with assms show ?thesis by (simp add: end_undo_atomic_def owe_typing_step_def Let_def)
next
  case OpBeginAtomic
  with assms show ?thesis by (simp add: begin_undo_atomic_def Let_def)
qed (use assms navigation_returns[OF assms] end_typing_step_returns[OF assms]
      mark_undo_point_returns[OF assms] in
      \<open>simp_all add: reset_typing_undo_def, simp_all add: inv_ed_def\<close>)

interpretation ux: partial_system "undo_exec alnum trim" inv_ed for alnum trim
  by unfold_locales (rule undo_exec_returns)

definition undo_ed_new :: "'t \<Rightarrow> 't undo_ed" where
  "undo_ed_new text =
     \<lparr>tree = tree_new text, live = text, changedtick = 0, modified = False, saved_seq = Some 0,
      undolevels = 1000, modifiable = True, edit_refused = False, echoed = None, now_mono = 0,
      snapshot_taken = False,
      typing = \<lparr>ty_kind = None, ty_last = None, ty_tick = 0, ty_force = False, ty_last_ms = 0,
                ty_at = None\<rparr>,
      atomic = 0, atomic_tick = 0, atomic_opened = False, inserting = False, replaying = False,
      now_ms = 0, cursor_at = (0, 0)\<rparr>"

lemma undo_ed_new_inv: "inv_ed (undo_ed_new text)"
  using tree_new_wf[of "text"]
  by (simp add: inv_ed_def undo_ed_new_def undo_pending_def) (simp add: tree_new_def)

text \<open>
  C7. No sequence of edits, typed keys, undos, redos, jumps, travels, saves and group boundaries
  ever hangs or leaves the arena: from a fresh buffer every run returns, in a state whose undo
  tree is well-formed and whose live text is the current state's unless a change is pending.
\<close>
theorem undo_runs:
  "\<exists>ed. run_ops (undo_exec alnum trim) (undo_ed_new text) ops = Some ed \<and> inv_ed ed"
  by (rule ux.run_total[OF undo_ed_new_inv])

section \<open>Undo and redo invert each other\<close>

lemma commit_clean:
  assumes "inv_ed ed" and "\<not> dirty (tree ed)"
  shows "commit_undo ed = Some ed"
  using assms by (simp add: commit_undo_def)

lemma go_to_simps [simp]:
  "tree (go_to i ed) = (tree ed)\<lparr>cur := i\<rparr>" "live (go_to i ed) = snap (node (tree ed) i)"
  "modifiable (go_to i ed) = modifiable ed" "saved_seq (go_to i ed) = saved_seq ed"
  "modified (go_to i ed) = (saved_seq ed \<noteq> Some (seq (node (tree ed) i)))"
  by (simp_all add: go_to_def restore_snapshot_def Let_def)

text \<open>One change opened by \<open>push_undo\<close>, then \<open>u\<close>, then \<open><C-r>\<close>.\<close>

lemma change_undo_redo:
  assumes inv: "inv_ed ed" and mod: "modifiable ed" and fits: "length (nodes (tree ed)) < levels ed"
    and group: "\<not> snapshot_taken ed"
  shows "\<exists>e1 e2 e3. undo_exec alnum trim ed (OpChange x) = Some e1 \<and> live e1 = x \<and>
    undo e1 = Some e2 \<and> live e2 = live ed \<and>
    modified e2 = (saved_seq ed \<noteq> Some (cur_seq (tree e2))) \<and>
    redo e2 = Some e3 \<and> live e3 = x"
proof -
  from commit_undo_returns[OF inv] obtain t where
    c: "commit_undo ed = Some (ed\<lparr>tree := t\<rparr>)" "committed ed t" by blast
  from c(2) have wf: "wf_undo t" and nd: "\<not> dirty t" and sn: "snap (node t (cur t)) = live ed"
    unfolding committed_def by blast+
  from c(2) fits have t: "t = (if undo_pending (changedtick ed) (tree ed)
      then tree_commit (live ed) (tree ed) else (tree ed)\<lparr>dirty := False\<rparr>)"
    unfolding committed_def by (meson less_imp_le)
  have len: "length (nodes t) \<le> levels ed" using fits t by (auto simp: tree_commit_def Let_def)
  let ?e0 = "open_group (ed\<lparr>tree := t\<rparr>)" and ?e1 = "edit_text x (open_group (ed\<lparr>tree := t\<rparr>))"
  have e1: "undo_exec alnum trim ed (OpChange x) = Some ?e1"
    using c group by (simp add: push_undo_def)
  have inv1: "inv_ed ?e1"
    by (intro edit_text_inv open_group_inv committed_inv[OF c(2)] open_group_dirty)
  have pend: "undo_pending (changedtick ?e1) (tree ?e1)"
    using nd by (simp add: undo_pending_def edit_text_def open_group_def mark_dirty_def)
  from commit_undo_returns[OF inv1] obtain t1 where
    c1: "commit_undo ?e1 = Some (?e1\<lparr>tree := t1\<rparr>)" "committed ?e1 t1" by blast
  have nodes1: "nodes (tree ?e1) = nodes t" "cur (tree ?e1) = cur t" "levels ?e1 = levels ed"
    "live ?e1 = x" "saved_seq ?e1 = saved_seq ed"
    using nd by (simp_all add: edit_text_def open_group_def mark_dirty_def levels_def)
  then have t1: "t1 = tree_commit x (tree ?e1)"
    using c1(2) pend len by (simp add: committed_def)
  have wf1: "wf_undo (tree ?e1)" using inv1 by (simp add: inv_ed_def)
  note leaf = tree_commit_cur[OF wf1, of x]
  have cur: "cur t < length (nodes t)" by (rule wf_cur[OF wf])
  have up: "parent (node t1 (cur t1)) = Some (cur t)"
    and kids: "children (node t1 (cur t)) \<noteq> []" "last (children (node t1 (cur t))) = cur t1"
    and old: "snap (node t1 (cur t)) = live ed" and new: "snap (node t1 (cur t1)) = x"
    using leaf nodes1 cur sn by (auto simp: t1 tree_commit_def Let_def nth_append nth_list_update)
  let ?e2 = "go_to (cur t) (?e1\<lparr>tree := t1\<rparr>)"
  have m: "modifiable ?e1" using mod by (simp add: edit_text_def open_group_def)
  have e2: "undo ?e1 = Some ?e2" using m c1(1) up by (simp add: undo_def)
  have nd2: "\<not> dirty (tree ?e2)" using c1(2) by (simp add: committed_def)
  have "inv_ed ?e2"
    by (rule go_to_inv[OF committed_inv[OF c1(2)]])
       (use nd2 cur nodes1 in \<open>auto simp: t1 tree_commit_def Let_def\<close>)
  then have "commit_undo ?e2 = Some ?e2" using nd2 by (rule commit_clean)
  then have e3: "redo ?e2 = Some (go_to (cur t1) ?e2)"
    using m kids by (simp add: redo_def Let_def)
  show ?thesis
    using e1 e2 e3 old new nodes1
    by (intro exI[of _ ?e1] exI[of _ ?e2] exI[of _ "go_to (cur t1) ?e2"])
       (simp add: cur_seq_def)
qed

text \<open>
  C8. While \<open>'undolevels'\<close> has room, \<open>u\<close> after a change gives back exactly the text the change
  was made on and \<open><C-r>\<close> then gives the changed text; and after the undo the buffer counts as
  modified exactly when the state it is back on is not the one last written.
\<close>
theorem undo_inverts_change:
  assumes "inv_ed ed" and "modifiable ed" and "\<not> snapshot_taken ed"
    and "length (nodes (tree ed)) < levels ed"
  shows "\<exists>e1 e2 e3. undo_exec alnum trim ed (OpChange x) = Some e1 \<and> live e1 = x \<and>
    undo e1 = Some e2 \<and> live e2 = live ed \<and>
    modified e2 = (saved_seq ed \<noteq> Some (cur_seq (tree e2))) \<and>
    redo e2 = Some e3 \<and> live e3 = x"
  by (rule change_undo_redo[OF assms(1,2,4,3)])

section \<open>Reachability\<close>

lemma position_found: "x \<in> set xs \<Longrightarrow> P x \<Longrightarrow> \<exists>i. position P xs = Some i"
  using position_None[of P xs] by (cases "position P xs") auto

lemma committed_keeps:
  assumes "inv_ed ed" and "committed ed t" and "length (nodes (tree ed)) \<le> levels ed"
    and "i < length (nodes (tree ed))"
  shows "i < length (nodes t)" and "seq (node t i) = seq (node (tree ed) i)"
    and "snap (node t i) = snap (node (tree ed) i)"
proof -
  have t: "t = (if undo_pending (changedtick ed) (tree ed) then tree_commit (live ed) (tree ed)
                else (tree ed)\<lparr>dirty := False\<rparr>)"
    using assms by (simp add: committed_def)
  have wf: "wf_undo (tree ed)" using assms by (simp add: inv_ed_def)
  show "i < length (nodes t)" using assms(4) by (simp add: t tree_commit_def Let_def)
  show "seq (node t i) = seq (node (tree ed) i)" "snap (node t i) = snap (node (tree ed) i)"
    using tree_commit_keeps[OF wf assms(4)] by (simp_all add: t)
qed

text \<open>
  Every recorded state stays reachable: as long as the history fits \<open>'undolevels'\<close>,
  \<open>:undo {N}\<close> lands on state N wherever it is in the tree - an abandoned branch included - and
  shows that state's text.
\<close>
theorem undo_to_seq_reaches:
  assumes "inv_ed ed" and "modifiable ed" and "length (nodes (tree ed)) \<le> levels ed"
    and "i < length (nodes (tree ed))"
  shows "\<exists>ed'. undo_to_seq (seq (node (tree ed) i)) ed = Some ed' \<and>
    cur_seq (tree ed') = seq (node (tree ed) i) \<and> live ed' = snap (node (tree ed) i)"
proof -
  let ?s = "seq (node (tree ed) i)"
  from commit_undo_returns[OF assms(1)] obtain t where
    c: "commit_undo ed = Some (ed\<lparr>tree := t\<rparr>)" "committed ed t" by blast
  then have wf: "wf_undo t" and sn: "snap (node t (cur t)) = live ed" by (simp_all add: committed_def)
  note keep = committed_keeps[OF assms(1) c(2) assms(3,4)]
  obtain j where j: "node_of_seq ?s t = Some j"
    unfolding node_of_seq_def using position_found[of "node t i" "nodes t"] keep(1,2) by fastforce
  then have "j < length (nodes t)" "seq (node t j) = ?s"
    unfolding node_of_seq_def by (auto dest: position_Some)
  with keep(1,2) have "j = i" using wf_seq_inj[OF wf] by simp
  with j assms(2) c(1) keep sn show ?thesis
    by (cases "i = cur t") (auto simp: undo_to_seq_def cur_seq_def)
qed

text \<open>The directions of a travel from the state numbered \<open>s\<close> to the one numbered \<open>s'\<close>.\<close>

definition moves_toward :: "bool \<Rightarrow> nat \<Rightarrow> nat \<Rightarrow> bool" where
  "moves_toward backwards s s' = (if backwards then s' \<le> s else s \<le> s')"

lemma moves_toward_refl [simp]: "moves_toward b s s"
  by (simp add: moves_toward_def)

text \<open>
  Travels keep their direction: \<open>g-\<close> and every \<open>:earlier\<close> form (states, time, file writes)
  land on a state no newer than the one they leave, \<open>g+\<close> and \<open>:later\<close> on one no older, however
  large the count and wherever branches were abandoned or saved.
\<close>
theorem travel_direction:
  assumes "inv_ed ed"
  shows "\<exists>c e1 e2 e3. commit_undo ed = Some c \<and> undo_travel n back c = Some e1 \<and>
    undo_travel_time secs back c = Some e2 \<and> undo_travel_file n back c = Some e3 \<and>
    moves_toward back (cur_seq (tree c)) (cur_seq (tree e1)) \<and>
    moves_toward back (cur_seq (tree c)) (cur_seq (tree e2)) \<and>
    moves_toward back (cur_seq (tree c)) (cur_seq (tree e3))"
proof -
  from commit_undo_returns[OF assms] obtain t where
    c: "commit_undo ed = Some (ed\<lparr>tree := t\<rparr>)" "committed ed t" by blast
  let ?c = "ed\<lparr>tree := t\<rparr>"
  from c have wf: "wf_undo t" and nd: "\<not> dirty t" by (simp_all add: committed_def)
  have again: "commit_undo ?c = Some ?c" using committed_inv[OF c(2)] nd by (simp add: commit_clean)
  have land: "moves_toward back (cur_seq t) (cur_seq (tree (undo_land_on i back ?c)))"
    if "lands t back i" for i
    using that
    by (auto simp: undo_land_on_def lands_def echo_def refuse_edit_def cur_seq_def moves_toward_def)
  have e1: "\<exists>e1. undo_travel n back ?c = Some e1 \<and>
      moves_toward back (cur_seq t) (cur_seq (tree e1))"
    using again land[OF node_near_seq_lands[OF wf]]
    by (cases "n = 0") (simp_all add: undo_travel_def del: if_split)
  have e2: "\<exists>e2. undo_travel_time secs back ?c = Some e2 \<and>
      moves_toward back (cur_seq t) (cur_seq (tree e2))"
    using again land[OF node_near_time_lands[OF wf]]
    by (simp add: undo_travel_time_def Let_def del: if_split)
  have e3: "\<exists>e3. undo_travel_file n back ?c = Some e3 \<and>
      moves_toward back (cur_seq t) (cur_seq (tree e3))"
  proof (cases "n = 0")
    case False
    from save_from_returns[OF wf wf_cur[OF wf]] obtain sv where
      sv: "save_at_or_above_cur t = Some sv" by (auto simp: save_at_or_above_cur_def)
    have "lands t back (node_near_save (sat_i64 (if back then int b - k else int b + min (int n) I64_MAX))
        back t)" for b k
      by (rule node_near_save_lands[OF wf]) (use False in \<open>auto simp: i64_simps\<close>)
    from again sv False land[OF this] show ?thesis
      by (simp add: undo_travel_file_def Let_def del: if_split)
  qed (simp add: undo_travel_file_def)
  from c(1) e1 e2 e3 show ?thesis by fastforce
qed

section \<open>Pruning\<close>

text \<open>
  C9. \<open>'undolevels'\<close> bounds the history and never the present: closing a pending group leaves
  at most the allowed number of states below the root, with the live text recorded as the current
  state under the next sequence number.
\<close>
theorem commit_bounds_history:
  assumes "inv_ed ed" and "undo_pending (changedtick ed) (tree ed)"
  shows "\<exists>ed'. commit_undo ed = Some ed' \<and> length (nodes (tree ed')) - 1 \<le> levels ed \<and>
    snap (node (tree ed') (cur (tree ed'))) = live ed \<and>
    cur_seq (tree ed') = next_seq (tree ed) \<and> live ed' = live ed"
proof -
  from commit_undo_returns[OF assms(1)] obtain t where
    "commit_undo ed = Some (ed\<lparr>tree := t\<rparr>)" "committed ed t" by blast
  with assms(2) show ?thesis by (auto simp: committed_def cur_seq_def)
qed

section \<open>The projection\<close>

fun entry_seqs :: "undo_entry \<Rightarrow> nat list" where
  "entry_seqs (UndoEntry s tm sv alt) = s # concat (map entry_seqs alt)"

definition pending_under :: "'t undo_tree \<Rightarrow> pending_node \<Rightarrow> nat \<Rightarrow> nat multiset" where
  "pending_under t p c =
     (case p of Some (at, s, tm) \<Rightarrow> if under t c at then {#s#} else {#} | None \<Rightarrow> {#})"

definition below :: "'t undo_tree \<Rightarrow> pending_node \<Rightarrow> nat \<Rightarrow> nat multiset" where
  "below t p c = image_mset (\<lambda>i. seq (node t i)) (mset (subtree t c)) + pending_under t p c"

fun item_seqs :: "'t undo_tree \<Rightarrow> pending_node \<Rightarrow> sib_item \<Rightarrow> nat multiset" where
  "item_seqs t p (Real c) = below t p c"
| "item_seqs t p (SibPending s tm) = {#s#}"

definition items_seqs :: "'t undo_tree \<Rightarrow> pending_node \<Rightarrow> sib_item list \<Rightarrow> nat multiset" where
  "items_seqs t p sibs = sum_list (map (item_seqs t p) sibs)"

definition pending_ok :: "'t undo_tree \<Rightarrow> pending_node \<Rightarrow> bool" where
  "pending_ok t p \<longleftrightarrow> (case p of Some (at, _) \<Rightarrow> at < length (nodes t) | None \<Rightarrow> True)"

lemma image_sum_list: "image_mset f (sum_list ms) = sum_list (map (image_mset f) ms)"
  by (induction ms) auto

lemma sum_list_add: "sum_list (map (\<lambda>x. f x + g x) xs) =
    sum_list (map f xs) + (sum_list (map g xs) :: 'b multiset)"
  by (induction xs) (auto simp: ac_simps)

lemma sum_list_one:
  "distinct cs \<Longrightarrow> (\<And>c d. c \<in> set cs \<Longrightarrow> d \<in> set cs \<Longrightarrow> P c \<Longrightarrow> P d \<Longrightarrow> c = d) \<Longrightarrow>
   sum_list (map (\<lambda>c. if P c then m else {#}) cs) = (if \<exists>c \<in> set cs. P c then m else {#})"
proof (induction cs)
  case (Cons c cs)
  have "sum_list (map (\<lambda>c. if P c then m else {#}) cs) = (if \<exists>c \<in> set cs. P c then m else {#})"
    using Cons by auto
  moreover have "P c \<Longrightarrow> \<not> (\<exists>d \<in> set cs. P d)" using Cons.prems by auto
  ultimately show ?case by auto
qed simp

lemma pending_split:
  assumes wf: "wf_undo t" and c: "c < length (nodes t)" and p: "p = Some (at, s, tm)"
    and at: "at < length (nodes t)"
  shows "pending_under t p c = (if at = c then {#s#} else {#}) +
    sum_list (map (pending_under t p) (children (node t c)))"
proof -
  have "sum_list (map (pending_under t p) (children (node t c))) =
      sum_list (map (\<lambda>d. if under t d at then {#s#} else {#}) (children (node t c)))"
    by (simp add: pending_under_def[abs_def] p)
  also have "\<dots> = (if \<exists>d \<in> set (children (node t c)). under t d at then {#s#} else {#})"
    by (rule sum_list_one[OF distinct_children[OF wf c]]) (rule children_disjoint[OF wf c at])
  finally have sum: "sum_list (map (pending_under t p) (children (node t c))) =
      (if \<exists>d \<in> set (children (node t c)). under t d at then {#s#} else {#})" .
  have "\<not> under t d c" if "d \<in> set (children (node t c))" for d
    using that wf_child[OF wf c] wf_parent[OF wf] under_le[OF wf c] by fastforce
  with sum under_child[OF wf at c] show ?thesis by (auto simp: pending_under_def p)
qed

lemma below_unfold:
  assumes wf: "wf_undo t" and c: "c < length (nodes t)" and p: "pending_ok t p"
  shows "below t p c = {#seq (node t c)#} + items_seqs t p (sibs_of t p c)"
proof -
  have "image_mset (\<lambda>i. seq (node t i)) (mset (subtree t c)) = {#seq (node t c)#} +
      sum_list (map (\<lambda>d. image_mset (\<lambda>i. seq (node t i)) (mset (subtree t d))) (children (node t c)))"
    using subtree_unfold[OF wf c] by (simp add: image_sum_list comp_def)
  moreover have "pending_under t p c = (case p of Some (at, s, tm) \<Rightarrow> if at = c then {#s#} else {#}
      | None \<Rightarrow> {#}) + sum_list (map (pending_under t p) (children (node t c)))"
  proof (cases p)
    case None
    have "sum_list (map (\<lambda>d. {#}) ds) = ({#} :: nat multiset)" for ds :: "nat list"
      by (induction ds) auto
    with None show ?thesis by (simp add: pending_under_def[abs_def])
  next
    case (Some q)
    obtain at s tm where q: "q = (at, s, tm)" by (cases q) auto
    with Some p pending_split[OF wf c, of p at s tm] show ?thesis by (simp add: pending_ok_def)
  qed
  ultimately show ?thesis
    by (simp add: below_def items_seqs_def sibs_of_def comp_def sum_list_add ac_simps
        split: option.splits prod.splits)
qed

lemma encode_sibs_lists:
  assumes wf: "wf_undo t" and p: "pending_ok t p"
    and "\<forall>c. Real c \<in> set sibs \<longrightarrow> c < length (nodes t)"
  shows "\<exists>es. encode_sibs t p sibs = Some es \<and>
    mset (concat (map entry_seqs es)) = items_seqs t p sibs"
  using assms(3)
proof (induction "size (items_seqs t p sibs)" arbitrary: sibs rule: less_induct)
  case less
  show ?case
  proof (cases sibs)
    case Nil
    then show ?thesis by (simp add: encode_sibs.simps items_seqs_def)
  next
    case (Cons head rest)
    have w: "items_seqs t p sibs = item_seqs t p head + items_seqs t p rest"
      by (simp add: Cons items_seqs_def)
    show ?thesis
    proof (cases head)
      case (SibPending s tm)
      with w have "size (items_seqs t p rest) < size (items_seqs t p sibs)" by simp
      from less.hyps[OF this] less.prems Cons obtain alt where
        alt: "encode_sibs t p rest = Some alt"
          "mset (concat (map entry_seqs alt)) = items_seqs t p rest" by auto
      with Cons SibPending w show ?thesis by (subst encode_sibs.simps) simp
    next
      case (Real c)
      with Cons less.prems have c: "c < length (nodes t)" by simp
      have b: "item_seqs t p head = {#seq (node t c)#} + items_seqs t p (sibs_of t p c)"
        using Real below_unfold[OF wf c p] by simp
      with w have "size (items_seqs t p rest) < size (items_seqs t p sibs)"
        and smaller: "size (items_seqs t p (sibs_of t p c)) < size (items_seqs t p sibs)" by simp_all
      from less.hyps[OF this(1)] less.prems Cons obtain alt where
        alt: "encode_sibs t p rest = Some alt"
          "mset (concat (map entry_seqs alt)) = items_seqs t p rest" by auto
      have "\<forall>d. Real d \<in> set (sibs_of t p c) \<longrightarrow> d < length (nodes t)"
        using wf_child[OF wf c] by (auto simp: sibs_of_def split: option.splits if_splits)
      from less.hyps[OF smaller this] obtain tl where
        tl: "encode_sibs t p (sibs_of t p c) = Some tl"
          "mset (concat (map entry_seqs tl)) = items_seqs t p (sibs_of t p c)" by blast
      from alt tl Cons Real w b show ?thesis by (subst encode_sibs.simps) (simp add: ac_simps)
    qed
  qed
qed

text \<open>
  \<open>undotree()\<close> shows every state exactly once: the projection always returns, and its
  entries, spine and alternates together, carry the sequence number of each recorded state below
  the root once, plus the number the pending change will get.
\<close>
theorem view_lists_every_state:
  assumes "inv_ed ed"
  shows "\<exists>v. undotree_of ed = Some v \<and>
    mset (concat (map entry_seqs (view_entries v))) =
      mset (map seq (tl (nodes (tree ed)))) +
      (if undo_pending (changedtick ed) (tree ed) then {#next_seq (tree ed)#} else {#})"
proof -
  let ?t = "tree ed"
  let ?p = "if undo_pending (changedtick ed) ?t then Some (cur ?t, next_seq ?t, dirty_since ?t) else None"
  from assms have wf: "wf_undo ?t" by (simp add: inv_ed_def)
  have ok: "pending_ok ?t ?p" using wf_cur[OF wf] by (simp add: pending_ok_def)
  have len: "0 < length (nodes ?t)" using wf_cur[OF wf] by (rule le_less_trans[OF le0])
  have "\<forall>c. Real c \<in> set (sibs_of ?t ?p 0) \<longrightarrow> c < length (nodes ?t)"
    using wf_child[OF wf len] by (auto simp: sibs_of_def split: if_splits)
  from encode_sibs_lists[OF wf ok this] obtain es where
    es: "encode_children ?t ?p 0 = Some es"
      "mset (concat (map entry_seqs es)) = items_seqs ?t ?p (sibs_of ?t ?p 0)"
    by (auto simp: encode_children_def)
  have "subtree ?t 0 = [0..<length (nodes ?t)]"
    using under_root[OF wf] by (simp add: subtree_def indices_def)
  moreover have "map (\<lambda>i. seq (node ?t i)) [0..<length (nodes ?t)] = map seq (nodes ?t)"
    by (rule nth_equalityI) simp_all
  ultimately have "image_mset (\<lambda>i. seq (node ?t i)) (mset (subtree ?t 0)) = mset (map seq (nodes ?t))"
    by (metis mset_map)
  then have all: "below ?t ?p 0 = mset (map seq (nodes ?t)) +
      (if undo_pending (changedtick ed) ?t then {#next_seq ?t#} else {#})"
    using under_root[OF wf wf_cur[OF wf]] by (simp add: below_def pending_under_def)
  have "nodes ?t = node ?t 0 # tl (nodes ?t)" using len by (cases "nodes ?t") auto
  then have "mset (map seq (nodes ?t)) = {#seq (node ?t 0)#} + mset (map seq (tl (nodes ?t)))"
    by (metis add_mset_add_single list.simps(9) mset.simps(2) union_commute)
  with all below_unfold[OF wf len ok] es have
    "mset (concat (map entry_seqs es)) = mset (map seq (tl (nodes ?t))) +
      (if undo_pending (changedtick ed) ?t then {#next_seq ?t#} else {#})"
    by simp
  moreover obtain sv where "save_at_or_above_cur ?t = Some sv"
    using save_from_returns[OF wf wf_cur[OF wf]] by (auto simp: save_at_or_above_cur_def)
  ultimately show ?thesis
    using es(1) by (auto simp: undotree_of_def tree_view_def Let_def)
qed

section \<open>Witnesses\<close>

text \<open>Two branches off the original text, and a change pending on the newer one.\<close>

definition sample_state :: "nat \<Rightarrow> nat option \<Rightarrow> nat list \<Rightarrow> 't \<Rightarrow> 't undo_node" where
  "sample_state s p cs x =
     \<lparr>seq = s, parent = p, children = cs, time = int s, save = None, snap = x\<rparr>"

definition sample_ed :: "nat undo_ed" where
  "sample_ed =
     (undo_ed_new 10)\<lparr>
        tree := \<lparr>nodes = [sample_state 0 None [1, 2] 10, sample_state 1 (Some 0) [] 11,
                          sample_state 2 (Some 0) [] 12],
                 cur = 2, next_seq = 3, dirty = True, dirty_since = 9, dirty_tick = 4, save_last = 0\<rparr>,
        live := 13, changedtick := 5\<rparr>"

lemma sample_ed_inv: "inv_ed sample_ed"
  by code_simp

theorem undo_inverts_change_witness:
  "\<exists>e1 e2 e3. undo_exec (\<lambda>c. True) (\<lambda>s. s) sample_ed (OpChange 14) = Some e1 \<and> live e1 = 14 \<and>
    undo e1 = Some e2 \<and> live e2 = 13 \<and>
    modified e2 = (saved_seq sample_ed \<noteq> Some (cur_seq (tree e2))) \<and>
    redo e2 = Some e3 \<and> live e3 = 14"
proof -
  have "modifiable sample_ed" "\<not> snapshot_taken sample_ed"
    "length (nodes (tree sample_ed)) < levels sample_ed" "live sample_ed = 13"
    by code_simp+
  with undo_inverts_change[OF sample_ed_inv this(1-3), of "\<lambda>c. True" "\<lambda>s. s" 14]
  show ?thesis by simp
qed

theorem undo_to_seq_reaches_witness:
  "\<exists>ed'. undo_to_seq 1 sample_ed = Some ed' \<and> cur_seq (tree ed') = 1 \<and> live ed' = 11"
proof -
  have "modifiable sample_ed" "length (nodes (tree sample_ed)) \<le> levels sample_ed"
    "1 < length (nodes (tree sample_ed))" "seq (node (tree sample_ed) 1) = 1"
    "snap (node (tree sample_ed) 1) = 11"
    by code_simp+
  with undo_to_seq_reaches[OF sample_ed_inv this(1-3)] show ?thesis by simp
qed

theorem travel_direction_witness:
  "\<exists>c e1 e2 e3. commit_undo sample_ed = Some c \<and> undo_travel 2 True c = Some e1 \<and>
    undo_travel_time 60 True c = Some e2 \<and> undo_travel_file 2 True c = Some e3 \<and>
    moves_toward True (cur_seq (tree c)) (cur_seq (tree e1)) \<and>
    moves_toward True (cur_seq (tree c)) (cur_seq (tree e2)) \<and>
    moves_toward True (cur_seq (tree c)) (cur_seq (tree e3))"
  by (rule travel_direction[OF sample_ed_inv])

theorem commit_bounds_history_witness:
  "\<exists>ed'. commit_undo sample_ed = Some ed' \<and> length (nodes (tree ed')) - 1 \<le> 1000 \<and>
    snap (node (tree ed') (cur (tree ed'))) = 13 \<and> cur_seq (tree ed') = 3 \<and> live ed' = 13"
proof -
  have "undo_pending (changedtick sample_ed) (tree sample_ed)" "levels sample_ed = 1000"
    "live sample_ed = 13" "next_seq (tree sample_ed) = 3"
    by code_simp+
  with commit_bounds_history[OF sample_ed_inv this(1)] show ?thesis by simp
qed

theorem view_lists_every_state_witness:
  "\<exists>v. undotree_of sample_ed = Some v \<and>
    mset (concat (map entry_seqs (view_entries v))) = {#1, 2, 3#}"
proof -
  have "undo_pending (changedtick sample_ed) (tree sample_ed)" "next_seq (tree sample_ed) = 3"
    "map seq (tl (nodes (tree sample_ed))) = [1, 2]"
    by code_simp+
  with view_lists_every_state[OF sample_ed_inv] show ?thesis by (simp add: add_mset_commute)
qed

text \<open>Re-rooting counts abandoned branches against \<open>'undolevels'\<close>: with one level allowed, the
  change after an undo drops the state it was made on, and \<open>u\<close> cannot take it back.\<close>

lemma undolevels_lost_to_branches:
  "map_option (\<lambda>ed. (live ed, echoed ed))
     (run_ops (undo_exec (\<lambda>c. True) (\<lambda>s. s)) (undo_ed_new (10::nat))
        [OpLevels 1, OpChange 11, OpUndo, OpChange 12, OpUndo]) =
   Some (12, Some (us ''Already at oldest change''))"
  by code_simp

end
