(* ===== verification/Registers.thy ===== *)
theory Registers
  imports Prelude
begin

text \<open>
  The register file of \<open>crates/bemtvi-core/src/editor/registers.rs\<close>: routing of yanks and
  deletes to the unnamed, yank, ring, small-delete and named registers. The specification
  (\<open>reg_spec\<close>) says in closed form what every register holds after an operation; the operations
  as the code writes them, through \<open>set\<close> and the ring loop, implement it over any run.
\<close>

section \<open>The register file\<close>

datatype reg_kind = RkChar | RkLine

record register_cell =
  cell_text :: ustring
  cell_kind :: reg_kind

record registers =
  cells :: "uchar \<Rightarrow> register_cell option"
  generation :: nat

definition registers_new :: registers where
  "registers_new = \<lparr>cells = Map.empty, generation = 0\<rparr>"

abbreviation BLACK_HOLE :: uchar where
  "BLACK_HOLE \<equiv> uc CHR ''_''"

abbreviation UNNAMED :: uchar where
  "UNNAMED \<equiv> uc CHR 0x22"

abbreviation SMALL_DELETE :: uchar where
  "SMALL_DELETE \<equiv> uc CHR ''-''"

definition reg_set :: "uchar \<Rightarrow> ustring \<Rightarrow> reg_kind \<Rightarrow> registers \<Rightarrow> registers" where
  "reg_set name tx kind r =
     r\<lparr>generation := generation r + 1,
       cells := (cells r)(name \<mapsto> \<lparr>cell_text = tx, cell_kind = kind\<rparr>)\<rparr>"

definition append_cell ::
  "uchar \<Rightarrow> ustring \<Rightarrow> reg_kind \<Rightarrow> registers \<Rightarrow> ustring \<times> reg_kind" where
  "append_cell name tx kind r =
     (let (buf, was_line) = (case cells r name of
            Some cell \<Rightarrow> (cell_text cell, cell_kind cell = RkLine)
          | None \<Rightarrow> ([], False));
          is_line = (kind = RkLine);
          buf = (if \<not> was_line \<and> is_line \<and> buf \<noteq> [] then buf @ [10] else buf);
          buf = buf @ tx;
          buf = (if was_line \<and> \<not> is_line then buf @ [10] else buf);
          merged = (if was_line \<or> kind = RkLine then RkLine else kind)
      in (buf, merged))"

definition write_named :: "uchar \<Rightarrow> ustring \<Rightarrow> reg_kind \<Rightarrow> registers \<Rightarrow> registers" where
  "write_named name tx kind r =
     (if is_ascii_uppercase name
      then let lower = to_ascii_lowercase name; (buf, merged) = append_cell lower tx kind r
           in reg_set UNNAMED buf merged (reg_set lower buf merged r)
      else reg_set UNNAMED tx kind (reg_set name tx kind r))"

text \<open>\<open>char::from_digit(n, 10)\<close>\<close>

definition digit :: "nat \<Rightarrow> uchar" where
  "digit n = 48 + n"

definition shift_one :: "nat \<Rightarrow> registers \<Rightarrow> registers" where
  "shift_one n r =
     (case cells r (digit n) of
        Some cell \<Rightarrow> reg_set (digit (n + 1)) (cell_text cell) (cell_kind cell) r
      | None \<Rightarrow> r)"

definition shift_ring :: "ustring \<Rightarrow> reg_kind \<Rightarrow> registers \<Rightarrow> registers" where
  "shift_ring tx kind r = reg_set (digit 1) tx kind (fold shift_one (rev [1..<9]) r)"

definition record_yank :: "uchar option \<Rightarrow> ustring \<Rightarrow> reg_kind \<Rightarrow> registers \<Rightarrow> registers" where
  "record_yank reg tx kind r =
     (case reg of
        Some name \<Rightarrow> if name = BLACK_HOLE then r else write_named name tx kind r
      | None \<Rightarrow> reg_set UNNAMED tx kind (reg_set (digit 0) tx kind r))"

definition multiline :: "ustring \<Rightarrow> reg_kind \<Rightarrow> bool" where
  "multiline tx kind \<longleftrightarrow> kind = RkLine \<or> 10 \<in> set tx"

definition record_delete ::
  "uchar option \<Rightarrow> ustring \<Rightarrow> reg_kind \<Rightarrow> bool \<Rightarrow> registers \<Rightarrow> registers" where
  "record_delete reg tx kind reg_one r =
     (case reg of
        Some name \<Rightarrow>
          if name = BLACK_HOLE then r
          else write_named name tx kind
                 (if is_ascii_alphabetic name \<and> (multiline tx kind \<or> reg_one)
                  then shift_ring tx kind r else r)
      | None \<Rightarrow>
          (let r = (if multiline tx kind \<or> reg_one then shift_ring tx kind r else r);
               r = (if \<not> multiline tx kind then reg_set SMALL_DELETE tx kind r else r)
           in reg_set UNNAMED tx kind r))"

definition reg_get :: "uchar option \<Rightarrow> registers \<Rightarrow> register_cell option" where
  "reg_get reg r =
     cells r (to_ascii_lowercase (case reg of Some c \<Rightarrow> c | None \<Rightarrow> UNNAMED))"

definition reg_peek :: "uchar \<Rightarrow> registers \<Rightarrow> register_cell option" where
  "reg_peek name r = cells r name"

definition set_api :: "uchar \<Rightarrow> ustring \<Rightarrow> reg_kind \<Rightarrow> bool \<Rightarrow> registers \<Rightarrow> registers" where
  "set_api name tx kind app r =
     (if name = BLACK_HOLE then r
      else let name = to_ascii_lowercase name in
        if app then (let (buf, merged) = append_cell name tx kind r in reg_set name buf merged r)
        else reg_set name tx kind r)"

section \<open>The specification\<close>

type_synonym register_file = "uchar \<Rightarrow> register_cell option"

text \<open>Appending: a linewise register holds whole lines, so mixing kinds closes the charwise part
  with a line break.\<close>

definition appended :: "register_cell option \<Rightarrow> register_cell \<Rightarrow> register_cell" where
  "appended old new =
     (case old of
        None \<Rightarrow> new
      | Some c \<Rightarrow>
          (case (cell_kind c, cell_kind new) of
             (RkChar, RkLine) \<Rightarrow>
               \<lparr>cell_text = (if cell_text c = [] then [] else cell_text c @ [10]) @ cell_text new,
                cell_kind = RkLine\<rparr>
           | (RkLine, RkChar) \<Rightarrow>
               \<lparr>cell_text = cell_text c @ cell_text new @ [10], cell_kind = RkLine\<rparr>
           | (k, _) \<Rightarrow> \<lparr>cell_text = cell_text c @ cell_text new, cell_kind = k\<rparr>))"

text \<open>The ring after a shift: the new text in \<open>"1\<close>, and each of \<open>"2\<close> to \<open>"9\<close> the text of the
  register before it, where that one was ever written.\<close>

definition ring_shifted :: "register_cell \<Rightarrow> register_file \<Rightarrow> register_file" where
  "ring_shifted x f = (\<lambda>c.
     if c = digit 1 then Some x
     else if digit 2 \<le> c \<and> c \<le> digit 9 \<and> f (c - 1) \<noteq> None then f (c - 1)
     else f c)"

definition named_written :: "uchar \<Rightarrow> register_cell \<Rightarrow> register_file \<Rightarrow> register_file" where
  "named_written name x f =
     (let target = to_ascii_lowercase name;
          y = (if is_ascii_uppercase name then appended (f target) x else x)
      in (\<lambda>c. if c = target \<or> c = UNNAMED then Some y else f c))"

datatype reg_op =
    RegYank "uchar option" ustring reg_kind
  | RegDelete "uchar option" ustring reg_kind bool
  | RegApi uchar ustring reg_kind bool

fun reg_step :: "registers \<Rightarrow> reg_op \<Rightarrow> registers" where
  "reg_step r (RegYank reg tx kind) = record_yank reg tx kind r"
| "reg_step r (RegDelete reg tx kind one) = record_delete reg tx kind one r"
| "reg_step r (RegApi name tx kind app) = set_api name tx kind app r"

fun reg_spec :: "register_file \<Rightarrow> reg_op \<Rightarrow> register_file" where
  "reg_spec f (RegYank reg tx kind) =
     (let x = \<lparr>cell_text = tx, cell_kind = kind\<rparr> in
      case reg of
        None \<Rightarrow> (\<lambda>c. if c = digit 0 \<or> c = UNNAMED then Some x else f c)
      | Some name \<Rightarrow> if name = BLACK_HOLE then f else named_written name x f)"
| "reg_spec f (RegDelete reg tx kind one) =
     (let x = \<lparr>cell_text = tx, cell_kind = kind\<rparr>;
          many = multiline tx kind;
          ring = (many \<or> one)
      in case reg of
           None \<Rightarrow> (\<lambda>c. if c = UNNAMED \<or> (c = SMALL_DELETE \<and> \<not> many) then Some x
                        else (if ring then ring_shifted x f else f) c)
         | Some name \<Rightarrow>
             if name = BLACK_HOLE then f
             else named_written name x
                    (if is_ascii_alphabetic name \<and> ring then ring_shifted x f else f))"
| "reg_spec f (RegApi name tx kind app) =
     (let x = \<lparr>cell_text = tx, cell_kind = kind\<rparr>; target = to_ascii_lowercase name in
      if name = BLACK_HOLE then f
      else f(target \<mapsto> (if app then appended (f target) x else x)))"

section \<open>The operations meet the specification\<close>

lemma cells_set [simp]:
  "cells (reg_set name tx kind r) = (cells r)(name \<mapsto> \<lparr>cell_text = tx, cell_kind = kind\<rparr>)"
  by (simp add: reg_set_def)

interpretation rs: update_store cells "\<lambda>name x. reg_set name (cell_text x) (cell_kind x)"
  by unfold_locales simp

lemma append_cell_spec:
  "append_cell name tx kind r =
     (let y = appended (cells r name) \<lparr>cell_text = tx, cell_kind = kind\<rparr>
      in (cell_text y, cell_kind y))"
  by (cases kind; cases "cells r name"; cases "cell_kind (the (cells r name))")
     (auto simp: append_cell_def appended_def Let_def)

lemma write_named_spec:
  "cells (write_named name tx kind r) =
     named_written name \<lparr>cell_text = tx, cell_kind = kind\<rparr> (cells r)"
  by (rule ext)
     (simp add: write_named_def named_written_def append_cell_spec Let_def)

lemma shift_one_cells:
  "cells (shift_one n r) = (\<lambda>c. if c = digit (n + 1) \<and> cells r (digit n) \<noteq> None
     then cells r (digit n) else cells r c)"
  by (rule ext) (simp add: shift_one_def split: option.splits)

lemma shift_down:
  "m \<le> 8 \<Longrightarrow> cells (fold shift_one (rev [1..<Suc m]) r) =
     (\<lambda>c. if digit 2 \<le> c \<and> c \<le> digit (m + 1) \<and> cells r (c - 1) \<noteq> None
          then cells r (c - 1) else cells r c)"
proof (induction m arbitrary: r)
  case 0
  then show ?case by (auto simp: digit_def fun_eq_iff)
next
  case (Suc m)
  have "rev [1..<Suc (Suc m)] = Suc m # rev [1..<Suc m]" by simp
  then have "cells (fold shift_one (rev [1..<Suc (Suc m)]) r) =
      cells (fold shift_one (rev [1..<Suc m]) (shift_one (Suc m) r))" by simp
  also have "\<dots> = (\<lambda>c. if digit 2 \<le> c \<and> c \<le> digit (m + 1) \<and> cells (shift_one (Suc m) r) (c - 1) \<noteq> None
      then cells (shift_one (Suc m) r) (c - 1) else cells (shift_one (Suc m) r) c)"
    using Suc by simp
  also have "\<dots> = (\<lambda>c. if digit 2 \<le> c \<and> c \<le> digit (Suc m + 1) \<and> cells r (c - 1) \<noteq> None
      then cells r (c - 1) else cells r c)"
    by (rule ext) (auto simp: shift_one_cells digit_def)
  finally show ?case .
qed

lemma shift_ring_spec:
  "cells (shift_ring tx kind r) = ring_shifted \<lparr>cell_text = tx, cell_kind = kind\<rparr> (cells r)"
proof -
  have "rev [1..<9] = rev [1..<Suc 8]" by simp
  then show ?thesis
    using shift_down[of 8 r]
    by (intro ext) (simp add: shift_ring_def ring_shifted_def digit_def del: upt_Suc)
qed

lemma reg_step_spec: "cells (reg_step r op) = reg_spec (cells r) op"
proof (cases op)
  case (RegYank reg tx kind)
  then show ?thesis
    by (intro ext) (auto simp: record_yank_def write_named_spec Let_def split: option.splits)
next
  case (RegDelete reg tx kind one)
  then show ?thesis
    by (intro ext)
       (auto simp: record_delete_def write_named_spec shift_ring_spec Let_def split: option.splits)
next
  case (RegApi name tx kind app)
  then show ?thesis
    by (intro ext) (auto simp: set_api_def append_cell_spec Let_def)
qed

interpretation rf: simulation reg_step "\<lambda>r. True" cells reg_spec
  by unfold_locales (simp_all add: reg_step_spec)

text \<open>
  C10. Registers hold what vim's rules say, over any history of yanks, deletes and \<open>setreg\<close>
  calls: the unnamed register mirrors named writes, a yank fills \<open>"0\<close> and never the delete ring,
  a multi-line delete shifts \<open>"1\<close> to \<open>"9\<close>, a small one fills \<open>"-\<close>, an uppercase name appends
  (linewise winning), and the black hole keeps nothing.
\<close>
theorem registers_refine:
  "cells (foldl reg_step r ops) = foldl reg_spec (cells r) ops"
  by (rule rf.run_sim) simp

section \<open>The mirror's generation\<close>

lemma generation_set [simp]: "generation (reg_set name tx kind r) = generation r + 1"
  by (simp add: reg_set_def)

lemma generation_shift: "generation r \<le> generation (fold shift_one ns r)"
proof (induction ns arbitrary: r)
  case (Cons n ns)
  have "generation r \<le> generation (shift_one n r)" by (simp add: shift_one_def split: option.splits)
  with Cons[of "shift_one n r"] show ?case by simp
qed simp

lemma generation_ring: "generation r < generation (shift_ring tx kind r)"
  using generation_shift[of r "rev [1..<9]"] by (simp add: shift_ring_def del: upt_Suc)

lemma generation_write: "generation r < generation (write_named name tx kind r)"
  by (simp add: write_named_def Let_def split: prod.splits)

lemma generation_step: "reg_step r op = r \<or> generation r < generation (reg_step r op)"
proof (cases op)
  case (RegDelete reg tx kind one)
  with generation_ring[of r tx kind] generation_write[of r] generation_write[of "shift_ring tx kind r"]
  show ?thesis
    by (fastforce simp: record_delete_def Let_def split: option.splits intro: order.strict_trans)
qed (auto simp: record_yank_def set_api_def Let_def generation_write split: option.splits prod.splits)

text \<open>
  The mirror may trust the generation: over any history of operations it never decreases,
  and if it is what it was, no register changed in between.
\<close>
theorem generation_sound:
  "generation r \<le> generation (foldl reg_step r ops) \<and>
   (generation (foldl reg_step r ops) = generation r \<longrightarrow> foldl reg_step r ops = r)"
proof (induction ops arbitrary: r)
  case (Cons op ops)
  from generation_step[of r op] Cons[of "reg_step r op"] Cons[of r] show ?case by fastforce
qed simp

theorem generation_sound_witness:
  "foldl reg_step registers_new [RegYank (Some BLACK_HOLE) (us ''x'') RkChar] = registers_new"
proof -
  have "generation (foldl reg_step registers_new [RegYank (Some BLACK_HOLE) (us ''x'') RkChar]) =
      generation registers_new"
    by (simp add: record_yank_def)
  then show ?thesis
    using generation_sound[of registers_new "[RegYank (Some BLACK_HOLE) (us ''x'') RkChar]"] by blast
qed

end
