(* ===== verification/Cwd.thy ===== *)
theory Cwd
  imports Prelude
begin

text \<open>
  The three-scope working directory of \<open>crates/bemtvi-server/src/cwd.rs\<close>: \<open>:cd\<close>, \<open>:tcd\<close> and
  \<open>:lcd\<close>, the optimistic move a remote session makes before its daemon answers, and its
  confirmation, rollback and deferred installation. A path is its text (the stored ones are
  canonical, so equal paths are equal texts); the empty path is the default.
\<close>

datatype cd_scope = ScopeWindow | ScopeTabpage | ScopeGlobal

fun scope_pattern :: "cd_scope \<Rightarrow> ustring" where
  "scope_pattern ScopeWindow = us ''window''"
| "scope_pattern ScopeTabpage = us ''tabpage''"
| "scope_pattern ScopeGlobal = us ''global''"

record dir_entry =
  dir :: ustring
  prev :: "ustring option"

definition entry_default :: dir_entry where
  "entry_default = \<lparr>dir = [], prev = None\<rparr>"

record dir_state =
  global_dir :: dir_entry
  win_dirs :: "nat \<Rightarrow> dir_entry option"
  tab_dirs :: "nat \<Rightarrow> dir_entry option"

record cd_slots =
  slot_win :: "dir_entry option"
  slot_tab :: "dir_entry option"
  slot_global :: dir_entry

record cd_undo =
  undo_scope :: cd_scope
  undo_win :: nat
  undo_tab :: nat
  optimistic :: ustring
  before_slots :: cd_slots
  after_slots :: cd_slots

definition dir_state_new :: "ustring \<Rightarrow> dir_state" where
  "dir_state_new start =
     \<lparr>global_dir = \<lparr>dir = start, prev = None\<rparr>, win_dirs = Map.empty, tab_dirs = Map.empty\<rparr>"

definition effective :: "nat \<Rightarrow> nat \<Rightarrow> dir_state \<Rightarrow> cd_scope \<times> ustring" where
  "effective w tb s =
     (case win_dirs s w of
        Some e \<Rightarrow> (ScopeWindow, dir e)
      | None \<Rightarrow>
          (case tab_dirs s tb of
             Some e \<Rightarrow> (ScopeTabpage, dir e)
           | None \<Rightarrow> (ScopeGlobal, dir (global_dir s))))"

definition prev_dir :: "cd_scope \<Rightarrow> nat \<Rightarrow> nat \<Rightarrow> dir_state \<Rightarrow> ustring option" where
  "prev_dir sc w tb s =
     (case sc of
        ScopeGlobal \<Rightarrow> prev (global_dir s)
      | ScopeTabpage \<Rightarrow> Option.bind (tab_dirs s tb) prev
      | ScopeWindow \<Rightarrow> Option.bind (win_dirs s w) prev)"

definition set_local :: "dir_entry \<Rightarrow> ustring \<Rightarrow> dir_entry" where
  "set_local e new_dir =
     (let old = dir e; e = e\<lparr>dir := new_dir\<rparr> in
      if old \<noteq> [] then e\<lparr>prev := Some old\<rparr> else e)"

definition or_default :: "dir_entry option \<Rightarrow> dir_entry" where
  "or_default e = (case e of Some e \<Rightarrow> e | None \<Rightarrow> entry_default)"

definition set_global :: "ustring \<Rightarrow> dir_entry \<Rightarrow> dir_entry" where
  "set_global new_dir e = e\<lparr>prev := Some (dir e), dir := new_dir\<rparr>"

definition set_dir :: "cd_scope \<Rightarrow> nat \<Rightarrow> nat \<Rightarrow> ustring \<Rightarrow> dir_state \<Rightarrow> dir_state" where
  "set_dir sc w tb new_dir s =
     (case sc of
        ScopeGlobal \<Rightarrow>
          s\<lparr>win_dirs := (win_dirs s)(w := None), tab_dirs := (tab_dirs s)(tb := None),
            global_dir := set_global new_dir (global_dir s)\<rparr>
      | ScopeTabpage \<Rightarrow>
          s\<lparr>win_dirs := (win_dirs s)(w := None),
            tab_dirs := (tab_dirs s)(tb \<mapsto> set_local (or_default (tab_dirs s tb)) new_dir)\<rparr>
      | ScopeWindow \<Rightarrow>
          s\<lparr>win_dirs := (win_dirs s)(w \<mapsto> set_local (or_default (win_dirs s w)) new_dir)\<rparr>)"

definition slots :: "nat \<Rightarrow> nat \<Rightarrow> dir_state \<Rightarrow> cd_slots" where
  "slots w tb s =
     \<lparr>slot_win = win_dirs s w, slot_tab = tab_dirs s tb, slot_global = global_dir s\<rparr>"

definition set_optimistic ::
  "cd_scope \<Rightarrow> nat \<Rightarrow> nat \<Rightarrow> ustring \<Rightarrow> dir_state \<Rightarrow> cd_undo \<times> dir_state" where
  "set_optimistic sc w tb new_dir s =
     (let s' = set_dir sc w tb new_dir s in
      (\<lparr>undo_scope = sc, undo_win = w, undo_tab = tb, optimistic = new_dir,
        before_slots = slots w tb s, after_slots = slots w tb s'\<rparr>, s'))"

definition set_deferred ::
  "cd_scope \<Rightarrow> nat \<Rightarrow> nat \<Rightarrow> ustring \<Rightarrow> cd_slots \<Rightarrow> bool \<times> bool \<Rightarrow> dir_state \<Rightarrow> bool \<times> dir_state"
where
  "set_deferred sc w tb new_dir before = (\<lambda>(win_alive, tab_alive) s.
     let win_same = (win_alive \<and> win_dirs s w = slot_win before);
         tab_same = (tab_alive \<and> tab_dirs s tb = slot_tab before);
         clear_win = (\<lambda>s. if win_same then s\<lparr>win_dirs := (win_dirs s)(w := None)\<rparr> else s);
         clear_tab = (\<lambda>s. if tab_same then s\<lparr>tab_dirs := (tab_dirs s)(tb := None)\<rparr> else s)
     in case sc of
          ScopeWindow \<Rightarrow>
            if \<not> win_same then (False, s)
            else (True, s\<lparr>win_dirs := (win_dirs s)(w \<mapsto> set_local (or_default (win_dirs s w)) new_dir)\<rparr>)
        | ScopeTabpage \<Rightarrow>
            if \<not> tab_same then (False, s)
            else (let s = clear_win s in
              (True, s\<lparr>tab_dirs := (tab_dirs s)(tb \<mapsto> set_local (or_default (tab_dirs s tb)) new_dir)\<rparr>))
        | ScopeGlobal \<Rightarrow>
            if global_dir s \<noteq> slot_global before then (False, s)
            else (let s = clear_tab (clear_win s) in
              (True, s\<lparr>global_dir := set_global new_dir (global_dir s)\<rparr>)))"

definition dir_at :: "cd_scope \<Rightarrow> nat \<Rightarrow> nat \<Rightarrow> dir_state \<Rightarrow> ustring option" where
  "dir_at sc w tb s =
     (case sc of
        ScopeGlobal \<Rightarrow> Some (dir (global_dir s))
      | ScopeTabpage \<Rightarrow> map_option dir (tab_dirs s tb)
      | ScopeWindow \<Rightarrow> map_option dir (win_dirs s w))"

definition confirm_optimistic :: "cd_undo \<Rightarrow> ustring \<Rightarrow> dir_state \<Rightarrow> bool \<times> dir_state" where
  "confirm_optimistic u canon s =
     (let entry = (case undo_scope u of
            ScopeGlobal \<Rightarrow> Some (global_dir s)
          | ScopeTabpage \<Rightarrow> tab_dirs s (undo_tab u)
          | ScopeWindow \<Rightarrow> win_dirs s (undo_win u))
      in case entry of
           Some e \<Rightarrow>
             if dir e = optimistic u
             then let e = e\<lparr>dir := canon\<rparr> in
               (True, case undo_scope u of
                  ScopeGlobal \<Rightarrow> s\<lparr>global_dir := e\<rparr>
                | ScopeTabpage \<Rightarrow> s\<lparr>tab_dirs := (tab_dirs s)(undo_tab u \<mapsto> e)\<rparr>
                | ScopeWindow \<Rightarrow> s\<lparr>win_dirs := (win_dirs s)(undo_win u \<mapsto> e)\<rparr>)
             else (False, s)
         | None \<Rightarrow> (False, s))"

definition rollback_optimistic :: "cd_undo \<Rightarrow> dir_state \<Rightarrow> bool \<times> dir_state" where
  "rollback_optimistic u s =
     (if dir_at (undo_scope u) (undo_win u) (undo_tab u) s \<noteq> Some (optimistic u) then (False, s)
      else
        let w = undo_win u; tb = undo_tab u;
            s = (if win_dirs s w = slot_win (after_slots u)
                 then s\<lparr>win_dirs := (win_dirs s)(w := slot_win (before_slots u))\<rparr> else s);
            s = (if tab_dirs s tb = slot_tab (after_slots u)
                 then s\<lparr>tab_dirs := (tab_dirs s)(tb := slot_tab (before_slots u))\<rparr> else s);
            s = (if global_dir s = slot_global (after_slots u)
                 then s\<lparr>global_dir := slot_global (before_slots u)\<rparr> else s)
        in (True, s))"

definition forget_window :: "nat \<Rightarrow> dir_state \<Rightarrow> dir_state" where
  "forget_window w s = s\<lparr>win_dirs := (win_dirs s)(w := None)\<rparr>"

definition forget_tab :: "nat \<Rightarrow> dir_state \<Rightarrow> dir_state" where
  "forget_tab tb s = s\<lparr>tab_dirs := (tab_dirs s)(tb := None)\<rparr>"

section \<open>A directory change takes effect, for its window\<close>

lemmas cd_simps =
  set_dir_def set_optimistic_def effective_def prev_dir_def slots_def dir_at_def set_local_def
  set_global_def or_default_def entry_default_def Let_def

lemma set_local_dir [simp]: "dir (set_local e d) = d"
  by (simp add: set_local_def Let_def)

text \<open>
  After \<open>:cd\<close>, \<open>:tcd\<close> or \<open>:lcd\<close> the new directory is the effective one where the command ran,
  under that command's scope, whatever overrides stood before; and a window of another tab sees
  it exactly when the command was \<open>:cd\<close> and neither it nor its tab has a directory of its own.
\<close>
theorem set_takes_effect:
  "effective w tb (set_dir sc w tb d s) = (sc, d) \<and>
   (w' \<noteq> w \<longrightarrow> tb' \<noteq> tb \<longrightarrow>
      effective w' tb' (set_dir sc w tb d s) =
        (if sc = ScopeGlobal \<and> fst (effective w' tb' s) = ScopeGlobal then (ScopeGlobal, d)
         else effective w' tb' s))"
  by (cases sc)
     (auto simp: set_dir_def effective_def set_global_def split: option.splits)

theorem set_takes_effect_witness:
  "effective 2 2 (set_dir ScopeTabpage 1 1 (us ''/b'') (dir_state_new (us ''/a''))) =
     (ScopeGlobal, us ''/a'')"
proof -
  have "effective 2 2 (dir_state_new (us ''/a'')) = (ScopeGlobal, us ''/a'')"
    by (simp add: effective_def dir_state_new_def)
  then show ?thesis
    using set_takes_effect[of 1 1 ScopeTabpage "us ''/b''" "dir_state_new (us ''/a'')" 2 2] by simp
qed

section \<open>The optimistic protocol\<close>

lemma entry_update_order [simp]: "e\<lparr>prev := p, dir := d\<rparr> = e\<lparr>dir := d, prev := p\<rparr>"
  by simp

lemma upd_self [simp]: "f x = y \<Longrightarrow> f(x := y) = f"
  by auto

lemma confirm_set:
  "confirm_optimistic (fst (set_optimistic sc w tb d s)) canon (set_dir sc w tb d s) =
     (True, set_dir sc w tb canon s)"
  by (cases sc) (auto simp: confirm_optimistic_def cd_simps split: option.splits)

lemma rollback_set:
  "rollback_optimistic (fst (set_optimistic sc w tb d s)) (set_dir sc w tb d s) = (True, s)"
  by (cases sc) (auto simp: rollback_optimistic_def cd_simps split: option.splits)

text \<open>A later change by another window and tab.\<close>

lemma set_commute:
  assumes "w' \<noteq> w" and "tb' \<noteq> tb" and "sc' \<noteq> ScopeGlobal"
  shows "set_dir sc' w' tb' d' (set_dir sc w tb d s) = set_dir sc w tb d (set_dir sc' w' tb' d' s)"
  using assms by (cases sc; cases sc') (auto simp: set_dir_def fun_upd_twist)

lemma slots_other:
  assumes "w' \<noteq> w" and "tb' \<noteq> tb" and "sc' \<noteq> ScopeGlobal"
  shows "slots w tb (set_dir sc' w' tb' d' s) = slots w tb s"
  using assms by (cases sc') (auto simp: set_dir_def slots_def)

lemma optimistic_token_other:
  assumes "w' \<noteq> w" and "tb' \<noteq> tb" and "sc' \<noteq> ScopeGlobal"
  shows "fst (set_optimistic sc w tb d (set_dir sc' w' tb' d' s)) = fst (set_optimistic sc w tb d s)"
  using slots_other[OF assms, of d' "set_dir sc w tb d s"] set_commute[OF assms, of d' sc d s]
  by (simp add: set_optimistic_def Let_def slots_other[OF assms])

text \<open>
  C11. A rejected remote \<open>:cd\<close> leaves no trace, and an accepted one is a plain \<open>:cd\<close> to the
  canonical directory: rolling the optimistic move back gives exactly the state without it, and
  confirming it the state of setting the canonical directory directly - also when another window
  in another tab changed its own directory while the answer was on its way.
\<close>
theorem optimistic_protocol:
  assumes "w' \<noteq> w" and "tb' \<noteq> tb" and "sc' \<noteq> ScopeGlobal"
    and "set_optimistic sc w tb d s = (u, s1)" and "s2 = set_dir sc' w' tb' d' s1"
  shows "rollback_optimistic u s2 = (True, set_dir sc' w' tb' d' s) \<and>
    confirm_optimistic u canon s2 = (True, set_dir sc' w' tb' d' (set_dir sc w tb canon s)) \<and>
    rollback_optimistic u s1 = (True, s) \<and>
    confirm_optimistic u canon s1 = (True, set_dir sc w tb canon s)"
proof -
  from assms(4) have u: "u = fst (set_optimistic sc w tb d s)" and s1: "s1 = set_dir sc w tb d s"
    by (auto simp: set_optimistic_def Let_def)
  let ?s = "set_dir sc' w' tb' d' s"
  have s2: "s2 = set_dir sc w tb d ?s" unfolding assms(5) s1 by (rule set_commute[OF assms(1-3)])
  have u': "u = fst (set_optimistic sc w tb d ?s)"
    unfolding u by (rule optimistic_token_other[OF assms(1-3), symmetric])
  show ?thesis
    using rollback_set[of sc w tb d ?s] confirm_set[of sc w tb d ?s canon]
      rollback_set[of sc w tb d s] confirm_set[of sc w tb d s canon]
      set_commute[OF assms(1-3), of d' sc canon s]
    unfolding s2 u'[symmetric] s1 u[symmetric] by simp
qed

theorem optimistic_protocol_witness:
  "rollback_optimistic (fst (set_optimistic ScopeGlobal 1 1 (us ''/b'') (dir_state_new (us ''/a''))))
     (set_dir ScopeWindow 2 2 (us ''/c'')
        (snd (set_optimistic ScopeGlobal 1 1 (us ''/b'') (dir_state_new (us ''/a''))))) =
   (True, set_dir ScopeWindow 2 2 (us ''/c'') (dir_state_new (us ''/a'')))"
proof -
  have "(2::nat) \<noteq> 1" "ScopeWindow \<noteq> ScopeGlobal" by simp_all
  from optimistic_protocol[OF this(1) this(1) this(2) prod.collapse[symmetric] refl]
  show ?thesis by blast
qed

text \<open>
  A deferred \<open>:cd\<close> whose slots are as they were when it was issued is the \<open>:cd\<close> itself; if
  the slot it targets changed meanwhile, or its window or tab is gone, it changes nothing.
\<close>
theorem deferred_install:
  "set_deferred sc w tb d (slots w tb s) (True, True) s = (True, set_dir sc w tb d s) \<and>
   (sc = ScopeWindow \<and> (\<not> wa \<or> win_dirs s w \<noteq> slot_win b) \<or>
    sc = ScopeTabpage \<and> (\<not> ta \<or> tab_dirs s tb \<noteq> slot_tab b) \<or>
    sc = ScopeGlobal \<and> global_dir s \<noteq> slot_global b \<longrightarrow>
      set_deferred sc w tb d b (wa, ta) s = (False, s))"
  by (cases sc) (auto simp: set_deferred_def cd_simps)

theorem deferred_install_witness:
  "set_deferred ScopeWindow 1 1 (us ''/b'') (slots 1 1 (dir_state_new (us ''/a''))) (False, True)
     (dir_state_new (us ''/a'')) = (False, dir_state_new (us ''/a''))"
  using deferred_install[of ScopeWindow 1 1 "us ''/b''" "dir_state_new (us ''/a'')" False
    "slots 1 1 (dir_state_new (us ''/a''))" True] by blast

section \<open>Local directories are real\<close>

text \<open>No scope ever holds the empty default, as long as the commands are given real directories.\<close>

definition dirs_real :: "dir_state \<Rightarrow> bool" where
  "dirs_real s \<longleftrightarrow>
     dir (global_dir s) \<noteq> [] \<and> (\<forall>w e. win_dirs s w = Some e \<longrightarrow> dir e \<noteq> []) \<and>
     (\<forall>tb e. tab_dirs s tb = Some e \<longrightarrow> dir e \<noteq> [])"

datatype cd_op = CdSet cd_scope nat nat uchar ustring | CdForgetWindow nat | CdForgetTab nat

fun cd_step :: "dir_state \<Rightarrow> cd_op \<Rightarrow> dir_state" where
  "cd_step s (CdSet sc w tb c d) = set_dir sc w tb (c # d) s"
| "cd_step s (CdForgetWindow w) = forget_window w s"
| "cd_step s (CdForgetTab tb) = forget_tab tb s"

interpretation cd: guarded_system cd_step dirs_real
proof
  fix s op
  assume "dirs_real s"
  then show "dirs_real (cd_step s op)"
    by (cases op; cases "case op of CdSet sc _ _ _ _ \<Rightarrow> sc | _ \<Rightarrow> ScopeGlobal")
       (auto simp: dirs_real_def set_dir_def set_global_def forget_window_def forget_tab_def)
qed

end
