(* ===== verification/Ordered_Map.thy ===== *)
theory Ordered_Map
  imports Prelude "HOL-Library.Multiset"
begin

text \<open>
  A Rust \<open>BTreeMap\<close> as an association list sorted by key: insertion, removal and update in place,
  a keyed store (\<open>update_store\<close>) whose keys stay sorted and distinct.
\<close>

section \<open>Operations\<close>

text \<open>\<open>BTreeMap::insert\<close> and \<open>remove\<close> on a sorted association list.\<close>

fun bt_insert :: "'k::linorder \<Rightarrow> 'v \<Rightarrow> ('k \<times> 'v) list \<Rightarrow> ('k \<times> 'v) list" where
  "bt_insert k v [] = [(k, v)]"
| "bt_insert k v ((j, w) # xs) =
     (if k < j then (k, v) # (j, w) # xs
      else if k = j then (k, v) # xs
      else (j, w) # bt_insert k v xs)"

definition bt_remove :: "'k \<Rightarrow> ('k \<times> 'v) list \<Rightarrow> ('k \<times> 'v) list" where
  "bt_remove k xs = filter (\<lambda>(j, w). j \<noteq> k) xs"

section \<open>Lookups, keys and order\<close>

abbreviation keys_sorted :: "('k::linorder \<times> 'v) list \<Rightarrow> bool" where
  "keys_sorted xs \<equiv> sorted_wrt (<) (map fst xs)"

lemma keys_sorted_distinct: "keys_sorted xs \<Longrightarrow> distinct (map fst xs)"
  by (simp add: strict_sorted_iff)

lemma bt_insert_keys: "set (map fst (bt_insert k v xs)) = insert k (set (map fst xs))"
  by (induction k v xs rule: bt_insert.induct) auto

lemma bt_insert_sorted: "keys_sorted xs \<Longrightarrow> keys_sorted (bt_insert k v xs)"
proof (induction xs)
  case (Cons x xs)
  obtain j w where x: "x = (j, w)" by (cases x)
  have "set (map fst (bt_insert k v xs)) = insert k (set (map fst xs))" by (rule bt_insert_keys)
  with Cons x show ?case
    by (cases "k < j"; cases "k = j") (fastforce simp del: set_map)+
qed simp

interpretation bt: update_store map_of bt_insert
proof
  fix k j :: "'k::linorder" and v :: 'v and xs
  show "map_of (bt_insert k v xs) j = (if j = k then Some v else map_of xs j)"
    by (induction k v xs rule: bt_insert.induct) auto
qed

lemma bt_insert_lookup: "keys_sorted xs \<Longrightarrow> map_of (bt_insert k v xs) = (map_of xs)(k \<mapsto> v)"
  by (simp add: fun_eq_iff bt.look_upd)

lemma bt_remove_lookup: "map_of (bt_remove k xs) = (map_of xs)(k := None)"
  by (induction xs) (auto simp: bt_remove_def fun_eq_iff)

lemma bt_remove_sorted: "keys_sorted xs \<Longrightarrow> keys_sorted (bt_remove k xs)"
  by (simp add: bt_remove_def sorted_wrt_map sorted_wrt_filter)

lemma bt_insert_mset:
  "keys_sorted xs \<Longrightarrow> mset (bt_insert k v xs) + mset (case map_of xs k of Some w \<Rightarrow> [(k, w)] | None \<Rightarrow> []) =
   add_mset (k, v) (mset xs)"
proof (induction xs)
  case (Cons x xs)
  obtain j w where x: "x = (j, w)" by (cases x)
  have "map_of xs k = None" if "k < j"
    using Cons.prems that x by (fastforce simp: map_of_eq_None_iff)
  with Cons x show ?case by (auto split: option.splits)
qed simp

lemma bt_remove_mset:
  "distinct (map fst xs) \<Longrightarrow> map_of xs k = Some w \<Longrightarrow> mset xs = add_mset (k, w) (mset (bt_remove k xs))"
proof (induction xs)
  case (Cons x xs)
  show ?case
  proof (cases "fst x = k")
    case True
    with Cons.prems(1) have "bt_remove k xs = xs"
      unfolding bt_remove_def by (intro filter_True) (fastforce simp: image_iff)
    with True Cons.prems show ?thesis by (cases x) (simp add: bt_remove_def)
  next
    case False
    with Cons show ?thesis by (cases x) (simp add: bt_remove_def)
  qed
qed simp

section \<open>In place\<close>

text \<open>\<open>get_mut\<close> and a write through it.\<close>

definition bt_modify :: "'k \<Rightarrow> ('v \<Rightarrow> 'v) \<Rightarrow> ('k \<times> 'v) list \<Rightarrow> ('k \<times> 'v) list" where
  "bt_modify k f xs = map (\<lambda>(j, v). (j, if j = k then f v else v)) xs"

lemma bt_modify_keys [simp]: "map fst (bt_modify k f xs) = map fst xs"
  by (simp add: bt_modify_def split_def comp_def)

lemma bt_modify_lookup:
  "map_of (bt_modify k f xs) j = map_option (\<lambda>v. if j = k then f v else v) (map_of xs j)"
  by (induction xs) (auto simp: bt_modify_def)

lemma bt_remove_keys: "map fst (bt_remove k xs) = filter (\<lambda>j. j \<noteq> k) (map fst xs)"
  by (induction xs) (auto simp: bt_remove_def)

end
