(* ===== verification/Extmark.thy ===== *)
theory Extmark
  imports Ordered_Map "HOL-Library.Product_Lexorder"
begin

text \<open>
  The extmark store of \<open>crates/bemtvi-core/src/extmark.rs\<close>: marks anchored at byte offsets,
  partitioned by namespace, with their gravity under edits, the per-kind counters the view reads,
  the structural stamps, and the lazily built position index with its max-end tree.

  \<^item> A \<open>BTreeMap\<close> is an association list sorted by key, a \<open>HashMap\<close> one with distinct keys whose
    order stands for the map's unspecified order.
  \<^item> The process-wide stamp counter is threaded as the first component of the state.
  \<^item> A \<open>OnceLock\<close> index is an option; a query that fills it is the operation \<open>fill_index\<close>, and
    the answer does not depend on whether it was filled. The max-end tree is built on demand.
  \<^item> The display width of a gutter text (graphemes and their widths, from the unicode crates) is
    the parameter \<open>gw\<close>.
\<close>

section \<open>Marks\<close>

record virt_chunk =
  vc_text :: ustring
  vc_hl_group :: "ustring option"

datatype virt_text_pos = VtEol | VtInline | VtOverlay | VtRightAlign | VtWinCol nat

datatype hl_mode = HlReplace | HlCombine | HlBlend

record virt_decor =
  virt_text :: "virt_chunk list"
  vd_virt_text_pos :: virt_text_pos
  virt_text_hide :: bool
  virt_text_fg_only :: bool
  vd_hl_mode :: hl_mode
  virt_lines :: "virt_chunk list list"
  virt_lines_above :: bool
  sign_text :: "ustring option"
  sign_hl_group :: "ustring option"
  line_fill :: "virt_chunk option"
  line_hl_group :: "ustring option"
  gutter_text :: "virt_chunk list"

record extmark =
  em_id :: nat
  em_start :: nat
  em_end :: "nat option"
  em_hl_group :: "ustring option"
  em_priority :: nat
  em_decor :: "virt_decor option"
  right_gravity :: bool
  end_right_gravity :: bool
  serial :: nat

definition LOWEST_INTERNAL_NS :: nat where
  "LOWEST_INTERNAL_NS = 2 ^ 32 - 1 - 8"

definition is_internal_ns :: "nat \<Rightarrow> bool" where
  "is_internal_ns ns \<longleftrightarrow> LOWEST_INTERNAL_NS \<le> ns"

section \<open>The position index\<close>

record pos_entry =
  pe_start :: nat
  pe_end :: nat
  has_end :: bool
  pe_right_gravity :: bool
  pe_end_right_gravity :: bool
  pe_ns :: nat
  pe_id :: nat

type_synonym pos_key = "nat \<times> nat \<times> nat"

definition pe_key :: "pos_entry \<Rightarrow> pos_key" where
  "pe_key e = (pe_start e, pe_ns e, pe_id e)"

record ns_marks =
  marks :: "(nat \<times> extmark) list"
  ns_gen :: nat
  next_id :: nat
  run :: "pos_entry list option"

record ext_store =
  by_ns :: "(nat \<times> ns_marks) list"
  generation :: nat
  virt_lines_marks :: nat
  gutter_widths :: "(nat \<times> nat) list"
  next_serial :: nat
  index :: "pos_entry list option"

definition ns_default :: ns_marks where
  "ns_default = \<lparr>marks = [], ns_gen = 0, next_id = 0, run = None\<rparr>"

definition store_default :: ext_store where
  "store_default =
     \<lparr>by_ns = [], generation = 0, virt_lines_marks = 0, gutter_widths = [], next_serial = 0,
      index = None\<rparr>"

definition entry_of :: "nat \<Rightarrow> extmark \<Rightarrow> pos_entry" where
  "entry_of ns m =
     \<lparr>pe_start = em_start m,
      pe_end = (case em_end m of Some e \<Rightarrow> e | None \<Rightarrow> em_start m),
      has_end = (em_end m \<noteq> None), pe_right_gravity = right_gravity m,
      pe_end_right_gravity = end_right_gravity m, pe_ns = ns, pe_id = em_id m\<rparr>"

definition positions_build :: "nat \<Rightarrow> ns_marks \<Rightarrow> pos_entry list" where
  "positions_build ns slot = sort_key pe_key (map (entry_of ns) (map snd (marks slot)))"

definition ns_index :: "nat \<Rightarrow> ns_marks \<Rightarrow> pos_entry list" where
  "ns_index ns slot = (case run slot of Some r \<Rightarrow> r | None \<Rightarrow> positions_build ns slot)"

definition positions_merge :: "(nat \<times> ns_marks) list \<Rightarrow> pos_entry list" where
  "positions_merge slots =
     sort_key pe_key (concat (map (\<lambda>(ns, slot). if marks slot \<noteq> [] then ns_index ns slot else []) slots))"

definition store_index :: "ext_store \<Rightarrow> pos_entry list" where
  "store_index s = (case index s of Some ix \<Rightarrow> ix | None \<Rightarrow> positions_merge (by_ns s))"

definition fill_index :: "ext_store \<Rightarrow> ext_store" where
  "fill_index s =
     (case index s of
        Some ix \<Rightarrow> s
      | None \<Rightarrow>
          s\<lparr>index := Some (store_index s),
            by_ns := map (\<lambda>(ns, slot).
              (ns, if marks slot \<noteq> [] then slot\<lparr>run := Some (ns_index ns slot)\<rparr> else slot)) (by_ns s)\<rparr>)"

section \<open>Structural changes\<close>

type_synonym stamped = "nat \<times> ext_store"

definition next_stamp :: "nat \<Rightarrow> nat" where
  "next_stamp stamps = stamps + 1"

definition ns_touch :: "nat \<Rightarrow> ns_marks \<Rightarrow> nat \<times> ns_marks" where
  "ns_touch c slot = (next_stamp c, slot\<lparr>ns_gen := next_stamp c, run := None\<rparr>)"

definition touch_structure :: "stamped \<Rightarrow> stamped" where
  "touch_structure = (\<lambda>(c, s).
     (next_stamp c, s\<lparr>generation := next_stamp c, index := None\<rparr>))"

definition has_virt_lines :: "extmark \<Rightarrow> bool" where
  "has_virt_lines m \<longleftrightarrow> (case em_decor m of Some d \<Rightarrow> virt_lines d \<noteq> [] | None \<Rightarrow> False)"

definition gutter_width :: "(virt_decor \<Rightarrow> nat) \<Rightarrow> extmark \<Rightarrow> nat" where
  "gutter_width gw m = (case em_decor m of Some d \<Rightarrow> gw d | None \<Rightarrow> 0)"

definition count_gutter :: "nat \<Rightarrow> bool \<Rightarrow> (nat \<times> nat) list \<Rightarrow> (nat \<times> nat) list" where
  "count_gutter w add widths =
     (if w = 0 then widths
      else case (add, map_of widths w) of
        (True, Some n) \<Rightarrow> bt_insert w (n + 1) widths
      | (True, None) \<Rightarrow> bt_insert w 1 widths
      | (False, Some n) \<Rightarrow>
          if n - 1 = 0 then bt_remove w widths else bt_insert w (n - 1) widths
      | (False, None) \<Rightarrow> widths)"

definition count_out :: "(virt_decor \<Rightarrow> nat) \<Rightarrow> extmark list \<Rightarrow> (nat \<times> nat) list \<Rightarrow> (nat \<times> nat) list" where
  "count_out gw ms widths = fold (\<lambda>m. count_gutter (gutter_width gw m) False) ms widths"

text \<open>\<open>u64::saturating_add(1)\<close>\<close>

definition succ_sat :: "nat \<Rightarrow> nat" where
  "succ_sat n = (if n < U64_MAX then n + 1 else U64_MAX)"

definition slot_or_default :: "nat \<Rightarrow> ext_store \<Rightarrow> ns_marks" where
  "slot_or_default ns s = (case map_of (by_ns s) ns of Some slot \<Rightarrow> slot | None \<Rightarrow> ns_default)"

definition ext_set_with_gravity ::
  "(virt_decor \<Rightarrow> nat) \<Rightarrow> nat \<Rightarrow> nat option \<Rightarrow> nat \<Rightarrow> nat option \<Rightarrow> ustring option \<Rightarrow> nat
   \<Rightarrow> virt_decor option \<Rightarrow> bool \<Rightarrow> bool \<Rightarrow> stamped \<Rightarrow> nat \<times> stamped" where
  "ext_set_with_gravity gw ns want b_at e_at hl prio dec rg erg st =
     (let (c, s) = touch_structure st;
          slot = slot_or_default ns s;
          (i, slot) = (case want of
             Some i \<Rightarrow> (i, slot\<lparr>next_id := max (next_id slot) (succ_sat i)\<rparr>)
           | None \<Rightarrow> (next_id slot, slot\<lparr>next_id := succ_sat (next_id slot)\<rparr>));
          mark = \<lparr>em_id = i, em_start = b_at, em_end = e_at, em_hl_group = hl, em_priority = prio,
                  em_decor = dec, right_gravity = rg, end_right_gravity = erg,
                  serial = next_serial s + 1\<rparr>;
          widths = count_gutter (gutter_width gw mark) True (gutter_widths s);
          replaced = map_of (marks slot) i;
          widths = (case replaced of
             Some old \<Rightarrow> count_gutter (gutter_width gw old) False widths | None \<Rightarrow> widths);
          lost = (case replaced of Some old \<Rightarrow> has_virt_lines old | None \<Rightarrow> False);
          (c, slot) = ns_touch c (slot\<lparr>marks := bt_insert i mark (marks slot)\<rparr>)
      in (i, c, s\<lparr>by_ns := AList.update ns slot (by_ns s), next_serial := next_serial s + 1,
                  gutter_widths := widths,
                  virt_lines_marks := virt_lines_marks s + of_bool (has_virt_lines mark) - of_bool lost\<rparr>))"

definition ext_set ::
  "(virt_decor \<Rightarrow> nat) \<Rightarrow> nat \<Rightarrow> nat option \<Rightarrow> nat \<Rightarrow> nat option \<Rightarrow> ustring option \<Rightarrow> nat
   \<Rightarrow> virt_decor option \<Rightarrow> stamped \<Rightarrow> nat \<times> stamped" where
  "ext_set gw ns want b_at e_at hl prio dec st =
     ext_set_with_gravity gw ns want b_at e_at hl prio dec True False st"

definition ext_get :: "nat \<Rightarrow> nat \<Rightarrow> ext_store \<Rightarrow> extmark option" where
  "ext_get ns i s = (case map_of (by_ns s) ns of Some slot \<Rightarrow> map_of (marks slot) i | None \<Rightarrow> None)"

definition ext_del :: "(virt_decor \<Rightarrow> nat) \<Rightarrow> nat \<Rightarrow> nat \<Rightarrow> stamped \<Rightarrow> bool \<times> stamped" where
  "ext_del gw ns i st =
     (let (c, s) = touch_structure st in
      case map_of (by_ns s) ns of
        None \<Rightarrow> (False, c, s)
      | Some slot \<Rightarrow>
          (case map_of (marks slot) i of
             None \<Rightarrow> (False, c, s)
           | Some m \<Rightarrow>
               (let (c, slot) = ns_touch c (slot\<lparr>marks := bt_remove i (marks slot)\<rparr>) in
                (True, c, s\<lparr>by_ns := AList.update ns slot (by_ns s),
                            virt_lines_marks := virt_lines_marks s - of_bool (has_virt_lines m),
                            gutter_widths := count_gutter (gutter_width gw m) False (gutter_widths s)\<rparr>))))"

text \<open>\<open>clear\<close>: the marks of the namespace whose start is in the range, all of them without one.\<close>

definition in_range :: "(nat \<times> nat) option \<Rightarrow> extmark \<Rightarrow> bool" where
  "in_range r m = (case r of None \<Rightarrow> True | Some (lo, hi) \<Rightarrow> lo \<le> em_start m \<and> em_start m < hi)"

definition ext_clear ::
  "(virt_decor \<Rightarrow> nat) \<Rightarrow> nat \<Rightarrow> (nat \<times> nat) option \<Rightarrow> stamped \<Rightarrow> stamped" where
  "ext_clear gw ns rng st =
     (let (c, s) = touch_structure st in
      case map_of (by_ns s) ns of
        None \<Rightarrow> (c, s)
      | Some slot \<Rightarrow>
          (let gone = filter (in_range rng) (map snd (marks slot));
               (c, slot) = ns_touch c
                 (slot\<lparr>marks := filter (\<lambda>(i, m). \<not> in_range rng m) (marks slot)\<rparr>)
           in (c, s\<lparr>by_ns := AList.update ns slot (by_ns s),
                    virt_lines_marks := virt_lines_marks s - length (filter has_virt_lines gone),
                    gutter_widths := count_out gw gone (gutter_widths s)\<rparr>)))"

definition ext_clear_all :: "stamped \<Rightarrow> stamped" where
  "ext_clear_all st =
     (let (c, s) = touch_structure st in
      (c, s\<lparr>by_ns := [], virt_lines_marks := 0, gutter_widths := []\<rparr>))"

definition ext_adopt_mark :: "ns_marks option \<Rightarrow> nat \<Rightarrow> nat \<Rightarrow> extmark \<Rightarrow> extmark" where
  "ext_adopt_mark theirs text_len i m =
     (case Option.bind theirs (\<lambda>slot. map_of (marks slot) i) of
        Some snap_mark \<Rightarrow>
          if serial snap_mark = serial m
          then m\<lparr>em_start := em_start snap_mark, em_end := em_end snap_mark\<rparr>
          else (let b = min (em_start m) text_len in
                m\<lparr>em_start := b, em_end := map_option (\<lambda>e. max (min e text_len) b) (em_end m)\<rparr>)
      | None \<Rightarrow>
          (let b = min (em_start m) text_len in
           m\<lparr>em_start := b, em_end := map_option (\<lambda>e. max (min e text_len) b) (em_end m)\<rparr>))"

definition adopt_positions_from :: "ext_store \<Rightarrow> nat \<Rightarrow> nat list \<Rightarrow> stamped \<Rightarrow> stamped" where
  "adopt_positions_from snapshot text_len skip = (\<lambda>(c, s).
     touch_structure (c, s\<lparr>by_ns := map (\<lambda>(ns, slot).
       (ns, if ns \<in> set skip then slot
            else slot\<lparr>run := None,
                      marks := map (\<lambda>(i, m).
                        (i, ext_adopt_mark (map_of (by_ns snapshot) ns) text_len i m)) (marks slot)\<rparr>))
       (by_ns s)\<rparr>))"

text \<open>\<open>move_namespace_into\<close> acts on two stores under one stamp counter.\<close>

definition drop_slot :: "(virt_decor \<Rightarrow> nat) \<Rightarrow> nat \<Rightarrow> ext_store \<Rightarrow> ext_store" where
  "drop_slot gw ns s =
     (case map_of (by_ns s) ns of
        None \<Rightarrow> s
      | Some slot \<Rightarrow>
          s\<lparr>by_ns := AList.delete ns (by_ns s),
            virt_lines_marks := virt_lines_marks s -
              length (filter has_virt_lines (map snd (marks slot))),
            gutter_widths := count_out gw (map snd (marks slot)) (gutter_widths s)\<rparr>)"

definition count_in :: "(virt_decor \<Rightarrow> nat) \<Rightarrow> extmark list \<Rightarrow> (nat \<times> nat) list \<Rightarrow> (nat \<times> nat) list" where
  "count_in gw ms widths = fold (\<lambda>m. count_gutter (gutter_width gw m) True) ms widths"

definition move_namespace_into ::
  "(virt_decor \<Rightarrow> nat) \<Rightarrow> nat \<Rightarrow> nat \<Rightarrow> ext_store \<Rightarrow> ext_store \<Rightarrow> nat \<times> ext_store \<times> ext_store" where
  "move_namespace_into gw ns c src dst =
     (let (c, src) = touch_structure (c, src);
          (c, dst) = touch_structure (c, dst);
          dst = drop_slot gw ns dst
      in case map_of (by_ns src) ns of
           None \<Rightarrow> (c, src, dst)
         | Some slot \<Rightarrow>
             (c, drop_slot gw ns src,
              dst\<lparr>by_ns := AList.update ns slot (by_ns dst),
                  virt_lines_marks := virt_lines_marks dst +
                    length (filter has_virt_lines (map snd (marks slot))),
                  gutter_widths := count_in gw (map snd (marks slot)) (gutter_widths dst)\<rparr>))"

section \<open>Edits\<close>

text \<open>\<open>usize as isize\<close> arithmetic, written out over the integers.\<close>

definition moved :: "nat \<Rightarrow> nat \<Rightarrow> nat \<Rightarrow> nat" where
  "moved p old_end new_end = nat (int p + (int new_end - int old_end))"

definition shift_right_gravity :: "nat \<Rightarrow> nat \<Rightarrow> nat \<Rightarrow> nat \<Rightarrow> nat" where
  "shift_right_gravity s old_end new_end p =
     (if p < s then p else if p < old_end then new_end else moved p old_end new_end)"

definition shift_left_gravity :: "nat \<Rightarrow> nat \<Rightarrow> nat \<Rightarrow> nat \<Rightarrow> nat" where
  "shift_left_gravity s old_end new_end p =
     (if p \<le> s then p else if p < old_end then s else moved p old_end new_end)"

definition shift_by :: "bool \<Rightarrow> nat \<Rightarrow> nat \<Rightarrow> nat \<Rightarrow> nat \<Rightarrow> nat" where
  "shift_by rightward s old_end new_end p =
     (if rightward then shift_right_gravity s old_end new_end p
      else shift_left_gravity s old_end new_end p)"

definition shift_mark :: "nat \<Rightarrow> nat \<Rightarrow> nat \<Rightarrow> extmark \<Rightarrow> extmark" where
  "shift_mark s old_end new_end m =
     (let b = shift_by (right_gravity m) s old_end new_end (em_start m) in
      m\<lparr>em_start := b,
        em_end := map_option (\<lambda>e. max (shift_by (end_right_gravity m) s old_end new_end e) b) (em_end m)\<rparr>)"

definition shift_entry :: "nat \<Rightarrow> nat \<Rightarrow> nat \<Rightarrow> pos_entry \<Rightarrow> pos_entry" where
  "shift_entry s old_end new_end e =
     (let b = shift_by (pe_right_gravity e) s old_end new_end (pe_start e) in
      e\<lparr>pe_start := b,
        pe_end := (if has_end e
                   then max (shift_by (pe_end_right_gravity e) s old_end new_end (pe_end e)) b
                   else b)\<rparr>)"

text \<open>\<open>partition_point\<close>, on a list the predicate splits.\<close>

definition partition_point :: "('a \<Rightarrow> bool) \<Rightarrow> 'a list \<Rightarrow> nat" where
  "partition_point P xs = length (takeWhile P xs)"

definition positions_shift :: "nat \<Rightarrow> nat \<Rightarrow> nat \<Rightarrow> pos_entry list \<Rightarrow> pos_entry list" where
  "positions_shift s old_end new_end entries =
     (let es = map (shift_entry s old_end new_end) entries;
          from = partition_point (\<lambda>e. pe_start e < s) es;
          to = partition_point (\<lambda>e. pe_start e \<le> new_end) es
      in if from < to
         then take from es @ sort_key pe_key (drop from (take to es)) @ drop to es
         else es)"

definition ext_shift :: "nat \<Rightarrow> nat \<Rightarrow> nat \<Rightarrow> ext_store \<Rightarrow> ext_store" where
  "ext_shift s old_end new_end st =
     (if old_end = s \<and> new_end = s then st
      else st\<lparr>
        by_ns := map (\<lambda>(ns, slot).
          (ns, slot\<lparr>marks := map (\<lambda>(i, m). (i, shift_mark s old_end new_end m)) (marks slot),
                    run := map_option (positions_shift s old_end new_end) (run slot)\<rparr>)) (by_ns st),
        index := map_option (positions_shift s old_end new_end) (index st)\<rparr>)"

section \<open>Queries\<close>

definition starting_in :: "nat \<Rightarrow> nat \<Rightarrow> ext_store \<Rightarrow> (nat \<times> nat) list" where
  "starting_in lo hi s =
     (let es = store_index s;
          from = partition_point (\<lambda>e. pe_start e < lo) es;
          to = max (partition_point (\<lambda>e. pe_start e < hi) es) from
      in map (\<lambda>e. (pe_ns e, pe_id e)) (drop from (take to es)))"

text \<open>\<open>usize::next_power_of_two\<close>: doubling from 1 until it covers \<open>n\<close>; \<open>n\<close> doublings are enough.\<close>

fun pow2_from :: "nat \<Rightarrow> nat \<Rightarrow> nat \<Rightarrow> nat" where
  "pow2_from 0 p n = p"
| "pow2_from (Suc k) p n = (if n \<le> p then p else pow2_from k (2 * p) n)"

definition tree_leaves :: "pos_entry list \<Rightarrow> nat" where
  "tree_leaves es = pow2_from (length es) 1 (length es)"

definition max_end_tree :: "pos_entry list \<Rightarrow> nat list" where
  "max_end_tree es =
     (let leaves = tree_leaves es;
          base = replicate (2 * leaves) 0;
          tree = fold (\<lambda>(i, e) tr. tr[leaves + i := pe_end e]) (enumerate 0 es) base
      in fold (\<lambda>n tr. tr[n := max (tr ! (2 * n)) (tr ! (2 * n + 1))]) (rev [1..<leaves]) tree)"

text \<open>The stack's top is its head.\<close>

partial_function (option) reaching_loop ::
  "nat list \<Rightarrow> nat \<Rightarrow> nat \<Rightarrow> (nat \<times> nat \<times> nat) list \<Rightarrow> nat list \<Rightarrow> nat list option" where
  "reaching_loop tree bound lo stack out =
     (case stack of
        [] \<Rightarrow> Some out
      | (n, first, cnt) # rest \<Rightarrow>
          if bound \<le> first \<or> tree ! n < lo then reaching_loop tree bound lo rest out
          else if cnt = 1 then reaching_loop tree bound lo rest (out @ [first])
          else reaching_loop tree bound lo
                 ((2 * n, first, cnt div 2) # (2 * n + 1, first + cnt div 2, cnt div 2) # rest) out)"

lemmas [code] = reaching_loop.simps

definition positions_reaching :: "pos_entry list \<Rightarrow> nat \<Rightarrow> nat \<Rightarrow> nat list option" where
  "positions_reaching es bound lo =
     (if bound = 0 then Some []
      else reaching_loop (max_end_tree es) bound lo [(1, 0, tree_leaves es)] [])"

definition ext_reaching :: "nat \<Rightarrow> nat \<Rightarrow> ext_store \<Rightarrow> (nat \<times> nat) list option" where
  "ext_reaching lo hi s =
     (let es = store_index s; bound = partition_point (\<lambda>e. pe_start e < hi) es in
      map_option (map (\<lambda>i. (pe_ns (es ! i), pe_id (es ! i)))) (positions_reaching es bound lo))"

definition iter_with_ns :: "ext_store \<Rightarrow> (nat \<times> extmark) list" where
  "iter_with_ns s = concat (map (\<lambda>(ns, slot). map (\<lambda>(i, m). (ns, m)) (marks slot)) (by_ns s))"

definition ns_len :: "nat \<Rightarrow> ext_store \<Rightarrow> nat" where
  "ns_len ns s = (case map_of (by_ns s) ns of Some slot \<Rightarrow> length (marks slot) | None \<Rightarrow> 0)"

definition ns_generation :: "nat \<Rightarrow> ext_store \<Rightarrow> nat" where
  "ns_generation ns s = (case map_of (by_ns s) ns of Some slot \<Rightarrow> ns_gen slot | None \<Rightarrow> 0)"

definition iter_ns :: "nat \<Rightarrow> ext_store \<Rightarrow> extmark list" where
  "iter_ns ns s = (case map_of (by_ns s) ns of Some slot \<Rightarrow> map snd (marks slot) | None \<Rightarrow> [])"

definition store_has_virt_lines :: "ext_store \<Rightarrow> bool" where
  "store_has_virt_lines s \<longleftrightarrow> 0 < virt_lines_marks s"

definition gutter_text_width :: "ext_store \<Rightarrow> nat" where
  "gutter_text_width s = (if gutter_widths s = [] then 0 else fst (last (gutter_widths s)))"

definition ext_is_empty :: "ext_store \<Rightarrow> bool" where
  "ext_is_empty s \<longleftrightarrow> list_all (\<lambda>(ns, slot). marks slot = []) (by_ns s)"

end
