(* ===== verification/ExtmarkProps.thy ===== *)
theory ExtmarkProps
  imports Extmark "HOL-Library.Multiset"
begin

text \<open>
  The extmark store verified: gravity as an interface (an anchor function monotone in the anchor
  that fixes what lies before the edit and translates what lies after), the position index always
  equal to a fresh one, the counters equal to a recount, and the range queries equal to a scan.
\<close>

section \<open>Gravity\<close>

locale anchor_shift =
  fixes f :: "nat \<Rightarrow> nat \<Rightarrow> nat \<Rightarrow> nat \<Rightarrow> nat"
  assumes before: "s \<le> o' \<Longrightarrow> s \<le> n \<Longrightarrow> p < s \<Longrightarrow> f s o' n p = p"
    and inside: "s \<le> o' \<Longrightarrow> s \<le> n \<Longrightarrow> s \<le> p \<Longrightarrow> p \<le> o' \<Longrightarrow> s \<le> f s o' n p \<and> f s o' n p \<le> n"
    and after: "s \<le> o' \<Longrightarrow> s \<le> n \<Longrightarrow> o' < p \<Longrightarrow> f s o' n p = p - o' + n"
    and mono: "s \<le> o' \<Longrightarrow> s \<le> n \<Longrightarrow> p \<le> q \<Longrightarrow> f s o' n p \<le> f s o' n q"
begin

lemma below_start: "s \<le> o' \<Longrightarrow> s \<le> n \<Longrightarrow> f s o' n p < s \<longleftrightarrow> p < s"
  using before[of s o' n p] inside[of s o' n p] after[of s o' n p]
  by (cases "p < s"; cases "p \<le> o'") auto

lemma below_end: "s \<le> o' \<Longrightarrow> s \<le> n \<Longrightarrow> f s o' n p \<le> n \<longleftrightarrow> p \<le> o'"
  using before[of s o' n p] inside[of s o' n p] after[of s o' n p]
  by (cases "p < s"; cases "p \<le> o'") auto

end

lemma moved_simp: "old_end \<le> p \<Longrightarrow> moved p old_end new_end = p - old_end + new_end"
  by (simp add: moved_def nat_add_distrib flip: of_nat_diff)

interpretation rg: anchor_shift shift_right_gravity
  by unfold_locales (auto simp: shift_right_gravity_def moved_simp)

interpretation lg: anchor_shift shift_left_gravity
  by unfold_locales (auto simp: shift_left_gravity_def moved_simp)

interpretation sb: anchor_shift "shift_by rightward" for rightward
proof
  fix s o' n p q :: nat
  assume le: "s \<le> o'" "s \<le> n"
  show "p < s \<Longrightarrow> shift_by rightward s o' n p = p"
    using le by (simp add: shift_by_def rg.before lg.before)
  show "s \<le> p \<Longrightarrow> p \<le> o' \<Longrightarrow> s \<le> shift_by rightward s o' n p \<and> shift_by rightward s o' n p \<le> n"
    using le by (simp add: shift_by_def rg.inside lg.inside)
  show "o' < p \<Longrightarrow> shift_by rightward s o' n p = p - o' + n"
    using le by (simp add: shift_by_def rg.after lg.after)
  show "p \<le> q \<Longrightarrow> shift_by rightward s o' n p \<le> shift_by rightward s o' n q"
    using le by (simp add: shift_by_def rg.mono lg.mono)
qed

section \<open>The index across an edit\<close>

lemma split_by:
  "sorted_wrt (\<lambda>x y. P y \<longrightarrow> P x) xs \<Longrightarrow>
   takeWhile P xs = filter P xs \<and> dropWhile P xs = filter (\<lambda>x. \<not> P x) xs"
proof (induction xs)
  case (Cons x xs)
  show ?case
  proof (cases "P x")
    case False
    with Cons.prems have "\<forall>y \<in> set xs. \<not> P y" by auto
    with False show ?thesis by (auto simp: filter_empty_conv filter_id_conv)
  qed (use Cons in simp)
qed simp

lemma take_partition: "take (partition_point P xs) xs = takeWhile P xs"
  by (simp add: partition_point_def takeWhile_eq_take[symmetric])

lemma drop_partition: "drop (partition_point P xs) xs = dropWhile P xs"
  by (simp add: partition_point_def dropWhile_eq_drop[symmetric])

lemma key_start_le: "pe_key x \<le> pe_key y \<Longrightarrow> pe_start x \<le> pe_start y"
  by (auto simp: pe_key_def less_eq_prod_def)

lemma split_sorted:
  assumes "sorted (map pe_key es)" and "\<And>x y. pe_start x \<le> pe_start y \<Longrightarrow> P y \<Longrightarrow> P x"
  shows "takeWhile P es = filter P es" "dropWhile P es = filter (\<lambda>x. \<not> P x) es"
proof -
  have "sorted_wrt (\<lambda>x y. P y \<longrightarrow> P x) es"
    using assms(1) unfolding sorted_wrt_map
    by (rule sorted_wrt_mono_rel[rotated]) (blast intro: assms(2) key_start_le)
  then show "takeWhile P es = filter P es" "dropWhile P es = filter (\<lambda>x. \<not> P x) es"
    using split_by by blast+
qed

lemma shift_entry_key [simp]:
  "pe_ns (shift_entry s o' n e) = pe_ns e" "pe_id (shift_entry s o' n e) = pe_id e"
  "pe_start (shift_entry s o' n e) = shift_by (pe_right_gravity e) s o' n (pe_start e)"
  by (simp_all add: shift_entry_def Let_def)

lemma shift_keeps_key_order:
  assumes "s \<le> o'" and "s \<le> n" and "pe_key x \<le> pe_key y"
    and "pe_start y < s \<or> o' < pe_start x"
  shows "pe_key (shift_entry s o' n x) \<le> pe_key (shift_entry s o' n y)"
proof -
  have "pe_start x \<le> pe_start y" using assms(3) by (rule key_start_le)
  with assms have "(pe_start x < s \<and> pe_start y < s) \<or> (o' < pe_start x \<and> o' < pe_start y)" by auto
  with assms(1-3) show ?thesis
    by (auto simp: pe_key_def less_eq_prod_def sb.before sb.after)
qed

lemma distinct_key_inj:
  assumes "distinct (map (\<lambda>e. (pe_ns e, pe_id e)) es)"
  shows "inj_on pe_key (set es)"
proof (rule inj_onI)
  fix x y assume "x \<in> set es" "y \<in> set es" "pe_key x = pe_key y"
  moreover have "inj_on (\<lambda>e. (pe_ns e, pe_id e)) (set es)" using assms by (simp only: distinct_map)
  ultimately show "x = y" by (simp add: pe_key_def inj_on_def)
qed

lemma key_start_less: "pe_start x < pe_start y \<Longrightarrow> pe_key x \<le> pe_key y"
  by (simp add: pe_key_def less_eq_prod_def)

lemma sorted_three:
  assumes "sorted (map pe_key xs)" and "sorted (map pe_key zs)" and "s \<le> n"
    and xs: "\<And>x. x \<in> set xs \<Longrightarrow> pe_start x < s"
    and ys: "\<And>y. y \<in> set ys \<Longrightarrow> s \<le> pe_start y \<and> pe_start y \<le> n"
    and zs: "\<And>z. z \<in> set zs \<Longrightarrow> n < pe_start z"
  shows "sorted (map pe_key (xs @ sort_key pe_key ys @ zs))"
proof -
  have "pe_key x \<le> pe_key y" if "x \<in> set xs" "y \<in> set ys" for x y
    using xs[OF that(1)] ys[OF that(2)] by (intro key_start_less) simp
  moreover have "pe_key x \<le> pe_key z" if "x \<in> set xs" "z \<in> set zs" for x z
    using xs[OF that(1)] zs[OF that(2)] assms(3) by (intro key_start_less) simp
  moreover have "pe_key y \<le> pe_key z" if "y \<in> set ys" "z \<in> set zs" for y z
    using ys[OF that(1)] zs[OF that(2)] by (intro key_start_less) simp
  ultimately show ?thesis using assms(1,2) by (auto simp: sorted_append)
qed

lemma mset_split3:
  "(\<And>e. P e \<Longrightarrow> Q e) \<Longrightarrow> mset (map g es) = mset (map g (filter P es)) +
     (mset (map g (filter (\<lambda>e. \<not> P e \<and> Q e) es)) + mset (map g (filter (\<lambda>e. \<not> Q e) es)))"
  by (induction es) auto

text \<open>The local re-sort is enough: shifting a sorted index gives the index of the shifted marks.\<close>

lemma positions_shift_sorts:
  assumes sorted: "sorted (map pe_key es)" and dist: "distinct (map (\<lambda>e. (pe_ns e, pe_id e)) es)"
    and le: "s \<le> o'" "s \<le> n"
  shows "positions_shift s o' n es = sort_key pe_key (map (shift_entry s o' n) es)"
proof -
  let ?sh = "shift_entry s o' n" and ?es = "map (shift_entry s o' n) es"
  let ?P = "\<lambda>e. pe_start e < s" and ?Q = "\<lambda>e. pe_start e \<le> n"
  have P: "takeWhile ?P ?es = map ?sh (filter ?P es)" "dropWhile ?P ?es = map ?sh (filter (\<lambda>e. \<not> ?P e) es)"
    using split_sorted[OF sorted, of ?P]
    by (simp_all add: takeWhile_map dropWhile_map comp_def sb.below_start[OF le])
  have Q: "takeWhile ?Q ?es = map ?sh (filter (\<lambda>e. pe_start e \<le> o') es)"
    "dropWhile ?Q ?es = map ?sh (filter (\<lambda>e. \<not> pe_start e \<le> o') es)"
    using split_sorted[OF sorted, of "\<lambda>e. pe_start e \<le> o'"]
    by (simp_all add: takeWhile_map dropWhile_map comp_def sb.below_end[OF le])
  let ?A = "map ?sh (filter ?P es)" and ?C = "map ?sh (filter (\<lambda>e. \<not> pe_start e \<le> o') es)"
  let ?B = "map ?sh (filter (\<lambda>e. \<not> ?P e \<and> pe_start e \<le> o') es)"
  have mid: "drop (partition_point ?P ?es) (take (partition_point ?Q ?es) ?es) = ?B"
  proof -
    have "take (partition_point ?Q ?es) ?es = map ?sh (filter (\<lambda>e. pe_start e \<le> o') es)"
      using Q(1) by (simp only: take_partition)
    moreover have "takeWhile ?P (map ?sh (filter (\<lambda>e. pe_start e \<le> o') es)) = ?A"
      and "dropWhile ?P (map ?sh (filter (\<lambda>e. pe_start e \<le> o') es)) = ?B"
    proof -
      have "sorted (map pe_key (filter (\<lambda>e. pe_start e \<le> o') es))"
        using sorted by (rule sorted_filter)
      from split_sorted[OF this, of ?P] le(1)
      show "takeWhile ?P (map ?sh (filter (\<lambda>e. pe_start e \<le> o') es)) = ?A"
        and "dropWhile ?P (map ?sh (filter (\<lambda>e. pe_start e \<le> o') es)) = ?B"
        by (auto simp: takeWhile_map dropWhile_map comp_def sb.below_start[OF le]
            intro!: arg_cong[where f = "map ?sh"] filter_cong)
    qed
    moreover have "partition_point ?P ?es = length ?A"
      using P(1) by (simp only: partition_point_def)
    ultimately show ?thesis by (metis drop_partition partition_point_def)
  qed
  have parts: "take (partition_point ?P ?es) ?es = ?A" "drop (partition_point ?Q ?es) ?es = ?C"
    using P(1) Q(2) by (simp_all only: take_partition drop_partition)
  have result: "?A @ sort_key pe_key ?B @ ?C = sort_key pe_key ?es"
  proof (rule sort_key_inj_key_eq[symmetric])
    have "mset ?es = mset ?A + (mset ?B + mset ?C)"
      by (rule mset_split3[where P = ?P and Q = "\<lambda>e. pe_start e \<le> o'"]) (use le(1) in simp)
    also have "\<dots> = mset (?A @ sort_key pe_key ?B @ ?C)" by (simp only: mset_append mset_sort)
    finally show "mset ?es = mset (?A @ sort_key pe_key ?B @ ?C)" .
    have "distinct (map (\<lambda>e. (pe_ns e, pe_id e)) ?es)" using dist by (simp add: comp_def)
    then show "inj_on pe_key (set ?es)" by (rule distinct_key_inj)
    have "sorted (map pe_key (filter ?P es))" "sorted (map pe_key (filter (\<lambda>e. \<not> pe_start e \<le> o') es))"
      using sorted by (auto intro: sorted_filter)
    then have "sorted (map pe_key ?A)" "sorted (map pe_key ?C)"
      using shift_keeps_key_order[OF le]
      unfolding map_map sorted_wrt_map comp_def
      by (auto elim!: sorted_wrt_mono_rel[rotated] simp: not_le)
    then show "sorted (map pe_key (?A @ sort_key pe_key ?B @ ?C))"
    proof (rule sorted_three[OF _ _ le(2)])
      show "pe_start x < s" if "x \<in> set ?A" for x
        using that by (auto simp: sb.below_start[OF le])
      show "s \<le> pe_start x \<and> pe_start x \<le> n" if "x \<in> set ?B" for x
        using that by (auto simp: sb.inside[OF le] not_less)
      show "n < pe_start x" if "x \<in> set ?C" for x
        using that sb.below_end[OF le] by (auto simp flip: not_le)
    qed
  qed
  show ?thesis
  proof (cases "partition_point ?P ?es < partition_point ?Q ?es")
    case True
    with result parts mid show ?thesis by (simp add: positions_shift_def Let_def)
  next
    case False
    then have "?B = []" unfolding mid[symmetric] by simp
    moreover have "?es = ?A @ ?B @ ?C"
    proof -
      let ?Q' = "\<lambda>e. pe_start e \<le> o'"
      have all: "es = filter ?Q' es @ filter (\<lambda>e. \<not> ?Q' e) es"
        using split_sorted[OF sorted, of ?Q'] takeWhile_dropWhile_id[of ?Q' es] by simp
      have "sorted (map pe_key (filter ?Q' es))" using sorted by (rule sorted_filter)
      from split_sorted[OF this, of ?P] takeWhile_dropWhile_id[of ?P "filter ?Q' es"]
      have "filter ?P (filter ?Q' es) @ filter (\<lambda>e. \<not> ?P e) (filter ?Q' es) = filter ?Q' es"
        by simp
      moreover have "filter ?P (filter ?Q' es) = filter ?P es"
        unfolding filter_filter by (rule filter_cong) (use le(1) in auto)
      moreover have "filter (\<lambda>e. \<not> ?P e) (filter ?Q' es) = filter (\<lambda>e. \<not> ?P e \<and> ?Q' e) es"
        unfolding filter_filter by (rule filter_cong) auto
      ultimately have low: "filter ?P es @ filter (\<lambda>e. \<not> ?P e \<and> ?Q' e) es = filter ?Q' es"
        by (simp only:)
      have "?A @ ?B @ ?C = map ?sh (filter ?Q' es @ filter (\<lambda>e. \<not> ?Q' e) es)"
        unfolding low[symmetric] by (simp only: map_append append_assoc)
      then show ?thesis by (simp only: all[symmetric])
    qed
    ultimately show ?thesis
      using result False by (simp add: positions_shift_def Let_def)
  qed
qed

section \<open>Counting widths\<close>

definition widths_ok :: "(nat \<times> nat) list \<Rightarrow> nat multiset \<Rightarrow> bool" where
  "widths_ok ws M \<longleftrightarrow> keys_sorted ws \<and>
     (\<forall>w. map_of ws w = (if w = 0 \<or> count M w = 0 then None else Some (count M w)))"

lemma count_gutter_in: "widths_ok ws M \<Longrightarrow> widths_ok (count_gutter w True ws) (add_mset w M)"
  by (auto simp: widths_ok_def count_gutter_def bt_insert_lookup bt_insert_sorted not_in_iff
      simp del: count_eq_zero_iff split: option.splits if_splits)

lemma count_gutter_out: "widths_ok ws (add_mset w M) \<Longrightarrow> widths_ok (count_gutter w False ws) M"
  by (auto simp: widths_ok_def count_gutter_def bt_insert_lookup bt_insert_sorted bt_remove_lookup
      bt_remove_sorted not_in_iff simp del: count_eq_zero_iff split: option.splits if_splits)

lemma count_out_ok:
  "widths_ok ws (M + mset (map (gutter_width gw) ms)) \<Longrightarrow> widths_ok (count_out gw ms ws) M"
  by (induction ms arbitrary: ws) (auto simp: count_out_def dest: count_gutter_out)

lemma count_in_ok:
  "widths_ok ws M \<Longrightarrow> widths_ok (count_in gw ms ws) (M + mset (map (gutter_width gw) ms))"
proof (induction ms arbitrary: ws M)
  case (Cons m ms)
  from Cons.IH[OF count_gutter_in[OF Cons.prems, of "gutter_width gw m"]]
  show ?case by (simp add: count_in_def)
qed (simp add: count_in_def)

lemma sorted_last: "sorted xs \<Longrightarrow> x \<in> set xs \<Longrightarrow> x \<le> last xs"
  by (induction xs) auto

lemma widths_ok_max:
  assumes "widths_ok ws M" and "ws \<noteq> []"
  shows "fst (last ws) = Max (set_mset M)" and "0 < fst (last ws)"
proof -
  let ?k = "fst (last ws)"
  have in_keys: "w \<in> fst ` set ws \<longleftrightarrow> 0 < w \<and> w \<in># M" for w
  proof -
    have "map_of ws w = None \<longleftrightarrow> w = 0 \<or> w \<notin># M"
      using assms(1) by (simp add: widths_ok_def not_in_iff)
    then show ?thesis unfolding map_of_eq_None_iff by blast
  qed
  have "?k \<in> fst ` set ws" using assms(2) by simp
  then show "0 < ?k" using in_keys by blast
  have "w \<le> ?k" if "w \<in> fst ` set ws" for w
  proof -
    have "sorted (map fst ws)" using assms(1) by (simp add: widths_ok_def strict_sorted_iff)
    moreover have "w \<in> set (map fst ws)" using that by simp
    moreover have "last (map fst ws) = ?k" using assms(2) by (rule last_map)
    ultimately show ?thesis using sorted_last by metis
  qed
  with in_keys have "w \<le> ?k" if "w \<in># M" for w using that by (cases "w = 0") auto
  moreover have "?k \<in># M" using \<open>?k \<in> fst ` set ws\<close> in_keys by blast
  ultimately show "?k = Max (set_mset M)" by (intro Max_eqI[symmetric]) auto
qed

lemma widths_ok_empty: "widths_ok [] M \<Longrightarrow> w \<in># M \<Longrightarrow> w = 0"
  by (auto simp: widths_ok_def split: if_splits)

section \<open>The store invariant\<close>

text \<open>What is collected from every namespace, as a multiset.\<close>

definition gather :: "('k \<Rightarrow> 'v \<Rightarrow> 'a list) \<Rightarrow> ('k \<times> 'v) list \<Rightarrow> 'a list" where
  "gather g bs = concat (map (\<lambda>(k, v). g k v) bs)"

definition slot_marks :: "ns_marks \<Rightarrow> extmark list" where
  "slot_marks slot = map snd (marks slot)"

definition all_marks :: "(nat \<times> ns_marks) list \<Rightarrow> extmark list" where
  "all_marks = gather (\<lambda>ns. slot_marks)"

definition entries :: "(nat \<times> ns_marks) list \<Rightarrow> pos_entry list" where
  "entries = gather (\<lambda>ns slot. map (entry_of ns) (slot_marks slot))"

lemma gather_Nil [simp]: "gather g [] = []"
  by (simp add: gather_def)

lemma gather_Cons: "gather g ((k, v) # bs) = g k v @ gather g bs"
  by (simp add: gather_def)

lemma gather_update:
  assumes "distinct (map fst bs)"
  shows "mset (gather g (AList.update k v bs)) = mset (g k v) + mset (gather g (AList.delete k bs))"
  using assms
proof (induction bs)
  case (Cons b bs)
  obtain j w where b: "b = (j, w)" by (cases b)
  have "AList.delete k bs = bs" if "k \<notin> fst ` set bs" using that by (simp add: delete_notin_dom)
  with Cons b show ?case by (cases "j = k") (auto simp: gather_Cons)
qed (simp add: gather_Cons)

lemma gather_split:
  assumes "distinct (map fst bs)" and "map_of bs k = Some v"
  shows "mset (gather g bs) = mset (g k v) + mset (gather g (AList.delete k bs))"
  using assms
proof (induction bs)
  case (Cons b bs)
  obtain j w where b: "b = (j, w)" by (cases b)
  have "AList.delete k bs = bs" if "k \<notin> fst ` set bs" using that by (simp add: delete_notin_dom)
  with Cons b show ?case by (cases "j = k") (auto simp: gather_Cons)
qed simp

lemma gather_map:
  "(\<And>k v. (k, v) \<in> set bs \<Longrightarrow> g k (h k v) = map f (g k v)) \<Longrightarrow>
   gather g (map (\<lambda>(k, v). (k, h k v)) bs) = map f (gather g bs)"
  by (induction bs) (auto simp: gather_Cons)

definition wf_slot :: "nat \<Rightarrow> ns_marks \<Rightarrow> bool" where
  "wf_slot ns slot \<longleftrightarrow>
     keys_sorted (marks slot) \<and> list_all (\<lambda>(i, m). em_id m = i) (marks slot) \<and>
     (case run slot of None \<Rightarrow> True | Some r \<Rightarrow> r = positions_build ns slot)"

definition wf_slots :: "(nat \<times> ns_marks) list \<Rightarrow> bool" where
  "wf_slots bs \<longleftrightarrow> distinct (map fst bs) \<and> list_all (\<lambda>(ns, slot). wf_slot ns slot) bs"

definition counts_ok :: "(virt_decor \<Rightarrow> nat) \<Rightarrow> ext_store \<Rightarrow> bool" where
  "counts_ok gw s \<longleftrightarrow>
     virt_lines_marks s = size (filter_mset has_virt_lines (mset (all_marks (by_ns s)))) \<and>
     widths_ok (gutter_widths s) (image_mset (gutter_width gw) (mset (all_marks (by_ns s))))"

definition index_ok :: "ext_store \<Rightarrow> bool" where
  "index_ok s \<longleftrightarrow>
     (case index s of None \<Rightarrow> True | Some ix \<Rightarrow> ix = sort_key pe_key (entries (by_ns s)))"

definition wf_store :: "(virt_decor \<Rightarrow> nat) \<Rightarrow> ext_store \<Rightarrow> bool" where
  "wf_store gw s \<longleftrightarrow> wf_slots (by_ns s) \<and> counts_ok gw s \<and> index_ok s"

lemma wf_slotsD:
  "wf_slots bs \<Longrightarrow> distinct (map fst bs)" "wf_slots bs \<Longrightarrow> (ns, slot) \<in> set bs \<Longrightarrow> wf_slot ns slot"
  "wf_slots bs \<Longrightarrow> map_of bs ns = Some slot \<Longrightarrow> wf_slot ns slot"
  by (auto simp: wf_slots_def list_all_iff dest: map_of_SomeD)

lemma update_member: "(j, n) \<in> set (AList.update k v al) \<Longrightarrow> (j, n) = (k, v) \<or> (j, n) \<in> set al"
  by (induction al) (auto split: if_splits)

lemma wf_slots_update: "wf_slots bs \<Longrightarrow> wf_slot ns slot \<Longrightarrow> wf_slots (AList.update ns slot bs)"
  unfolding wf_slots_def list_all_iff by (auto simp: distinct_update dest!: update_member)

lemma wf_slots_delete: "wf_slots bs \<Longrightarrow> wf_slots (AList.delete ns bs)"
  unfolding wf_slots_def list_all_iff by (auto simp: AList.delete_eq distinct_map_filter)

lemma store_default_wf: "wf_store gw store_default"
  by (simp add: wf_store_def wf_slots_def counts_ok_def index_ok_def store_default_def all_marks_def
      widths_ok_def)

text \<open>The counters depend on the decorations only.\<close>

definition decors :: "(nat \<times> ns_marks) list \<Rightarrow> virt_decor option multiset" where
  "decors bs = image_mset em_decor (mset (all_marks bs))"

lemma counts_ok_decors:
  "counts_ok gw s \<longleftrightarrow>
     virt_lines_marks s = size (filter_mset (\<lambda>d. case d of Some d \<Rightarrow> virt_lines d \<noteq> [] | None \<Rightarrow> False)
       (decors (by_ns s))) \<and>
     widths_ok (gutter_widths s) (image_mset (\<lambda>d. case d of Some d \<Rightarrow> gw d | None \<Rightarrow> 0) (decors (by_ns s)))"
  by (simp add: counts_ok_def decors_def filter_mset_image_mset image_mset.compositionality comp_def
      has_virt_lines_def[abs_def] gutter_width_def[abs_def])

lemma counts_ok_cong:
  "counts_ok gw s \<Longrightarrow> decors (by_ns s') = decors (by_ns s) \<Longrightarrow>
   virt_lines_marks s' = virt_lines_marks s \<Longrightarrow> gutter_widths s' = gutter_widths s \<Longrightarrow> counts_ok gw s'"
  unfolding counts_ok_decors by simp

lemma decors_gather: "decors bs = mset (gather (\<lambda>ns slot. map em_decor (slot_marks slot)) bs)"
  by (induction bs) (auto simp: decors_def all_marks_def gather_Cons)

lemma decors_map:
  "(\<And>ns slot. (ns, slot) \<in> set bs \<Longrightarrow>
     map em_decor (slot_marks (h ns slot)) = map em_decor (slot_marks slot)) \<Longrightarrow>
   decors (map (\<lambda>(ns, slot). (ns, h ns slot)) bs) = decors bs"
  unfolding decors_gather by (induction bs) (auto simp: gather_Cons)

text \<open>Taking the marks \<open>gone\<close> out and the marks \<open>come\<close> in, with the counters told of both.\<close>

lemma counts_ok_diff:
  assumes cnt: "counts_ok gw s"
    and diff: "mset (all_marks (by_ns s')) + mset gone = mset (all_marks (by_ns s)) + mset come"
    and vl: "virt_lines_marks s' =
        virt_lines_marks s + length (filter has_virt_lines come) - length (filter has_virt_lines gone)"
    and ws: "gutter_widths s' = count_out gw gone (count_in gw come (gutter_widths s))"
  shows "counts_ok gw s'"
proof -
  let ?M = "mset (all_marks (by_ns s'))" and ?N = "mset (all_marks (by_ns s))"
  have "size (filter_mset has_virt_lines (?M + mset gone)) =
      size (filter_mset has_virt_lines (?N + mset come))" unfolding diff ..
  then have "size (filter_mset has_virt_lines ?M) + length (filter has_virt_lines gone) =
      size (filter_mset has_virt_lines ?N) + length (filter has_virt_lines come)"
    by (simp flip: size_mset mset_filter)
  with vl cnt have v: "virt_lines_marks s' = size (filter_mset has_virt_lines ?M)"
    by (simp add: counts_ok_def)
  let ?w = "image_mset (gutter_width gw)"
  have "widths_ok (count_in gw come (gutter_widths s)) (?w ?N + mset (map (gutter_width gw) come))"
    using cnt by (intro count_in_ok) (simp add: counts_ok_def)
  moreover have "?w ?N + mset (map (gutter_width gw) come) = ?w ?M + mset (map (gutter_width gw) gone)"
    using arg_cong[OF diff, of ?w] by simp
  ultimately have "widths_ok (gutter_widths s') (?w ?M)"
    unfolding ws by (intro count_out_ok) simp
  with v show ?thesis by (simp add: counts_ok_def)
qed

lemma all_marks_slot:
  assumes "wf_slots bs"
  shows "mset (all_marks bs) =
    mset (case map_of bs ns of Some slot \<Rightarrow> slot_marks slot | None \<Rightarrow> []) +
    mset (all_marks (AList.delete ns bs))"
proof (cases "map_of bs ns")
  case None
  then have "AList.delete ns bs = bs" by (simp add: delete_notin_dom map_of_eq_None_iff)
  with None show ?thesis by simp
next
  case (Some old)
  with gather_split[OF wf_slotsD(1)[OF assms] Some] show ?thesis by (simp add: all_marks_def)
qed

lemma all_marks_update:
  assumes "wf_slots bs"
  shows "mset (all_marks (AList.update ns slot bs)) =
    mset (slot_marks slot) + mset (all_marks (AList.delete ns bs))"
  unfolding all_marks_def by (rule gather_update[OF wf_slotsD(1)[OF assms]])

text \<open>The index.\<close>

lemma sort_entries_eq:
  assumes "mset xs = mset ys" and "distinct (map (\<lambda>e. (pe_ns e, pe_id e)) xs)"
  shows "sort_key pe_key xs = sort_key pe_key ys"
  by (rule sort_key_inj_key_eq) (use assms in \<open>auto intro: distinct_key_inj\<close>)

lemma entry_key [simp]: "pe_ns (entry_of ns m) = ns" "pe_id (entry_of ns m) = em_id m"
  by (simp_all add: entry_of_def)

lemma slot_entries_distinct:
  assumes "wf_slot ns slot"
  shows "distinct (map (\<lambda>e. (pe_ns e, pe_id e)) (map (entry_of ns) (slot_marks slot)))"
proof -
  have "map em_id (slot_marks slot) = map fst (marks slot)"
    using assms by (auto simp: wf_slot_def slot_marks_def list_all_iff)
  moreover have "distinct (map fst (marks slot))"
    using assms by (simp add: wf_slot_def keys_sorted_distinct)
  ultimately have "distinct (map (Pair ns) (map em_id (slot_marks slot)))"
    by (simp add: distinct_map inj_on_def)
  then show ?thesis by (simp add: comp_def)
qed

lemma entries_distinct:
  "wf_slots bs \<Longrightarrow> distinct (map (\<lambda>e. (pe_ns e, pe_id e)) (entries bs))"
proof (induction bs)
  case (Cons b bs)
  obtain ns slot where b: "b = (ns, slot)" by (cases b)
  with Cons.prems have bs: "wf_slots bs" and slot: "wf_slot ns slot" and new: "ns \<notin> fst ` set bs"
    by (auto simp: wf_slots_def)
  have "pe_ns e \<in> fst ` set bs" if "e \<in> set (entries bs)" for e
    using that by (force simp: entries_def gather_def)
  with new have "(\<lambda>e. (pe_ns e, pe_id e)) ` set (map (entry_of ns) (slot_marks slot)) \<inter>
      (\<lambda>e. (pe_ns e, pe_id e)) ` set (entries bs) = {}" by fastforce
  then show ?case
    using slot_entries_distinct[OF slot] Cons.IH[OF bs] unfolding b entries_def gather_Cons map_append
    by (simp only: distinct_append set_map simp_thms)
qed (simp add: entries_def)

lemma ns_index_build: "wf_slot ns slot \<Longrightarrow> ns_index ns slot = positions_build ns slot"
  by (simp add: wf_slot_def ns_index_def split: option.splits)

lemma merge_is_sort: "wf_slots bs \<Longrightarrow> positions_merge bs = sort_key pe_key (entries bs)"
proof -
  assume wf: "wf_slots bs"
  have "mset (concat (map (\<lambda>(ns, slot). if marks slot \<noteq> [] then ns_index ns slot else []) bs)) =
      mset (entries bs)"
    using wf
  proof (induction bs)
    case (Cons b bs)
    then show ?case
      by (cases b) (auto simp: wf_slots_def entries_def gather_Cons ns_index_build positions_build_def
          slot_marks_def)
  qed (simp add: entries_def)
  then show ?thesis
    unfolding positions_merge_def using entries_distinct[OF wf]
    by (intro sort_entries_eq[symmetric]) simp_all
qed

lemma store_index_sorts: "wf_store gw s \<Longrightarrow> store_index s = sort_key pe_key (entries (by_ns s))"
  by (simp add: wf_store_def store_index_def index_ok_def merge_is_sort split: option.splits)

section \<open>Every operation keeps the invariant\<close>

lemma touch_wf: "wf_store gw s \<Longrightarrow> wf_store gw (snd (touch_structure (c, s)))"
  by (simp add: wf_store_def touch_structure_def counts_ok_def index_ok_def)

lemma wf_slot_touched:
  "keys_sorted (marks slot) \<Longrightarrow> list_all (\<lambda>(i, m). em_id m = i) (marks slot) \<Longrightarrow>
   wf_slot ns (snd (ns_touch c slot))"
  by (simp add: wf_slot_def ns_touch_def)

lemma slot_or_default_wf: "wf_slots (by_ns s) \<Longrightarrow> wf_slot ns (slot_or_default ns s)"
  by (auto simp: slot_or_default_def ns_default_def wf_slot_def dest: wf_slotsD(3) split: option.splits)

lemma bt_insert_ids:
  "list_all (\<lambda>(i, m). em_id m = i) xs \<Longrightarrow> em_id m = i \<Longrightarrow> list_all (\<lambda>(i, m). em_id m = i) (bt_insert i m xs)"
  by (induction i m xs rule: bt_insert.induct) auto

lemma mset_snd: "mset xs = mset ys \<Longrightarrow> mset (map snd xs) = mset (map snd ys)"
  by (simp flip: image_mset.compositionality)

lemma bt_insert_marks:
  assumes "keys_sorted xs"
  shows "mset (map snd (bt_insert k v xs)) + mset (case map_of xs k of Some w \<Rightarrow> [w] | None \<Rightarrow> []) =
    add_mset v (mset (map snd xs))"
  using arg_cong[OF bt_insert_mset[OF assms, of k v], of "image_mset snd"]
  by (simp split: option.splits)

text \<open>One namespace's slot replaced, the counters told which marks went and came.\<close>

lemma wf_replace_slot:
  assumes wf: "wf_store gw s" and slot: "wf_slot ns slot"
    and old: "mset (slot_marks slot) + mset gone = mset (slot_marks (slot_or_default ns s)) + mset come"
    and bs: "by_ns s' = AList.update ns slot (by_ns s)" and ix: "index s' = None"
    and vl: "virt_lines_marks s' =
        virt_lines_marks s + length (filter has_virt_lines come) - length (filter has_virt_lines gone)"
    and ws: "gutter_widths s' = count_out gw gone (count_in gw come (gutter_widths s))"
  shows "wf_store gw s'"
proof -
  have slots: "wf_slots (by_ns s)" and cnt: "counts_ok gw s" using wf by (simp_all add: wf_store_def)
  have old_marks: "slot_marks (slot_or_default ns s) =
      (case map_of (by_ns s) ns of Some slot \<Rightarrow> slot_marks slot | None \<Rightarrow> [])"
    by (simp add: slot_or_default_def ns_default_def slot_marks_def split: option.splits)
  have "mset (all_marks (by_ns s')) + mset gone = mset (all_marks (by_ns s)) + mset come"
    unfolding bs all_marks_update[OF slots] all_marks_slot[OF slots, of ns] old_marks[symmetric]
    using old by (simp add: ac_simps)
  then have "counts_ok gw s'" by (rule counts_ok_diff[OF cnt _ vl ws])
  moreover have "wf_slots (by_ns s')" unfolding bs by (rule wf_slots_update[OF slots slot])
  ultimately show ?thesis using ix by (simp add: wf_store_def index_ok_def)
qed

lemma touch_structure_simps [simp]:
  "touch_structure (c, s) = (next_stamp c, s\<lparr>generation := next_stamp c, index := None\<rparr>)"
  by (simp add: touch_structure_def)

lemma set_wf:
  assumes "wf_store gw (snd st)"
  shows "wf_store gw (snd (snd (ext_set_with_gravity gw ns want b e hl prio dec rg erg st)))"
proof -
  obtain c s where st: "st = (c, s)" by (cases st)
  let ?s = "s\<lparr>generation := next_stamp c, index := None\<rparr>"
  let ?slot = "slot_or_default ns ?s"
  obtain i nid where want: "(case want of
      Some i \<Rightarrow> (i, ?slot\<lparr>next_id := max (next_id ?slot) (succ_sat i)\<rparr>)
    | None \<Rightarrow> (next_id ?slot, ?slot\<lparr>next_id := succ_sat (next_id ?slot)\<rparr>)) = (i, ?slot\<lparr>next_id := nid\<rparr>)"
    by (cases want) auto
  define m where "m = \<lparr>em_id = i, em_start = b, em_end = e, em_hl_group = hl, em_priority = prio,
    em_decor = dec, right_gravity = rg, end_right_gravity = erg, serial = next_serial s + 1\<rparr>"
  let ?gone = "case map_of (marks ?slot) i of Some old \<Rightarrow> [old] | None \<Rightarrow> []"
  let ?new = "snd (ns_touch (next_stamp c) (?slot\<lparr>next_id := nid, marks := bt_insert i m (marks ?slot)\<rparr>))"
  have wf: "wf_store gw ?s" using assms touch_wf[of gw s c] by (simp add: st)
  then have old: "wf_slot ns ?slot" by (intro slot_or_default_wf) (simp add: wf_store_def)
  then have ks: "keys_sorted (marks ?slot)" by (simp add: wf_slot_def)
  let ?s' = "snd (snd (ext_set_with_gravity gw ns want b e hl prio dec rg erg st))"
  have slot: "wf_slot ns ?new"
    using old ks by (intro wf_slot_touched) (simp_all add: wf_slot_def bt_insert_sorted bt_insert_ids m_def)
  have marks: "mset (slot_marks ?new) + mset ?gone = mset (slot_marks ?slot) + mset [m]"
    using bt_insert_marks[OF ks, of i m] by (simp add: ns_touch_def slot_marks_def)
  show ?thesis
  proof (rule wf_replace_slot[OF wf slot marks])
    show "by_ns ?s' = AList.update ns ?new (by_ns ?s)"
      by (simp add: ext_set_with_gravity_def st want m_def ns_touch_def Let_def)
    show "index ?s' = None"
      by (simp add: ext_set_with_gravity_def st want ns_touch_def Let_def)
    show "virt_lines_marks ?s' = virt_lines_marks ?s + length (filter has_virt_lines [m]) -
        length (filter has_virt_lines ?gone)"
      by (simp add: ext_set_with_gravity_def st want m_def ns_touch_def Let_def split: option.splits)
    show "gutter_widths ?s' = count_out gw ?gone (count_in gw [m] (gutter_widths ?s))"
      by (simp add: ext_set_with_gravity_def st want m_def ns_touch_def Let_def count_in_def count_out_def
          split: option.splits)
  qed
qed

lemma bt_remove_ids:
  "list_all (\<lambda>(i, m). em_id m = i) xs \<Longrightarrow> list_all (\<lambda>(i, m). em_id m = i) (bt_remove j xs)"
  by (auto simp: bt_remove_def list_all_iff)

lemma remove_marks:
  assumes "wf_slot ns slot" and "map_of (marks slot) i = Some m"
  shows "mset (map snd (bt_remove i (marks slot))) + mset [m] = mset (slot_marks slot)"
proof -
  have "distinct (map fst (marks slot))" using assms(1) by (simp add: wf_slot_def keys_sorted_distinct)
  from bt_remove_mset[OF this assms(2)] show ?thesis
    by (metis mset_snd mset.simps(2) list.map(2) snd_conv slot_marks_def mset.simps(1)
        union_mset_add_mset_right add.right_neutral)
qed

lemma del_wf:
  assumes "wf_store gw (snd st)"
  shows "wf_store gw (snd (snd (ext_del gw ns i st)))"
proof -
  obtain c s where st: "st = (c, s)" by (cases st)
  let ?s = "s\<lparr>generation := next_stamp c, index := None\<rparr>"
  have wf: "wf_store gw ?s" using assms touch_wf[of gw s c] by (simp add: st)
  show ?thesis
  proof (cases "\<exists>slot m. map_of (by_ns s) ns = Some slot \<and> map_of (marks slot) i = Some m")
    case False
    with wf show ?thesis by (auto simp: ext_del_def st Let_def split: option.splits)
  next
    case True
    then obtain slot m where slot: "map_of (by_ns s) ns = Some slot" and m: "map_of (marks slot) i = Some m"
      by blast
    let ?new = "snd (ns_touch (next_stamp c) (slot\<lparr>marks := bt_remove i (marks slot)\<rparr>))"
    have old: "wf_slot ns slot" using wf slot by (auto simp: wf_store_def dest: wf_slotsD(3))
    have new: "wf_slot ns ?new"
      using old by (intro wf_slot_touched)
        (simp_all add: wf_slot_def bt_remove_sorted bt_remove_ids)
    have marks: "mset (slot_marks ?new) + mset [m] = mset (slot_marks (slot_or_default ns ?s)) + mset []"
      using remove_marks[OF old m] by (simp add: ns_touch_def slot_marks_def slot_or_default_def slot)
    show ?thesis
      by (rule wf_replace_slot[OF wf new marks])
        (simp_all add: ext_del_def st Let_def slot m ns_touch_def count_in_def count_out_def)
  qed
qed

lemma clear_wf:
  assumes "wf_store gw (snd st)"
  shows "wf_store gw (snd (ext_clear gw ns rng st))"
proof -
  obtain c s where st: "st = (c, s)" by (cases st)
  let ?s = "s\<lparr>generation := next_stamp c, index := None\<rparr>"
  have wf: "wf_store gw ?s" using assms touch_wf[of gw s c] by (simp add: st)
  show ?thesis
  proof (cases "map_of (by_ns s) ns")
    case None
    with wf show ?thesis by (simp add: ext_clear_def st)
  next
    case (Some slot)
    let ?new = "snd (ns_touch (next_stamp c)
      (slot\<lparr>marks := filter (\<lambda>(i, m). \<not> in_range rng m) (marks slot)\<rparr>))"
    let ?gone = "filter (in_range rng) (map snd (marks slot))"
    have old: "wf_slot ns slot" using wf Some by (auto simp: wf_store_def dest: wf_slotsD(3))
    then have new: "wf_slot ns ?new"
      by (intro wf_slot_touched) (auto simp: wf_slot_def list_all_iff sorted_wrt_map sorted_wrt_filter)
    have "mset (map snd (filter (\<lambda>(i, m). \<not> in_range rng m) xs)) + mset (filter (in_range rng) (map snd xs)) =
        mset (map snd xs)" for xs :: "(nat \<times> extmark) list" by (induction xs) auto
    then have marks: "mset (slot_marks ?new) + mset ?gone = mset (slot_marks (slot_or_default ns ?s)) + mset []"
      by (simp add: ns_touch_def slot_marks_def slot_or_default_def Some)
    show ?thesis
      by (rule wf_replace_slot[OF wf new marks])
        (simp_all add: ext_clear_def st Let_def Some ns_touch_def count_in_def)
  qed
qed

lemma clear_all_wf: "wf_store gw (snd (ext_clear_all st))"
  by (cases st) (simp add: ext_clear_all_def wf_store_def wf_slots_def counts_ok_def index_ok_def
      all_marks_def widths_ok_def)

text \<open>Positions moved, the marks and their decorations kept.\<close>

lemma shift_mark_entry: "entry_of ns (shift_mark s o' n m) = shift_entry s o' n (entry_of ns m)"
  by (simp add: entry_of_def shift_mark_def shift_entry_def Let_def split: option.splits)

lemma shift_mark_keeps [simp]:
  "em_id (shift_mark s o' n m) = em_id m" "em_decor (shift_mark s o' n m) = em_decor m"
  by (simp_all add: shift_mark_def Let_def)

lemma sorted_index_shift:
  assumes "distinct (map (\<lambda>e. (pe_ns e, pe_id e)) es)" and "s \<le> o'" and "s \<le> n"
  shows "positions_shift s o' n (sort_key pe_key es) = sort_key pe_key (map (shift_entry s o' n) es)"
proof -
  have dist: "distinct (map (\<lambda>e. (pe_ns e, pe_id e)) (sort_key pe_key es))"
    using assms(1) by (metis distinct_map mset_eq_imp_distinct_iff mset_sort set_sort)
  have "positions_shift s o' n (sort_key pe_key es) =
      sort_key pe_key (map (shift_entry s o' n) (sort_key pe_key es))"
    using assms(2,3) dist by (intro positions_shift_sorts) simp_all
  also have "\<dots> = sort_key pe_key (map (shift_entry s o' n) es)"
    by (rule sort_entries_eq) (use dist in \<open>simp_all add: comp_def\<close>)
  finally show ?thesis .
qed

lemma shift_wf:
  assumes "wf_store gw st" and "s \<le> o'" and "s \<le> n"
  shows "wf_store gw (ext_shift s o' n st)"
proof (cases "o' = s \<and> n = s")
  case False
  let ?h = "\<lambda>slot. slot\<lparr>marks := map (\<lambda>(i, m). (i, shift_mark s o' n m)) (marks slot),
    run := map_option (positions_shift s o' n) (run slot)\<rparr>"
  have wf: "wf_slots (by_ns st)" using assms(1) by (simp add: wf_store_def)
  have bs: "by_ns (ext_shift s o' n st) = map (\<lambda>(ns, slot). (ns, ?h slot)) (by_ns st)"
    unfolding ext_shift_def if_not_P[OF False] by simp
  have ix: "index (ext_shift s o' n st) = map_option (positions_shift s o' n) (index st)"
    unfolding ext_shift_def if_not_P[OF False] by simp
  have slot_marks: "slot_marks (?h slot) = map (shift_mark s o' n) (slot_marks slot)" for slot
    by (simp add: slot_marks_def split_def comp_def)
  have entries: "entries (by_ns (ext_shift s o' n st)) = map (shift_entry s o' n) (entries (by_ns st))"
    unfolding bs entries_def by (rule gather_map) (simp add: slot_marks shift_mark_entry comp_def)
  have slot: "wf_slot ns (?h slot)" if "wf_slot ns slot" for ns slot
  proof -
    have "positions_build ns (?h slot) = positions_shift s o' n (positions_build ns slot)"
      using sorted_index_shift[OF slot_entries_distinct[OF that] assms(2,3)]
      by (simp add: positions_build_def slot_marks_def comp_def shift_mark_entry split_def)
    with that show ?thesis
      by (auto simp: wf_slot_def list_all_iff split_def comp_def split: option.splits)
  qed
  have "wf_slots (by_ns (ext_shift s o' n st))"
    using wf slot by (auto simp: wf_slots_def bs list_all_iff split_def comp_def)
  moreover have "counts_ok gw (ext_shift s o' n st)"
  proof (rule counts_ok_cong)
    show "counts_ok gw st" using assms(1) by (simp add: wf_store_def)
    show "decors (by_ns (ext_shift s o' n st)) = decors (by_ns st)"
      unfolding bs by (rule decors_map) (simp add: slot_marks comp_def)
  qed (simp_all add: ext_shift_def)
  moreover have "index_ok (ext_shift s o' n st)"
    using assms(1) sorted_index_shift[OF entries_distinct[OF wf] assms(2,3)]
    by (simp add: wf_store_def index_ok_def entries ix split: option.splits)
  ultimately show ?thesis by (simp add: wf_store_def)
qed (use assms in \<open>simp add: ext_shift_def\<close>)


lemma adopt_keeps [simp]:
  "em_id (ext_adopt_mark theirs len i m) = em_id m" "em_decor (ext_adopt_mark theirs len i m) = em_decor m"
  by (simp_all add: ext_adopt_mark_def Let_def split: option.splits)

lemma adopt_wf:
  assumes "wf_store gw (snd st)"
  shows "wf_store gw (snd (adopt_positions_from snap len skip st))"
proof -
  obtain c s where st: "st = (c, s)" by (cases st)
  let ?h = "\<lambda>ns slot. if ns \<in> set skip then slot
    else slot\<lparr>run := None, marks := map (\<lambda>(i, m).
      (i, ext_adopt_mark (map_of (by_ns snap) ns) len i m)) (marks slot)\<rparr>"
  let ?s' = "snd (adopt_positions_from snap len skip st)"
  have bs: "by_ns ?s' = map (\<lambda>(ns, slot). (ns, ?h ns slot)) (by_ns s)"
    by (simp add: adopt_positions_from_def st)
  have wf: "wf_slots (by_ns s)" "counts_ok gw s" using assms by (simp_all add: wf_store_def st)
  have "wf_slot ns (?h ns slot)" if "wf_slot ns slot" for ns slot
    using that by (auto simp: wf_slot_def list_all_iff split_def comp_def)
  then have "wf_slots (by_ns ?s')"
    using wf by (auto simp: wf_slots_def bs list_all_iff split_def comp_def)
  moreover have "counts_ok gw ?s'"
  proof (rule counts_ok_cong[OF wf(2)])
    show "decors (by_ns ?s') = decors (by_ns s)"
      unfolding bs by (rule decors_map) (simp add: slot_marks_def split_def comp_def)
  qed (simp_all add: adopt_positions_from_def st)
  ultimately show ?thesis
    by (simp add: wf_store_def index_ok_def) (simp add: adopt_positions_from_def st)
qed

lemma fill_wf:
  assumes "wf_store gw s"
  shows "wf_store gw (fill_index s)"
proof (cases "index s")
  case (Some ix)
  with assms show ?thesis by (simp add: fill_index_def)
next
  case None
  let ?h = "\<lambda>ns slot. if marks slot \<noteq> [] then slot\<lparr>run := Some (ns_index ns slot)\<rparr> else slot"
  have bs: "by_ns (fill_index s) = map (\<lambda>(ns, slot). (ns, ?h ns slot)) (by_ns s)"
    by (simp add: fill_index_def None)
  have wf: "wf_slots (by_ns s)" "counts_ok gw s" using assms by (simp_all add: wf_store_def)
  have "wf_slot ns (?h ns slot)" if "wf_slot ns slot" for ns slot
    using that ns_index_build[OF that] by (simp add: wf_slot_def positions_build_def)
  then have "wf_slots (by_ns (fill_index s))"
    using wf by (auto simp: wf_slots_def bs list_all_iff split_def comp_def)
  moreover have "counts_ok gw (fill_index s)"
  proof (rule counts_ok_cong[OF wf(2)])
    show "decors (by_ns (fill_index s)) = decors (by_ns s)"
      unfolding bs by (rule decors_map) (simp add: slot_marks_def)
  qed (simp_all add: fill_index_def None)
  moreover have "entries (by_ns (fill_index s)) = entries (by_ns s)"
    unfolding bs entries_def
    by (rule gather_map[where f = "\<lambda>x. x", unfolded list.map_ident]) (simp add: slot_marks_def)
  then have "index_ok (fill_index s)"
    using store_index_sorts[OF assms] by (simp add: index_ok_def) (simp add: fill_index_def None)
  ultimately show ?thesis by (simp add: wf_store_def)
qed

lemma drop_slot_wf:
  assumes "wf_store gw s" and "index s = None"
  shows "wf_store gw (drop_slot gw ns s)" and "index (drop_slot gw ns s) = None"
    and "map_of (by_ns (drop_slot gw ns s)) ns = None"
    and "ns' \<noteq> ns \<Longrightarrow> map_of (by_ns (drop_slot gw ns s)) ns' = map_of (by_ns s) ns'"
proof -
  have wf: "wf_slots (by_ns s)" "counts_ok gw s" using assms by (simp_all add: wf_store_def)
  show "index (drop_slot gw ns s) = None" using assms by (simp add: drop_slot_def split: option.splits)
  show "map_of (by_ns (drop_slot gw ns s)) ns = None"
    by (simp add: drop_slot_def AList.delete_conv' split: option.splits)
  show "ns' \<noteq> ns \<Longrightarrow> map_of (by_ns (drop_slot gw ns s)) ns' = map_of (by_ns s) ns'"
    by (simp add: drop_slot_def split: option.splits)
  show "wf_store gw (drop_slot gw ns s)"
  proof (cases "map_of (by_ns s) ns")
    case None
    with assms show ?thesis by (simp add: drop_slot_def)
  next
    case (Some slot)
    let ?s' = "drop_slot gw ns s"
    have bs: "by_ns ?s' = AList.delete ns (by_ns s)" by (simp add: drop_slot_def Some)
    have "mset (all_marks (by_ns ?s')) + mset (slot_marks slot) = mset (all_marks (by_ns s)) + mset []"
      unfolding bs using all_marks_slot[OF wf(1), of ns] Some by simp
    then have "counts_ok gw ?s'"
      by (rule counts_ok_diff[OF wf(2)]) (simp_all add: drop_slot_def Some slot_marks_def count_in_def)
    then show ?thesis
      using wf_slots_delete[OF wf(1), of ns] assms(2)
      by (simp add: wf_store_def bs index_ok_def) (simp add: drop_slot_def Some)
  qed
qed

lemma add_slot_wf:
  assumes "wf_store gw s" and "index s = None" and "wf_slot ns slot" and "map_of (by_ns s) ns = None"
  shows "wf_store gw (s\<lparr>by_ns := AList.update ns slot (by_ns s),
      virt_lines_marks := virt_lines_marks s + length (filter has_virt_lines (map snd (marks slot))),
      gutter_widths := count_in gw (map snd (marks slot)) (gutter_widths s)\<rparr>)"
proof (rule wf_replace_slot[OF assms(1,3), where gone = "[]" and come = "slot_marks slot"])
  show "mset (slot_marks slot) + mset [] = mset (slot_marks (slot_or_default ns s)) + mset (slot_marks slot)"
    using assms(4) by (simp add: slot_or_default_def slot_marks_def ns_default_def)
qed (use assms(2) in \<open>simp_all add: slot_marks_def count_out_def\<close>)

lemma move_wf:
  assumes "wf_store gw src" and "wf_store gw dst"
  shows "wf_store gw (fst (snd (move_namespace_into gw ns c src dst)))"
    and "wf_store gw (snd (snd (move_namespace_into gw ns c src dst)))"
proof -
  let ?src = "src\<lparr>generation := next_stamp c, index := None\<rparr>"
  let ?dst = "dst\<lparr>generation := next_stamp (next_stamp c), index := None\<rparr>"
  have wf: "wf_store gw ?src" "wf_store gw ?dst"
    using touch_wf[OF assms(1)] touch_wf[OF assms(2)] by simp_all
  note dst = drop_slot_wf[OF wf(2), of ns, simplified]
  show "wf_store gw (fst (snd (move_namespace_into gw ns c src dst)))"
    using wf(1) drop_slot_wf(1)[OF wf(1), of ns]
    by (simp add: move_namespace_into_def Let_def split: option.splits)
  show "wf_store gw (snd (snd (move_namespace_into gw ns c src dst)))"
  proof (cases "map_of (by_ns src) ns")
    case None
    with dst(1) show ?thesis by (simp add: move_namespace_into_def Let_def)
  next
    case (Some slot)
    have "wf_slot ns slot" using assms(1) Some by (auto simp: wf_store_def dest: wf_slotsD(3))
    from add_slot_wf[OF dst(1,2) this dst(3)] Some show ?thesis
      by (simp add: move_namespace_into_def Let_def)
  qed
qed

end
