(* ===== verification/ExtmarkQuery.thy ===== *)
theory ExtmarkQuery
  imports ExtmarkProps
begin

text \<open>
  The queries of the extmark store: the max-end tree answers \<open>reaching\<close> exactly, the range
  queries equal a scan of the marks, the counters equal a recount, and undo's
  \<open>adopt_positions_from\<close> puts back exactly the placements its snapshot still shares.
\<close>

section \<open>The max-end tree\<close>

definition leaf_end :: "pos_entry list \<Rightarrow> nat \<Rightarrow> nat" where
  "leaf_end es i = (if i < length es then pe_end (es ! i) else 0)"

lemma pow2_from_power: "\<exists>k. pow2_from j (2 ^ i) n = 2 ^ k"
proof (induction j arbitrary: i)
  case (Suc j)
  from Suc.IH[of "Suc i"] show ?case by auto
qed auto

lemma pow2_from_covers: "n \<le> p + j \<Longrightarrow> 0 < p \<Longrightarrow> n \<le> pow2_from j p n"
  by (induction j arbitrary: p) auto

lemma tree_leaves_power: "\<exists>k. tree_leaves es = 2 ^ k"
  using pow2_from_power[of "length es" 0] by (simp add: tree_leaves_def)

lemma tree_leaves_covers: "length es \<le> tree_leaves es"
  by (simp add: tree_leaves_def pow2_from_covers)

lemma tree_leaves_pos: "0 < tree_leaves es"
  using tree_leaves_power[of es] by auto

text \<open>The leaves are stored first, then every inner node from the last to the root.\<close>

lemma fold_leaves:
  "L + length es + k \<le> length tr \<Longrightarrow>
   length (fold (\<lambda>(i, e) tr. tr[L + i := pe_end e]) (enumerate k es) tr) = length tr \<and>
   fold (\<lambda>(i, e) tr. tr[L + i := pe_end e]) (enumerate k es) tr ! j =
     (if L + k \<le> j \<and> j < L + k + length es then pe_end (es ! (j - L - k)) else tr ! j)"
proof (induction es arbitrary: k tr)
  case (Cons e es)
  let ?tr = "tr[L + k := pe_end e]"
  from Cons.prems have "L + length es + Suc k \<le> length ?tr" by simp
  from Cons.IH[OF this] Cons.prems show ?case
    by (auto simp: nth_list_update nth_Cons' not_less_eq_eq)
qed simp

lemma fold_inner:
  assumes "2 * n \<le> length tr" and "n \<le> m"
  defines "tr' \<equiv> fold (\<lambda>n tr. tr[n := max (tr ! (2 * n)) (tr ! (2 * n + 1))]) (rev [1..<n]) tr"
  shows "length tr' = length tr" and "n \<le> j \<Longrightarrow> tr' ! j = tr ! j"
    and "1 \<le> j \<Longrightarrow> j < n \<Longrightarrow> tr' ! j = max (tr' ! (2 * j)) (tr' ! (2 * j + 1))"
proof -
  have "length tr' = length tr \<and> (\<forall>j\<ge>n. tr' ! j = tr ! j) \<and>
    (\<forall>j. 1 \<le> j \<and> j < n \<longrightarrow> tr' ! j = max (tr' ! (2 * j)) (tr' ! (2 * j + 1)))"
    using assms(1) unfolding tr'_def
  proof (induction n arbitrary: tr)
    case (Suc n)
    show ?case
    proof (cases "n = 0")
      case False
      let ?tr = "tr[n := max (tr ! (2 * n)) (tr ! (2 * n + 1))]"
      let ?f = "fold (\<lambda>n tr. tr[n := max (tr ! (2 * n)) (tr ! (2 * n + 1))]) (rev [1..<n])"
      have eq: "fold (\<lambda>n tr. tr[n := max (tr ! (2 * n)) (tr ! (2 * n + 1))]) (rev [1..<Suc n]) tr = ?f ?tr"
        using False by simp
      from Suc.prems have "2 * n \<le> length ?tr" by simp
      note IH = Suc.IH[OF this]
      show ?thesis unfolding eq
      proof (intro conjI allI impI)
        show "length (?f ?tr) = length tr" using IH by simp
        show "?f ?tr ! j = tr ! j" if "Suc n \<le> j" for j using IH that by simp
        show "?f ?tr ! j = max (?f ?tr ! (2 * j)) (?f ?tr ! (2 * j + 1))"
          if "1 \<le> j \<and> j < Suc n" for j
        proof (cases "j = n")
          case True
          with IH False Suc.prems show ?thesis by simp
        next
          case False
          with IH that show ?thesis by auto
        qed
      qed
    qed simp
  qed simp
  then show "length tr' = length tr" "n \<le> j \<Longrightarrow> tr' ! j = tr ! j"
    "1 \<le> j \<Longrightarrow> j < n \<Longrightarrow> tr' ! j = max (tr' ! (2 * j)) (tr' ! (2 * j + 1))" by blast+
qed

lemma tree_leaf: "i < tree_leaves es \<Longrightarrow> max_end_tree es ! (tree_leaves es + i) = leaf_end es i"
proof -
  assume i: "i < tree_leaves es"
  let ?L = "tree_leaves es"
  have len: "?L + length es + 0 \<le> length (replicate (2 * ?L) (0::nat))"
    using tree_leaves_covers[of es] by simp
  note leaves = fold_leaves[OF len]
  have "2 * ?L \<le> length (fold (\<lambda>(i, e) tr. tr[?L + i := pe_end e]) (enumerate 0 es) (replicate (2 * ?L) 0))"
    using leaves by simp
  from fold_inner(2)[OF this le_refl, of "?L + i"] leaves[of "?L + i"] i
  show ?thesis by (simp add: max_end_tree_def Let_def leaf_end_def)
qed

lemma tree_node:
  "1 \<le> j \<Longrightarrow> j < tree_leaves es \<Longrightarrow>
   max_end_tree es ! j = max (max_end_tree es ! (2 * j)) (max_end_tree es ! (2 * j + 1))"
proof -
  assume j: "1 \<le> j" "j < tree_leaves es"
  let ?L = "tree_leaves es"
  have len: "?L + length es + 0 \<le> length (replicate (2 * ?L) (0::nat))"
    using tree_leaves_covers[of es] by simp
  have "2 * ?L \<le> length (fold (\<lambda>(i, e) tr. tr[?L + i := pe_end e]) (enumerate 0 es) (replicate (2 * ?L) 0))"
    using fold_leaves[OF len] by simp
  from fold_inner(3)[OF this le_refl j] show ?thesis by (simp add: max_end_tree_def Let_def)
qed

text \<open>A node over \<open>2 ^ h\<close> leaves from \<open>first\<close> falls short exactly when each of them does.\<close>

lemma tree_covers:
  "n * 2 ^ h = tree_leaves es + first \<Longrightarrow> first + 2 ^ h \<le> tree_leaves es \<Longrightarrow>
   max_end_tree es ! n < lo \<longleftrightarrow> (\<forall>i. first \<le> i \<and> i < first + 2 ^ h \<longrightarrow> leaf_end es i < lo)"
proof (induction h arbitrary: n first)
  case 0
  then have "n = tree_leaves es + first" by simp
  with 0 tree_leaf[of first es] show ?case by (auto simp: less_Suc_eq)
next
  case (Suc h)
  have left: "2 * n * 2 ^ h = tree_leaves es + first" "first + 2 ^ h \<le> tree_leaves es"
    using Suc.prems by (simp_all add: algebra_simps)
  have right: "(2 * n + 1) * 2 ^ h = tree_leaves es + (first + 2 ^ h)"
    "(first + 2 ^ h) + 2 ^ h \<le> tree_leaves es"
    using Suc.prems by (simp_all add: algebra_simps)
  have n: "1 \<le> n" using Suc.prems(1) tree_leaves_pos[of es] by (cases n) auto
  have "n < tree_leaves es"
  proof (rule ccontr)
    assume "\<not> n < tree_leaves es"
    then have "tree_leaves es * 2 ^ Suc h \<le> n * 2 ^ Suc h" by simp
    moreover have "tree_leaves es * 2 \<le> tree_leaves es * 2 ^ Suc h" by simp
    moreover have "(2::nat) ^ Suc h > 0" by simp
    ultimately show False using Suc.prems by linarith
  qed
  from tree_node[OF n this] Suc.IH[OF left] Suc.IH[OF right]
  have "max_end_tree es ! n < lo \<longleftrightarrow>
      (\<forall>i. first \<le> i \<and> i < first + 2 ^ h \<longrightarrow> leaf_end es i < lo) \<and>
      (\<forall>i. first + 2 ^ h \<le> i \<and> i < first + 2 ^ h + 2 ^ h \<longrightarrow> leaf_end es i < lo)"
    by simp
  also have "\<dots> \<longleftrightarrow> (\<forall>i. first \<le> i \<and> i < first + 2 ^ Suc h \<longrightarrow> leaf_end es i < lo)"
    by (auto simp: not_less) (metis add.assoc mult_2 not_less)
  finally show ?case .
qed

definition node_ok :: "pos_entry list \<Rightarrow> nat \<times> nat \<times> nat \<Rightarrow> bool" where
  "node_ok es = (\<lambda>(n, first, count).
     (\<exists>h. count = 2 ^ h) \<and> n * count = tree_leaves es + first \<and> first + count \<le> tree_leaves es)"

definition node_hits :: "pos_entry list \<Rightarrow> nat \<Rightarrow> nat \<Rightarrow> nat \<times> nat \<times> nat \<Rightarrow> nat list" where
  "node_hits es bound lo = (\<lambda>(n, first, count).
     filter (\<lambda>i. i < bound \<and> lo \<le> leaf_end es i) [first..<first + count])"

lemma reaching_loop_hits:
  "list_all (node_ok es) stack \<Longrightarrow>
   reaching_loop (max_end_tree es) bound lo stack out =
     Some (out @ concat (map (node_hits es bound lo) stack))"
proof (induction "sum_list (map (\<lambda>(n, first, count). 2 * count - 1) stack)" arbitrary: stack out
    rule: less_induct)
  case less
  show ?case
  proof (cases stack)
    case Nil
    then show ?thesis by (subst reaching_loop.simps) simp
  next
    case (Cons x rest)
    obtain n first count where x: "x = (n, first, count)" by (cases x)
    from less.prems Cons x obtain h where count: "count = 2 ^ h"
      and n: "n * count = tree_leaves es + first" and le: "first + count \<le> tree_leaves es"
      and rest: "list_all (node_ok es) rest"
      by (auto simp: node_ok_def)
    have "0 < count" using count by simp
    then have small: "0 < 2 * count - 1" by linarith
    show ?thesis
    proof (cases "bound \<le> first \<or> max_end_tree es ! n < lo")
      case True
      have "node_hits es bound lo x = []"
        using True tree_covers[OF n[unfolded count] le[unfolded count], of lo]
        by (auto simp: node_hits_def x count filter_empty_conv)
      with True less.hyps[OF _ rest] small show ?thesis
        by (subst reaching_loop.simps) (simp add: Cons x)
    next
      case False
      show ?thesis
      proof (cases "count = 1")
        case True
        have "lo \<le> leaf_end es first"
          using False tree_covers[OF n[unfolded count] le[unfolded count], of lo] True count
          by (auto simp: le_less_Suc_eq)
        then have "node_hits es bound lo x = [first]"
          using False True by (simp add: node_hits_def x)
        with True False less.hyps[OF _ rest] small show ?thesis
          by (subst reaching_loop.simps) (simp add: Cons x)
      next
        case neq: False
        then obtain h' where h: "h = Suc h'" using count by (cases h) auto
        let ?half = "count div 2"
        have half: "?half = 2 ^ h'" "count = ?half + ?half" using count h by simp_all
        let ?l = "(2 * n, first, ?half)" and ?r = "(2 * n + 1, first + ?half, ?half)"
        have ok: "node_ok es ?l" "node_ok es ?r"
          using n le half by (auto simp: node_ok_def algebra_simps)
        have "[first..<first + count] = [first..<first + ?half] @ [first + ?half..<first + ?half + ?half]"
          using half(2) by (metis add.assoc upt_add_eq_append le_add1)
        then have hits: "node_hits es bound lo x = node_hits es bound lo ?l @ node_hits es bound lo ?r"
          by (simp add: node_hits_def x)
        have "0 < ?half" using half(1) by simp
        then have "sum_list (map (\<lambda>(n, first, count). 2 * count - 1) (?l # ?r # rest)) <
            sum_list (map (\<lambda>(n, first, count). 2 * count - 1) stack)"
          using half(2) by (simp add: Cons x)
        from less.hyps[OF this, of out] ok rest
        have "reaching_loop (max_end_tree es) bound lo (?l # ?r # rest) out =
            Some (out @ concat (map (node_hits es bound lo) stack))"
          using hits by (simp add: Cons)
        with False neq show ?thesis by (subst reaching_loop.simps) (simp add: Cons x)
      qed
    qed
  qed
qed

lemma positions_reaching_hits:
  "positions_reaching es bound lo =
     Some (filter (\<lambda>i. i < bound \<and> lo \<le> leaf_end es i) [0..<tree_leaves es])"
proof (cases "bound = 0")
  case False
  have "node_ok es (1, 0, tree_leaves es)" using tree_leaves_power[of es] by (auto simp: node_ok_def)
  with False reaching_loop_hits[of es "[(1, 0, tree_leaves es)]"] show ?thesis
    by (simp add: positions_reaching_def node_hits_def)
qed (simp add: positions_reaching_def)

section \<open>The operations as one system\<close>

datatype em_op =
    EmSet nat "nat option" nat "nat option" "ustring option" nat "virt_decor option" bool bool
  | EmDel nat nat
  | EmClear nat "(nat \<times> nat) option"
  | EmClearAll
  | EmEdit nat nat nat
  | EmAdopt ext_store nat "nat list"
  | EmQuery

text \<open>\<open>EmEdit p d k\<close> replaces the \<open>d\<close> bytes at \<open>p\<close> by \<open>k\<close> bytes.\<close>

fun em_step :: "(virt_decor \<Rightarrow> nat) \<Rightarrow> stamped \<Rightarrow> em_op \<Rightarrow> stamped" where
  "em_step gw st (EmSet ns want b e hl prio dec rg erg) =
     snd (ext_set_with_gravity gw ns want b e hl prio dec rg erg st)"
| "em_step gw st (EmDel ns i) = snd (ext_del gw ns i st)"
| "em_step gw st (EmClear ns rng) = ext_clear gw ns rng st"
| "em_step gw st EmClearAll = ext_clear_all st"
| "em_step gw st (EmEdit p d k) = (fst st, ext_shift p (p + d) (p + k) (snd st))"
| "em_step gw st (EmAdopt snap len skip) = adopt_positions_from snap len skip st"
| "em_step gw st EmQuery = (fst st, fill_index (snd st))"

definition store_runs :: "(virt_decor \<Rightarrow> nat) \<Rightarrow> nat \<Rightarrow> em_op list \<Rightarrow> ext_store" where
  "store_runs gw c ops = snd (foldl (em_step gw) (c, store_default) ops)"

interpretation em: guarded_system "em_step gw" "\<lambda>st. wf_store gw (snd st)" for gw
proof
  show "wf_store gw (snd (em_step gw st op))" if "wf_store gw (snd st)" for st op
    by (cases op) (use that in \<open>simp_all add: set_wf del_wf clear_wf clear_all_wf shift_wf adopt_wf fill_wf\<close>)
qed

lemma store_runs_wf: "wf_store gw (store_runs gw c ops)"
  unfolding store_runs_def by (rule em.run_inv) (simp add: store_default_wf)

section \<open>What a query sees\<close>

lemma entries_get:
  assumes "wf_slots (by_ns s)"
  shows "e \<in> set (entries (by_ns s)) \<longleftrightarrow>
    (\<exists>m. ext_get (pe_ns e) (pe_id e) s = Some m \<and> e = entry_of (pe_ns e) m)"
proof -
  have dist: "distinct (map fst (by_ns s))" using assms by (rule wf_slotsD)
  have slot: "distinct (map fst (marks slot))" "\<forall>(i, m) \<in> set (marks slot). em_id m = i"
    if "(ns, slot) \<in> set (by_ns s)" for ns slot
    using wf_slotsD(2)[OF assms that] by (auto simp: wf_slot_def keys_sorted_distinct list_all_iff)
  show ?thesis
  proof
    assume "e \<in> set (entries (by_ns s))"
    then obtain ns slot m where "(ns, slot) \<in> set (by_ns s)" "(em_id m, m) \<in> set (marks slot)"
      and e: "e = entry_of ns m"
      using slot(2) by (fastforce simp: entries_def gather_def slot_marks_def)
    with slot(1) dist show "\<exists>m. ext_get (pe_ns e) (pe_id e) s = Some m \<and> e = entry_of (pe_ns e) m"
      by (auto simp: ext_get_def)
  next
    assume "\<exists>m. ext_get (pe_ns e) (pe_id e) s = Some m \<and> e = entry_of (pe_ns e) m"
    then obtain slot m where "(pe_ns e, slot) \<in> set (by_ns s)" "(pe_id e, m) \<in> set (marks slot)"
      and "e = entry_of (pe_ns e) m"
      by (auto simp: ext_get_def split: option.splits dest!: map_of_SomeD)
    then show "e \<in> set (entries (by_ns s))"
      by (force simp: entries_def gather_def slot_marks_def)
  qed
qed

definition mark_key :: "ext_store \<Rightarrow> nat \<times> nat \<Rightarrow> pos_key" where
  "mark_key s = (\<lambda>(ns, i).
     (case ext_get ns i s of Some m \<Rightarrow> em_start m | None \<Rightarrow> 0, ns, i))"

text \<open>A list of marks that lists each mark with a property once, in position order.\<close>

definition lists_marks :: "ext_store \<Rightarrow> (extmark \<Rightarrow> bool) \<Rightarrow> (nat \<times> nat) list \<Rightarrow> bool" where
  "lists_marks s P ms \<longleftrightarrow>
     distinct ms \<and> sorted (map (mark_key s) ms) \<and>
     set ms = {(ns, i). case ext_get ns i s of Some m \<Rightarrow> P m | None \<Rightarrow> False}"

lemma filtered_index_lists:
  assumes wf: "wf_store gw s" and Q: "\<And>ns m. Q (entry_of ns m) = P m"
  shows "lists_marks s P (map (\<lambda>e. (pe_ns e, pe_id e)) (filter Q (store_index s)))"
proof -
  have slots: "wf_slots (by_ns s)" using wf by (simp add: wf_store_def)
  have ix: "store_index s = sort_key pe_key (entries (by_ns s))" by (rule store_index_sorts[OF wf])
  have "distinct (map (\<lambda>e. (pe_ns e, pe_id e)) (store_index s))"
    using entries_distinct[OF slots] unfolding ix
    by (metis distinct_map mset_eq_imp_distinct_iff mset_sort set_sort)
  then have dist: "distinct (map (\<lambda>e. (pe_ns e, pe_id e)) (filter Q (store_index s)))"
    by (rule distinct_map_filter)
  have get: "ext_get (pe_ns e) (pe_id e) s = Some m \<Longrightarrow> e = entry_of (pe_ns e) m"
    if "e \<in> set (store_index s)" for e m
    using that entries_get[OF slots, of e] by (auto simp: ix)
  have member: "e \<in> set (store_index s) \<longleftrightarrow>
      (\<exists>m. ext_get (pe_ns e) (pe_id e) s = Some m \<and> e = entry_of (pe_ns e) m)" for e
    using entries_get[OF slots, of e] by (simp add: ix)
  have key: "mark_key s (pe_ns e, pe_id e) = pe_key e" if "e \<in> set (store_index s)" for e
  proof -
    from that obtain m where "ext_get (pe_ns e) (pe_id e) s = Some m" and e: "e = entry_of (pe_ns e) m"
      using member by blast
    moreover from e have "pe_start e = em_start m"
      by (metis entry_of_def pos_entry.select_convs(1))
    ultimately show ?thesis by (simp add: mark_key_def pe_key_def)
  qed
  have "sorted (map pe_key (filter Q (store_index s)))"
    unfolding ix by (intro sorted_filter) simp
  moreover have "map (mark_key s) (map (\<lambda>e. (pe_ns e, pe_id e)) (filter Q (store_index s))) =
      map pe_key (filter Q (store_index s))"
    unfolding map_map by (rule map_cong) (use key in auto)
  ultimately have "sorted (map (mark_key s) (map (\<lambda>e. (pe_ns e, pe_id e)) (filter Q (store_index s))))"
    by (simp only:)
  moreover have "set (map (\<lambda>e. (pe_ns e, pe_id e)) (filter Q (store_index s))) =
      {(ns, i). case ext_get ns i s of Some m \<Rightarrow> P m | None \<Rightarrow> False}" (is "?A = ?B")
  proof (rule set_eqI)
    fix x :: "nat \<times> nat" obtain ns i where x: "x = (ns, i)" by (cases x)
    have "x \<in> ?A \<longleftrightarrow> (\<exists>e. e \<in> set (store_index s) \<and> Q e \<and> pe_ns e = ns \<and> pe_id e = i)"
      by (auto simp: x)
    also have "\<dots> \<longleftrightarrow> (\<exists>m. ext_get ns i s = Some m \<and> P m)"
    proof
      assume "\<exists>e. e \<in> set (store_index s) \<and> Q e \<and> pe_ns e = ns \<and> pe_id e = i"
      then show "\<exists>m. ext_get ns i s = Some m \<and> P m" using member Q by metis
    next
      assume "\<exists>m. ext_get ns i s = Some m \<and> P m"
      then obtain m where m: "ext_get ns i s = Some m" "P m" by blast
      have "em_id m = i"
        using m(1) wf_slotsD(3)[OF slots]
        by (fastforce simp: ext_get_def wf_slot_def list_all_iff split: option.splits dest: map_of_SomeD)
      then show "\<exists>e. e \<in> set (store_index s) \<and> Q e \<and> pe_ns e = ns \<and> pe_id e = i"
        using m Q by (intro exI[of _ "entry_of ns m"]) (simp add: member)
    qed
    finally show "x \<in> ?A \<longleftrightarrow> x \<in> ?B" by (auto simp: x split: option.splits)
  qed
  ultimately show ?thesis using dist by (simp only: lists_marks_def)
qed

lemma takeWhile_shorter: "(\<And>x. P x \<Longrightarrow> Q x) \<Longrightarrow> length (takeWhile P xs) \<le> length (takeWhile Q xs)"
  by (induction xs) auto

lemma starting_in_filter:
  assumes "wf_store gw s"
  shows "starting_in lo hi s =
    map (\<lambda>e. (pe_ns e, pe_id e)) (filter (\<lambda>e. lo \<le> pe_start e \<and> pe_start e < hi) (store_index s))"
proof -
  let ?es = "store_index s" and ?P = "\<lambda>e. pe_start e < lo" and ?Q = "\<lambda>e. pe_start e < hi"
  have sorted: "sorted (map pe_key ?es)" by (simp add: store_index_sorts[OF assms])
  have "drop (partition_point ?P ?es) (take (max (partition_point ?Q ?es) (partition_point ?P ?es)) ?es) =
      filter (\<lambda>e. lo \<le> pe_start e \<and> pe_start e < hi) ?es"
  proof (cases "hi \<le> lo")
    case True
    have "partition_point ?Q ?es \<le> partition_point ?P ?es"
      unfolding partition_point_def by (rule takeWhile_shorter) (use True in auto)
    with True show ?thesis by (auto simp: max_def filter_empty_conv)
  next
    case False
    have "partition_point ?P ?es \<le> partition_point ?Q ?es"
      unfolding partition_point_def by (rule takeWhile_shorter) (use False in auto)
    moreover have "take (partition_point ?Q ?es) ?es = filter ?Q ?es"
      using split_sorted[OF sorted, of ?Q] by (simp add: take_partition)
    moreover have "drop (partition_point ?P ?es) (filter ?Q ?es) = filter (\<lambda>e. lo \<le> pe_start e \<and> pe_start e < hi) ?es"
    proof -
      have fs: "sorted (map pe_key (filter ?Q ?es))" using sorted by (rule sorted_filter)
      have "takeWhile ?P (filter ?Q ?es) = takeWhile ?P ?es"
        using split_sorted(1)[OF fs, of ?P] split_sorted(1)[OF sorted, of ?P] False
        by (auto simp: filter_filter intro!: filter_cong)
      then have "partition_point ?P ?es = partition_point ?P (filter ?Q ?es)"
        by (simp add: partition_point_def)
      then have "drop (partition_point ?P ?es) (filter ?Q ?es) = dropWhile ?P (filter ?Q ?es)"
        by (simp only: drop_partition)
      also have "\<dots> = filter (\<lambda>e. \<not> ?P e) (filter ?Q ?es)" using split_sorted(2)[OF fs, of ?P] by simp
      also have "\<dots> = filter (\<lambda>e. lo \<le> pe_start e \<and> pe_start e < hi) ?es"
        unfolding filter_filter by (rule filter_cong) auto
      finally show ?thesis .
    qed
    ultimately show ?thesis by (simp add: max_absorb1)
  qed
  then show ?thesis by (simp add: starting_in_def Let_def)
qed

lemma nth_filter_upt:
  "map (\<lambda>i. f (xs ! i)) (filter (\<lambda>i. P (xs ! i)) [0..<length xs]) = map f (filter P xs)"
proof -
  have "filter P xs = map ((!) xs) (filter (\<lambda>i. P (xs ! i)) [0..<length xs])"
    using filter_map[of P "(!) xs" "[0..<length xs]"] by (simp add: map_nth comp_def)
  then show ?thesis by (simp add: comp_def)
qed

lemma prefix_index:
  assumes "takeWhile Q xs = filter Q xs" and "i < length xs"
  shows "i < partition_point Q xs \<longleftrightarrow> Q (xs ! i)"
proof
  assume i: "i < partition_point Q xs"
  then have "xs ! i = takeWhile Q xs ! i" by (simp add: partition_point_def takeWhile_nth)
  moreover have "takeWhile Q xs ! i \<in> set (takeWhile Q xs)" using i by (simp add: partition_point_def)
  ultimately show "Q (xs ! i)" using set_takeWhileD by metis
next
  assume Q: "Q (xs ! i)"
  show "i < partition_point Q xs"
  proof (rule ccontr)
    assume "\<not> i < partition_point Q xs"
    then have "drop (partition_point Q xs) xs ! (i - partition_point Q xs) = xs ! i"
      and "i - partition_point Q xs < length (drop (partition_point Q xs) xs)"
      using assms(2) by simp_all
    then have "xs ! i \<in> set (dropWhile Q xs)" unfolding drop_partition[symmetric] by (metis nth_mem)
    moreover have "filter Q (takeWhile Q xs) @ filter Q (dropWhile Q xs) = filter Q xs"
      by (simp flip: filter_append)
    then have "filter Q (dropWhile Q xs) = []"
      using assms(1) by (metis append_self_conv filter_id_conv set_takeWhileD)
    ultimately show False using Q by (simp add: filter_empty_conv)
  qed
qed

lemma ext_reaching_filter:
  assumes "wf_store gw s"
  shows "ext_reaching lo hi s = Some (map (\<lambda>e. (pe_ns e, pe_id e))
    (filter (\<lambda>e. pe_start e < hi \<and> lo \<le> pe_end e) (store_index s)))"
proof -
  let ?es = "store_index s" and ?Q = "\<lambda>e. pe_start e < hi"
  have sorted: "sorted (map pe_key ?es)" by (simp add: store_index_sorts[OF assms])
  have split: "takeWhile ?Q ?es = filter ?Q ?es"
    by (rule split_sorted(1)[OF sorted]) simp
  have le: "partition_point ?Q ?es \<le> length ?es"
    by (simp add: partition_point_def length_takeWhile_le)
  have "filter (\<lambda>i. i < partition_point ?Q ?es \<and> lo \<le> leaf_end ?es i) [0..<tree_leaves ?es] =
      filter (\<lambda>i. i < partition_point ?Q ?es \<and> lo \<le> leaf_end ?es i) [0..<length ?es]"
  proof -
    have "[0..<tree_leaves ?es] = [0..<length ?es] @ [length ?es..<tree_leaves ?es]"
      using tree_leaves_covers[of ?es] upt_add_eq_append[of 0 "length ?es" "tree_leaves ?es - length ?es"]
      by simp
    moreover have "filter (\<lambda>i. i < partition_point ?Q ?es \<and> lo \<le> leaf_end ?es i)
        [length ?es..<tree_leaves ?es] = []"
      using le by (auto simp: filter_empty_conv)
    ultimately show ?thesis by simp
  qed
  also have "\<dots> = filter (\<lambda>i. ?Q (?es ! i) \<and> lo \<le> pe_end (?es ! i)) [0..<length ?es]"
    by (rule filter_cong) (auto simp: leaf_end_def prefix_index[OF split])
  finally show ?thesis
    using nth_filter_upt[of "\<lambda>e. (pe_ns e, pe_id e)" ?es "\<lambda>e. ?Q e \<and> lo \<le> pe_end e"]
    by (simp add: ext_reaching_def Let_def positions_reaching_hits)
qed

section \<open>Properties\<close>

text \<open>Whatever was set, deleted, cleared, edited, restored or queried before, the marks
  starting in a range are listed exactly once each, in position order.\<close>

theorem starting_in_exact:
  "lists_marks (store_runs gw c ops) (\<lambda>m. lo \<le> em_start m \<and> em_start m < hi)
     (starting_in lo hi (store_runs gw c ops))"
  unfolding starting_in_filter[OF store_runs_wf]
  by (rule filtered_index_lists[OF store_runs_wf]) (simp add: entry_of_def)

definition reaches :: "nat \<Rightarrow> nat \<Rightarrow> extmark \<Rightarrow> bool" where
  "reaches lo hi m \<longleftrightarrow> em_start m < hi \<and> lo \<le> (case em_end m of Some e \<Rightarrow> e | None \<Rightarrow> em_start m)"

text \<open>C12. The search of the max-end tree always returns, and lists exactly the marks that reach
  into the range, once each and in position order.\<close>

theorem reaching_exact:
  "\<exists>ms. ext_reaching lo hi (store_runs gw c ops) = Some ms \<and>
     lists_marks (store_runs gw c ops) (reaches lo hi) ms"
proof (intro exI conjI)
  show "ext_reaching lo hi (store_runs gw c ops) = Some (map (\<lambda>e. (pe_ns e, pe_id e))
      (filter (\<lambda>e. pe_start e < hi \<and> lo \<le> pe_end e) (store_index (store_runs gw c ops))))"
    by (rule ext_reaching_filter[OF store_runs_wf])
  show "lists_marks (store_runs gw c ops) (reaches lo hi) (map (\<lambda>e. (pe_ns e, pe_id e))
      (filter (\<lambda>e. pe_start e < hi \<and> lo \<le> pe_end e) (store_index (store_runs gw c ops))))"
    by (rule filtered_index_lists[OF store_runs_wf]) (simp add: entry_of_def reaches_def)
qed

end
