(* ===== verification/ExtmarkUndo.thy ===== *)
theory ExtmarkUndo
  imports ExtmarkQuery
begin

text \<open>
  Marks across time: the counters the view reads always agree with the marks, a range keeps or
  swallows the text its gravity promises, and undo's \<open>adopt_positions_from\<close> returns every
  placement its snapshot still shares to where it was, leaving the set of marks alone.
\<close>

section \<open>Lookups after each operation\<close>

lemma all_marks_get:
  assumes "wf_slots (by_ns s)"
  shows "m \<in> set (all_marks (by_ns s)) \<longleftrightarrow> (\<exists>ns i. ext_get ns i s = Some m)"
proof
  assume "m \<in> set (all_marks (by_ns s))"
  then obtain ns slot where slot: "(ns, slot) \<in> set (by_ns s)" and m: "m \<in> set (slot_marks slot)"
    by (force simp: all_marks_def gather_def)
  have "entry_of ns m \<in> set (entries (by_ns s))"
    using slot m by (force simp: entries_def gather_def)
  have dist: "map_of (by_ns s) ns = Some slot" "distinct (map fst (marks slot))"
    using slot wf_slotsD(1)[OF assms] wf_slotsD(2)[OF assms slot]
    by (simp_all add: wf_slot_def keys_sorted_distinct)
  from m obtain i where "(i, m) \<in> set (marks slot)" by (auto simp: slot_marks_def)
  with dist have "ext_get ns i s = Some m" by (simp add: ext_get_def)
  then show "\<exists>ns i. ext_get ns i s = Some m" by blast
next
  assume "\<exists>ns i. ext_get ns i s = Some m"
  then obtain ns i where get: "ext_get ns i s = Some m" by blast
  then obtain slot where "map_of (by_ns s) ns = Some slot" "map_of (marks slot) i = Some m"
    by (cases "map_of (by_ns s) ns") (auto simp: ext_get_def)
  then have "(ns, slot) \<in> set (by_ns s)" "(i, m) \<in> set (marks slot)" by (simp_all add: map_of_SomeD)
  then show "m \<in> set (all_marks (by_ns s))" by (force simp: all_marks_def gather_def slot_marks_def)
qed

lemma map_of_map_slots: "map_of (map (\<lambda>(k, v). (k, h k v)) xs) k = map_option (h k) (map_of xs k)"
  by (induction xs) auto

lemma get_map_slots:
  assumes "by_ns s' = map (\<lambda>(ns, slot). (ns, h ns slot)) (by_ns s)"
    and "\<And>ns slot. marks (h ns slot) = map (\<lambda>(i, m). (i, g ns i m)) (marks slot)"
  shows "ext_get ns i s' = map_option (g ns i) (ext_get ns i s)"
  by (simp add: ext_get_def assms map_of_map_slots split: option.splits)

lemma get_update:
  assumes "by_ns s' = AList.update ns slot (by_ns s)"
  shows "ext_get ns' i s' = (if ns' = ns then map_of (marks slot) i else ext_get ns' i s)"
  by (simp add: ext_get_def assms update_conv')

lemma shift_mark_noop: "em_start (shift_mark s s s m) = em_start m"
  by (simp add: shift_mark_def shift_by_def shift_right_gravity_def shift_left_gravity_def moved_def)

lemma get_shift:
  "ext_get ns i (ext_shift s o' n st) =
     map_option (if o' = s \<and> n = s then id else shift_mark s o' n) (ext_get ns i st)"
proof (cases "o' = s \<and> n = s")
  case True
  then show ?thesis by (simp add: ext_shift_def option.map_id)
next
  case False
  have "ext_get ns i (ext_shift s o' n st) = map_option (shift_mark s o' n) (ext_get ns i st)"
    by (rule get_map_slots[where h = "\<lambda>ns slot. slot\<lparr>marks := map (\<lambda>(i, m). (i, shift_mark s o' n m)) (marks slot),
      run := map_option (positions_shift s o' n) (run slot)\<rparr>"])
      (simp_all only: ext_shift_def if_not_P[OF False], simp_all)
  then show ?thesis unfolding if_not_P[OF False] .
qed

lemma get_adopt:
  "ext_get ns i (snd (adopt_positions_from snap len skip (c, s))) =
     map_option (if ns \<in> set skip then id else ext_adopt_mark (map_of (by_ns snap) ns) len i) (ext_get ns i s)"
proof -
  have "ext_get ns i (snd (adopt_positions_from snap len skip (c, s))) =
     map_option ((\<lambda>ns i. if ns \<in> set skip then id else ext_adopt_mark (map_of (by_ns snap) ns) len i) ns i)
       (ext_get ns i s)"
    by (rule get_map_slots[where h = "\<lambda>ns slot. if ns \<in> set skip then slot
      else slot\<lparr>run := None, marks := map (\<lambda>(i, m).
        (i, ext_adopt_mark (map_of (by_ns snap) ns) len i m)) (marks slot)\<rparr>"])
      (simp_all add: adopt_positions_from_def split_def)
  then show ?thesis by simp
qed

lemma get_fill: "ext_get ns i (fill_index s) = ext_get ns i s"
proof (cases "index s")
  case None
  have "ext_get ns i (fill_index s) = map_option (\<lambda>m. m) (ext_get ns i s)"
    by (rule get_map_slots[where h = "\<lambda>ns slot. if marks slot \<noteq> [] then slot\<lparr>run := Some (ns_index ns slot)\<rparr>
      else slot"]) (simp_all add: fill_index_def None)
  then show ?thesis by (simp add: option.map_ident)
qed (simp add: fill_index_def)

section \<open>Counters\<close>

text \<open>C13. The O(1) answers of the view agree with the marks there are: virtual lines are reported
  exactly when some mark has them, and the gutter text column is as wide as the widest text.\<close>

theorem counters_exact:
  "(store_has_virt_lines (store_runs gw c ops) \<longleftrightarrow>
      (\<exists>ns i m. ext_get ns i (store_runs gw c ops) = Some m \<and> has_virt_lines m)) \<and>
   gutter_text_width (store_runs gw c ops) =
      Max (insert 0 {w. \<exists>ns i m. ext_get ns i (store_runs gw c ops) = Some m \<and> w = gutter_width gw m})"
proof -
  let ?s = "store_runs gw c ops" and ?A = "set (all_marks (by_ns (store_runs gw c ops)))"
  have wf: "wf_slots (by_ns ?s)" "counts_ok gw ?s"
    using store_runs_wf by (simp_all add: wf_store_def)
  have "virt_lines_marks ?s = size (filter_mset has_virt_lines (mset (all_marks (by_ns ?s))))"
    using wf(2) unfolding counts_ok_def by blast
  then have "store_has_virt_lines ?s \<longleftrightarrow> filter_mset has_virt_lines (mset (all_marks (by_ns ?s))) \<noteq> {#}"
    unfolding store_has_virt_lines_def nonempty_has_size by (simp only:)
  also have "\<dots> \<longleftrightarrow> (\<exists>m \<in> ?A. has_virt_lines m)"
    by (simp add: filter_empty_conv flip: mset_filter)
  finally have virt: "store_has_virt_lines ?s \<longleftrightarrow> (\<exists>ns i m. ext_get ns i ?s = Some m \<and> has_virt_lines m)"
    using all_marks_get[OF wf(1)] by blast
  let ?M = "image_mset (gutter_width gw) (mset (all_marks (by_ns ?s)))"
  have ok: "widths_ok (gutter_widths ?s) ?M" using wf(2) by (simp add: counts_ok_def)
  have set: "set_mset ?M = {w. \<exists>ns i m. ext_get ns i ?s = Some m \<and> w = gutter_width gw m}"
    using all_marks_get[OF wf(1)] by auto blast
  have "gutter_text_width ?s = Max (insert 0 (set_mset ?M))"
  proof (cases "gutter_widths ?s = []")
    case True
    with ok have "w = 0" if "w \<in># ?M" for w using widths_ok_empty that by metis
    then have eq: "insert 0 (set_mset ?M) = {0}" by blast
    show ?thesis unfolding gutter_text_width_def eq using True by simp
  next
    case False
    from widths_ok_max[OF ok False] have max: "fst (last (gutter_widths ?s)) = Max (set_mset ?M)"
      and pos: "0 < Max (set_mset ?M)" by simp_all
    then have "set_mset ?M \<noteq> {}" using False ok
      by (cases "gutter_widths ?s") (auto simp: widths_ok_def fun_eq_iff split: if_splits)
    with max show ?thesis using False unfolding gutter_text_width_def by (simp add: Max_insert)
  qed
  with virt set show ?thesis by (simp only:)
qed

section \<open>Ranges and the text under them\<close>

text \<open>The text the range of a mark covers, and a buffer with the \<open>d\<close> bytes at \<open>p\<close> replaced.\<close>

definition covered :: "'a list \<Rightarrow> extmark \<Rightarrow> 'a list" where
  "covered T m = (case em_end m of Some e \<Rightarrow> drop (em_start m) (take e T) | None \<Rightarrow> [])"

definition spliced :: "nat \<Rightarrow> nat \<Rightarrow> 'a list \<Rightarrow> 'a list \<Rightarrow> 'a list" where
  "spliced p d new T = take p T @ new @ drop (p + d) T"

lemma slice_after:
  assumes "p + d \<le> b" and "b \<le> e" and "e \<le> length T"
  shows "drop (b - (p + d) + (p + length new)) (take (e - (p + d) + (p + length new)) (spliced p d new T)) =
    drop b (take e T)"
proof -
  have "take (e - (p + d) + (p + length new)) (spliced p d new T) =
      take p T @ new @ take (e - (p + d)) (drop (p + d) T)"
    using assms by (simp add: spliced_def add.commute[of d p])
  then have "drop (b - (p + d) + (p + length new)) (take (e - (p + d) + (p + length new)) (spliced p d new T)) =
      drop (b - (p + d)) (take (e - (p + d)) (drop (p + d) T))"
    using assms by (simp add: add.commute[of d p])
  also have "\<dots> = drop b (take e T)" using assms by (simp add: drop_take)
  finally show ?thesis .
qed

lemma slice_before:
  "e \<le> p \<Longrightarrow> p \<le> length T \<Longrightarrow> drop b (take e (spliced p d new T)) = drop b (take e T)"
  by (simp add: spliced_def min_absorb1)

lemma shift_mark_default:
  assumes "right_gravity m" and "\<not> end_right_gravity m" and "em_end m = Some e"
    and "em_start m < e" and "p + d \<le> em_start m \<or> e \<le> p"
  shows "em_start (shift_mark p (p + d) (p + k) m) =
      (if e \<le> p then em_start m else em_start m - (p + d) + (p + k))"
    and "em_end (shift_mark p (p + d) (p + k) m) = Some (if e \<le> p then e else e - (p + d) + (p + k))"
  using assms by (auto simp: shift_mark_def shift_by_def shift_right_gravity_def
      shift_left_gravity_def moved_simp Let_def)

text \<open>A store with one mark over bytes 2 to 5, for the examples.\<close>

definition one_mark :: "bool \<Rightarrow> bool \<Rightarrow> ext_store" where
  "one_mark rg erg = store_runs (\<lambda>_. 0) 0 [EmSet 1 None 2 (Some 5) None 0 None rg erg]"

lemma one_mark_get:
  "ext_get 1 0 (one_mark rg erg) =
     Some \<lparr>em_id = 0, em_start = 2, em_end = Some 5, em_hl_group = None, em_priority = 0, em_decor = None,
       right_gravity = rg, end_right_gravity = erg, serial = 1\<rparr>"
  by (simp add: one_mark_def store_runs_def ext_set_with_gravity_def store_default_def slot_or_default_def
      ns_default_def Let_def ns_touch_def ext_get_def)

text \<open>With the default gravity, an edit outside a highlighted range, typing right at either of
  its boundaries included, leaves the highlighted text the same.\<close>

theorem highlight_keeps_text:
  assumes "ext_get ns i (store_runs gw c ops) = Some m"
    and "right_gravity m" and "\<not> end_right_gravity m" and "em_end m = Some e" and "em_start m < e"
    and "e \<le> length T" and "p + d \<le> length T" and "p + d \<le> em_start m \<or> e \<le> p"
  shows "\<exists>m'. ext_get ns i (ext_shift p (p + d) (p + length new) (store_runs gw c ops)) = Some m' \<and>
    covered (spliced p d new T) m' = covered T m"
proof (cases "d = 0 \<and> new = []")
  case True
  with assms(1) show ?thesis by (simp add: get_shift spliced_def)
next
  case False
  let ?m = "shift_mark p (p + d) (p + length new) m"
  have "ext_get ns i (ext_shift p (p + d) (p + length new) (store_runs gw c ops)) = Some ?m"
    using False assms(1) by (auto simp: get_shift)
  moreover have "covered (spliced p d new T) ?m = covered T m"
  proof (cases "e \<le> p")
    case True
    then show ?thesis
      using assms(4,7) by (simp add: covered_def shift_mark_default[OF assms(2-5,8)] slice_before)
  next
    case after: False
    then have "p + d \<le> em_start m" using assms(8) by blast
    then show ?thesis
      unfolding covered_def shift_mark_default[OF assms(2-5,8)] if_not_P[OF after] assms(4) option.case
      by (rule slice_after) (use assms(5,6) in auto)
  qed
  ultimately show ?thesis by blast
qed

theorem highlight_keeps_text_witness:
  "\<exists>m'. ext_get 1 0 (ext_shift 2 (2 + 0) (2 + length [9]) (one_mark True False)) = Some m' \<and>
     covered (spliced 2 0 [9] [0, 1, 2, 3, 4, 5::nat]) m' = [2, 3, 4]"
  using highlight_keeps_text[OF one_mark_get[of True False, unfolded one_mark_def], of 5 "[0, 1, 2, 3, 4, 5::nat]" 2 0 "[9]"]
  by (simp add: covered_def one_mark_def)

lemma shift_mark_growing:
  assumes "\<not> right_gravity m" and "end_right_gravity m" and "em_end m = Some e"
    and "em_start m \<le> p" and "p + d \<le> e"
  shows "em_start (shift_mark p (p + d) (p + k) m) = em_start m"
    and "em_end (shift_mark p (p + d) (p + k) m) = Some (e - d + k)"
  using assms by (auto simp: shift_mark_def shift_by_def shift_right_gravity_def
      shift_left_gravity_def moved_simp Let_def)

text \<open>A growing range (a live snippet tabstop: left gravity at its start, right at its end)
  swallows every edit inside it or at its boundaries, even when it was empty.\<close>

theorem tabstop_swallows_edit:
  assumes "ext_get ns i (store_runs gw c ops) = Some m"
    and "\<not> right_gravity m" and "end_right_gravity m" and "em_end m = Some e"
    and "e \<le> length T" and "em_start m \<le> p" and "p + d \<le> e"
  shows "\<exists>m'. ext_get ns i (ext_shift p (p + d) (p + length new) (store_runs gw c ops)) = Some m' \<and>
    covered (spliced p d new T) m' = spliced (p - em_start m) d new (covered T m)"
proof -
  let ?b = "em_start m"
  have swallowed: "drop ?b (take (e - d + length new) (spliced p d new T)) =
      spliced (p - ?b) d new (drop ?b (take e T))"
  proof -
    have "take (e - d + length new) (spliced p d new T) =
        take p T @ new @ take (e - (p + d)) (drop (p + d) T)"
      using assms(5,7) by (simp add: spliced_def add.commute[of d p])
    then have "drop ?b (take (e - d + length new) (spliced p d new T)) =
        drop ?b (take p T) @ new @ take (e - (p + d)) (drop (p + d) T)"
      using assms(5-7) by simp
    also have "drop ?b (take p T) = take (p - ?b) (drop ?b (take e T))"
      using assms(6,7) by (simp add: take_drop min_absorb1)
    also have "take (e - (p + d)) (drop (p + d) T) = drop (p - ?b + d) (drop ?b (take e T))"
    proof -
      have "p - ?b + d + ?b = p + d" and "e - ?b - (p - ?b + d) = e - (p + d)"
        using assms(6) by simp_all
      then show ?thesis by (simp only: drop_drop drop_take)
    qed
    finally show ?thesis unfolding spliced_def[of "p - ?b"] .
  qed
  show ?thesis
  proof (cases "d = 0 \<and> new = []")
    case True
    then show ?thesis using assms(1) by (simp add: get_shift spliced_def)
  next
    case False
    let ?m = "shift_mark p (p + d) (p + length new) m"
    have "ext_get ns i (ext_shift p (p + d) (p + length new) (store_runs gw c ops)) = Some ?m"
      using False assms(1) by (auto simp: get_shift)
    moreover have "covered (spliced p d new T) ?m = spliced (p - ?b) d new (covered T m)"
      using swallowed assms(4) by (simp add: covered_def shift_mark_growing[OF assms(2-4,6,7)])
    ultimately show ?thesis by blast
  qed
qed

theorem tabstop_swallows_edit_witness:
  "\<exists>m'. ext_get 1 0 (ext_shift 5 (5 + 0) (5 + length [9]) (one_mark False True)) = Some m' \<and>
     covered (spliced 5 0 [9] [0, 1, 2, 3, 4, 5::nat]) m' = [2, 3, 4, 9]"
  using tabstop_swallows_edit[OF one_mark_get[of False True, unfolded one_mark_def], of 5 "[0, 1, 2, 3, 4, 5::nat]" 5 0 "[9]"]
  by (simp add: covered_def one_mark_def spliced_def)

section \<open>Undo\<close>

text \<open>The same placement, apart from where the edits since have moved it.\<close>

definition same_placement :: "extmark \<Rightarrow> extmark \<Rightarrow> bool" where
  "same_placement m m' \<longleftrightarrow> m' = m\<lparr>em_start := em_start m', em_end := em_end m'\<rparr>"

definition placed :: "ext_store \<Rightarrow> ext_store \<Rightarrow> bool" where
  "placed s0 s \<longleftrightarrow> next_serial s0 \<le> next_serial s \<and>
     (\<forall>ns i m. ext_get ns i s = Some m \<longrightarrow>
        serial m \<le> next_serial s \<and>
        (serial m \<le> next_serial s0 \<longrightarrow> (\<exists>m0. ext_get ns i s0 = Some m0 \<and> same_placement m0 m)))"

lemma same_placement_refl [simp]: "same_placement m m"
  by (simp add: same_placement_def)

lemma same_placement_trans: "same_placement m m' \<Longrightarrow> same_placement m' m'' \<Longrightarrow> same_placement m m''"
  unfolding same_placement_def by (cases m; cases m'; cases m'') simp

lemma same_placement_serial: "same_placement m m' \<Longrightarrow> serial m' = serial m"
  unfolding same_placement_def by (cases m; cases m') simp

lemma placed_kept:
  assumes "placed s0 s" and "next_serial s' = next_serial s"
    and "\<And>ns i m. ext_get ns i s' = Some m \<Longrightarrow> \<exists>m1. ext_get ns i s = Some m1 \<and> same_placement m1 m"
  shows "placed s0 s'"
  unfolding placed_def
proof (intro conjI allI impI)
  show "next_serial s0 \<le> next_serial s'" using assms by (simp add: placed_def)
  fix ns i m assume "ext_get ns i s' = Some m"
  with assms(3) obtain m1 where m1: "ext_get ns i s = Some m1" "same_placement m1 m" by blast
  with assms(1,2) show "serial m \<le> next_serial s'"
    by (auto simp: placed_def same_placement_serial)
  assume "serial m \<le> next_serial s0"
  with assms(1) m1 obtain m0 where "ext_get ns i s0 = Some m0" "same_placement m0 m1"
    unfolding placed_def same_placement_serial[OF m1(2)] by blast
  with m1(2) show "\<exists>m0. ext_get ns i s0 = Some m0 \<and> same_placement m0 m"
    by (blast intro: same_placement_trans)
qed

lemma shift_same_placement: "same_placement m (shift_mark s o' n m)"
  by (simp add: same_placement_def shift_mark_def Let_def)

lemma adopt_same_placement: "same_placement m (ext_adopt_mark theirs len i m)"
  by (simp add: same_placement_def ext_adopt_mark_def Let_def split: option.splits)


text \<open>A mark placed now has a serial no snapshot knows.\<close>

lemma placed_new:
  assumes "placed s0 s" and "next_serial s' = next_serial s + 1"
    and "ext_get ns i s' = Some new" and "serial new = next_serial s + 1"
    and "\<And>ns' i'. (ns', i') \<noteq> (ns, i) \<Longrightarrow> ext_get ns' i' s' = ext_get ns' i' s"
  shows "placed s0 s'"
  unfolding placed_def
proof (intro conjI allI impI)
  have le: "next_serial s0 \<le> next_serial s" using assms(1) by (simp add: placed_def)
  then show "next_serial s0 \<le> next_serial s'" using assms(2) by simp
  fix ns' i' m assume m: "ext_get ns' i' s' = Some m"
  show "serial m \<le> next_serial s'"
  proof (cases "(ns', i') = (ns, i)")
    case True
    with m assms(2-4) show ?thesis by simp
  next
    case False
    with m assms(5) have "ext_get ns' i' s = Some m" by simp
    with assms(1) have "serial m \<le> next_serial s" unfolding placed_def by blast
    with assms(2) show ?thesis by simp
  qed
  assume old: "serial m \<le> next_serial s0"
  have "(ns', i') \<noteq> (ns, i)"
  proof
    assume "(ns', i') = (ns, i)"
    with m assms(3,4) old le show False by simp
  qed
  with m assms(5) have "ext_get ns' i' s = Some m" by simp
  with assms(1) old show "\<exists>m0. ext_get ns' i' s0 = Some m0 \<and> same_placement m0 m"
    unfolding placed_def by blast
qed

lemma set_placed:
  assumes wf: "wf_store gw (snd st)" and placed: "placed s0 (snd st)"
  shows "placed s0 (snd (snd (ext_set_with_gravity gw ns want b e hl prio dec rg erg st)))"
proof -
  obtain c s where st: "st = (c, s)" by (cases st)
  let ?s = "s\<lparr>generation := next_stamp c, index := None\<rparr>"
  let ?slot = "slot_or_default ns ?s"
  obtain i nid where want: "(case want of
      Some i \<Rightarrow> (i, ?slot\<lparr>next_id := max (next_id ?slot) (succ_sat i)\<rparr>)
    | None \<Rightarrow> (next_id ?slot, ?slot\<lparr>next_id := succ_sat (next_id ?slot)\<rparr>)) = (i, ?slot\<lparr>next_id := nid\<rparr>)"
    by (cases want) auto
  define m where "m = \<lparr>em_id = i, em_start = b, em_end = e, em_hl_group = hl, em_priority = prio,
    em_decor = dec, right_gravity = rg, end_right_gravity = erg, serial = next_serial s + 1\<rparr>"
  let ?new = "snd (ns_touch (next_stamp c) (?slot\<lparr>next_id := nid, marks := bt_insert i m (marks ?slot)\<rparr>))"
  let ?s' = "snd (snd (ext_set_with_gravity gw ns want b e hl prio dec rg erg st))"
  have bs: "by_ns ?s' = AList.update ns ?new (by_ns s)"
    by (simp add: ext_set_with_gravity_def st want m_def ns_touch_def Let_def)
  have "wf_slots (by_ns ?s)" using wf by (simp add: wf_store_def st)
  then have "wf_slot ns ?slot" by (rule slot_or_default_wf)
  then have look: "map_of (marks ?new) = (map_of (marks ?slot))(i \<mapsto> m)"
    by (simp add: ns_touch_def wf_slot_def bt_insert_lookup)
  have old: "map_of (marks ?slot) i' = ext_get ns i' s" for i'
    by (simp add: slot_or_default_def ext_get_def ns_default_def split: option.splits)
  show ?thesis
  proof (rule placed_new[OF placed])
    show "next_serial ?s' = next_serial (snd st) + 1"
      by (simp add: ext_set_with_gravity_def st want ns_touch_def Let_def)
    show "ext_get ns i ?s' = Some m" unfolding get_update[OF bs] look by simp
    show "serial m = next_serial (snd st) + 1" by (simp add: m_def st)
    show "ext_get ns' i' ?s' = ext_get ns' i' (snd st)" if "(ns', i') \<noteq> (ns, i)" for ns' i'
      using that unfolding get_update[OF bs] look by (auto simp: old st)
  qed
qed

lemma del_get:
  "ext_get ns' i' (snd (snd (ext_del gw ns i st))) = Some m \<Longrightarrow> ext_get ns' i' (snd st) = Some m"
  "next_serial (snd (snd (ext_del gw ns i st))) = next_serial (snd st)"
  by (cases st; auto simp: ext_del_def Let_def ext_get_def ns_touch_def update_conv' bt_remove_lookup
      split: option.splits if_splits)+

lemma map_of_filter_some:
  "distinct (map fst xs) \<Longrightarrow> map_of (filter P xs) k = Some v \<Longrightarrow> map_of xs k = Some v"
  by (auto dest!: map_of_SomeD intro!: map_of_is_SomeI)

lemma clear_get:
  assumes "wf_store gw (snd st)" and "ext_get ns' i' (snd (ext_clear gw ns rng st)) = Some m"
  shows "ext_get ns' i' (snd st) = Some m"
proof -
  obtain c s where st: "st = (c, s)" by (cases st)
  show ?thesis
  proof (cases "map_of (by_ns s) ns")
    case None
    with assms(2) show ?thesis by (simp add: ext_clear_def st ext_get_def)
  next
    case (Some slot)
    have "distinct (map fst (marks slot))"
      using assms(1) Some by (auto simp: st wf_store_def wf_slot_def keys_sorted_distinct dest: wf_slotsD(3))
    note kept = map_of_filter_some[OF this, of "\<lambda>(i, m). \<not> in_range rng m" i' m]
    show ?thesis
    proof (cases "ns' = ns")
      case True
      with Some assms(2) have "map_of (filter (\<lambda>(i, m). \<not> in_range rng m) (marks slot)) i' = Some m"
        by (simp add: ext_clear_def st ext_get_def Let_def ns_touch_def update_conv')
      with True Some show ?thesis by (simp only: kept ext_get_def st snd_conv option.case)
    next
      case False
      with Some assms(2) show ?thesis
        by (simp add: ext_clear_def st ext_get_def Let_def ns_touch_def update_conv')
    qed
  qed
qed

lemma clear_serial: "next_serial (snd (ext_clear gw ns rng st)) = next_serial (snd st)"
  by (cases st) (simp add: ext_clear_def Let_def ns_touch_def split: option.splits)

lemma shift_serial: "next_serial (ext_shift s o' n st) = next_serial st"
  by (simp add: ext_shift_def)

lemma fill_serial: "next_serial (fill_index s) = next_serial s"
  by (simp add: fill_index_def split: option.splits)

lemma adopt_serial: "next_serial (snd (adopt_positions_from snap len skip st)) = next_serial (snd st)"
  by (cases st) (simp add: adopt_positions_from_def)

text \<open>Every operation keeps the placements a snapshot can recognise.\<close>

interpretation history: guarded_system "em_step gw" "\<lambda>st. wf_store gw (snd st) \<and> placed s0 (snd st)"
  for gw s0
proof
  fix st :: stamped and op assume pre: "wf_store gw (snd st) \<and> placed s0 (snd st)"
  then have placed: "placed s0 (snd st)" by blast
  obtain c s where st: "st = (c, s)" by (cases st)
  have "placed s0 (snd (em_step gw st op))"
  proof (cases op)
    case (EmSet ns want b e hl prio dec rg erg)
    with pre show ?thesis by (simp add: set_placed)
  next
    case (EmDel ns i)
    show ?thesis unfolding EmDel em_step.simps
      by (rule placed_kept[OF placed del_get(2)]) (use del_get(1) same_placement_refl in blast)
  next
    case (EmClear ns rng)
    show ?thesis unfolding EmClear em_step.simps
      by (rule placed_kept[OF placed clear_serial])
        (use pre clear_get[of gw st] same_placement_refl in blast)
  next
    case EmClearAll
    show ?thesis unfolding EmClearAll em_step.simps
      by (rule placed_kept[OF placed]) (simp_all add: st ext_clear_all_def ext_get_def)
  next
    case (EmEdit p d k)
    show ?thesis unfolding EmEdit em_step.simps snd_conv
      by (rule placed_kept[OF placed shift_serial])
        (use shift_same_placement in \<open>auto simp: get_shift split: if_splits\<close>)
  next
    case (EmAdopt snap len skip)
    show ?thesis unfolding EmAdopt em_step.simps
      by (rule placed_kept[OF placed adopt_serial])
        (use adopt_same_placement in \<open>auto simp: st get_adopt split: if_splits\<close>)
  next
    case EmQuery
    show ?thesis unfolding EmQuery em_step.simps snd_conv
      by (rule placed_kept[OF placed fill_serial]) (simp add: get_fill)
  qed
  with pre show "wf_store gw (snd (em_step gw st op)) \<and> placed s0 (snd (em_step gw st op))"
    by (simp add: em.step_inv)
qed

lemma placed_start:
  assumes "placed store_default s"
  shows "placed s s"
  using assms unfolding placed_def by auto

lemma store_runs_placed: "placed (store_runs gw c ops) (store_runs gw c ops)"
proof (rule placed_start)
  have "placed store_default store_default" by (simp add: placed_def store_default_def ext_get_def)
  then show "placed store_default (store_runs gw c ops)"
    using history.run_inv[of gw "(c, store_default)" store_default ops] store_default_wf
    by (simp add: store_runs_def)
qed

definition clamp_mark :: "nat \<Rightarrow> extmark \<Rightarrow> extmark" where
  "clamp_mark len m = m\<lparr>em_start := min (em_start m) len,
     em_end := map_option (\<lambda>e. max (min e len) (min (em_start m) len)) (em_end m)\<rparr>"

lemma adopt_restores:
  assumes now: "placed s0 s0" and placed: "placed s0 s1"
  shows "ext_get ns i (snd (adopt_positions_from s0 len skip (c1, s1))) =
    map_option (\<lambda>m. if ns \<in> set skip then m
                    else if serial m \<le> next_serial s0 then the (ext_get ns i s0)
                    else clamp_mark len m)
      (ext_get ns i s1)"
proof (cases "ext_get ns i s1")
  case None
  then show ?thesis by (simp add: get_adopt)
next
  case (Some m)
  have snap: "Option.bind (map_of (by_ns s0) ns) (\<lambda>slot. map_of (marks slot) i) = ext_get ns i s0"
    by (simp add: ext_get_def split: option.splits)
  have "ext_adopt_mark (map_of (by_ns s0) ns) len i m =
      (if serial m \<le> next_serial s0 then the (ext_get ns i s0) else clamp_mark len m)"
  proof (cases "serial m \<le> next_serial s0")
    case True
    with placed Some obtain m0 where m0: "ext_get ns i s0 = Some m0" "same_placement m0 m"
      unfolding placed_def by blast
    have "m\<lparr>em_start := em_start m0, em_end := em_end m0\<rparr> = m0"
      using m0(2) unfolding same_placement_def by (cases m; cases m0) simp
    with True m0 show ?thesis
      by (simp add: ext_adopt_mark_def snap same_placement_serial[OF m0(2)])
  next
    case False
    have "serial m0 \<le> next_serial s0" if "ext_get ns i s0 = Some m0" for m0
      using now that unfolding placed_def by blast
    with False show ?thesis
      by (auto simp: ext_adopt_mark_def snap clamp_mark_def Let_def split: option.splits)
  qed
  with Some show ?thesis by (simp add: get_adopt)
qed

text \<open>C14. Undo returns every placement the snapshot still shares exactly to where the snapshot had
  it, keeps the marks placed since (clamped into the restored text), resurrects none and loses none.\<close>

theorem undo_restores_marks:
  "ext_get ns i (snd (adopt_positions_from (store_runs gw c ops) len skip
      (foldl (em_step gw) (c', store_runs gw c ops) later))) =
    map_option (\<lambda>m. if ns \<in> set skip then m
                    else if serial m \<le> next_serial (store_runs gw c ops)
                    then the (ext_get ns i (store_runs gw c ops))
                    else clamp_mark len m)
      (ext_get ns i (snd (foldl (em_step gw) (c', store_runs gw c ops) later)))"
proof -
  have "placed (store_runs gw c ops) (snd (foldl (em_step gw) (c', store_runs gw c ops) later))"
    using history.run_inv[of gw "(c', store_runs gw c ops)"] store_runs_wf store_runs_placed by simp
  from adopt_restores[OF store_runs_placed this, of ns i len skip
      "fst (foldl (em_step gw) (c', store_runs gw c ops) later)"]
  show ?thesis by simp
qed

end
