(* ===== verification/Layout.thy ===== *)
theory Layout
  imports Prelude
begin

text \<open>
  The window layout algebra of \<open>crates/bemtvi-core/src/editor/windows.rs\<close>: the split tree, its
  skeleton for sessions, the division of cells among the children of a split, the recursive
  layout with its separators, and the tree edits behind \<open>:split\<close>, \<open>:close\<close>, \<open>:resize\<close>,
  \<open><C-w>_\<close> and \<open><C-w>=\<close>.

  A function that takes \<open>&mut Node\<close> returns the new node beside its answer. \<open>usize\<close> values are
  natural numbers: \<open>saturating_sub\<close> is subtraction on them, and a place where the code would
  underflow or index out of range returns \<open>None\<close>.
\<close>

section \<open>The split tree\<close>

datatype split_dir = Horizontal | Vertical

datatype win_node = Leaf nat | Split split_dir "win_node list" "nat list"

datatype layout_skeleton = SkLeaf nat | SkSplit bool "nat list" "layout_skeleton list"

record rect =
  rx :: nat
  ry :: nat
  rwidth :: nat
  rheight :: nat

record separator =
  sep_vertical :: bool
  sx :: nat
  sy :: nat
  sep_len :: nat

fun collect_leaves :: "win_node \<Rightarrow> nat list" where
  "collect_leaves (Leaf i) = [i]"
| "collect_leaves (Split d cs ss) = concat (map collect_leaves cs)"

fun to_layout :: "win_node \<Rightarrow> layout_skeleton" where
  "to_layout (Leaf i) = SkLeaf i"
| "to_layout (Split d cs ss) = SkSplit (d = Vertical) ss (map to_layout cs)"

fun from_layout :: "layout_skeleton \<Rightarrow> win_node" where
  "from_layout (SkLeaf i) = Leaf i"
| "from_layout (SkSplit v ss cs) =
     Split (if v then Vertical else Horizontal) (map from_layout cs) ss"

section \<open>Dividing cells\<close>

text \<open>The rounding leftover goes to the first children, one cell each, in rounds.\<close>

fun hand_out :: "nat \<Rightarrow> nat \<Rightarrow> nat list \<Rightarrow> nat list" where
  "hand_out i 0 out = out"
| "hand_out i (Suc k) out =
     hand_out (i + 1) k (out[i mod length out := out ! (i mod length out) + 1])"

text \<open>\<open>max_by_key\<close> over \<open>enumerate\<close>: the last index of a largest element.\<close>

fun last_max :: "nat list \<Rightarrow> nat \<times> nat \<Rightarrow> nat \<Rightarrow> nat" where
  "last_max [] best i = fst best"
| "last_max (c # cs) best i =
     last_max cs (if snd best \<le> c then (i, c) else best) (i + 1)"

definition max_index :: "nat list \<Rightarrow> nat" where
  "max_index out = last_max out (0, 0) 0"

partial_function (option) repair_zeros :: "nat list \<Rightarrow> nat list option" where
  "repair_zeros out =
     (case position (\<lambda>c. c = 0) out of
        None \<Rightarrow> Some out
      | Some z \<Rightarrow>
          let m = max_index out in
          if out ! m = 0 then None
          else let out = out[m := out ! m - 1] in repair_zeros (out[z := out ! z + 1]))"

lemmas [code] = repair_zeros.simps

definition distribute :: "nat \<Rightarrow> nat list \<Rightarrow> nat list option" where
  "distribute avail sizes =
     (if sizes = [] then Some []
      else
        let total = max (sum_list sizes) 1;
            out = map (\<lambda>s. avail * s div total) sizes;
            out = hand_out 0 (avail - sum_list out) out
        in if length sizes \<le> avail then repair_zeros out else Some out)"

section \<open>The layout\<close>

text \<open>The children of a split one after the other, each followed by a separator but the last:
  \<open>extents\<close> are the cells handed to them, the iteration stopping with the shorter list (\<open>zip\<close>).\<close>

definition child_rect :: "split_dir \<Rightarrow> rect \<Rightarrow> nat \<Rightarrow> nat \<Rightarrow> rect" where
  "child_rect d r at ext =
     (case d of
        Horizontal \<Rightarrow> \<lparr>rx = rx r, ry = at, rwidth = rwidth r, rheight = ext\<rparr>
      | Vertical \<Rightarrow> \<lparr>rx = at, ry = ry r, rwidth = ext, rheight = rheight r\<rparr>)"

definition child_sep :: "split_dir \<Rightarrow> rect \<Rightarrow> nat \<Rightarrow> separator" where
  "child_sep d r at =
     (case d of
        Horizontal \<Rightarrow> \<lparr>sep_vertical = False, sx = rx r, sy = at, sep_len = rwidth r\<rparr>
      | Vertical \<Rightarrow> \<lparr>sep_vertical = True, sx = at, sy = ry r, sep_len = rheight r\<rparr>)"

definition extent_of :: "split_dir \<Rightarrow> rect \<Rightarrow> nat" where
  "extent_of d r = (case d of Horizontal \<Rightarrow> rheight r | Vertical \<Rightarrow> rwidth r)"

definition origin_of :: "split_dir \<Rightarrow> rect \<Rightarrow> nat" where
  "origin_of d r = (case d of Horizontal \<Rightarrow> ry r | Vertical \<Rightarrow> rx r)"

type_synonym laid = "(nat \<times> rect) list \<times> separator list"

fun layout_node :: "win_node \<Rightarrow> rect \<Rightarrow> laid \<Rightarrow> (win_node \<times> laid) option"
and layout_children ::
  "split_dir \<Rightarrow> rect \<Rightarrow> win_node list \<Rightarrow> nat list \<Rightarrow> nat \<Rightarrow> laid \<Rightarrow> (win_node list \<times> laid) option"
where
  "layout_node (Leaf i) r (rects, seps) = Some (Leaf i, rects @ [(i, r)], seps)"
| "layout_node (Split d cs ss) r acc =
     (case distribute (extent_of d r - (length cs - 1)) ss of
        None \<Rightarrow> None
      | Some exts \<Rightarrow>
          map_option (\<lambda>(cs', acc). (Split d cs' exts, acc))
            (layout_children d r cs exts (origin_of d r) acc))"
| "layout_children d r [] exts at acc = Some ([], acc)"
| "layout_children d r (c # cs) [] at acc = Some (c # cs, acc)"
| "layout_children d r (c # cs) (e # exts) at acc =
     (case layout_node c (child_rect d r at e) acc of
        None \<Rightarrow> None
      | Some (c', rects, seps) \<Rightarrow>
          map_option (\<lambda>(cs', acc). (c' # cs', acc))
            (layout_children d r cs exts (if cs = [] then at + e else at + e + 1)
              (rects, if cs = [] then seps else seps @ [child_sep d r (at + e)])))"

section \<open>Tree edits\<close>

fun split_leaf :: "nat \<Rightarrow> split_dir \<Rightarrow> nat \<Rightarrow> win_node \<Rightarrow> bool \<times> win_node"
and split_any :: "nat \<Rightarrow> split_dir \<Rightarrow> nat \<Rightarrow> win_node list \<Rightarrow> bool \<times> win_node list"
where
  "split_leaf target d new (Leaf i) =
     (if i = target then (True, Split d [Leaf new, Leaf target] [1, 1]) else (False, Leaf i))"
| "split_leaf target d new (Split d' cs ss) =
     (let (found, cs') = split_any target d new cs in (found, Split d' cs' ss))"
| "split_any target d new [] = (False, [])"
| "split_any target d new (c # cs) =
     (let (found, c') = split_leaf target d new c in
      if found then (True, c' # cs)
      else let (found, cs') = split_any target d new cs in (found, c' # cs'))"

text \<open>\<open>Vec::remove\<close>\<close>

definition drop_at :: "nat \<Rightarrow> 'a list \<Rightarrow> 'a list" where
  "drop_at i xs = take i xs @ drop (i + 1) xs"

definition collapse :: "win_node \<Rightarrow> win_node" where
  "collapse n = (case n of Split d [c] ss \<Rightarrow> c | _ \<Rightarrow> n)"

fun remove_leaf :: "nat \<Rightarrow> win_node \<Rightarrow> bool \<times> win_node"
and remove_any :: "nat \<Rightarrow> win_node list \<Rightarrow> bool \<times> win_node list"
where
  "remove_leaf target (Leaf i) = (False, Leaf i)"
| "remove_leaf target (Split d cs ss) =
     (case position (\<lambda>c. c = Leaf target) cs of
        Some p \<Rightarrow> (True, collapse (Split d (drop_at p cs) (drop_at p ss)))
      | None \<Rightarrow>
          let (removed, cs') = remove_any target cs in
          if removed then (True, collapse (Split d cs' ss)) else (False, Split d cs' ss))"
| "remove_any target [] = (False, [])"
| "remove_any target (c # cs) =
     (let (removed, c') = remove_leaf target c in
      if removed then (True, c' # cs)
      else let (removed, cs') = remove_any target cs in (removed, c' # cs'))"

definition min_extent :: "split_dir \<Rightarrow> nat" where
  "min_extent d = (case d of Horizontal \<Rightarrow> 2 | Vertical \<Rightarrow> 1)"

definition adjust_sizes :: "nat list \<Rightarrow> nat \<Rightarrow> int \<Rightarrow> split_dir \<Rightarrow> nat list" where
  "adjust_sizes ss i delta d =
     (if length ss < 2 \<or> delta = 0 then ss
      else
        let j = (if i + 1 < length ss then i + 1 else i - 1); least = min_extent d in
        if 0 < delta
        then let give = min (nat delta) (ss ! j - least); ss = ss[i := ss ! i + give] in
          ss[j := ss ! j - give]
        else let tk = min (nat (- delta)) (ss ! i - least); ss = ss[i := ss ! i - tk] in
          ss[j := ss ! j + tk])"

text \<open>Both walks stop at the first child that holds the target; \<open>done\<close> is threaded through.\<close>

fun resize_toward ::
  "nat \<Rightarrow> split_dir \<Rightarrow> int \<Rightarrow> win_node \<Rightarrow> bool \<Rightarrow> bool \<times> bool \<times> win_node"
and resize_path ::
  "nat \<Rightarrow> split_dir \<Rightarrow> int \<Rightarrow> win_node list \<Rightarrow> nat \<Rightarrow> bool \<Rightarrow> nat option \<times> bool \<times> win_node list"
where
  "resize_toward target axis delta (Leaf i) dn = (i = target, dn, Leaf i)"
| "resize_toward target axis delta (Split d cs ss) dn =
     (case resize_path target axis delta cs 0 dn of
        (None, dn, cs') \<Rightarrow> (False, dn, Split d cs' ss)
      | (Some i, dn, cs') \<Rightarrow>
          if \<not> dn \<and> d = axis
          then (True, True, Split d cs' (adjust_sizes ss i delta axis))
          else (True, dn, Split d cs' ss))"
| "resize_path target axis delta [] i dn = (None, dn, [])"
| "resize_path target axis delta (c # cs) i dn =
     (let (found, dn, c') = resize_toward target axis delta c dn in
      if found then (Some i, dn, c' # cs)
      else let (at, dn, cs') = resize_path target axis delta cs (i + 1) dn in (at, dn, c' # cs'))"

fun maximize_toward :: "nat \<Rightarrow> split_dir \<Rightarrow> win_node \<Rightarrow> bool \<times> win_node"
and maximize_path :: "nat \<Rightarrow> split_dir \<Rightarrow> win_node list \<Rightarrow> nat \<Rightarrow> nat option \<times> win_node list"
where
  "maximize_toward target axis (Leaf i) = (i = target, Leaf i)"
| "maximize_toward target axis (Split d cs ss) =
     (case maximize_path target axis cs 0 of
        (None, cs') \<Rightarrow> (False, Split d cs' ss)
      | (Some i, cs') \<Rightarrow>
          (True, Split d cs' (if d = axis then (map (\<lambda>s. 1) ss)[i := 10000] else ss)))"
| "maximize_path target axis [] i = (None, [])"
| "maximize_path target axis (c # cs) i =
     (let (found, c') = maximize_toward target axis c in
      if found then (Some i, c' # cs)
      else let (at, cs') = maximize_path target axis cs (i + 1) in (at, c' # cs'))"

text \<open>\<open>max().unwrap_or(1)\<close>: 1 without children.\<close>

fun span_windows :: "split_dir \<Rightarrow> win_node \<Rightarrow> nat" where
  "span_windows d (Leaf i) = 1"
| "span_windows d (Split d' cs ss) =
     (if d' = d then sum_list (map (span_windows d) cs)
      else if cs = [] then 1 else Max (set (map (span_windows d) cs)))"

text \<open>\<open>sizes[i] = \<dots>\<close> for each child: a size past the last child is kept.\<close>

fun equalize_node :: "win_node \<Rightarrow> win_node" where
  "equalize_node (Leaf i) = Leaf i"
| "equalize_node (Split d cs ss) =
     Split d (map equalize_node cs) (map (span_windows d) cs @ drop (length cs) ss)"

end
