(* ===== verification/Floats.thy ===== *)
theory Floats
  imports Layout
begin

text \<open>
  Floating windows of \<open>crates/bemtvi-core/src/editor/windows.rs\<close>: the keywords of anchors,
  alignments and borders, and the placement of a box on the screen.

  Coordinates arrive from clients unbounded, so the saturation of \<open>usize\<close> and \<open>isize\<close>
  arithmetic is written out. The resolution of a viewport fraction (\<open>f32\<close> arithmetic of
  \<open>Extent::resolve\<close>) is the parameter \<open>frac\<close>, from the bits of the fraction and the reference.
\<close>

section \<open>Keywords\<close>

datatype float_anchor = NW | NE | SW | SE

fun anchor_as_str :: "float_anchor \<Rightarrow> ustring" where
  "anchor_as_str NW = us ''NW''"
| "anchor_as_str NE = us ''NE''"
| "anchor_as_str SW = us ''SW''"
| "anchor_as_str SE = us ''SE''"

definition anchor_from_keyword :: "ustring \<Rightarrow> float_anchor option" where
  "anchor_from_keyword s =
     (if s = us ''NW'' then Some NW else if s = us ''NE'' then Some NE
      else if s = us ''SW'' then Some SW else if s = us ''SE'' then Some SE else None)"

datatype align = TopLeft | TopMiddle | TopRight | LeftMiddle | Center | RightMiddle
  | BottomLeft | BottomMiddle | BottomRight

fun align_as_str :: "align \<Rightarrow> ustring" where
  "align_as_str TopLeft = us ''top-left''"
| "align_as_str TopMiddle = us ''top''"
| "align_as_str TopRight = us ''top-right''"
| "align_as_str LeftMiddle = us ''left''"
| "align_as_str Center = us ''center''"
| "align_as_str RightMiddle = us ''right''"
| "align_as_str BottomLeft = us ''bottom-left''"
| "align_as_str BottomMiddle = us ''bottom''"
| "align_as_str BottomRight = us ''bottom-right''"

definition align_from_keyword :: "ustring \<Rightarrow> align option" where
  "align_from_keyword s =
     (if s = us ''top-left'' then Some TopLeft else if s = us ''top'' then Some TopMiddle
      else if s = us ''top-right'' then Some TopRight else if s = us ''left'' then Some LeftMiddle
      else if s = us ''center'' \<or> s = us ''centre'' then Some Center
      else if s = us ''right'' then Some RightMiddle
      else if s = us ''bottom-left'' then Some BottomLeft else if s = us ''bottom'' then Some BottomMiddle
      else if s = us ''bottom-right'' then Some BottomRight else None)"

text \<open>The bands: 0 low edge, 1 middle, 2 high edge.\<close>

definition vband :: "align \<Rightarrow> nat" where
  "vband a = (if a \<in> {TopLeft, TopMiddle, TopRight} then 0
              else if a \<in> {LeftMiddle, Center, RightMiddle} then 1 else 2)"

definition hband :: "align \<Rightarrow> nat" where
  "hband a = (if a \<in> {TopLeft, LeftMiddle, BottomLeft} then 0
              else if a \<in> {TopMiddle, Center, BottomMiddle} then 1 else 2)"

datatype border_style = BorderNone | Single | Rounded | Double | Solid

fun border_as_str :: "border_style \<Rightarrow> ustring" where
  "border_as_str BorderNone = us ''none''"
| "border_as_str Single = us ''single''"
| "border_as_str Rounded = us ''rounded''"
| "border_as_str Double = us ''double''"
| "border_as_str Solid = us ''solid''"

definition border_from_keyword :: "ustring \<Rightarrow> border_style option" where
  "border_from_keyword s =
     (if s = us ''none'' then Some BorderNone else if s = us ''single'' then Some Single
      else if s = us ''rounded'' then Some Rounded else if s = us ''double'' then Some Double
      else if s = us ''solid'' then Some Solid else None)"

section \<open>Placement\<close>

record margin =
  m_top :: nat
  m_right :: nat
  m_bottom :: nat
  m_left :: nat

datatype float_relative = RelEditor | RelWin nat | RelCursor

datatype extent = Cells nat | Frac nat

record float_config =
  relative :: float_relative
  anchor :: float_anchor
  row :: int
  col :: int
  cfg_width :: extent
  cfg_height :: extent
  cfg_align :: "align option"
  cfg_margin :: margin
  zindex :: nat
  focusable :: bool
  cfg_border :: border_style
  cfg_title :: "ustring option"
  flip :: bool

definition float_default :: float_config where
  "float_default =
     \<lparr>relative = RelEditor, anchor = NW, row = 0, col = 0, cfg_width = Cells 1, cfg_height = Cells 1,
      cfg_align = None, cfg_margin = \<lparr>m_top = 0, m_right = 0, m_bottom = 0, m_left = 0\<rparr>,
      zindex = 50, focusable = True, cfg_border = BorderNone, cfg_title = None, flip = False\<rparr>"

definition sat_add :: "nat \<Rightarrow> nat \<Rightarrow> nat" where
  "sat_add a b = min U64_MAX (a + b)"

text \<open>\<open>Ord::clamp\<close>, used with its low bound at most the high one.\<close>

definition clamp :: "'a::linorder \<Rightarrow> 'a \<Rightarrow> 'a \<Rightarrow> 'a" where
  "clamp lo hi p = (if p < lo then lo else if hi < p then hi else p)"

definition place_band :: "nat \<Rightarrow> nat \<Rightarrow> nat \<Rightarrow> nat \<Rightarrow> nat \<Rightarrow> nat \<Rightarrow> nat" where
  "place_band band lo span sz near far =
     (let p = (if band = 0 then sat_add lo near
               else if band = 2 then sat_add lo span - sz - far
               else sat_add lo ((span - sz) div 2));
          hi = max (sat_add lo span - sz) lo
      in clamp lo hi p)"

definition place_aligned :: "rect \<Rightarrow> nat \<Rightarrow> nat \<Rightarrow> align \<Rightarrow> margin \<Rightarrow> nat \<times> nat" where
  "place_aligned b w h a m =
     (place_band (hband a) (rx b) (rwidth b) w (m_left m) (m_right m),
      place_band (vband a) (ry b) (rheight b) h (m_top m) (m_bottom m))"

definition resolve :: "(nat \<Rightarrow> nat \<Rightarrow> nat) \<Rightarrow> extent \<Rightarrow> nat \<Rightarrow> nat" where
  "resolve frac e reference = (case e of Cells c \<Rightarrow> c | Frac f \<Rightarrow> frac f reference)"

definition border_cells :: "float_config \<Rightarrow> nat" where
  "border_cells cfg = (if cfg_border cfg \<noteq> BorderNone then 2 else 0)"

text \<open>The \<open>flip\<close> rule: the top row and the height of a box that must keep clear of the origin's row.\<close>

definition flip_box :: "rect \<Rightarrow> rect \<Rightarrow> nat \<Rightarrow> nat \<Rightarrow> int \<Rightarrow> int \<times> nat" where
  "flip_box origin bounds border h y =
     (let space_below = nat (max (sat_i64 (int (ry bounds + rheight bounds) - y)) 0);
          space_above = ry origin - ry bounds
      in if space_below < h
         then if h \<le> space_above then (int (ry origin - h), h)
              else if space_below < space_above
              then let h = max space_above (border + 1) in (int (ry origin - h), h)
              else (y, max space_below (border + 1))
         else (y, h))"

definition place_float :: "(nat \<Rightarrow> nat \<Rightarrow> nat) \<Rightarrow> rect \<Rightarrow> rect \<Rightarrow> float_config \<Rightarrow> rect" where
  "place_float frac origin bounds cfg =
     (let border = border_cells cfg;
          w = max (resolve frac (cfg_width cfg) (rwidth bounds)) 1 + border;
          h = max (resolve frac (cfg_height cfg) (rheight bounds)) 1 + border
      in case cfg_align cfg of
           Some a \<Rightarrow>
             (let (x, y) = place_aligned bounds w h a (cfg_margin cfg)
              in \<lparr>rx = x, ry = y, rwidth = w, rheight = h\<rparr>)
         | None \<Rightarrow>
             (let x = sat_i64 (int (rx origin) + col cfg);
                  y = sat_i64 (int (ry origin) + row cfg);
                  x = (if anchor cfg \<in> {NE, SE} then sat_i64 (x - int w) else x);
                  y = (if anchor cfg \<in> {SW, SE} then sat_i64 (y - int h) else y);
                  (y, h) = (if flip cfg then flip_box origin bounds border h y else (y, h));
                  hi_x = max (int (rx bounds + rwidth bounds - w)) (int (rx bounds));
                  hi_y = max (int (ry bounds + rheight bounds - h)) (int (ry bounds))
              in \<lparr>rx = nat (max (clamp (int (rx bounds)) hi_x x) 0),
                  ry = nat (max (clamp (int (ry bounds)) hi_y y) 0),
                  rwidth = w, rheight = h\<rparr>))"

section \<open>Properties\<close>

text \<open>A box along one axis: inside the span when it fits, pinned to the low edge when it does not.\<close>

definition kept_inside :: "nat \<Rightarrow> nat \<Rightarrow> nat \<Rightarrow> nat \<Rightarrow> bool" where
  "kept_inside lo span sz at \<longleftrightarrow>
     (if sz \<le> span then lo \<le> at \<and> at + sz \<le> lo + span else at = lo)"

lemma place_band_inside:
  "lo + span \<le> U64_MAX \<Longrightarrow> kept_inside lo span sz (place_band band lo span sz near far)"
  by (auto simp: kept_inside_def place_band_def clamp_def Let_def sat_add_def)

lemma clamp_inside:
  "kept_inside lo span sz
     (nat (max (clamp (int lo) (max (int (lo + span - sz)) (int lo)) x) 0))"
  by (auto simp: kept_inside_def clamp_def)

definition box_inside :: "rect \<Rightarrow> rect \<Rightarrow> bool" where
  "box_inside bounds box \<longleftrightarrow>
     kept_inside (rx bounds) (rwidth bounds) (rwidth box) (rx box) \<and>
     kept_inside (ry bounds) (rheight bounds) (rheight box) (ry box)"

text \<open>Whatever geometry a client asks for, however large or negative, a float's box stays inside
  its bounds, or at their low edge when it is larger than them.\<close>

theorem float_stays_on_screen:
  assumes "rx bounds + rwidth bounds \<le> U64_MAX" and "ry bounds + rheight bounds \<le> U64_MAX"
  shows "box_inside bounds (place_float frac origin bounds cfg)"
proof (cases "cfg_align cfg")
  case None
  then show ?thesis
    by (simp only: box_inside_def place_float_def Let_def option.case split_def rect.simps clamp_inside simp_thms)
next
  case (Some a)
  with assms show ?thesis
    by (simp add: box_inside_def place_float_def place_aligned_def Let_def place_band_inside)
qed

definition popup :: float_config where
  "popup = float_default\<lparr>relative := RelCursor, row := 1, col := 9223372036854775807,
     cfg_width := Cells 20, cfg_height := Cells 6, cfg_border := Rounded, flip := True\<rparr>"

theorem float_stays_on_screen_witness:
  "box_inside \<lparr>rx = 0, ry = 0, rwidth = 80, rheight = 24\<rparr>
     (place_float (\<lambda>f n. n) \<lparr>rx = 3, ry = 20, rwidth = 0, rheight = 0\<rparr>
       \<lparr>rx = 0, ry = 0, rwidth = 80, rheight = 24\<rparr> popup)"
  by (rule float_stays_on_screen) (simp_all add: U64_MAX_def)

lemma sat_i64_id: "I64_MIN \<le> x \<Longrightarrow> x \<le> I64_MAX \<Longrightarrow> sat_i64 x = x"
  by (simp add: sat_i64_def)

text \<open>A popup placed below the cursor never covers the cursor's row: it drops below it, flips
  above it, or shrinks into the roomier side, as long as one side holds a border and a row.\<close>

theorem popup_clears_cursor:
  assumes "cfg_align cfg = None" and "anchor cfg = NW" and "flip cfg" and "row cfg = 1"
    and "ry bounds \<le> ry origin" and "ry origin < ry bounds + rheight bounds"
    and "int (ry bounds + rheight bounds) < I64_MAX"
    and "border_cells cfg + 1 \<le> ry origin - ry bounds \<or>
         border_cells cfg + 1 \<le> ry bounds + rheight bounds - (ry origin + 1)"
  shows "let box = place_float frac origin bounds cfg in
    ry origin < ry box \<or> ry box + rheight box \<le> ry origin"
proof -
  let ?border = "border_cells cfg"
  let ?h = "max (resolve frac (cfg_height cfg) (rheight bounds)) 1 + ?border"
  let ?above = "ry origin - ry bounds" and ?below = "ry bounds + rheight bounds - (ry origin + 1)"
  have y: "sat_i64 (int (ry origin) + row cfg) = int (ry origin) + 1"
    using assms(4,6,7) by (subst sat_i64_id) (auto simp: I64_MIN_def)
  have below: "nat (max (sat_i64 (int (ry bounds + rheight bounds) - (int (ry origin) + 1))) 0) = ?below"
    using assms(5-7) by (subst sat_i64_id) (auto simp: I64_MIN_def)
  obtain t k where flip: "flip_box origin bounds ?border ?h (int (ry origin) + 1) = (t, k)" by fastforce
  have fits: "(t = int (ry origin) + 1 \<and> k \<le> ?below) \<or>
      (t = int (ry origin) - int k \<and> k \<le> ?above)"
    using flip assms(8) unfolding flip_box_def below Let_def
    by (auto split: if_splits simp: max_def)
  let ?box = "place_float frac origin bounds cfg"
  have height: "rheight ?box = k"
    and top: "ry ?box = nat (max (clamp (int (ry bounds))
      (max (int (ry bounds + rheight bounds - k)) (int (ry bounds))) t) 0)"
    using assms(1-3) y flip by (simp_all add: place_float_def Let_def split: prod.splits)
  show ?thesis
    unfolding Let_def height top using fits assms(5,6) by (auto simp: clamp_def)
qed

theorem popup_clears_cursor_witness:
  "let box = place_float (\<lambda>f n. n) \<lparr>rx = 3, ry = 20, rwidth = 0, rheight = 0\<rparr>
       \<lparr>rx = 0, ry = 0, rwidth = 80, rheight = 24\<rparr> popup in
    ry \<lparr>rx = 3, ry = 20, rwidth = 0, rheight = 0\<rparr> < ry box \<or>
    ry box + rheight box \<le> ry \<lparr>rx = 3, ry = 20, rwidth = 0, rheight = 0\<rparr>"
  by (rule popup_clears_cursor) (simp_all add: popup_def float_default_def border_cells_def I64_MAX_def)

text \<open>Every keyword a float's configuration is reported with is read back as the same value.\<close>

theorem keywords_roundtrip:
  "anchor_from_keyword (anchor_as_str an) = Some an \<and> align_from_keyword (align_as_str al) = Some al \<and>
   border_from_keyword (border_as_str b) = Some b"
  by (cases an; cases al; cases b) (simp_all add: anchor_from_keyword_def align_from_keyword_def border_from_keyword_def)

end
