(* ===== verification/LayoutProps.thy ===== *)
theory LayoutProps
  imports Layout
begin

text \<open>
  The layout algebra verified: \<open>distribute\<close> hands out every cell and leaves no window empty, the
  layout tiles its area exactly and is stable, and the tree edits keep the tree well formed.
\<close>

section \<open>Dividing cells\<close>

lemma hand_out_length [simp]: "length (hand_out i k out) = length out"
  by (induction i k out rule: hand_out.induct) auto

lemma sum_list_update_Suc:
  "i < length xs \<Longrightarrow> sum_list (xs[i := Suc (xs ! i)]) = Suc (sum_list (xs :: nat list))"
  by (induction xs arbitrary: i) (auto split: nat.splits)

lemma sum_list_update_dec:
  "i < length xs \<Longrightarrow> 0 < xs ! i \<Longrightarrow> Suc (sum_list (xs[i := xs ! i - 1])) = sum_list (xs :: nat list)"
  by (induction xs arbitrary: i) (auto split: nat.splits)

lemma hand_out_sum: "out \<noteq> [] \<Longrightarrow> sum_list (hand_out i k out) = sum_list out + k"
  by (induction i k out rule: hand_out.induct) (auto simp: sum_list_update_Suc)

lemma last_max_spec:
  "last_max cs best i = fst best \<and> (\<forall>c \<in> set cs. c < snd best) \<or>
   (\<exists>k<length cs. last_max cs best i = i + k \<and> (\<forall>c \<in> set cs. c \<le> cs ! k) \<and> snd best \<le> cs ! k)"
proof (induction cs arbitrary: best i)
  case (Cons c cs)
  let ?b = "if snd best \<le> c then (i, c) else best"
  from Cons.IH[of ?b "i + 1"] show ?case
  proof (elim disjE exE conjE)
    assume eq: "last_max cs ?b (i + 1) = fst ?b" and less: "\<forall>c \<in> set cs. c < snd ?b"
    show ?case
    proof (cases "snd best \<le> c")
      case True
      with eq less show ?thesis by (intro disjI2 exI[of _ 0]) auto
    next
      case False
      with eq less show ?thesis by auto
    qed
  next
    fix k assume k: "k < length cs" "last_max cs ?b (i + 1) = i + 1 + k"
      "\<forall>c \<in> set cs. c \<le> cs ! k" "snd ?b \<le> cs ! k"
    then show ?case by (intro disjI2 exI[of _ "Suc k"]) (auto split: if_splits)
  qed
qed simp

lemma max_index_spec:
  assumes "out \<noteq> []"
  shows "max_index out < length out" and "c \<in> set out \<Longrightarrow> c \<le> out ! max_index out"
proof -
  from last_max_spec[of out "(0, 0)" 0] assms
  obtain k where "k < length out" "max_index out = k" "\<forall>c \<in> set out. c \<le> out ! k"
    unfolding max_index_def by (cases out) auto
  then show "max_index out < length out" "c \<in> set out \<Longrightarrow> c \<le> out ! max_index out" by auto
qed

lemma sum_ones: "\<forall>c \<in> set xs. c \<le> 1 \<Longrightarrow> sum_list xs = length (filter (\<lambda>c. c \<noteq> 0) (xs :: nat list))"
  by (induction xs) auto

lemma spare_cell:
  assumes "length out \<le> sum_list out" and "z < length out" and "out ! z = (0::nat)"
  shows "2 \<le> out ! max_index out"
proof (rule ccontr)
  assume "\<not> 2 \<le> out ! max_index out"
  moreover have "c \<le> out ! max_index out" if "c \<in> set out" for c
    using that assms(2) by (intro max_index_spec(2)) auto
  ultimately have "\<forall>c \<in> set out. c \<le> 1" by fastforce
  then have "sum_list out = length (filter (\<lambda>c. c \<noteq> 0) out)" by (rule sum_ones)
  also have "\<dots> < length out"
    by (rule length_filter_less[of "out ! z"]) (use nth_mem[OF assms(2)] assms(3) in auto)
  finally show False using assms(1) by simp
qed

definition zeros :: "nat list \<Rightarrow> nat" where
  "zeros out = length (filter (\<lambda>c. c = 0) out)"

lemma zeros_update_pos:
  "i < length out \<Longrightarrow> out ! i \<noteq> 0 \<Longrightarrow> v \<noteq> 0 \<Longrightarrow> zeros (out[i := v]) = zeros out"
  unfolding zeros_def by (induction out arbitrary: i) (auto split: nat.splits)

lemma zeros_update_zero:
  "i < length out \<Longrightarrow> out ! i = 0 \<Longrightarrow> v \<noteq> 0 \<Longrightarrow> Suc (zeros (out[i := v])) = zeros out"
  unfolding zeros_def by (induction out arbitrary: i) (auto split: nat.splits)

lemma repair_zeros_ok:
  "length out \<le> sum_list out \<Longrightarrow>
   \<exists>out'. repair_zeros out = Some out' \<and> length out' = length out \<and> sum_list out' = sum_list out \<and>
     0 \<notin> set out'"
proof (induction "zeros out" arbitrary: out rule: less_induct)
  case less
  show ?case
  proof (cases "position (\<lambda>c. c = 0) out")
    case None
    then have "0 \<notin> set out" by (auto simp: position_None)
    with None show ?thesis by (subst repair_zeros.simps) simp
  next
    case (Some z)
    then have z: "z < length out" "out ! z = 0" using position_Some by blast+
    let ?m = "max_index out"
    have two: "2 \<le> out ! ?m" by (rule spare_cell[OF less.prems z])
    have m: "?m < length out" using z by (intro max_index_spec(1)) auto
    have neq: "?m \<noteq> z" using two z(2) by auto
    let ?out = "out[?m := out ! ?m - 1]"
    let ?out' = "?out[z := ?out ! z + 1]"
    have sum: "sum_list ?out' = sum_list out"
      using sum_list_update_dec[OF m] sum_list_update_Suc[of z ?out] two z(1) by simp
    have "zeros ?out = zeros out" using m two by (intro zeros_update_pos) auto
    moreover have "Suc (zeros ?out') = zeros ?out"
      using z neq by (intro zeros_update_zero) auto
    ultimately have "zeros ?out' < zeros out" by simp
    from less.hyps[OF this] less.prems sum
    obtain out' where "repair_zeros ?out' = Some out'" "length out' = length out"
      "sum_list out' = sum_list out" "0 \<notin> set out'" by auto
    with Some two show ?thesis by (subst repair_zeros.simps) (simp add: Let_def)
  qed
qed

lemma repair_zeros_id: "0 \<notin> set out \<Longrightarrow> repair_zeros out = Some out"
proof -
  assume "0 \<notin> set out"
  then have "position (\<lambda>c. c = 0) out = None" unfolding position_None by metis
  then show ?thesis by (subst repair_zeros.simps) simp
qed

lemma shares_bound:
  "0 < tot \<Longrightarrow> sum_list (map (\<lambda>s. avail * s div tot) ss) * tot \<le> avail * sum_list (ss :: nat list)"
proof (induction ss)
  case (Cons s ss)
  have "avail * s div tot * tot \<le> avail * s" by simp
  from add_mono[OF this Cons.IH[OF Cons.prems]] show ?case
    by (simp only: list.map sum_list.Cons distrib_left distrib_right)
qed simp

lemma shares_le:
  "sum_list (map (\<lambda>s. avail * s div max (sum_list ss) 1) ss) \<le> (avail :: nat)"
proof -
  let ?t = "max (sum_list ss) 1"
  have "sum_list (map (\<lambda>s. avail * s div ?t) ss) * ?t \<le> avail * sum_list ss"
    by (rule shares_bound) simp
  also have "\<dots> \<le> avail * ?t" by simp
  finally show ?thesis by simp
qed

text \<open>\<open>distribute\<close> always returns, hands out exactly the cells there are, and starves no child
  when there is a cell for each.\<close>

lemma distribute_ok:
  "\<exists>out. distribute avail ss = Some out \<and> length out = length ss \<and>
     (ss \<noteq> [] \<longrightarrow> sum_list out = avail) \<and> (length ss \<le> avail \<longrightarrow> 0 \<notin> set out)"
proof (cases "ss = []")
  case False
  let ?shares = "map (\<lambda>s. avail * s div max (sum_list ss) 1) ss"
  let ?out = "hand_out 0 (avail - sum_list ?shares) ?shares"
  have sum: "sum_list ?out = avail"
    using False shares_le[of avail ss] by (simp add: hand_out_sum)
  show ?thesis
  proof (cases "length ss \<le> avail")
    case True
    with sum repair_zeros_ok[of ?out] False show ?thesis
      by (simp add: distribute_def Let_def)
  next
    case few: False
    with sum False show ?thesis by (simp add: distribute_def Let_def)
  qed
qed (simp add: distribute_def)

lemma distribute_id:
  assumes "sum_list ss = avail" and "length ss \<le> avail \<Longrightarrow> 0 \<notin> set ss"
  shows "distribute avail ss = Some ss"
proof (cases "ss = []")
  case False
  have "map (\<lambda>s. avail * s div max (sum_list ss) 1) ss = ss"
  proof (cases "avail = 0")
    case True
    with assms(1) show ?thesis by (auto simp: map_idI)
  next
    case pos: False
    then show ?thesis using assms(1) by (auto simp: map_idI)
  qed
  then have "distribute avail ss = (if length ss \<le> avail then repair_zeros ss else Some ss)"
    using False assms(1) by (simp only: distribute_def Let_def if_False hand_out.simps diff_self_eq_0)
  with assms(2) show ?thesis by (simp add: repair_zeros_id)
qed (simp add: distribute_def)

section \<open>The layout\<close>

fun wf_node :: "win_node \<Rightarrow> bool" where
  "wf_node (Leaf i) = True"
| "wf_node (Split d cs ss) \<longleftrightarrow> 2 \<le> length cs \<and> length ss = length cs \<and> (\<forall>c \<in> set cs. wf_node c)"

lemma layout_total:
  "\<exists>res. layout_node n r acc = Some res"
  "\<exists>res. layout_children d r cs exts at acc = Some res"
proof (induction n r acc and d r cs exts at acc rule: layout_node_layout_children.induct)
  case (2 d cs ss r acc)
  obtain exts where "distribute (extent_of d r - (length cs - 1)) ss = Some exts"
    using distribute_ok by blast
  with 2 show ?case by fastforce
next
  case (5 d r c cs e exts at acc)
  then obtain c' rects seps where c: "layout_node c (child_rect d r at e) acc = Some (c', rects, seps)"
    by (metis prod_cases3)
  from 5(2)[OF this refl refl] c show ?case by fastforce
qed auto

text \<open>The layout keeps the shape of the tree, and gives each leaf one rect, in leaf order.\<close>

lemma layout_shape:
  "layout_node n r (rects, seps) = Some (n', rects', seps') \<Longrightarrow> wf_node n \<Longrightarrow>
   wf_node n' \<and> collect_leaves n' = collect_leaves n \<and>
   map fst rects' = map fst rects @ collect_leaves n"
  "layout_children d r cs exts at (rects, seps) = Some (cs', rects', seps') \<Longrightarrow>
   \<forall>c \<in> set cs. wf_node c \<Longrightarrow> length exts = length cs \<Longrightarrow>
   length cs' = length cs \<and> (\<forall>c \<in> set cs'. wf_node c) \<and>
   map collect_leaves cs' = map collect_leaves cs \<and>
   map fst rects' = map fst rects @ concat (map collect_leaves cs)"
proof (induction n r "(rects, seps)" and d r cs exts at "(rects, seps)"
    arbitrary: rects seps n' rects' seps' and rects seps cs' rects' seps'
    rule: layout_node_layout_children.induct)
  case (2 d cs ss r rects seps)
  obtain exts where exts: "distribute (extent_of d r - (length cs - 1)) ss = Some exts"
    and len: "length exts = length ss" using distribute_ok by blast
  from 2(2) exts obtain cs' where cs': "layout_children d r cs exts (origin_of d r) (rects, seps) =
      Some (cs', rects', seps')" "n' = Split d cs' exts" by auto
  from 2(1)[OF exts cs'(1)] 2(3) len cs'(2) show ?case by simp
next
  case (5 d r c cs e exts at rects seps)
  obtain c1 rects1 seps1 where c: "layout_node c (child_rect d r at e) (rects, seps) = Some (c1, rects1, seps1)"
    using layout_total(1) by (metis prod_cases3)
  let ?seps = "if cs = [] then seps1 else seps1 @ [child_sep d r (at + e)]"
  let ?at = "if cs = [] then at + e else at + e + 1"
  from 5(3) c obtain cs1 where rest: "layout_children d r cs exts ?at (rects1, ?seps) = Some (cs1, rects', seps')"
    and cs': "cs' = c1 # cs1" by auto
  from 5(1)[OF c] 5(4) have "wf_node c1 \<and> collect_leaves c1 = collect_leaves c \<and>
      map fst rects1 = map fst rects @ collect_leaves c" by simp
  moreover have "length cs1 = length cs \<and> (\<forall>c \<in> set cs1. wf_node c) \<and>
      map collect_leaves cs1 = map collect_leaves cs \<and>
      map fst rects' = map fst rects1 @ concat (map collect_leaves cs)"
    by (rule 5(2)[OF c refl refl rest]) (use 5(4,5) in auto)
  ultimately show ?case by (simp add: cs')
qed auto

text \<open>How often a cell is drawn: by windows, and by separators.\<close>

definition in_rect :: "rect \<Rightarrow> nat \<times> nat \<Rightarrow> bool" where
  "in_rect r = (\<lambda>(x, y). rx r \<le> x \<and> x < rx r + rwidth r \<and> ry r \<le> y \<and> y < ry r + rheight r)"

definition on_sep :: "separator \<Rightarrow> nat \<times> nat \<Rightarrow> bool" where
  "on_sep s = (\<lambda>(x, y).
     if sep_vertical s then x = sx s \<and> sy s \<le> y \<and> y < sy s + sep_len s
     else y = sy s \<and> sx s \<le> x \<and> x < sx s + sep_len s)"

definition drawn :: "laid \<Rightarrow> nat \<times> nat \<Rightarrow> nat" where
  "drawn = (\<lambda>(rects, seps) p.
     length (filter (\<lambda>(i, r). in_rect r p) rects) + length (filter (\<lambda>s. on_sep s p) seps))"

text \<open>Every split has room for its separators in the rect the layout gives it.\<close>

fun roomy :: "win_node \<Rightarrow> rect \<Rightarrow> bool"
and roomy_children :: "split_dir \<Rightarrow> rect \<Rightarrow> win_node list \<Rightarrow> nat list \<Rightarrow> nat \<Rightarrow> bool" where
  "roomy (Leaf i) r = True"
| "roomy (Split d cs ss) r \<longleftrightarrow> length cs - 1 \<le> extent_of d r \<and>
     (case distribute (extent_of d r - (length cs - 1)) ss of
        None \<Rightarrow> False | Some exts \<Rightarrow> roomy_children d r cs exts (origin_of d r))"
| "roomy_children d r [] exts at = True"
| "roomy_children d r (c # cs) [] at = True"
| "roomy_children d r (c # cs) (e # exts) at \<longleftrightarrow>
     roomy c (child_rect d r at e) \<and> roomy_children d r cs exts (at + e + 1)"

lemma child_rect_whole: "child_rect d r (origin_of d r) (extent_of d r) = r"
  by (cases d) (simp_all add: child_rect_def origin_of_def extent_of_def)

text \<open>The cells of a run of children: the first child, its separator, the rest.\<close>

lemma child_cells:
  "of_bool (in_rect (child_rect d r at (e + (Suc m))) p) =
   of_bool (in_rect (child_rect d r at e) p) + of_bool (on_sep (child_sep d r (at + e)) p) +
   (of_bool (in_rect (child_rect d r (at + e + 1) m) p) :: nat)"
  by (cases d; cases p) (auto simp: child_rect_def child_sep_def in_rect_def on_sep_def)

lemma drawn_rect: "drawn (rects @ [(i, r)], seps) p = drawn (rects, seps) p + of_bool (in_rect r p)"
  by (simp add: drawn_def)

lemma drawn_sep: "drawn (rects, seps @ [s]) p = drawn (rects, seps) p + of_bool (on_sep s p)"
  by (simp add: drawn_def)

lemma layout_draws:
  "layout_node n r (rects, seps) = Some (n', rects', seps') \<Longrightarrow> wf_node n \<Longrightarrow> roomy n r \<Longrightarrow>
   drawn (rects', seps') p = drawn (rects, seps) p + of_bool (in_rect r p)"
  "layout_children d r cs exts at (rects, seps) = Some (cs', rects', seps') \<Longrightarrow>
   \<forall>c \<in> set cs. wf_node c \<Longrightarrow> length exts = length cs \<Longrightarrow> cs \<noteq> [] \<Longrightarrow> roomy_children d r cs exts at \<Longrightarrow>
   drawn (rects', seps') p = drawn (rects, seps) p +
     of_bool (in_rect (child_rect d r at (sum_list exts + (length cs - 1))) p)"
proof (induction n r "(rects, seps)" and d r cs exts at "(rects, seps)"
    arbitrary: rects seps n' rects' seps' and rects seps cs' rects' seps'
    rule: layout_node_layout_children.induct)
  case (1 i r rects seps)
  then show ?case by (auto simp: drawn_rect)
next
  case (2 d cs ss r rects seps)
  let ?avail = "extent_of d r - (length cs - 1)"
  from 2(3) have wf: "2 \<le> length cs" "length ss = length cs" "\<forall>c \<in> set cs. wf_node c" by auto
  then have "ss \<noteq> []" by auto
  then obtain exts where exts: "distribute ?avail ss = Some exts"
    and len: "length exts = length cs" and sum: "sum_list exts = ?avail"
    using distribute_ok[of ?avail ss] wf(2) by auto
  from 2(2) exts obtain cs' where cs': "layout_children d r cs exts (origin_of d r) (rects, seps) =
      Some (cs', rects', seps')" by auto
  have room: "length cs - 1 \<le> extent_of d r" "roomy_children d r cs exts (origin_of d r)"
    using 2(4) exts by simp_all
  have "drawn (rects', seps') p = drawn (rects, seps) p +
      of_bool (in_rect (child_rect d r (origin_of d r) (sum_list exts + (length cs - 1))) p)"
    using 2(1)[OF exts cs' wf(3) len _ room(2)] wf(1) by fastforce
  with sum room(1) show ?case by (simp add: child_rect_whole)
next
  case (5 d r c cs e exts at rects seps)
  obtain c1 rects1 seps1 where c: "layout_node c (child_rect d r at e) (rects, seps) = Some (c1, rects1, seps1)"
    using layout_total(1) by (metis prod_cases3)
  have "drawn (rects1, seps1) p = drawn (rects, seps) p + of_bool (in_rect (child_rect d r at e) p)"
    using 5(1)[OF c] 5(4,7) by simp
  note first = this
  show ?case
  proof (cases "cs = []")
    case True
    with 5(3,5) c first show ?thesis by auto
  next
    case False
    let ?seps = "if cs = [] then seps1 else seps1 @ [child_sep d r (at + e)]"
    let ?at = "if cs = [] then at + e else at + e + 1"
    from 5(3) c obtain cs1 where rest: "layout_children d r cs exts ?at (rects1, ?seps) =
        Some (cs1, rects', seps')" by auto
    have "drawn (rects', seps') p = drawn (rects1, ?seps) p +
        of_bool (in_rect (child_rect d r ?at (sum_list exts + (length cs - 1))) p)"
      by (rule 5(2)[OF c refl refl rest]) (use 5(4,5,7) False in auto)
    moreover have "sum_list (e # exts) + (length (c # cs) - 1) = e + Suc (sum_list exts + (length cs - 1))"
      using False by (cases cs) auto
    ultimately show ?thesis using child_cells[of d r at e "sum_list exts + (length cs - 1)" p] first False
      by (simp only: drawn_sep if_False)
  qed
qed auto

text \<open>Once laid out, a split's sizes are cells: laying the tree out again in the same area changes
  nothing.\<close>

lemma layout_stable:
  "layout_node n r (rects, seps) = Some (n', rects', seps') \<Longrightarrow> wf_node n \<Longrightarrow>
   \<exists>rs ss. rects' = rects @ rs \<and> seps' = seps @ ss \<and>
     (\<forall>rects seps. layout_node n' r (rects, seps) = Some (n', rects @ rs, seps @ ss))"
  "layout_children d r cs exts at (rects, seps) = Some (cs', rects', seps') \<Longrightarrow>
   \<forall>c \<in> set cs. wf_node c \<Longrightarrow> length exts = length cs \<Longrightarrow>
   \<exists>rs ss. rects' = rects @ rs \<and> seps' = seps @ ss \<and>
     (\<forall>rects seps. layout_children d r cs' exts at (rects, seps) = Some (cs', rects @ rs, seps @ ss))"
proof (induction n r "(rects, seps)" and d r cs exts at "(rects, seps)"
    arbitrary: rects seps n' rects' seps' and rects seps cs' rects' seps'
    rule: layout_node_layout_children.induct)
  case (2 d cs ss r rects seps)
  let ?avail = "extent_of d r - (length cs - 1)"
  from 2(3) have wf: "2 \<le> length cs" "length ss = length cs" "\<forall>c \<in> set cs. wf_node c" by auto
  then have "ss \<noteq> []" by auto
  then obtain exts where exts: "distribute ?avail ss = Some exts"
    and len: "length exts = length cs" and sum: "sum_list exts = ?avail"
    and pos: "length ss \<le> ?avail \<longrightarrow> 0 \<notin> set exts"
    using distribute_ok[of ?avail ss] wf(2) by auto
  from 2(2) exts obtain cs' where cs': "layout_children d r cs exts (origin_of d r) (rects, seps) =
      Some (cs', rects', seps')" and n': "n' = Split d cs' exts" by auto
  have len': "length cs' = length cs" using layout_shape(2)[OF cs' wf(3) len] by simp
  have "distribute ?avail exts = Some exts"
    using sum pos len wf(2) by (intro distribute_id) auto
  then have again: "distribute (extent_of d r - (length cs' - 1)) exts = Some exts"
    by (simp only: len')
  from 2(1)[OF exts cs' wf(3) len] obtain rs sps where "rects' = rects @ rs" "seps' = seps @ sps"
    "\<forall>rects seps. layout_children d r cs' exts (origin_of d r) (rects, seps) =
      Some (cs', rects @ rs, seps @ sps)" by blast
  then show ?case using again by (intro exI[of _ rs] exI[of _ sps]) (simp add: n')
next
  case (5 d r c cs e exts at rects seps)
  obtain c1 rects1 seps1 where c: "layout_node c (child_rect d r at e) (rects, seps) = Some (c1, rects1, seps1)"
    using layout_total(1) by (metis prod_cases3)
  let ?seps = "if cs = [] then seps1 else seps1 @ [child_sep d r (at + e)]"
  let ?at = "if cs = [] then at + e else at + e + 1"
  from 5(3) c obtain cs1 where rest: "layout_children d r cs exts ?at (rects1, ?seps) = Some (cs1, rects', seps')"
    and cs': "cs' = c1 # cs1" by auto
  from 5(1)[OF c] 5(4) obtain rs ss where first: "rects1 = rects @ rs" "seps1 = seps @ ss"
    "\<forall>rects seps. layout_node c1 (child_rect d r at e) (rects, seps) = Some (c1, rects @ rs, seps @ ss)"
    by auto
  have "\<exists>rs ss. rects' = rects1 @ rs \<and> seps' = ?seps @ ss \<and>
     (\<forall>rects seps. layout_children d r cs1 exts ?at (rects, seps) = Some (cs1, rects @ rs, seps @ ss))"
    by (rule 5(2)[OF c refl refl rest]) (use 5(4,5) in auto)
  then obtain rs' ss' where second: "rects' = rects1 @ rs'" "seps' = ?seps @ ss'"
    "\<forall>rects seps. layout_children d r cs1 exts ?at (rects, seps) = Some (cs1, rects @ rs', seps @ ss')"
    by blast
  have "length cs1 = length cs"
    using layout_shape(2)[OF rest] 5(4,5) by simp
  then have empty: "cs1 = [] \<longleftrightarrow> cs = []" by auto
  let ?mid = "if cs = [] then [] else [child_sep d r (at + e)]"
  show ?case
    by (rule exI[of _ "rs @ rs'"], rule exI[of _ "ss @ ?mid @ ss'"])
      (use first second in \<open>simp add: cs' empty\<close>)
qed auto

section \<open>Opening a window\<close>

lemma split_leaf_leaves:
  "fst (split_leaf target d new n) = (target \<in> set (collect_leaves n)) \<and>
   collect_leaves (snd (split_leaf target d new n)) =
     (let ls = collect_leaves n in
      if target \<in> set ls then takeWhile (\<lambda>i. i \<noteq> target) ls @ new # dropWhile (\<lambda>i. i \<noteq> target) ls else ls)"
  "fst (split_any target d new cs) = (target \<in> set (concat (map collect_leaves cs))) \<and>
   concat (map collect_leaves (snd (split_any target d new cs))) =
     (let ls = concat (map collect_leaves cs) in
      if target \<in> set ls then takeWhile (\<lambda>i. i \<noteq> target) ls @ new # dropWhile (\<lambda>i. i \<noteq> target) ls else ls)"
proof (induction target d new n and target d new cs rule: split_leaf_split_any.induct)
  case (4 target d new c cs)
  obtain found c' where c: "split_leaf target d new c = (found, c')" by fastforce
  obtain found' cs' where cs: "split_any target d new cs = (found', cs')" by fastforce
  show ?case
  proof (cases "target \<in> set (collect_leaves c)")
    case True
    with 4(1) c show ?thesis by (simp add: Let_def takeWhile_append1 dropWhile_append1)
  next
    case False
    then have neq: "\<And>x. x \<in> set (collect_leaves c) \<Longrightarrow> x \<noteq> target" by blast
    from False 4(1) c have c': "\<not> found" "collect_leaves c' = collect_leaves c" by simp_all
    have "fst (split_any target d new cs) = (target \<in> set (concat (map collect_leaves cs))) \<and>
      concat (map collect_leaves (snd (split_any target d new cs))) =
       (let ls = concat (map collect_leaves cs) in
        if target \<in> set ls then takeWhile (\<lambda>i. i \<noteq> target) ls @ new # dropWhile (\<lambda>i. i \<noteq> target) ls else ls)"
      by (rule 4(2)[OF refl c[symmetric] c'(1)])
    with cs c c' False neq show ?thesis
      by (simp add: Let_def takeWhile_append2 dropWhile_append2)
  qed
qed (auto simp: Let_def split: prod.splits)

lemma split_any_length: "length (snd (split_any target d new cs)) = length cs"
  by (induction cs) (auto simp: split: prod.splits)

lemma split_leaf_wf:
  "wf_node n \<Longrightarrow> wf_node (snd (split_leaf target d new n))"
  "\<forall>c \<in> set cs. wf_node c \<Longrightarrow> \<forall>c \<in> set (snd (split_any target d new cs)). wf_node c"
proof (induction target d new n and target d new cs rule: split_leaf_split_any.induct)
  case (2 target d new d' cs ss)
  then show ?case using split_any_length[of target d new cs] by (cases "split_any target d new cs") simp
qed (auto split: prod.splits)

section \<open>Closing a window\<close>

lemma drop_at_length: "p < length xs \<Longrightarrow> length (drop_at p xs) = length xs - 1"
  by (simp add: drop_at_def)

lemma drop_at_set: "set (drop_at p xs) \<subseteq> set xs"
  unfolding drop_at_def using set_take_subset set_drop_subset by fastforce

lemma collapse_wf:
  "\<forall>c \<in> set cs. wf_node c \<Longrightarrow> cs \<noteq> [] \<Longrightarrow> length ss = length cs \<Longrightarrow> wf_node (collapse (Split d cs ss))"
  by (auto simp: collapse_def split: list.splits)

lemma collapse_leaves: "collect_leaves (collapse (Split d cs ss)) = concat (map collect_leaves cs)"
  by (auto simp: collapse_def split: list.splits)

lemma wf_leaves_nonempty: "wf_node n \<Longrightarrow> collect_leaves n \<noteq> []"
proof (induction n rule: wf_node.induct)
  case (2 d cs ss)
  then obtain c cs' where "cs = c # cs'" by (cases cs) auto
  with 2 show ?case by auto
qed simp

lemma concat_drop_at:
  assumes "distinct (concat xss)" and "p < length xss" and "xss ! p = [x]"
  shows "concat (drop_at p xss) = filter (\<lambda>y. y \<noteq> x) (concat xss)"
proof -
  have split: "xss = take p xss @ [x] # drop (Suc p) xss"
    using assms(2,3) by (metis id_take_nth_drop)
  then have "distinct (concat (take p xss) @ [x] @ concat (drop (Suc p) xss))"
    using assms(1) by (metis concat.simps(2) concat_append)
  then have "x \<notin> set (concat (take p xss))" "x \<notin> set (concat (drop (Suc p) xss))" by auto
  then have "filter (\<lambda>y. y \<noteq> x) (concat (take p xss)) = concat (take p xss)"
    "filter (\<lambda>y. y \<noteq> x) (concat (drop (Suc p) xss)) = concat (drop (Suc p) xss)"
    by (metis (mono_tags, lifting) filter_True)+
  moreover have "concat xss = concat (take p xss) @ [x] @ concat (drop (Suc p) xss)"
    by (subst split) simp
  ultimately show ?thesis by (simp add: drop_at_def)
qed

lemma remove_leaf_ok:
  "wf_node n \<Longrightarrow> distinct (collect_leaves n) \<Longrightarrow> n \<noteq> Leaf target \<Longrightarrow>
   fst (remove_leaf target n) = (target \<in> set (collect_leaves n)) \<and>
   wf_node (snd (remove_leaf target n)) \<and>
   collect_leaves (snd (remove_leaf target n)) = filter (\<lambda>i. i \<noteq> target) (collect_leaves n)"
  "\<forall>c \<in> set cs. wf_node c \<Longrightarrow> distinct (concat (map collect_leaves cs)) \<Longrightarrow> Leaf target \<notin> set cs \<Longrightarrow>
   fst (remove_any target cs) = (target \<in> set (concat (map collect_leaves cs))) \<and>
   length (snd (remove_any target cs)) = length cs \<and>
   (\<forall>c \<in> set (snd (remove_any target cs)). wf_node c) \<and>
   concat (map collect_leaves (snd (remove_any target cs))) =
     filter (\<lambda>i. i \<noteq> target) (concat (map collect_leaves cs))"
proof (induction target n and target cs rule: remove_leaf_remove_any.induct)
  case (2 target d cs ss)
  from 2(2) have wf: "2 \<le> length cs" "length ss = length cs" "\<forall>c \<in> set cs. wf_node c" by auto
  show ?case
  proof (cases "position (\<lambda>c. c = Leaf target) cs")
    case (Some p)
    then have p: "p < length cs" "cs ! p = Leaf target" using position_Some by blast+
    then have "Leaf target \<in> set cs" by (metis nth_mem)
    then have "target \<in> set (concat (map collect_leaves cs))" by force
    moreover have "wf_node (collapse (Split d (drop_at p cs) (drop_at p ss)))"
    proof (rule collapse_wf)
      show "\<forall>c \<in> set (drop_at p cs). wf_node c" using wf(3) drop_at_set[of p cs] by blast
      show "drop_at p cs \<noteq> []" using drop_at_length[of p cs] p wf(1) by fastforce
      show "length (drop_at p ss) = length (drop_at p cs)" using p wf(2) by (simp add: drop_at_length)
    qed
    moreover have "concat (map collect_leaves (drop_at p cs)) =
        filter (\<lambda>i. i \<noteq> target) (concat (map collect_leaves cs))"
      using concat_drop_at[of "map collect_leaves cs" p target] 2(3) p
      by (simp add: drop_at_def take_map drop_map)
    ultimately show ?thesis using Some by (simp add: collapse_leaves)
  next
    case None
    then have "Leaf target \<notin> set cs" by (auto simp: position_None)
    with 2(1)[OF None wf(3)] 2(3)
    have ih: "fst (remove_any target cs) = (target \<in> set (concat (map collect_leaves cs)))"
      "length (snd (remove_any target cs)) = length cs"
      "\<forall>c \<in> set (snd (remove_any target cs)). wf_node c"
      "concat (map collect_leaves (snd (remove_any target cs))) =
        filter (\<lambda>i. i \<noteq> target) (concat (map collect_leaves cs))" by auto
    obtain removed cs' where any: "remove_any target cs = (removed, cs')" by fastforce
    have "wf_node (collapse (Split d cs' ss))"
      using ih(2,3) wf any by (intro collapse_wf) auto
    with None any ih wf show ?thesis by (simp add: collapse_leaves)
  qed
next
  case (4 target c cs)
  from 4(4,5) have dist: "distinct (collect_leaves c)" "distinct (concat (map collect_leaves cs))"
    and disj: "set (collect_leaves c) \<inter> set (concat (map collect_leaves cs)) = {}"
    and neq: "c \<noteq> Leaf target" "Leaf target \<notin> set cs" by auto
  obtain removed c' where c: "remove_leaf target c = (removed, c')" by fastforce
  obtain removed' cs' where cs: "remove_any target cs = (removed', cs')" by fastforce
  from 4(1)[OF _ dist(1) neq(1)] 4(3) c
  have ih: "removed = (target \<in> set (collect_leaves c))" "wf_node c'"
    "collect_leaves c' = filter (\<lambda>i. i \<noteq> target) (collect_leaves c)" by auto
  show ?case
  proof (cases removed)
    case True
    with ih(1) disj have "target \<notin> set (concat (map collect_leaves cs))" by blast
    then have "filter (\<lambda>i. i \<noteq> target) (concat (map collect_leaves cs)) = concat (map collect_leaves cs)"
      by (metis (mono_tags, lifting) filter_True)
    with True c ih 4(3) show ?thesis by simp
  next
    case False
    have "fst (remove_any target cs) = (target \<in> set (concat (map collect_leaves cs))) \<and>
       length (snd (remove_any target cs)) = length cs \<and>
       (\<forall>c \<in> set (snd (remove_any target cs)). wf_node c) \<and>
       concat (map collect_leaves (snd (remove_any target cs))) =
         filter (\<lambda>i. i \<noteq> target) (concat (map collect_leaves cs))"
      by (rule 4(2)[OF refl c[symmetric] False]) (use 4(3) dist neq in auto)
    with False c cs ih show ?thesis by simp
  qed
qed auto

lemma split_absent:
  "target \<notin> set (collect_leaves n) \<Longrightarrow> split_leaf target d new n = (False, n)"
  "target \<notin> set (concat (map collect_leaves cs)) \<Longrightarrow> split_any target d new cs = (False, cs)"
  by (induction target d new n and target d new cs rule: split_leaf_split_any.induct) auto

lemma remove_absent:
  "target \<notin> set (collect_leaves n) \<Longrightarrow> remove_leaf target n = (False, n)"
  "target \<notin> set (concat (map collect_leaves cs)) \<Longrightarrow> remove_any target cs = (False, cs)"
proof (induction target n and target cs rule: remove_leaf_remove_any.induct)
  case (2 target d cs ss)
  have "position (\<lambda>c. c = Leaf target) cs = None" using 2(2) by (force simp: position_None)
  with 2 show ?case by simp
qed auto

lemma split_leaf_new: "new \<notin> set (collect_leaves n) \<Longrightarrow> snd (split_leaf target d new n) \<noteq> Leaf new"
  by (cases n) (auto simp: Let_def split: prod.splits)

lemma split_then_remove:
  "wf_node n \<Longrightarrow> new \<notin> set (collect_leaves n) \<Longrightarrow> target \<in> set (collect_leaves n) \<Longrightarrow>
   remove_leaf new (snd (split_leaf target d new n)) = (True, n)"
  "\<forall>c \<in> set cs. wf_node c \<Longrightarrow> new \<notin> set (concat (map collect_leaves cs)) \<Longrightarrow>
   target \<in> set (concat (map collect_leaves cs)) \<Longrightarrow>
   Leaf new \<notin> set (snd (split_any target d new cs)) \<and>
   remove_any new (snd (split_any target d new cs)) = (True, cs)"
proof (induction target d new n and target d new cs rule: split_leaf_split_any.induct)
  case (1 target d new i)
  then show ?case by (simp add: drop_at_def collapse_def)
next
  case (2 target d new d' cs ss)
  obtain found cs' where cs: "split_any target d new cs = (found, cs')" by fastforce
  from 2 cs have "Leaf new \<notin> set cs'" "remove_any new cs' = (True, cs)" by auto
  moreover from this(1) have "position (\<lambda>c. c = Leaf new) cs' = None" by (auto simp: position_None)
  moreover obtain c1 c2 rest where "cs = c1 # c2 # rest"
    using 2(2) by (cases cs; cases "tl cs") auto
  ultimately show ?case using cs by (simp add: collapse_def)
next
  case (4 target d new c cs)
  obtain found c' where c: "split_leaf target d new c = (found, c')" by fastforce
  have new_c: "c' \<noteq> Leaf new" using split_leaf_new[of new c target d] 4(4) c by simp
  have new_cs: "Leaf new \<notin> set cs" using 4(4) by force
  show ?case
  proof (cases "target \<in> set (collect_leaves c)")
    case True
    with 4(1) 4(3,4) c have "remove_leaf new c' = (True, c)" by simp
    moreover have found using True split_leaf_leaves(1)[of target d new c] c by simp
    ultimately show ?thesis using c new_c new_cs by auto
  next
    case False
    with split_absent(1)[of target c d new] c have c': "\<not> found" "c' = c" by auto
    have "Leaf new \<notin> set (snd (split_any target d new cs)) \<and>
       remove_any new (snd (split_any target d new cs)) = (True, cs)"
      by (rule 4(2)[OF refl c[symmetric] c'(1)]) (use 4(3-5) False in auto)
    moreover have "remove_leaf new c = (False, c)" using 4(4) by (intro remove_absent) auto
    ultimately show ?thesis using c c' new_c by (auto split: prod.splits)
  qed
qed auto

section \<open>Resizing\<close>

lemma adjust_sizes_length [simp]: "length (adjust_sizes ss i delta d) = length ss"
  by (simp add: adjust_sizes_def Let_def)

lemma sum_list_swap:
  fixes ss :: "nat list"
  assumes "i < length ss" and "j < length ss" and "i \<noteq> j" and "g \<le> ss ! j"
  shows "sum_list (ss[i := ss ! i + g, j := ss ! j - g]) = sum_list ss"
proof -
  have "sum_list (ss[i := ss ! i + g]) = sum_list ss + g"
    using assms(1) by (simp add: sum_list_update)
  moreover have "sum_list (ss[i := ss ! i + g, j := ss ! j - g]) + g = sum_list (ss[i := ss ! i + g])"
    using assms by (simp add: sum_list_update)
  ultimately show ?thesis by simp
qed

text \<open>A resize moves cells between two siblings, never below the least extent.\<close>

lemma adjust_sizes_swap:
  assumes "i < length ss"
  obtains "adjust_sizes ss i delta d = ss"
  | a b g where "a < length ss" "b < length ss" "a \<noteq> b" "g \<le> ss ! b - min_extent d"
      "adjust_sizes ss i delta d = ss[a := ss ! a + g, b := ss ! b - g]"
proof (cases "length ss < 2 \<or> delta = 0")
  case True
  then show ?thesis using that(1) by (auto simp: adjust_sizes_def)
next
  case False
  let ?j = "if i + 1 < length ss then i + 1 else i - 1"
  have j: "?j < length ss" "i \<noteq> ?j" using assms False by auto
  show ?thesis
  proof (cases "0 < delta")
    case True
    show ?thesis
      by (rule that(2)[OF assms j, of "min (nat delta) (ss ! ?j - min_extent d)"])
        (use False True j(2) in \<open>simp_all add: adjust_sizes_def Let_def\<close>)
  next
    case neg: False
    show ?thesis
      by (rule that(2)[OF j(1) assms j(2)[symmetric], of "min (nat (- delta)) (ss ! i - min_extent d)"])
        (use False neg j(2) in \<open>simp_all add: adjust_sizes_def Let_def list_update_swap\<close>)
  qed
qed

lemma adjust_sizes_sum:
  assumes "i < length ss"
  shows "sum_list (adjust_sizes ss i delta d) = sum_list ss"
  by (rule adjust_sizes_swap[OF assms, of delta d]) (auto intro!: sum_list_swap)

lemma adjust_sizes_min:
  assumes "\<forall>s \<in> set ss. min_extent d \<le> s" and "i < length ss"
  shows "\<forall>s \<in> set (adjust_sizes ss i delta d). min_extent d \<le> s"
proof (rule adjust_sizes_swap[OF assms(2), of delta d])
  fix a b g
  assume swap: "a < length ss" "b < length ss" "a \<noteq> b" "g \<le> ss ! b - min_extent d"
    "adjust_sizes ss i delta d = ss[a := ss ! a + g, b := ss ! b - g]"
  have "min_extent d \<le> ss ! k" if "k < length ss" for k using assms(1) that by simp
  from this[OF swap(1)] this[OF swap(2)] swap(4)
  have "min_extent d \<le> ss ! a + g" "min_extent d \<le> ss ! b - g" by auto
  with assms(1) show ?thesis unfolding swap(5)
    by (auto dest!: set_mp[OF set_update_subset_insert])
qed (use assms in simp)

text \<open>The tree with every split's sizes replaced by the extent they add up to.\<close>

fun extents :: "win_node \<Rightarrow> win_node" where
  "extents (Leaf i) = Leaf i"
| "extents (Split d cs ss) = Split d (map extents cs) [sum_list ss]"

lemma extents_leaves: "collect_leaves (extents n) = collect_leaves n"
  by (induction n) (auto simp: comp_def cong: map_cong)

lemma resize_extents:
  "wf_node n \<Longrightarrow> wf_node (snd (snd (resize_toward target axis delta n dn))) \<and>
     extents (snd (snd (resize_toward target axis delta n dn))) = extents n"
  "\<forall>c \<in> set cs. wf_node c \<Longrightarrow>
     length (snd (snd (resize_path target axis delta cs i dn))) = length cs \<and>
     (\<forall>c \<in> set (snd (snd (resize_path target axis delta cs i dn))). wf_node c) \<and>
     map extents (snd (snd (resize_path target axis delta cs i dn))) = map extents cs \<and>
     (\<forall>k. fst (resize_path target axis delta cs i dn) = Some k \<longrightarrow> i \<le> k \<and> k < i + length cs)"
proof (induction target axis delta n dn and target axis delta cs i dn
    rule: resize_toward_resize_path.induct)
  case (2 target axis delta d cs ss dn)
  obtain at dn' cs' where path: "resize_path target axis delta cs 0 dn = (at, dn', cs')"
    by (metis prod_cases3)
  with 2 have ih: "length cs' = length cs" "\<forall>c \<in> set cs'. wf_node c" "map extents cs' = map extents cs"
    "\<And>k. at = Some k \<Longrightarrow> k < length cs" by auto
  with 2(2) path show ?case by (auto split: option.splits simp: adjust_sizes_sum)
next
  case (4 target axis delta c cs i dn)
  obtain found dn1 c' where c: "resize_toward target axis delta c dn = (found, dn1, c')"
    by (metis prod_cases3)
  obtain at dn2 cs' where cs: "resize_path target axis delta cs (i + 1) dn1 = (at, dn2, cs')"
    by (metis prod_cases3)
  from 4(1) 4(3) c have ih: "wf_node c'" "extents c' = extents c" by simp_all
  show ?case
  proof (cases found)
    case True
    with c ih 4(3) show ?thesis by simp
  next
    case False
    with 4(2)[OF refl c[symmetric] refl False] 4(3) cs
    have "length cs' = length cs" "\<forall>c \<in> set cs'. wf_node c" "map extents cs' = map extents cs"
      "\<forall>k. at = Some k \<longrightarrow> i + 1 \<le> k \<and> k < i + 1 + length cs" by auto
    with False c cs ih show ?thesis by auto
  qed
qed auto

end
