(* ===== verification/Windows.thy ===== *)
theory Windows
  imports Floats LayoutProps Ordered_Map "HOL-Library.Product_Lexorder"
begin

text \<open>
  The window tree and its management commands (\<open>WindowTree\<close> and the \<open>Editor\<close> methods of
  \<open>crates/bemtvi-core/src/editor/windows.rs\<close>): split, close, only, resize, focus, floats and their
  conversion.

  The state is one layer's tree with what a relayout reads: the tree's area, the screen, the
  cursor's offset. A window's view (cursor, scroll, options, folds, jumps) is not part of it, nor
  are the scroll adjustments that follow a relayout. A lookup that panics in the code
  (\<open>expect\<close>) is \<open>None\<close>.
\<close>

section \<open>The tree\<close>

record window =
  wbuf :: nat
  wrect :: rect
  wfloat :: "float_config option"
  wfloat_pos :: "(int \<times> int) option"
  loclist_bufnr :: "nat option"

record win_tree =
  wins :: "(nat \<times> window) list"
  wroot :: win_node
  wcurrent :: nat
  wseps :: "separator list"
  wfloats :: "nat list"

record win_ed =
  wtree :: win_tree
  next_win_id :: nat
  equalalways :: bool
  area :: rect
  screen :: rect
  cursor_off :: "nat \<times> nat"
  focus_lock :: "nat option"
  win_echo :: "ustring option"

definition rect_default :: rect where
  "rect_default = \<lparr>rx = 0, ry = 0, rwidth = 0, rheight = 0\<rparr>"

definition tiled_window :: "nat \<Rightarrow> window" where
  "tiled_window buf =
     \<lparr>wbuf = buf, wrect = rect_default, wfloat = None, wfloat_pos = None, loclist_bufnr = None\<rparr>"

definition with_window :: "nat \<Rightarrow> nat \<Rightarrow> win_tree" where
  "with_window i buf =
     \<lparr>wins = [(i, tiled_window buf)], wroot = Leaf i, wcurrent = i, wseps = [], wfloats = []\<rparr>"

definition tree_layout_node :: "win_tree \<Rightarrow> layout_skeleton" where
  "tree_layout_node t = to_layout (wroot t)"

definition tree_from_layout :: "(nat \<times> window) list \<Rightarrow> layout_skeleton \<Rightarrow> nat \<Rightarrow> win_tree" where
  "tree_from_layout ws root cur =
     \<lparr>wins = ws, wroot = from_layout root, wcurrent = cur, wseps = [], wfloats = []\<rparr>"

definition win_get :: "win_tree \<Rightarrow> nat \<Rightarrow> window option" where
  "win_get t i = map_of (wins t) i"

definition leaves_of :: "win_tree \<Rightarrow> nat list" where
  "leaves_of t = collect_leaves (wroot t)"

definition win_count :: "win_tree \<Rightarrow> nat" where
  "win_count t = length (wins t)"

definition tiled_count :: "win_tree \<Rightarrow> nat" where
  "tiled_count t = length (leaves_of t)"

definition float_key :: "win_tree \<Rightarrow> nat \<Rightarrow> nat \<times> nat" where
  "float_key t i =
     (case Option.bind (win_get t i) wfloat of Some f \<Rightarrow> zindex f | None \<Rightarrow> 0, i)"

definition sort_floats :: "win_tree \<Rightarrow> win_tree" where
  "sort_floats t = t\<lparr>wfloats := sort_key (float_key t) (wfloats t)\<rparr>"

section \<open>Layout\<close>

definition set_rects :: "(nat \<times> rect) list \<Rightarrow> (nat \<times> window) list \<Rightarrow> (nat \<times> window) list" where
  "set_rects rects ws = fold (\<lambda>(i, r). bt_modify i (\<lambda>w. w\<lparr>wrect := r\<rparr>)) rects ws"

definition float_place ::
  "(nat \<Rightarrow> nat \<Rightarrow> nat) \<Rightarrow> rect \<Rightarrow> rect \<Rightarrow> nat \<times> nat \<Rightarrow> win_tree \<Rightarrow> float_config \<Rightarrow> rect \<times> int \<times> int" where
  "float_place frac total_r screen_r cell t cfg =
     (let (origin, bounds) =
            (case relative cfg of
               RelEditor \<Rightarrow> (screen_r, screen_r)
             | RelWin i \<Rightarrow> (case win_get t i of Some w \<Rightarrow> wrect w | None \<Rightarrow> total_r, total_r)
             | RelCursor \<Rightarrow> (\<lparr>rx = fst cell, ry = snd cell, rwidth = 0, rheight = 0\<rparr>, total_r));
          r = place_float frac origin bounds cfg
      in (r, int (ry r) - int (ry origin), int (rx r) - int (rx origin)))"

definition position_floats ::
  "(nat \<Rightarrow> nat \<Rightarrow> nat) \<Rightarrow> rect \<Rightarrow> rect \<Rightarrow> nat \<times> nat \<Rightarrow> win_tree \<Rightarrow> win_tree" where
  "position_floats frac total_r screen_r off t =
     (if wfloats t = [] then t
      else
        let cell = (case win_get t (wcurrent t) of
                Some w \<Rightarrow> (rx (wrect w) + fst off, ry (wrect w) + snd off) | None \<Rightarrow> off);
            placed = List.map_filter (\<lambda>i. map_option (\<lambda>cfg. (i, float_place frac total_r screen_r cell t cfg))
                (Option.bind (win_get t i) wfloat)) (wfloats t)
        in t\<lparr>wins := fold (\<lambda>(i, r, pos). bt_modify i (\<lambda>w. w\<lparr>wrect := r, wfloat_pos := Some pos\<rparr>))
             placed (wins t)\<rparr>)"

definition tree_layout ::
  "(nat \<Rightarrow> nat \<Rightarrow> nat) \<Rightarrow> rect \<Rightarrow> rect \<Rightarrow> nat \<times> nat \<Rightarrow> win_tree \<Rightarrow> win_tree option" where
  "tree_layout frac total_r screen_r off t =
     map_option (\<lambda>(root, rects, seps).
       position_floats frac total_r screen_r off
         (t\<lparr>wroot := root, wins := set_rects rects (wins t), wseps := seps\<rparr>))
     (layout_node (wroot t) total_r ([], []))"

text \<open>\<open>relayout\<close> for one tree.\<close>

definition relay :: "(nat \<Rightarrow> nat \<Rightarrow> nat) \<Rightarrow> win_ed \<Rightarrow> win_ed option" where
  "relay frac ed =
     map_option (\<lambda>t. ed\<lparr>wtree := t\<rparr>)
       (tree_layout frac (area ed) (screen ed) (cursor_off ed) (wtree ed))"

definition alloc_window_id :: "win_ed \<Rightarrow> nat \<times> win_ed" where
  "alloc_window_id ed = (next_win_id ed, ed\<lparr>next_win_id := next_win_id ed + 1\<rparr>)"

definition equalize_if :: "win_ed \<Rightarrow> win_ed" where
  "equalize_if ed =
     (if equalalways ed
      then ed\<lparr>wtree := (wtree ed)\<lparr>wroot := equalize_node (wroot (wtree ed))\<rparr>\<rparr> else ed)"

section \<open>Opening windows\<close>

definition win_split :: "(nat \<Rightarrow> nat \<Rightarrow> nat) \<Rightarrow> split_dir \<Rightarrow> win_ed \<Rightarrow> win_ed option" where
  "win_split frac d ed =
     (case win_get (wtree ed) (wcurrent (wtree ed)) of
        None \<Rightarrow> None
      | Some w \<Rightarrow>
          let cur = wcurrent (wtree ed); (i, ed) = alloc_window_id ed; t = wtree ed in
          relay frac (equalize_if (ed\<lparr>wtree :=
            t\<lparr>wins := bt_insert i (tiled_window (wbuf w)) (wins t),
              wroot := snd (split_leaf cur d i (wroot t)), wcurrent := i\<rparr>\<rparr>)))"

definition focus_window :: "nat \<Rightarrow> win_ed \<Rightarrow> win_ed" where
  "focus_window i ed =
     (if i = wcurrent (wtree ed) \<or> win_get (wtree ed) i = None then ed
      else if (case focus_lock ed of Some l \<Rightarrow> l \<noteq> i | None \<Rightarrow> False) then ed
      else ed\<lparr>wtree := (wtree ed)\<lparr>wcurrent := i\<rparr>\<rparr>)"

definition resize_window_id ::
  "(nat \<Rightarrow> nat \<Rightarrow> nat) \<Rightarrow> nat \<Rightarrow> split_dir \<Rightarrow> int \<Rightarrow> win_ed \<Rightarrow> win_ed option" where
  "resize_window_id frac i axis delta ed =
     (if delta = 0 then Some ed
      else if win_get (wtree ed) i = None \<or> win_count (wtree ed) \<le> 1 then Some ed
      else relay frac (ed\<lparr>wtree := (wtree ed)\<lparr>wroot :=
             snd (snd (resize_toward i axis delta (wroot (wtree ed)) False))\<rparr>\<rparr>))"

definition resize_window :: "(nat \<Rightarrow> nat \<Rightarrow> nat) \<Rightarrow> split_dir \<Rightarrow> int \<Rightarrow> win_ed \<Rightarrow> win_ed option" where
  "resize_window frac axis delta ed = resize_window_id frac (wcurrent (wtree ed)) axis delta ed"

definition set_window_width :: "(nat \<Rightarrow> nat \<Rightarrow> nat) \<Rightarrow> nat \<Rightarrow> nat \<Rightarrow> win_ed \<Rightarrow> win_ed option" where
  "set_window_width frac i width ed =
     (case win_get (wtree ed) i of
        None \<Rightarrow> Some ed
      | Some w \<Rightarrow> resize_window_id frac i Vertical (int width - int (rwidth (wrect w))) ed)"

definition set_window_height :: "(nat \<Rightarrow> nat \<Rightarrow> nat) \<Rightarrow> nat \<Rightarrow> nat \<Rightarrow> win_ed \<Rightarrow> win_ed option" where
  "set_window_height frac i height ed =
     (case win_get (wtree ed) i of
        None \<Rightarrow> Some ed
      | Some w \<Rightarrow> resize_window_id frac i Horizontal (int (height + 1) - int (rheight (wrect w))) ed)"

definition open_bottom_window ::
  "(nat \<Rightarrow> nat \<Rightarrow> nat) \<Rightarrow> nat \<Rightarrow> nat \<Rightarrow> win_ed \<Rightarrow> (nat \<times> win_ed) option" where
  "open_bottom_window frac buf height ed =
     (case win_get (wtree ed) (wcurrent (wtree ed)) of
        None \<Rightarrow> None
      | Some w \<Rightarrow>
          let (i, ed) = alloc_window_id ed; t = wtree ed;
              ed = ed\<lparr>wtree := t\<lparr>wins := bt_insert i (tiled_window buf) (wins t),
                wroot := Split Horizontal [wroot t, Leaf i] [1, 1]\<rparr>\<rparr>
          in map_option (Pair i)
               (Option.bind (relay frac ed) (\<lambda>ed.
                Option.bind (set_window_height frac i height (focus_window i ed)) (relay frac))))"

definition open_float_window ::
  "(nat \<Rightarrow> nat \<Rightarrow> nat) \<Rightarrow> nat \<Rightarrow> float_config \<Rightarrow> bool \<Rightarrow> win_ed \<Rightarrow> (nat \<times> win_ed) option" where
  "open_float_window frac buf cfg enter ed =
     (case win_get (wtree ed) (wcurrent (wtree ed)) of
        None \<Rightarrow> None
      | Some w \<Rightarrow>
          let (i, ed) = alloc_window_id ed; t = wtree ed;
              t = t\<lparr>wins := bt_insert i ((tiled_window buf)\<lparr>wfloat := Some cfg\<rparr>) (wins t),
                    wfloats := wfloats t @ [i]\<rparr>;
              ed = ed\<lparr>wtree := sort_floats t\<rparr>;
              ed = (if enter then focus_window i ed else ed)
          in map_option (Pair i) (relay frac ed))"

section \<open>Closing windows\<close>

definition close_all_floats :: "win_ed \<Rightarrow> win_ed" where
  "close_all_floats ed =
     (let t = wtree ed in
      ed\<lparr>wtree := t\<lparr>wins := fold bt_remove (wfloats t) (wins t), wfloats := []\<rparr>\<rparr>)"

text \<open>The floats anchored to a victim, in rounds over the growing list: \<open>victims ! i\<close> is the parent of
  the round. Every round adds floats not yet listed, so at most one round per float adds any.\<close>

definition anchored_to :: "win_tree \<Rightarrow> nat \<Rightarrow> nat list \<Rightarrow> nat list" where
  "anchored_to t parent victims =
     filter (\<lambda>f. map_option relative (Option.bind (win_get t f) wfloat) = Some (RelWin parent))
       (filter (\<lambda>f. f \<notin> set victims) (wfloats t))"

partial_function (option) victims_from :: "win_tree \<Rightarrow> nat list \<Rightarrow> nat \<Rightarrow> nat list option" where
  "victims_from t victims i =
     (if i < length victims
      then victims_from t (victims @ anchored_to t (victims ! i) victims) (i + 1)
      else Some victims)"

lemmas [code] = victims_from.simps

definition drop_victim :: "nat \<Rightarrow> win_tree \<times> bool \<Rightarrow> (win_tree \<times> bool) option" where
  "drop_victim v = (\<lambda>(t, removed_tiled).
     case win_get t v of
       None \<Rightarrow> None
     | Some w \<Rightarrow>
         if wfloat w \<noteq> None
         then Some (t\<lparr>wfloats := filter (\<lambda>f. f \<noteq> v) (wfloats t), wins := bt_remove v (wins t)\<rparr>, removed_tiled)
         else Some (t\<lparr>wroot := snd (remove_leaf v (wroot t)), wins := bt_remove v (wins t)\<rparr>, True))"

fun drop_victims :: "nat list \<Rightarrow> win_tree \<times> bool \<Rightarrow> (win_tree \<times> bool) option" where
  "drop_victims [] st = Some st"
| "drop_victims (v # vs) st = Option.bind (drop_victim v st) (drop_victims vs)"

definition rect_center :: "rect \<Rightarrow> nat \<times> nat" where
  "rect_center r = (rx r + rwidth r div 2, ry r + rheight r div 2)"

definition abs_gap :: "nat \<Rightarrow> nat \<Rightarrow> nat" where
  "abs_gap a b = (if a \<le> b then b - a else a - b)"

definition center_gap :: "rect \<Rightarrow> rect \<Rightarrow> nat" where
  "center_gap from r =
     abs_gap (fst (rect_center from)) (fst (rect_center r)) +
     abs_gap (snd (rect_center from)) (snd (rect_center r))"

text \<open>\<open>min_by_key\<close>: the first of several minima.\<close>

fun first_min :: "('a \<Rightarrow> nat) \<Rightarrow> 'a list \<Rightarrow> 'a option" where
  "first_min f [] = None"
| "first_min f (x # xs) =
     (case first_min f xs of None \<Rightarrow> Some x | Some y \<Rightarrow> if f x \<le> f y then Some x else Some y)"

definition rect_of :: "win_tree \<Rightarrow> nat \<Rightarrow> rect" where
  "rect_of t i = (case win_get t i of Some w \<Rightarrow> wrect w | None \<Rightarrow> rect_default)"

definition nearest_window :: "rect \<Rightarrow> win_tree \<Rightarrow> nat option" where
  "nearest_window from t =
     (if list_all (\<lambda>i. win_get t i \<noteq> None) (leaves_of t)
      then first_min (\<lambda>i. center_gap from (rect_of t i)) (leaves_of t) else None)"

definition enter_window :: "nat \<Rightarrow> win_ed \<Rightarrow> win_ed option" where
  "enter_window i ed =
     (if win_get (wtree ed) i = None then None else Some (ed\<lparr>wtree := (wtree ed)\<lparr>wcurrent := i\<rparr>\<rparr>))"

text \<open>\<open>remove_window\<close>, but for the closing of an orphaned location list.\<close>

definition remove_core :: "(nat \<Rightarrow> nat \<Rightarrow> nat) \<Rightarrow> nat \<Rightarrow> window \<Rightarrow> win_ed \<Rightarrow> win_ed option" where
  "remove_core frac i w ed =
     Option.bind (victims_from (wtree ed) [i] 0) (\<lambda>victims.
     Option.bind (drop_victims victims (wtree ed, False)) (\<lambda>(t, removed_tiled).
       let was_focused = wcurrent (wtree ed) \<in> set victims;
           ed = ed\<lparr>wtree := t\<rparr>;
           ed = (if removed_tiled then equalize_if ed else ed)
       in if was_focused
          then Option.bind (nearest_window (wrect w) (wtree ed)) (\<lambda>new_cur.
               Option.bind (relay frac ed) (\<lambda>ed.
               Option.bind (enter_window new_cur ed) (\<lambda>ed.
                 if wfloats (wtree ed) \<noteq> [] then relay frac ed else Some ed)))
          else relay frac ed))"

partial_function (option) remove_window ::
  "(nat \<Rightarrow> nat \<Rightarrow> nat) \<Rightarrow> nat \<Rightarrow> win_ed \<Rightarrow> (bool \<times> win_ed) option" where
  "remove_window frac i ed =
     (case win_get (wtree ed) i of
        None \<Rightarrow> Some (False, ed)
      | Some w \<Rightarrow>
          if wfloat w = None \<and> tiled_count (wtree ed) \<le> 1
          then if wfloats (wtree ed) = [] then Some (False, ed)
               else let ed = close_all_floats ed;
                        refocus = (win_get (wtree ed) (wcurrent (wtree ed)) = None)
                    in Option.bind (relay frac ed) (\<lambda>ed.
                         if refocus then map_option (Pair True) (enter_window i ed) else Some (True, ed))
          else Option.bind (remove_core frac i w ed) (\<lambda>ed.
                 case loclist_bufnr w of
                   None \<Rightarrow> Some (True, ed)
                 | Some buf \<Rightarrow>
                     (case List.find (\<lambda>j. map_option wbuf (win_get (wtree ed) j) = Some buf)
                             (leaves_of (wtree ed) @ wfloats (wtree ed)) of
                        None \<Rightarrow> Some (True, ed)
                      | Some j \<Rightarrow> Option.bind (remove_window frac j ed) (\<lambda>(_, ed). Some (True, ed)))))"

lemmas [code] = remove_window.simps

definition only_window :: "(nat \<Rightarrow> nat \<Rightarrow> nat) \<Rightarrow> win_ed \<Rightarrow> win_ed option" where
  "only_window frac ed =
     (case win_get (wtree ed) (wcurrent (wtree ed)) of
        None \<Rightarrow> None
      | Some w \<Rightarrow>
          if wfloat w \<noteq> None
          then Some (ed\<lparr>win_echo := Some (us ''E5601: Cannot close window, only floating window would remain'')\<rparr>)
          else if length (leaves_of (wtree ed)) \<le> 1 \<and> wfloats (wtree ed) = [] then Some ed
          else
            let keep = wcurrent (wtree ed); ed = close_all_floats ed; t = wtree ed in
            relay frac (ed\<lparr>wtree := t\<lparr>wins := filter (\<lambda>(j, w). j = keep) (wins t), wroot := Leaf keep\<rparr>\<rparr>))"

section \<open>Moving focus, sizes\<close>

definition equalize_windows :: "(nat \<Rightarrow> nat \<Rightarrow> nat) \<Rightarrow> win_ed \<Rightarrow> win_ed option" where
  "equalize_windows frac ed =
     relay frac (ed\<lparr>wtree := (wtree ed)\<lparr>wroot := equalize_node (wroot (wtree ed))\<rparr>\<rparr>)"

definition maximize_window :: "(nat \<Rightarrow> nat \<Rightarrow> nat) \<Rightarrow> split_dir \<Rightarrow> win_ed \<Rightarrow> win_ed option" where
  "maximize_window frac axis ed =
     (if win_count (wtree ed) \<le> 1 then Some ed
      else relay frac (ed\<lparr>wtree := (wtree ed)\<lparr>wroot :=
             snd (maximize_toward (wcurrent (wtree ed)) axis (wroot (wtree ed)))\<rparr>\<rparr>))"

datatype win_dir = WLeft | WDown | WUp | WRight

definition on_side :: "win_dir \<Rightarrow> rect \<Rightarrow> rect \<Rightarrow> bool" where
  "on_side d from r =
     (case d of
        WLeft \<Rightarrow> rx r + rwidth r \<le> rx from
      | WRight \<Rightarrow> rx from + rwidth from \<le> rx r
      | WUp \<Rightarrow> ry r + rheight r \<le> ry from
      | WDown \<Rightarrow> ry from + rheight from \<le> ry r)"

definition window_in_dir :: "win_dir \<Rightarrow> win_tree \<Rightarrow> nat option" where
  "window_in_dir d t =
     (let from = rect_of t (wcurrent t) in
      first_min (\<lambda>i. center_gap from (rect_of t i))
        (filter (\<lambda>i. on_side d from (rect_of t i)) (filter (\<lambda>i. i \<noteq> wcurrent t) (leaves_of t))))"

definition focus_dir :: "win_dir \<Rightarrow> win_ed \<Rightarrow> win_ed" where
  "focus_dir d ed = (case window_in_dir d (wtree ed) of Some i \<Rightarrow> focus_window i ed | None \<Rightarrow> ed)"

definition focus_cycle :: "bool \<Rightarrow> win_ed \<Rightarrow> win_ed" where
  "focus_cycle forward ed =
     (let t = wtree ed;
          order = leaves_of t @ filter (\<lambda>f. case Option.bind (win_get t f) wfloat of
                    Some c \<Rightarrow> focusable c | None \<Rightarrow> False) (wfloats t);
          n = length order
      in if n \<le> 1 then ed
         else
           let i = (case position (\<lambda>i. i = wcurrent t) order of Some i \<Rightarrow> i | None \<Rightarrow> 0);
               nxt = (if forward then (i + 1) mod n else (i + n - 1) mod n)
           in focus_window (order ! nxt) ed)"

section \<open>Reconfiguring\<close>

record config_spec =
  make_tiled :: bool
  sp_relative :: "float_relative option"
  sp_anchor :: "float_anchor option"
  sp_row :: "int option"
  sp_col :: "int option"
  sp_width :: "extent option"
  sp_height :: "extent option"
  sp_align :: "align option option"
  sp_margin :: "margin option"
  sp_zindex :: "nat option"
  sp_focusable :: "bool option"
  sp_border :: "border_style option"
  sp_title :: "ustring option option"

definition or_keep :: "'a option \<Rightarrow> 'a \<Rightarrow> 'a" where
  "or_keep v old = (case v of Some x \<Rightarrow> x | None \<Rightarrow> old)"

definition merge_config :: "config_spec \<Rightarrow> float_config \<Rightarrow> float_config" where
  "merge_config sp c =
     c\<lparr>relative := or_keep (sp_relative sp) (relative c), anchor := or_keep (sp_anchor sp) (anchor c),
       row := or_keep (sp_row sp) (row c), col := or_keep (sp_col sp) (col c),
       cfg_width := or_keep (sp_width sp) (cfg_width c), cfg_height := or_keep (sp_height sp) (cfg_height c),
       cfg_align := or_keep (sp_align sp) (cfg_align c), cfg_margin := or_keep (sp_margin sp) (cfg_margin c),
       zindex := or_keep (sp_zindex sp) (zindex c), focusable := or_keep (sp_focusable sp) (focusable c),
       cfg_border := or_keep (sp_border sp) (cfg_border c), cfg_title := or_keep (sp_title sp) (cfg_title c)\<rparr>"

definition convert_float_to_tiled :: "(nat \<Rightarrow> nat \<Rightarrow> nat) \<Rightarrow> nat \<Rightarrow> win_ed \<Rightarrow> win_ed option" where
  "convert_float_to_tiled frac i ed =
     (case win_get (wtree ed) i of
        None \<Rightarrow> None
      | Some w \<Rightarrow>
          if wfloat w = None then Some ed
          else
            let t = wtree ed;
                t = t\<lparr>wfloats := filter (\<lambda>f. f \<noteq> i) (wfloats t),
                      wins := bt_modify i (\<lambda>w. w\<lparr>wfloat := None\<rparr>) (wins t)\<rparr>;
                target = (if wcurrent t = i then hd (leaves_of t) else wcurrent t)
            in relay frac (ed\<lparr>wtree := t\<lparr>wroot := snd (split_leaf target Horizontal i (wroot t))\<rparr>\<rparr>))"

text \<open>\<open>window_rect\<close> is the rect of the window, which is open here.\<close>

definition set_window_config ::
  "(nat \<Rightarrow> nat \<Rightarrow> nat) \<Rightarrow> nat \<Rightarrow> config_spec \<Rightarrow> win_ed \<Rightarrow> win_ed option" where
  "set_window_config frac i sp ed =
     (case win_get (wtree ed) i of
        None \<Rightarrow> Some ed
      | Some w \<Rightarrow>
          if make_tiled sp then convert_float_to_tiled frac i ed
          else if wfloat w = None \<and> length (leaves_of (wtree ed)) \<le> 1
          then Some (ed\<lparr>win_echo := Some (us ''nvim_win_set_config: cannot make the last window floating'')\<rparr>)
          else
            let base = (case wfloat w of
                    Some c \<Rightarrow> c
                  | None \<Rightarrow> float_default\<lparr>cfg_width := Cells (min (max (rwidth (wrect w)) 1) 65535),
                                           cfg_height := Cells (min (max (rheight (wrect w)) 1) 65535)\<rparr>);
                cfg = merge_config sp base;
                t = wtree ed;
                t = (if wfloat w = None
                     then t\<lparr>wroot := snd (remove_leaf i (wroot t)), wfloats := wfloats t @ [i]\<rparr> else t);
                t = t\<lparr>wins := bt_modify i (\<lambda>w. w\<lparr>wfloat := Some cfg\<rparr>) (wins t)\<rparr>
            in relay frac (ed\<lparr>wtree := sort_floats t\<rparr>))"

end
