(* ===== verification/LayoutThms.thy ===== *)
theory LayoutThms
  imports LayoutProps
begin

text \<open>
  What the window layout promises: the area is tiled exactly, a relayout changes nothing, closing
  a window undoes its opening, a resize only moves cells between siblings, \<open><C-w>_\<close> leaves every
  sibling one cell and \<open><C-w>=\<close> makes siblings even.
\<close>

section \<open>Maximizing and equalizing\<close>

text \<open>Where every child but one has at most a cell, the repair leaves each of them exactly one.\<close>

lemma max_index_big:
  assumes "i < length out" and "\<And>k. k < length out \<Longrightarrow> k \<noteq> i \<Longrightarrow> out ! k \<le> 1" and "2 \<le> out ! i"
  shows "max_index out = i"
proof (rule ccontr)
  assume neq: "max_index out \<noteq> i"
  have ne: "out \<noteq> []" using assms(1) by auto
  from assms(2)[OF max_index_spec(1)[OF ne] neq] max_index_spec(2)[OF ne nth_mem[OF assms(1)]] assms(3)
  show False by linarith
qed

lemma repair_lion:
  "i < length out \<Longrightarrow> length out \<le> sum_list out \<Longrightarrow>
   (\<And>k. k < length out \<Longrightarrow> k \<noteq> i \<Longrightarrow> out ! k \<le> 1) \<Longrightarrow>
   \<exists>out'. repair_zeros out = Some out' \<and> length out' = length out \<and> sum_list out' = sum_list out \<and>
     (\<forall>k<length out. k \<noteq> i \<longrightarrow> out' ! k = 1)"
proof (induction "zeros out" arbitrary: out rule: less_induct)
  case less
  show ?case
  proof (cases "position (\<lambda>c. c = 0) out")
    case None
    then have "out ! k \<noteq> 0" if "k < length out" for k using that by (auto simp: position_None)
    with less.prems(3) have "\<forall>k<length out. k \<noteq> i \<longrightarrow> out ! k = 1"
      by (metis One_nat_def le_Suc_eq le_zero_eq)
    with None show ?thesis by (subst repair_zeros.simps) simp
  next
    case (Some z)
    then have z: "z < length out" "out ! z = 0" using position_Some by blast+
    have two: "2 \<le> out ! max_index out" by (rule spare_cell[OF less.prems(2) z])
    have "out \<noteq> []" using z by auto
    then have m: "max_index out < length out" by (rule max_index_spec(1))
    have mi: "max_index out = i"
    proof (rule ccontr)
      assume "max_index out \<noteq> i"
      from less.prems(3)[OF m this] two show False by simp
    qed
    with two have big: "2 \<le> out ! i" and neq: "i \<noteq> z" using z(2) by auto
    let ?out = "out[i := out ! i - 1]"
    let ?out' = "?out[z := ?out ! z + 1]"
    have sum: "sum_list ?out' = sum_list out"
      using sum_list_update_dec[OF less.prems(1)] sum_list_update_Suc[of z ?out] big z(1) by simp
    have "zeros ?out = zeros out" using less.prems(1) big by (intro zeros_update_pos) auto
    moreover have "Suc (zeros ?out') = zeros ?out" using z neq by (intro zeros_update_zero) auto
    ultimately have dec: "zeros ?out' < zeros out" by simp
    have ones: "?out' ! k \<le> 1" if "k < length ?out'" "k \<noteq> i" for k
      using less.prems(3)[of k] that z neq by (auto simp: nth_list_update)
    from less.hyps[OF dec _ _ ones] less.prems(1,2) sum
    obtain out' where "repair_zeros ?out' = Some out'" "length out' = length out"
      "sum_list out' = sum_list out" "\<forall>k<length out. k \<noteq> i \<longrightarrow> out' ! k = 1" by auto
    with Some big mi show ?thesis by (subst repair_zeros.simps) (simp add: Let_def)
  qed
qed

lemma sum_list_one_big:
  assumes "i < length xs" and "\<forall>k<length xs. k \<noteq> i \<longrightarrow> xs ! k = (1::nat)"
  shows "sum_list xs = xs ! i + (length xs - 1)"
proof -
  have "xs = (replicate (length xs) 1)[i := xs ! i]"
    using assms by (intro nth_equalityI) (auto simp: nth_list_update)
  then have "sum_list xs = sum_list ((replicate (length xs) 1)[i := xs ! i])" by simp
  also have "\<dots> = xs ! i + (length xs - 1)"
    using assms(1) by (simp add: sum_list_update sum_list_replicate)
  finally show ?thesis .
qed

text \<open>The rounding leftover of at most one cell goes to the first child.\<close>

lemma hand_out_one: "out \<noteq> [] \<Longrightarrow> k \<le> 1 \<Longrightarrow> hand_out 0 k out = out[0 := out ! 0 + k]"
  by (cases k) (auto simp: le_Suc_eq)

lemma distribute_lion:
  assumes i: "i < n" and n: "2 \<le> n" "n \<le> avail" and small: "avail * (n - 1) < 9999 + n"
  shows "\<exists>exts. distribute avail ((replicate n 1)[i := 10000]) = Some exts \<and> length exts = n \<and>
    exts ! i = avail - (n - 1) \<and> (\<forall>k<n. k \<noteq> i \<longrightarrow> exts ! k = 1)"
proof -
  let ?ss = "(replicate n (1::nat))[i := 10000]" and ?t = "9999 + n"
  have sum: "sum_list ?ss = ?t" using i by (simp add: sum_list_update sum_list_replicate)
  have less: "avail < ?t"
  proof -
    have "avail \<le> avail * (n - 1)" using n by (cases "n - 1") auto
    then show ?thesis using small by linarith
  qed
  let ?shares = "map (\<lambda>s. avail * s div max (sum_list ?ss) 1) ?ss"
  have share: "?shares ! k = (if k = i then avail * 10000 div ?t else 0)" if "k < n" for k
    using that less i sum by (auto simp: nth_list_update)
  have shares_sum: "sum_list ?shares = avail * 10000 div ?t"
  proof -
    have "?shares = (replicate n 0)[i := avail * 10000 div ?t]"
      using share i by (intro nth_equalityI) (auto simp: nth_list_update)
    then show ?thesis using i by (simp add: sum_list_update sum_list_replicate)
  qed
  have left: "avail - avail * 10000 div ?t \<le> 1"
  proof -
    have "(avail - 1) * ?t \<le> avail * 10000"
    proof -
      have "avail * ?t = avail * 10000 + avail * (n - 1)"
        using n by (simp add: algebra_simps)
      with small show ?thesis by (simp add: diff_mult_distrib)
    qed
    then have "avail - 1 \<le> avail * 10000 div ?t" by (simp add: less_eq_div_iff_mult_less_eq)
    then show ?thesis by linarith
  qed
  let ?left = "avail - sum_list ?shares"
  let ?out = "?shares[0 := ?shares ! 0 + ?left]"
  have ne: "?shares \<noteq> []" using n by auto
  have out: "hand_out 0 ?left ?shares = ?out"
    using left shares_sum by (intro hand_out_one[OF ne]) simp
  have "length ?out \<le> sum_list ?out"
    using hand_out_sum[OF ne, of 0 ?left] out shares_le[of avail ?ss] n(2) by simp
  moreover have "?out ! k \<le> 1" if "k < length ?out" "k \<noteq> i" for k
    using that share[of k] share[of 0] left shares_sum n(1) by (auto simp: nth_list_update)
  moreover have "i < length ?out" using i by simp
  ultimately obtain exts where exts: "repair_zeros ?out = Some exts" "length exts = n"
    "sum_list exts = sum_list ?out" "\<forall>k<n. k \<noteq> i \<longrightarrow> exts ! k = 1"
    using repair_lion[of i ?out] by auto
  moreover have "sum_list ?out = avail"
    using hand_out_sum[OF ne, of 0 ?left] out shares_le[of avail ?ss] by simp
  moreover have "distribute avail ?ss = repair_zeros ?out"
  proof -
    have "?ss \<noteq> []" "length ?ss \<le> avail" using n by auto
    then show ?thesis
      by (simp only: distribute_def Let_def if_False if_True out)
  qed
  moreover have "exts ! i = avail - (n - 1)"
    using sum_list_one_big[of i exts] exts i \<open>sum_list ?out = avail\<close> by simp
  ultimately show ?thesis by auto
qed

lemma maximize_ok:
  "wf_node n \<Longrightarrow> wf_node (snd (maximize_toward target axis n)) \<and>
     collect_leaves (snd (maximize_toward target axis n)) = collect_leaves n \<and>
     fst (maximize_toward target axis n) = (target \<in> set (collect_leaves n))"
  "\<forall>c \<in> set cs. wf_node c \<Longrightarrow>
     length (snd (maximize_path target axis cs i)) = length cs \<and>
     (\<forall>c \<in> set (snd (maximize_path target axis cs i)). wf_node c) \<and>
     map collect_leaves (snd (maximize_path target axis cs i)) = map collect_leaves cs \<and>
     (case fst (maximize_path target axis cs i) of
        None \<Rightarrow> target \<notin> set (concat (map collect_leaves cs))
      | Some k \<Rightarrow> i \<le> k \<and> k < i + length cs \<and> target \<in> set (collect_leaves (cs ! (k - i))))"
proof (induction target axis n and target axis cs i rule: maximize_toward_maximize_path.induct)
  case (2 target axis d cs ss)
  obtain at cs' where path: "maximize_path target axis cs 0 = (at, cs')" by fastforce
  with 2 have ih: "length cs' = length cs" "\<forall>c \<in> set cs'. wf_node c"
    "map collect_leaves cs' = map collect_leaves cs"
    and at: "case at of None \<Rightarrow> target \<notin> set (concat (map collect_leaves cs))
      | Some k \<Rightarrow> k < length cs \<and> target \<in> set (collect_leaves (cs ! k))" by (auto split: option.splits)
  show ?case
  proof (cases at)
    case None
    with ih at path 2(2) show ?thesis by simp
  next
    case (Some k)
    with at have "target \<in> set (concat (map collect_leaves cs))" by (auto intro!: bexI[of _ "cs ! k"])
    with Some ih path 2(2) show ?thesis by simp
  qed
next
  case (4 target axis c cs i)
  obtain found c' where c: "maximize_toward target axis c = (found, c')" by fastforce
  obtain at cs' where cs: "maximize_path target axis cs (i + 1) = (at, cs')" by fastforce
  from 4(1) 4(3) c have ih: "wf_node c'" "collect_leaves c' = collect_leaves c"
    "found = (target \<in> set (collect_leaves c))" by simp_all
  show ?case
  proof (cases found)
    case True
    with c ih 4(3) show ?thesis by simp
  next
    case False
    with 4(2)[OF refl c[symmetric] False] 4(3) cs
    have "length cs' = length cs" "\<forall>c \<in> set cs'. wf_node c"
      "map collect_leaves cs' = map collect_leaves cs"
      and at: "case at of None \<Rightarrow> target \<notin> set (concat (map collect_leaves cs))
      | Some k \<Rightarrow> i + 1 \<le> k \<and> k < i + 1 + length cs \<and> target \<in> set (collect_leaves (cs ! (k - (i + 1))))"
      by auto
    moreover have "case at of None \<Rightarrow> target \<notin> set (concat (map collect_leaves (c # cs)))
      | Some k \<Rightarrow> i \<le> k \<and> k < i + length (c # cs) \<and> target \<in> set (collect_leaves ((c # cs) ! (k - i)))"
      using at ih(3) False by (auto split: option.splits simp: nth_Cons')
    ultimately show ?thesis using False c cs ih by simp
  qed
qed auto

lemma equalize_ok:
  "wf_node n \<Longrightarrow> wf_node (equalize_node n) \<and> collect_leaves (equalize_node n) = collect_leaves n"
proof (induction n rule: equalize_node.induct)
  case (2 d cs ss)
  then have "map collect_leaves (map equalize_node cs) = map collect_leaves cs" by simp
  with 2 show ?case by (auto simp del: map_map)
qed simp

text \<open>A leftover smaller than the number of children gives the first ones a cell each.\<close>

lemma hand_out_rounds:
  "i + k \<le> length out \<Longrightarrow>
   hand_out i k out = take i out @ map Suc (take k (drop i out)) @ drop (i + k) out"
proof (induction i k out rule: hand_out.induct)
  case (2 i k out)
  then have i: "i < length out" "i mod length out = i" by auto
  from 2 have "hand_out (i + 1) k (out[i := out ! i + 1]) =
      take (i + 1) (out[i := out ! i + 1]) @ map Suc (take k (drop (i + 1) (out[i := out ! i + 1]))) @
      drop (i + 1 + k) (out[i := out ! i + 1])"
    by (simp add: i(2))
  also have "take (i + 1) (out[i := out ! i + 1]) = take i out @ [Suc (out ! i)]"
    using i by (simp add: take_Suc_conv_app_nth)
  also have "map Suc (take k (drop (i + 1) (out[i := out ! i + 1]))) = map Suc (take k (drop (i + 1) out))"
    by simp
  finally show ?case using i by (simp add: Cons_nth_drop_Suc[symmetric])
qed simp

lemma distribute_even:
  assumes "0 < n" and "n \<le> avail"
  shows "\<exists>exts. distribute avail (replicate n 1) = Some exts \<and> length exts = n \<and>
    (\<forall>e \<in> set exts. e = avail div n \<or> e = avail div n + 1)"
proof -
  let ?out = "replicate n (avail div n)"
  have sum: "sum_list ?out = n * (avail div n)" by (simp add: sum_list_replicate)
  have left: "avail - n * (avail div n) = avail mod n" by (simp add: minus_mult_div_eq_mod)
  have small: "0 + avail mod n \<le> length ?out" using assms(1) by simp
  let ?exts = "hand_out 0 (avail mod n) ?out"
  have exts: "?exts = map Suc (take (avail mod n) ?out) @ drop (avail mod n) ?out"
    using hand_out_rounds[OF small] by simp
  have one: "0 < avail div n" using assms by (simp add: div_greater_zero_iff)
  have "distribute avail (replicate n 1) = repair_zeros ?exts"
    using assms sum left by (auto simp: distribute_def Let_def sum_list_replicate)
  also have "\<dots> = Some ?exts"
    using one by (intro repair_zeros_id) (auto simp: exts)
  finally show ?thesis by (auto simp: exts)
qed

section \<open>Properties\<close>

text \<open>Cells are never lost: dividing them among children always ends and hands out exactly the
  cells there are, every child gets one as soon as there are enough, and sizes that already are
  cells stay what they are.\<close>

theorem distribute_exact:
  assumes "ss \<noteq> []" and "length ss \<le> avail"
  shows "\<exists>exts. distribute avail ss = Some exts \<and> length exts = length ss \<and> sum_list exts = avail \<and>
    0 \<notin> set exts \<and> distribute avail exts = Some exts"
proof -
  obtain exts where "distribute avail ss = Some exts" "length exts = length ss" "sum_list exts = avail"
    "0 \<notin> set exts" using distribute_ok[of avail ss] assms by blast
  with distribute_id[of exts avail] show ?thesis by simp
qed

theorem distribute_exact_witness:
  "\<exists>exts. distribute 7 [1, 0, 1000] = Some exts \<and> length exts = length [1, 0, 1000::nat] \<and>
    sum_list exts = 7 \<and> 0 \<notin> set exts \<and> distribute 7 exts = Some exts"
  by (rule distribute_exact) simp_all

text \<open>An example layout: a window beside two stacked ones.\<close>

definition sample_node :: win_node where
  "sample_node = Split Vertical [Leaf 1, Split Horizontal [Leaf 2, Leaf 3] [1, 1]] [1, 1]"

definition sample_area :: rect where
  "sample_area = \<lparr>rx = 0, ry = 0, rwidth = 21, rheight = 9\<rparr>"

lemma sample_ok: "wf_node sample_node" "roomy sample_node sample_area"
  by code_simp+

text \<open>C18. A layout always returns and tiles its area exactly: every window gets one rect, in tree
  order, and each cell of the area is drawn once, by one window or one separator, and no cell
  outside it.\<close>

theorem layout_tiles:
  assumes "wf_node n" and "roomy n r"
  shows "\<exists>n' rects seps. layout_node n r ([], []) = Some (n', rects, seps) \<and>
    map fst rects = collect_leaves n \<and> collect_leaves n' = collect_leaves n \<and>
    (\<forall>p. drawn (rects, seps) p = of_bool (in_rect r p))"
proof -
  obtain n' rects seps where laid: "layout_node n r ([], []) = Some (n', rects, seps)"
    using layout_total(1) by (metis prod_cases3)
  have "drawn ([], []) p = 0" for p by (simp add: drawn_def)
  with layout_shape(1)[OF laid assms(1)] layout_draws(1)[OF laid assms] laid show ?thesis
    by (intro exI[of _ n'] exI[of _ rects] exI[of _ seps]) simp
qed

theorem layout_tiles_witness:
  "\<exists>n' rects seps. layout_node sample_node sample_area ([], []) = Some (n', rects, seps) \<and>
    map fst rects = collect_leaves sample_node \<and> collect_leaves n' = collect_leaves sample_node \<and>
    (\<forall>p. drawn (rects, seps) p = of_bool (in_rect sample_area p))"
  by (rule layout_tiles[OF sample_ok])

text \<open>Laying out again in the same area keeps every rect, every separator and every size.\<close>

theorem relayout_is_stable:
  assumes "wf_node n"
  shows "\<exists>n' laid. layout_node n r ([], []) = Some (n', laid) \<and> layout_node n' r ([], []) = Some (n', laid)"
proof -
  obtain n' rects seps where laid: "layout_node n r ([], []) = Some (n', rects, seps)"
    using layout_total(1) by (metis prod_cases3)
  from layout_stable(1)[OF laid assms] laid show ?thesis by fastforce
qed

theorem relayout_is_stable_witness:
  "\<exists>n' laid. layout_node sample_node sample_area ([], []) = Some (n', laid) \<and>
    layout_node n' sample_area ([], []) = Some (n', laid)"
  by (rule relayout_is_stable[OF sample_ok(1)])

text \<open>C19. Splitting a window puts the new one just before it, and closing the new window gives back
  the very tree there was.\<close>

theorem close_undoes_split:
  assumes "wf_node n" and "new \<notin> set (collect_leaves n)" and "target \<in> set (collect_leaves n)"
  shows "\<exists>n'. split_leaf target d new n = (True, n') \<and> wf_node n' \<and>
    collect_leaves n' = takeWhile (\<lambda>i. i \<noteq> target) (collect_leaves n) @ new #
      dropWhile (\<lambda>i. i \<noteq> target) (collect_leaves n) \<and>
    remove_leaf new n' = (True, n)"
proof -
  obtain found n' where split: "split_leaf target d new n = (found, n')" by fastforce
  from split_leaf_leaves(1)[of target d new n] split_leaf_wf(1)[OF assms(1), of target d new]
    split_then_remove(1)[OF assms, of d] split assms(3)
  show ?thesis by (simp add: Let_def)
qed

theorem close_undoes_split_witness:
  "\<exists>n'. split_leaf 2 Vertical 4 sample_node = (True, n') \<and> wf_node n' \<and>
    collect_leaves n' = takeWhile (\<lambda>i. i \<noteq> 2) (collect_leaves sample_node) @ 4 #
      dropWhile (\<lambda>i. i \<noteq> 2) (collect_leaves sample_node) \<and>
    remove_leaf 4 n' = (True, sample_node)"
  by (rule close_undoes_split[OF sample_ok(1)]) (simp_all add: sample_node_def)

text \<open>A resize moves cells between siblings only: the windows, their order and the extent of
  every split stay the same.\<close>

theorem resize_conserves:
  assumes "wf_node n"
  shows "wf_node (snd (snd (resize_toward target axis delta n dn))) \<and>
    extents (snd (snd (resize_toward target axis delta n dn))) = extents n \<and>
    collect_leaves (snd (snd (resize_toward target axis delta n dn))) = collect_leaves n"
  using resize_extents(1)[OF assms, of target axis delta dn] extents_leaves by metis

theorem resize_conserves_witness:
  "extents (snd (snd (resize_toward 2 Horizontal 3 sample_node False))) = extents sample_node"
  using resize_conserves[OF sample_ok(1), of 2 Horizontal 3 False] by blast

text \<open>\<open><C-w>_\<close> gives the window's branch everything but one cell for each sibling, on any
  terminal of fewer than about ten thousand cells.\<close>

theorem maximize_leaves_one_cell:
  assumes "wf_node (Split d cs ss)" and "target \<in> set (collect_leaves (Split d cs ss))"
    and "avail = extent_of d r - (length cs - 1)" and "length cs \<le> avail"
    and "avail * (length cs - 1) < 9999 + length cs"
  shows "\<exists>i cs' exts laid.
    layout_node (snd (maximize_toward target d (Split d cs ss))) r ([], []) = Some (Split d cs' exts, laid) \<and>
    i < length cs \<and> target \<in> set (collect_leaves (cs ! i)) \<and> length exts = length cs \<and>
    exts ! i = avail - (length cs - 1) \<and> (\<forall>k<length cs. k \<noteq> i \<longrightarrow> exts ! k = 1)"
proof -
  obtain at cs1 where path: "maximize_path target d cs 0 = (at, cs1)" by fastforce
  have wf: "\<forall>c \<in> set cs. wf_node c" "2 \<le> length cs" "length ss = length cs" using assms(1) by auto
  from maximize_ok(2)[OF wf(1), of target d 0] path assms(2)
  obtain i where at: "at = Some i" "i < length cs" "target \<in> set (collect_leaves (cs ! i))"
    and len: "length cs1 = length cs" by (auto split: option.splits)
  have max: "snd (maximize_toward target d (Split d cs ss)) = Split d cs1 ((replicate (length cs) 1)[i := 10000])"
    using path at wf(3) by (simp add: map_replicate_const)
  from distribute_lion[OF at(2) wf(2) assms(4,5)] obtain exts where
    exts: "distribute avail ((replicate (length cs) 1)[i := 10000]) = Some exts" "length exts = length cs"
    "exts ! i = avail - (length cs - 1)" "\<forall>k<length cs. k \<noteq> i \<longrightarrow> exts ! k = 1" by blast
  obtain cs' laid where "layout_children d r cs1 exts (origin_of d r) ([], []) = Some (cs', laid)"
    using layout_total(2) by fastforce
  then have "layout_node (Split d cs1 ((replicate (length cs) 1)[i := 10000])) r ([], []) =
      Some (Split d cs' exts, laid)"
    using exts(1) by (simp only: layout_node.simps len assms(3)[symmetric] option.case) simp
  with max at exts show ?thesis by auto
qed

theorem maximize_leaves_one_cell_witness:
  "\<exists>i cs' exts laid.
    layout_node (snd (maximize_toward 2 Vertical sample_node)) sample_area ([], []) =
      Some (Split Vertical cs' exts, laid) \<and>
    i < length [Leaf 1, Split Horizontal [Leaf 2, Leaf 3] [1, 1]] \<and>
    2 \<in> set (collect_leaves ([Leaf 1, Split Horizontal [Leaf 2, Leaf 3] [1, 1]] ! i)) \<and>
    length exts = length [Leaf 1, Split Horizontal [Leaf 2, Leaf 3] [1, 1]] \<and>
    exts ! i = 20 - (length [Leaf 1, Split Horizontal [Leaf 2, Leaf 3] [1, 1]] - 1) \<and>
    (\<forall>k<length [Leaf 1, Split Horizontal [Leaf 2, Leaf 3] [1, 1]]. k \<noteq> i \<longrightarrow> exts ! k = 1)"
  unfolding sample_node_def
  by (rule maximize_leaves_one_cell) (simp_all add: sample_area_def extent_of_def)

text \<open>\<open><C-w>=\<close> on a row of windows makes their extents differ by at most one cell.\<close>

theorem equalize_evens:
  assumes "2 \<le> length ids" and "length ss = length ids"
    and "avail = extent_of d r - (length ids - 1)" and "length ids \<le> avail"
  shows "\<exists>cs' exts laid.
    layout_node (equalize_node (Split d (map Leaf ids) ss)) r ([], []) = Some (Split d cs' exts, laid) \<and>
    length exts = length ids \<and> (\<forall>e \<in> set exts. e = avail div length ids \<or> e = avail div length ids + 1)"
proof -
  have eq: "equalize_node (Split d (map Leaf ids) ss) = Split d (map Leaf ids) (replicate (length ids) 1)"
    using assms(2) by (simp add: map_replicate_const comp_def)
  obtain exts where exts: "distribute avail (replicate (length ids) 1) = Some exts"
    "length exts = length ids" "\<forall>e \<in> set exts. e = avail div length ids \<or> e = avail div length ids + 1"
    using distribute_even[of "length ids" avail] assms(1,4) by force
  obtain cs' laid where "layout_children d r (map Leaf ids) exts (origin_of d r) ([], []) = Some (cs', laid)"
    using layout_total(2) by fastforce
  then have "layout_node (Split d (map Leaf ids) (replicate (length ids) 1)) r ([], []) =
      Some (Split d cs' exts, laid)"
    using exts(1) by (simp only: layout_node.simps length_map assms(3)[symmetric] option.case) simp
  with exts(2,3) show ?thesis unfolding eq by (metis prod.collapse)
qed

theorem equalize_evens_witness:
  "\<exists>cs' exts laid.
    layout_node (equalize_node (Split Vertical (map Leaf [1, 2, 3]) [9, 1, 4])) sample_area ([], []) =
      Some (Split Vertical cs' exts, laid) \<and>
    length exts = length [1, 2, 3::nat] \<and>
    (\<forall>e \<in> set exts. e = 19 div length [1, 2, 3::nat] \<or> e = 19 div length [1, 2, 3::nat] + 1)"
  by (rule equalize_evens) (simp_all add: sample_area_def extent_of_def)

end
