(* ===== verification/WindowsProps.thy ===== *)
theory WindowsProps
  imports Windows LayoutThms
begin

text \<open>
  The window tree's invariant: the layout holds exactly the tiled windows, the float list exactly
  the floating ones, each once, and the focused window is open. Every management command keeps it
  and returns (none of its \<open>expect\<close>s can fail); from the first window on, every reachable
  state has it.
\<close>

section \<open>The invariant\<close>

abbreviation win_keys :: "win_tree \<Rightarrow> nat set" where
  "win_keys t \<equiv> dom (map_of (wins t))"

definition tree_ok :: "win_tree \<Rightarrow> bool" where
  "tree_ok t \<longleftrightarrow>
     wf_node (wroot t) \<and> keys_sorted (wins t) \<and>
     distinct (leaves_of t) \<and> distinct (wfloats t) \<and>
     set (leaves_of t) = {i. \<exists>w. win_get t i = Some w \<and> wfloat w = None} \<and>
     set (wfloats t) = {i. \<exists>w. win_get t i = Some w \<and> wfloat w \<noteq> None}"

definition win_inv :: "win_ed \<Rightarrow> bool" where
  "win_inv ed \<longleftrightarrow> tree_ok (wtree ed) \<and> win_get (wtree ed) (wcurrent (wtree ed)) \<noteq> None \<and>
     (\<forall>i. win_get (wtree ed) i \<noteq> None \<longrightarrow> i < next_win_id ed)"

text \<open>All the tree's invariant reads of a window is whether it floats.\<close>

definition kinds :: "win_tree \<Rightarrow> nat \<Rightarrow> bool option" where
  "kinds t i = map_option (\<lambda>w. wfloat w \<noteq> None) (win_get t i)"

lemma kinds_None [simp]: "kinds t i = None \<longleftrightarrow> win_get t i = None"
  by (simp add: kinds_def)

lemma tree_ok_kinds:
  "tree_ok t \<longleftrightarrow> wf_node (wroot t) \<and> keys_sorted (wins t) \<and>
     distinct (leaves_of t) \<and> distinct (wfloats t) \<and>
     set (leaves_of t) = {i. kinds t i = Some False} \<and> set (wfloats t) = {i. kinds t i = Some True}"
  unfolding tree_ok_def kinds_def by (auto simp: map_option_case split: option.splits)

lemma tree_ok_leaf: "tree_ok t \<Longrightarrow> i \<in> set (leaves_of t) \<longleftrightarrow> kinds t i = Some False"
  by (simp add: tree_ok_kinds)

lemma tree_ok_float: "tree_ok t \<Longrightarrow> i \<in> set (wfloats t) \<longleftrightarrow> kinds t i = Some True"
  by (simp add: tree_ok_kinds)

lemma tree_ok_nonempty: "tree_ok t \<Longrightarrow> leaves_of t \<noteq> []"
  by (simp add: tree_ok_def leaves_of_def wf_leaves_nonempty)

text \<open>The focused window, the ids and the separators do not enter it.\<close>

lemma tree_ok_current [simp]: "tree_ok (t\<lparr>wcurrent := i\<rparr>) = tree_ok t"
  by (simp add: tree_ok_def leaves_of_def win_get_def)

lemma win_get_current [simp]: "win_get (t\<lparr>wcurrent := c\<rparr>) i = win_get t i"
  and win_get_root [simp]: "win_get (t\<lparr>wroot := n\<rparr>) i = win_get t i"
  and win_get_floats [simp]: "win_get (t\<lparr>wfloats := fs\<rparr>) i = win_get t i"
  and win_get_seps [simp]: "win_get (t\<lparr>wseps := ss\<rparr>) i = win_get t i"
  and win_get_wins [simp]: "win_get (t\<lparr>wins := ws\<rparr>) i = map_of ws i"
  by (simp_all add: win_get_def)

section \<open>Layout keeps it\<close>

text \<open>A fold of writes keeps every field the writes keep.\<close>

lemma bt_modify_keeps:
  "(\<And>w. g (f w) = g w) \<Longrightarrow> map_option g (map_of (bt_modify k f ws) j) = map_option g (map_of ws j)"
  by (cases "map_of ws j") (auto simp: bt_modify_lookup)

lemma fold_modify_keeps:
  assumes "\<And>x w. g (f x w) = g w"
  shows "map_option g (map_of (fold (\<lambda>(i, x). bt_modify i (f x)) xs ws) j) = map_option g (map_of ws j)"
  by (induction xs arbitrary: ws) (auto simp: assms bt_modify_keeps)

lemma fold_modify_keys: "map fst (fold (\<lambda>(i, x). bt_modify i (f x)) xs ws) = map fst ws"
  by (induction xs arbitrary: ws) auto

definition same_windows :: "win_tree \<Rightarrow> win_tree \<Rightarrow> bool" where
  "same_windows t t' \<longleftrightarrow> map fst (wins t') = map fst (wins t) \<and>
     (\<forall>i. map_option wfloat (win_get t' i) = map_option wfloat (win_get t i)) \<and>
     (\<forall>i. map_option loclist_bufnr (win_get t' i) = map_option loclist_bufnr (win_get t i)) \<and>
     (\<forall>i. map_option wbuf (win_get t' i) = map_option wbuf (win_get t i)) \<and>
     wfloats t' = wfloats t \<and> leaves_of t' = leaves_of t \<and> wcurrent t' = wcurrent t \<and>
     (wf_node (wroot t) \<longrightarrow> wf_node (wroot t'))"

lemma same_windows_kinds: "same_windows t t' \<Longrightarrow> kinds t' = kinds t"
proof
  fix i assume "same_windows t t'"
  then have "map_option wfloat (win_get t' i) = map_option wfloat (win_get t i)" by (simp add: same_windows_def)
  then have "map_option (\<lambda>f. f \<noteq> None) (map_option wfloat (win_get t' i)) =
      map_option (\<lambda>f. f \<noteq> None) (map_option wfloat (win_get t i))" by simp
  then show "kinds t' i = kinds t i" by (simp add: kinds_def option.map_comp comp_def)
qed

lemma same_windows_get: "same_windows t t' \<Longrightarrow> win_get t' i = None \<longleftrightarrow> win_get t i = None"
  by (metis kinds_None same_windows_kinds)

lemma same_windows_ok: "same_windows t t' \<Longrightarrow> tree_ok t \<Longrightarrow> tree_ok t'"
  unfolding tree_ok_kinds by (simp add: same_windows_kinds) (simp add: same_windows_def)

lemma same_windows_count: "same_windows t t' \<Longrightarrow> win_count t' = win_count t"
  unfolding same_windows_def win_count_def by (metis length_map)

definition same_fields :: "(nat \<times> window) list \<Rightarrow> (nat \<times> window) list \<Rightarrow> bool" where
  "same_fields ws ws' \<longleftrightarrow> map fst ws' = map fst ws \<and>
     (\<forall>i. map_option wfloat (map_of ws' i) = map_option wfloat (map_of ws i)) \<and>
     (\<forall>i. map_option loclist_bufnr (map_of ws' i) = map_option loclist_bufnr (map_of ws i)) \<and>
     (\<forall>i. map_option wbuf (map_of ws' i) = map_option wbuf (map_of ws i))"

lemma same_fields_trans: "same_fields a b \<Longrightarrow> same_fields b c \<Longrightarrow> same_fields a c"
  by (simp add: same_fields_def)

lemma set_rects_same: "same_fields ws (set_rects rects ws)"
  unfolding set_rects_def same_fields_def
  by (intro conjI allI fold_modify_keys fold_modify_keeps) simp_all

lemma placements_same:
  "same_fields ws (fold (\<lambda>(i, r, pos). bt_modify i (\<lambda>w. w\<lparr>wrect := r, wfloat_pos := Some pos\<rparr>)) placed ws)"
proof -
  have eq: "(\<lambda>(i, r, pos). bt_modify i (\<lambda>w. w\<lparr>wrect := r, wfloat_pos := Some pos\<rparr>)) =
      (\<lambda>(i, x). bt_modify i ((\<lambda>(r, pos) w. w\<lparr>wrect := r, wfloat_pos := Some pos\<rparr>) x))"
    by (auto simp: fun_eq_iff)
  show ?thesis
    unfolding same_fields_def eq
    by (intro conjI allI fold_modify_keys fold_modify_keeps) (simp_all split: prod.split)
qed

lemma position_floats_fields:
  "same_fields (wins t) (wins (position_floats frac tr sr off t))"
  "wroot (position_floats frac tr sr off t) = wroot t"
  "wfloats (position_floats frac tr sr off t) = wfloats t"
  "wcurrent (position_floats frac tr sr off t) = wcurrent t"
  "wseps (position_floats frac tr sr off t) = wseps t"
  unfolding position_floats_def Let_def
  by (cases "wfloats t = []"; simp add: placements_same) (simp_all add: same_fields_def)+

lemma tree_layout_same:
  assumes "wf_node (wroot t)"
  shows "\<exists>t'. tree_layout frac tr sr off t = Some t' \<and> same_windows t t'"
proof -
  obtain n' rects seps where l: "layout_node (wroot t) tr ([], []) = Some (n', rects, seps)"
    using layout_total(1)[of "wroot t" tr "([], [])"] by (metis prod_cases3)
  let ?t = "t\<lparr>wroot := n', wins := set_rects rects (wins t), wseps := seps\<rparr>"
  have "same_fields (wins t) (wins (position_floats frac tr sr off ?t))"
    using same_fields_trans[OF set_rects_same[of "wins t" rects] position_floats_fields(1)[of ?t frac tr sr off, simplified]]
    by simp
  with layout_shape(1)[OF l assms] have "same_windows t (position_floats frac tr sr off ?t)"
    unfolding same_windows_def same_fields_def win_get_def leaves_of_def
    by (simp add: position_floats_fields(2-4))
  with l show ?thesis by (auto simp: tree_layout_def)
qed

lemma relay_same:
  assumes "wf_node (wroot (wtree ed))"
  shows "\<exists>t'. relay frac ed = Some (ed\<lparr>wtree := t'\<rparr>) \<and> same_windows (wtree ed) t'"
  using tree_layout_same[OF assms, of frac "area ed" "screen ed" "cursor_off ed"] by (auto simp: relay_def)

text \<open>What a relayout leaves of a state: everything but rects, sizes and separators.\<close>

lemma relay_ok:
  assumes "tree_ok (wtree ed)"
  shows "\<exists>ed'. relay frac ed = Some ed' \<and> same_windows (wtree ed) (wtree ed') \<and> tree_ok (wtree ed') \<and>
           next_win_id ed' = next_win_id ed \<and> focus_lock ed' = focus_lock ed \<and> equalalways ed' = equalalways ed"
proof -
  have "wf_node (wroot (wtree ed))" using assms by (simp add: tree_ok_def)
  from relay_same[OF this, of frac] obtain t' where
    t': "relay frac ed = Some (ed\<lparr>wtree := t'\<rparr>)" "same_windows (wtree ed) t'" by blast
  with same_windows_ok[OF t'(2) assms] show ?thesis by simp
qed

lemma relay_inv:
  assumes "win_inv ed"
  shows "\<exists>ed'. relay frac ed = Some ed' \<and> win_inv ed' \<and> same_windows (wtree ed) (wtree ed')"
proof -
  from relay_ok[of ed frac] assms obtain ed' where e: "relay frac ed = Some ed'"
    "same_windows (wtree ed) (wtree ed')" "tree_ok (wtree ed')" "next_win_id ed' = next_win_id ed"
    by (auto simp: win_inv_def)
  have "wcurrent (wtree ed') = wcurrent (wtree ed)" using e(2) by (simp add: same_windows_def)
  with e assms have "win_inv ed'" by (auto simp: win_inv_def same_windows_get)
  with e show ?thesis by blast
qed

section \<open>Sizes and opening\<close>

lemma same_windows_root:
  "wf_node n \<Longrightarrow> collect_leaves n = leaves_of t \<Longrightarrow> same_windows t (t\<lparr>wroot := n\<rparr>)"
  by (simp add: same_windows_def leaves_of_def)

lemma win_inv_same:
  assumes "win_inv ed" and "same_windows (wtree ed) t'"
  shows "win_inv (ed\<lparr>wtree := t'\<rparr>)"
  using assms same_windows_ok[OF assms(2)] same_windows_get[OF assms(2)]
  by (auto simp: win_inv_def same_windows_def)

lemma resize_leaves:
  assumes "wf_node n"
  shows "wf_node (snd (snd (resize_toward i d delta n dn)))"
    and "collect_leaves (snd (snd (resize_toward i d delta n dn))) = collect_leaves n"
  using resize_extents(1)[OF assms, of i d delta dn] extents_leaves by metis+

text \<open>A new root with the leaves of the old one, and a relayout.\<close>

lemma reroot_relay:
  assumes "win_inv ed" and "wf_node n" and "collect_leaves n = leaves_of (wtree ed)"
  shows "\<exists>ed'. relay frac (ed\<lparr>wtree := (wtree ed)\<lparr>wroot := n\<rparr>\<rparr>) = Some ed' \<and> win_inv ed'"
  using relay_inv[OF win_inv_same[OF assms(1) same_windows_root[OF assms(2,3)]], of frac] by auto

lemma win_inv_wf: "win_inv ed \<Longrightarrow> wf_node (wroot (wtree ed))"
  by (simp add: win_inv_def tree_ok_def)

lemma resize_inv:
  assumes "win_inv ed"
  shows "\<exists>ed'. resize_window_id frac i d delta ed = Some ed' \<and> win_inv ed'"
  using assms reroot_relay[OF assms resize_leaves(1)[OF win_inv_wf[OF assms]], of i d delta False frac]
  by (auto simp: resize_window_id_def leaves_of_def resize_leaves[OF win_inv_wf[OF assms]])

lemma equalize_windows_inv:
  assumes "win_inv ed"
  shows "\<exists>ed'. equalize_windows frac ed = Some ed' \<and> win_inv ed'"
  using assms reroot_relay[OF assms] equalize_ok[OF win_inv_wf[OF assms]]
  by (simp add: equalize_windows_def leaves_of_def)

lemma maximize_inv:
  assumes "win_inv ed"
  shows "\<exists>ed'. maximize_window frac d ed = Some ed' \<and> win_inv ed'"
  using assms reroot_relay[OF assms] maximize_ok(1)[OF win_inv_wf[OF assms], of "wcurrent (wtree ed)" d]
  by (simp add: maximize_window_def leaves_of_def)

lemma set_width_inv:
  assumes "win_inv ed"
  shows "\<exists>ed'. set_window_width frac i width ed = Some ed' \<and> win_inv ed'"
  using resize_inv[OF assms] assms by (simp add: set_window_width_def split: option.splits)

lemma set_height_inv:
  assumes "win_inv ed"
  shows "\<exists>ed'. set_window_height frac i height ed = Some ed' \<and> win_inv ed'"
  using resize_inv[OF assms] assms by (simp add: set_window_height_def split: option.splits)

lemma focus_inv: "win_inv ed \<Longrightarrow> win_inv (focus_window i ed)"
  by (auto simp: focus_window_def win_inv_def split: option.splits)

lemma focus_dir_inv: "win_inv ed \<Longrightarrow> win_inv (focus_dir d ed)"
  by (simp add: focus_dir_def focus_inv split: option.splits)

lemma focus_cycle_inv: "win_inv ed \<Longrightarrow> win_inv (focus_cycle fw ed)"
  by (simp add: focus_cycle_def Let_def focus_inv)

text \<open>\<open>'equalalways'\<close>.\<close>

lemma equalize_if_same:
  assumes "wf_node (wroot (wtree ed))"
  shows "same_windows (wtree ed) (wtree (equalize_if ed))"
  using same_windows_root[of "equalize_node (wroot (wtree ed))" "wtree ed"] equalize_ok[OF assms] assms
  by (auto simp: equalize_if_def leaves_of_def same_windows_def)

lemma equalize_if_fields [simp]:
  "next_win_id (equalize_if ed) = next_win_id ed" "focus_lock (equalize_if ed) = focus_lock ed"
  "equalize_if ed = ed\<lparr>wtree := wtree (equalize_if ed)\<rparr>"
  by (simp_all add: equalize_if_def)

declare equalize_if_fields(3) [simp del]

lemma equalize_if_inv: "win_inv ed \<Longrightarrow> win_inv (equalize_if ed)"
  using win_inv_same[OF _ equalize_if_same[OF win_inv_wf]] equalize_if_fields(3) by metis

text \<open>A tiled window joins the layout, a float the list.\<close>

lemma map_of_wins: "map_of (wins t) i = win_get t i"
  by (simp add: win_get_def)

lemma add_tiled_inv:
  assumes "win_inv ed" and "wfloat w = None" and "wf_node n" and "distinct (collect_leaves n)"
    and "set (collect_leaves n) = insert (next_win_id ed) (set (leaves_of (wtree ed)))"
    and "c = next_win_id ed \<or> win_get (wtree ed) c \<noteq> None"
  shows "win_inv (ed\<lparr>next_win_id := next_win_id ed + 1,
           wtree := (wtree ed)\<lparr>wins := bt_insert (next_win_id ed) w (wins (wtree ed)), wroot := n, wcurrent := c\<rparr>\<rparr>)"
proof -
  let ?i = "next_win_id ed" and ?t = "wtree ed"
  let ?t' = "?t\<lparr>wins := bt_insert ?i w (wins ?t), wroot := n, wcurrent := c\<rparr>"
  have ok: "tree_ok ?t" and new: "win_get ?t ?i = None" using assms(1) by (auto simp: win_inv_def)
  then have sorted: "keys_sorted (wins ?t)" by (simp add: tree_ok_def)
  note get = bt_insert_lookup[OF sorted] map_of_wins
  have "tree_ok ?t'"
    using ok assms(2-5) new unfolding tree_ok_kinds
    by (auto simp: kinds_def get leaves_of_def bt_insert_sorted)
  moreover have "win_get ?t' c \<noteq> None" using assms(6) by (auto simp: get)
  moreover have "j < ?i + 1" if "win_get ?t' j \<noteq> None" for j
    using that assms(1) by (cases "j = ?i") (auto simp: get win_inv_def less_SucI)
  ultimately show ?thesis by (simp add: win_inv_def)
qed

lemma float_key_cong: "set (sort_key f xs) = set xs" "distinct (sort_key f xs) = distinct xs"
  by simp_all

lemma sort_floats_fields [simp]:
  "wins (sort_floats t) = wins t" "wroot (sort_floats t) = wroot t" "wcurrent (sort_floats t) = wcurrent t"
  "set (wfloats (sort_floats t)) = set (wfloats t)" "distinct (wfloats (sort_floats t)) = distinct (wfloats t)"
  "win_get (sort_floats t) i = win_get t i" "leaves_of (sort_floats t) = leaves_of t"
  by (simp_all add: sort_floats_def win_get_def leaves_of_def)

lemma sort_floats_ok [simp]: "tree_ok (sort_floats t) = tree_ok t"
  unfolding tree_ok_def by simp


lemma split_leaf_set:
  assumes "distinct (collect_leaves n)" and "new \<notin> set (collect_leaves n)" and "target \<in> set (collect_leaves n)"
  shows "distinct (collect_leaves (snd (split_leaf target d new n)))"
    and "set (collect_leaves (snd (split_leaf target d new n))) = insert new (set (collect_leaves n))"
proof -
  let ?ls = "collect_leaves n" and ?a = "takeWhile (\<lambda>i. i \<noteq> target) (collect_leaves n)"
    and ?b = "dropWhile (\<lambda>i. i \<noteq> target) (collect_leaves n)"
  have ab: "?a @ ?b = ?ls" by simp
  have l: "collect_leaves (snd (split_leaf target d new n)) = ?a @ new # ?b"
    using split_leaf_leaves(1)[of target d new n] assms(3) by (simp add: Let_def)
  have d: "distinct (?a @ ?b)" and n: "new \<notin> set (?a @ ?b)" using assms(1,2) by (simp_all only: ab) simp_all
  show "distinct (collect_leaves (snd (split_leaf target d new n)))"
    unfolding l using d n by (simp del: takeWhile_dropWhile_id)
  have "set (?a @ new # ?b) = insert new (set (?a @ ?b))" by (simp del: takeWhile_dropWhile_id)
  then show "set (collect_leaves (snd (split_leaf target d new n))) = insert new (set (collect_leaves n))"
    unfolding l ab .
qed

lemma focused_some: "win_inv ed \<Longrightarrow> \<exists>w. win_get (wtree ed) (wcurrent (wtree ed)) = Some w"
  by (simp add: win_inv_def)

lemma split_inv:
  assumes "win_inv ed" and "wcurrent (wtree ed) \<in> set (leaves_of (wtree ed))"
  shows "\<exists>ed'. win_split frac d ed = Some ed' \<and> win_inv ed' \<and> wcurrent (wtree ed') = next_win_id ed"
proof -
  let ?t = "wtree ed" and ?i = "next_win_id ed"
  let ?n = "snd (split_leaf (wcurrent ?t) d ?i (wroot ?t))"
  from focused_some[OF assms(1)] obtain w where w: "win_get ?t (wcurrent ?t) = Some w" by blast
  have ok: "tree_ok ?t" "win_get ?t ?i = None" using assms(1) by (auto simp: win_inv_def)
  then have new: "?i \<notin> set (collect_leaves (wroot ?t))" and dist: "distinct (collect_leaves (wroot ?t))"
    by (auto simp: tree_ok_def leaves_of_def)
  let ?ed = "ed\<lparr>next_win_id := ?i + 1, wtree := ?t\<lparr>wins := bt_insert ?i (tiled_window (wbuf w)) (wins ?t),
    wroot := ?n, wcurrent := ?i\<rparr>\<rparr>"
  have inv: "win_inv ?ed"
    by (rule add_tiled_inv)
       (use assms ok split_leaf_set[OF dist new] split_leaf_wf(1) in
         \<open>auto simp: tiled_window_def leaves_of_def tree_ok_def\<close>)
  from relay_inv[OF equalize_if_inv[OF inv], of frac] obtain ed' where
    e: "relay frac (equalize_if ?ed) = Some ed'" "win_inv ed'"
    "same_windows (wtree (equalize_if ?ed)) (wtree ed')" by blast
  have "wcurrent (wtree (equalize_if ?ed)) = ?i" by (simp add: equalize_if_def)
  with e(3) have "wcurrent (wtree ed') = ?i" by (simp add: same_windows_def)
  with e w show ?thesis by (simp add: win_split_def alloc_window_id_def Let_def)
qed

lemma open_bottom_inv:
  assumes "win_inv ed"
  shows "\<exists>i ed'. open_bottom_window frac buf height ed = Some (i, ed') \<and> win_inv ed'"
proof -
  let ?t = "wtree ed" and ?i = "next_win_id ed"
  let ?n = "Split Horizontal [wroot ?t, Leaf ?i] [1, 1]"
  from focused_some[OF assms] obtain w where w: "win_get ?t (wcurrent ?t) = Some w" by blast
  have ok: "tree_ok ?t" "win_get ?t ?i = None" using assms by (auto simp: win_inv_def)
  have "win_inv (ed\<lparr>next_win_id := ?i + 1, wtree := ?t\<lparr>wins := bt_insert ?i (tiled_window buf) (wins ?t),
      wroot := ?n, wcurrent := wcurrent ?t\<rparr>\<rparr>)" (is "win_inv ?ed")
    by (rule add_tiled_inv) (use assms ok w in \<open>auto simp: tiled_window_def leaves_of_def tree_ok_def\<close>)
  from relay_inv[OF this, of frac] obtain ed1 where e1: "relay frac ?ed = Some ed1" "win_inv ed1" by blast
  from set_height_inv[OF focus_inv[OF e1(2)], of frac ?i height ?i] obtain ed2 where
    e2: "set_window_height frac ?i height (focus_window ?i ed1) = Some ed2" "win_inv ed2" by blast
  from relay_inv[OF e2(2), of frac] obtain ed3 where e3: "relay frac ed2 = Some ed3" "win_inv ed3" by blast
  have "relay frac (ed\<lparr>next_win_id := ?i + 1,
      wtree := ?t\<lparr>wins := bt_insert ?i (tiled_window buf) (wins ?t), wroot := ?n\<rparr>\<rparr>) = Some ed1"
    using e1(1) by simp
  with e2 e3 w show ?thesis by (simp add: open_bottom_window_def alloc_window_id_def Let_def)
qed

lemma open_float_inv:
  assumes "win_inv ed"
  shows "\<exists>i ed'. open_float_window frac buf cfg enter ed = Some (i, ed') \<and> win_inv ed'"
proof -
  let ?t = "wtree ed" and ?i = "next_win_id ed"
  let ?w = "(tiled_window buf)\<lparr>wfloat := Some cfg\<rparr>"
  let ?t' = "?t\<lparr>wins := bt_insert ?i ?w (wins ?t), wfloats := wfloats ?t @ [?i]\<rparr>"
  from focused_some[OF assms] obtain w where w: "win_get ?t (wcurrent ?t) = Some w" by blast
  have ok: "tree_ok ?t" and new: "win_get ?t ?i = None" using assms by (auto simp: win_inv_def)
  then have sorted: "keys_sorted (wins ?t)" by (simp add: tree_ok_def)
  note get = bt_insert_lookup[OF sorted] map_of_wins
  have "tree_ok ?t'"
    using ok new unfolding tree_ok_kinds
    by (auto simp: kinds_def get leaves_of_def bt_insert_sorted)
  then have "win_inv (ed\<lparr>next_win_id := ?i + 1, wtree := sort_floats ?t'\<rparr>)" (is "win_inv ?ed")
    using assms by (auto simp: win_inv_def get less_SucI)
  then have "win_inv (if enter then focus_window ?i ?ed else ?ed)" by (simp add: focus_inv)
  from relay_inv[OF this, of frac] w show ?thesis
    by (auto simp: open_float_window_def alloc_window_id_def Let_def)
qed


section \<open>Closing\<close>

text \<open>The floats anchored to a window: \<open>(p, f)\<close> when \<open>f\<close> is placed against window \<open>p\<close>.\<close>

definition anchors :: "win_tree \<Rightarrow> (nat \<times> nat) set" where
  "anchors t = {(p, f). f \<in> set (wfloats t) \<and>
     map_option relative (Option.bind (win_get t f) wfloat) = Some (RelWin p)}"

lemma anchored_to_set: "set (anchored_to t p vs) = anchors t `` {p} - set vs"
  by (auto simp: anchored_to_def anchors_def)

lemma anchored_to_distinct: "distinct (wfloats t) \<Longrightarrow> distinct (anchored_to t p vs)"
  by (simp add: anchored_to_def)

lemma victims_from_closure:
  assumes "distinct (wfloats t)"
  shows "distinct vs \<Longrightarrow> set vs \<subseteq> insert i0 (set (wfloats t)) \<Longrightarrow> i \<le> length vs \<Longrightarrow> i0 \<in> set vs \<Longrightarrow>
    set vs \<subseteq> (anchors t)\<^sup>* `` {i0} \<Longrightarrow> (\<And>k. k < i \<Longrightarrow> anchors t `` {vs ! k} \<subseteq> set vs) \<Longrightarrow>
    \<exists>ws. victims_from t vs i = Some (vs @ ws) \<and> distinct (vs @ ws) \<and> set (vs @ ws) = (anchors t)\<^sup>* `` {i0}"
proof (induction "Suc (length (wfloats t)) - i" arbitrary: vs i rule: less_induct)
  case (less i vs)
  have len: "length vs \<le> Suc (length (wfloats t))"
    using card_mono[OF _ less.prems(2)] distinct_card[OF less.prems(1)] card_insert_le_m1[of "Suc (length (wfloats t))" "set (wfloats t)" i0]
      card_length[of "wfloats t"] by simp
  show ?case
  proof (cases "i < length vs")
    case False
    have "anchors t `` {v} \<subseteq> set vs" if "v \<in> set vs" for v
      using that False less.prems(3,6) by (metis in_set_conv_nth le_antisym not_less)
    then have "(anchors t)\<^sup>* `` {i0} \<subseteq> set vs"
      using less.prems(4) by (auto elim!: rtrancl_induct)
    with False less.prems(1,5) show ?thesis
      by (intro exI[of _ "[]"]) (subst victims_from.simps, auto)
  next
    case True
    let ?ws = "anchored_to t (vs ! i) vs"
    have new: "set ?ws = anchors t `` {vs ! i} - set vs" by (rule anchored_to_set)
    have "(i0, vs ! i) \<in> (anchors t)\<^sup>*" using less.prems(5) nth_mem[OF True] by blast
    then have reach: "set ?ws \<subseteq> (anchors t)\<^sup>* `` {i0}"
      unfolding new by (auto intro: rtrancl_into_rtrancl)
    have "\<exists>us. victims_from t (vs @ ?ws) (i + 1) = Some ((vs @ ?ws) @ us) \<and> distinct ((vs @ ?ws) @ us) \<and>
        set ((vs @ ?ws) @ us) = (anchors t)\<^sup>* `` {i0}"
    proof (rule less.hyps)
      show "Suc (length (wfloats t)) - (i + 1) < Suc (length (wfloats t)) - i" using True len by simp
      show "distinct (vs @ ?ws)" using less.prems(1) new anchored_to_distinct[OF assms] by auto
      show "set (vs @ ?ws) \<subseteq> insert i0 (set (wfloats t))"
        using less.prems(2) by (auto simp: anchored_to_def)
      show "anchors t `` {(vs @ ?ws) ! k} \<subseteq> set (vs @ ?ws)" if "k < i + 1" for k
        using that True new less.prems(6)[of k] by (cases "k = i") (auto simp: nth_append less_Suc_eq)
    qed (use True reach less.prems(4,5) in auto)
    then obtain us where "victims_from t (vs @ ?ws) (i + 1) = Some ((vs @ ?ws) @ us)"
      "distinct ((vs @ ?ws) @ us)" "set ((vs @ ?ws) @ us) = (anchors t)\<^sup>* `` {i0}" by blast
    with True show ?thesis by (intro exI[of _ "?ws @ us"]) (subst victims_from.simps, simp)
  qed
qed

lemma victims_exact:
  assumes "tree_ok t"
  shows "\<exists>ws. victims_from t [i] 0 = Some (i # ws) \<and> distinct (i # ws) \<and>
           set (i # ws) = (anchors t)\<^sup>* `` {i} \<and> set ws \<subseteq> set (wfloats t)"
proof -
  have dist: "distinct (wfloats t)" using assms by (simp add: tree_ok_def)
  obtain ws where ws: "victims_from t [i] 0 = Some (i # ws)" "distinct (i # ws)"
    "set (i # ws) = (anchors t)\<^sup>* `` {i}"
    using victims_from_closure[OF dist, of "[i]" i 0] by auto
  have "j \<in> set (wfloats t)" if "j \<in> set ws" for j
  proof -
    have "(i, j) \<in> (anchors t)\<^sup>*" "j \<noteq> i" using that ws by auto
    then show ?thesis by (auto simp: anchors_def elim: rtranclE)
  qed
  with ws show ?thesis by blast
qed

text \<open>Dropping the victims: the first one may be tiled, the others float.\<close>

lemma drop_victim_ok:
  assumes "tree_ok t" and "win_get t v = Some w" and "wroot t \<noteq> Leaf v"
  shows "\<exists>t'. drop_victim v (t, b) = Some (t', b \<or> wfloat w = None) \<and> tree_ok t' \<and>
     wcurrent t' = wcurrent t \<and> (\<forall>j. win_get t' j = (if j = v then None else win_get t j)) \<and>
     (wfloat w \<noteq> None \<longrightarrow> wroot t' = wroot t)"
proof (cases "wfloat w")
  case None
  let ?t = "t\<lparr>wroot := snd (remove_leaf v (wroot t)), wins := bt_remove v (wins t)\<rparr>"
  have wf: "wf_node (wroot t)" "distinct (collect_leaves (wroot t))"
    using assms(1) by (auto simp: tree_ok_def leaves_of_def)
  have "tree_ok ?t"
    using assms(1,2) None remove_leaf_ok(1)[OF wf assms(3)] unfolding tree_ok_kinds
    by (auto simp: kinds_def leaves_of_def bt_remove_sorted bt_remove_lookup map_of_wins)
  with None assms(2) show ?thesis
    by (auto simp: drop_victim_def bt_remove_lookup map_of_wins)
next
  case (Some f)
  let ?t = "t\<lparr>wfloats := filter (\<lambda>f. f \<noteq> v) (wfloats t), wins := bt_remove v (wins t)\<rparr>"
  have "tree_ok ?t"
    using assms(1,2) Some unfolding tree_ok_kinds
    by (auto simp: kinds_def leaves_of_def bt_remove_sorted bt_remove_lookup map_of_wins)
  with Some assms(2) show ?thesis
    by (auto simp: drop_victim_def bt_remove_lookup map_of_wins)
qed

lemma drop_floats_ok:
  assumes "tree_ok t" and "distinct vs" and "set vs \<subseteq> set (wfloats t)"
  shows "\<exists>t'. drop_victims vs (t, b) = Some (t', b) \<and> tree_ok t' \<and> wcurrent t' = wcurrent t \<and>
     (\<forall>j. win_get t' j = (if j \<in> set vs then None else win_get t j)) \<and> wroot t' = wroot t"
  using assms
proof (induction vs arbitrary: t)
  case (Cons v vs)
  from Cons.prems obtain w where w: "win_get t v = Some w" "wfloat w \<noteq> None" by (auto simp: tree_ok_def)
  then have "v \<notin> set (leaves_of t)" using Cons.prems(1) by (auto simp: tree_ok_def)
  then have "wroot t \<noteq> Leaf v" by (auto simp: leaves_of_def)
  from drop_victim_ok[OF Cons.prems(1) w(1) this, of b] w(2) obtain t1 where
    t1: "drop_victim v (t, b) = Some (t1, b)" "tree_ok t1" "wcurrent t1 = wcurrent t"
    "\<And>j. win_get t1 j = (if j = v then None else win_get t j)" "wroot t1 = wroot t" by auto
  have "set vs \<subseteq> set (wfloats t1)"
    using Cons.prems by (auto simp: tree_ok_float[OF t1(2)] tree_ok_float[OF Cons.prems(1)] kinds_def t1(4))
  from Cons.IH[OF t1(2) _ this] Cons.prems(2) obtain t2 where
    "drop_victims vs (t1, b) = Some (t2, b)" "tree_ok t2" "wcurrent t2 = wcurrent t1"
    "\<And>j. win_get t2 j = (if j \<in> set vs then None else win_get t1 j)" "wroot t2 = wroot t1" by auto
  with t1 show ?case by auto
qed simp


lemma first_min_mem: "first_min f xs = Some y \<Longrightarrow> y \<in> set xs"
  by (induction xs arbitrary: y) (auto split: option.splits if_splits)

lemma first_min_some: "xs \<noteq> [] \<Longrightarrow> \<exists>y. first_min f xs = Some y"
  by (induction xs) (auto split: option.splits)

lemma first_min_least: "first_min f xs = Some y \<Longrightarrow> x \<in> set xs \<Longrightarrow> f y \<le> f x"
proof (induction xs arbitrary: y)
  case (Cons a xs)
  show ?case
  proof (cases "first_min f xs")
    case None
    then have "xs = []" using first_min_some[of xs f] by fastforce
    with Cons.prems show ?thesis by simp
  next
    case (Some z)
    with Cons.IH[OF Some] Cons.prems show ?thesis by (auto split: if_splits intro: order_trans)
  qed
qed simp

lemma nearest_ok:
  assumes "tree_ok t"
  shows "\<exists>c. nearest_window r t = Some c \<and> c \<in> set (leaves_of t)"
proof -
  have "list_all (\<lambda>i. win_get t i \<noteq> None) (leaves_of t)"
    using assms by (auto simp: list_all_iff tree_ok_def)
  with first_min_some[OF tree_ok_nonempty[OF assms]] first_min_mem show ?thesis
    by (metis nearest_window_def)
qed

text \<open>Relaying a tree whose focus may be gone, then entering a window.\<close>

lemma leaf_open: "tree_ok t \<Longrightarrow> i \<in> set (leaves_of t) \<Longrightarrow> win_get t i \<noteq> None"
  by (auto simp: tree_ok_def)

lemma refocus_ok:
  assumes "tree_ok (wtree ed)" and "\<forall>i. win_get (wtree ed) i \<noteq> None \<longrightarrow> i < next_win_id ed"
    and "c \<in> set (leaves_of (wtree ed))"
  shows "\<exists>ed1 ed2. relay frac ed = Some ed1 \<and> enter_window c ed1 = Some ed2 \<and> win_inv ed2 \<and>
     kinds (wtree ed2) = kinds (wtree ed) \<and> wcurrent (wtree ed2) = c \<and>
     leaves_of (wtree ed2) = leaves_of (wtree ed) \<and> next_win_id ed2 = next_win_id ed"
proof -
  from relay_ok[OF assms(1), of frac] obtain ed1 where e: "relay frac ed = Some ed1"
    "same_windows (wtree ed) (wtree ed1)" "tree_ok (wtree ed1)" "next_win_id ed1 = next_win_id ed" by blast
  let ?ed2 = "ed1\<lparr>wtree := (wtree ed1)\<lparr>wcurrent := c\<rparr>\<rparr>"
  have "win_get (wtree ed1) c \<noteq> None"
    using leaf_open[OF assms(1,3)] same_windows_get[OF e(2)] by simp
  then have "enter_window c ed1 = Some ?ed2" "win_inv ?ed2"
    using e assms(2) same_windows_get[OF e(2)] by (auto simp: enter_window_def win_inv_def)
  moreover have "kinds (wtree ?ed2) = kinds (wtree ed)"
    using same_windows_kinds[OF e(2)] by (simp add: kinds_def fun_eq_iff)
  moreover have "leaves_of (wtree ?ed2) = leaves_of (wtree ed)"
    using e(2) by (simp add: same_windows_def leaves_of_def)
  ultimately show ?thesis using e by (intro exI[of _ ed1] exI[of _ ?ed2]) simp
qed

lemma kinds_get: "kinds t j = None \<longleftrightarrow> win_get t j = None"
  by simp

text \<open>Closing drops the window and every float transitively anchored to it, and nothing else.\<close>

lemma drop_anchored_ok:
  assumes ok: "tree_ok t" and w: "win_get t i = Some w" and more: "wfloat w = None \<Longrightarrow> 1 < tiled_count t"
  shows "\<exists>ws t2. victims_from t [i] 0 = Some (i # ws) \<and> set (i # ws) = (anchors t)\<^sup>* `` {i} \<and>
     drop_victims (i # ws) (t, False) = Some (t2, wfloat w = None) \<and> tree_ok t2 \<and>
     wcurrent t2 = wcurrent t \<and>
     (\<forall>j. win_get t2 j = (if (i, j) \<in> (anchors t)\<^sup>* then None else win_get t j))"
proof -
  from victims_exact[OF ok, of i] obtain ws where ws: "victims_from t [i] 0 = Some (i # ws)"
    "distinct (i # ws)" "set (i # ws) = (anchors t)\<^sup>* `` {i}" "set ws \<subseteq> set (wfloats t)" by blast
  have "wroot t \<noteq> Leaf i"
  proof (cases "wfloat w")
    case None
    then show ?thesis using more by (auto simp: tiled_count_def leaves_of_def)
  next
    case (Some f)
    then have "i \<notin> set (leaves_of t)" using w ok by (simp add: tree_ok_def)
    then show ?thesis by (auto simp: leaves_of_def)
  qed
  from drop_victim_ok[OF ok w this, of False] obtain t1 where t1:
    "drop_victim i (t, False) = Some (t1, wfloat w = None)" "tree_ok t1" "wcurrent t1 = wcurrent t"
    "\<And>j. win_get t1 j = (if j = i then None else win_get t j)" by auto
  have "set ws \<subseteq> set (wfloats t1)"
    using ws(2,4) by (auto simp: tree_ok_float[OF t1(2)] tree_ok_float[OF ok] kinds_def t1(4))
  from drop_floats_ok[OF t1(2) _ this, of "wfloat w = None"] ws(2) obtain t2 where t2:
    "drop_victims ws (t1, wfloat w = None) = Some (t2, wfloat w = None)" "tree_ok t2" "wcurrent t2 = wcurrent t1"
    "\<And>j. win_get t2 j = (if j \<in> set ws then None else win_get t1 j)" by auto
  have gone: "win_get t2 j = (if (i, j) \<in> (anchors t)\<^sup>* then None else win_get t j)" for j
  proof -
    have "(i, j) \<in> (anchors t)\<^sup>* \<longleftrightarrow> j \<in> set (i # ws)" using ws(3) by auto
    then show ?thesis by (simp add: t2(4) t1(4))
  qed
  have "drop_victims (i # ws) (t, False) = Some (t2, wfloat w = None)" using t1(1) t2(1) by simp
  then show ?thesis
    by (intro exI[of _ ws] exI[of _ t2] conjI allI) (use ws(1,3) gone t1(3) t2(2,3) in simp_all)
qed

lemma remove_core_ok:
  assumes inv: "win_inv ed" and w: "win_get (wtree ed) i = Some w"
    and more: "wfloat w = None \<Longrightarrow> 1 < tiled_count (wtree ed)"
  shows "\<exists>ed'. remove_core frac i w ed = Some ed' \<and> win_inv ed' \<and>
     (\<forall>j. kinds (wtree ed') j = (if (i, j) \<in> (anchors (wtree ed))\<^sup>* then None else kinds (wtree ed) j)) \<and>
     (if (i, wcurrent (wtree ed)) \<in> (anchors (wtree ed))\<^sup>*
      then wcurrent (wtree ed') \<in> set (leaves_of (wtree ed'))
      else wcurrent (wtree ed') = wcurrent (wtree ed)) \<and> next_win_id ed' = next_win_id ed"
proof -
  let ?t = "wtree ed"
  have ok: "tree_ok ?t" using inv by (simp add: win_inv_def)
  from drop_anchored_ok[OF ok w more] obtain ws t2 where
    ws: "victims_from ?t [i] 0 = Some (i # ws)" "set (i # ws) = (anchors ?t)\<^sup>* `` {i}"
    and drop: "drop_victims (i # ws) (?t, False) = Some (t2, wfloat w = None)"
    and t2: "tree_ok t2" "wcurrent t2 = wcurrent ?t"
    and gone: "\<And>j. win_get t2 j = (if (i, j) \<in> (anchors ?t)\<^sup>* then None else win_get ?t j)" by blast
  let ?e = "if wfloat w = None then equalize_if (ed\<lparr>wtree := t2\<rparr>) else ed\<lparr>wtree := t2\<rparr>"
  have same: "same_windows t2 (wtree ?e)"
    using equalize_if_same[of "ed\<lparr>wtree := t2\<rparr>"] t2(1) by (auto simp: tree_ok_def same_windows_def)
  have e: "tree_ok (wtree ?e)" "kinds (wtree ?e) = kinds t2" "next_win_id ?e = next_win_id ed"
    using same_windows_ok[OF same t2(1)] same_windows_kinds[OF same] by auto
  have cur: "wcurrent (wtree ?e) = wcurrent ?t" using same t2(2) by (simp add: same_windows_def)
  have below: "\<forall>j. win_get (wtree ?e) j \<noteq> None \<longrightarrow> j < next_win_id ?e"
    using inv same_windows_get[OF same] gone by (auto simp: win_inv_def e(3) split: if_splits)
  have kinds: "kinds (wtree ?e) j = (if (i, j) \<in> (anchors ?t)\<^sup>* then None else kinds ?t j)" for j
    using e(2) gone[of j] by (simp add: kinds_def fun_eq_iff)
  have core: "remove_core frac i w ed =
      (if wcurrent ?t \<in> set (i # ws)
       then Option.bind (nearest_window (wrect w) (wtree ?e)) (\<lambda>c.
              Option.bind (relay frac ?e) (\<lambda>ed.
              Option.bind (enter_window c ed) (\<lambda>ed.
                if wfloats (wtree ed) \<noteq> [] then relay frac ed else Some ed)))
       else relay frac ?e)"
    unfolding remove_core_def ws(1) option.simps(5) Option.bind.simps drop by (simp add: Let_def)
  show ?thesis
  proof (cases "(i, wcurrent ?t) \<in> (anchors ?t)\<^sup>*")
    case True
    from nearest_ok[OF e(1), of "wrect w"] obtain c where
      c: "nearest_window (wrect w) (wtree ?e) = Some c" "c \<in> set (leaves_of (wtree ?e))" by blast
    from refocus_ok[OF e(1) below c(2), of frac] obtain ed1 ed2 where r: "relay frac ?e = Some ed1"
      "enter_window c ed1 = Some ed2" "win_inv ed2" "kinds (wtree ed2) = kinds (wtree ?e)"
      "wcurrent (wtree ed2) = c" "leaves_of (wtree ed2) = leaves_of (wtree ?e)" "next_win_id ed2 = next_win_id ?e"
      by blast
    have foc: "wcurrent ?t \<in> set (i # ws)" using True ws(2) by auto
    from relay_ok[of ed2 frac] r(3) obtain ed3 where r3: "relay frac ed2 = Some ed3"
      "same_windows (wtree ed2) (wtree ed3)" "next_win_id ed3 = next_win_id ed2" by (auto simp: win_inv_def)
    from relay_inv[OF r(3), of frac] r3(1) have "win_inv ed3" by auto
    then have "win_inv (if wfloats (wtree ed2) \<noteq> [] then ed3 else ed2)" using r(3) by simp
    moreover have "remove_core frac i w ed = Some (if wfloats (wtree ed2) \<noteq> [] then ed3 else ed2)"
      unfolding core if_P[OF foc] c(1) r(1) Option.bind.simps r(2) by (simp add: r3(1))
    moreover have "kinds (wtree (if wfloats (wtree ed2) \<noteq> [] then ed3 else ed2)) = kinds (wtree ?e)"
      using r(4) same_windows_kinds[OF r3(2)] by simp
    moreover have "wcurrent (wtree (if wfloats (wtree ed2) \<noteq> [] then ed3 else ed2)) = c"
      "leaves_of (wtree (if wfloats (wtree ed2) \<noteq> [] then ed3 else ed2)) = leaves_of (wtree ?e)"
      using r(5,6) r3(2) by (simp_all add: same_windows_def)
    moreover have "next_win_id (if wfloats (wtree ed2) \<noteq> [] then ed3 else ed2) = next_win_id ed"
      using r(7) r3(3) e(3) by simp
    ultimately show ?thesis using kinds True c(2) by (intro exI conjI) (assumption | simp)+
  next
    case False
    then have foc: "wcurrent ?t \<notin> set (i # ws)" using ws(2) by auto
    have "win_inv ?e"
      using e(1) below inv same_windows_get[OF same] gone[of "wcurrent ?t"] False cur
      by (simp add: win_inv_def)
    from relay_inv[OF this, of frac] obtain ed1 where r: "relay frac ?e = Some ed1" "win_inv ed1"
      "same_windows (wtree ?e) (wtree ed1)" by blast
    moreover have "next_win_id ed1 = next_win_id ed" using r(1) e(3) by (auto simp: relay_def)
    moreover have "remove_core frac i w ed = Some ed1" unfolding core if_not_P[OF foc] by (rule r(1))
    moreover have "kinds (wtree ed1) = kinds (wtree ?e)" "wcurrent (wtree ed1) = wcurrent ?t"
      using same_windows_kinds[OF r(3)] r(3) cur by (simp_all add: same_windows_def)
    ultimately show ?thesis using kinds False by (intro exI[of _ ed1]) simp
  qed
qed


section \<open>Closing one window, or all but one\<close>

lemma close_all_floats_ok:
  assumes "tree_ok t" and "wtree ed = t"
  shows "tree_ok (wtree (close_all_floats ed))"
    and "win_get (wtree (close_all_floats ed)) j = (if kinds t j = Some True then None else win_get t j)"
    and "wroot (wtree (close_all_floats ed)) = wroot t" and "wfloats (wtree (close_all_floats ed)) = []"
    and "wcurrent (wtree (close_all_floats ed)) = wcurrent t"
    and "next_win_id (close_all_floats ed) = next_win_id ed"
proof -
  have fold: "map_of (fold bt_remove fs ws) j = (if j \<in> set fs then None else map_of ws j)" for fs :: "nat list" and ws :: "(nat \<times> window) list" and j
    by (induction fs arbitrary: ws) (auto simp: bt_remove_lookup)
  have sorted: "keys_sorted ws \<Longrightarrow> keys_sorted (fold bt_remove fs ws)" for fs :: "nat list" and ws :: "(nat \<times> window) list"
    by (induction fs arbitrary: ws) (auto simp: bt_remove_sorted)
  let ?t' = "wtree (close_all_floats ed)"
  show get: "win_get ?t' j = (if kinds t j = Some True then None else win_get t j)" for j
    using tree_ok_float[OF assms(1), of j] assms(2)
    by (simp add: close_all_floats_def Let_def fold map_of_wins)
  show "wroot ?t' = wroot t" "wfloats ?t' = []" "wcurrent ?t' = wcurrent t"
    "next_win_id (close_all_floats ed) = next_win_id ed"
    using assms(2) by (simp_all add: close_all_floats_def Let_def)
  then have leaves: "leaves_of ?t' = leaves_of t" by (simp add: leaves_of_def)
  have "keys_sorted (wins ?t')"
    using assms sorted by (simp add: close_all_floats_def Let_def tree_ok_def)
  then show "tree_ok ?t'"
    using assms(1) \<open>wroot ?t' = wroot t\<close> \<open>wfloats ?t' = []\<close> unfolding tree_ok_kinds leaves
    by (auto simp: kinds_def get)
qed

text \<open>The genuine last window: \<open>remove_window\<close> refuses it.\<close>

definition last_window :: "win_tree \<Rightarrow> nat \<Rightarrow> bool" where
  "last_window t i \<longleftrightarrow> kinds t i = Some False \<and> tiled_count t \<le> 1 \<and> wfloats t = []"

lemma last_tiled_ok:
  assumes inv: "win_inv ed" and i: "kinds (wtree ed) i = Some False"
  shows "\<exists>ed'. Option.bind (relay frac (close_all_floats ed)) (\<lambda>ed'.
       if win_get (wtree (close_all_floats ed)) (wcurrent (wtree (close_all_floats ed))) = None
       then map_option (Pair True) (enter_window i ed') else Some (True, ed')) = Some (True, ed') \<and> win_inv ed' \<and>
     kinds (wtree ed') = (\<lambda>j. if kinds (wtree ed) j = Some True then None else kinds (wtree ed) j) \<and>
     next_win_id ed' = next_win_id ed"
proof -
  let ?t = "wtree ed" and ?e = "close_all_floats ed"
  have ok: "tree_ok ?t" using inv by (simp add: win_inv_def)
  note c = close_all_floats_ok[OF ok refl]
  have below: "\<forall>j. win_get (wtree ?e) j \<noteq> None \<longrightarrow> j < next_win_id ?e"
    using inv by (auto simp: c(2,6) win_inv_def)
  have leaf: "i \<in> set (leaves_of (wtree ?e))"
    using i tree_ok_leaf[OF ok] c(3) by (simp add: leaves_of_def)
  have kinds: "kinds (wtree ?e) = (\<lambda>j. if kinds ?t j = Some True then None else kinds ?t j)"
    by (auto simp: fun_eq_iff kinds_def c(2))
  show ?thesis
  proof (cases "win_get (wtree ?e) (wcurrent (wtree ?e)) = None")
    case True
    from refocus_ok[OF c(1) below leaf, of frac] obtain ed1 ed2 where "relay frac ?e = Some ed1"
      "enter_window i ed1 = Some ed2" "win_inv ed2" "kinds (wtree ed2) = kinds (wtree ?e)"
      "next_win_id ed2 = next_win_id ?e" by blast
    with True kinds c(6) show ?thesis by auto
  next
    case False
    with c(1) below have "win_inv ?e" by (simp add: win_inv_def)
    from relay_inv[OF this, of frac] obtain ed1 where e1: "relay frac ?e = Some ed1" "win_inv ed1"
      "same_windows (wtree ?e) (wtree ed1)" by blast
    have "next_win_id ed1 = next_win_id ?e" using e1(1) by (auto simp: relay_def)
    with e1 same_windows_kinds[OF e1(3)] False kinds c(6) show ?thesis by auto
  qed
qed


text \<open>\<open>remove_window\<close> returns: each nested call works on a state with a window less.\<close>

lemma kinds_card:
  assumes "kinds t i \<noteq> None" and "kinds t' i = None" and "\<And>j. kinds t' j = None \<or> kinds t' j = kinds t j"
  shows "card (win_keys t') < card (win_keys t)"
proof (rule psubset_card_mono)
  have keys: "win_keys t = {j. kinds t j \<noteq> None}" for t
    by (simp only: kinds_None) (auto simp: win_get_def dom_def)
  have "{j. kinds t' j \<noteq> None} \<subseteq> {j. kinds t j \<noteq> None}"
  proof
    fix j assume "j \<in> {j. kinds t' j \<noteq> None}"
    with assms(3)[of j] show "j \<in> {j. kinds t j \<noteq> None}" by (metis mem_Collect_eq)
  qed
  moreover have "i \<in> {j. kinds t j \<noteq> None}" "i \<notin> {j. kinds t' j \<noteq> None}"
    using assms(1,2) by simp_all
  ultimately show "win_keys t' \<subset> win_keys t" unfolding keys by blast
qed (simp add: finite_dom_map_of)

lemma tiled_kind: "win_get t i = Some w \<Longrightarrow> kinds t i = Some (wfloat w \<noteq> None)"
  by (simp add: kinds_def)

lemma remove_window_ok:
  assumes "win_inv ed"
  shows "\<exists>b ed'. remove_window frac i ed = Some (b, ed') \<and> win_inv ed' \<and>
     (b \<longleftrightarrow> win_get (wtree ed) i \<noteq> None \<and> \<not> last_window (wtree ed) i) \<and> (\<not> b \<longrightarrow> ed' = ed) \<and>
     (\<forall>j. kinds (wtree ed') j = None \<or> kinds (wtree ed') j = kinds (wtree ed) j) \<and>
     next_win_id ed' = next_win_id ed"
  using assms
proof (induction "card (win_keys (wtree ed))" arbitrary: ed i rule: less_induct)
  case less
  let ?t = "wtree ed"
  show ?case
  proof (cases "win_get ?t i")
    case None
    then show ?thesis
      by (intro exI[of _ False] exI[of _ ed]) (use less.prems in \<open>subst remove_window.simps, simp\<close>)
  next
    case (Some w)
    note kind = tiled_kind[OF Some]
    show ?thesis
    proof (cases "wfloat w = None \<and> tiled_count ?t \<le> 1")
      case True
      show ?thesis
      proof (cases "wfloats ?t = []")
        case False
        with True Some have eq: "remove_window frac i ed = Option.bind (relay frac (close_all_floats ed)) (\<lambda>ed'.
            if win_get (wtree (close_all_floats ed)) (wcurrent (wtree (close_all_floats ed))) = None
            then map_option (Pair True) (enter_window i ed') else Some (True, ed'))"
          by (subst remove_window.simps) (simp add: Let_def)
        from last_tiled_ok[OF less.prems, of i frac] kind True obtain ed' where
          e: "remove_window frac i ed = Some (True, ed')" "win_inv ed'" "next_win_id ed' = next_win_id ed"
          "kinds (wtree ed') = (\<lambda>j. if kinds ?t j = Some True then None else kinds ?t j)"
          unfolding eq by auto
        then have "\<forall>j. kinds (wtree ed') j = None \<or> kinds (wtree ed') j = kinds ?t j" by (simp add: e(4))
        with e(1-3) False Some show ?thesis
          by (intro exI[of _ True] exI[of _ ed']) (simp add: last_window_def)
      next
        case True
        have "remove_window frac i ed = Some (False, ed)"
          using True \<open>wfloat w = None \<and> tiled_count ?t \<le> 1\<close> Some by (subst remove_window.simps) simp
        moreover have "last_window ?t i"
          using True \<open>wfloat w = None \<and> tiled_count ?t \<le> 1\<close> kind by (simp add: last_window_def)
        ultimately show ?thesis using less.prems by (intro exI[of _ False] exI[of _ ed]) simp
      qed
    next
      case False
      then have more: "wfloat w = None \<Longrightarrow> 1 < tiled_count ?t" by auto
      from remove_core_ok[OF less.prems Some more, of frac] obtain ed1 where
        e1: "remove_core frac i w ed = Some ed1" "win_inv ed1" "next_win_id ed1 = next_win_id ed"
        and k1: "\<And>j. kinds (wtree ed1) j = (if (i, j) \<in> (anchors ?t)\<^sup>* then None else kinds ?t j)" by blast
      have k: "kinds (wtree ed1) j = None \<or> kinds (wtree ed1) j = kinds ?t j" for j by (simp add: k1)
      have last: "\<not> last_window ?t i" using False kind by (auto simp: last_window_def)
      have eq: "remove_window frac i ed = (case loclist_bufnr w of None \<Rightarrow> Some (True, ed1)
          | Some buf \<Rightarrow> (case List.find (\<lambda>j. map_option wbuf (win_get (wtree ed1) j) = Some buf)
              (leaves_of (wtree ed1) @ wfloats (wtree ed1)) of None \<Rightarrow> Some (True, ed1)
            | Some j \<Rightarrow> Option.bind (remove_window frac j ed1) (\<lambda>(_, ed). Some (True, ed))))"
        using False Some e1(1) by (subst remove_window.simps) auto
      have "card (win_keys (wtree ed1)) < card (win_keys ?t)"
        by (rule kinds_card[OF _ _ k]) (use k1 Some in auto)
      note IH = less.hyps[OF this e1(2)]
      have nested: "\<exists>ed2. Option.bind (remove_window frac j ed1) (\<lambda>(_, ed). Some (True, ed)) = Some (True, ed2) \<and>
          win_inv ed2 \<and> (\<forall>j. kinds (wtree ed2) j = None \<or> kinds (wtree ed2) j = kinds ?t j) \<and>
          next_win_id ed2 = next_win_id ed" for j
        using IH[of j] k e1(3) by fastforce
      have "\<exists>ed2. remove_window frac i ed = Some (True, ed2) \<and> win_inv ed2 \<and>
          (\<forall>j. kinds (wtree ed2) j = None \<or> kinds (wtree ed2) j = kinds ?t j) \<and> next_win_id ed2 = next_win_id ed"
        unfolding eq using nested e1 k by (auto split: option.split)
      with last Some show ?thesis by fastforce
    qed
  qed
qed

lemma only_inv:
  assumes "win_inv ed"
  shows "\<exists>ed'. only_window frac ed = Some ed' \<and> win_inv ed'"
proof -
  let ?t = "wtree ed" and ?c = "wcurrent (wtree ed)"
  from focused_some[OF assms] obtain w where w: "win_get ?t ?c = Some w" by blast
  show ?thesis
  proof (cases "wfloat w \<noteq> None \<or> length (leaves_of ?t) \<le> 1 \<and> wfloats ?t = []")
    case True
    then show ?thesis using w assms by (auto simp: only_window_def win_inv_def)
  next
    case False
    have ok: "tree_ok ?t" using assms by (simp add: win_inv_def)
    note c = close_all_floats_ok[OF ok refl]
    let ?e = "close_all_floats ed"
    let ?t' = "(wtree ?e)\<lparr>wins := filter (\<lambda>(j, w). j = ?c) (wins (wtree ?e)), wroot := Leaf ?c\<rparr>"
    have filt: "map_of (filter (\<lambda>(j, w). j = k) xs) j = (if j = k then map_of xs j else None)"
      for k j :: nat and xs :: "(nat \<times> window) list"
      by (induction xs) auto
    have get: "win_get ?t' j = (if j = ?c then Some w else None)" for j
      using False w c(2)[of j] tiled_kind[OF w] by (auto simp: filt map_of_wins)
    have sorted: "keys_sorted (wins ?t')"
      using c(1) by (simp add: tree_ok_def sorted_wrt_map sorted_wrt_filter)
    have "tree_ok ?t'"
      using False get sorted c(4) unfolding tree_ok_def by (auto simp: leaves_of_def simp del: win_get_wins)
    moreover have "?c < next_win_id ed" using assms w by (auto simp: win_inv_def)
    ultimately have "win_inv (?e\<lparr>wtree := ?t'\<rparr>)"
      using get c(5,6) by (simp add: win_inv_def del: win_get_wins)
    from relay_inv[OF this, of frac] False w show ?thesis by (auto simp: only_window_def Let_def)
  qed
qed


section \<open>Reconfiguring\<close>

text \<open>Re-tiling splits the focused window, or the first tiled one when the float itself is focused:
  the target is tiled in both cases only if no other float is focused.\<close>

definition retile_ok :: "win_tree \<Rightarrow> nat \<Rightarrow> bool" where
  "retile_ok t i \<longleftrightarrow> kinds t i = Some True \<longrightarrow> wcurrent t = i \<or> kinds t (wcurrent t) = Some False"

lemma kinds_wfloat:
  "kinds (t\<lparr>wins := bt_modify i (\<lambda>w. w\<lparr>wfloat := f\<rparr>) (wins t0)\<rparr>) j =
     (if j = i \<and> win_get t0 i \<noteq> None then Some (f \<noteq> None) else kinds t0 j)"
  by (cases "win_get t0 j") (auto simp: kinds_def bt_modify_lookup map_of_wins)

lemma kinds_root [simp]: "kinds (t\<lparr>wroot := n\<rparr>) = kinds t"
  and kinds_floats [simp]: "kinds (t\<lparr>wfloats := fs\<rparr>) = kinds t"
  and kinds_sort [simp]: "kinds (sort_floats t) = kinds t"
  by (simp_all add: kinds_def fun_eq_iff)

lemma set_kinds_inv:
  assumes "win_inv ed" and "tree_ok t'" and "wcurrent t' = wcurrent (wtree ed)"
    and "\<And>j. kinds t' j = None \<longleftrightarrow> kinds (wtree ed) j = None"
  shows "win_inv (ed\<lparr>wtree := t'\<rparr>)"
  using assms by (simp add: win_inv_def)

lemma convert_inv:
  assumes "win_inv ed" and "win_get (wtree ed) i \<noteq> None" and "retile_ok (wtree ed) i"
  shows "\<exists>ed'. convert_float_to_tiled frac i ed = Some ed' \<and> win_inv ed' \<and>
     i \<in> set (leaves_of (wtree ed'))"
proof -
  let ?t = "wtree ed"
  from assms(2) obtain w where w: "win_get ?t i = Some w" by blast
  have ok: "tree_ok ?t" using assms(1) by (simp add: win_inv_def)
  show ?thesis
  proof (cases "wfloat w")
    case None
    then show ?thesis using w assms ok by (simp add: convert_float_to_tiled_def tree_ok_def)
  next
    case (Some f)
    let ?t1 = "?t\<lparr>wfloats := filter (\<lambda>f. f \<noteq> i) (wfloats ?t),
      wins := bt_modify i (\<lambda>w. w\<lparr>wfloat := None\<rparr>) (wins ?t)\<rparr>"
    let ?target = "if wcurrent ?t = i then hd (leaves_of ?t) else wcurrent ?t"
    let ?t2 = "?t1\<lparr>wroot := snd (split_leaf ?target Horizontal i (wroot ?t))\<rparr>"
    have kind: "kinds ?t i = Some True" using tiled_kind[OF w] Some by simp
    then have target: "?target \<in> set (collect_leaves (wroot ?t))"
      using assms(3) tree_ok_leaf[OF ok] tree_ok_nonempty[OF ok] hd_in_set
      by (auto simp: retile_ok_def leaves_of_def)
    have new: "i \<notin> set (collect_leaves (wroot ?t))" and dist: "distinct (collect_leaves (wroot ?t))"
      using kind tree_ok_leaf[OF ok, of i] ok by (auto simp: leaves_of_def tree_ok_def)
    note s = split_leaf_set[OF dist new target, of Horizontal]
    have kinds: "kinds ?t2 j = (if j = i then Some False else kinds ?t j)" for j
      using w by (simp add: kinds_wfloat)
    have t2: "tree_ok ?t2"
      using ok s kind w split_leaf_wf(1) unfolding tree_ok_kinds leaves_of_def by (auto simp: kinds_wfloat)
    then have "win_inv (ed\<lparr>wtree := ?t2\<rparr>)"
      by (rule set_kinds_inv[OF assms(1)]) (use kinds kind in \<open>auto simp del: kinds_None\<close>)
    from relay_inv[OF this, of frac] obtain ed' where e: "relay frac (ed\<lparr>wtree := ?t2\<rparr>) = Some ed'" "win_inv ed'"
      "same_windows ?t2 (wtree ed')" by auto
    have "i \<in> set (leaves_of ?t2)" using tree_ok_leaf[OF t2] kinds by simp
    with e(3) have "i \<in> set (leaves_of (wtree ed'))" by (simp add: same_windows_def)
    moreover have "convert_float_to_tiled frac i ed = Some ed'"
      using e(1) w Some
      by (cases "wcurrent ?t = i") (simp_all add: convert_float_to_tiled_def Let_def leaves_of_def)
    ultimately show ?thesis using e(2) by blast
  qed
qed

lemma config_inv:
  assumes "win_inv ed" and "make_tiled sp \<Longrightarrow> retile_ok (wtree ed) i"
  shows "\<exists>ed'. set_window_config frac i sp ed = Some ed' \<and> win_inv ed'"
proof -
  let ?t = "wtree ed"
  have ok: "tree_ok ?t" using assms by (simp add: win_inv_def)
  show ?thesis
  proof (cases "win_get ?t i")
    case (Some w)
    note kind = tiled_kind[OF Some]
    consider (tiled) "make_tiled sp" | (last) "\<not> make_tiled sp" "wfloat w = None \<and> length (leaves_of ?t) \<le> 1"
      | (float) "\<not> make_tiled sp" "wfloat w = None \<Longrightarrow> 1 < length (leaves_of ?t)" by fastforce
    then show ?thesis
    proof cases
      case tiled
      with convert_inv[OF assms(1) _ assms(2), of frac] Some show ?thesis
        by (auto simp: set_window_config_def)
    next
      case last
      then show ?thesis using Some assms(1) by (simp add: set_window_config_def win_inv_def)
    next
      case float
      let ?base = "case wfloat w of Some c \<Rightarrow> c
        | None \<Rightarrow> float_default\<lparr>cfg_width := Cells (min (max (rwidth (wrect w)) 1) 65535),
                                  cfg_height := Cells (min (max (rheight (wrect w)) 1) 65535)\<rparr>"
      let ?t1 = "if wfloat w = None
        then ?t\<lparr>wroot := snd (remove_leaf i (wroot ?t)), wfloats := wfloats ?t @ [i]\<rparr> else ?t"
      let ?t2 = "?t1\<lparr>wins := bt_modify i (\<lambda>w. w\<lparr>wfloat := Some (merge_config sp ?base)\<rparr>) (wins ?t1)\<rparr>"
      have wf: "wf_node (wroot ?t)" "distinct (collect_leaves (wroot ?t))"
        using ok by (auto simp: tree_ok_def leaves_of_def)
      have kinds: "kinds ?t2 j = (if j = i then Some True else kinds ?t j)" for j
        using Some by (simp add: kinds_wfloat)
      have leaf: "wroot ?t \<noteq> Leaf i" if "wfloat w = None"
        using float(2)[OF that] by (auto simp: leaves_of_def)
      have "tree_ok ?t2"
        using ok kind Some remove_leaf_ok(1)[OF wf leaf] unfolding tree_ok_kinds leaves_of_def
        by (cases "wfloat w") (auto simp: kinds_wfloat)
      then have "win_inv (ed\<lparr>wtree := sort_floats ?t2\<rparr>)"
        by (intro set_kinds_inv[OF assms(1)]) (use kinds kind in \<open>auto simp del: kinds_None\<close>)
      from relay_inv[OF this, of frac] float Some show ?thesis
        by (auto simp: set_window_config_def Let_def)
    qed
  qed (use assms(1) in \<open>simp add: set_window_config_def\<close>)
qed


section \<open>Every reachable state\<close>

text \<open>The commands. A move of the cursor, a resize of the screen and a focus lock come from outside.\<close>

datatype win_op =
    OpSplit split_dir
  | OpBottom nat nat
  | OpFloat nat float_config bool
  | OpClose nat
  | OpOnly
  | OpEqualize
  | OpMaximize split_dir
  | OpResize nat split_dir int
  | OpWidth nat nat
  | OpHeight nat nat
  | OpFocus nat
  | OpFocusDir win_dir
  | OpCycle bool
  | OpConfig nat config_spec
  | OpScreen rect rect
  | OpCursor "nat \<times> nat"
  | OpLock "nat option"

fun win_step :: "(nat \<Rightarrow> nat \<Rightarrow> nat) \<Rightarrow> win_ed \<Rightarrow> win_op \<Rightarrow> win_ed option" where
  "win_step frac ed (OpSplit d) = win_split frac d ed"
| "win_step frac ed (OpBottom buf h) = map_option snd (open_bottom_window frac buf h ed)"
| "win_step frac ed (OpFloat buf cfg enter) = map_option snd (open_float_window frac buf cfg enter ed)"
| "win_step frac ed (OpClose i) = map_option snd (remove_window frac i ed)"
| "win_step frac ed OpOnly = only_window frac ed"
| "win_step frac ed OpEqualize = equalize_windows frac ed"
| "win_step frac ed (OpMaximize d) = maximize_window frac d ed"
| "win_step frac ed (OpResize i d delta) = resize_window_id frac i d delta ed"
| "win_step frac ed (OpWidth i n) = set_window_width frac i n ed"
| "win_step frac ed (OpHeight i n) = set_window_height frac i n ed"
| "win_step frac ed (OpFocus i) = Some (focus_window i ed)"
| "win_step frac ed (OpFocusDir d) = Some (focus_dir d ed)"
| "win_step frac ed (OpCycle fw) = Some (focus_cycle fw ed)"
| "win_step frac ed (OpConfig i sp) = set_window_config frac i sp ed"
| "win_step frac ed (OpScreen a s) = relay frac (ed\<lparr>area := a, screen := s\<rparr>)"
| "win_step frac ed (OpCursor off) = relay frac (ed\<lparr>cursor_off := off\<rparr>)"
| "win_step frac ed (OpLock l) = Some (ed\<lparr>focus_lock := l\<rparr>)"

text \<open>What the callers owe: a split needs a tiled window in focus, and so does the re-tiling of a
  float that is not itself in focus.\<close>

definition op_ok :: "win_ed \<Rightarrow> win_op \<Rightarrow> bool" where
  "op_ok ed op \<longleftrightarrow>
     (case op of
        OpSplit d \<Rightarrow> kinds (wtree ed) (wcurrent (wtree ed)) = Some False
      | OpConfig i sp \<Rightarrow> make_tiled sp \<longrightarrow> retile_ok (wtree ed) i
      | _ \<Rightarrow> True)"

definition win_start :: "nat \<Rightarrow> bool \<Rightarrow> rect \<Rightarrow> rect \<Rightarrow> win_ed" where
  "win_start buf eq a s =
     \<lparr>wtree = with_window 1 buf, next_win_id = 2, equalalways = eq, area = a, screen = s,
      cursor_off = (0, 0), focus_lock = None, win_echo = None\<rparr>"

inductive win_reach :: "(nat \<Rightarrow> nat \<Rightarrow> nat) \<Rightarrow> win_ed \<Rightarrow> bool" for frac where
  boot: "relay frac (win_start buf eq a s) = Some ed \<Longrightarrow> win_reach frac ed"
| command: "win_reach frac ed \<Longrightarrow> op_ok ed op \<Longrightarrow> win_step frac ed op = Some ed' \<Longrightarrow> win_reach frac ed'"

lemma win_start_inv: "win_inv (win_start buf eq a s)"
  by (auto simp: win_inv_def win_start_def with_window_def tree_ok_def win_get_def leaves_of_def tiled_window_def)

lemma win_step_inv:
  assumes "win_inv ed" and "op_ok ed op"
  shows "\<exists>ed'. win_step frac ed op = Some ed' \<and> win_inv ed'"
proof -
  have "win_inv (ed\<lparr>area := a, screen := s\<rparr>)" "win_inv (ed\<lparr>cursor_off := off\<rparr>)" "win_inv (ed\<lparr>focus_lock := l\<rparr>)"
    for a s off l using assms(1) by (simp_all add: win_inv_def)
  note [simp] = this[THEN relay_inv] this
  show ?thesis
  proof (cases op)
    case (OpSplit d)
    with assms tree_ok_leaf[of "wtree ed"] split_inv[OF assms(1), of frac d] show ?thesis
      by (auto simp: op_ok_def win_inv_def)
  next
    case (OpConfig i sp)
    with assms(2) config_inv[OF assms(1)] show ?thesis by (simp add: op_ok_def)
  next
    case (OpClose i)
    from remove_window_ok[OF assms(1), of frac i] OpClose show ?thesis by fastforce
  next
    case (OpBottom buf h)
    from open_bottom_inv[OF assms(1), of frac buf h] OpBottom show ?thesis by fastforce
  next
    case (OpFloat buf cfg enter)
    from open_float_inv[OF assms(1), of frac buf cfg enter] OpFloat show ?thesis by fastforce
  next
    case (OpScreen a s)
    then show ?thesis using relay_inv[of "ed\<lparr>area := a, screen := s\<rparr>" frac] by auto
  next
    case (OpCursor off)
    then show ?thesis using relay_inv[of "ed\<lparr>cursor_off := off\<rparr>" frac] by auto
  qed (use assms(1) in \<open>simp_all add: only_inv equalize_windows_inv maximize_inv resize_inv
         set_width_inv set_height_inv focus_inv focus_dir_inv focus_cycle_inv\<close>)
qed

lemma win_reach_inv: "win_reach frac ed \<Longrightarrow> win_inv ed"
proof (induction rule: win_reach.induct)
  case (boot buf eq a s ed)
  with relay_inv[OF win_start_inv[of buf eq a s], of frac] show ?case by auto
next
  case (command ed op ed')
  with win_step_inv[of ed op frac] show ?case by auto
qed


text \<open>C15. Through every sequence of window commands in which a split is asked only while a tiled
  window has the focus, and a float is made tiled only while that float itself or a tiled window has
  the focus (\<open>op_ok\<close>), the focus is on an open window, the layout holds every tiled window exactly
  once and the float list every float exactly once, some tiled window is left, and the ids still to
  be given are not in use. Every other command, with any arguments, is free at any point. The code
  accepts the two excluded commands and breaks this invariant on them: \<open>split_of_float_orphans\<close> and
  \<open>retile_orphans\<close>.\<close>

theorem focus_never_stranded:
  assumes "win_reach frac ed"
  shows "win_get (wtree ed) (wcurrent (wtree ed)) \<noteq> None \<and> leaves_of (wtree ed) \<noteq> [] \<and>
    distinct (leaves_of (wtree ed) @ wfloats (wtree ed)) \<and>
    (\<forall>i. win_get (wtree ed) i \<noteq> None \<longleftrightarrow> i \<in> set (leaves_of (wtree ed) @ wfloats (wtree ed))) \<and>
    (\<forall>i w. win_get (wtree ed) i = Some w \<longrightarrow> (wfloat w \<noteq> None \<longleftrightarrow> i \<in> set (wfloats (wtree ed))) \<and> i < next_win_id ed)"
proof -
  have inv: "win_inv ed" by (rule win_reach_inv[OF assms])
  then have ok: "tree_ok (wtree ed)" by (simp add: win_inv_def)
  note k = tree_ok_leaf[OF ok] tree_ok_float[OF ok]
  have "distinct (leaves_of (wtree ed) @ wfloats (wtree ed))"
    using ok k by (auto simp: tree_ok_def)
  moreover have "win_get (wtree ed) i \<noteq> None \<longleftrightarrow> i \<in> set (leaves_of (wtree ed) @ wfloats (wtree ed))" for i
    by (cases "win_get (wtree ed) i") (auto simp: k kinds_def)
  moreover have "wfloat w \<noteq> None \<longleftrightarrow> i \<in> set (wfloats (wtree ed))" if "win_get (wtree ed) i = Some w" for i w
    using tiled_kind[OF that] by (simp add: k)
  ultimately show ?thesis using inv tree_ok_nonempty[OF ok] by (auto simp: win_inv_def)
qed

definition two_windows :: win_ed where
  "two_windows = the (Option.bind (relay (\<lambda>f n. n) (win_start 1 True \<lparr>rx = 0, ry = 0, rwidth = 80, rheight = 24\<rparr>
       \<lparr>rx = 0, ry = 0, rwidth = 80, rheight = 24\<rparr>)) (win_split (\<lambda>f n. n) Vertical))"

lemma two_windows_reach: "win_reach (\<lambda>f n. n) two_windows"
proof -
  let ?s = "\<lparr>rx = 0, ry = 0, rwidth = 80, rheight = 24\<rparr>"
  obtain ed where ed: "relay (\<lambda>f n. n) (win_start 1 True ?s ?s) = Some ed" "win_inv ed"
    "same_windows (wtree (win_start 1 True ?s ?s)) (wtree ed)"
    using relay_inv[OF win_start_inv] by blast
  have "kinds (wtree ed) (wcurrent (wtree ed)) = Some False"
    using same_windows_kinds[OF ed(3)] ed(3)
    by (simp add: same_windows_def win_start_def with_window_def kinds_def win_get_def tiled_window_def)
  then have ok: "op_ok ed (OpSplit Vertical)" by (simp add: op_ok_def)
  from win_step_inv[OF ed(2) ok, of "\<lambda>f n. n"] obtain ed' where "win_step (\<lambda>f n. n) ed (OpSplit Vertical) = Some ed'"
    by blast
  with win_reach.command[OF win_reach.boot[OF ed(1)] ok] ed(1) show ?thesis by (simp add: two_windows_def)
qed

theorem focus_never_stranded_witness:
  "win_get (wtree two_windows) (wcurrent (wtree two_windows)) \<noteq> None"
  using focus_never_stranded[OF two_windows_reach] by (rule conjunct1)

text \<open>C16. On every state reached under \<open>op_ok\<close> (no split with a float focused, no float made tiled with
  another float focused) every command that \<open>op_ok\<close> admits there returns, and to such a state again:
  no lookup of a window that is gone, no loop over anchored floats that does not end, no closing of a
  location list that never bottoms out.\<close>

theorem window_commands_return:
  assumes "win_reach frac ed" and "op_ok ed op"
  shows "\<exists>ed'. win_step frac ed op = Some ed' \<and> win_reach frac ed'"
  using win_step_inv[OF win_reach_inv[OF assms(1)] assms(2), of frac] win_reach.command[OF assms] by blast

theorem window_commands_return_witness:
  "\<exists>ed'. win_step (\<lambda>f n. n) two_windows (OpClose 2) = Some ed' \<and> win_reach (\<lambda>f n. n) ed'"
  by (rule window_commands_return[OF two_windows_reach]) (simp add: op_ok_def)

text \<open>C17. On a state reached under \<open>op_ok\<close>, closing a window answers no exactly when it is not open or is the genuine last window, and then
  changes nothing. Closing one that shows no location list of its own, and is not the last tiled one,
  closes it and the floats anchored to it, directly or through others, and no other window; the focus
  moves, to a tiled window, only if it was on one of those.\<close>

theorem close_exact:
  assumes "win_reach frac ed"
  shows "\<exists>b ed'. remove_window frac i ed = Some (b, ed') \<and>
     (\<not> b \<longleftrightarrow> win_get (wtree ed) i = None \<or> last_window (wtree ed) i) \<and> (\<not> b \<longrightarrow> ed' = ed) \<and>
     (\<forall>w. win_get (wtree ed) i = Some w \<and> loclist_bufnr w = None \<and> (wfloat w = None \<longrightarrow> 1 < tiled_count (wtree ed)) \<longrightarrow>
       (\<forall>j. kinds (wtree ed') j = (if (i, j) \<in> (anchors (wtree ed))\<^sup>* then None else kinds (wtree ed) j)) \<and>
       (if (i, wcurrent (wtree ed)) \<in> (anchors (wtree ed))\<^sup>* then wcurrent (wtree ed') \<in> set (leaves_of (wtree ed'))
        else wcurrent (wtree ed') = wcurrent (wtree ed)))"
proof -
  have inv: "win_inv ed" by (rule win_reach_inv[OF assms])
  from remove_window_ok[OF inv, of frac i] obtain b ed' where r: "remove_window frac i ed = Some (b, ed')"
    "b \<longleftrightarrow> win_get (wtree ed) i \<noteq> None \<and> \<not> last_window (wtree ed) i" "\<not> b \<longrightarrow> ed' = ed" by blast
  have "remove_core frac i w ed = Some ed'"
    if w: "win_get (wtree ed) i = Some w" "loclist_bufnr w = None" "wfloat w = None \<longrightarrow> 1 < tiled_count (wtree ed)" for w
  proof -
    from remove_core_ok[OF inv w(1), of frac] w(3) obtain e where "remove_core frac i w ed = Some e" by auto
    moreover have "remove_window frac i ed = Some (True, e)"
      using w calculation by (subst remove_window.simps) auto
    ultimately show ?thesis using r(1) by simp
  qed
  with remove_core_ok[OF inv, of i _ frac] r show ?thesis by (intro exI[of _ b] exI[of _ ed']) fastforce
qed

lemma two_windows_state:
  "win_get (wtree two_windows) 2 = Some \<lparr>wbuf = 1, wrect = \<lparr>rx = 0, ry = 0, rwidth = 40, rheight = 24\<rparr>,
     wfloat = None, wfloat_pos = None, loclist_bufnr = None\<rparr>"
  "leaves_of (wtree two_windows) = [2, 1]" "wcurrent (wtree two_windows) = 2" "wfloats (wtree two_windows) = []"
  by code_simp+

theorem close_exact_witness:
  "\<exists>b ed'. remove_window (\<lambda>f n. n) 2 two_windows = Some (b, ed') \<and> b \<and>
     (\<forall>j. kinds (wtree ed') j = (if j = 2 then None else kinds (wtree two_windows) j)) \<and>
     wcurrent (wtree ed') \<in> set (leaves_of (wtree ed'))"
proof -
  have "anchors (wtree two_windows) = {}" by (simp add: anchors_def two_windows_state)
  then have anchored: "(2, j) \<in> (anchors (wtree two_windows))\<^sup>* \<longleftrightarrow> j = 2" for j by auto
  have more: "1 < tiled_count (wtree two_windows)" by (simp add: tiled_count_def two_windows_state)
  then have "\<not> last_window (wtree two_windows) 2" by (simp add: last_window_def)
  with close_exact[OF two_windows_reach, of 2] more show ?thesis
    by (fastforce simp: anchored two_windows_state)
qed

definition cycle_order :: "win_tree \<Rightarrow> nat list" where
  "cycle_order t = leaves_of t @ filter (\<lambda>f. case Option.bind (win_get t f) wfloat of
     Some c \<Rightarrow> focusable c | None \<Rightarrow> False) (wfloats t)"

lemma cycle_order_current [simp]: "cycle_order (t\<lparr>wcurrent := c\<rparr>) = cycle_order t"
  by (simp add: cycle_order_def leaves_of_def)

lemma position_nth: "distinct xs \<Longrightarrow> k < length xs \<Longrightarrow> position (\<lambda>x. x = xs ! k) xs = Some k"
proof (cases "position (\<lambda>x. x = xs ! k) xs")
  case (Some j)
  assume "distinct xs" "k < length xs"
  with position_Some[OF Some] Some show ?thesis by (auto simp: nth_eq_iff_index_eq)
qed (auto simp: position_None)

lemma focus_cycle_nth:
  assumes inv: "win_inv ed" and lock: "focus_lock ed = None" and k: "k < length (cycle_order (wtree ed))"
    and cur: "wcurrent (wtree ed) = cycle_order (wtree ed) ! k"
  shows "focus_cycle fw ed = ed\<lparr>wtree := (wtree ed)\<lparr>wcurrent := cycle_order (wtree ed) !
    (if fw then (k + 1) mod length (cycle_order (wtree ed))
     else (k + length (cycle_order (wtree ed)) - 1) mod length (cycle_order (wtree ed)))\<rparr>\<rparr>"
proof -
  let ?os = "cycle_order (wtree ed)" and ?n = "length (cycle_order (wtree ed))"
  have ok: "tree_ok (wtree ed)" using inv by (simp add: win_inv_def)
  have dist: "distinct ?os"
    using ok tree_ok_leaf[OF ok] tree_ok_float[OF ok] by (auto simp: cycle_order_def tree_ok_def)
  have focus: "focus_window (?os ! m) ed = ed\<lparr>wtree := (wtree ed)\<lparr>wcurrent := ?os ! m\<rparr>\<rparr>" if "m < ?n" for m
  proof -
    from nth_mem[OF that] have "?os ! m \<in> set (leaves_of (wtree ed)) \<union> set (wfloats (wtree ed))"
      by (auto simp: cycle_order_def)
    then have "win_get (wtree ed) (?os ! m) \<noteq> None" using ok by (auto simp: tree_ok_def)
    then show ?thesis using lock by (auto simp: focus_window_def)
  qed
  show ?thesis
  proof (cases "?n \<le> 1")
    case True
    with k have one: "?n = 1" "k = 0" by auto
    then have "focus_cycle fw ed = ed" by (simp add: focus_cycle_def Let_def cycle_order_def)
    with one cur show ?thesis by simp
  next
    case False
    then have "focus_cycle fw ed = focus_window (?os ! (if fw then (k + 1) mod ?n else (k + ?n - 1) mod ?n)) ed"
      using position_nth[OF dist k] cur by (simp add: focus_cycle_def Let_def flip: cycle_order_def)
    moreover have "0 < ?n" using k by linarith
    ultimately show ?thesis by (simp add: focus)
  qed
qed

lemma focus_cycle_iter:
  assumes "win_inv ed" and "focus_lock ed = None" and "k < length (cycle_order (wtree ed))"
    and "wcurrent (wtree ed) = cycle_order (wtree ed) ! k"
  shows "(focus_cycle True ^^ m) ed = ed\<lparr>wtree := (wtree ed)\<lparr>wcurrent :=
    cycle_order (wtree ed) ! ((k + m) mod length (cycle_order (wtree ed)))\<rparr>\<rparr>"
proof (induction m)
  case 0
  then show ?case using assms by simp
next
  case (Suc m)
  let ?n = "length (cycle_order (wtree ed))" and ?e = "(focus_cycle True ^^ m) ed"
  have inv: "win_inv ?e" by (induction m) (use assms(1) in \<open>auto intro: focus_cycle_inv\<close>)
  have "0 < ?n" using assms(3) by auto
  then have "focus_cycle True ?e = ?e\<lparr>wtree := (wtree ?e)\<lparr>wcurrent := cycle_order (wtree ?e) !
      (((k + m) mod ?n + 1) mod length (cycle_order (wtree ?e)))\<rparr>\<rparr>"
    using focus_cycle_nth[OF inv, of "(k + m) mod ?n" True] assms(2) by (simp add: Suc.IH)
  moreover have "((k + m) mod ?n + 1) mod ?n = (k + Suc m) mod ?n" by (simp add: mod_Suc_eq)
  ultimately show ?case using Suc.IH by simp
qed

text \<open>From any window of the cycle (the tiled ones in layout order, then the focusable floats), with
  no focus lock, \<open>n\<close> steps visit all \<open>n\<close> windows and come back, and a step backward takes back a
  step forward.\<close>

theorem cycle_visits_all:
  assumes "win_reach frac ed" and "focus_lock ed = None" and "wcurrent (wtree ed) \<in> set (cycle_order (wtree ed))"
  shows "(\<forall>i \<in> set (cycle_order (wtree ed)). \<exists>m < length (cycle_order (wtree ed)).
       wcurrent (wtree ((focus_cycle True ^^ m) ed)) = i) \<and>
    (focus_cycle True ^^ length (cycle_order (wtree ed))) ed = ed \<and>
    focus_cycle False (focus_cycle True ed) = ed"
proof -
  let ?os = "cycle_order (wtree ed)" and ?n = "length (cycle_order (wtree ed))"
  have inv: "win_inv ed" by (rule win_reach_inv[OF assms(1)])
  from assms(3) obtain k where k: "k < ?n" "wcurrent (wtree ed) = ?os ! k" by (metis in_set_conv_nth)
  note iter = focus_cycle_iter[OF inv assms(2) k]
  have "\<exists>m < ?n. wcurrent (wtree ((focus_cycle True ^^ m) ed)) = i" if "i \<in> set ?os" for i
  proof -
    from that obtain j where j: "j < ?n" "i = ?os ! j" by (metis in_set_conv_nth)
    have "(k + (j + ?n - k) mod ?n) mod ?n = (j + ?n) mod ?n"
      using k(1) by (simp add: mod_add_right_eq)
    with j have "wcurrent (wtree ((focus_cycle True ^^ ((j + ?n - k) mod ?n)) ed)) = i" by (simp add: iter)
    moreover have "(j + ?n - k) mod ?n < ?n" using k(1) by (intro mod_less_divisor) linarith
    ultimately show ?thesis by blast
  qed
  moreover have "(focus_cycle True ^^ ?n) ed = ed" using k by (simp add: iter)
  moreover have "focus_cycle False (focus_cycle True ed) = ed"
  proof -
    let ?k = "(k + 1) mod ?n" and ?e = "focus_cycle True ed"
    have e: "?e = ed\<lparr>wtree := (wtree ed)\<lparr>wcurrent := ?os ! ?k\<rparr>\<rparr>" using focus_cycle_nth[OF inv assms(2) k] by simp
    have "?k < ?n" using k(1) by (intro mod_less_divisor) linarith
    then have "focus_cycle False ?e = ?e\<lparr>wtree := (wtree ?e)\<lparr>wcurrent := ?os ! ((?k + ?n - 1) mod ?n)\<rparr>\<rparr>"
      using focus_cycle_nth[OF focus_cycle_inv[OF inv, of True], where k = ?k and fw = False] assms(2)
      unfolding e by simp
    moreover have "(?k + ?n - 1) mod ?n = k"
      using k(1) by (cases "k + 1 = ?n") (auto simp: mod_if)
    ultimately show ?thesis using e k(2) by simp
  qed
  ultimately show ?thesis by blast
qed

theorem cycle_visits_all_witness:
  "(focus_cycle True ^^ 2) two_windows = two_windows \<and> focus_cycle False (focus_cycle True two_windows) = two_windows"
proof -
  have "cycle_order (wtree two_windows) = [2, 1]" "focus_lock two_windows = None"
    by (simp add: cycle_order_def two_windows_state) code_simp
  with cycle_visits_all[OF two_windows_reach] show ?thesis by (simp add: two_windows_state numeral_2_eq_2)
qed

section \<open>Outside the callers' duty\<close>

text \<open>Splitting while a float is in focus: the float is no leaf, so the layout takes no new window;
  the new window has the focus and is in neither the layout nor the float list, so it is never
  given a rect.\<close>

definition crowded :: win_ed where
  "crowded = (win_start 1 True \<lparr>rx = 0, ry = 0, rwidth = 8, rheight = 4\<rparr> \<lparr>rx = 0, ry = 0, rwidth = 8, rheight = 4\<rparr>)
     \<lparr>next_win_id := 4,
      wtree := \<lparr>wins = [(1, tiled_window 1), (2, (tiled_window 1)\<lparr>wfloat := Some float_default\<rparr>),
                        (3, (tiled_window 1)\<lparr>wfloat := Some float_default\<rparr>)],
                wroot = Leaf 1, wcurrent = 3, wseps = [], wfloats = [2, 3]\<rparr>\<rparr>"

lemma crowded_inv: "win_inv crowded"
  by (auto simp: win_inv_def crowded_def tree_ok_def win_get_def leaves_of_def win_start_def tiled_window_def
      split: if_splits)

lemma split_of_float_orphans:
  "map_option (\<lambda>ed. (wcurrent (wtree ed), leaves_of (wtree ed) @ wfloats (wtree ed)))
     (win_split (\<lambda>f n. n) Vertical crowded) = Some (4, [1, 2, 3])"
proof -
  let ?e = "equalize_if (crowded\<lparr>next_win_id := 5, wtree := (wtree crowded)\<lparr>
    wins := bt_insert 4 (tiled_window 1) (wins (wtree crowded)),
    wroot := snd (split_leaf 3 Vertical 4 (wroot (wtree crowded))), wcurrent := 4\<rparr>\<rparr>)"
  have "wf_node (wroot (wtree ?e))" by (simp add: crowded_def equalize_if_def win_start_def)
  from relay_same[OF this, of "\<lambda>f n. n"] obtain t' where
    "relay (\<lambda>f n. n) ?e = Some (?e\<lparr>wtree := t'\<rparr>)" "same_windows (wtree ?e) t'" by blast
  moreover have "win_split (\<lambda>f n. n) Vertical crowded = relay (\<lambda>f n. n) ?e"
    by (simp add: win_split_def crowded_def win_get_def alloc_window_id_def tiled_window_def)
  ultimately show ?thesis
    by (simp add: same_windows_def leaves_of_def) (simp add: crowded_def equalize_if_def win_start_def)
qed

text \<open>Re-tiling a float while another float is in focus: it leaves the float list and joins no split.\<close>

lemma retile_orphans:
  "map_option (\<lambda>ed. (leaves_of (wtree ed) @ wfloats (wtree ed), win_get (wtree ed) 2 \<noteq> None))
     (convert_float_to_tiled (\<lambda>f n. n) 2 crowded) = Some ([1, 3], True)"
proof -
  let ?e = "crowded\<lparr>wtree := (wtree crowded)\<lparr>wfloats := [3],
    wins := bt_modify 2 (\<lambda>w. w\<lparr>wfloat := None\<rparr>) (wins (wtree crowded)), wroot := Leaf 1\<rparr>\<rparr>"
  have "wf_node (wroot (wtree ?e))" by simp
  from relay_same[OF this, of "\<lambda>f n. n"] obtain t' where
    r: "relay (\<lambda>f n. n) ?e = Some (?e\<lparr>wtree := t'\<rparr>)" "same_windows (wtree ?e) t'" by blast
  moreover have "convert_float_to_tiled (\<lambda>f n. n) 2 crowded = relay (\<lambda>f n. n) ?e"
    by (simp add: convert_float_to_tiled_def crowded_def win_get_def tiled_window_def)
  moreover have "win_get t' 2 \<noteq> None"
    using same_windows_get[OF r(2), of 2] by (auto simp: crowded_def bt_modify_lookup win_get_def)
  ultimately show ?thesis
    by (simp add: same_windows_def leaves_of_def)
qed

end
