(* ===== verification/Frame_Scan.thy ===== *)
theory Frame_Scan
  imports Prelude
begin

text \<open>
  The frame scanner of the RPC transport (\<open>crates/bemtvi-rpc/src/lib.rs\<close>): it walks the buffered
  bytes for one complete msgpack value without allocating, checks every declared size against its
  budget, and resumes where it stopped when more bytes arrive.

  The fixed arrays \<open>stack\<close> and \<open>budget\<close> with \<open>depth\<close> levels in use are one list of
  \<open>(owed, budget)\<close> pairs, the innermost level first; that the code's 128 slots suffice is the lemma
  \<open>scan_levels\<close>. Byte positions and the counts below \<open>2 ^ 33\<close> do not wrap.
\<close>

definition MAX_FRAME :: nat where "MAX_FRAME = 64 * 1024 * 1024"

definition MAX_DEPTH :: nat where "MAX_DEPTH = 128"

definition MAX_VALUES :: nat where "MAX_VALUES = 4194304"

datatype reject = RValues | RDepth | RPayload

datatype scan = Complete nat | Incomplete | TooLarge reject

record frame_scan =
  spos :: nat
  seen :: nat
  levels :: "(nat \<times> nat) list"

definition frame_scan_new :: frame_scan where
  "frame_scan_new = \<lparr>spos = 0, seen = 0, levels = [(1, MAX_DEPTH)]\<rparr>"

definition be_value :: "byte list \<Rightarrow> nat" where
  "be_value bs = foldl (\<lambda>acc b. acc * 256 + unat b) 0 bs"

definition read_be :: "byte list \<Rightarrow> nat \<Rightarrow> nat \<Rightarrow> nat option" where
  "read_be buf pos n =
     (if pos + n \<le> length buf then Some (be_value (take n (drop pos buf))) else None)"

text \<open>The marker table: how many units of depth a value charges, and what follows its marker:
  a fixed number of bytes; a length field of \<open>n\<close> bytes and the payload it declares, \<open>k\<close> more bytes
  with it; a container's count, in the marker or in a length field, \<open>f\<close> values per entry.\<close>

definition charge :: "byte \<Rightarrow> nat" where
  "charge marker =
     (let m = unat marker in
      if (0x90 \<le> m \<and> m \<le> 0x9f) \<or> m = 0xdc \<or> m = 0xdd \<or> (0x80 \<le> m \<and> m \<le> 0x8f) \<or> m = 0xde \<or> m = 0xdf
      then 2
      else if 0xc4 \<le> m \<and> m \<le> 0xc6 then 2
      else if (0xa0 \<le> m \<and> m \<le> 0xbf) \<or> (0xd9 \<le> m \<and> m \<le> 0xdb) \<or> (0xd4 \<le> m \<and> m \<le> 0xd8) \<or>
              (0xc7 \<le> m \<and> m \<le> 0xc9) then 3
      else 1)"

datatype header = Fixed nat | Payload nat nat | Container nat | Counted nat nat

definition header_of :: "byte \<Rightarrow> header" where
  "header_of marker =
     (let m = unat marker in
      if m \<le> 0x7f \<or> 0xe0 \<le> m \<or> (0xc0 \<le> m \<and> m \<le> 0xc3) then Fixed 0
      else if m \<in> {0xcc, 0xd0} then Fixed 1
      else if m \<in> {0xcd, 0xd1} then Fixed 2
      else if m \<in> {0xce, 0xd2, 0xca} then Fixed 4
      else if m \<in> {0xcf, 0xd3, 0xcb} then Fixed 8
      else if 0xa0 \<le> m \<and> m \<le> 0xbf then Fixed (m mod 32)
      else if m \<in> {0xd9, 0xc4} then Payload 1 0
      else if m \<in> {0xda, 0xc5} then Payload 2 0
      else if m \<in> {0xdb, 0xc6} then Payload 4 0
      else if 0x90 \<le> m \<and> m \<le> 0x9f then Container (m mod 16)
      else if m = 0xdc then Counted 2 1
      else if m = 0xdd then Counted 4 1
      else if 0x80 \<le> m \<and> m \<le> 0x8f then Container (m mod 16 * 2)
      else if m = 0xde then Counted 2 2
      else if m = 0xdf then Counted 4 2
      else if m = 0xd4 then Fixed 2
      else if m = 0xd5 then Fixed 3
      else if m = 0xd6 then Fixed 5
      else if m = 0xd7 then Fixed 9
      else if m = 0xd8 then Fixed 17
      else if m = 0xc7 then Payload 1 1
      else if m = 0xc8 then Payload 2 1
      else Payload 4 1)"

text \<open>What follows the marker at \<open>pos\<close>: \<open>None\<close> when it is not all buffered, else the position
  after it and the values of a container. An oversized payload is a rejection.\<close>

definition walk_header ::
  "byte list \<Rightarrow> nat \<Rightarrow> header \<Rightarrow> reject + (nat \<times> nat option) option" where
  "walk_header buf pos h =
     (case h of
        Fixed n \<Rightarrow> if pos + n \<le> length buf then Inr (Some (pos + n, None)) else Inr None
      | Payload n k \<Rightarrow>
          (case read_be buf pos n of
             None \<Rightarrow> Inr None
           | Some len \<Rightarrow>
               if MAX_FRAME < len then Inl RPayload
               else if pos + n + k + len \<le> length buf then Inr (Some (pos + n + k + len, None))
               else Inr None)
      | Container c \<Rightarrow> Inr (Some (pos, Some c))
      | Counted n f \<Rightarrow>
          (case read_be buf pos n of None \<Rightarrow> Inr None | Some len \<Rightarrow> Inr (Some (pos + n, Some (len * f)))))"

lemma walk_header_pos: "walk_header buf p h = Inr (Some (q, c)) \<Longrightarrow> p \<le> q"
  by (auto simp: walk_header_def split: header.splits if_splits option.splits)

text \<open>The loop. Whatever is missing, the claim of the value is undone: the state kept is the one before
  its marker was read.\<close>

function scan_loop :: "byte list \<Rightarrow> frame_scan \<Rightarrow> scan \<times> frame_scan option" where
  "scan_loop buf st =
     (case levels st of
        [] \<Rightarrow> (Complete (spos st), None)
      | (owed, b) # ls \<Rightarrow>
          if owed = 0 then scan_loop buf (st\<lparr>levels := ls\<rparr>)
          else if MAX_VALUES < seen st + 1 then (TooLarge RValues, None)
          else if length buf \<le> spos st then (Incomplete, Some st)
          else
            let marker = buf ! spos st in
            if b < charge marker then (TooLarge RDepth, None)
            else
              (case walk_header buf (spos st + 1) (header_of marker) of
                 Inl r \<Rightarrow> (TooLarge r, None)
               | Inr None \<Rightarrow> (Incomplete, Some st)
               | Inr (Some (p, None)) \<Rightarrow>
                   scan_loop buf (st\<lparr>spos := p, seen := seen st + 1, levels := (owed - 1, b) # ls\<rparr>)
               | Inr (Some (p, Some count)) \<Rightarrow>
                   if MAX_VALUES < seen st + 1 + count then (TooLarge RValues, None)
                   else scan_loop buf (st\<lparr>spos := p, seen := seen st + 1,
                          levels := (count, b - 2) # (owed - 1, b) # ls\<rparr>)))"
  by pat_completeness auto

termination
  by (relation "measures [\<lambda>(buf, st). length buf - spos st, \<lambda>(buf, st). length (levels st)]")
     (auto dest: walk_header_pos)

declare scan_loop.simps [simp del]

definition scan_frame :: "byte list \<Rightarrow> frame_scan option \<Rightarrow> scan \<times> frame_scan option" where
  "scan_frame buf state =
     scan_loop buf (case state of Some st \<Rightarrow> st | None \<Rightarrow> frame_scan_new)"

end
