(* ===== verification/Rpc.thy ===== *)
theory Rpc
  imports Frame_Scan
begin

text \<open>
  The RPC connection (\<open>crates/bemtvi-rpc/src/lib.rs\<close>): the checked encoding of outbound frames, the
  reader's loop over reads of any size, the dispatch of decoded messages and the life of a request
  from its registration to its answer.

  The msgpack codec is the crate \<open>rmpv\<close>: its encoder \<open>enc\<close> and its decoder \<open>dec\<close> are arguments.
  Tasks run concurrently; each operation below is one of their atomic sections (what happens under
  the lock of the pending map, or one send on a channel). A request id does not wrap.
\<close>

section \<open>Values and the outbound budget\<close>

text \<open>\<open>rmpv::Value\<close>; a string that is not UTF-8 has no text.\<close>

datatype msg_value =
    VNil
  | VBool bool
  | VInt int
  | VFloat "64 word"
  | VStr "ustring option"
  | VBin "byte list"
  | VArr "msg_value list"
  | VMap "(msg_value \<times> msg_value) list"
  | VExt int "byte list"

definition as_u64 :: "msg_value \<Rightarrow> nat option" where
  "as_u64 v = (case v of VInt n \<Rightarrow> if 0 \<le> n then Some (nat n) else None | _ \<Rightarrow> None)"

function (sequential) within_value_budget :: "msg_value \<Rightarrow> nat \<Rightarrow> bool \<times> nat"
and within_values :: "msg_value list \<Rightarrow> nat \<Rightarrow> bool \<times> nat"
and within_entries :: "(msg_value \<times> msg_value) list \<Rightarrow> nat \<Rightarrow> bool \<times> nat"
where
  "within_value_budget (VArr items) budget =
     (if budget = 0 then (False, budget) else within_values items (budget - 1))"
| "within_value_budget (VMap entries) budget =
     (if budget = 0 then (False, budget) else within_entries entries (budget - 1))"
| "within_value_budget v budget = (if budget = 0 then (False, budget) else (True, budget - 1))"
| "within_values [] budget = (True, budget)"
| "within_values (v # vs) budget =
     (let (ok, budget) = within_value_budget v budget in
      if ok then within_values vs budget else (False, budget))"
| "within_entries [] budget = (True, budget)"
| "within_entries ((k, v) # es) budget =
     (let (ok, budget) = within_value_budget k budget in
      if \<not> ok then (False, budget)
      else let (ok, budget) = within_value_budget v budget in
        if ok then within_entries es budget else (False, budget))"
  by pat_completeness auto

termination
  by (relation "measure (case_sum (\<lambda>(v, b). size v)
        (case_sum (\<lambda>(vs, b). size_list size vs) (\<lambda>(es, b). size_list (size_prod size size) es)))") simp_all

definition encode_checked :: "(msg_value \<Rightarrow> byte list) \<Rightarrow> msg_value \<Rightarrow> ustring + byte list" where
  "encode_checked enc v =
     (if \<not> fst (within_value_budget v MAX_VALUES)
      then Inl (us ''holds more than '' @ show_nat MAX_VALUES @
                us '' msgpack values (the per-frame value limit)'')
      else let buf = enc v in
        if MAX_FRAME < length buf
        then Inl (us ''encodes to '' @ show_nat (length buf) @ us '' bytes, over the '' @
                  show_nat MAX_FRAME @ us ''-byte frame limit'')
        else Inr buf)"

definition notification :: "(msg_value \<Rightarrow> byte list) \<Rightarrow> ustring \<Rightarrow> msg_value list \<Rightarrow> ustring + byte list" where
  "notification enc name params = encode_checked enc (VArr [VInt 2, VStr (Some name), VArr params])"

section \<open>The connection\<close>

datatype incoming = Request nat ustring "msg_value list" | Notification ustring "msg_value list"

text \<open>A request's oneshot: nothing sent yet, a reply sent (\<open>Inl\<close> an error), or the sender dropped.\<close>

datatype mail = Unsent | Delivered "msg_value + msg_value" | Dropped

datatype outcome = Answer msg_value | RpcError msg_value | ConnClosed | FrameTooLarge ustring | Cancelled

datatype phase = Registered | Sent | Finished outcome

record rpc_call =
  phase :: phase
  mail :: mail

record rpc_conn =
  next_id :: nat
  pending :: "nat list option"
  calls :: "nat \<Rightarrow> rpc_call option"
  out_open :: bool
  outq :: "byte list list"
  consumer_gone :: bool
  inq :: "incoming list"

definition rpc_connect :: rpc_conn where
  "rpc_connect = \<lparr>next_id = 1, pending = Some [], calls = (\<lambda>_. None), out_open = True, outq = [],
     consumer_gone = False, inq = []\<rparr>"

definition set_mail :: "mail \<Rightarrow> nat \<Rightarrow> rpc_conn \<Rightarrow> rpc_conn" where
  "set_mail m i c = c\<lparr>calls := (calls c)(i := map_option (\<lambda>x. x\<lparr>mail := m\<rparr>) (calls c i))\<rparr>"

definition set_phase :: "phase \<Rightarrow> nat \<Rightarrow> rpc_conn \<Rightarrow> rpc_conn" where
  "set_phase p i c = c\<lparr>calls := (calls c)(i := map_option (\<lambda>x. x\<lparr>phase := p\<rparr>) (calls c i))\<rparr>"

text \<open>\<open>map.remove(&id)\<close>: the sender taken out is dropped, unless the caller sends on it first.\<close>

definition drop_pending :: "nat \<Rightarrow> rpc_conn \<Rightarrow> rpc_conn" where
  "drop_pending i c =
     (case pending c of
        Some ids \<Rightarrow>
          if i \<in> set ids then set_mail Dropped i (c\<lparr>pending := Some (removeAll i ids)\<rparr>) else c
      | None \<Rightarrow> c)"

section \<open>Requests\<close>

text \<open>\<open>request\<close> up to the end of its lock.\<close>

definition rpc_register :: "rpc_conn \<Rightarrow> rpc_conn" where
  "rpc_register c =
     (let i = next_id c; c = c\<lparr>next_id := next_id c + 1\<rparr> in
      case pending c of
        Some ids \<Rightarrow> c\<lparr>pending := Some (i # removeAll i ids),
                       calls := (calls c)(i \<mapsto> \<lparr>phase = Registered, mail = Unsent\<rparr>)\<rparr>
      | None \<Rightarrow> c\<lparr>calls := (calls c)(i \<mapsto> \<lparr>phase = Finished ConnClosed, mail = Dropped\<rparr>)\<rparr>)"

text \<open>\<open>request\<close> from there to its await; an early return drops the guard, which takes the sender out.\<close>

definition rpc_submit ::
  "(msg_value \<Rightarrow> byte list) \<Rightarrow> nat \<Rightarrow> ustring \<Rightarrow> msg_value list \<Rightarrow> rpc_conn \<Rightarrow> rpc_conn" where
  "rpc_submit enc i name params c =
     (if map_option phase (calls c i) \<noteq> Some Registered then c
      else case encode_checked enc (VArr [VInt 0, VInt (int i), VStr (Some name), VArr params]) of
        Inl why \<Rightarrow> set_phase (Finished (FrameTooLarge why)) i (drop_pending i c)
      | Inr bytes \<Rightarrow>
          if out_open c then set_phase Sent i (c\<lparr>outq := outq c @ [bytes]\<rparr>)
          else set_phase (Finished ConnClosed) i (drop_pending i c))"

text \<open>The await polled: it ends once a reply is there or the sender is gone.\<close>

definition rpc_poll :: "nat \<Rightarrow> rpc_conn \<Rightarrow> rpc_conn" where
  "rpc_poll i c =
     (case calls c i of
        None \<Rightarrow> c
      | Some call \<Rightarrow>
          if phase call \<noteq> Sent then c
          else case mail call of
            Unsent \<Rightarrow> c
          | Delivered (Inr v) \<Rightarrow> set_phase (Finished (Answer v)) i (drop_pending i c)
          | Delivered (Inl e) \<Rightarrow> set_phase (Finished (RpcError e)) i (drop_pending i c)
          | Dropped \<Rightarrow> set_phase (Finished ConnClosed) i (drop_pending i c))"

text \<open>The caller drops the future.\<close>

definition rpc_cancel :: "nat \<Rightarrow> rpc_conn \<Rightarrow> rpc_conn" where
  "rpc_cancel i c =
     (case map_option phase (calls c i) of
        Some Registered \<Rightarrow> set_phase (Finished Cancelled) i (drop_pending i c)
      | Some Sent \<Rightarrow> set_phase (Finished Cancelled) i (drop_pending i c)
      | _ \<Rightarrow> c)"

definition send_out :: "byte list \<Rightarrow> rpc_conn \<Rightarrow> rpc_conn" where
  "send_out bytes c = (if out_open c then c\<lparr>outq := outq c @ [bytes]\<rparr> else c)"

definition rpc_notify ::
  "(msg_value \<Rightarrow> byte list) \<Rightarrow> ustring \<Rightarrow> msg_value list \<Rightarrow> rpc_conn \<Rightarrow> rpc_conn" where
  "rpc_notify enc name params c =
     (case notification enc name params of Inl why \<Rightarrow> c | Inr bytes \<Rightarrow> send_out bytes c)"

definition rpc_respond ::
  "(msg_value \<Rightarrow> byte list) \<Rightarrow> nat \<Rightarrow> msg_value + msg_value \<Rightarrow> rpc_conn \<Rightarrow> rpc_conn" where
  "rpc_respond enc i result c =
     (let (err, res) = (case result of Inr v \<Rightarrow> (VNil, v) | Inl e \<Rightarrow> (e, VNil)) in
      case encode_checked enc (VArr [VInt 1, VInt (int i), err, res]) of
        Inl why \<Rightarrow> send_out (enc (VArr [VInt 1, VInt (int i),
          VStr (Some (us ''response frame exceeds the rpc limit: it '' @ why)), VNil])) c
      | Inr bytes \<Rightarrow> send_out bytes c)"

section \<open>Teardown\<close>

text \<open>\<open>take()\<close> on the pending map drops every sender in it (\<open>connect\<close>'s cleanup) \<dots>\<close>

definition rpc_teardown :: "rpc_conn \<Rightarrow> rpc_conn" where
  "rpc_teardown c =
     (case pending c of
        Some ids \<Rightarrow> fold (set_mail Dropped) ids (c\<lparr>pending := None, out_open := False\<rparr>)
      | None \<Rightarrow> c\<lparr>out_open := False\<rparr>)"

text \<open>\<dots> or, on a frame the reader refuses, after the reason was sent on each.\<close>

definition refuse_peer :: "ustring \<Rightarrow> rpc_conn \<Rightarrow> rpc_conn" where
  "refuse_peer why c =
     (let msg = us ''bemtvi-rpc: closing the connection: '' @ why in
      case pending c of
        Some ids \<Rightarrow> fold (set_mail (Delivered (Inl (VStr (Some msg))))) ids (c\<lparr>pending := None\<rparr>)
      | None \<Rightarrow> c)"

definition reject_text :: "reject \<Rightarrow> ustring" where
  "reject_text r =
     (case r of
        RValues \<Rightarrow> us ''declares more than '' @ show_nat MAX_VALUES @
                   us '' msgpack values (the per-frame value limit)''
      | RDepth \<Rightarrow> us ''nests past the '' @ show_nat MAX_DEPTH @ us ''-unit depth limit''
      | RPayload \<Rightarrow> us ''declares a str/bin/ext payload over the '' @ show_nat MAX_FRAME @
                    us ''-byte frame limit'')"

section \<open>Inbound\<close>

definition take_at :: "msg_value list \<Rightarrow> nat \<Rightarrow> msg_value \<times> msg_value list" where
  "take_at arr i = (if i < length arr then (arr ! i, arr[i := VNil]) else (VNil, arr))"

definition take_params :: "msg_value list \<Rightarrow> nat \<Rightarrow> msg_value list" where
  "take_params arr i = (case fst (take_at arr i) of VArr p \<Rightarrow> p | _ \<Rightarrow> [])"

definition take_str :: "msg_value list \<Rightarrow> nat \<Rightarrow> ustring" where
  "take_str arr i = (case fst (take_at arr i) of VStr (Some s) \<Rightarrow> s | _ \<Rightarrow> [])"

definition push_in :: "incoming \<Rightarrow> rpc_conn \<Rightarrow> bool \<times> rpc_conn" where
  "push_in m c = (if consumer_gone c then (False, c) else (True, c\<lparr>inq := inq c @ [m]\<rparr>))"

definition nth_u64 :: "msg_value list \<Rightarrow> nat \<Rightarrow> nat option" where
  "nth_u64 arr i = (if i < length arr then as_u64 (arr ! i) else None)"

definition or_zero :: "nat option \<Rightarrow> nat" where
  "or_zero n = (case n of Some n \<Rightarrow> n | None \<Rightarrow> 0)"

text \<open>Taking a field out leaves \<open>VNil\<close> in its place, which no later field of the same frame reads.\<close>

definition rpc_dispatch :: "msg_value \<Rightarrow> rpc_conn \<Rightarrow> bool \<times> rpc_conn" where
  "rpc_dispatch v c =
     (case v of
        VArr arr \<Rightarrow>
          (case nth_u64 arr 0 of
             Some k \<Rightarrow>
               if k = 0 then
                 push_in (Request (or_zero (nth_u64 arr 1)) (take_str arr 2)
                   (take_params (snd (take_at arr 2)) 3)) c
               else if k = 1 then
                 (let i = or_zero (nth_u64 arr 1); (err, arr) = take_at arr 2; (res, arr) = take_at arr 3 in
                  case pending c of
                    Some ids \<Rightarrow>
                      if i \<in> set ids
                      then (True, set_mail (Delivered (if err = VNil then Inr res else Inl err)) i
                                    (c\<lparr>pending := Some (removeAll i ids)\<rparr>))
                      else (True, c)
                  | None \<Rightarrow> (True, c))
               else if k = 2 then
                 push_in (Notification (take_str arr 1) (take_params (snd (take_at arr 1)) 2)) c
               else (True, c)
           | None \<Rightarrow> (True, c))
      | _ \<Rightarrow> (True, c))"

section \<open>The reader\<close>

datatype reader = Reading "byte list" "frame_scan option" | Ended

text \<open>Every complete frame of the buffer; the loop ends at the incomplete tail or with the connection.\<close>

partial_function (option) rpc_drain ::
  "(byte list \<Rightarrow> ustring + msg_value) \<Rightarrow> byte list \<Rightarrow> frame_scan option \<Rightarrow> rpc_conn \<Rightarrow> (reader \<times> rpc_conn) option"
where
  "rpc_drain dec buf s c =
     (case scan_frame buf s of
        (Complete n, s) \<Rightarrow>
          (case dec (take n buf) of
             Inl e \<Rightarrow> Some (Ended, refuse_peer (us ''undecodable inbound frame: '' @ e) c)
           | Inr v \<Rightarrow>
               (case rpc_dispatch v c of
                  (ok, c) \<Rightarrow> if ok then rpc_drain dec (drop n buf) s c else Some (Ended, c)))
      | (Incomplete, s) \<Rightarrow> Some (Reading buf s, c)
      | (TooLarge why, s) \<Rightarrow> Some (Ended, refuse_peer (us ''inbound frame '' @ reject_text why) c))"

lemmas [code] = rpc_drain.simps

text \<open>One read of the reader's loop: the chunk is appended, the buffer drained, its tail bounded.\<close>

definition rpc_read ::
  "(byte list \<Rightarrow> ustring + msg_value) \<Rightarrow> byte list \<Rightarrow> reader \<times> rpc_conn \<Rightarrow> (reader \<times> rpc_conn) option" where
  "rpc_read dec chunk = (\<lambda>(rd, c).
     case rd of
       Ended \<Rightarrow> Some (Ended, c)
     | Reading buf s \<Rightarrow>
         map_option (\<lambda>(rd, c).
           case rd of
             Reading buf s \<Rightarrow>
               if MAX_FRAME < length buf
               then (Ended, refuse_peer (us ''inbound frame grew past the '' @ show_nat MAX_FRAME @
                       us ''-byte frame limit'') c)
               else (rd, c)
           | Ended \<Rightarrow> (rd, c))
         (rpc_drain dec (buf @ chunk) s c))"

fun rpc_reads ::
  "(byte list \<Rightarrow> ustring + msg_value) \<Rightarrow> byte list list \<Rightarrow> reader \<times> rpc_conn \<Rightarrow> (reader \<times> rpc_conn) option" where
  "rpc_reads dec [] st = Some st"
| "rpc_reads dec (chunk # chunks) st = Option.bind (rpc_read dec chunk st) (rpc_reads dec chunks)"

end
