(* ===== verification/Frame_Props.thy ===== *)
theory Frame_Props
  imports Frame_Scan
begin

text \<open>
  The frame scanner against the grammar of the wire: what it accepts, and that it does not matter
  in how many reads the bytes arrive.
\<close>

section \<open>The grammar\<close>

text \<open>\<open>wire b bs k\<close>: \<open>bs\<close> is one msgpack value of \<open>k\<close> values in all whose containers nest within the
  depth budget \<open>b\<close> and whose payloads are within the frame limit; \<open>wires b n bs k\<close>: \<open>n\<close> of them.\<close>

inductive wire :: "nat \<Rightarrow> byte list \<Rightarrow> nat \<Rightarrow> bool"
  and wires :: "nat \<Rightarrow> nat \<Rightarrow> byte list \<Rightarrow> nat \<Rightarrow> bool"
where
  fixed: "charge m \<le> b \<Longrightarrow> header_of m = Fixed n \<Longrightarrow> length pl = n \<Longrightarrow> wire b (m # pl) 1"
| payload: "charge m \<le> b \<Longrightarrow> header_of m = Payload n x \<Longrightarrow> length lf = n \<Longrightarrow> be_value lf \<le> MAX_FRAME \<Longrightarrow>
    length pl = x + be_value lf \<Longrightarrow> wire b (m # lf @ pl) 1"
| container: "charge m \<le> b \<Longrightarrow> header_of m = Container c \<Longrightarrow> wires (b - 2) c body k \<Longrightarrow> wire b (m # body) (k + 1)"
| counted: "charge m \<le> b \<Longrightarrow> header_of m = Counted n f \<Longrightarrow> length lf = n \<Longrightarrow>
    wires (b - 2) (be_value lf * f) body k \<Longrightarrow> wire b (m # lf @ body) (k + 1)"
| wires_nil: "wires b 0 [] 0"
| wires_cons: "wire b xs j \<Longrightarrow> wires b n ys k \<Longrightarrow> wires b (Suc n) (xs @ ys) (j + k)"

inductive_cases wires_0E: "wires b 0 bs k"
inductive_cases wires_SucE: "wires b (Suc n) bs k"
inductive_cases wireE: "wire b bs k"

text \<open>What the levels of a scan still owe.\<close>

inductive owes :: "(nat \<times> nat) list \<Rightarrow> byte list \<Rightarrow> nat \<Rightarrow> bool" where
  owes_nil: "owes [] [] 0"
| owes_cons: "wires b owed xs j \<Longrightarrow> owes ls ys k \<Longrightarrow> owes ((owed, b) # ls) (xs @ ys) (j + k)"

inductive_cases owes_nilE: "owes [] bs k"
inductive_cases owes_consE: "owes ((owed, b) # ls) bs k"

lemma wire_count: "wire b bs k \<Longrightarrow> 1 \<le> k"
  and wires_count: "wires b n bs k \<Longrightarrow> n \<le> k"
  by (induction rule: wire_wires.inducts) auto

lemma wire_nonempty: "wire b bs k \<Longrightarrow> bs \<noteq> []"
  by (auto elim: wireE)

lemma owes_pop: "owes ls bs k \<Longrightarrow> owes ((0, b) # ls) bs k"
  using owes_cons[OF wires_nil] by fastforce

text \<open>One value more at the innermost level, its header walked.\<close>

lemma owes_fixed:
  assumes "wire b xs 1" and "owes ((owed, b) # ls) ys k"
  shows "owes ((Suc owed, b) # ls) (xs @ ys) (k + 1)"
proof -
  from assms(2) obtain us j vs i where u: "ys = us @ vs" "k = j + i" "wires b owed us j" "owes ls vs i"
    by (auto elim: owes_consE)
  from owes_cons[OF wires_cons[OF assms(1) u(3)] u(4)] u(1,2) show ?thesis by (simp add: add_ac)
qed

lemma owes_container:
  assumes wire: "\<And>body j. wires (b - 2) count body j \<Longrightarrow> wire b (xs @ body) (j + 1)"
    and "owes ((count, b - 2) # (owed, b) # ls) ys k"
  shows "owes ((Suc owed, b) # ls) (xs @ ys) (k + 1)"
proof -
  from assms(2) obtain us j vs i where u: "ys = us @ vs" "k = j + i" "wires (b - 2) count us j"
    "owes ((owed, b) # ls) vs i" by (auto elim: owes_consE)
  from u(4) obtain ps p qs q where v: "vs = ps @ qs" "i = p + q" "wires b owed ps p" "owes ls qs q"
    by (auto elim: owes_consE)
  from owes_cons[OF wires_cons[OF wire[OF u(3)] v(3)] v(4)] u(1,2) v(1,2) show ?thesis
    by (simp add: add_ac)
qed

section \<open>Accepting exactly the grammar\<close>

lemma walk_header_spec:
  assumes "walk_header buf p h = Inr (Some (q, c))" and "p \<le> length buf"
  shows "q \<le> length buf \<and> p \<le> q \<and>
    (case h of
       Fixed n \<Rightarrow> c = None \<and> q = p + n
     | Payload n x \<Rightarrow> c = None \<and> be_value (take n (drop p buf)) \<le> MAX_FRAME \<and>
         q = p + n + x + be_value (take n (drop p buf))
     | Container m \<Rightarrow> c = Some m \<and> q = p
     | Counted n f \<Rightarrow> c = Some (be_value (take n (drop p buf)) * f) \<and> q = p + n)"
  using assms by (auto simp: walk_header_def read_be_def split: header.splits if_splits)

lemma take_take_drop: "a \<le> b \<Longrightarrow> b \<le> length xs \<Longrightarrow> take (b - p) (drop p xs) = take (a - p) (drop p xs) @ take (b - a) (drop a xs)"
  if "p \<le> a" for xs :: "'a list"
proof -
  assume "a \<le> b" "b \<le> length xs"
  with that have "b - p = (a - p) + (b - a)" by simp
  with that show ?thesis by (metis add.commute drop_drop le_add_diff_inverse2 take_add)
qed

lemma step_fixed_wire:
  assumes walk: "walk_header buf (p + 1) (header_of (buf ! p)) = Inr (Some (q, None))"
    and p: "p < length buf" and b: "charge (buf ! p) \<le> b"
  shows "wire b (take (q - p) (drop p buf)) 1"
proof -
  let ?m = "buf ! p" and ?r = "drop (p + 1) buf"
  have q: "p + 1 \<le> q" "q \<le> length buf" using walk_header_spec[OF walk] p by auto
  have "take (q - p) (drop p buf) = take 1 (drop p buf) @ take (q - (p + 1)) ?r"
    using take_take_drop[of p "p + 1" q buf] q by simp
  also have "take 1 (drop p buf) = [?m]" using p by (simp add: take_Suc_conv_app_nth hd_drop_conv_nth take_Suc)
  finally have bytes: "take (q - p) (drop p buf) = ?m # take (q - (p + 1)) ?r" by simp
  have len: "length (take (q - (p + 1)) ?r) = q - (p + 1)" using q by simp
  show ?thesis
  proof (cases "header_of ?m")
    case (Fixed n)
    with walk_header_spec[OF walk] p have "q = p + 1 + n" by simp
    with Fixed len b show ?thesis unfolding bytes by (intro wire_wires.fixed) simp_all
  next
    case (Payload n x)
    let ?lf = "take n ?r"
    from Payload walk_header_spec[OF walk] p have s: "be_value ?lf \<le> MAX_FRAME" "q = p + 1 + n + x + be_value ?lf"
      by simp_all
    have "take (q - (p + 1)) ?r = ?lf @ take (x + be_value ?lf) (drop n ?r)"
      using s(2) by (simp add: take_add add.assoc)
    moreover have "n \<le> length ?r" "x + be_value ?lf \<le> length (drop n ?r)" using q s(2) by simp_all
    ultimately show ?thesis unfolding bytes
      using wire_wires.payload[OF b Payload, of ?lf "take (x + be_value ?lf) (drop n ?r)"] s(1) by simp
  qed (use walk_header_spec[OF walk] p in simp_all)
qed

lemma step_container_wire:
  assumes walk: "walk_header buf (p + 1) (header_of (buf ! p)) = Inr (Some (q, Some c))"
    and p: "p < length buf" and b: "charge (buf ! p) \<le> b" and body: "wires (b - 2) c body j"
  shows "wire b (take (q - p) (drop p buf) @ body) (j + 1)"
proof -
  let ?m = "buf ! p" and ?r = "drop (p + 1) buf"
  have q: "p + 1 \<le> q" "q \<le> length buf" using walk_header_spec[OF walk] p by auto
  have "take (q - p) (drop p buf) = take 1 (drop p buf) @ take (q - (p + 1)) ?r"
    using take_take_drop[of p "p + 1" q buf] q by simp
  also have "take 1 (drop p buf) = [?m]" using p by (simp add: take_Suc_conv_app_nth hd_drop_conv_nth take_Suc)
  finally have bytes: "take (q - p) (drop p buf) = ?m # take (q - (p + 1)) ?r" by simp
  show ?thesis
  proof (cases "header_of ?m")
    case (Container n)
    with walk_header_spec[OF walk] p have "q = p + 1" "c = n" by simp_all
    with bytes show ?thesis using wire_wires.container[OF b Container] body by simp
  next
    case (Counted n f)
    let ?lf = "take n ?r"
    from Counted walk_header_spec[OF walk] p have s: "c = be_value ?lf * f" "q = p + 1 + n" by simp_all
    have "length ?lf = n" using q s(2) by simp
    with bytes s show ?thesis using wire_wires.counted[OF b Counted, of ?lf body j] body by simp
  qed (use walk_header_spec[OF walk] p in simp_all)
qed

text \<open>The loop's equations by what the innermost level owes, and their induction.\<close>

lemma scan_done: "levels st = [] \<Longrightarrow> scan_loop buf st = (Complete (spos st), None)"
  by (subst scan_loop.simps) simp

lemma scan_pop: "levels st = (0, b) # ls \<Longrightarrow> scan_loop buf st = scan_loop buf (st\<lparr>levels := ls\<rparr>)"
  by (subst scan_loop.simps) simp

definition next_value :: "frame_scan \<Rightarrow> nat \<Rightarrow> (nat \<times> nat) list \<Rightarrow> nat option \<Rightarrow> nat \<Rightarrow> nat \<Rightarrow> frame_scan" where
  "next_value st q ls c owed b =
     st\<lparr>spos := q, seen := seen st + 1,
        levels := (case c of None \<Rightarrow> (owed, b) # ls | Some n \<Rightarrow> (n, b - 2) # (owed, b) # ls)\<rparr>"

lemma scan_item:
  assumes "levels st = (Suc owed, b) # ls"
  shows "scan_loop buf st =
     (if MAX_VALUES < seen st + 1 then (TooLarge RValues, None)
      else if length buf \<le> spos st then (Incomplete, Some st)
      else if b < charge (buf ! spos st) then (TooLarge RDepth, None)
      else case walk_header buf (spos st + 1) (header_of (buf ! spos st)) of
        Inl r \<Rightarrow> (TooLarge r, None)
      | Inr None \<Rightarrow> (Incomplete, Some st)
      | Inr (Some (q, c)) \<Rightarrow>
          if MAX_VALUES < seen st + 1 + (case c of None \<Rightarrow> 0 | Some n \<Rightarrow> n) then (TooLarge RValues, None)
          else scan_loop buf (next_value st q ls c owed b))"
  using assms by (subst scan_loop.simps) (auto simp: Let_def next_value_def split: sum.splits option.splits prod.splits)

lemma scan_induct [case_names empty pop item]:
  assumes "\<And>st. levels st = [] \<Longrightarrow> P st"
    and "\<And>st b ls. levels st = (0, b) # ls \<Longrightarrow> P (st\<lparr>levels := ls\<rparr>) \<Longrightarrow> P st"
    and "\<And>st owed b ls. levels st = (Suc owed, b) # ls \<Longrightarrow>
      (\<And>st'. spos st < spos st' \<Longrightarrow> spos st' \<le> length buf \<Longrightarrow> P st') \<Longrightarrow> P st"
  shows "P (st :: frame_scan)"
proof (induction "length buf - spos st" arbitrary: st rule: less_induct)
  case less
  then show ?case
  proof (induction "levels st" arbitrary: st)
    case Nil
    then show ?case using assms(1) by simp
  next
    case (Cons l ls)
    obtain owed b where l: "l = (owed, b)" by (cases l)
    show ?case
    proof (cases owed)
      case 0
      have "P (st\<lparr>levels := ls\<rparr>)" by (rule Cons.hyps(1)) (simp_all add: Cons.prems)
      with 0 l Cons.hyps(2)[symmetric] show ?thesis using assms(2)[of st b ls] by simp
    next
      case (Suc n)
      show ?thesis
        by (rule assms(3)[of st n b ls]) (use Suc l Cons.hyps(2) Cons.prems in auto)
    qed
  qed
qed

text \<open>One step over a value: past its marker, inside the buffer.\<close>

lemma walk_bounds:
  assumes "walk_header buf (p + 1) h = Inr (Some (q, c))" and "p < length buf"
  shows "p < q" "q \<le> length buf"
  using walk_header_spec[OF assms(1)] assms(2) by auto

lemma next_value_wire:
  assumes walk: "walk_header buf (p + 1) (header_of (buf ! p)) = Inr (Some (q, c))"
    and p: "p < length buf" and b: "charge (buf ! p) \<le> b" and st: "spos st = p"
    and owes: "owes (levels (next_value st q ls c owed b)) bs k"
  shows "owes ((Suc owed, b) # ls) (take (q - p) (drop p buf) @ bs) (k + 1)"
proof (cases c)
  case None
  with owes have o: "owes ((owed, b) # ls) bs k" by (simp add: next_value_def)
  have "wire b (take (q - p) (drop p buf)) 1" using step_fixed_wire walk p b None by simp
  from owes_fixed[OF this o] show ?thesis .
next
  case (Some n)
  with owes have o: "owes ((n, b - 2) # (owed, b) # ls) bs k" by (simp add: next_value_def)
  have "wire b (take (q - p) (drop p buf) @ body) (j + 1)" if "wires (b - 2) n body j" for body j
    using step_container_wire walk p b Some that by simp
  from owes_container[OF this o] show ?thesis .
qed

lemma scan_sound:
  "scan_loop buf st = (Complete n, r) \<Longrightarrow> spos st \<le> length buf \<Longrightarrow> seen st \<le> MAX_VALUES \<Longrightarrow>
   r = None \<and> spos st \<le> n \<and> n \<le> length buf \<and>
   (\<exists>k. owes (levels st) (take (n - spos st) (drop (spos st) buf)) k \<and> seen st + k \<le> MAX_VALUES)"
proof (induction st rule: scan_induct[where buf = buf])
  case (empty st)
  with owes_nil show ?case by (auto simp: scan_done)
next
  case (pop st b ls)
  with owes_pop[of ls] show ?case by (fastforce simp: scan_pop)
next
  case (item st owed b ls)
  let ?p = "spos st"
  from item.prems(1) have ok: "seen st + 1 \<le> MAX_VALUES" "?p < length buf" "charge (buf ! ?p) \<le> b"
    by (auto simp: scan_item[OF item.hyps] split: if_splits)
  from item.prems(1) ok obtain q c where w: "walk_header buf (?p + 1) (header_of (buf ! ?p)) = Inr (Some (q, c))"
    by (auto simp: scan_item[OF item.hyps] split: if_splits sum.splits option.splits)
  let ?st = "next_value st q ls c owed b"
  have "scan_loop buf ?st = (Complete n, r)"
    using item.prems(1) ok w by (auto simp: scan_item[OF item.hyps] split: if_splits)
  moreover have "spos ?st = q" "seen ?st = seen st + 1" by (simp_all add: next_value_def)
  ultimately obtain k where k: "r = None" "q \<le> n" "n \<le> length buf"
    "owes (levels ?st) (take (n - q) (drop q buf)) k" "seen st + 1 + k \<le> MAX_VALUES"
    using item.IH[of ?st] walk_bounds[OF w ok(2)] ok(1) by auto
  from next_value_wire[OF w ok(2,3) refl k(4)] walk_bounds[OF w ok(2)] take_take_drop[of ?p q n buf] k
  show ?case by (auto simp: item.hyps intro!: exI[of _ "k + 1"])
qed

lemma owes_SucE:
  assumes "owes ((Suc owed, b) # ls) bs k"
  obtains x y j i where "bs = x @ y" "k = j + i" "wire b x j" "owes ((owed, b) # ls) y i"
proof -
  from assms obtain us vs j i where u: "bs = us @ vs" "k = j + i" "wires b (Suc owed) us j" "owes ls vs i"
    by (auto elim: owes_consE)
  from u(3) obtain xs ys p q where v: "us = xs @ ys" "j = p + q" "wire b xs p" "wires b owed ys q"
    by (auto elim: wires_SucE)
  from that[of xs "ys @ vs" p "q + i"] owes_cons[OF v(4) u(4)] u v show ?thesis by simp
qed

lemma owes_0: "owes ((0, b) # ls) bs k \<longleftrightarrow> owes ls bs k"
  using owes_pop by (auto elim!: owes_consE wires_0E)

lemma drop_Cons_at:
  assumes "drop p buf = m # r"
  shows "p < length buf" "buf ! p = m" "drop (p + 1) buf = r" "length buf = p + 1 + length r"
proof -
  show p: "p < length buf" using assms by (metis drop_all list.simps(3) not_le)
  then show "buf ! p = m" "drop (p + 1) buf = r"
    using assms Cons_nth_drop_Suc[OF p] by simp_all
  then show "length buf = p + 1 + length r" using p by auto
qed

lemma wire_walk:
  assumes "wire b x j" and at: "drop p buf = x @ rest"
  shows "p < length buf \<and> charge (buf ! p) \<le> b \<and>
    (\<exists>q c. walk_header buf (p + 1) (header_of (buf ! p)) = Inr (Some (q, c)) \<and>
       (case c of
          None \<Rightarrow> q = p + length x \<and> j = 1
        | Some n \<Rightarrow> \<exists>body i. wires (b - 2) n body i \<and> j = i + 1 \<and> drop q buf = body @ rest \<and>
            q + length body = p + length x))"
  using assms(1)
proof cases
  case (fixed m n pl)
  with drop_Cons_at[of p buf m "pl @ rest"] at show ?thesis by (simp add: walk_header_def)
next
  case (payload m n x lf pl)
  with drop_Cons_at[of p buf m "lf @ pl @ rest"] at show ?thesis by (simp add: walk_header_def read_be_def)
next
  case (container m c body k)
  with drop_Cons_at[of p buf m "body @ rest"] at show ?thesis by (auto simp: walk_header_def)
next
  case (counted m n f lf body k)
  have d: "p < length buf" "buf ! p = m" "drop (p + 1) buf = lf @ body @ rest"
    "length buf = p + 1 + length (lf @ body @ rest)"
    using drop_Cons_at[of p buf m "lf @ body @ rest"] at counted(1) by simp_all
  have "drop (p + 1 + n) buf = drop n (drop (p + 1) buf)" by (simp add: add.commute)
  also have "\<dots> = body @ rest" unfolding d(3) using counted(5) by simp
  finally have "drop (p + 1 + n) buf = body @ rest" .
  moreover have "walk_header buf (p + 1) (header_of (buf ! p)) = Inr (Some (p + 1 + n, Some (be_value lf * f)))"
    using d counted(4,5) by (simp add: walk_header_def read_be_def)
  ultimately show ?thesis using d counted by auto
qed

lemma scan_complete:
  "owes (levels st) bs k \<Longrightarrow> drop (spos st) buf = bs @ rest \<Longrightarrow> spos st \<le> length buf \<Longrightarrow>
   seen st + k \<le> MAX_VALUES \<Longrightarrow> scan_loop buf st = (Complete (spos st + length bs), None)"
proof (induction st arbitrary: bs k rule: scan_induct[where buf = buf])
  case (empty st)
  then show ?case by (auto simp: scan_done elim: owes_nilE)
next
  case (pop st b ls)
  then show ?case by (simp add: scan_pop owes_0)
next
  case (item st owed b ls)
  from item.prems(1) item.hyps obtain x y j i where
    o: "bs = x @ y" "k = j + i" "wire b x j" "owes ((owed, b) # ls) y i" by (auto elim: owes_SucE)
  from wire_walk[OF o(3), of "spos st" buf "y @ rest"] item.prems(2) o(1) obtain q c where
    p: "spos st < length buf" "charge (buf ! spos st) \<le> b"
    and w: "walk_header buf (spos st + 1) (header_of (buf ! spos st)) = Inr (Some (q, c))"
    and c: "case c of None \<Rightarrow> q = spos st + length x \<and> j = 1
      | Some n \<Rightarrow> \<exists>body i. wires (b - 2) n body i \<and> j = i + 1 \<and> drop q buf = body @ y @ rest \<and>
          q + length body = spos st + length x" by auto
  let ?st = "next_value st q ls c owed b"
  have bounds: "spos st < q" "q \<le> length buf" using walk_bounds[OF w p(1)] by auto
  have st: "spos ?st = q" "seen ?st = seen st + 1" by (simp_all add: next_value_def)
  have count: "seen st + 1 + (case c of None \<Rightarrow> 0 | Some n \<Rightarrow> n) \<le> MAX_VALUES"
    using c item.prems(4) o(2) wires_count by (fastforce split: option.splits)
  have "scan_loop buf ?st = (Complete (spos st + length bs), None)"
  proof (cases c)
    case None
    then have "drop q buf = y @ rest"
      using c item.prems(2) o(1) by (metis (mono_tags, lifting) append.assoc append_eq_conv_conj drop_drop add.commute option.case(1))
    with None c item.IH[of ?st y i] st bounds o item.prems(4) show ?thesis by (simp add: next_value_def)
  next
    case (Some n)
    with c obtain body l where body: "wires (b - 2) n body l" "j = l + 1" "drop q buf = body @ y @ rest"
      "q + length body = spos st + length x" by auto
    from item.IH[of ?st "body @ y" "l + i"] owes_cons[OF body(1) o(4)] body st bounds o item.prems(4) Some
    show ?thesis by (simp add: next_value_def)
  qed
  then show ?case
    using count p w by (simp add: scan_item[OF item.hyps] flip: not_less)
qed

text \<open>A fresh scan is complete exactly on a value of the grammar within every budget.\<close>

lemma scan_exact:
  "fst (scan_frame buf None) = Complete n \<longleftrightarrow>
   n \<le> length buf \<and> (\<exists>k \<le> MAX_VALUES. wire MAX_DEPTH (take n buf) k)"
proof -
  have one: "owes [(1, b)] bs k \<longleftrightarrow> wire b bs k" for b bs k
    using owes_fixed by (auto elim!: owes_consE owes_nilE wires_SucE wires_0E
      intro: owes_cons[OF wires_cons[OF _ wires_nil] owes_nil, simplified])
  show ?thesis
  proof
    assume "fst (scan_frame buf None) = Complete n"
    then obtain r where "scan_loop buf frame_scan_new = (Complete n, r)"
      by (cases "scan_frame buf None") (simp add: scan_frame_def)
    from scan_sound[OF this] show "n \<le> length buf \<and> (\<exists>k \<le> MAX_VALUES. wire MAX_DEPTH (take n buf) k)"
      by (auto simp: frame_scan_new_def one[simplified])
  next
    assume a: "n \<le> length buf \<and> (\<exists>k \<le> MAX_VALUES. wire MAX_DEPTH (take n buf) k)"
    then obtain k where "k \<le> MAX_VALUES" "owes (levels frame_scan_new) (take n buf) k"
      by (auto simp: frame_scan_new_def one[simplified])
    from scan_complete[OF this(2), of buf "drop n buf"] this(1) a
    show "fst (scan_frame buf None) = Complete n"
      by (simp add: scan_frame_def frame_scan_new_def)
  qed
qed

section \<open>Resuming\<close>

lemma read_be_more: "read_be buf p n = Some v \<Longrightarrow> read_be (buf @ ext) p n = Some v"
  by (auto simp: read_be_def split: if_splits)

lemma walk_more:
  "walk_header buf p h = Inl r \<Longrightarrow> walk_header (buf @ ext) p h = Inl r"
  "walk_header buf p h = Inr (Some x) \<Longrightarrow> walk_header (buf @ ext) p h = Inr (Some x)"
  by (auto simp: walk_header_def read_be_more split: header.splits option.splits if_splits)

text \<open>More bytes change no verdict, and a stored walk resumes to what a fresh one would find.\<close>

lemma scan_more:
  "spos st \<le> length buf \<Longrightarrow> seen st \<le> MAX_VALUES \<Longrightarrow>
   (case scan_loop buf st of
      (Incomplete, r) \<Rightarrow> \<exists>st'. r = Some st' \<and> spos st' \<le> length buf \<and> seen st' \<le> MAX_VALUES \<and>
        scan_loop buf st' = (Incomplete, r) \<and>
        (\<forall>ext. scan_loop (buf @ ext) st = scan_loop (buf @ ext) st')
    | verdict \<Rightarrow> \<forall>ext. scan_loop (buf @ ext) st = verdict)"
proof (induction st rule: scan_induct[where buf = buf])
  case (empty st)
  then show ?case by (simp add: scan_done)
next
  case (pop st b ls)
  from pop.IH pop.prems show ?case unfolding scan_pop[OF pop.hyps] by simp
next
  case (item st owed b ls)
  note step = scan_item[OF item.hyps]
  show ?case
  proof (cases "MAX_VALUES < seen st + 1 \<or> length buf \<le> spos st \<or> b < charge (buf ! spos st)")
    case True
    then show ?thesis using item.prems by (auto simp: step nth_append)
  next
    case False
    then have p: "spos st < length buf" "seen st + 1 \<le> MAX_VALUES" by auto
    let ?w = "walk_header buf (spos st + 1) (header_of (buf ! spos st))"
    have nth: "(buf @ ext) ! spos st = buf ! spos st" for ext using p by (simp add: nth_append)
    consider (rej) r where "?w = Inl r" | (short) "?w = Inr None" | (ok) q c where "?w = Inr (Some (q, c))"
      by (metis old.prod.exhaust option.exhaust sum.exhaust)
    then show ?thesis
    proof cases
      case rej
      then show ?thesis using False walk_more(1)[OF rej] by (simp add: step nth)
    next
      case short
      then show ?thesis using False item.prems by (simp add: step)
    next
      case (ok q c)
      let ?st = "next_value st q ls c owed b"
      let ?over = "MAX_VALUES < seen st + 1 + (case c of None \<Rightarrow> 0 | Some n \<Rightarrow> n)"
      have eq: "scan_loop (buf @ ext) st = (if ?over then (TooLarge RValues, None) else scan_loop (buf @ ext) ?st)" for ext
        using False p walk_more(2)[OF ok] by (simp add: step nth)
      from eq[of "[]"] have eq0: "scan_loop buf st = (if ?over then (TooLarge RValues, None) else scan_loop buf ?st)" by simp
      have "spos st < spos ?st" "spos ?st \<le> length buf" "seen ?st \<le> MAX_VALUES"
        using walk_bounds[OF ok p(1)] p(2) by (simp_all add: next_value_def)
      from item.IH[OF this(1,2,2,3)] show ?thesis
        unfolding eq eq0 by (auto split: prod.split scan.split)
    qed
  qed
qed

text \<open>The state a reader carries: where the walk of the first bytes stopped.\<close>

definition stored :: "byte list \<Rightarrow> frame_scan option \<Rightarrow> bool" where
  "stored buf s \<longleftrightarrow> (\<forall>ext. scan_frame (buf @ ext) s = scan_frame (buf @ ext) None)"

lemma stored_fresh [simp]: "stored buf None"
  by (simp add: stored_def)

lemma stored_append: "stored buf s \<Longrightarrow> stored (buf @ ext) s"
  by (simp add: stored_def)

lemma stored_scan: "stored buf s \<Longrightarrow> scan_frame buf s = scan_frame buf None"
  unfolding stored_def by (metis append_Nil2)

lemma scan_frame_more:
  "case scan_frame buf None of
     (Incomplete, r) \<Rightarrow> stored buf r
   | verdict \<Rightarrow> \<forall>ext. scan_frame (buf @ ext) None = verdict"
proof -
  have new: "spos frame_scan_new \<le> length buf" "seen frame_scan_new \<le> MAX_VALUES"
    by (simp_all add: frame_scan_new_def)
  from scan_more[OF new] show ?thesis
    by (auto simp: scan_frame_def stored_def split: prod.splits scan.splits)
qed

section \<open>Depth\<close>

text \<open>Every level of the walk has two units less than the one around it, so there are at most
  \<open>MAX_DEPTH / 2 + 1\<close> of them: the code's arrays of \<open>MAX_DEPTH\<close> slots are never overrun.\<close>

fun depth_ok :: "(nat \<times> nat) list \<Rightarrow> bool" where
  "depth_ok [] = True"
| "depth_ok [(owed, b)] \<longleftrightarrow> b = MAX_DEPTH"
| "depth_ok ((owed, b) # (owed', c) # ls) \<longleftrightarrow> 2 \<le> c \<and> b = c - 2 \<and> depth_ok ((owed', c) # ls)"

lemma depth_ok_length: "depth_ok ((owed, b) # ls) \<Longrightarrow> b + 2 * length ls = MAX_DEPTH"
  by (induction "(owed, b) # ls" arbitrary: owed b ls rule: depth_ok.induct) auto

lemma depth_ok_tl: "depth_ok (l # ls) \<Longrightarrow> depth_ok ls"
  by (cases l; cases ls) auto

lemma depth_ok_owed: "depth_ok ((m, b) # ls) = depth_ok ((n, b) # ls)"
  by (cases ls) auto

lemma container_charge: "header_of m = Container c \<Longrightarrow> charge m = 2" "header_of m = Counted n f \<Longrightarrow> charge m = 2"
  by (auto simp: header_of_def charge_def Let_def split: if_splits)

lemma next_value_depth:
  assumes "depth_ok ((Suc owed, b) # ls)" and "charge (buf ! p) \<le> b" and "p < length buf"
    and walk: "walk_header buf (p + 1) (header_of (buf ! p)) = Inr (Some (q, c))"
  shows "depth_ok (levels (next_value st q ls c owed b))"
proof (cases c)
  case None
  then show ?thesis using assms(1) depth_ok_owed[of "Suc owed" b ls owed] by (simp add: next_value_def)
next
  case (Some n)
  from walk_header_spec[OF walk] assms(3) Some have "charge (buf ! p) = 2"
    by (cases "header_of (buf ! p)") (auto dest: container_charge)
  with Some assms(1,2) depth_ok_owed[of "Suc owed" b ls owed] show ?thesis by (simp add: next_value_def)
qed

lemma scan_depth:
  "scan_loop buf st = (r, Some st') \<Longrightarrow> depth_ok (levels st) \<Longrightarrow> depth_ok (levels st')"
proof (induction st rule: scan_induct[where buf = buf])
  case (pop st b ls)
  with depth_ok_tl[of "(0, b)" ls] show ?case by (simp add: scan_pop)
next
  case (item st owed b ls)
  show ?case
  proof (cases "length buf \<le> spos st \<or> MAX_VALUES < seen st + 1 \<or> b < charge (buf ! spos st)")
    case True
    then show ?thesis using item.prems by (auto simp: scan_item[OF item.hyps] split: if_splits)
  next
    case False
    then have p: "spos st < length buf" "charge (buf ! spos st) \<le> b" by auto
    from item.prems(1) False consider "st' = st"
      | q c where "walk_header buf (spos st + 1) (header_of (buf ! spos st)) = Inr (Some (q, c))"
          "scan_loop buf (next_value st q ls c owed b) = (r, Some st')"
      by (auto simp: scan_item[OF item.hyps] split: if_splits sum.splits option.splits)
    then show ?thesis
    proof cases
      case 2
      let ?st = "next_value st q ls c owed b"
      have "spos st < spos ?st" "spos ?st \<le> length buf"
        using walk_bounds[OF 2(1) p(1)] by (simp_all add: next_value_def)
      then show ?thesis
        by (rule item.IH[OF _ _ 2(2)]) (use next_value_depth 2(1) p item.prems(2) item.hyps in auto)
    qed (use item.prems in simp)
  qed
qed (simp add: scan_done)

lemma scan_levels:
  assumes "scan_frame buf None = (r, Some st')"
  shows "length (levels st') \<le> MAX_DEPTH div 2 + 1"
proof -
  have "depth_ok (levels st')"
    using assms scan_depth[of buf frame_scan_new r st'] by (simp add: scan_frame_def frame_scan_new_def)
  then show ?thesis
    using depth_ok_length by (cases "levels st'") (fastforce simp: MAX_DEPTH_def)+
qed


end
