(* ===== verification/RpcProps.thy ===== *)
theory RpcProps
  imports Rpc Frame_Props
begin

text \<open>
  The RPC connection: a frame the sender's budget accepts is one the peer's scanner accepts, the
  frames of a stream arrive whole and in order however the reads cut it, and no request waits for an
  answer that can no longer come.
\<close>

section \<open>The sender's budget\<close>

fun vcount :: "msg_value \<Rightarrow> nat" where
  "vcount (VArr vs) = Suc (sum_list (map vcount vs))"
| "vcount (VMap es) = Suc (sum_list (map (\<lambda>(k, v). vcount k + vcount v) es))"
| "vcount v = 1"

lemma within_budget:
  "within_value_budget v b = (vcount v \<le> b, b - vcount v)"
  "within_values vs b = (sum_list (map vcount vs) \<le> b, b - sum_list (map vcount vs))"
  "within_entries es b = (sum_list (map (\<lambda>(k, v). vcount k + vcount v) es) \<le> b,
     b - sum_list (map (\<lambda>(k, v). vcount k + vcount v) es))"
  by (induction v b and vs b and es b rule: within_value_budget_within_values_within_entries.induct)
     (auto simp: Let_def)

text \<open>The wire format of a value: the marker is one of its kind, a container's header counts its
  children, which follow. Which of the possible lengths of a header an encoder picks is open.\<close>

definition value_charge :: "msg_value \<Rightarrow> nat" where
  "value_charge v =
     (case v of VStr s \<Rightarrow> 3 | VExt t bs \<Rightarrow> 3 | VBin bs \<Rightarrow> 2 | VArr vs \<Rightarrow> 2 | VMap es \<Rightarrow> 2 | _ \<Rightarrow> 1)"

definition container_items :: "msg_value \<Rightarrow> msg_value list option" where
  "container_items v =
     (case v of VArr vs \<Rightarrow> Some vs | VMap es \<Rightarrow> Some (concat (map (\<lambda>(k, v). [k, v]) es)) | _ \<Rightarrow> None)"

inductive on_wire :: "msg_value \<Rightarrow> byte list \<Rightarrow> bool" where
  leaf_fixed: "container_items v = None \<Longrightarrow> charge m = value_charge v \<Longrightarrow> header_of m = Fixed n \<Longrightarrow>
    length pl = n \<Longrightarrow> on_wire v (m # pl)"
| leaf_payload: "container_items v = None \<Longrightarrow> charge m = value_charge v \<Longrightarrow> header_of m = Payload n x \<Longrightarrow>
    length lf = n \<Longrightarrow> length pl = x + be_value lf \<Longrightarrow> on_wire v (m # lf @ pl)"
| node: "container_items v = Some vs \<Longrightarrow> header_of m = Container (length vs) \<Longrightarrow>
    list_all2 on_wire vs bss \<Longrightarrow> on_wire v (m # concat bss)"
| node_counted: "container_items v = Some vs \<Longrightarrow> header_of m = Counted n f \<Longrightarrow> length lf = n \<Longrightarrow>
    be_value lf * f = length vs \<Longrightarrow> list_all2 on_wire vs bss \<Longrightarrow> on_wire v (m # lf @ concat bss)"

text \<open>The depth the peer's scanner allows.\<close>

fun vfits :: "nat \<Rightarrow> msg_value \<Rightarrow> bool" where
  "vfits b (VArr vs) \<longleftrightarrow> 2 \<le> b \<and> (\<forall>v \<in> set vs. vfits (b - 2) v)"
| "vfits b (VMap es) \<longleftrightarrow> 2 \<le> b \<and> (\<forall>(k, v) \<in> set es. vfits (b - 2) k \<and> vfits (b - 2) v)"
| "vfits b v \<longleftrightarrow> value_charge v \<le> b"

lemma entries_count:
  "sum_list (map vcount (concat (map (\<lambda>(k, v). [k, v]) es))) = sum_list (map (\<lambda>(k, v). vcount k + vcount v) es)"
  by (induction es) auto

lemma items_count: "container_items v = Some vs \<Longrightarrow> vcount v = sum_list (map vcount vs) + 1"
  by (cases v) (auto simp: container_items_def entries_count)

lemma items_fit: "container_items v = Some vs \<Longrightarrow> vfits b v \<Longrightarrow> 2 \<le> b \<and> (\<forall>u \<in> set vs. vfits (b - 2) u)"
  by (cases v) (auto simp: container_items_def)

lemma leaf_count: "container_items v = None \<Longrightarrow> vcount v = 1"
  by (cases v) (auto simp: container_items_def)

lemma leaf_fits: "container_items v = None \<Longrightarrow> vfits b v \<Longrightarrow> value_charge v \<le> b"
  by (cases v) (auto simp: container_items_def)

lemma wires_concat:
  "list_all2 (\<lambda>v bs. wire b bs (vcount v)) vs bss \<Longrightarrow> wires b (length vs) (concat bss) (sum_list (map vcount vs))"
  by (induction rule: list_all2_induct) (auto intro: wires_nil wires_cons)

lemma on_wire_wire:
  "on_wire v bs \<Longrightarrow> length bs \<le> MAX_FRAME \<Longrightarrow> vfits b v \<Longrightarrow> wire b bs (vcount v)"
proof (induction arbitrary: b rule: on_wire.induct)
  case (leaf_fixed v m n pl)
  then show ?case
    using wire_wires.fixed[of m b n pl] leaf_count[OF leaf_fixed.hyps(1)] leaf_fits[OF leaf_fixed.hyps(1)] by simp
next
  case (leaf_payload v m n x lf pl)
  then show ?case
    using wire_wires.payload[of m b n x lf pl] leaf_count[OF leaf_payload.hyps(1)]
      leaf_fits[OF leaf_payload.hyps(1)] by simp
next
  case (node v vs m bss)
  have parts: "\<forall>bs \<in> set bss. length bs \<le> MAX_FRAME"
    using node.prems(1) member_le_sum_list[of _ "map length bss"] by (fastforce simp: length_concat)
  have "list_all2 (\<lambda>v bs. wire (b - 2) bs (vcount v)) vs bss"
    using node.IH items_fit[OF node.hyps(1) node.prems(2)] parts
    by (fastforce simp: list_all2_conv_all_nth in_set_conv_nth)
  from wire_wires.container[OF _ node.hyps(2) wires_concat[OF this]] show ?case
    using items_fit[OF node.hyps(1) node.prems(2)] container_charge(1)[OF node.hyps(2)]
    by (simp add: items_count[OF node.hyps(1)])
next
  case (node_counted v vs m n f lf bss)
  have parts: "\<forall>bs \<in> set bss. length bs \<le> MAX_FRAME"
    using node_counted.prems(1) member_le_sum_list[of _ "map length bss"] by (fastforce simp: length_concat)
  have "list_all2 (\<lambda>v bs. wire (b - 2) bs (vcount v)) vs bss"
    using node_counted.IH items_fit[OF node_counted.hyps(1) node_counted.prems(2)] parts
    by (fastforce simp: list_all2_conv_all_nth in_set_conv_nth)
  from wires_concat[OF this] have "wires (b - 2) (be_value lf * f) (concat bss) (sum_list (map vcount vs))"
    by (simp add: node_counted.hyps(4))
  from wire_wires.counted[OF _ node_counted.hyps(2,3) this] show ?case
    using items_fit[OF node_counted.hyps(1) node_counted.prems(2)] container_charge(2)[OF node_counted.hyps(2)]
    by (simp add: items_count[OF node_counted.hyps(1)])
qed

lemma checked_frame:
  assumes "encode_checked enc v = Inr bs" and "on_wire v (enc v)" and "vfits MAX_DEPTH v"
  shows "bs = enc v" "length bs \<le> MAX_FRAME" "vcount v \<le> MAX_VALUES" "wire MAX_DEPTH bs (vcount v)"
  using assms on_wire_wire[OF assms(2) _ assms(3)]
  by (auto simp: encode_checked_def Let_def within_budget split: if_splits)

section \<open>Streams\<close>

text \<open>A frame the reader delivers: within every budget, and the decoder knows it.\<close>

definition good_frame :: "(byte list \<Rightarrow> ustring + msg_value) \<Rightarrow> byte list \<Rightarrow> msg_value \<Rightarrow> bool" where
  "good_frame dec f v \<longleftrightarrow> length f \<le> MAX_FRAME \<and> (\<exists>k \<le> MAX_VALUES. wire MAX_DEPTH f k) \<and> dec f = Inr v"

lemma frame_scanned:
  assumes "wire MAX_DEPTH f k" and "k \<le> MAX_VALUES"
  shows "scan_frame (f @ rest) None = (Complete (length f), None)"
proof -
  from assms have "fst (scan_frame (f @ rest) None) = Complete (length f)"
    by (subst scan_exact) auto
  then obtain r where r: "scan_loop (f @ rest) frame_scan_new = (Complete (length f), r)"
    by (cases "scan_frame (f @ rest) None") (auto simp: scan_frame_def)
  from scan_sound[OF this] have "r = None" by (simp add: frame_scan_new_def)
  with r show ?thesis by (simp add: scan_frame_def)
qed

lemma frame_prefix_incomplete:
  assumes "wire MAX_DEPTH f k" and "k \<le> MAX_VALUES" and "buf @ rest = f @ tail" and "length buf < length f"
  shows "\<exists>s. scan_frame buf None = (Incomplete, s)"
proof -
  have full: "scan_frame (buf @ rest) None = (Complete (length f), None)"
    unfolding assms(3) by (rule frame_scanned[OF assms(1,2)])
  obtain r s where rs: "scan_frame buf None = (r, s)" by fastforce
  show ?thesis
  proof (cases r)
    case (Complete n)
    with scan_frame_more[of buf] rs full have "n = length f" by simp
    moreover have "n \<le> length buf" using scan_exact[of buf n] rs Complete by simp
    ultimately show ?thesis using assms(4) by simp
  next
    case (TooLarge why)
    with scan_frame_more[of buf] rs full show ?thesis by simp
  qed (use rs in simp)
qed

lemma tail_prefix_incomplete:
  assumes "scan_frame (buf @ rest) None = (Incomplete, s)"
  shows "\<exists>s. scan_frame buf None = (Incomplete, s)"
proof -
  obtain r s' where "scan_frame buf None = (r, s')" by fastforce
  with scan_frame_more[of buf] assms show ?thesis by (cases r) auto
qed

text \<open>The dispatch of a frame, and of many, while the consumer is there.\<close>

definition deliver :: "msg_value \<Rightarrow> rpc_conn \<Rightarrow> rpc_conn" where
  "deliver v c = snd (rpc_dispatch v c)"

lemma push_in_here: "\<not> consumer_gone c \<Longrightarrow> fst (push_in m c) \<and> \<not> consumer_gone (snd (push_in m c))"
  by (simp add: push_in_def)

lemma dispatch_here:
  assumes "\<not> consumer_gone c"
  shows "rpc_dispatch v c = (True, deliver v c)" "\<not> consumer_gone (deliver v c)"
proof -
  have "fst (rpc_dispatch v c) \<and> \<not> consumer_gone (snd (rpc_dispatch v c))"
    using assms by (auto simp: rpc_dispatch_def push_in_def set_mail_def Let_def split: msg_value.split option.split prod.split)
  then show "rpc_dispatch v c = (True, deliver v c)" "\<not> consumer_gone (deliver v c)"
    by (simp_all add: deliver_def prod_eq_iff)
qed

lemma drain_frames:
  "stored buf s \<Longrightarrow> buf @ rest = concat (map fst fvs) @ tail \<Longrightarrow> \<forall>(f, v) \<in> set fvs. good_frame dec f v \<Longrightarrow>
   scan_frame tail None = (Incomplete, t) \<Longrightarrow> length tail \<le> MAX_FRAME \<Longrightarrow> \<not> consumer_gone c \<Longrightarrow>
   \<exists>gs hs buf' s'. fvs = gs @ hs \<and> rpc_drain dec buf s c = Some (Reading buf' s', fold deliver (map snd gs) c) \<and>
     buf' @ rest = concat (map fst hs) @ tail \<and> stored buf' s' \<and> length buf' \<le> MAX_FRAME \<and>
     (rest = [] \<longrightarrow> hs = []) \<and> \<not> consumer_gone (fold deliver (map snd gs) c)"
proof (induction fvs arbitrary: buf s c)
  case Nil
  then have "scan_frame (buf @ rest) None = (Incomplete, t)" by simp
  from tail_prefix_incomplete[OF this] obtain s' where s': "scan_frame buf None = (Incomplete, s')" by blast
  with scan_frame_more[of buf] have "stored buf s'" by simp
  moreover have "tail = buf @ rest" using Nil.prems(2) by simp
  then have "length buf \<le> MAX_FRAME" using Nil.prems(5) by simp
  moreover have "rpc_drain dec buf s c = Some (Reading buf s', c)"
    using stored_scan[OF Nil.prems(1)] s' by (subst rpc_drain.simps) simp
  ultimately show ?case
    using Nil.prems(2,6) by (intro exI[of _ "[]"] exI[of _ buf] exI[of _ s']) simp
next
  case (Cons fv fvs)
  obtain f v where fv: "fv = (f, v)" by (cases fv)
  from Cons.prems(3) fv obtain k where f: "length f \<le> MAX_FRAME" "k \<le> MAX_VALUES" "wire MAX_DEPTH f k" "dec f = Inr v"
    by (auto simp: good_frame_def)
  have eq: "buf @ rest = f @ concat (map fst fvs) @ tail" using Cons.prems(2) fv by simp
  show ?case
  proof (cases "length f \<le> length buf")
    case True
    obtain buf2 where b: "buf = f @ buf2" "buf2 @ rest = concat (map fst fvs) @ tail"
    proof
      have "take (length f) (buf @ rest) = f" "drop (length f) (buf @ rest) = concat (map fst fvs) @ tail"
        unfolding eq by simp_all
      with True show "buf = f @ drop (length f) buf" "drop (length f) buf @ rest = concat (map fst fvs) @ tail"
        by (simp_all, metis append_take_drop_id)
    qed
    note d = dispatch_here[OF Cons.prems(6), of v]
    have "rpc_drain dec buf s c = rpc_drain dec buf2 None (deliver v c)"
      using stored_scan[OF Cons.prems(1)] frame_scanned[OF f(3,2)] f(4) d(1) b(1)
      by (subst rpc_drain.simps) simp
    moreover from Cons.IH[OF stored_fresh b(2) _ Cons.prems(4,5) d(2)] Cons.prems(3) obtain gs hs buf' s' where
      "fvs = gs @ hs" "rpc_drain dec buf2 None (deliver v c) = Some (Reading buf' s', fold deliver (map snd gs) (deliver v c))"
      "buf' @ rest = concat (map fst hs) @ tail" "stored buf' s'" "length buf' \<le> MAX_FRAME" "rest = [] \<longrightarrow> hs = []"
      "\<not> consumer_gone (fold deliver (map snd gs) (deliver v c))" by auto
    ultimately show ?thesis
      using fv by (intro exI[of _ "fv # gs"] exI[of _ hs] exI[of _ buf'] exI[of _ s']) simp
  next
    case False
    from frame_prefix_incomplete[OF f(3,2) eq] False obtain s' where s': "scan_frame buf None = (Incomplete, s')" by auto
    with scan_frame_more[of buf] have "stored buf s'" by simp
    moreover have "rpc_drain dec buf s c = Some (Reading buf s', c)"
      using stored_scan[OF Cons.prems(1)] s' by (subst rpc_drain.simps) simp
    moreover have "rest \<noteq> []"
    proof
      assume "rest = []"
      with eq have "length f \<le> length buf" by simp
      with False show False by simp
    qed
    ultimately show ?thesis
      using Cons.prems(2,6) False f(1)
      by (intro exI[of _ "[]"] exI[of _ "fv # fvs"] exI[of _ buf] exI[of _ s']) simp
  qed
qed

lemma reads_frames:
  "stored buf s \<Longrightarrow> buf @ concat chunks = concat (map fst fvs) @ tail \<Longrightarrow> \<forall>(f, v) \<in> set fvs. good_frame dec f v \<Longrightarrow>
   scan_frame tail None = (Incomplete, t) \<Longrightarrow> length tail \<le> MAX_FRAME \<Longrightarrow> \<not> consumer_gone c \<Longrightarrow>
   (chunks = [] \<longrightarrow> fvs = []) \<Longrightarrow>
   \<exists>s'. rpc_reads dec chunks (Reading buf s, c) = Some (Reading tail s', fold deliver (map snd fvs) c)"
proof (induction chunks arbitrary: buf s c fvs)
  case (Cons chunk chunks)
  have eq: "(buf @ chunk) @ concat chunks = concat (map fst fvs) @ tail" using Cons.prems(2) by simp
  from drain_frames[OF stored_append[OF Cons.prems(1)] eq Cons.prems(3-6)] obtain gs hs buf' s' where
    d: "fvs = gs @ hs" "rpc_drain dec (buf @ chunk) s c = Some (Reading buf' s', fold deliver (map snd gs) c)"
    "buf' @ concat chunks = concat (map fst hs) @ tail" "stored buf' s'" "length buf' \<le> MAX_FRAME"
    "concat chunks = [] \<longrightarrow> hs = []" "\<not> consumer_gone (fold deliver (map snd gs) c)" by blast
  have "rpc_read dec chunk (Reading buf s, c) = Some (Reading buf' s', fold deliver (map snd gs) c)"
    using d(2,5) by (simp add: rpc_read_def)
  moreover have "\<exists>s''. rpc_reads dec chunks (Reading buf' s', fold deliver (map snd gs) c) =
      Some (Reading tail s'', fold deliver (map snd hs) (fold deliver (map snd gs) c))"
    using Cons.IH[OF d(4,3) _ Cons.prems(4,5) d(7)] Cons.prems(3) d(1,6) by auto
  ultimately show ?case using d(1) by auto
qed simp

lemma stream_delivered:
  assumes "concat chunks = concat (map fst fvs) @ tail" and "\<forall>(f, v) \<in> set fvs. good_frame dec f v"
    and "scan_frame tail None = (Incomplete, t)" and "length tail \<le> MAX_FRAME" and "\<not> consumer_gone c"
  shows "\<exists>s. rpc_reads dec chunks (Reading [] None, c) = Some (Reading tail s, fold deliver (map snd fvs) c)"
proof -
  have "chunks = [] \<longrightarrow> fvs = []"
  proof (cases fvs)
    case (Cons fv fvs')
    with assms(2) obtain f v where "fv = (f, v)" "f \<noteq> []" by (cases fv) (auto simp: good_frame_def dest: wire_nonempty)
    with Cons assms(1) show ?thesis by auto
  qed simp
  with reads_frames[OF stored_fresh, of "[]" chunks fvs tail dec] assms show ?thesis by auto
qed

lemma no_bytes: "\<exists>s. scan_frame [] None = (Incomplete, s)"
  by (simp add: scan_frame_def frame_scan_new_def scan_item MAX_VALUES_def)


section \<open>Requests\<close>

text \<open>The atomic sections of the tasks, in any interleaving.\<close>

datatype rpc_op =
    Register
  | Submit nat ustring "msg_value list"
  | Poll nat
  | Cancel nat
  | Notify ustring "msg_value list"
  | Respond nat "msg_value + msg_value"
  | Dispatch msg_value
  | Refuse ustring
  | Teardown
  | WriterGone
  | ConsumerGone

fun rpc_step :: "(msg_value \<Rightarrow> byte list) \<Rightarrow> rpc_conn \<Rightarrow> rpc_op \<Rightarrow> rpc_conn" where
  "rpc_step enc c Register = rpc_register c"
| "rpc_step enc c (Submit i name params) = rpc_submit enc i name params c"
| "rpc_step enc c (Poll i) = rpc_poll i c"
| "rpc_step enc c (Cancel i) = rpc_cancel i c"
| "rpc_step enc c (Notify name params) = rpc_notify enc name params c"
| "rpc_step enc c (Respond i r) = rpc_respond enc i r c"
| "rpc_step enc c (Dispatch v) = deliver v c"
| "rpc_step enc c (Refuse why) = refuse_peer why c"
| "rpc_step enc c Teardown = rpc_teardown c"
| "rpc_step enc c WriterGone = c\<lparr>out_open := False\<rparr>"
| "rpc_step enc c ConsumerGone = c\<lparr>consumer_gone := True\<rparr>"

definition waiting :: "rpc_conn \<Rightarrow> nat set" where
  "waiting c = (case pending c of Some ids \<Rightarrow> set ids | None \<Rightarrow> {})"

definition mail_of :: "rpc_conn \<Rightarrow> nat \<Rightarrow> mail option" where
  "mail_of c i = map_option mail (calls c i)"

definition conn_inv :: "rpc_conn \<Rightarrow> bool" where
  "conn_inv c \<longleftrightarrow> (\<forall>i. calls c i \<noteq> None \<longrightarrow> i < next_id c) \<and> (\<forall>i. mail_of c i = Some Unsent \<longleftrightarrow> i \<in> waiting c)"

lemma conn_invI:
  assumes "conn_inv c" and "next_id c' = next_id c" and "\<And>i. calls c' i = None \<longleftrightarrow> calls c i = None"
    and "\<And>i. mail_of c' i = Some Unsent \<longleftrightarrow> i \<in> waiting c'"
  shows "conn_inv c'"
  using assms by (simp add: conn_inv_def)

lemma set_mail_fields [simp]:
  "next_id (set_mail m i c) = next_id c" "pending (set_mail m i c) = pending c"
  "(calls (set_mail m i c) j = None) = (calls c j = None)"
  "mail_of (set_mail m i c) j = (if j = i then map_option (\<lambda>_. m) (calls c i) else mail_of c j)"
  "waiting (set_mail m i c) = waiting c"
  by (auto simp: set_mail_def mail_of_def waiting_def option.map_comp comp_def)

lemma set_phase_fields [simp]:
  "next_id (set_phase p i c) = next_id c" "pending (set_phase p i c) = pending c"
  "(calls (set_phase p i c) j = None) = (calls c j = None)" "mail_of (set_phase p i c) j = mail_of c j"
  "waiting (set_phase p i c) = waiting c"
  by (auto simp: set_phase_def mail_of_def waiting_def option.map_comp comp_def)

lemma set_phase_inv: "conn_inv c \<Longrightarrow> conn_inv (set_phase p i c)"
  by (rule conn_invI[of c]) (simp_all add: conn_inv_def)

lemma mail_of_upd [simp]:
  "mail_of (c\<lparr>pending := p\<rparr>) i = mail_of c i" "waiting (c\<lparr>pending := Some ids\<rparr>) = set ids"
  "waiting (c\<lparr>pending := None\<rparr>) = {}"
  by (simp_all add: mail_of_def waiting_def)

lemma mail_of_calls: "mail_of c i = None \<longleftrightarrow> calls c i = None"
  by (simp add: mail_of_def)

lemma const_calls [simp]:
  "map_option (\<lambda>_. m) (calls (set_mail m' i c) j) = map_option (\<lambda>_. m) (calls c j)"
  by (simp add: set_mail_def option.map_comp comp_def)

text \<open>A sender taken out of the map: its mail is no longer unsent.\<close>

lemma take_out_inv:
  assumes "conn_inv c" and "pending c = Some ids" and "m \<noteq> Unsent"
  shows "conn_inv (set_mail m i (c\<lparr>pending := Some (removeAll i ids)\<rparr>))"
proof (rule conn_invI[OF assms(1)])
  fix j
  have "mail_of c j = Some Unsent \<longleftrightarrow> j \<in> set ids" using assms(1,2) by (simp add: conn_inv_def waiting_def)
  then show "mail_of (set_mail m i (c\<lparr>pending := Some (removeAll i ids)\<rparr>)) j = Some Unsent \<longleftrightarrow>
      j \<in> waiting (set_mail m i (c\<lparr>pending := Some (removeAll i ids)\<rparr>))"
    using assms(3) by auto
qed simp_all

lemma drop_pending_inv: "conn_inv c \<Longrightarrow> conn_inv (drop_pending i c)"
  by (auto simp: drop_pending_def take_out_inv split: option.split)

lemma fold_set_mail [simp]:
  "next_id (fold (set_mail m) ids c) = next_id c" "pending (fold (set_mail m) ids c) = pending c"
  "(calls (fold (set_mail m) ids c) j = None) = (calls c j = None)"
  "mail_of (fold (set_mail m) ids c) j =
     (if j \<in> set ids then map_option (\<lambda>_. m) (calls c j) else mail_of c j)"
  by (induction ids arbitrary: c) auto

lemma take_all_inv:
  assumes "conn_inv c" and "pending c = Some ids" and "m \<noteq> Unsent"
    and "next_id c' = next_id c" "calls c' = calls c" "pending c' = None"
  shows "conn_inv (fold (set_mail m) ids c')"
proof (rule conn_invI[OF assms(1)])
  fix j
  have "mail_of c j = Some Unsent \<longleftrightarrow> j \<in> set ids" using assms(1,2) by (simp add: conn_inv_def waiting_def)
  moreover have "mail_of c' j = mail_of c j" using assms(5) by (simp add: mail_of_def)
  moreover have "waiting (fold (set_mail m) ids c') = {}" using assms(6) by (simp add: waiting_def)
  ultimately show "mail_of (fold (set_mail m) ids c') j = Some Unsent \<longleftrightarrow> j \<in> waiting (fold (set_mail m) ids c')"
    using assms(3) by auto
qed (use assms(4,5) in simp_all)

lemma send_out_inv: "conn_inv c \<Longrightarrow> conn_inv (send_out bs c)"
  by (simp add: send_out_def conn_inv_def waiting_def mail_of_def)

lemma register_inv: "conn_inv c \<Longrightarrow> conn_inv (rpc_register c)"
  by (auto simp: rpc_register_def conn_inv_def waiting_def mail_of_def Let_def less_SucI split: option.splits if_splits)

lemma conn_inv_outq [simp]: "conn_inv (c\<lparr>outq := q\<rparr>) = conn_inv c"
  and conn_inv_inq [simp]: "conn_inv (c\<lparr>inq := r\<rparr>) = conn_inv c"
  and conn_inv_open [simp]: "conn_inv (c\<lparr>out_open := b\<rparr>) = conn_inv c"
  and conn_inv_gone [simp]: "conn_inv (c\<lparr>consumer_gone := b\<rparr>) = conn_inv c"
  by (simp_all add: conn_inv_def waiting_def mail_of_def)

lemma deliver_inv: "conn_inv c \<Longrightarrow> conn_inv (deliver v c)"
  by (auto simp: deliver_def rpc_dispatch_def push_in_def Let_def take_out_inv
      split: msg_value.split option.split prod.split)

lemma rpc_step_inv: "conn_inv c \<Longrightarrow> conn_inv (rpc_step enc c op)"
  by (cases op)
     (auto simp: register_inv rpc_submit_def rpc_poll_def rpc_cancel_def rpc_notify_def rpc_respond_def Let_def
        deliver_inv refuse_peer_def rpc_teardown_def take_all_inv set_phase_inv drop_pending_inv send_out_inv
        split: sum.split option.split mail.split phase.split prod.split)

interpretation conn: guarded_system "rpc_step enc" conn_inv for enc
  by unfold_locales (rule rpc_step_inv)

lemma connect_inv: "conn_inv rpc_connect"
  by (simp add: conn_inv_def rpc_connect_def mail_of_def waiting_def)


section \<open>Properties\<close>

text \<open>C20. A scan of a buffer says that its first \<open>n\<close> bytes are a frame exactly when they are a value
  of the wire grammar within the depth, value and payload budgets; its walk never holds more
  levels than the code's fixed arrays have slots; and stopping for more bytes is transparent: the
  stored walk goes on to the verdict of a scan of all the bytes from the start.\<close>

theorem scanner_exact:
  "(fst (scan_frame buf None) = Complete n \<longleftrightarrow>
      n \<le> length buf \<and> (\<exists>k \<le> MAX_VALUES. wire MAX_DEPTH (take n buf) k)) \<and>
   (\<forall>s. scan_frame buf None = (Incomplete, Some s) \<longrightarrow> length (levels s) < MAX_DEPTH \<and>
      (\<forall>rest. scan_frame (buf @ rest) (Some s) = scan_frame (buf @ rest) None))"
proof -
  have "length (levels s) < MAX_DEPTH \<and> stored buf (Some s)" if "scan_frame buf None = (Incomplete, Some s)" for s
    using scan_levels[OF that] scan_frame_more[of buf] that by (simp add: MAX_DEPTH_def)
  then show ?thesis using scan_exact by (auto simp: stored_def)
qed

definition ping :: "byte list" where
  "ping = [0x93, 0x02, 0xa4, 0x70, 0x69, 0x6e, 0x67, 0x90]"

lemma ping_wire: "wire MAX_DEPTH ping 4"
proof -
  have m: "charge 0x93 = 2" "header_of 0x93 = Container 3" "charge 0x02 = 1" "header_of 0x02 = Fixed 0"
    "charge 0xa4 = 3" "header_of 0xa4 = Fixed 4" "charge 0x90 = 2" "header_of 0x90 = Container 0" by code_simp+
  have "wire 126 [0x02] 1" "wire 126 [0xa4, 0x70, 0x69, 0x6e, 0x67] 1" "wire 126 [0x90] 1"
    using wire_wires.fixed[of "0x02" 126 0 "[]"] wire_wires.fixed[of "0xa4" 126 4 "[0x70, 0x69, 0x6e, 0x67]"]
      wire_wires.container[of "0x90" 126 0 "[]" 0] wires_nil m by simp_all
  from wires_cons[OF this(1) wires_cons[OF this(2) wires_cons[OF this(3) wires_nil]]]
  have "wires 126 3 [0x02, 0xa4, 0x70, 0x69, 0x6e, 0x67, 0x90] 3" by (simp add: numeral_3_eq_3)
  from wire_wires.container[of "0x93" 128 3 _ 3] this m show ?thesis by (simp add: ping_def MAX_DEPTH_def)
qed

theorem scanner_exact_witness:
  "fst (scan_frame ping None) = Complete 8"
proof -
  have "take 8 ping = ping" "length ping = 8" by (simp_all add: ping_def)
  moreover have "\<exists>k \<le> MAX_VALUES. wire MAX_DEPTH ping k"
    using ping_wire by (intro exI[of _ 4]) (simp add: MAX_VALUES_def)
  ultimately show ?thesis using scanner_exact[of ping 8] by simp
qed

text \<open>C21. Whatever the sizes of the reads, the messages sent arrive: each one once, whole and in order,
  with nothing left over, and the peer is not refused. The sender's check of a frame is what its
  reader's budgets ask, but for the depth, which the sender does not check. The encoder writes
  msgpack and the decoder reads back what it wrote.\<close>

theorem sent_frames_arrive:
  assumes sent: "\<forall>v \<in> set vs. encode_checked enc v = Inr (enc v)"
    and depth: "\<forall>v \<in> set vs. vfits MAX_DEPTH v"
    and codec: "\<forall>v \<in> set vs. on_wire v (enc v) \<and> dec (enc v) = Inr v"
    and reads: "concat chunks = concat (map enc vs)"
    and here: "\<not> consumer_gone c"
  shows "\<exists>s. rpc_reads dec chunks (Reading [] None, c) = Some (Reading [] s, fold (\<lambda>v c. snd (rpc_dispatch v c)) vs c)"
proof -
  let ?fvs = "map (\<lambda>v. (enc v, v)) vs"
  have good: "\<forall>(f, v) \<in> set ?fvs. good_frame dec f v"
    using checked_frame[of enc] sent depth codec unfolding good_frame_def by fastforce
  obtain t where "scan_frame [] None = (Incomplete, t)" using no_bytes by blast
  with stream_delivered[of chunks ?fvs "[]" dec t c] good reads here show ?thesis
    by (simp add: comp_def deliver_def[abs_def] split_def)
qed

definition ping_value :: msg_value where
  "ping_value = VArr [VInt 2, VStr (Some (us ''ping'')), VArr []]"

lemma ping_on_wire: "on_wire ping_value ping"
proof -
  have m: "header_of 0x93 = Container 3" "charge 0x02 = 1" "header_of 0x02 = Fixed 0"
    "charge 0xa4 = 3" "header_of 0xa4 = Fixed 4" "header_of 0x90 = Container 0" by code_simp+
  have "on_wire (VInt 2) [0x02]" "on_wire (VStr (Some (us ''ping''))) [0xa4, 0x70, 0x69, 0x6e, 0x67]"
    "on_wire (VArr []) [0x90]"
    using leaf_fixed[of "VInt 2" "0x02" 0 "[]"] leaf_fixed[of "VStr (Some (us ''ping''))" "0xa4" 4 "[0x70, 0x69, 0x6e, 0x67]"]
      node[of "VArr []" "[]" "0x90" "[]"] m by (simp_all add: container_items_def value_charge_def)
  then show ?thesis
    using node[of ping_value "[VInt 2, VStr (Some (us ''ping'')), VArr []]" "0x93"
        "[[0x02], [0xa4, 0x70, 0x69, 0x6e, 0x67], [0x90]]"] m
    by (simp add: ping_value_def ping_def container_items_def)
qed

lemma ping_checked: "vcount v \<le> MAX_VALUES \<Longrightarrow> encode_checked (\<lambda>v. ping) v = Inr ping"
  by (simp add: encode_checked_def within_budget ping_def MAX_FRAME_def)

theorem sent_frames_arrive_witness:
  "\<exists>s. rpc_reads (\<lambda>bs. Inr ping_value) [[0x93], [0x02, 0xa4, 0x70], [0x69, 0x6e, 0x67, 0x90, 0x93, 0x02],
       [0xa4, 0x70, 0x69, 0x6e, 0x67, 0x90]] (Reading [] None, rpc_connect) =
     Some (Reading [] s, fold (\<lambda>v c. snd (rpc_dispatch v c)) [ping_value, ping_value] rpc_connect)"
proof (rule sent_frames_arrive[where enc = "\<lambda>v. ping"])
  show "\<forall>v \<in> set [ping_value, ping_value]. encode_checked (\<lambda>v. ping) v = Inr ping"
    by (simp add: ping_checked ping_value_def MAX_VALUES_def)
  show "\<forall>v \<in> set [ping_value, ping_value]. vfits MAX_DEPTH v"
    by (simp add: ping_value_def MAX_DEPTH_def value_charge_def)
  show "\<forall>v \<in> set [ping_value, ping_value]. on_wire v ping \<and> Inr ping_value = Inr v"
    by (simp add: ping_on_wire)
  show "concat [[0x93], [0x02, 0xa4, 0x70], [0x69, 0x6e, 0x67, 0x90, 0x93, 0x02], [0xa4, 0x70, 0x69, 0x6e, 0x67, 0x90]] =
      concat (map (\<lambda>v. ping) [ping_value, ping_value])"
    by (simp add: ping_def)
  show "\<not> consumer_gone rpc_connect" by (simp add: rpc_connect_def)
qed

text \<open>C22. Through any interleaving of requests, answers, cancellations, refusals and teardown, the map
  of pending requests holds exactly the requests whose answer slot is still open. So once the
  connection is torn down no request waits for ever: each one sent ends when it is next polled.\<close>

theorem no_request_parked:
  defines "conn enc ops \<equiv> foldl (rpc_step enc) rpc_connect ops"
  shows "(\<forall>i. mail_of (conn enc ops) i = Some Unsent \<longleftrightarrow> i \<in> waiting (conn enc ops)) \<and>
    (\<forall>i call. pending (conn enc ops) = None \<and> calls (conn enc ops) i = Some call \<and> phase call = Sent \<longrightarrow>
       (\<exists>r. map_option phase (calls (rpc_poll i (conn enc ops)) i) = Some (Finished r)))"
proof -
  let ?c = "foldl (rpc_step enc) rpc_connect ops"
  have inv: "conn_inv ?c" by (rule conn.run_inv[OF connect_inv])
  have "\<exists>r. map_option phase (calls (rpc_poll i ?c) i) = Some (Finished r)"
    if "pending ?c = None" "calls ?c i = Some call" "phase call = Sent" for i call
  proof -
    have "mail call \<noteq> Unsent" using inv that by (auto simp: conn_inv_def mail_of_def waiting_def)
    with that show ?thesis
      by (auto simp: rpc_poll_def drop_pending_def set_phase_def split: mail.split sum.split)
  qed
  with inv show ?thesis unfolding conn_def conn_inv_def by blast
qed

theorem no_request_parked_witness:
  "\<exists>r. map_option phase (calls (rpc_poll 1 (foldl (rpc_step (\<lambda>v. ping)) rpc_connect
      [Register, Submit 1 (us ''ping'') [], Register, Teardown])) 1) = Some (Finished r)"
proof -
  let ?ops = "[Register, Submit 1 (us ''ping'') [], Register, Teardown]"
  let ?c = "foldl (rpc_step (\<lambda>v. ping)) rpc_connect ?ops"
  have "encode_checked (\<lambda>v. ping) (VArr [VInt 0, VInt (int 1), VStr (Some (us ''ping'')), VArr []]) = Inr ping"
    by (rule ping_checked) (simp add: MAX_VALUES_def)
  then have "pending ?c = None" "calls ?c 1 = Some \<lparr>phase = Sent, mail = Dropped\<rparr>"
    by (simp_all add: rpc_connect_def rpc_register_def rpc_submit_def rpc_teardown_def set_mail_def set_phase_def)
  with no_request_parked[of "\<lambda>v. ping" ?ops] show ?thesis by (auto simp del: foldl.simps)
qed

end
