(* ===== verification/Std_Text.thy ===== *)
theory Std_Text
  imports Prelude
begin

text \<open>
  Operations of Rust's standard strings the components share, on lists of code points.
\<close>

text \<open>\<open>char::is_whitespace\<close>: Unicode's White_Space.\<close>

definition is_whitespace :: "uchar \<Rightarrow> bool" where
  "is_whitespace c \<longleftrightarrow>
     (9 \<le> c \<and> c \<le> 13) \<or> c = 32 \<or> c = 133 \<or> c = 160 \<or> c = 5760 \<or> (8192 \<le> c \<and> c \<le> 8202) \<or>
     c = 8232 \<or> c = 8233 \<or> c = 8239 \<or> c = 8287 \<or> c = 12288"

definition trim :: "ustring \<Rightarrow> ustring" where
  "trim s = rev (dropWhile is_whitespace (rev (dropWhile is_whitespace s)))"

text \<open>\<open>str::parse::<usize>\<close>: an optional plus sign, then digits, within 64 bits.\<close>

definition parse_usize :: "ustring \<Rightarrow> nat option" where
  "parse_usize s =
     (let ds = (case s of [] \<Rightarrow> [] | c # r \<Rightarrow> if c = uc CHR ''+'' then r else s) in
      if ds = [] \<or> \<not> list_all is_ascii_digit ds \<or> U64_MAX < digits_value ds then None
      else Some (digits_value ds))"

fun starts_with :: "'a list \<Rightarrow> 'a list \<Rightarrow> bool" where
  "starts_with [] s = True"
| "starts_with (p # ps) [] = False"
| "starts_with (p # ps) (c # s) = (p = c \<and> starts_with ps s)"

text \<open>\<open>match_indices\<close>: the non-overlapping occurrences of a pattern, left to right; an empty pattern
  occurs at every position.\<close>

fun match_from :: "ustring \<Rightarrow> nat \<Rightarrow> nat \<Rightarrow> ustring \<Rightarrow> nat list" where
  "match_from pat at skip [] = []"
| "match_from pat at 0 (c # s) =
     (if starts_with pat (c # s) then at # match_from pat (at + 1) (length pat - 1) s
      else match_from pat (at + 1) 0 s)"
| "match_from pat at (Suc skip) (c # s) = match_from pat (at + 1) skip s"

definition match_indices :: "ustring \<Rightarrow> ustring \<Rightarrow> nat list" where
  "match_indices pat s = (if pat = [] then [0..<length s + 1] else match_from pat 0 0 s)"

text \<open>\<open>str::replace\<close> of a pattern of one and of two characters.\<close>

definition replace_char :: "uchar \<Rightarrow> ustring \<Rightarrow> ustring \<Rightarrow> ustring" where
  "replace_char c r s = concat (map (\<lambda>x. if x = c then r else [x]) s)"

fun replace_pair :: "uchar \<Rightarrow> uchar \<Rightarrow> ustring \<Rightarrow> ustring \<Rightarrow> ustring" where
  "replace_pair a b r (c # d # s) =
     (if c = a \<and> d = b then r @ replace_pair a b r s else c # replace_pair a b r (d # s))"
| "replace_pair a b r s = s"

text \<open>\<open>str::split\<close> at a character, and the length of a string in bytes.\<close>

fun split_char :: "'a \<Rightarrow> 'a list \<Rightarrow> 'a list list" where
  "split_char c [] = [[]]"
| "split_char c (x # s) =
     (if x = c then [] # split_char c s
      else case split_char c s of p # ps \<Rightarrow> (x # p) # ps | [] \<Rightarrow> [[x]])"

definition len_utf8 :: "uchar \<Rightarrow> nat" where
  "len_utf8 c = (if c < 0x80 then 1 else if c < 0x800 then 2 else if c < 0x10000 then 3 else 4)"

definition byte_len :: "ustring \<Rightarrow> nat" where
  "byte_len s = sum_list (map len_utf8 s)"

lemma len_utf8_pos [simp]: "0 < len_utf8 c"
  by (simp add: len_utf8_def)

lemma byte_len_simps [simp]: "byte_len [] = 0" "byte_len (c # s) = len_utf8 c + byte_len s" "byte_len (s @ t) = byte_len s + byte_len t"
  by (simp_all add: byte_len_def)

lemma byte_len_0 [simp]: "byte_len s = 0 \<longleftrightarrow> s = []"
  by (cases s) (simp_all add: len_utf8_def)

lemma split_char_nonempty [simp]: "split_char c s \<noteq> []"
  by (cases s) (auto split: list.split)

lemma split_char_append:
  "split_char c (s @ t) = butlast (split_char c s) @ (last (split_char c s) @ hd (split_char c t)) # tl (split_char c t)"
proof (induction s)
  case (Cons x s)
  obtain p ps where "split_char c s = p # ps" by (cases "split_char c s") auto
  with Cons show ?case by (cases ps) auto
qed simp

lemma split_char_length: "length (split_char c s) = Suc (length (filter (\<lambda>x. x = c) s))"
  by (induction s) (auto split: list.split)

end
