(* ===== verification/Fold_Levels.thy ===== *)
theory Fold_Levels
  imports Std_Text "HOL-Library.Product_Lexorder"
begin

text \<open>
  Computed folds (\<open>crates/bemtvi-core/src/editor/fold.rs\<close>): from the lines of a buffer to a fold
  level per line, by indentation, markers, \<open>'foldexpr'\<close> values or containment in spans, and from
  the levels to nested ranges \<open>(start, end, level)\<close>. Line texts are lists of code points.
\<close>

definition leading_number :: "ustring \<Rightarrow> nat option" where
  "leading_number s =
     (let digits = takeWhile is_ascii_digit s in if digits = [] then None else parse_usize digits)"

section \<open>A line's own input\<close>

text \<open>The display columns of the leading whitespace; \<open>None\<close> for a blank line.\<close>

fun indent_walk :: "nat \<Rightarrow> nat \<Rightarrow> ustring \<Rightarrow> nat" where
  "indent_walk tabstop cols [] = cols"
| "indent_walk tabstop cols (c # s) =
     (if c = 32 then indent_walk tabstop (cols + 1) s
      else if c = 9 then indent_walk tabstop (cols + (tabstop - cols mod tabstop)) s
      else cols)"

definition indent_cols_of :: "ustring \<Rightarrow> nat \<Rightarrow> nat option" where
  "indent_cols_of line tabstop = (if trim line = [] then None else Some (indent_walk tabstop 0 line))"

type_synonym marker_tok = "bool \<times> nat option"

definition marker_toks_of :: "ustring \<Rightarrow> ustring \<Rightarrow> ustring \<Rightarrow> marker_tok list option" where
  "marker_toks_of line opn cls =
     (let markers = map (\<lambda>p. (p, True)) (match_indices opn line) @ map (\<lambda>p. (p, False)) (match_indices cls line) in
      if markers = [] then None
      else Some (map (\<lambda>(pos, is_open).
             (is_open, leading_number (drop (pos + (if is_open then length opn else length cls)) line)))
           (sort_key fst markers)))"

fun marker_walk :: "nat \<Rightarrow> marker_tok list \<Rightarrow> nat \<times> nat \<Rightarrow> nat \<times> nat" where
  "marker_walk start_lvl [] ln = ln"
| "marker_walk start_lvl ((is_open, num) # toks) (lvl, nxt) =
     marker_walk start_lvl toks
       (case num of
          Some n \<Rightarrow>
            if 0 < n then if is_open then (n, n) else (min n start_lvl, n - 1)
            else if is_open then (lvl + 1, nxt + 1) else (lvl, nxt - 1)
        | None \<Rightarrow> if is_open then (lvl + 1, nxt + 1) else (lvl, nxt - 1))"

definition marker_levels_from :: "marker_tok list \<Rightarrow> nat \<Rightarrow> nat \<times> nat" where
  "marker_levels_from toks start_lvl = marker_walk start_lvl toks (start_lvl, start_lvl)"

datatype fold_expr_value =
    EvLevel nat
  | EvUndefined
  | EvSame
  | EvAdd nat
  | EvSub nat
  | EvStart nat
  | EvEnd nat

definition parse_foldexpr_value :: "ustring \<Rightarrow> fold_expr_value" where
  "parse_foldexpr_value raw =
     (let v = trim raw; num = (\<lambda>s. parse_usize (trim s));
          of_num = (\<lambda>k. case num (tl v) of Some n \<Rightarrow> k n | None \<Rightarrow> EvLevel 0)
      in if v = us ''='' then EvSame
         else if v \<noteq> [] \<and> hd v = uc CHR ''>'' then of_num EvStart
         else if v \<noteq> [] \<and> hd v = uc CHR ''<'' then of_num EvEnd
         else if v \<noteq> [] \<and> hd v \<in> {uc CHR ''a'', uc CHR ''A''} then of_num EvAdd
         else if v \<noteq> [] \<and> hd v \<in> {uc CHR ''s'', uc CHR ''S''} then of_num EvSub
         else if v = us ''-1'' then EvUndefined
         else EvLevel (case num v of Some n \<Rightarrow> n | None \<Rightarrow> 0))"

section \<open>Levels to ranges\<close>

text \<open>The folds still open, innermost first, closed down to a level; \<open>i\<close> is the line after their end.\<close>

definition long_enough :: "nat \<Rightarrow> nat \<Rightarrow> nat \<Rightarrow> bool" where
  "long_enough minlines start stop \<longleftrightarrow> start < stop \<and> minlines < stop - start + 1"

fun close_folds ::
  "nat \<Rightarrow> nat \<Rightarrow> nat \<Rightarrow> nat list \<Rightarrow> (nat \<times> nat \<times> nat) list \<Rightarrow> nat list \<times> (nat \<times> nat \<times> nat) list" where
  "close_folds minlines cur stop [] out = ([], out)"
| "close_folds minlines cur stop (start # opn) out =
     (if cur < length (start # opn)
      then close_folds minlines cur stop opn
             (if long_enough minlines start stop then out @ [(start, stop, length (start # opn))] else out)
      else (start # opn, out))"

fun scan_levels ::
  "nat \<Rightarrow> nat \<Rightarrow> nat list \<Rightarrow> nat list \<Rightarrow> (nat \<times> nat \<times> nat) list \<Rightarrow> nat list \<times> (nat \<times> nat \<times> nat) list" where
  "scan_levels minlines i [] opn out = (opn, out)"
| "scan_levels minlines i (cur # ls) opn out =
     (let (opn, out) = close_folds minlines cur (i - 1) opn out in
      scan_levels minlines (i + 1) ls (replicate (cur - length opn) i @ opn) out)"

text \<open>\<open>dedup_by\<close>: of consecutive elements with the same key the first stays.\<close>

fun dedup_by :: "('a \<Rightarrow> 'a \<Rightarrow> bool) \<Rightarrow> 'a list \<Rightarrow> 'a list" where
  "dedup_by eq [] = []"
| "dedup_by eq [x] = [x]"
| "dedup_by eq (x # y # xs) = (if eq y x then dedup_by eq (x # xs) else x # dedup_by eq (y # xs))"

definition ranges_from_levels :: "nat list \<Rightarrow> nat \<Rightarrow> (nat \<times> nat \<times> nat) list" where
  "ranges_from_levels levels minlines =
     (let (opn, out) = scan_levels minlines 0 levels [] [];
          out = snd (close_folds minlines 0 (length levels - 1) opn out)
      in dedup_by (\<lambda>a b. fst a = fst b \<and> fst (snd a) = fst (snd b)) (sort out))"

definition ranges_from_containment ::
  "(nat \<times> nat) list \<Rightarrow> nat \<Rightarrow> nat \<Rightarrow> nat \<Rightarrow> (nat \<times> nat \<times> nat) list" where
  "ranges_from_containment spans line_count nestmax minlines =
     ranges_from_levels
       (fold (\<lambda>(start, stop) levels.
          map (\<lambda>(i, l). if start \<le> i \<and> i \<le> min stop (line_count - 1) then min (l + 1) nestmax else l)
            (enumerate 0 levels)) spans (replicate line_count 0))
       minlines"

text \<open>Masked lines (blank, or \<open>-1\<close>): a maximal run of them takes the lower of the levels around it.\<close>

function resolve_masked :: "nat option \<Rightarrow> (nat \<times> bool) list \<Rightarrow> nat list" where
  "resolve_masked prev [] = []"
| "resolve_masked prev ((l, False) # rest) = l # resolve_masked (Some l) rest"
| "resolve_masked prev ((l, True) # rest) =
     (let run = takeWhile snd rest; after = dropWhile snd rest;
          lvl = (case (prev, after) of
               (Some p, (q, _) # _) \<Rightarrow> min p q
             | (Some p, []) \<Rightarrow> p
             | (None, (q, _) # _) \<Rightarrow> q
             | (None, []) \<Rightarrow> 0)
      in replicate (1 + length run) lvl @ resolve_masked (Some lvl) after)"
  by pat_completeness auto

termination
  by (relation "measure (\<lambda>(prev, ls). length ls)") (auto simp: less_Suc_eq_le length_dropWhile_le)

definition resolve_masked_levels :: "nat list \<Rightarrow> bool list \<Rightarrow> nat list" where
  "resolve_masked_levels levels masked = resolve_masked None (zip levels masked)"

section \<open>The sources\<close>

definition indent_folds :: "nat \<Rightarrow> nat \<Rightarrow> nat \<Rightarrow> nat option list \<Rightarrow> (nat \<times> nat \<times> nat) list" where
  "indent_folds shiftwidth nestmax minlines cols =
     (let sw = max shiftwidth 1;
          levels = map (\<lambda>c. case c of Some c \<Rightarrow> min (c div sw) nestmax | None \<Rightarrow> 0) cols
      in ranges_from_levels (resolve_masked_levels levels (map (\<lambda>c. c = None) cols)) minlines)"

fun marker_line_levels :: "nat \<Rightarrow> nat \<Rightarrow> marker_tok list option list \<Rightarrow> nat list" where
  "marker_line_levels nestmax run [] = []"
| "marker_line_levels nestmax run (None # ls) = min run nestmax # marker_line_levels nestmax run ls"
| "marker_line_levels nestmax run (Some toks # ls) =
     (let (lvl, nxt) = marker_levels_from toks run in min lvl nestmax # marker_line_levels nestmax nxt ls)"

definition marker_folds :: "nat \<Rightarrow> nat \<Rightarrow> marker_tok list option list \<Rightarrow> (nat \<times> nat \<times> nat) list" where
  "marker_folds nestmax minlines lines = ranges_from_levels (marker_line_levels nestmax 0 lines) minlines"

fun expr_levels :: "nat \<Rightarrow> nat \<Rightarrow> fold_expr_value list \<Rightarrow> nat list" where
  "expr_levels nestmax run [] = []"
| "expr_levels nestmax run (v # vs) =
     (let lvl = min (case v of
              EvLevel k \<Rightarrow> k
            | EvUndefined \<Rightarrow> run
            | EvSame \<Rightarrow> run
            | EvAdd k \<Rightarrow> run + k
            | EvSub k \<Rightarrow> run - k
            | EvStart k \<Rightarrow> k
            | EvEnd k \<Rightarrow> k) nestmax;
          nxt = (case v of EvEnd k \<Rightarrow> min (k - 1) nestmax | _ \<Rightarrow> lvl)
      in lvl # expr_levels nestmax nxt vs)"

definition expr_value_at :: "ustring option list \<Rightarrow> nat \<Rightarrow> fold_expr_value" where
  "expr_value_at values i =
     parse_foldexpr_value
       (if i < length values then (case values ! i of Some s \<Rightarrow> s | None \<Rightarrow> us ''0'') else us ''0'')"

definition ranges_from_foldexpr_values ::
  "ustring option list \<Rightarrow> nat \<Rightarrow> nat \<Rightarrow> nat \<Rightarrow> (nat \<times> nat \<times> nat) list" where
  "ranges_from_foldexpr_values values n nestmax minlines =
     (let vs = map (expr_value_at values) [0..<n] in
      ranges_from_levels
        (resolve_masked_levels (expr_levels nestmax 0 vs) (map (\<lambda>v. v = EvUndefined) vs)) minlines)"

end
