(* ===== verification/Buffer_Edit.thy ===== *)
theory Buffer_Edit
  imports Extmark
begin

text \<open>
  The tracked mutations of a buffer (\<open>crates/bemtvi-core/src/buffer.rs\<close>): \<open>insert\<close>, \<open>remove\<close>,
  \<open>replace\<close>, the trailing-newline maintenance, the wholesale replacement, and what each does to the
  marks, the change list, the extmarks, the change span and the six edit journals. The rope is its
  bytes; its line index, a library's, is an argument, and so are operations outside the text, on which
  the library panics. Byte and line numbers are natural numbers.
\<close>

section \<open>Edits\<close>

record buffer_edit =
  start_byte :: nat
  old_end_byte :: nat
  new_end_byte :: nat
  start_point :: "nat \<times> nat"
  old_end_point :: "nat \<times> nat"
  new_end_point :: "nat \<times> nat"
  edit_text :: "byte list"

record edit_batch =
  batch_edits :: "buffer_edit list"
  batch_resync :: bool

text \<open>The journals: tree-sitter, LSP, Lua tree-sitter, the Lua mirror, folds, the jump lists.\<close>

datatype journal = JSyntax | JLsp | JLuaTs | JMirror | JFold | JJump

record rope_lines =
  byte_to_line_idx :: "byte list \<Rightarrow> nat \<Rightarrow> nat"
  line_to_byte_idx :: "byte list \<Rightarrow> nat \<Rightarrow> nat"

definition point_at :: "rope_lines \<Rightarrow> byte list \<Rightarrow> nat \<Rightarrow> nat \<times> nat" where
  "point_at rl t byte = (let row = byte_to_line_idx rl t byte in (row, byte - line_to_byte_idx rl t row))"

section \<open>Positions under an edit\<close>

definition before :: "nat \<times> nat \<Rightarrow> nat \<times> nat \<Rightarrow> bool" where
  "before p q \<longleftrightarrow> fst p < fst q \<or> (fst p = fst q \<and> snd p < snd q)"

text \<open>The casts back to \<open>usize\<close> are of sums that are not negative: the position is at or after \<open>oe\<close>.\<close>

definition shift_point :: "nat \<times> nat \<Rightarrow> nat \<times> nat \<Rightarrow> nat \<times> nat \<Rightarrow> nat \<times> nat \<Rightarrow> (nat \<times> nat) option" where
  "shift_point pos s oe ne =
     (if before pos s then Some pos
      else if \<not> before pos oe then
        Some (nat (int (fst pos) + (int (fst ne) - int (fst oe))),
              if fst pos = fst oe then nat (int (snd pos) + (int (snd ne) - int (snd oe))) else snd pos)
      else if fst pos < fst oe then None
      else Some s)"

definition shift_marks ::
  "(uchar \<Rightarrow> (nat \<times> nat) option) \<Rightarrow> nat \<times> nat \<Rightarrow> nat \<times> nat \<Rightarrow> nat \<times> nat \<Rightarrow> (uchar \<Rightarrow> (nat \<times> nat) option)" where
  "shift_marks ms s oe ne =
     (if s = oe \<and> oe = ne then ms else (\<lambda>c. Option.bind (ms c) (\<lambda>p. shift_point p s oe ne)))"

definition shift_changelist :: "(nat \<times> nat) list \<Rightarrow> nat \<times> nat \<Rightarrow> nat \<times> nat \<Rightarrow> nat \<times> nat \<Rightarrow> (nat \<times> nat) list" where
  "shift_changelist l s oe ne =
     (if s = oe \<and> oe = ne then l else List.map_filter (\<lambda>p. shift_point p s oe ne) l)"

definition CHANGELIST_SIZE :: nat where "CHANGELIST_SIZE = 100"

definition add_to_changelist :: "(nat \<times> nat) list \<Rightarrow> nat \<times> nat \<Rightarrow> (nat \<times> nat) list" where
  "add_to_changelist l pos =
     (if l \<noteq> [] \<and> fst (last l) = fst pos then butlast l @ [pos]
      else (if CHANGELIST_SIZE \<le> length l then tl l else l) @ [pos])"

section \<open>The buffer\<close>

record buf =
  btext :: "byte list"
  marks_of :: "uchar \<Rightarrow> (nat \<times> nat) option"
  changelist :: "(nat \<times> nat) list"
  changelistidx :: nat
  change_span :: "(nat \<times> nat) option"
  changedtick :: nat
  modified :: bool
  journals :: "journal \<Rightarrow> edit_batch"
  ext_marks :: stamped

definition DOT :: uchar where "DOT = 46"

definition shift_span :: "buffer_edit \<Rightarrow> nat \<Rightarrow> nat" where
  "shift_span e p =
     (if p \<le> start_byte e then p
      else if old_end_byte e \<le> p then p - old_end_byte e + new_end_byte e
      else new_end_byte e)"

definition push_edit :: "buffer_edit \<Rightarrow> edit_batch \<Rightarrow> edit_batch" where
  "push_edit e b = b\<lparr>batch_edits := batch_edits b @ [e]\<rparr>"

definition record_edit :: "buffer_edit \<Rightarrow> buf \<Rightarrow> buf" where
  "record_edit e b =
     (let s = start_point e; oe = old_end_point e; ne = new_end_point e;
          cl = add_to_changelist (shift_changelist (changelist b) s oe ne) s
      in b\<lparr>ext_marks := map_prod id (ext_shift (start_byte e) (old_end_byte e) (new_end_byte e)) (ext_marks b),
           marks_of := (shift_marks (marks_of b) s oe ne)(DOT \<mapsto> s),
           changelist := cl,
           changelistidx := length cl,
           change_span := Some (case change_span b of
               Some (lo, hi) \<Rightarrow> (min (shift_span e lo) (start_byte e), max (shift_span e hi) (new_end_byte e))
             | None \<Rightarrow> (start_byte e, new_end_byte e)),
           journals := (\<lambda>j. push_edit e (journals b j)),
           changedtick := changedtick b + 1,
           modified := True\<rparr>)"

definition buf_insert :: "rope_lines \<Rightarrow> nat \<Rightarrow> byte list \<Rightarrow> buf \<Rightarrow> buf" where
  "buf_insert rl p s b =
     (if s = [] then b
      else let sp = point_at rl (btext b) p; t = take p (btext b) @ s @ drop p (btext b) in
        record_edit \<lparr>start_byte = p, old_end_byte = p, new_end_byte = p + length s, start_point = sp,
            old_end_point = sp, new_end_point = point_at rl t (p + length s), edit_text = s\<rparr> (b\<lparr>btext := t\<rparr>))"

definition buf_remove :: "rope_lines \<Rightarrow> nat \<Rightarrow> nat \<Rightarrow> buf \<Rightarrow> buf" where
  "buf_remove rl p q b =
     (if q \<le> p then b
      else let sp = point_at rl (btext b) p in
        record_edit \<lparr>start_byte = p, old_end_byte = q, new_end_byte = p, start_point = sp,
            old_end_point = point_at rl (btext b) q, new_end_point = sp, edit_text = []\<rparr>
          (b\<lparr>btext := take p (btext b) @ drop q (btext b)\<rparr>))"

definition buf_replace :: "rope_lines \<Rightarrow> nat \<Rightarrow> nat \<Rightarrow> byte list \<Rightarrow> buf \<Rightarrow> buf" where
  "buf_replace rl p q s b =
     (if q \<le> p then (if s = [] then b else buf_insert rl p s b)
      else if s = [] then buf_remove rl p q b
      else let t = take p (btext b) @ s @ drop q (btext b) in
        record_edit \<lparr>start_byte = p, old_end_byte = q, new_end_byte = p + length s,
            start_point = point_at rl (btext b) p, old_end_point = point_at rl (btext b) q,
            new_end_point = point_at rl t (p + length s), edit_text = s\<rparr> (b\<lparr>btext := t\<rparr>))"

text \<open>The trailing newline, kept out of the last-change mark, the change list and the change span.\<close>

definition normalize :: "rope_lines \<Rightarrow> buf \<Rightarrow> buf" where
  "normalize rl b =
     (let n = length (btext b) in
      if n \<noteq> 0 \<and> last (btext b) = 10 then b
      else let b' = buf_insert rl n [10] b in
        b'\<lparr>marks_of := (marks_of b')(DOT := marks_of b DOT),
           changelist := changelist b,
           changelistidx := changelistidx b,
           change_span := map_option (\<lambda>(lo, hi). (min lo n, min hi n)) (change_span b)\<rparr>)"

definition mark_resync :: "buf \<Rightarrow> buf" where
  "mark_resync b =
     b\<lparr>journals := (\<lambda>j. \<lparr>batch_edits = [], batch_resync = (if j = JJump then batch_resync (journals b j) else True)\<rparr>),
       ext_marks := ext_clear_all (ext_marks b),
       marks_of := (\<lambda>_. None),
       changelist := [],
       changelistidx := 0,
       change_span := None,
       changedtick := changedtick b + 1,
       modified := True\<rparr>"

definition take_journal :: "journal \<Rightarrow> buf \<Rightarrow> edit_batch \<times> buf" where
  "take_journal j b =
     (journals b j, b\<lparr>journals := (journals b)(j := \<lparr>batch_edits = [], batch_resync = False\<rparr>)\<rparr>)"

definition take_change_span :: "buf \<Rightarrow> (nat \<times> nat) option \<times> buf" where
  "take_change_span b = (change_span b, b\<lparr>change_span := None\<rparr>)"

section \<open>A batch as one span of rows\<close>

text \<open>The conversion \<open>try_from\<close> fails on a negative row.\<close>

fun fold_rows_from :: "nat \<Rightarrow> nat \<Rightarrow> int \<Rightarrow> buffer_edit list \<Rightarrow> (nat \<times> nat) option" where
  "fold_rows_from old_end new_end sh [] = Some (old_end, new_end)"
| "fold_rows_from old_end new_end sh (e # es) =
     (if fst (start_point e) < new_end then None
      else let oe = int (fst (old_end_point e)) - sh in
        if oe < 0 then None
        else fold_rows_from (nat oe) (fst (new_end_point e)) (int (fst (new_end_point e)) - oe) es)"

definition fold_edit_rows :: "buffer_edit list \<Rightarrow> (nat \<times> nat \<times> nat) option" where
  "fold_edit_rows es =
     (case es of
        [] \<Rightarrow> None
      | e # es \<Rightarrow>
          let oe = fst (old_end_point e); ne = fst (new_end_point e) in
          map_option (Pair (fst (start_point e))) (fold_rows_from oe ne (int ne - int oe) es))"

text \<open>The lines a wholesale replacement changed: between the common prefix and the common suffix.\<close>

fun common_prefix :: "'a list \<Rightarrow> 'a list \<Rightarrow> nat" where
  "common_prefix (x # xs) (y # ys) = (if x = y then Suc (common_prefix xs ys) else 0)"
| "common_prefix _ _ = 0"

definition changed_line_span :: "'a list \<Rightarrow> 'a list \<Rightarrow> (nat \<times> nat \<times> nat) option" where
  "changed_line_span old new =
     (let p = common_prefix old new in
      if p = length old \<and> p = length new then None
      else let q = common_prefix (rev (drop p old)) (rev (drop p new)) in
           Some (p, length old - q, length new - q))"

end
