(* ===== verification/Folds.thy ===== *)
theory Folds
  imports Fold_Levels Buffer_Edit
begin

text \<open>
  A window's folds (\<open>crates/bemtvi-core/src/editor/fold.rs\<close>): the set of inclusive line
  ranges \<open>FoldState\<close>, what it hides, its adjustment to line edits, the \<open>z\<close> commands and the
  fold-aware vertical motion. Of the cursor only the line is kept; the column a command settles on
  is not modelled.
\<close>

section \<open>Fold sets\<close>

record fold_range =
  fstart :: nat
  fend :: nat
  fclosed :: bool

definition contains_line :: "fold_range \<Rightarrow> nat \<Rightarrow> bool" where
  "contains_line f line \<longleftrightarrow> fstart f \<le> line \<and> line \<le> fend f"

definition fold_lines :: "fold_range \<Rightarrow> nat" where
  "fold_lines f = fend f - fstart f + 1"

datatype fold_source = SrcManual | SrcIndent | SrcMarker | SrcTreesitter | SrcGenericExpr | SrcLsp

record fold_key =
  fk_changedtick :: nat
  fk_source :: fold_source
  fk_shiftwidth :: nat
  fk_tabstop :: nat
  fk_foldnestmax :: nat
  fk_foldminlines :: nat

record fold_state =
  folds :: "fold_range list"
  fold_cache :: "fold_key option"

definition sort_folds :: "fold_range list \<Rightarrow> fold_range list" where
  "sort_folds fs = sort_key (\<lambda>f. (int (fstart f), - int (fend f))) fs"

section \<open>Adjustment to edits\<close>

datatype line_op = InsertLines int nat | DeleteLines nat nat

definition line_op_of :: "buffer_edit \<Rightarrow> line_op option" where
  "line_op_of e =
     (let a = fst (start_point e); b = fst (old_end_point e); c = fst (new_end_point e);
          removed = b - a; added = c - a; at_line_start = (snd (start_point e) = 0)
      in if removed < added then Some (InsertLines (if at_line_start then int a - 1 else int a) (added - removed))
         else if added < removed then Some (DeleteLines (if at_line_start then a else a + 1) (removed - added))
         else None)"

definition line_ops_for_span :: "nat \<Rightarrow> nat \<Rightarrow> nat \<Rightarrow> line_op list" where
  "line_ops_for_span first old_end new_end =
     (let removed = old_end - first; added = new_end - first in
      if removed < added then [InsertLines (int old_end - 1) (added - removed)]
      else if added < removed then [DeleteLines (first + added) (removed - added)]
      else [])"

text \<open>Checked subtraction of the line numbers: \<open>None\<close> is the overflow panic of a build with checks.\<close>

definition checked_sub :: "nat \<Rightarrow> nat \<Rightarrow> nat option" where
  "checked_sub a b = (if b \<le> a then Some (a - b) else None)"

fun adjust_fold :: "line_op \<Rightarrow> fold_range \<Rightarrow> fold_range option" where
  "adjust_fold (InsertLines after n) f =
     Some (f\<lparr>fstart := (if after < int (fstart f) then fstart f + n else fstart f),
             fend := (if after < int (fend f) then fend f + n else fend f)\<rparr>)"
| "adjust_fold (DeleteLines first n) f =
     (let stop = first + n - 1 in
      if fend f < first then Some f
      else if stop < fstart f then
        (case (checked_sub (fstart f) n, checked_sub (fend f) n) of
           (Some s, Some e) \<Rightarrow> Some (f\<lparr>fstart := s, fend := e\<rparr>)
         | _ \<Rightarrow> None)
      else
        let s = min (fstart f) first;
            e = (if stop < fend f then Some (fend f - n) else checked_sub first 1)
        in Some (case e of
                   Some e \<Rightarrow> if s < e then f\<lparr>fstart := s, fend := e\<rparr> else f\<lparr>fstart := 1, fend := 0\<rparr>
                 | None \<Rightarrow> f\<lparr>fstart := 1, fend := 0\<rparr>))"

definition adjust :: "line_op \<Rightarrow> fold_range list \<Rightarrow> fold_range list option" where
  "adjust op fs = those (map (adjust_fold op) fs)"

fun adjust_all :: "line_op list \<Rightarrow> fold_range list \<Rightarrow> fold_range list option" where
  "adjust_all [] fs = Some fs"
| "adjust_all (op # ops) fs = (case adjust op fs of None \<Rightarrow> None | Some fs \<Rightarrow> adjust_all ops fs)"

text \<open>\<open>adjust_manual_folds\<close> on one window: the operations in turn, then the folds left too short or
  out of the buffer dropped, the order restored and equal ranges merged.\<close>

definition settle_folds :: "nat \<Rightarrow> fold_range list \<Rightarrow> fold_range list" where
  "settle_folds line_count fs =
     dedup_by (\<lambda>a b. fstart a = fstart b \<and> fend a = fend b)
       (sort_folds (filter (\<lambda>f. fend f < line_count \<and> fstart f < fend f) fs))"

definition adjust_window :: "line_op list \<Rightarrow> nat \<Rightarrow> fold_state \<Rightarrow> fold_state option" where
  "adjust_window ops line_count st =
     (if folds st = [] then Some st
      else map_option (\<lambda>fs. st\<lparr>folds := settle_folds line_count fs\<rparr>) (adjust_all ops (folds st)))"

section \<open>Operations on a fold set\<close>

definition exported :: "fold_state \<Rightarrow> (nat \<times> nat \<times> bool) list" where
  "exported st = map (\<lambda>f. (fstart f, fend f, fclosed f)) (folds st)"

definition restore_folds :: "(nat \<times> nat \<times> bool) list \<Rightarrow> fold_state \<Rightarrow> fold_state" where
  "restore_folds fs st = st\<lparr>folds := sort_folds
     (map (\<lambda>(s, e, c). \<lparr>fstart = s, fend = e, fclosed = c\<rparr>) (filter (\<lambda>(s, e, c). s < e) fs))\<rparr>"

fun reclose :: "nat \<Rightarrow> nat \<Rightarrow> fold_range list \<Rightarrow> fold_range list option" where
  "reclose s e [] = None"
| "reclose s e (f # fs) =
     (if fstart f = s \<and> fend f = e then Some (f\<lparr>fclosed := True\<rparr> # fs) else map_option ((#) f) (reclose s e fs))"

definition create :: "nat \<Rightarrow> nat \<Rightarrow> fold_state \<Rightarrow> bool \<times> fold_state" where
  "create s e st =
     (if e \<le> s then (False, st)
      else case reclose s e (folds st) of
        Some fs \<Rightarrow> (True, st\<lparr>folds := fs\<rparr>)
      | None \<Rightarrow> (True, st\<lparr>folds := sort_folds (folds st @ [\<lparr>fstart = s, fend = e, fclosed = True\<rparr>])\<rparr>))"

definition innermost_at :: "nat \<Rightarrow> fold_range list \<Rightarrow> nat option" where
  "innermost_at line fs =
     map_option fst (min_by_key (\<lambda>(_, f). fold_lines f) (filter (\<lambda>(_, f). contains_line f line) (enumerate 0 fs)))"

definition collapsing_at :: "nat \<Rightarrow> fold_range list \<Rightarrow> fold_range option" where
  "collapsing_at line fs = max_by_key fold_lines (filter (\<lambda>f. fclosed f \<and> contains_line f line) fs)"

fun regions_from :: "nat \<Rightarrow> nat option \<Rightarrow> fold_range list \<Rightarrow> fold_range list" where
  "regions_from line_count covered [] = []"
| "regions_from line_count covered (f # fs) =
     (let e = min (fend f) (line_count - 1) in
      if \<not> fclosed f \<or> line_count \<le> fstart f \<or> (case covered of Some ce \<Rightarrow> fstart f \<le> ce | None \<Rightarrow> False)
           \<or> e \<le> fstart f
      then regions_from line_count covered fs
      else \<lparr>fstart = fstart f, fend = e, fclosed = True\<rparr> # regions_from line_count (Some e) fs)"

definition collapsed_regions :: "nat \<Rightarrow> fold_range list \<Rightarrow> fold_range list" where
  "collapsed_regions line_count fs = regions_from line_count None fs"

definition set_folds :: "fold_range list \<Rightarrow> fold_state \<Rightarrow> fold_state" where
  "set_folds fs st = st\<lparr>folds := fs\<rparr>"

definition open_one :: "nat \<Rightarrow> fold_state \<Rightarrow> bool \<times> fold_state" where
  "open_one line st =
     (case collapsing_at line (folds st) of
        None \<Rightarrow> (False, st)
      | Some target \<Rightarrow> (True, set_folds (map (\<lambda>f.
            if fstart f = fstart target \<and> fend f = fend target then f\<lparr>fclosed := False\<rparr> else f) (folds st)) st))"

definition close_one :: "nat \<Rightarrow> fold_state \<Rightarrow> nat option \<times> fold_state" where
  "close_one line st =
     (case map_option fst (min_by_key (\<lambda>(_, f). fold_lines f)
             (filter (\<lambda>(_, f). \<not> fclosed f \<and> contains_line f line) (enumerate 0 (folds st)))) of
        None \<Rightarrow> (None, st)
      | Some i \<Rightarrow> (Some (fstart (folds st ! i)), set_folds ((folds st)[i := (folds st ! i)\<lparr>fclosed := True\<rparr>]) st))"

definition open_recursive :: "nat \<Rightarrow> fold_state \<Rightarrow> fold_state" where
  "open_recursive line st =
     set_folds (map (\<lambda>f. if contains_line f line then f\<lparr>fclosed := False\<rparr> else f) (folds st)) st"

definition close_recursive :: "nat \<Rightarrow> fold_state \<Rightarrow> nat option \<times> fold_state" where
  "close_recursive line st =
     (fold (\<lambda>f start. if contains_line f line
                then Some (case start of None \<Rightarrow> fstart f | Some s \<Rightarrow> min s (fstart f)) else start) (folds st) None,
      set_folds (map (\<lambda>f. if contains_line f line then f\<lparr>fclosed := True\<rparr> else f) (folds st)) st)"

definition open_all :: "fold_state \<Rightarrow> fold_state" where
  "open_all st = set_folds (map (\<lambda>f. f\<lparr>fclosed := False\<rparr>) (folds st)) st"

definition close_all :: "fold_state \<Rightarrow> fold_state" where
  "close_all st = set_folds (map (\<lambda>f. f\<lparr>fclosed := True\<rparr>) (folds st)) st"

definition delete_at :: "nat \<Rightarrow> fold_state \<Rightarrow> bool \<times> fold_state" where
  "delete_at line st =
     (case innermost_at line (folds st) of
        Some i \<Rightarrow> (True, set_folds (take i (folds st) @ drop (i + 1) (folds st)) st)
      | None \<Rightarrow> (False, st))"

definition delete_all :: "fold_state \<Rightarrow> fold_state" where
  "delete_all st = set_folds [] st"

fun marker_cells :: "nat \<Rightarrow> bool \<Rightarrow> nat \<Rightarrow> fold_range list \<Rightarrow> ustring" where
  "marker_cells 0 foldenable line fs = []"
| "marker_cells (Suc w) foldenable line [] = replicate (Suc w) 32"
| "marker_cells (Suc w) foldenable line (f # fs) =
     (if foldenable \<and> fclosed f then uc CHR ''+'' # replicate w 32
      else (if fstart f = line then uc CHR ''-'' else 9474) # marker_cells w foldenable line fs)"

definition column_marker :: "nat \<Rightarrow> nat \<Rightarrow> bool \<Rightarrow> fold_range list \<Rightarrow> ustring" where
  "column_marker line width foldenable fs =
     marker_cells width foldenable line (filter (\<lambda>f. contains_line f line) fs)"

definition next_fold_start :: "nat \<Rightarrow> fold_range list \<Rightarrow> nat option" where
  "next_fold_start line fs = min_by_key id (filter (\<lambda>s. line < s) (map fstart fs))"

definition prev_fold_end :: "nat \<Rightarrow> fold_range list \<Rightarrow> nat option" where
  "prev_fold_end line fs = max_by_key id (filter (\<lambda>e. e < line) (map fend fs))"

definition level_at :: "fold_range list \<Rightarrow> nat \<Rightarrow> nat" where
  "level_at fs i =
     1 + length (filter (\<lambda>g. fstart g \<le> fstart (fs ! i) \<and> fend (fs ! i) \<le> fend g \<and>
                             (fstart g, fend g) \<noteq> (fstart (fs ! i), fend (fs ! i))) fs)"

definition rebuild_computed :: "(nat \<times> nat \<times> nat) list \<Rightarrow> nat \<Rightarrow> fold_key \<Rightarrow> fold_state \<Rightarrow> fold_state" where
  "rebuild_computed ranges foldlevel key st =
     \<lparr>folds = sort_folds (map (\<lambda>(s, e, level).
          \<lparr>fstart = s, fend = e,
           fclosed = (case find (\<lambda>f. fstart f = s \<and> fend f = e) (folds st) of
                        Some f \<Rightarrow> fclosed f | None \<Rightarrow> foldlevel < level)\<rparr>) ranges),
      fold_cache = Some key\<rparr>"

definition apply_foldlevel :: "nat \<Rightarrow> fold_state \<Rightarrow> fold_state" where
  "apply_foldlevel foldlevel st =
     set_folds (map (\<lambda>(f, level). f\<lparr>fclosed := foldlevel < level\<rparr>)
       (zip (folds st) (map (level_at (folds st)) [0..<length (folds st)]))) st"

section \<open>The editor's fold commands\<close>

text \<open>The focused window: its folds and options, the cursor line, the buffer's last line and whether
  the mode is Insert.\<close>

record fold_win =
  win_folds :: fold_state
  foldenable :: bool
  foldlevel :: nat
  cur_line :: nat
  last_line :: nat
  inserting :: bool

definition collapsing_fold_at :: "nat \<Rightarrow> fold_win \<Rightarrow> fold_range option" where
  "collapsing_fold_at line w = (if foldenable w then collapsing_at line (folds (win_folds w)) else None)"

definition fold_line_start :: "fold_win \<Rightarrow> nat \<Rightarrow> nat" where
  "fold_line_start w line = (case collapsing_fold_at line w of Some f \<Rightarrow> fstart f | None \<Rightarrow> line)"

definition fold_line_end :: "fold_win \<Rightarrow> nat \<Rightarrow> nat" where
  "fold_line_end w line = (case collapsing_fold_at line w of Some f \<Rightarrow> fend f | None \<Rightarrow> line)"

fun below_folds :: "fold_win \<Rightarrow> nat \<Rightarrow> nat \<Rightarrow> nat" where
  "below_folds w 0 l = l"
| "below_folds w (Suc n) l =
     (if last_line w \<le> fold_line_end w l then l else below_folds w n (fold_line_start w (fold_line_end w l + 1)))"

definition line_below_folds :: "fold_win \<Rightarrow> nat \<Rightarrow> nat \<Rightarrow> nat" where
  "line_below_folds w line n = below_folds w n (fold_line_start w line)"

fun above_folds :: "fold_win \<Rightarrow> nat \<Rightarrow> nat \<Rightarrow> nat" where
  "above_folds w 0 l = l"
| "above_folds w (Suc n) l = (if l = 0 then l else above_folds w n (fold_line_start w (l - 1)))"

definition line_above_folds :: "fold_win \<Rightarrow> nat \<Rightarrow> nat \<Rightarrow> nat" where
  "line_above_folds w line n = above_folds w n (fold_line_start w line)"

definition settle_on_fold_line :: "nat \<Rightarrow> fold_win \<Rightarrow> fold_win" where
  "settle_on_fold_line line w = w\<lparr>cur_line := min line (last_line w)\<rparr>"

definition enable_folding :: "fold_win \<Rightarrow> fold_win" where
  "enable_folding w = w\<lparr>foldenable := True\<rparr>"

definition create_fold :: "nat \<Rightarrow> nat \<Rightarrow> fold_win \<Rightarrow> fold_win" where
  "create_fold first stop w =
     (let lo = min first stop; hi = max first stop; (made, st) = create lo hi (win_folds w) in
      if made then enable_folding (w\<lparr>win_folds := st\<rparr>)\<lparr>cur_line := min lo (last_line w)\<rparr> else w\<lparr>win_folds := st\<rparr>)"

definition fold_open :: "fold_win \<Rightarrow> fold_win" where
  "fold_open w = w\<lparr>win_folds := snd (open_one (cur_line w) (win_folds w))\<rparr>"

definition fold_close :: "fold_win \<Rightarrow> fold_win" where
  "fold_close w =
     (let w = enable_folding w; (start, st) = close_one (cur_line w) (win_folds w); w = w\<lparr>win_folds := st\<rparr> in
      case start of Some s \<Rightarrow> settle_on_fold_line s w | None \<Rightarrow> w)"

definition fold_toggle :: "fold_win \<Rightarrow> fold_win" where
  "fold_toggle w = (if collapsing_fold_at (cur_line w) w \<noteq> None then fold_open w else fold_close w)"

definition fold_open_recursive :: "fold_win \<Rightarrow> fold_win" where
  "fold_open_recursive w = w\<lparr>win_folds := open_recursive (cur_line w) (win_folds w)\<rparr>"

definition fold_close_recursive :: "fold_win \<Rightarrow> fold_win" where
  "fold_close_recursive w =
     (let w = enable_folding w; (start, st) = close_recursive (cur_line w) (win_folds w); w = w\<lparr>win_folds := st\<rparr> in
      case start of Some s \<Rightarrow> settle_on_fold_line s w | None \<Rightarrow> w)"

definition fold_open_all :: "fold_win \<Rightarrow> fold_win" where
  "fold_open_all w = w\<lparr>win_folds := open_all (win_folds w)\<rparr>"

definition fold_close_all :: "fold_win \<Rightarrow> fold_win" where
  "fold_close_all w =
     (let w = (enable_folding w)\<lparr>win_folds := close_all (win_folds w)\<rparr> in
      case collapsing_fold_at (cur_line w) w of Some f \<Rightarrow> settle_on_fold_line (fstart f) w | None \<Rightarrow> w)"

definition fold_delete :: "fold_win \<Rightarrow> fold_win" where
  "fold_delete w = w\<lparr>win_folds := snd (delete_at (cur_line w) (win_folds w))\<rparr>"

definition fold_delete_all :: "fold_win \<Rightarrow> fold_win" where
  "fold_delete_all w = w\<lparr>win_folds := delete_all (win_folds w)\<rparr>"

definition set_foldenable :: "bool option \<Rightarrow> fold_win \<Rightarrow> fold_win" where
  "set_foldenable on w = w\<lparr>foldenable := (case on of Some b \<Rightarrow> b | None \<Rightarrow> \<not> foldenable w)\<rparr>"

definition fold_next :: "fold_win \<Rightarrow> fold_win" where
  "fold_next w =
     (case next_fold_start (cur_line w) (folds (win_folds w)) of
        Some s \<Rightarrow> settle_on_fold_line (fold_line_start w s) w | None \<Rightarrow> w)"

definition fold_prev :: "fold_win \<Rightarrow> fold_win" where
  "fold_prev w =
     (case prev_fold_end (cur_line w) (folds (win_folds w)) of
        Some e \<Rightarrow> settle_on_fold_line (fold_line_start w e) w | None \<Rightarrow> w)"

definition create_fold_lines :: "nat \<Rightarrow> fold_win \<Rightarrow> fold_win" where
  "create_fold_lines n w =
     (let first = cur_line w in create_fold first (min (first + (n - 1)) (last_line w)) w)"

datatype fold_cmd =
    FoldOpen | FoldClose | FoldToggle | FoldOpenRecursive | FoldCloseRecursive | FoldOpenAll
  | FoldCloseAll | FoldDelete | FoldDeleteAll | FoldCreateLines | FoldEnable "bool option"
  | FoldNext | FoldPrev

fun execute_fold :: "fold_cmd \<Rightarrow> nat \<Rightarrow> fold_win \<Rightarrow> fold_win" where
  "execute_fold FoldOpen n w = fold_open w"
| "execute_fold FoldClose n w = fold_close w"
| "execute_fold FoldToggle n w = fold_toggle w"
| "execute_fold FoldOpenRecursive n w = fold_open_recursive w"
| "execute_fold FoldCloseRecursive n w = fold_close_recursive w"
| "execute_fold FoldOpenAll n w = fold_open_all w"
| "execute_fold FoldCloseAll n w = fold_close_all w"
| "execute_fold FoldDelete n w = fold_delete w"
| "execute_fold FoldDeleteAll n w = fold_delete_all w"
| "execute_fold FoldCreateLines n w = create_fold_lines n w"
| "execute_fold (FoldEnable on) n w = set_foldenable on w"
| "execute_fold FoldNext n w = fold_next w"
| "execute_fold FoldPrev n w = fold_prev w"

section \<open>Computed folds\<close>

definition snap_cursor_to_fold_header :: "fold_win \<Rightarrow> fold_win" where
  "snap_cursor_to_fold_header w =
     (let start = fold_line_start w (cur_line w) in
      if start = cur_line w \<or> inserting w then w else w\<lparr>cur_line := min start (last_line w)\<rparr>)"

text \<open>\<open>refresh_folds\<close> for a window of the given source: the ranges come from the source's own
  computation, \<open>None\<close> while it is not ready.\<close>

definition refresh_folds :: "fold_key \<Rightarrow> (nat \<times> nat \<times> nat) list option \<Rightarrow> fold_win \<Rightarrow> fold_win" where
  "refresh_folds key computed w =
     (if fk_source key = SrcManual \<or> fold_cache (win_folds w) = Some key then w
      else case computed of
        None \<Rightarrow> w
      | Some ranges \<Rightarrow> snap_cursor_to_fold_header
          (w\<lparr>win_folds := rebuild_computed ranges (foldlevel w) key (win_folds w)\<rparr>))"

definition set_foldlevel :: "fold_key \<Rightarrow> (nat \<times> nat \<times> nat) list option \<Rightarrow> nat \<Rightarrow> fold_win \<Rightarrow> fold_win" where
  "set_foldlevel key computed level w =
     (let w = w\<lparr>foldlevel := level\<rparr> in
      if fk_source key = SrcManual then w
      else let w = refresh_folds key computed w in
           snap_cursor_to_fold_header (w\<lparr>win_folds := apply_foldlevel level (win_folds w)\<rparr>))"

end
