(* ===== verification/Fold_LevelProps.thy ===== *)
theory Fold_LevelProps
  imports Fold_Levels
begin

text \<open>
  Computed folds: the ranges built from a level per line are exactly the maximal runs of lines at a
  depth or deeper, each once, nested or disjoint; masked lines take the lower of their neighbours.
\<close>

section \<open>Runs\<close>

definition level_run :: "nat list \<Rightarrow> nat \<Rightarrow> nat \<Rightarrow> nat \<Rightarrow> bool" where
  "level_run ls s e d \<longleftrightarrow> 0 < d \<and> s \<le> e \<and> e < length ls \<and> (\<forall>i. s \<le> i \<and> i \<le> e \<longrightarrow> d \<le> ls ! i) \<and>
     (s = 0 \<or> ls ! (s - 1) < d) \<and> (e + 1 = length ls \<or> ls ! (e + 1) < d)"

lemma level_run_nested:
  assumes "level_run ls s e d" and "level_run ls s' e' d'" and "d \<le> d'" and "s \<le> e'" and "s' \<le> e"
  shows "s \<le> s' \<and> e' \<le> e"
proof
  show "s \<le> s'"
  proof (rule ccontr)
    assume "\<not> s \<le> s'"
    then have "s \<noteq> 0" "s' \<le> s - 1" "s - 1 \<le> e'" using assms(4) by auto
    then show False using assms(1-3) unfolding level_run_def by (metis le_trans not_less)
  qed
  show "e' \<le> e"
  proof (rule ccontr)
    assume "\<not> e' \<le> e"
    then have "e + 1 \<noteq> length ls" "s' \<le> e + 1" "e + 1 \<le> e'" using assms(2,5) by (auto simp: level_run_def)
    then show False using assms(1-3) unfolding level_run_def by (metis le_trans not_less)
  qed
qed

text \<open>A run is determined by its depth and its last line.\<close>

lemma level_run_start: "level_run ls s e d \<Longrightarrow> level_run ls s' e d \<Longrightarrow> s = s'"
  using level_run_nested[of ls s e d s' e d] level_run_nested[of ls s' e d s e d]
  by (auto simp: level_run_def intro: antisym)

section \<open>The scan\<close>

lemma ex_Suc_split: "(\<exists>k. P k) \<longleftrightarrow> P 0 \<or> (\<exists>k. P (Suc k))" for P :: "nat \<Rightarrow> bool"
  by (metis not0_implies_Suc)

lemma close_folds_spec:
  "fst (close_folds m cur stop opn out) = drop (length opn - cur) opn \<and>
   set (snd (close_folds m cur stop opn out)) = set out \<union>
     {(opn ! k, stop, length opn - k) | k. k < length opn - cur \<and> long_enough m (opn ! k) stop}"
proof (induction m cur stop opn out rule: close_folds.induct)
  case (2 m cur stop start opn out)
  show ?case
  proof (cases "cur < length (start # opn)")
    case True
    then have n: "length (start # opn) - cur = Suc (length opn - cur)" by simp
    have split: "{((start # opn) ! k, stop, length (start # opn) - k) | k.
          k < Suc (length opn - cur) \<and> long_enough m ((start # opn) ! k) stop} =
        (if long_enough m start stop then {(start, stop, length (start # opn))} else {}) \<union>
        {(opn ! k, stop, length opn - k) | k. k < length opn - cur \<and> long_enough m (opn ! k) stop}" (is "?L = ?R")
    proof (rule set_eqI)
      fix x :: "nat \<times> nat \<times> nat"
      have "(\<exists>k. x = ((start # opn) ! k, stop, length (start # opn) - k) \<and> k < Suc (length opn - cur) \<and>
            long_enough m ((start # opn) ! k) stop) \<longleftrightarrow>
          x = (start, stop, length (start # opn)) \<and> long_enough m start stop \<or>
          (\<exists>k. x = (opn ! k, stop, length opn - k) \<and> k < length opn - cur \<and> long_enough m (opn ! k) stop)"
        by (subst ex_Suc_split) auto
      then show "x \<in> ?L \<longleftrightarrow> x \<in> ?R" by auto
    qed
    show ?thesis unfolding n split using 2[OF True] True by auto
  next
    case False
    then show ?thesis by simp
  qed
qed simp

definition open_ok :: "nat list \<Rightarrow> nat \<Rightarrow> nat list \<Rightarrow> bool" where
  "open_ok ls i opn \<longleftrightarrow> length opn = (if i = 0 then 0 else ls ! (i - 1)) \<and>
     (\<forall>k < length opn. opn ! k < i \<and> (\<forall>j. opn ! k \<le> j \<and> j < i \<longrightarrow> length opn - k \<le> ls ! j) \<and>
        (opn ! k = 0 \<or> ls ! (opn ! k - 1) < length opn - k))"

definition closed_runs :: "nat list \<Rightarrow> nat \<Rightarrow> nat \<Rightarrow> (nat \<times> nat \<times> nat) set" where
  "closed_runs ls m i = {(s, e, d). e + 1 < i \<and> level_run ls s e d \<and> long_enough m s e}"

text \<open>The folds closed at a line are the runs that end just before it.\<close>

lemma closing_runs:
  assumes "open_ok ls i opn" and "0 < i" and "i \<le> length ls" and "cur = (if i = length ls then 0 else ls ! i)"
  shows "{(opn ! k, i - 1, length opn - k) | k. k < length opn - cur \<and> long_enough m (opn ! k) (i - 1)} =
     {(s, e, d). e + 1 = i \<and> level_run ls s e d \<and> long_enough m s e}"
proof -
  have run: "level_run ls (opn ! k) (i - 1) (length opn - k)" if "k < length opn - cur" for k
  proof -
    have "k < length opn" using that by simp
    with assms(1) have "opn ! k < i" "\<forall>j. opn ! k \<le> j \<and> j < i \<longrightarrow> length opn - k \<le> ls ! j"
      "opn ! k = 0 \<or> ls ! (opn ! k - 1) < length opn - k" by (auto simp: open_ok_def)
    moreover have "i - 1 < length ls" "i - 1 + 1 = i" "\<And>j. j \<le> i - 1 \<Longrightarrow> j < i" using assms(2,3) by auto
    ultimately show ?thesis using assms(4) that by (auto simp: level_run_def split: if_splits)
  qed
  have all: "\<exists>k. k < length opn - cur \<and> s = opn ! k \<and> d = length opn - k"
    if r: "level_run ls s (i - 1) d" for s d
  proof -
    have len: "length opn = ls ! (i - 1)" using assms(1,2) by (simp add: open_ok_def)
    have d: "d \<le> length opn" "0 < d" "cur < d" using r assms(2-4) len by (auto simp: level_run_def split: if_splits)
    let ?k = "length opn - d"
    have k: "?k < length opn - cur" "length opn - ?k = d" using d by auto
    from level_run_start[OF r] run[OF k(1)] k(2) have "s = opn ! ?k" by simp
    with k show ?thesis by (intro exI[of _ ?k]) simp
  qed
  show ?thesis using run all assms(2) by (auto; fastforce)
qed

lemma open_ok_next:
  assumes "open_ok ls i opn" and "i < length ls"
  shows "open_ok ls (i + 1) (let opn = drop (length opn - ls ! i) opn in replicate (ls ! i - length opn) i @ opn)"
proof -
  let ?cur = "ls ! i" and ?n = "length opn"
  let ?kept = "drop (?n - ?cur) opn"
  let ?opn = "replicate (?cur - length ?kept) i @ ?kept"
  have lk: "length ?kept = min ?n ?cur" by simp
  have len: "length ?opn = ?cur" by simp
  have "?opn ! k < i + 1 \<and> (\<forall>j. ?opn ! k \<le> j \<and> j < i + 1 \<longrightarrow> ?cur - k \<le> ls ! j) \<and>
      (?opn ! k = 0 \<or> ls ! (?opn ! k - 1) < ?cur - k)" if k: "k < ?cur" for k
  proof (cases "k < ?cur - length ?kept")
    case True
    then have kn: "k < ?cur - ?n" by simp
    then have at: "?opn ! k = i" unfolding nth_append by simp
    have "i = 0 \<or> ls ! (i - 1) < ?cur - k"
      using kn assms(1) unfolding open_ok_def by (cases "i = 0") auto
    with at show ?thesis by (auto simp: less_Suc_eq_le)
  next
    case False
    let ?m = "k - (?cur - length ?kept) + (?n - ?cur)"
    have m: "?m < ?n" "?n - ?m = ?cur - k" using False k lk by auto
    have "?opn ! k = ?kept ! (k - (?cur - length ?kept))" using False by (simp only: nth_append length_replicate if_False)
    moreover have "?n - ?cur \<le> length opn" by simp
    ultimately have at: "?opn ! k = opn ! ?m" by (simp only: nth_drop add.commute)
    from assms(1) m(1) have "opn ! ?m < i" "\<forall>j. opn ! ?m \<le> j \<and> j < i \<longrightarrow> ?n - ?m \<le> ls ! j"
      "opn ! ?m = 0 \<or> ls ! (opn ! ?m - 1) < ?n - ?m" unfolding open_ok_def by blast+
    then show ?thesis unfolding at m(2) by (auto simp: less_Suc_eq)
  qed
  then show ?thesis using len unfolding open_ok_def Let_def by simp
qed

lemma scan_levels_spec:
  "open_ok ls i opn \<Longrightarrow> set out = closed_runs ls m i \<Longrightarrow> i \<le> length ls \<Longrightarrow>
   (case scan_levels m i (drop i ls) opn out of (opn', out') \<Rightarrow>
      open_ok ls (length ls) opn' \<and> set out' = closed_runs ls m (length ls))"
proof (induction "length ls - i" arbitrary: i opn out)
  case 0
  then show ?case by simp
next
  case (Suc n)
  then have i: "i < length ls" by simp
  let ?c = "close_folds m (ls ! i) (i - 1) opn out"
  let ?opn = "replicate (ls ! i - length (fst ?c)) i @ fst ?c"
  have eq: "scan_levels m i (drop i ls) opn out = scan_levels m (i + 1) (drop (i + 1) ls) ?opn (snd ?c)"
    by (simp add: Cons_nth_drop_Suc[OF i, symmetric] case_prod_unfold Let_def)
  have "open_ok ls (i + 1) ?opn"
    using open_ok_next[OF Suc.prems(1) i] close_folds_spec[of m "ls ! i" "i - 1" opn out] by (simp add: Let_def)
  moreover have "set (snd ?c) = closed_runs ls m (i + 1)"
  proof (cases "i = 0")
    case True
    then have "opn = []" using Suc.prems(1) by (simp add: open_ok_def)
    then show ?thesis using True Suc.prems(2) by (auto simp: closed_runs_def)
  next
    case False
    have "set (snd ?c) = set out \<union> {(s, e, d). e + 1 = i \<and> level_run ls s e d \<and> long_enough m s e}"
      using closing_runs[OF Suc.prems(1), of "ls ! i" m] close_folds_spec[of m "ls ! i" "i - 1" opn out] False i
      by simp
    then show ?thesis using Suc.prems(2) by (auto simp: closed_runs_def)
  qed
  ultimately show ?case unfolding eq using Suc.hyps(1)[of "i + 1" ?opn "snd ?c"] Suc.hyps(2) i by simp
qed


section \<open>Sorting and removing repeats\<close>

lemma dedup_by_head: "dedup_by eq (x # xs) = x # dedup_by eq (dropWhile (\<lambda>y. eq y x) xs)"
  by (induction xs) auto

definition range_key :: "nat \<times> nat \<times> nat \<Rightarrow> nat \<times> nat" where
  "range_key r = (fst r, fst (snd r))"

lemma range_key_mono: "a \<le> b \<Longrightarrow> range_key a \<le> range_key b"
  by (cases a; cases b) (auto simp: range_key_def less_eq_prod_def)

lemma least_by_key:
  fixes x :: "'a::linorder" and key :: "'a \<Rightarrow> 'b::linorder"
  assumes "S = insert x (A \<union> Z)" and "\<And>y. y \<in> A \<Longrightarrow> key y = key x \<and> x \<le> y" and "\<And>z. z \<in> Z \<Longrightarrow> key x < key z"
  shows "{z \<in> S. \<forall>y \<in> S. key y = key z \<longrightarrow> z \<le> y} = insert x {z \<in> Z. \<forall>y \<in> Z. key y = key z \<longrightarrow> z \<le> y}"
proof (rule set_eqI)
  fix z
  consider (new) "z = x" | (same) "z \<in> A" "z \<noteq> x" | (rest) "z \<in> Z" "z \<noteq> x" | (out) "z \<notin> S" using assms(1) by blast
  then show "z \<in> {z \<in> S. \<forall>y \<in> S. key y = key z \<longrightarrow> z \<le> y} \<longleftrightarrow> z \<in> insert x {z \<in> Z. \<forall>y \<in> Z. key y = key z \<longrightarrow> z \<le> y}"
  proof cases
    case new
    then show ?thesis using assms by fastforce
  next
    case same
    then have "key z = key x" "x \<le> z" "z \<notin> Z" using assms(2)[of z] assms(3)[of z] by auto
    then show ?thesis using same assms(1) by fastforce
  next
    case rest
    then have "key y = key z \<longrightarrow> y \<in> Z \<or> y \<notin> S" for y using assms(2)[of y] assms(3)[of z] assms(1) by auto
    then show ?thesis using rest assms(1) by blast
  next
    case out
    then show ?thesis using assms(1) by blast
  qed
qed

lemma sorted_dedup:
  assumes "sorted xs"
  shows "set (dedup_by (\<lambda>a b. range_key a = range_key b) xs) =
       {x \<in> set xs. \<forall>y \<in> set xs. range_key y = range_key x \<longrightarrow> x \<le> y} \<and>
     sorted_wrt (\<lambda>a b. range_key a < range_key b) (dedup_by (\<lambda>a b. range_key a = range_key b) xs)"
  using assms
proof (induction "length xs" arbitrary: xs rule: less_induct)
  case less
  show ?case
  proof (cases xs)
    case (Cons x ys)
    let ?same = "\<lambda>y. range_key y = range_key x"
    let ?zs = "dropWhile ?same ys"
    have sorted: "sorted ys" "\<And>y. y \<in> set ys \<Longrightarrow> x \<le> y" using less.prems Cons by auto
    have zs: "sorted ?zs" "length ?zs < length xs" using sorted(1) Cons
      by (simp_all add: sorted_dropWhile less_Suc_eq_le length_dropWhile_le)
    have keys: "range_key x < range_key z" if z: "z \<in> set ?zs" for z
    proof -
      from z obtain w ws where ws: "?zs = w # ws" by (cases ?zs) auto
      then have "range_key w \<noteq> range_key x" "w \<in> set ys"
        using hd_dropWhile[of ?same ys] set_dropWhileD[of w ?same ys] by force+
      moreover have "w \<le> z" using zs(1) ws z by auto
      ultimately have "range_key x \<le> range_key w" "range_key w \<le> range_key z" "range_key w \<noteq> range_key x"
        using range_key_mono[OF sorted(2)] range_key_mono by blast+
      then show ?thesis by (metis order_le_less order_less_le_trans)
    qed
    have split: "set xs = insert x (set (takeWhile ?same ys) \<union> set ?zs)"
      using Cons set_append[of "takeWhile ?same ys" ?zs] by simp
    have same: "range_key y = range_key x \<and> x \<le> y" if "y \<in> set (takeWhile ?same ys)" for y
      using that sorted(2) set_takeWhileD[of y ?same ys] by blast
    note ih = less.hyps[OF zs(2,1)]
    have eq: "dedup_by (\<lambda>a b. range_key a = range_key b) xs = x # dedup_by (\<lambda>a b. range_key a = range_key b) ?zs"
      unfolding Cons by (rule dedup_by_head)
    have "{z \<in> set xs. \<forall>y \<in> set xs. range_key y = range_key z \<longrightarrow> z \<le> y} =
        insert x {z \<in> set ?zs. \<forall>y \<in> set ?zs. range_key y = range_key z \<longrightarrow> z \<le> y}"
      using split same keys by (rule least_by_key)
    then show ?thesis using ih keys unfolding eq by simp
  qed simp
qed

section \<open>The ranges are the runs\<close>

lemma ranges_scanned:
  obtains out where "set out = closed_runs ls m (length ls + 1)"
    and "ranges_from_levels ls m = dedup_by (\<lambda>a b. range_key a = range_key b) (sort out)"
proof -
  obtain opn out where sc: "scan_levels m 0 ls [] [] = (opn, out)" by fastforce
  have ok: "open_ok ls (length ls) opn" "set out = closed_runs ls m (length ls)"
    using scan_levels_spec[of ls 0 "[]" "[]" m] sc by (auto simp: open_ok_def closed_runs_def)
  let ?c = "close_folds m 0 (length ls - 1) opn out"
  have "set (snd ?c) = closed_runs ls m (length ls + 1)"
  proof (cases "length ls = 0")
    case True
    then have "opn = []" using ok(1) by (simp add: open_ok_def)
    then show ?thesis using True ok(2) by (auto simp: closed_runs_def level_run_def)
  next
    case False
    then have "set (snd ?c) = set out \<union> {(s, e, d). e + 1 = length ls \<and> level_run ls s e d \<and> long_enough m s e}"
      using closing_runs[OF ok(1), of 0 m] close_folds_spec[of m 0 "length ls - 1" opn out] by simp
    then show ?thesis using ok(2) by (auto simp: closed_runs_def)
  qed
  moreover have "ranges_from_levels ls m = dedup_by (\<lambda>a b. range_key a = range_key b) (sort (snd ?c))"
    by (simp add: ranges_from_levels_def sc range_key_def[abs_def])
  ultimately show thesis by (rule that)
qed

text \<open>C23. The ranges built from a fold level per line are exactly the maximal runs of lines whose level
  is at least some depth, of at least two lines and more than \<open>'foldminlines'\<close>; a span that
  is a run at several depths is listed once, at the least; they come in strictly increasing order
  of start and end, and any two of them nest or are disjoint.\<close>

theorem ranges_exact:
  "((s, e, d) \<in> set (ranges_from_levels ls m) \<longleftrightarrow>
      level_run ls s e d \<and> long_enough m s e \<and> \<not> (\<exists>d' < d. level_run ls s e d')) \<and>
   sorted_wrt (\<lambda>(s, e, _) (s', e', _). (s, e) < (s', e')) (ranges_from_levels ls m) \<and>
   ((s, e, d) \<in> set (ranges_from_levels ls m) \<and> (s', e', d') \<in> set (ranges_from_levels ls m) \<longrightarrow>
      e < s' \<or> e' < s \<or> (s \<le> s' \<and> e' \<le> e) \<or> (s' \<le> s \<and> e \<le> e'))"
proof -
  obtain out where out: "set out = closed_runs ls m (length ls + 1)"
    "ranges_from_levels ls m = dedup_by (\<lambda>a b. range_key a = range_key b) (sort out)" by (rule ranges_scanned)
  have all: "x \<in> set (sort out) \<longleftrightarrow> (case x of (s, e, d) \<Rightarrow> level_run ls s e d \<and> long_enough m s e)" for x
    using out(1) by (auto simp: closed_runs_def level_run_def)
  have mem: "(s, e, d) \<in> set (ranges_from_levels ls m) \<longleftrightarrow>
      level_run ls s e d \<and> long_enough m s e \<and> \<not> (\<exists>d' < d. level_run ls s e d')" for s e d
    unfolding out(2) sorted_dedup[OF sorted_sort, THEN conjunct1] mem_Collect_eq Ball_def all
    by (auto simp: range_key_def less_eq_prod_def not_less)
  have "sorted_wrt (\<lambda>(s, e, _) (s', e', _). (s, e) < (s', e')) (ranges_from_levels ls m)"
    using sorted_dedup[OF sorted_sort[of out], THEN conjunct2] unfolding out(2)
    by (rule sorted_wrt_mono_rel[rotated]) (auto simp: range_key_def)
  then show ?thesis using mem level_run_nested[of ls s e d s' e' d'] level_run_nested[of ls s' e' d' s e d]
    by (meson linorder_le_cases not_le_imp_less)
qed

theorem ranges_exact_witness:
  "level_run [0, 2, 3, 3, 2] 2 3 3 \<and> \<not> (\<exists>d' < 3. level_run [0, 2, 3, 3, 2] 2 3 d') \<and>
   level_run [0, 2, 3, 3, 2] 1 4 1 \<and> (1::nat) \<le> 2 \<and> (3::nat) \<le> 4"
proof -
  have "ranges_from_levels [0, 2, 3, 3, 2] 1 = [(1, 4, 1), (2, 3, 3)]" by code_simp
  then show ?thesis
    using ranges_exact[of 2 3 3 "[0, 2, 3, 3, 2]" 1 1 4 1] ranges_exact[of 1 4 1 "[0, 2, 3, 3, 2]" 1] by simp
qed

end
