(* ===== verification/FoldProps.thy ===== *)
theory FoldProps
  imports Folds Fold_LevelProps
begin

text \<open>
  Folds of a window: what the two readers of a fold set hide, the fold-aware motion as movement
  over the visible lines, the cursor under the \<open>z\<close> commands, and fold ranges under line edits.
\<close>

section \<open>Well nested fold sets\<close>

definition nested_or_apart :: "fold_range \<Rightarrow> fold_range \<Rightarrow> bool" where
  "nested_or_apart f g \<longleftrightarrow>
     fend f < fstart g \<or> fend g < fstart f \<or> (fstart f \<le> fstart g \<and> fend g \<le> fend f) \<or>
     (fstart g \<le> fstart f \<and> fend f \<le> fend g)"

definition well_nested :: "nat \<Rightarrow> fold_range list \<Rightarrow> bool" where
  "well_nested stop fs \<longleftrightarrow> (\<forall>f \<in> set fs. fstart f < fend f \<and> fend f \<le> stop) \<and>
     (\<forall>f \<in> set fs. \<forall>g \<in> set fs. nested_or_apart f g)"

definition fold_order :: "fold_range \<Rightarrow> fold_range \<Rightarrow> bool" where
  "fold_order f g \<longleftrightarrow> fstart f < fstart g \<or> (fstart f = fstart g \<and> fend g \<le> fend f)"

lemma sort_folds_order: "sorted_wrt fold_order (sort_folds fs) \<and> set (sort_folds fs) = set fs"
proof
  have "sorted (map (\<lambda>f. (int (fstart f), - int (fend f))) (sort_folds fs))"
    unfolding sort_folds_def by (rule sorted_sort_key)
  then show "sorted_wrt fold_order (sort_folds fs)"
    unfolding sorted_map by (rule sorted_wrt_mono_rel[rotated]) (auto simp: fold_order_def less_eq_prod_def)
qed (simp add: sort_folds_def)

lemma well_nested_subset: "well_nested stop fs \<Longrightarrow> set gs \<subseteq> set fs \<Longrightarrow> well_nested stop gs"
  unfolding well_nested_def by blast

text \<open>Opening and closing folds moves none.\<close>

lemma well_nested_cong:
  assumes "well_nested stop fs" and "map (\<lambda>f. (fstart f, fend f)) gs = map (\<lambda>f. (fstart f, fend f)) fs"
  shows "well_nested stop gs"
proof -
  have member: "\<exists>f \<in> set fs. fstart f = fstart g \<and> fend f = fend g" if "g \<in> set gs" for g
  proof -
    have "(fstart g, fend g) \<in> set (map (\<lambda>f. (fstart f, fend f)) fs)" using that by (simp flip: assms(2))
    then show ?thesis by auto
  qed
  show ?thesis unfolding well_nested_def nested_or_apart_def
  proof (intro conjI ballI)
    fix g assume "g \<in> set gs"
    then obtain f where f: "f \<in> set fs" "fstart f = fstart g" "fend f = fend g" using member by blast
    then show "fstart g < fend g" "fend g \<le> stop" using assms(1) unfolding well_nested_def by metis+
    fix h assume "h \<in> set gs"
    then obtain k where k: "k \<in> set fs" "fstart k = fstart h" "fend k = fend h" using member by blast
    show "fend g < fstart h \<or> fend h < fstart g \<or> fstart g \<le> fstart h \<and> fend h \<le> fend g \<or>
        fstart h \<le> fstart g \<and> fend g \<le> fend h"
      using assms(1) f k unfolding well_nested_def nested_or_apart_def by metis
  qed
qed

section \<open>The collapsing fold\<close>

lemma collapsing_Some:
  assumes "collapsing_at l fs = Some f"
  shows "f \<in> set fs" and "fclosed f" and "fstart f \<le> l" and "l \<le> fend f"
    and "\<And>g. g \<in> set fs \<Longrightarrow> fclosed g \<Longrightarrow> contains_line g l \<Longrightarrow> fold_lines g \<le> fold_lines f"
  using max_by_key_Some[OF assms[unfolded collapsing_at_def]] by (auto simp: contains_line_def)

lemma collapsing_None: "collapsing_at l fs = None \<longleftrightarrow> (\<forall>f \<in> set fs. fclosed f \<longrightarrow> \<not> contains_line f l)"
  by (simp add: collapsing_at_def filter_empty_conv)

text \<open>Every closed fold that meets the collapsing fold lies in it.\<close>

lemma collapsing_outermost:
  assumes "well_nested stop fs" and "collapsing_at l fs = Some f" and "g \<in> set fs" and "fclosed g"
    and "contains_line g l'" and "contains_line f l'"
  shows "fstart f \<le> fstart g \<and> fend g \<le> fend f"
proof -
  note f = collapsing_Some[OF assms(2)]
  from assms(1) f(1) assms(3) have "nested_or_apart f g" "fstart f < fend f" "fstart g < fend g"
    unfolding well_nested_def by blast+
  moreover have "fstart g \<le> fstart f \<Longrightarrow> fend f \<le> fend g \<Longrightarrow> fold_lines g \<le> fold_lines f"
    using f(5)[OF assms(3,4)] f(3,4) by (simp add: contains_line_def)
  ultimately show ?thesis using assms(5,6)
    by (auto simp: nested_or_apart_def contains_line_def fold_lines_def)
qed

lemma collapsing_same:
  assumes "well_nested stop fs" and "collapsing_at l fs = Some f" and "contains_line f l'"
  shows "collapsing_at l' fs = Some f"
proof (cases "collapsing_at l' fs")
  case None
  then show ?thesis using collapsing_Some[OF assms(2)] assms(3) unfolding collapsing_None by blast
next
  case (Some g)
  note f = collapsing_Some[OF assms(2)] and g = collapsing_Some[OF Some]
  have "fstart f \<le> fstart g \<and> fend g \<le> fend f"
    by (rule collapsing_outermost[OF assms(1,2) g(1,2) _ assms(3)]) (simp add: contains_line_def g)
  moreover have "fstart g \<le> fstart f \<and> fend f \<le> fend g"
    by (rule collapsing_outermost[OF assms(1) Some f(1,2) assms(3)]) (simp add: contains_line_def g)
  ultimately have "f = g" using f(2) g(2) by (intro fold_range.equality) auto
  then show ?thesis using Some by simp
qed

section \<open>The two readers of a fold set agree\<close>

lemma regions_after: "f \<in> set (regions_from n (Some ce) fs) \<Longrightarrow> ce < fstart f"
proof (induction n "Some ce" fs arbitrary: ce rule: regions_from.induct)
  case (2 n f' fs)
  then show ?case by (auto simp: Let_def split: if_splits intro: less_trans)
qed simp

lemma regions_collapse:
  assumes "well_nested (n - 1) fs" and "sorted_wrt fold_order fs" and "l < n"
    and "\<And>ce. cov = Some ce \<Longrightarrow> ce < l \<and> (\<forall>f \<in> set fs. fstart f \<le> ce \<longrightarrow> fend f \<le> ce)"
  shows "find (\<lambda>f. contains_line f l) (regions_from n cov fs) = collapsing_at l fs"
  using assms
proof (induction n cov fs rule: regions_from.induct)
  case (1 n cov)
  then show ?case by (simp add: collapsing_at_def)
next
  case (2 n cov f fs)
  have f: "fstart f < fend f" "fend f \<le> n - 1" using 2(3) by (auto simp: well_nested_def)
  have rest: "well_nested (n - 1) fs" "sorted_wrt fold_order fs"
    using 2(3,4) by (auto intro: well_nested_subset)
  show ?case
  proof (cases "\<not> fclosed f \<or> (case cov of Some ce \<Rightarrow> fstart f \<le> ce | None \<Rightarrow> False)")
    case True
    then have "collapsing_at l (f # fs) = collapsing_at l fs"
      using 2(6) by (auto simp: collapsing_at_def contains_line_def split: option.splits)
    moreover have "find (\<lambda>f. contains_line f l) (regions_from n cov fs) = collapsing_at l fs"
      using True by (intro 2(1)[OF refl _ rest 2(5)]) (auto dest: 2(6))
    ultimately show ?thesis using True by (simp add: Let_def)
  next
    case False
    have eq: "regions_from n cov (f # fs) = f # regions_from n (Some (fend f)) fs"
      using False f 2(5) by (simp add: Let_def min_def) (auto intro: fold_range.equality)
    have later: "fstart f \<le> fstart g \<and> (fstart g \<le> fend f \<longrightarrow> fend g \<le> fend f)" if "g \<in> set fs" for g
    proof -
      have "fold_order f g" "nested_or_apart f g" using 2(3,4) that by (auto simp: well_nested_def)
      then show ?thesis using f by (auto simp: fold_order_def nested_or_apart_def)
    qed
    consider "l < fstart f" | "contains_line f l" | "fend f < l" by (force simp: contains_line_def)
    then show ?thesis
    proof cases
      case 1
      then have "collapsing_at l (f # fs) = None"
        using later unfolding collapsing_None by (fastforce simp: contains_line_def)
      moreover have "\<not> contains_line g l" if "g \<in> set (f # regions_from n (Some (fend f)) fs)" for g
        using that regions_after[of g n "fend f" fs] 1 f by (auto simp: contains_line_def)
      ultimately show ?thesis unfolding eq by (simp add: find_None_iff)
    next
      case 2
      have "collapsing_at l (f # fs) \<noteq> None" using 2 False unfolding collapsing_None by auto
      then obtain g where g: "collapsing_at l (f # fs) = Some g" by auto
      have "fstart g \<le> fstart f \<and> fend f \<le> fend g"
        using collapsing_outermost[OF \<open>well_nested (n - 1) (f # fs)\<close> g, of f l] 2 False collapsing_Some[OF g]
        by (simp add: contains_line_def)
      then have "g = f" using collapsing_Some[OF g] later[of g] 2 False
        by (auto simp: contains_line_def intro!: fold_range.equality)
      then show ?thesis using g 2 unfolding eq by simp
    next
      case 3
      then have "collapsing_at l (f # fs) = collapsing_at l fs" by (simp add: collapsing_at_def contains_line_def)
      moreover have "find (\<lambda>f. contains_line f l) (regions_from n (Some (fend f)) fs) = collapsing_at l fs"
        using False f 2(5) 3 later
        by (intro 2(2)[OF refl _ rest 2(5), unfolded min_absorb1[OF f(2)]]) (auto split: option.splits)
      ultimately show ?thesis using 3 unfolding eq by (simp add: contains_line_def)
    qed
  qed
qed


text \<open>The renderer and the cursor agree on what is hidden: on a sorted fold set of nested or
  disjoint ranges within the buffer, the region that \<open>collapsed_regions\<close> emits over a line is exactly
  the fold that \<open>collapsing_at\<close> finds for it, and there is none exactly when no closed
  fold covers the line.\<close>

theorem regions_agree:
  assumes "sorted_wrt fold_order fs" and "well_nested (n - 1) fs" and "l < n"
  shows "find (\<lambda>f. contains_line f l) (collapsed_regions n fs) = collapsing_at l fs \<and>
    (collapsing_at l fs = None \<longleftrightarrow> (\<forall>f \<in> set fs. fclosed f \<longrightarrow> \<not> contains_line f l))"
  using regions_collapse[OF assms(2,1,3), of None] collapsing_None[of l fs] by (simp add: collapsed_regions_def)

text \<open>A nest of folds: lines 1-8 open, 2-4 and 6-7 closed, 3-4 closed inside.\<close>

definition nest :: "fold_range list" where
  "nest = [\<lparr>fstart = 1, fend = 8, fclosed = False\<rparr>, \<lparr>fstart = 2, fend = 4, fclosed = True\<rparr>,
           \<lparr>fstart = 3, fend = 4, fclosed = True\<rparr>, \<lparr>fstart = 6, fend = 7, fclosed = True\<rparr>]"

lemma nest_ok: "sorted_wrt fold_order nest" "well_nested 9 nest"
  by (simp_all add: nest_def fold_order_def well_nested_def nested_or_apart_def)

theorem regions_agree_witness: "find (\<lambda>f. contains_line f 3) (collapsed_regions 10 nest) = collapsing_at 3 nest"
  using regions_agree[of nest 10 3] nest_ok by simp

text \<open>\<open>create\<close> accepts ranges that cross: with folds over 0-4 and 2-7 the renderer hides lines 1-4
  and shows 5-7, while the cursor treats 2-7 as the collapsed fold and rests on the hidden line 2.\<close>

lemma crossing_folds_disagree:
  "let st = snd (create 2 7 (snd (create 0 4 \<lparr>folds = [], fold_cache = None\<rparr>))) in
   find (\<lambda>f. contains_line f 5) (collapsed_regions 10 (folds st)) = None \<and>
   map_option fstart (collapsing_at 5 (folds st)) = Some 2 \<and>
   map_option fstart (find (\<lambda>f. contains_line f 2) (collapsed_regions 10 (folds st))) = Some 0"
  by (simp add: create_def sort_folds_def insort_key_def Let_def collapsed_regions_def collapsing_at_def
      contains_line_def fold_lines_def)

section \<open>Motion over the visible lines\<close>

definition visible_lines :: "fold_win \<Rightarrow> nat list" where
  "visible_lines w = filter (\<lambda>l. fold_line_start w l = l) [0..<last_line w + 1]"

definition win_nested :: "fold_win \<Rightarrow> bool" where
  "win_nested w \<longleftrightarrow> well_nested (last_line w) (folds (win_folds w))"

lemma set_visible: "l \<in> set (visible_lines w) \<longleftrightarrow> l \<le> last_line w \<and> fold_line_start w l = l"
  by (auto simp: visible_lines_def less_Suc_eq_le simp del: upt_Suc)

lemma filter_upt_next:
  assumes "k < length (filter P [0..<N])" and "filter P [0..<N] ! k = x"
  shows "\<And>y. x < y \<Longrightarrow> y < N \<Longrightarrow> P y \<Longrightarrow> (\<And>z. x < z \<Longrightarrow> z < y \<Longrightarrow> \<not> P z) \<Longrightarrow>
      k + 1 < length (filter P [0..<N]) \<and> filter P [0..<N] ! (k + 1) = y"
    and "(\<And>z. x < z \<Longrightarrow> z < N \<Longrightarrow> \<not> P z) \<Longrightarrow> k + 1 = length (filter P [0..<N])"
proof -
  have x: "x < N" "P x" using nth_mem[OF assms(1)] by (simp_all add: assms(2))
  have split: "filter P [0..<N] = filter P [0..<x] @ x # filter P [x + 1..<N]"
    using x upt_add_eq_append[of 0 x "N - x"] by (simp add: upt_conv_Cons)
  let ?j = "length (filter P [0..<x])"
  have "?j < length (filter P [0..<N])" "filter P [0..<N] ! ?j = x" unfolding split by simp_all
  moreover have "distinct (filter P [0..<N])" by simp
  ultimately have "k = ?j" using assms nth_eq_iff_index_eq by metis
  then have k: "k + 1 < length (filter P [0..<N]) \<longleftrightarrow> filter P [x + 1..<N] \<noteq> []"
    "length (filter P [0..<N]) = k + 1 + length (filter P [x + 1..<N])"
    "filter P [0..<N] ! (k + 1) = filter P [x + 1..<N] ! 0"
    by (simp_all add: split nth_append)
  show "(\<And>z. x < z \<Longrightarrow> z < N \<Longrightarrow> \<not> P z) \<Longrightarrow> k + 1 = length (filter P [0..<N])"
    unfolding k(2) by (simp add: filter_empty_conv)
  fix y assume y: "x < y" "y < N" "P y" "\<And>z. x < z \<Longrightarrow> z < y \<Longrightarrow> \<not> P z"
  then have "[x + 1..<N] = [x + 1..<y] @ y # [y + 1..<N]"
    using upt_add_eq_append[of "x + 1" y "N - y"] by (simp add: upt_conv_Cons)
  moreover have "filter P [x + 1..<y] = []" using y(4) by (simp add: filter_empty_conv)
  ultimately have "filter P [x + 1..<N] = y # filter P [y + 1..<N]" using y(3) by simp
  then show "k + 1 < length (filter P [0..<N]) \<and> filter P [0..<N] ! (k + 1) = y" unfolding k by simp
qed

lemma fold_line_same:
  assumes "win_nested w" and "fold_line_start w l \<le> l'" and "l' \<le> fold_line_end w l"
  shows "fold_line_start w l' = fold_line_start w l \<and> fold_line_end w l' = fold_line_end w l"
proof (cases "collapsing_fold_at l w")
  case None
  then have "l' = l" using assms(2,3) by (simp add: fold_line_start_def fold_line_end_def)
  then show ?thesis by simp
next
  case (Some f)
  then have on: "foldenable w" and at: "collapsing_at l (folds (win_folds w)) = Some f"
    by (auto simp: collapsing_fold_at_def split: if_splits)
  have "contains_line f l'" using assms(2,3) Some by (simp add: fold_line_start_def fold_line_end_def contains_line_def)
  then have "collapsing_fold_at l' w = Some f"
    using collapsing_same[OF assms(1)[unfolded win_nested_def] at] on by (simp add: collapsing_fold_at_def)
  then show ?thesis using Some by (simp add: fold_line_start_def fold_line_end_def)
qed

lemma fold_line_around: "fold_line_start w l \<le> l \<and> l \<le> fold_line_end w l"
  using collapsing_Some(3,4)[of l "folds (win_folds w)"]
  by (auto simp: fold_line_start_def fold_line_end_def collapsing_fold_at_def split: option.splits if_splits)

lemma fold_line_end_last: "win_nested w \<Longrightarrow> l \<le> last_line w \<Longrightarrow> fold_line_end w l \<le> last_line w"
  using collapsing_Some(1)[of l "folds (win_folds w)"]
  by (auto simp: fold_line_end_def collapsing_fold_at_def win_nested_def well_nested_def split: option.splits if_splits)

lemma fold_line_start_visible: "win_nested w \<Longrightarrow> fold_line_start w (fold_line_start w l) = fold_line_start w l"
  using fold_line_same[of w l "fold_line_start w l"] fold_line_around[of w l] by simp

lemma visible_step:
  assumes w: "win_nested w" and k: "k < length (visible_lines w)"
  shows "fold_line_end w (visible_lines w ! k) < last_line w \<Longrightarrow>
      k + 1 < length (visible_lines w) \<and>
      visible_lines w ! (k + 1) = fold_line_start w (fold_line_end w (visible_lines w ! k) + 1)"
    and "last_line w \<le> fold_line_end w (visible_lines w ! k) \<Longrightarrow> k + 1 = length (visible_lines w)"
proof -
  let ?l = "visible_lines w ! k" let ?e = "fold_line_end w ?l"
  have l: "?l \<le> last_line w" "fold_line_start w ?l = ?l"
    using nth_mem[OF k] by (simp_all add: set_visible)
  have hidden: "fold_line_start w z \<noteq> z" if "?l < z" "z \<le> ?e" for z
    using fold_line_same[OF w, of ?l z] l(2) that by simp
  note next_visible = filter_upt_next[OF k[unfolded visible_lines_def] refl, folded visible_lines_def]
  show "last_line w \<le> ?e \<Longrightarrow> k + 1 = length (visible_lines w)"
    using hidden by (intro next_visible(2)) auto
  assume e: "?e < last_line w"
  let ?n = "fold_line_start w (?e + 1)"
  have n: "?n \<le> ?e + 1" "?e + 1 \<le> fold_line_end w (?e + 1)" using fold_line_around[of w "?e + 1"] by auto
  have after: "?e < ?n"
  proof (rule ccontr)
    assume "\<not> ?e < ?n"
    then have "fold_line_end w ?e = fold_line_end w (?e + 1)" using fold_line_same[OF w, of "?e + 1" ?e] n by simp
    moreover have "fold_line_end w ?e = ?e" using fold_line_same[OF w, of ?l ?e] fold_line_around[of w ?l] l(2) by simp
    ultimately show False using n by simp
  qed
  then have "?n = ?e + 1" using n by simp
  then show "k + 1 < length (visible_lines w) \<and> visible_lines w ! (k + 1) = ?n"
    using hidden e fold_line_around[of w ?l] by (intro next_visible(1)) auto
qed

lemma visible_below:
  assumes "win_nested w" and "k < length (visible_lines w)"
  shows "below_folds w n (visible_lines w ! k) = visible_lines w ! min (k + n) (length (visible_lines w) - 1)"
  using assms(2)
proof (induction n arbitrary: k)
  case 0
  then have "min (k + 0) (length (visible_lines w) - 1) = k" by simp
  then show ?case by simp
next
  case (Suc n)
  show ?case
  proof (cases "last_line w \<le> fold_line_end w (visible_lines w ! k)")
    case True
    then have "k + 1 = length (visible_lines w)" by (rule visible_step(2)[OF assms(1) Suc.prems])
    then have "min (k + Suc n) (length (visible_lines w) - 1) = k" by simp
    then show ?thesis using True by simp
  next
    case False
    note step = visible_step(1)[OF assms(1) Suc.prems]
    show ?thesis using False step Suc.IH[of "k + 1"] by simp
  qed
qed

lemma visible_index:
  assumes "win_nested w" and "l \<le> last_line w"
  obtains k where "k < length (visible_lines w)" and "fold_line_start w l = visible_lines w ! k"
proof -
  have "fold_line_start w l \<in> set (visible_lines w)"
    using fold_line_start_visible[OF assms(1), of l] fold_line_around[of w l] assms(2) by (simp add: set_visible)
  then show thesis using that by (metis in_set_conv_nth)
qed

lemma visible_above:
  assumes "win_nested w" and "k < length (visible_lines w)"
  shows "above_folds w n (visible_lines w ! k) = visible_lines w ! (k - n)"
  using assms(2)
proof (induction n arbitrary: k)
  case (Suc n)
  let ?l = "visible_lines w ! k"
  have l: "?l \<le> last_line w" "fold_line_start w ?l = ?l"
    using nth_mem[OF Suc.prems] by (simp_all add: set_visible)
  have inj: "k = j" if "j < length (visible_lines w)" "visible_lines w ! j = ?l" for j
    using that Suc.prems nth_eq_iff_index_eq[of "visible_lines w" k j] by (simp add: visible_lines_def)
  show ?case
  proof (cases "?l = 0")
    case True
    have "fold_line_start w 0 = 0" using fold_line_around[of w 0] by simp
    then have "visible_lines w = 0 # filter (\<lambda>l. fold_line_start w l = l) [1..<last_line w + 1]"
      by (simp add: visible_lines_def upt_rec[of 0])
    then have "k = 0" using True inj[of 0] by simp
    then show ?thesis using True by simp
  next
    case False
    let ?p = "fold_line_start w (?l - 1)"
    have "?l - 1 \<le> last_line w" using l(1) by simp
    then obtain j where j: "j < length (visible_lines w)" "?p = visible_lines w ! j"
      by (rule visible_index[OF assms(1)])
    have p: "?p \<le> ?l - 1" "?l - 1 \<le> fold_line_end w (?l - 1)" using fold_line_around[of w "?l - 1"] by auto
    have "fold_line_start w z \<noteq> z" if "?p < z" "z < ?l" for z
      using fold_line_same[OF assms(1), of "?l - 1" z] that p by auto
    then have "j + 1 < length (visible_lines w) \<and> visible_lines w ! (j + 1) = ?l"
      using p False l
      by (intro filter_upt_next(1)[OF j(1)[unfolded visible_lines_def] j(2)[symmetric, unfolded visible_lines_def],
            folded visible_lines_def]) auto
    then have "k = j + 1" using inj by auto
    then show ?thesis using False Suc.IH[OF j(1)] j(2) by simp
  qed
qed simp

text \<open>Vertical motion counts visible lines: with nested or disjoint folds inside the buffer, the line
  \<open>n\<close> below the one a line is displayed on is the \<open>n\<close>-th visible line after it, or the last one, and
  above it the \<open>n\<close>-th before it, or the first; no line hidden by a closed fold is ever reached.\<close>

theorem motion_counts_visible_lines:
  assumes "win_nested w" and "line \<le> last_line w"
  shows "\<exists>k < length (visible_lines w). fold_line_start w line = visible_lines w ! k \<and>
    line_below_folds w line n = visible_lines w ! min (k + n) (length (visible_lines w) - 1) \<and>
    line_above_folds w line n = visible_lines w ! (k - n)"
proof -
  obtain k where k: "k < length (visible_lines w)" "fold_line_start w line = visible_lines w ! k"
    using visible_index[OF assms] .
  then show ?thesis using visible_below[OF assms(1) k(1), of n] visible_above[OF assms(1) k(1), of n]
    by (intro exI[of _ k]) (simp add: line_below_folds_def line_above_folds_def)
qed

definition nest_win :: fold_win where
  "nest_win = \<lparr>win_folds = \<lparr>folds = nest, fold_cache = None\<rparr>, foldenable = True, foldlevel = 0,
     cur_line = 5, last_line = 9, inserting = False\<rparr>"

lemma nest_win_ok: "win_nested nest_win" "visible_lines nest_win = [0, 1, 2, 5, 6, 8, 9]"
    "last_line nest_win = 9"
  using nest_ok(2) by (simp_all add: win_nested_def nest_win_def)
    (simp add: visible_lines_def fold_line_start_def collapsing_fold_at_def collapsing_at_def nest_win_def nest_def
      contains_line_def fold_lines_def upt_rec)

theorem motion_counts_visible_lines_witness:
  "\<exists>k < length (visible_lines nest_win). fold_line_start nest_win 4 = visible_lines nest_win ! k \<and>
    line_below_folds nest_win 4 2 = visible_lines nest_win ! min (k + 2) (length (visible_lines nest_win) - 1) \<and>
    line_above_folds nest_win 4 2 = visible_lines nest_win ! (k - 2)"
  by (rule motion_counts_visible_lines[OF nest_win_ok(1)]) (simp add: nest_win_ok(3))

section \<open>The cursor under the fold commands\<close>

definition at_header :: "fold_range list \<Rightarrow> nat \<Rightarrow> bool" where
  "at_header fs l \<longleftrightarrow> (\<forall>g \<in> set fs. fclosed g \<longrightarrow> contains_line g l \<longrightarrow> fstart g = l)"

lemma at_header_visible: "at_header (folds (win_folds w)) l \<Longrightarrow> fold_line_start w l = l"
  using collapsing_Some(1-4)[of l "folds (win_folds w)"]
  by (auto simp: at_header_def fold_line_start_def collapsing_fold_at_def contains_line_def split: option.splits)

lemma visible_at_header:
  assumes "win_nested w" and "foldenable w" and "fold_line_start w l = l"
  shows "at_header (folds (win_folds w)) l"
  unfolding at_header_def
proof (intro ballI impI)
  fix g assume g: "g \<in> set (folds (win_folds w))" "fclosed g" "contains_line g l"
  then have "collapsing_at l (folds (win_folds w)) \<noteq> None" unfolding collapsing_None by blast
  then obtain f where f: "collapsing_at l (folds (win_folds w)) = Some f" by blast
  then have "fstart f = l" using assms(2,3) by (simp add: fold_line_start_def collapsing_fold_at_def)
  moreover have "fstart f \<le> fstart g"
    using collapsing_outermost[OF assms(1)[unfolded win_nested_def] f g] collapsing_Some(3,4)[OF f]
    by (simp add: contains_line_def)
  ultimately show "fstart g = l" using g(3) by (simp add: contains_line_def)
qed

lemma at_header_closed_subset:
  "at_header fs l \<Longrightarrow> (\<And>g. g \<in> set gs \<Longrightarrow> fclosed g \<Longrightarrow> \<exists>f \<in> set fs. fclosed f \<and> fstart f = fstart g \<and> fend f = fend g) \<Longrightarrow>
   at_header gs l"
  unfolding at_header_def contains_line_def by metis

lemma close_one_header:
  assumes "well_nested stop (folds st)" and "at_header (folds st) l" and "close_one l st = (start, st')"
  shows "at_header (folds st') (case start of None \<Rightarrow> l | Some s \<Rightarrow> s)" and "start = Some s \<Longrightarrow> s \<le> stop"
proof -
  let ?m = "min_by_key (\<lambda>(_, f). fold_lines f) (filter (\<lambda>(_, f). \<not> fclosed f \<and> contains_line f l) (enumerate 0 (folds st)))"
  have "at_header (folds st') (case start of None \<Rightarrow> l | Some s \<Rightarrow> s) \<and> (start = Some s \<longrightarrow> s \<le> stop)"
  proof (cases ?m)
    case None
    then show ?thesis using assms(2,3) by (simp add: close_one_def)
  next
    case (Some p)
    obtain i f where p: "p = (i, f)" by (cases p)
    have mem: "i < length (folds st)" "folds st ! i = f" "contains_line f l" "f \<in> set (folds st)"
      using min_by_key_Some[OF Some] unfolding p by (auto simp: in_set_enumerate_eq)
    have eq: "start = Some (fstart f)" "folds st' = (folds st)[i := f\<lparr>fclosed := True\<rparr>]"
      using assms(3) Some mem(2) unfolding p by (auto simp: close_one_def set_folds_def)
    have "fstart g = fstart f" if g: "g \<in> set (folds st')" "fclosed g" "contains_line g (fstart f)" for g
    proof (cases "g = f\<lparr>fclosed := True\<rparr>")
      case False
      then have "g \<in> set (folds st)" using g(1) set_update_subset_insert unfolding eq(2) by fast
      then have "nested_or_apart f g" "fstart f < fend f" "contains_line g l \<longrightarrow> fstart g = l"
        using assms(1,2) mem(4) g(2) unfolding well_nested_def at_header_def by blast+
      then show ?thesis using g(3) mem(3) by (auto simp: nested_or_apart_def contains_line_def)
    qed simp
    moreover have "fstart f \<le> stop" using assms(1) mem(4) unfolding well_nested_def by force
    ultimately show ?thesis unfolding eq(1) by (simp add: at_header_def)
  qed
  then show "at_header (folds st') (case start of None \<Rightarrow> l | Some s \<Rightarrow> s)" "start = Some s \<Longrightarrow> s \<le> stop" by auto
qed

lemma least_start:
  "fold (\<lambda>f start. if contains_line f l then Some (case start of None \<Rightarrow> fstart f | Some s \<Rightarrow> min s (fstart f)) else start)
     fs start =
   (if \<exists>f \<in> set fs. contains_line f l
    then Some (Min (fstart ` {f \<in> set fs. contains_line f l} \<union> set_option start)) else start)"
proof (induction fs arbitrary: start)
  case (Cons f fs)
  let ?S = "fstart ` {f \<in> set fs. contains_line f l}"
  show ?case
  proof (cases "contains_line f l")
    case True
    then have "fstart ` {g \<in> set (f # fs). contains_line g l} = insert (fstart f) ?S" by auto
    then show ?thesis using True Cons by (cases start; cases "?S = {}") (auto simp: min.commute min.left_commute Un_commute)
  next
    case False
    then have "{g \<in> set (f # fs). contains_line g l} = {g \<in> set fs. contains_line g l}" by auto
    then show ?thesis using False Cons by auto
  qed
qed simp

lemma close_recursive_header:
  assumes "well_nested stop (folds st)" and "at_header (folds st) l" and "close_recursive l st = (start, st')"
  shows "at_header (folds st') (case start of None \<Rightarrow> l | Some s \<Rightarrow> s)" and "start = Some s \<Longrightarrow> s \<le> stop"
proof -
  let ?C = "{f \<in> set (folds st). contains_line f l}"
  have st': "folds st' = map (\<lambda>f. if contains_line f l then f\<lparr>fclosed := True\<rparr> else f) (folds st)"
    and start: "start = (if ?C = {} then None else Some (Min (fstart ` ?C)))"
    using assms(3) by (auto simp: close_recursive_def set_folds_def least_start)
  have "at_header (folds st') (case start of None \<Rightarrow> l | Some s \<Rightarrow> s) \<and> (start = Some s \<longrightarrow> s \<le> stop)"
  proof (cases "?C = {}")
    case True
    then have "folds st' = folds st" unfolding st' by (intro map_idI) auto
    then show ?thesis using True start assms(2) by simp
  next
    case False
    let ?s = "Min (fstart ` ?C)"
    have "?s \<in> fstart ` ?C" using False by (intro Min_in) auto
    then obtain f where f: "f \<in> set (folds st)" "contains_line f l" "fstart f = ?s" by auto
    have least: "?s \<le> fstart g" if "g \<in> set (folds st)" "contains_line g l" for g using that by (intro Min_le) auto
    have "fstart g = ?s" if g: "g \<in> set (folds st')" "contains_line g ?s" for g
    proof -
      obtain h where h: "h \<in> set (folds st)" "fstart h = fstart g" "fend h = fend g"
        using g(1) unfolding st' by (auto split: if_splits)
      have "nested_or_apart f h" using assms(1) f(1) h(1) unfolding well_nested_def by blast
      then have "?s \<le> fstart h" using least[OF h(1)] f(2,3) g(2) h
        by (auto simp: nested_or_apart_def contains_line_def)
      then show ?thesis using g(2) h by (simp add: contains_line_def)
    qed
    moreover have "?s \<le> stop" using assms(1) f(1) unfolding well_nested_def f(3)[symmetric] by force
    ultimately show ?thesis using False start by (auto simp: at_header_def)
  qed
  then show "at_header (folds st') (case start of None \<Rightarrow> l | Some s \<Rightarrow> s)" "start = Some s \<Longrightarrow> s \<le> stop" by auto
qed


lemma ranges_kept:
  "map (\<lambda>f. (fstart f, fend f)) (folds (snd (open_one l st))) = map (\<lambda>f. (fstart f, fend f)) (folds st)"
  "map (\<lambda>f. (fstart f, fend f)) (folds (snd (close_one l st))) = map (\<lambda>f. (fstart f, fend f)) (folds st)"
  "map (\<lambda>f. (fstart f, fend f)) (folds (open_recursive l st)) = map (\<lambda>f. (fstart f, fend f)) (folds st)"
  "map (\<lambda>f. (fstart f, fend f)) (folds (snd (close_recursive l st))) = map (\<lambda>f. (fstart f, fend f)) (folds st)"
  "map (\<lambda>f. (fstart f, fend f)) (folds (open_all st)) = map (\<lambda>f. (fstart f, fend f)) (folds st)"
  "map (\<lambda>f. (fstart f, fend f)) (folds (close_all st)) = map (\<lambda>f. (fstart f, fend f)) (folds st)"
  by (auto simp: open_one_def close_one_def open_recursive_def close_recursive_def open_all_def close_all_def
      set_folds_def map_update list_update_same_conv split: option.splits intro!: list_update_same_conv[THEN iffD2]
      dest!: min_by_key_Some simp: in_set_enumerate_eq)

lemma delete_subset: "set (folds (snd (delete_at l st))) \<subseteq> set (folds st)"
  by (auto simp: delete_at_def set_folds_def dest: in_set_takeD in_set_dropD split: option.splits)

text \<open>The invariant of a window with folding on: ranges nested or apart, the cursor in the buffer and
  on a line that is shown.\<close>

definition cursor_shown :: "fold_win \<Rightarrow> bool" where
  "cursor_shown w \<longleftrightarrow> cur_line w \<le> last_line w \<and> fold_line_start w (cur_line w) = cur_line w"

lemma execute_fold_nested:
  assumes "win_nested w" and "cmd \<noteq> FoldCreateLines"
  shows "win_nested (execute_fold cmd n w)"
proof -
  have kept: "win_nested w'" if "last_line w' = last_line w"
    "map (\<lambda>f. (fstart f, fend f)) (folds (win_folds w')) = map (\<lambda>f. (fstart f, fend f)) (folds (win_folds w))" for w'
    using well_nested_cong[OF assms(1)[unfolded win_nested_def] that(2)] that(1) by (simp add: win_nested_def)
  have sub: "win_nested w'" if "last_line w' = last_line w" "set (folds (win_folds w')) \<subseteq> set (folds (win_folds w))" for w'
    using well_nested_subset[OF assms(1)[unfolded win_nested_def] that(2)] that(1) by (simp add: win_nested_def)
  have close: "win_nested (fold_close w)"
    using ranges_kept(2)[of "cur_line w" "win_folds w"]
    by (intro kept) (auto simp: fold_close_def enable_folding_def settle_on_fold_line_def Let_def
        split: prod.splits option.splits)
  have opn: "win_nested (fold_open w)" by (intro kept) (simp_all add: fold_open_def ranges_kept(1))
  show ?thesis
  proof (cases cmd)
    case FoldCloseRecursive
    show ?thesis unfolding FoldCloseRecursive execute_fold.simps
      using ranges_kept(4)[of "cur_line w" "win_folds w"]
      by (intro kept) (auto simp: fold_close_recursive_def enable_folding_def settle_on_fold_line_def Let_def
          split: prod.splits option.splits)
  next
    case FoldCloseAll
    show ?thesis unfolding FoldCloseAll execute_fold.simps
      by (intro kept) (auto simp: fold_close_all_def enable_folding_def settle_on_fold_line_def Let_def ranges_kept(6)
          split: option.splits)
  next
    case FoldDelete
    show ?thesis unfolding FoldDelete execute_fold.simps
      by (intro sub) (use delete_subset in \<open>simp_all add: fold_delete_def\<close>)
  qed (use assms close opn in \<open>auto simp: fold_toggle_def fold_open_recursive_def fold_open_all_def fold_delete_all_def
      set_foldenable_def fold_next_def fold_prev_def settle_on_fold_line_def delete_all_def set_folds_def win_nested_def
      ranges_kept split: option.splits intro: well_nested_cong simp: well_nested_def[of _ "[]"]\<close>)
qed

lemma execute_fold_header:
  assumes w: "win_nested w" and on: "foldenable w" and shown: "cursor_shown w"
  shows "at_header (folds (win_folds (execute_fold cmd n w))) (cur_line (execute_fold cmd n w)) \<and>
    cur_line (execute_fold cmd n w) \<le> last_line w \<and> last_line (execute_fold cmd n w) = last_line w"
proof -
  let ?l = "cur_line w" let ?st = "win_folds w"
  have hdr: "at_header (folds ?st) ?l" and cur: "?l \<le> last_line w"
    using visible_at_header[OF w on] shown by (auto simp: cursor_shown_def)
  note nested = w[unfolded win_nested_def]
  have sub: "at_header gs ?l" if "set gs \<subseteq> set (folds ?st)" for gs
    using at_header_closed_subset[OF hdr] that by blast
  have opened: "at_header (map (\<lambda>f. if P f then f\<lparr>fclosed := False\<rparr> else f) (folds ?st)) ?l" for P
    by (rule at_header_closed_subset[OF hdr]) (auto split: if_splits)
  have opn: "at_header (folds (win_folds (fold_open w))) ?l"
    using opened hdr by (auto simp: fold_open_def open_one_def set_folds_def split: option.splits)
  have jump: "at_header (folds ?st) (fold_line_start w x) \<and> fold_line_start w x \<le> last_line w" if "x \<le> last_line w" for x
    using visible_at_header[OF w on fold_line_start_visible[OF w]] fold_line_around[of w x] that by simp
  have close: "at_header (folds (win_folds (fold_close w))) (cur_line (fold_close w)) \<and>
      cur_line (fold_close w) \<le> last_line w \<and> last_line (fold_close w) = last_line w"
  proof -
    obtain start st' where c: "close_one ?l ?st = (start, st')" by fastforce
    show ?thesis using close_one_header[OF nested hdr c] c cur
      by (auto simp: fold_close_def enable_folding_def settle_on_fold_line_def min_absorb1 split: option.splits)
  qed
  show ?thesis
  proof (cases cmd)
    case FoldCloseRecursive
    obtain start st' where c: "close_recursive ?l ?st = (start, st')" by fastforce
    show ?thesis unfolding FoldCloseRecursive execute_fold.simps using close_recursive_header[OF nested hdr c] c cur
      by (auto simp: fold_close_recursive_def enable_folding_def settle_on_fold_line_def min_absorb1 split: option.splits)
  next
    case FoldCloseAll
    let ?w = "(enable_folding w)\<lparr>win_folds := close_all ?st\<rparr>"
    have w': "win_nested ?w" "foldenable ?w"
      using well_nested_cong[OF nested ranges_kept(6)] by (simp_all add: win_nested_def enable_folding_def)
    have same: "cur_line ?w = ?l" "last_line ?w = last_line w" "win_folds ?w = close_all ?st"
      by (simp_all add: enable_folding_def)
    have start: "fold_line_start ?w ?l \<le> last_line w" using fold_line_around[of ?w ?l] cur by simp
    have eq: "fold_close_all w = ?w\<lparr>cur_line := fold_line_start ?w ?l\<rparr>"
      using start unfolding fold_close_all_def Let_def same fold_line_start_def
      by (auto simp: settle_on_fold_line_def min_absorb1 same split: option.splits simp: enable_folding_def)
    show ?thesis unfolding FoldCloseAll execute_fold.simps eq
      using visible_at_header[OF w' fold_line_start_visible[OF w'(1)], of ?l] start by (simp add: enable_folding_def)
  next
    case FoldCreateLines
    let ?hi = "min (?l + (n - 1)) (last_line w)"
    have "at_header (folds (snd (create ?l ?hi ?st))) ?l"
    proof (cases "reclose ?l ?hi (folds ?st)")
      case None
      then show ?thesis using hdr sort_folds_order by (auto simp: create_def at_header_def)
    next
      case (Some fs)
      have "reclose s e fs = Some gs \<Longrightarrow> g \<in> set gs \<Longrightarrow> g \<in> set fs \<or> fstart g = s" for s e fs gs g
        by (induction fs arbitrary: gs) (auto split: if_splits)
      from this[OF Some] have "at_header fs ?l" using hdr unfolding at_header_def by blast
      then show ?thesis using hdr Some by (auto simp: create_def)
    qed
    then show ?thesis using FoldCreateLines cur
      by (auto simp: create_fold_lines_def create_fold_def enable_folding_def Let_def min_def max_def
          split: prod.splits if_splits)
  next
    case FoldDelete
    then show ?thesis using sub[OF delete_subset] cur by (simp add: fold_delete_def)
  next
    case FoldNext
    have "s \<le> last_line w" if "next_fold_start ?l (folds ?st) = Some s" for s
      using min_by_key_Some[OF that[unfolded next_fold_start_def]] nested unfolding well_nested_def by fastforce
    then show ?thesis using FoldNext jump hdr cur
      by (auto simp: fold_next_def settle_on_fold_line_def min_absorb1 split: option.splits)
  next
    case FoldPrev
    have "s \<le> last_line w" if "prev_fold_end ?l (folds ?st) = Some s" for s
      using max_by_key_Some[OF that[unfolded prev_fold_end_def]] nested unfolding well_nested_def by fastforce
    then show ?thesis using FoldPrev jump hdr cur
      by (auto simp: fold_prev_def settle_on_fold_line_def min_absorb1 split: option.splits)
  qed (use hdr cur opn opened close in \<open>auto simp: fold_toggle_def fold_open_def fold_open_recursive_def fold_open_all_def
      fold_delete_all_def set_foldenable_def delete_all_def set_folds_def open_recursive_def open_all_def
      at_header_def[of "[]"] opened[of "\<lambda>_. True", simplified]\<close>)
qed

text \<open>C24. While folding is on, no fold command leaves the cursor on a hidden line or outside the buffer:
  from nested or disjoint folds and a cursor on a shown line, every \<open>z\<close> command with every count ends
  with the cursor on a shown line, and every command but \<open>zF\<close> keeps the folds nested or disjoint.\<close>

theorem cursor_stays_shown:
  assumes "win_nested w" and "foldenable w" and "cursor_shown w"
  shows "cursor_shown (execute_fold cmd n w) \<and> (cmd \<noteq> FoldCreateLines \<longrightarrow> win_nested (execute_fold cmd n w))"
  using execute_fold_header[OF assms, of cmd n] execute_fold_nested[OF assms(1), of cmd n]
  by (simp add: cursor_shown_def at_header_visible)

theorem cursor_stays_shown_witness:
  "cursor_shown (execute_fold FoldCloseRecursive 1 nest_win) \<and> cur_line (execute_fold FoldCloseRecursive 1 nest_win) = 1"
  using cursor_stays_shown[OF nest_win_ok(1), of FoldCloseRecursive 1]
  by (simp add: nest_win_def nest_def cursor_shown_def fold_line_start_def collapsing_fold_at_def collapsing_at_def
      contains_line_def fold_close_recursive_def enable_folding_def close_recursive_def settle_on_fold_line_def set_folds_def)

text \<open>Turning folding back on moves no cursor: one that walked into a closed fold while folding was off
  is left on a hidden line by \<open>zN\<close>.\<close>

lemma enabling_strands_cursor:
  "\<not> cursor_shown (execute_fold (FoldEnable (Some True)) 1 (nest_win\<lparr>foldenable := False, cur_line := 3\<rparr>))"
  by (simp add: nest_win_def nest_def cursor_shown_def fold_line_start_def collapsing_fold_at_def collapsing_at_def
      contains_line_def fold_lines_def set_foldenable_def)


section \<open>Folds under line edits\<close>

text \<open>Where a line of the old text is in the new one, if it survives.\<close>

fun line_after :: "line_op \<Rightarrow> nat \<Rightarrow> nat option" where
  "line_after (InsertLines after n) l = Some (if after < int l then l + n else l)"
| "line_after (DeleteLines first n) l = (if l < first then Some l else if l < first + n then None else Some (l - n))"

definition two_survive :: "line_op \<Rightarrow> fold_range \<Rightarrow> bool" where
  "two_survive op f \<longleftrightarrow> (\<exists>l l'. l < l' \<and> contains_line f l \<and> contains_line f l' \<and>
     line_after op l \<noteq> None \<and> line_after op l' \<noteq> None)"

definition follows :: "line_op \<Rightarrow> fold_range \<Rightarrow> fold_range \<Rightarrow> bool" where
  "follows op f f' \<longleftrightarrow> (\<forall>l l'. line_after op l = Some l' \<longrightarrow> (contains_line f l \<longleftrightarrow> contains_line f' l')) \<and>
     (\<exists>l. contains_line f l \<and> line_after op l = Some (fstart f')) \<and>
     (\<exists>l. contains_line f l \<and> line_after op l = Some (fend f'))"

definition carried :: "line_op \<Rightarrow> fold_range \<Rightarrow> fold_range \<Rightarrow> bool" where
  "carried op f f' \<longleftrightarrow> fclosed f' = fclosed f \<and> (fstart f' < fend f' \<longleftrightarrow> two_survive op f) \<and>
     (two_survive op f \<longrightarrow> follows op f f')"

lemma adjust_insert:
  assumes "fstart f < fend f"
  shows "\<exists>f'. adjust_fold (InsertLines a n) f = Some f' \<and> fclosed f' = fclosed f \<and> fstart f' < fend f' \<and>
    two_survive (InsertLines a n) f \<and> follows (InsertLines a n) f f'"
proof -
  let ?f = "f\<lparr>fstart := (if a < int (fstart f) then fstart f + n else fstart f),
      fend := (if a < int (fend f) then fend f + n else fend f)\<rparr>"
  have "two_survive (InsertLines a n) f"
    unfolding two_survive_def using assms by (intro exI[of _ "fstart f"] exI[of _ "fend f"]) (auto simp: contains_line_def)
  moreover have "follows (InsertLines a n) f ?f"
    unfolding follows_def using assms
    by (intro conjI exI[of _ "fstart f"] exI[of _ "fend f"]) (auto simp: contains_line_def)
  ultimately show ?thesis using assms by auto
qed

lemma adjust_delete:
  assumes f: "fstart f < fend f" and n: "0 < n"
  obtains f' where "adjust_fold (DeleteLines first n) f = Some f'" and "fclosed f' = fclosed f"
    and "fstart f' < fend f' \<longleftrightarrow> two_survive (DeleteLines first n) f"
    and "fstart f' < fend f' \<longrightarrow> follows (DeleteLines first n) f f'"
proof -
  let ?op = "DeleteLines first n"
  consider (above) "fend f < first" | (below) "first + n \<le> fstart f" | (cut) "first \<le> fend f" "fstart f < first + n"
    by linarith
  then show thesis
  proof cases
    case above
    have "two_survive ?op f" unfolding two_survive_def using above f
      by (intro exI[of _ "fstart f"] exI[of _ "fend f"]) (simp add: contains_line_def)
    moreover have "follows ?op f f" unfolding follows_def using above f
      by (intro conjI exI[of _ "fstart f"] exI[of _ "fend f"]) (auto simp: contains_line_def split: if_splits)
    ultimately show thesis using above f by (intro that[of f]) simp_all
  next
    case below
    let ?f = "f\<lparr>fstart := fstart f - n, fend := fend f - n\<rparr>"
    have "two_survive ?op f" unfolding two_survive_def using below f
      by (intro exI[of _ "fstart f"] exI[of _ "fend f"]) (simp add: contains_line_def)
    moreover have "follows ?op f ?f" unfolding follows_def
      using below f n by (intro conjI exI[of _ "fstart f"] exI[of _ "fend f"]) (auto simp: contains_line_def split: if_splits)
    ultimately show thesis using below f n by (intro that[of ?f]) (auto simp: checked_sub_def Let_def)
  next
    case cut
    let ?s = "min (fstart f) first"
    show thesis
    proof (cases "first + n \<le> fend f")
      case True
      let ?f = "f\<lparr>fstart := ?s, fend := fend f - n\<rparr>"
      have adj: "adjust_fold ?op f = Some (if ?s < fend f - n then ?f else f\<lparr>fstart := 1, fend := 0\<rparr>)"
        using cut True n by (auto simp: Let_def)
      have two: "two_survive ?op f \<longleftrightarrow> ?s < fend f - n"
      proof
        assume "two_survive ?op f"
        then show "?s < fend f - n" using cut True by (auto simp: two_survive_def contains_line_def split: if_splits)
      next
        assume s: "?s < fend f - n"
        show "two_survive ?op f" unfolding two_survive_def
          using s cut True f by (intro exI[of _ "if fstart f < first then fstart f else first + n"] exI[of _ "fend f"])
            (auto simp: contains_line_def min_def split: if_splits)
      qed
      have "follows ?op f ?f" if "?s < fend f - n" unfolding follows_def
        using that cut True by (intro conjI exI[of _ "if fstart f < first then fstart f else first + n"] exI[of _ "fend f"])
          (auto simp: contains_line_def min_def split: if_splits)
      then show thesis using adj two by (intro that[of "if ?s < fend f - n then ?f else f\<lparr>fstart := 1, fend := 0\<rparr>"]) simp_all
    next
      case False
      let ?f = "f\<lparr>fstart := ?s, fend := first - 1\<rparr>"
      have adj: "adjust_fold ?op f = Some (if ?s < first - 1 then ?f else f\<lparr>fstart := 1, fend := 0\<rparr>)"
        using cut False n by (auto simp: Let_def checked_sub_def)
      have two: "two_survive ?op f \<longleftrightarrow> ?s < first - 1"
      proof
        assume "two_survive ?op f"
        then show "?s < first - 1" using cut False by (auto simp: two_survive_def contains_line_def split: if_splits)
      next
        assume "?s < first - 1"
        then show "two_survive ?op f" unfolding two_survive_def
          using cut False by (intro exI[of _ "fstart f"] exI[of _ "first - 1"])
            (auto simp: contains_line_def min_def split: if_splits)
      qed
      have "follows ?op f ?f" if "?s < first - 1" unfolding follows_def
        using that cut False by (intro conjI exI[of _ "fstart f"] exI[of _ "first - 1"])
          (auto simp: contains_line_def min_def split: if_splits)
      then show thesis using adj two by (intro that[of "if ?s < first - 1 then ?f else f\<lparr>fstart := 1, fend := 0\<rparr>"]) simp_all
    qed
  qed
qed

lemma dedup_by_keys: "key ` set (dedup_by (\<lambda>a b. key a = key b) xs) = key ` set xs"
proof (induction "\<lambda>a b. key a = key b" xs rule: dedup_by.induct)
  case (3 x y xs)
  then show ?case by (cases "key y = key x") auto
qed simp_all

lemma settle_folds_ranges:
  "(\<lambda>f. (fstart f, fend f)) ` set (settle_folds n fs) =
   {(s, e). s < e \<and> e < n \<and> (s, e) \<in> (\<lambda>f. (fstart f, fend f)) ` set fs}"
proof -
  have "(\<lambda>f. (fstart f, fend f)) ` set (settle_folds n fs) =
      (\<lambda>f. (fstart f, fend f)) ` {f \<in> set fs. fend f < n \<and> fstart f < fend f}"
    using dedup_by_keys[of "\<lambda>f. (fstart f, fend f)" "sort_folds (filter (\<lambda>f. fend f < n \<and> fstart f < fend f) fs)"]
    by (simp add: settle_folds_def sort_folds_order)
  then show ?thesis by auto
qed

text \<open>C25. Folds follow their text: under one insertion or deletion of lines no fold set overflows, every
  fold keeps its state and covers exactly the surviving lines it covered before, from the first to the last of
  them, or is emptied exactly when fewer than two of its lines survive; what the pass then keeps is every
  range of two lines or more inside the buffer.\<close>

theorem folds_follow_lines:
  assumes "\<forall>f \<in> set fs. fstart f < fend f" and "\<forall>a. op \<noteq> DeleteLines a 0"
  shows "\<exists>fs'. adjust op fs = Some fs' \<and> list_all2 (carried op) fs fs' \<and>
    (\<lambda>f. (fstart f, fend f)) ` set (settle_folds n fs') =
      {(s, e). s < e \<and> e < n \<and> (s, e) \<in> (\<lambda>f. (fstart f, fend f)) ` set fs'}"
proof -
  have "\<exists>fs'. adjust op fs = Some fs' \<and> list_all2 (carried op) fs fs'"
    using assms(1)
  proof (induction fs)
    case Nil
    then show ?case by (simp add: adjust_def)
  next
    case (Cons f fs)
    have "\<exists>f'. adjust_fold op f = Some f' \<and> carried op f f'"
    proof (cases op)
      case (InsertLines a k)
      then show ?thesis using adjust_insert[of f a k] Cons.prems by (auto simp: carried_def)
    next
      case (DeleteLines a k)
      have "fstart f < fend f" using Cons.prems by simp
      moreover have "0 < k" using assms(2) DeleteLines by (cases k) auto
      ultimately obtain f' where "adjust_fold (DeleteLines a k) f = Some f'" "fclosed f' = fclosed f"
        "fstart f' < fend f' \<longleftrightarrow> two_survive (DeleteLines a k) f"
        "fstart f' < fend f' \<longrightarrow> follows (DeleteLines a k) f f'" by (rule adjust_delete[of f k a])
      then show ?thesis unfolding DeleteLines carried_def by simp
    qed
    moreover have "\<exists>fs'. adjust op fs = Some fs' \<and> list_all2 (carried op) fs fs'"
      by (rule Cons.IH) (use Cons.prems in simp)
    ultimately show ?case by (auto simp: adjust_def)
  qed
  then obtain fs' where "adjust op fs = Some fs'" "list_all2 (carried op) fs fs'" by blast
  then show ?thesis by (intro exI[of _ fs'] conjI settle_folds_ranges)
qed

theorem folds_follow_lines_witness:
  "\<exists>fs'. adjust (DeleteLines 4 3) nest = Some fs' \<and> list_all2 (carried (DeleteLines 4 3)) nest fs' \<and>
    (\<lambda>f. (fstart f, fend f)) ` set (settle_folds 7 fs') =
      {(s, e). s < e \<and> e < 7 \<and> (s, e) \<in> (\<lambda>f. (fstart f, fend f)) ` set fs'}"
  by (rule folds_follow_lines) (simp_all add: nest_def)

text \<open>A fold emptied by one operation of a batch is kept as the range 1-0 until the batch ends; a later
  deletion of the buffer's first line subtracts from its end and overflows.\<close>

lemma emptied_fold_overflows:
  "adjust_all [DeleteLines 3 4, DeleteLines 0 1] [\<lparr>fstart = 3, fend = 5, fclosed = c\<rparr>] = None"
  by (simp add: adjust_def checked_sub_def Let_def)

text \<open>The level a fold was built with and the level its nesting gives differ where levels jump: a fold of
  built level 3 inside one other fold is closed under \<open>'foldlevel'\<close> 2 when it is built, and open when
  \<open>'foldlevel'\<close> is set to 2 afterwards.\<close>

lemma levels_differ:
  "ranges_from_levels [0, 2, 3, 3, 2] 1 = [(1, 4, 1), (2, 3, 3)] \<and>
   (let st = rebuild_computed [(1, 4, 1), (2, 3, 3)] 2 key \<lparr>folds = [], fold_cache = None\<rparr> in
    map fclosed (folds st) = [False, True] \<and> map fclosed (folds (apply_foldlevel 2 st)) = [False, False])"
proof
  show "ranges_from_levels [0, 2, 3, 3, 2] 1 = [(1, 4, 1), (2, 3, 3)]" by code_simp
qed (simp add: insort_key_def rebuild_computed_def sort_folds_def apply_foldlevel_def set_folds_def level_at_def)

end
