(* ===== verification/Lua_Pattern.thy ===== *)
theory Lua_Pattern
  imports Prelude
begin

text \<open>
  The Lua pattern matcher behind the tree-sitter predicate \<open>#lua-match?\<close>
  (\<open>crates/bemtvi-ts/src/lua_pattern.rs\<close>): whether a pattern matches anywhere in a text. Positions
  are indices into the byte lists, \<open>isize\<close> lengths are integers and the digit arithmetic is that of
  \<open>u8\<close>. Every function takes the state \<open>captures\<close> and returns it with its result; the functions of the
  recursion take \<open>do_match\<close> at one depth less as the argument \<open>dm\<close>.
\<close>

definition L_ESC :: byte where "L_ESC = 0x25"

definition MAX_MATCH_DEPTH :: nat where "MAX_MATCH_DEPTH = 200"

definition CAP_UNFINISHED :: int where "CAP_UNFINISHED = - 1"

definition CAP_POSITION :: int where "CAP_POSITION = - 2"

record capture =
  cap_init :: nat
  cap_len :: int

type_synonym matched = "capture list \<times> nat option"

section \<open>Character classes\<close>

definition is_graphic :: "byte \<Rightarrow> bool" where
  "is_graphic c \<longleftrightarrow> 0x21 \<le> c \<and> c \<le> 0x7e"

definition is_digit :: "byte \<Rightarrow> bool" where "is_digit c \<longleftrightarrow> 0x30 \<le> c \<and> c \<le> 0x39"

definition is_upper :: "byte \<Rightarrow> bool" where "is_upper c \<longleftrightarrow> 0x41 \<le> c \<and> c \<le> 0x5a"

definition is_lower :: "byte \<Rightarrow> bool" where "is_lower c \<longleftrightarrow> 0x61 \<le> c \<and> c \<le> 0x7a"

definition to_lower :: "byte \<Rightarrow> byte" where "to_lower c = (if is_upper c then c + 0x20 else c)"

definition match_class :: "byte \<Rightarrow> byte \<Rightarrow> bool" where
  "match_class c cl =
     (let l = to_lower cl; alnum = is_upper c \<or> is_lower c \<or> is_digit c;
          res =
            (if l = 0x61 then Some (is_upper c \<or> is_lower c)
             else if l = 0x63 then Some (c < 0x20 \<or> c = 0x7f)
             else if l = 0x64 then Some (is_digit c)
             else if l = 0x67 then Some (is_graphic c)
             else if l = 0x6c then Some (is_lower c)
             else if l = 0x70 then Some (is_graphic c \<and> \<not> alnum)
             else if l = 0x73 then Some (c = 0x20 \<or> (0x09 \<le> c \<and> c \<le> 0x0d))
             else if l = 0x75 then Some (is_upper c)
             else if l = 0x77 then Some alnum
             else if l = 0x78 then Some (is_digit c \<or> (0x41 \<le> c \<and> c \<le> 0x46) \<or> (0x61 \<le> c \<and> c \<le> 0x66))
             else None)
      in case res of None \<Rightarrow> cl = c | Some r \<Rightarrow> if is_upper cl then \<not> r else r)"

text \<open>The members of a set, up to its closing bracket.\<close>

function set_end :: "byte list \<Rightarrow> nat \<Rightarrow> nat option" where
  "set_end pat p =
     (if length pat \<le> p then None
      else let p' = (if pat ! p = L_ESC \<and> p + 1 < length pat then p + 2 else p + 1) in
           if p' < length pat \<and> pat ! p' = 0x5d then Some (p' + 1) else set_end pat p')"
  by pat_completeness auto

termination
  by (relation "measure (\<lambda>(pat, p). length pat - p)") auto

definition class_end :: "byte list \<Rightarrow> nat \<Rightarrow> nat option" where
  "class_end pat p =
     (if length pat \<le> p then None
      else if pat ! p = L_ESC then (if p + 1 < length pat then Some (p + 2) else None)
      else if pat ! p = 0x5b then
        set_end pat (if p + 1 < length pat \<and> pat ! (p + 1) = 0x5e then p + 2 else p + 1)
      else Some (p + 1))"

function bracket_loop :: "byte list \<Rightarrow> byte \<Rightarrow> bool \<Rightarrow> nat \<Rightarrow> nat \<Rightarrow> bool" where
  "bracket_loop pat c sig p ec =
     (if ec \<le> p then \<not> sig
      else if pat ! p = L_ESC then
        (if match_class c (pat ! (p + 1)) then sig else bracket_loop pat c sig (p + 2) ec)
      else if p + 1 < length pat \<and> pat ! (p + 1) = 0x2d \<and> p + 2 < ec then
        (if pat ! p \<le> c \<and> c \<le> pat ! (p + 2) then sig else bracket_loop pat c sig (p + 3) ec)
      else if pat ! p = c then sig else bracket_loop pat c sig (p + 1) ec)"
  by pat_completeness auto

termination
  by (relation "measure (\<lambda>(pat, c, sig, p, ec). ec - p)") auto

definition match_bracket :: "byte list \<Rightarrow> byte \<Rightarrow> nat \<Rightarrow> nat \<Rightarrow> bool" where
  "match_bracket pat c p ec =
     (if p + 1 < length pat \<and> pat ! (p + 1) = 0x5e then bracket_loop pat c False (p + 2) ec
      else bracket_loop pat c True (p + 1) ec)"

text \<open>Whether one byte matches the item over \<open>[p, ep)\<close>.\<close>

definition item_test :: "byte list \<Rightarrow> nat \<Rightarrow> nat \<Rightarrow> byte \<Rightarrow> bool" where
  "item_test pat p ep c =
     (if pat ! p = 0x2e then True
      else if pat ! p = L_ESC then match_class c (pat ! (p + 1))
      else if pat ! p = 0x5b then match_bracket pat c p (ep - 1)
      else pat ! p = c)"

definition single_match :: "byte list \<Rightarrow> byte list \<Rightarrow> nat \<Rightarrow> nat \<Rightarrow> nat \<Rightarrow> bool" where
  "single_match src pat s p ep \<longleftrightarrow> s < length src \<and> item_test pat p ep (src ! s)"

section \<open>Captures, balances\<close>

type_synonym matcher = "capture list \<Rightarrow> nat \<Rightarrow> nat \<Rightarrow> matched"

definition start_capture :: "matcher \<Rightarrow> capture list \<Rightarrow> nat \<Rightarrow> nat \<Rightarrow> int \<Rightarrow> matched" where
  "start_capture dm caps s p what =
     (case dm (caps @ [\<lparr>cap_init = s, cap_len = what\<rparr>]) s p of
        (caps, None) \<Rightarrow> (butlast caps, None)
      | (caps, Some e) \<Rightarrow> (caps, Some e))"

definition last_open :: "capture list \<Rightarrow> nat option" where
  "last_open caps = find (\<lambda>i. cap_len (caps ! i) = CAP_UNFINISHED) (rev [0..<length caps])"

definition set_cap_len :: "int \<Rightarrow> nat \<Rightarrow> capture list \<Rightarrow> capture list" where
  "set_cap_len len l caps = caps[l := (caps ! l)\<lparr>cap_len := len\<rparr>]"

definition end_capture :: "matcher \<Rightarrow> capture list \<Rightarrow> nat \<Rightarrow> nat \<Rightarrow> matched" where
  "end_capture dm caps s p =
     (case last_open caps of
        None \<Rightarrow> (caps, None)
      | Some l \<Rightarrow>
          (case dm (set_cap_len (int s - int (cap_init (caps ! l))) l caps) s p of
             (caps, None) \<Rightarrow> (set_cap_len CAP_UNFINISHED l caps, None)
           | (caps, Some e) \<Rightarrow> (caps, Some e)))"

definition match_capture :: "byte list \<Rightarrow> capture list \<Rightarrow> nat \<Rightarrow> byte \<Rightarrow> nat option" where
  "match_capture src caps s d =
     (let idx = unat (d - 0x31) in
      if length caps \<le> idx \<or> cap_len (caps ! idx) < 0 then None
      else let len = nat (cap_len (caps ! idx)) in
           if len \<le> length src - s \<and> take len (drop s src) = take len (drop (cap_init (caps ! idx)) src)
           then Some (s + len) else None)"

text \<open>The position after the byte that closes the balance, reading from \<open>i\<close> with \<open>cont\<close> open.\<close>

function balance_loop :: "byte list \<Rightarrow> byte \<Rightarrow> byte \<Rightarrow> nat \<Rightarrow> nat \<Rightarrow> nat option" where
  "balance_loop src b e cont i =
     (if length src \<le> i then None
      else if src ! i = e then (if cont = 1 then Some (i + 1) else balance_loop src b e (cont - 1) (i + 1))
      else balance_loop src b e (if src ! i = b then cont + 1 else cont) (i + 1))"
  by pat_completeness auto

termination
  by (relation "measure (\<lambda>(src, b, e, cont, i). length src - i)") auto

definition match_balance :: "matcher \<Rightarrow> byte list \<Rightarrow> byte list \<Rightarrow> capture list \<Rightarrow> nat \<Rightarrow> nat \<Rightarrow> matched" where
  "match_balance dm src pat caps s p =
     (if length pat \<le> p + 1 \<or> length src \<le> s \<or> src ! s \<noteq> pat ! p then (caps, None)
      else case balance_loop src (pat ! p) (pat ! (p + 1)) 1 (s + 1) of
        None \<Rightarrow> (caps, None)
      | Some i \<Rightarrow> dm caps i (p + 2))"

section \<open>Quantified items\<close>

function run_length :: "byte list \<Rightarrow> byte list \<Rightarrow> nat \<Rightarrow> nat \<Rightarrow> nat \<Rightarrow> nat" where
  "run_length src pat s p ep =
     (if single_match src pat s p ep then Suc (run_length src pat (s + 1) p ep) else 0)"
  by pat_completeness auto

termination
  by (relation "measure (\<lambda>(src, pat, s, p, ep). length src - s)") (auto simp: single_match_def)

fun back_off :: "matcher \<Rightarrow> capture list \<Rightarrow> nat \<Rightarrow> nat \<Rightarrow> nat \<Rightarrow> matched" where
  "back_off dm caps s 0 q = dm caps s q"
| "back_off dm caps s (Suc i) q =
     (case dm caps (s + Suc i) q of
        (caps, Some e) \<Rightarrow> (caps, Some e)
      | (caps, None) \<Rightarrow> back_off dm caps s i q)"

definition max_expand :: "matcher \<Rightarrow> byte list \<Rightarrow> byte list \<Rightarrow> capture list \<Rightarrow> nat \<Rightarrow> nat \<Rightarrow> nat \<Rightarrow> matched" where
  "max_expand dm src pat caps s p ep = back_off dm caps s (run_length src pat s p ep) (ep + 1)"

function min_expand :: "matcher \<Rightarrow> byte list \<Rightarrow> byte list \<Rightarrow> capture list \<Rightarrow> nat \<Rightarrow> nat \<Rightarrow> nat \<Rightarrow> matched" where
  "min_expand dm src pat caps s p ep =
     (case dm caps s (ep + 1) of
        (caps, Some e) \<Rightarrow> (caps, Some e)
      | (caps, None) \<Rightarrow>
          if single_match src pat s p ep then min_expand dm src pat caps (s + 1) p ep else (caps, None))"
  by pat_completeness auto

termination
  by (relation "measure (\<lambda>(dm, src, pat, caps, s, p, ep). length src - s)") (auto simp: single_match_def)

declare set_end.simps [simp del] bracket_loop.simps [simp del] balance_loop.simps [simp del]
  run_length.simps [simp del] min_expand.simps [simp del]

definition default_match :: "matcher \<Rightarrow> byte list \<Rightarrow> byte list \<Rightarrow> capture list \<Rightarrow> nat \<Rightarrow> nat \<Rightarrow> matched" where
  "default_match dm src pat caps s p =
     (case class_end pat p of
        None \<Rightarrow> (caps, None)
      | Some ep \<Rightarrow>
          let q = (if ep < length pat then Some (pat ! ep) else None); m = single_match src pat s p ep in
          if q = Some 0x3f then
            (if m then (case dm caps (s + 1) (ep + 1) of
                 (caps, Some e) \<Rightarrow> (caps, Some e)
               | (caps, None) \<Rightarrow> dm caps s (ep + 1))
             else dm caps s (ep + 1))
          else if q = Some 0x2b then (if m then max_expand dm src pat caps (s + 1) p ep else (caps, None))
          else if q = Some 0x2a then max_expand dm src pat caps s p ep
          else if q = Some 0x2d then min_expand dm src pat caps s p ep
          else if m then dm caps (s + 1) ep else (caps, None))"

section \<open>The matcher\<close>

lemma set_end_gt: "set_end pat p = Some ep \<Longrightarrow> p < ep \<and> ep \<le> length pat"
  by (induction pat p rule: set_end.induct)
    (subst (asm) (2) set_end.simps, fastforce simp: Let_def split: if_splits)

lemma class_end_gt: "class_end pat p = Some ep \<Longrightarrow> p < ep \<and> ep \<le> length pat"
  by (auto simp: class_end_def split: if_splits dest: set_end_gt)

function match_loop :: "matcher \<Rightarrow> byte list \<Rightarrow> byte list \<Rightarrow> capture list \<Rightarrow> nat \<Rightarrow> nat \<Rightarrow> matched" where
  "match_loop dm src pat caps s p =
     (if length pat \<le> p then (caps, Some s)
      else if pat ! p = 0x28 then
        (if p + 1 < length pat \<and> pat ! (p + 1) = 0x29 then start_capture dm caps s (p + 2) CAP_POSITION
         else start_capture dm caps s (p + 1) CAP_UNFINISHED)
      else if pat ! p = 0x29 then end_capture dm caps s (p + 1)
      else if pat ! p = 0x24 \<and> p + 1 = length pat then (caps, if s = length src then Some s else None)
      else if pat ! p = L_ESC \<and> p + 1 < length pat \<and> pat ! (p + 1) = 0x62 then
        match_balance dm src pat caps s (p + 2)
      else if pat ! p = L_ESC \<and> p + 1 < length pat \<and> pat ! (p + 1) = 0x66 then
        (if p + 2 < length pat \<and> pat ! (p + 2) = 0x5b then
           (case class_end pat (p + 2) of
              None \<Rightarrow> (caps, None)
            | Some ep \<Rightarrow>
                if \<not> match_bracket pat (if s = 0 then 0 else src ! (s - 1)) (p + 2) (ep - 1) \<and>
                   match_bracket pat (if s < length src then src ! s else 0) (p + 2) (ep - 1)
                then match_loop dm src pat caps s ep else (caps, None))
         else (caps, None))
      else if pat ! p = L_ESC \<and> p + 1 < length pat \<and> is_digit (pat ! (p + 1)) then
        (case match_capture src caps s (pat ! (p + 1)) of
           None \<Rightarrow> (caps, None)
         | Some ns \<Rightarrow> match_loop dm src pat caps ns (p + 2))
      else default_match dm src pat caps s p)"
  by pat_completeness auto

termination
  by (relation "measure (\<lambda>(dm, src, pat, caps, s, p). length pat - p)") (auto dest: class_end_gt)

declare match_loop.simps [simp del]

primrec do_match :: "byte list \<Rightarrow> byte list \<Rightarrow> nat \<Rightarrow> matcher" where
  "do_match src pat 0 = (\<lambda>caps s p. (caps, None))"
| "do_match src pat (Suc depth) = match_loop (do_match src pat depth) src pat"

function lua_match_from :: "byte list \<Rightarrow> byte list \<Rightarrow> bool \<Rightarrow> nat \<Rightarrow> bool" where
  "lua_match_from src pat anchor s =
     (if snd (do_match src pat MAX_MATCH_DEPTH [] s 0) \<noteq> None then True
      else if anchor \<or> length src \<le> s then False
      else lua_match_from src pat anchor (s + 1))"
  by pat_completeness auto

termination
  by (relation "measure (\<lambda>(src, pat, anchor, s). length src - s)") auto

declare lua_match_from.simps [simp del]

definition lua_match :: "byte list \<Rightarrow> byte list \<Rightarrow> bool" where
  "lua_match src pattern =
     (let anchor = (pattern \<noteq> [] \<and> hd pattern = 0x5e) in
      lua_match_from src (if anchor then tl pattern else pattern) anchor 0)"

end
