(* ===== verification/Lua_PatternProps.thy ===== *)
theory Lua_PatternProps
  imports Lua_Pattern
begin

text \<open>
  The backtracking matcher against a reading of patterns as lists of items: an item list denotes,
  from a position and the captures so far, the set of positions where a match can end. The matcher
  finds an end of that set, and finds one whenever there is one, as long as its depth limit is not
  met; a pattern of fewer bytes than the limit never meets it.
\<close>

section \<open>Patterns as item lists\<close>

datatype quant = Once | Opt | Star | Plus

datatype item =
    Single "byte \<Rightarrow> bool" quant
  | OpenCap
  | PosCap
  | CloseCap
  | BackRef byte
  | Balanced byte byte
  | Frontier "byte \<Rightarrow> bool"
  | AtEnd
  | Broken

definition quant_at :: "byte list \<Rightarrow> nat \<Rightarrow> quant \<times> nat" where
  "quant_at pat ep =
     (if length pat \<le> ep then (Once, ep)
      else if pat ! ep = 0x3f then (Opt, ep + 1)
      else if pat ! ep = 0x2b then (Plus, ep + 1)
      else if pat ! ep = 0x2a \<or> pat ! ep = 0x2d then (Star, ep + 1)
      else (Once, ep))"

lemma quant_at_cases:
  assumes "quant_at pat ep = (q, p)"
  shows "ep < length pat \<and> pat ! ep = 0x3f \<and> q = Opt \<and> p = ep + 1 \<or>
    ep < length pat \<and> pat ! ep = 0x2b \<and> q = Plus \<and> p = ep + 1 \<or>
    ep < length pat \<and> pat ! ep = 0x2a \<and> q = Star \<and> p = ep + 1 \<or>
    ep < length pat \<and> pat ! ep = 0x2d \<and> q = Star \<and> p = ep + 1 \<or>
    (ep < length pat \<longrightarrow> pat ! ep \<notin> {0x3f, 0x2b, 0x2a, 0x2d}) \<and> q = Once \<and> p = ep"
proof (cases "length pat \<le> ep")
  case True
  then show ?thesis using assms by (simp add: quant_at_def)
next
  case False
  then have eq: "quant_at pat ep = (if pat ! ep = 0x3f then (Opt, ep + 1) else if pat ! ep = 0x2b then (Plus, ep + 1)
      else if pat ! ep = 0x2a \<or> pat ! ep = 0x2d then (Star, ep + 1) else (Once, ep))"
    by (simp add: quant_at_def)
  show ?thesis
    using False assms unfolding eq by (cases "pat ! ep = 0x3f"; cases "pat ! ep = 0x2b"; cases "pat ! ep = 0x2a"; cases "pat ! ep = 0x2d") simp_all
qed

lemma quant_at_ge: "quant_at pat ep = (q, p) \<Longrightarrow> ep \<le> p"
  by (auto simp: quant_at_def split: if_splits)

function items :: "byte list \<Rightarrow> nat \<Rightarrow> item list" where
  "items pat p =
     (if length pat \<le> p then []
      else if pat ! p = 0x28 then
        (if p + 1 < length pat \<and> pat ! (p + 1) = 0x29 then PosCap # items pat (p + 2)
         else OpenCap # items pat (p + 1))
      else if pat ! p = 0x29 then CloseCap # items pat (p + 1)
      else if pat ! p = 0x24 \<and> p + 1 = length pat then [AtEnd]
      else if pat ! p = L_ESC \<and> p + 1 < length pat \<and> pat ! (p + 1) = 0x62 then
        (if p + 3 < length pat then Balanced (pat ! (p + 2)) (pat ! (p + 3)) # items pat (p + 4) else [Broken])
      else if pat ! p = L_ESC \<and> p + 1 < length pat \<and> pat ! (p + 1) = 0x66 then
        (if p + 2 < length pat \<and> pat ! (p + 2) = 0x5b then
           (case class_end pat (p + 2) of
              None \<Rightarrow> [Broken]
            | Some ep \<Rightarrow> Frontier (\<lambda>c. match_bracket pat c (p + 2) (ep - 1)) # items pat ep)
         else [Broken])
      else if pat ! p = L_ESC \<and> p + 1 < length pat \<and> is_digit (pat ! (p + 1)) then
        BackRef (pat ! (p + 1)) # items pat (p + 2)
      else
        (case class_end pat p of
           None \<Rightarrow> [Broken]
         | Some ep \<Rightarrow> (case quant_at pat ep of (q, p') \<Rightarrow> Single (item_test pat p ep) q # items pat p')))"
  by pat_completeness auto

termination
  by (relation "measure (\<lambda>(pat, p). length pat - p)") (auto dest!: class_end_gt quant_at_ge[OF sym])

declare items.simps [simp del]

fun times :: "quant \<Rightarrow> nat \<Rightarrow> bool" where
  "times Once k = (k = 1)"
| "times Opt k = (k \<le> 1)"
| "times Star k = True"
| "times Plus k = (1 \<le> k)"

definition run_ok :: "byte list \<Rightarrow> (byte \<Rightarrow> bool) \<Rightarrow> nat \<Rightarrow> nat \<Rightarrow> bool" where
  "run_ok src t s k \<longleftrightarrow> (\<forall>j < k. s + j < length src \<and> t (src ! (s + j)))"

definition bal_step :: "byte \<Rightarrow> byte \<Rightarrow> int \<Rightarrow> byte \<Rightarrow> int" where
  "bal_step b e n c = (if c = e then n - 1 else if c = b then n + 1 else n)"

definition level :: "byte \<Rightarrow> byte \<Rightarrow> byte list \<Rightarrow> int" where
  "level b e = foldl (bal_step b e) 1"

text \<open>\<open>k\<close> bytes from \<open>s\<close> open with \<open>b\<close> and end at the first byte that closes it.\<close>

definition balanced :: "byte list \<Rightarrow> byte \<Rightarrow> byte \<Rightarrow> nat \<Rightarrow> nat \<Rightarrow> bool" where
  "balanced src b e s k \<longleftrightarrow> 0 < k \<and> s + k < length src \<and> src ! s = b \<and>
     level b e (take k (drop (s + 1) src)) = 0 \<and> (\<forall>j < k. 0 < level b e (take j (drop (s + 1) src)))"

text \<open>The positions where a match of the items from \<open>s\<close> can end.\<close>

fun ends :: "byte list \<Rightarrow> item list \<Rightarrow> capture list \<Rightarrow> nat \<Rightarrow> nat set" where
  "ends src [] caps s = {s}"
| "ends src (Single t q # is) caps s = (\<Union>k \<in> {k. times q k \<and> run_ok src t s k}. ends src is caps (s + k))"
| "ends src (OpenCap # is) caps s = ends src is (caps @ [\<lparr>cap_init = s, cap_len = CAP_UNFINISHED\<rparr>]) s"
| "ends src (PosCap # is) caps s = ends src is (caps @ [\<lparr>cap_init = s, cap_len = CAP_POSITION\<rparr>]) s"
| "ends src (CloseCap # is) caps s =
     (case last_open caps of
        None \<Rightarrow> {}
      | Some l \<Rightarrow> ends src is (set_cap_len (int s - int (cap_init (caps ! l))) l caps) s)"
| "ends src (BackRef d # is) caps s =
     (case match_capture src caps s d of None \<Rightarrow> {} | Some s' \<Rightarrow> ends src is caps s')"
| "ends src (Balanced b e # is) caps s = (\<Union>k \<in> {k. balanced src b e s k}. ends src is caps (s + k + 1))"
| "ends src (Frontier t # is) caps s =
     (if \<not> t (if s = 0 then 0 else src ! (s - 1)) \<and> t (if s < length src then src ! s else 0)
      then ends src is caps s else {})"
| "ends src (AtEnd # is) caps s = (if s = length src then {s} else {})"
| "ends src (Broken # is) caps s = {}"

section \<open>Exact results\<close>

text \<open>A result is exact for a set of ends when it is one of them, or, the captures as they were, none;
  \<open>full\<close> says that none means there is none.\<close>

definition exact :: "bool \<Rightarrow> capture list \<Rightarrow> nat set \<Rightarrow> matched \<Rightarrow> bool" where
  "exact full caps E m \<longleftrightarrow>
     (case m of (caps', None) \<Rightarrow> caps' = caps \<and> (full \<longrightarrow> E = {}) | (_, Some e) \<Rightarrow> e \<in> E)"

lemma exact_none: "exact full caps E (caps', None) \<longleftrightarrow> caps' = caps \<and> (full \<longrightarrow> E = {})"
  and exact_some: "exact full caps E (caps', Some e) \<longleftrightarrow> e \<in> E"
  by (simp_all add: exact_def)

lemma last_open_Some:
  assumes "last_open caps = Some l"
  shows "l < length caps" and "cap_len (caps ! l) = CAP_UNFINISHED"
  using assms by (auto simp: last_open_def find_Some_iff rev_nth)

lemma set_cap_len_back:
  assumes "l < length caps" and "cap_len (caps ! l) = u"
  shows "set_cap_len u l (set_cap_len n l caps) = caps"
  using assms by (simp add: set_cap_len_def list_update_same_conv)

lemma start_capture_exact:
  assumes "exact full (caps @ [\<lparr>cap_init = s, cap_len = w\<rparr>]) E (dm (caps @ [\<lparr>cap_init = s, cap_len = w\<rparr>]) s q)"
  shows "exact full caps E (start_capture dm caps s q w)"
  using assms by (auto simp: start_capture_def exact_def split: prod.splits option.splits)

lemma end_capture_exact:
  assumes "\<And>caps. exact full caps (ends src is caps s) (dm caps s q)"
  shows "exact full caps (ends src (CloseCap # is) caps s) (end_capture dm caps s q)"
proof (cases "last_open caps")
  case None
  then show ?thesis by (simp add: end_capture_def exact_def)
next
  case (Some l)
  let ?caps = "set_cap_len (int s - int (cap_init (caps ! l))) l caps"
  obtain caps' r where m: "dm ?caps s q = (caps', r)" by fastforce
  have "set_cap_len CAP_UNFINISHED l ?caps = caps" by (rule set_cap_len_back[OF last_open_Some[OF Some]])
  then show ?thesis using assms[of ?caps] Some m
    by (cases r) (auto simp: end_capture_def exact_def)
qed

section \<open>Runs\<close>

lemma run_ok_0: "run_ok src t s 0"
  by (simp add: run_ok_def)

lemma run_ok_1: "run_ok src t s (Suc 0) \<longleftrightarrow> s < length src \<and> t (src ! s)"
  by (simp add: run_ok_def)

lemma run_ok_Suc: "run_ok src t s (Suc k) \<longleftrightarrow> s < length src \<and> t (src ! s) \<and> run_ok src t (Suc s) k"
  unfolding run_ok_def by (auto simp: less_Suc_eq_0_disj)

lemma run_ok_bound: "s \<le> length src \<Longrightarrow> run_ok src t s k \<Longrightarrow> s + k \<le> length src"
  by (cases k) (auto simp: run_ok_def)

lemma run_length_ok: "run_ok src (item_test pat p ep) s k \<longleftrightarrow> k \<le> run_length src pat s p ep"
proof (induction k arbitrary: s)
  case (Suc k)
  then show ?case
    by (subst run_length.simps) (auto simp: run_ok_Suc single_match_def)
qed (simp add: run_ok_0)

lemma back_off_exact:
  assumes "\<And>k. k \<le> i \<Longrightarrow> exact full caps (ends src is caps (s + k)) (dm caps (s + k) q)"
  shows "exact full caps (\<Union>k \<in> {..i}. ends src is caps (s + k)) (back_off dm caps s i q)"
  using assms
proof (induction i)
  case 0
  then show ?case using "0"[of 0] by simp
next
  case (Suc i)
  obtain caps' r where m: "dm caps (s + Suc i) q = (caps', r)" by fastforce
  have ih: "exact full caps (\<Union>k \<in> {..i}. ends src is caps (s + k)) (back_off dm caps s i q)"
    using Suc by simp
  have now: "exact full caps (ends src is caps (s + Suc i)) (caps', r)" using Suc.prems[of "Suc i"] m by simp
  have union: "(\<Union>k \<in> {..Suc i}. ends src is caps (s + k)) =
      ends src is caps (s + Suc i) \<union> (\<Union>k \<in> {..i}. ends src is caps (s + k))"
    by (simp add: atMost_Suc)
  show ?case unfolding union using ih now m
    by (cases r) (auto simp: exact_def split: prod.splits option.splits)
qed

lemma max_expand_exact:
  assumes "s \<le> length src" and "\<And>s. s \<le> length src \<Longrightarrow> exact full caps (ends src is caps s) (dm caps s (ep + 1))"
  shows "exact full caps (ends src (Single (item_test pat p ep) Star # is) caps s)
    (max_expand dm src pat caps s p ep)"
proof -
  have "s + k \<le> length src" if "k \<le> run_length src pat s p ep" for k
    using run_ok_bound[OF assms(1)] that unfolding run_length_ok[symmetric] by blast
  then have "exact full caps (\<Union>k \<in> {..run_length src pat s p ep}. ends src is caps (s + k))
      (max_expand dm src pat caps s p ep)"
    unfolding max_expand_def by (intro back_off_exact assms(2))
  moreover have "{k. run_ok src (item_test pat p ep) s k} = {..run_length src pat s p ep}"
    by (auto simp: run_length_ok)
  ultimately show ?thesis by simp
qed

lemma plus_star:
  "ends src (Single t Plus # is) caps s =
   (if s < length src \<and> t (src ! s) then ends src (Single t Star # is) caps (s + 1) else {})"
proof -
  have "{k. times Plus k \<and> run_ok src t s k} =
      (if s < length src \<and> t (src ! s) then Suc ` {k. run_ok src t (s + 1) k} else {})"
    by (auto simp: image_iff run_ok_Suc Suc_le_eq gr0_conv_Suc)
  then show ?thesis by (simp add: image_image split: if_splits)
qed

lemma star_step:
  "ends src (Single t Star # is) caps s =
   ends src is caps s \<union> (if s < length src \<and> t (src ! s) then ends src (Single t Star # is) caps (s + 1) else {})"
proof -
  have "{k. run_ok src t s k} =
      insert 0 (if s < length src \<and> t (src ! s) then Suc ` {k. run_ok src t (s + 1) k} else {})" (is "?L = ?R")
  proof (rule set_eqI)
    fix k show "k \<in> ?L \<longleftrightarrow> k \<in> ?R" by (cases k) (auto simp: run_ok_0 run_ok_Suc)
  qed
  then show ?thesis by (simp add: image_image split: if_splits)
qed

lemma min_expand_exact:
  assumes "\<And>s. s \<le> length src \<Longrightarrow> exact full caps (ends src is caps s) (dm caps s (ep + 1))" and "s \<le> length src"
  shows "exact full caps (ends src (Single (item_test pat p ep) Star # is) caps s)
    (min_expand dm src pat caps s p ep)"
  using assms(2)
proof (induction "length src - s" arbitrary: s rule: less_induct)
  case less
  obtain caps' r where m: "dm caps s (ep + 1) = (caps', r)" by fastforce
  have now: "exact full caps (ends src is caps s) (caps', r)" using assms(1)[OF less.prems] m by simp
  show ?case
  proof (cases r)
    case (Some e)
    then show ?thesis using now m by (subst min_expand.simps, subst star_step) (simp add: exact_some)
  next
    case None
    then have c: "caps' = caps" using now by (simp add: exact_none)
    show ?thesis
    proof (cases "single_match src pat s p ep")
      case True
      then have s: "s < length src" "item_test pat p ep (src ! s)" by (auto simp: single_match_def)
      have "exact full caps (ends src (Single (item_test pat p ep) Star # is) caps (s + 1))
          (min_expand dm src pat caps (s + 1) p ep)"
        using s by (intro less.hyps) auto
      then show ?thesis using now None m c True s
        by (subst min_expand.simps, subst star_step) (auto simp: exact_def split: prod.splits option.splits)
    next
      case False
      then show ?thesis using now None m c
        by (subst min_expand.simps, subst star_step) (auto simp: exact_def single_match_def)
    qed
  qed
qed

lemma opt_ends:
  "ends src (Single t Opt # is) caps s =
   ends src is caps s \<union> (if s < length src \<and> t (src ! s) then ends src is caps (s + 1) else {})"
proof -
  have "{k. times Opt k \<and> run_ok src t s k} = insert 0 (if s < length src \<and> t (src ! s) then {1} else {})"
    by (auto simp: le_Suc_eq run_ok_0 run_ok_1)
  then show ?thesis by (simp split: if_splits)
qed

lemma once_ends:
  "ends src (Single t Once # is) caps s = (if s < length src \<and> t (src ! s) then ends src is caps (s + 1) else {})"
proof -
  have "{k. times Once k \<and> run_ok src t s k} = (if s < length src \<and> t (src ! s) then {1} else {})"
    by (auto simp: run_ok_1)
  then show ?thesis by (simp split: if_splits)
qed

lemma default_exact:
  assumes ep: "class_end pat p = Some ep" and q: "quant_at pat ep = (q, p')" and s: "s \<le> length src"
    and dm: "\<And>s. s \<le> length src \<Longrightarrow> exact full caps (ends src is caps s) (dm caps s p')"
  shows "exact full caps (ends src (Single (item_test pat p ep) q # is) caps s) (default_match dm src pat caps s p)"
proof -
  let ?t = "item_test pat p ep"
  let ?m = "single_match src pat s p ep"
  have m: "?m \<longleftrightarrow> s < length src \<and> ?t (src ! s)" by (simp add: single_match_def)
  consider (opt) "ep < length pat" "pat ! ep = 0x3f" "q = Opt" "p' = ep + 1"
    | (plus) "ep < length pat" "pat ! ep = 0x2b" "q = Plus" "p' = ep + 1"
    | (star) "ep < length pat" "pat ! ep = 0x2a" "q = Star" "p' = ep + 1"
    | (lazy) "ep < length pat" "pat ! ep = 0x2d" "q = Star" "p' = ep + 1"
    | (once) "ep < length pat \<longrightarrow> pat ! ep \<notin> {0x3f, 0x2b, 0x2a, 0x2d}" "q = Once" "p' = ep"
    using quant_at_cases[OF q] by blast
  then show ?thesis
  proof cases
    case opt
    have eq: "default_match dm src pat caps s p =
        (if ?m then (case dm caps (s + 1) p' of (caps, Some e) \<Rightarrow> (caps, Some e) | (caps, None) \<Rightarrow> dm caps s p')
         else dm caps s p')" unfolding opt(4) using ep opt(1,2) by (simp add: default_match_def)
    show ?thesis
    proof (cases ?m)
      case True
      then have now: "exact full caps (ends src is caps (s + 1)) (dm caps (s + 1) p')" using m by (intro dm) simp
      obtain c r where r: "dm caps (s + 1) p' = (c, r)" by fastforce
      show ?thesis unfolding eq opt(3) opt_ends using now dm[OF s] True m r
        by (cases r) (auto simp: exact_def split: prod.split option.split)
    next
      case False
      then have no: "\<not> (s < length src \<and> ?t (src ! s))" using m by blast
      have "ends src (Single ?t Opt # is) caps s = ends src is caps s" unfolding opt_ends if_not_P[OF no] by simp
      then show ?thesis unfolding eq opt(3) using False dm[OF s] by simp
    qed
  next
    case plus
    then have eq: "default_match dm src pat caps s p = (if ?m then max_expand dm src pat caps (s + 1) p ep else (caps, None))"
      using ep by (simp add: default_match_def)
    show ?thesis
    proof (cases ?m)
      case True
      then have yes: "s < length src \<and> ?t (src ! s)" using m by blast
      show ?thesis unfolding eq plus(3) plus_star if_P[OF True] if_P[OF yes]
        using yes dm unfolding plus(4) by (intro max_expand_exact) auto
    next
      case False
      then have no: "\<not> (s < length src \<and> ?t (src ! s))" using m by blast
      show ?thesis unfolding eq plus(3) plus_star if_not_P[OF False] if_not_P[OF no] by (simp add: exact_none)
    qed
  next
    case star
    then have eq: "default_match dm src pat caps s p = max_expand dm src pat caps s p ep"
      using ep by (simp add: default_match_def)
    show ?thesis unfolding eq star(3) using max_expand_exact[OF s] dm star by simp
  next
    case lazy
    then have eq: "default_match dm src pat caps s p = min_expand dm src pat caps s p ep"
      using ep by (simp add: default_match_def)
    show ?thesis unfolding eq lazy(3) using min_expand_exact[OF _ s] dm lazy by simp
  next
    case once
    then have eq: "default_match dm src pat caps s p = (if ?m then dm caps (s + 1) p' else (caps, None))"
      using ep by (auto simp: default_match_def Let_def)
    show ?thesis
    proof (cases ?m)
      case True
      then have yes: "s < length src \<and> ?t (src ! s)" using m by blast
      show ?thesis unfolding eq once(2) once_ends if_P[OF True] if_P[OF yes] using yes by (intro dm) simp
    next
      case False
      then have no: "\<not> (s < length src \<and> ?t (src ! s))" using m by blast
      show ?thesis unfolding eq once(2) once_ends if_not_P[OF False] if_not_P[OF no] by (simp add: exact_none)
    qed
  qed
qed

section \<open>Balances\<close>

lemma level_Nil: "level b e [] = 1"
  by (simp add: level_def)

text \<open>The scan from an open count finds the first prefix that brings the count to zero.\<close>

lemma balance_loop_spec:
  assumes "0 < n"
  shows "balance_loop src b e n i = Some r \<longleftrightarrow>
    (\<exists>k > 0. r = i + k \<and> i + k \<le> length src \<and> foldl (bal_step b e) (int n) (take k (drop i src)) = 0 \<and>
       (\<forall>j < k. 0 < foldl (bal_step b e) (int n) (take j (drop i src))))"
    (is "_ \<longleftrightarrow> (\<exists>k > 0. ?P n i k)")
  using assms
proof (induction "length src - i" arbitrary: i n)
  case 0
  then show ?case by (subst balance_loop.simps) auto
next
  case (Suc m)
  then have i: "i < length src" by simp
  let ?F = "\<lambda>n i k. foldl (bal_step b e) n (take k (drop i src))"
  let ?v = "bal_step b e (int n) (src ! i)"
  have unfold: "?F u i (Suc k) = ?F (bal_step b e u (src ! i)) (Suc i) k" for u k
    by (simp flip: Cons_nth_drop_Suc[OF i])
  have shift: "?P n i (Suc k) \<longleftrightarrow> r = Suc i + k \<and> Suc i + k \<le> length src \<and> ?F ?v (Suc i) k = 0 \<and>
      (\<forall>j < k. 0 < ?F ?v (Suc i) j)" for k
    using Suc.prems unfolding All_less_Suc2 unfold by simp
  have ex: "(\<exists>k > 0. ?P n i k) \<longleftrightarrow> (\<exists>k. ?P n i (Suc k))"
    by (metis gr0_conv_Suc zero_less_Suc)
  consider (close) "src ! i = e" "n = 1" | (more) "\<not> (src ! i = e \<and> n = 1)" by blast
  then show ?case
  proof cases
    case close
    then have v: "?v = 0" by (simp add: bal_step_def)
    have "(\<exists>k. ?P n i (Suc k)) \<longleftrightarrow> r = Suc i"
    proof
      assume "\<exists>k. ?P n i (Suc k)"
      then obtain k where "r = Suc i + k" "\<forall>j < k. 0 < ?F ?v (Suc i) j" unfolding shift by blast
      then show "r = Suc i" using v by (cases k) auto
    next
      assume "r = Suc i"
      then have "?P n i (Suc 0)" unfolding shift using i v by simp
      then show "\<exists>k. ?P n i (Suc k)" by blast
    qed
    moreover have "balance_loop src b e n i = Some (Suc i)"
      using i close by (subst balance_loop.simps) simp
    ultimately show ?thesis unfolding ex by auto
  next
    case more
    define v where "v = (if src ! i = e then n - 1 else if src ! i = b then n + 1 else n)"
    have v: "0 < v" "?v = int v" using more Suc.prems by (auto simp: v_def bal_step_def)
    have eq: "balance_loop src b e n i = balance_loop src b e v (Suc i)"
      using i more by (subst balance_loop.simps) (auto simp: v_def)
    have "?P v (Suc i) 0 = False" using v(1) by simp
    then have "(\<exists>k. ?P n i (Suc k)) \<longleftrightarrow> (\<exists>k > 0. ?P v (Suc i) k)" unfolding shift v(2) by (metis gr0I)
    then show ?thesis using Suc.hyps(1)[of "Suc i" v] Suc.hyps(2) v(1) unfolding eq ex by simp
  qed
qed

lemma match_balance_exact:
  assumes dm: "\<And>s. s \<le> length src \<Longrightarrow> exact full caps (ends src is caps s) (dm caps s (p + 2))"
    and p: "p + 1 < length pat"
  shows "exact full caps (ends src (Balanced (pat ! p) (pat ! (p + 1)) # is) caps s) (match_balance dm src pat caps s p)"
proof (cases "s < length src \<and> src ! s = pat ! p")
  case False
  then have "{k. balanced src (pat ! p) (pat ! (p + 1)) s k} = {}" by (auto simp: balanced_def)
  then show ?thesis using False p by (auto simp: match_balance_def exact_def)
next
  case True
  let ?b = "pat ! p" and ?e = "pat ! (p + 1)"
  have spec: "balance_loop src ?b ?e 1 (s + 1) = Some r \<longleftrightarrow> (\<exists>k. balanced src ?b ?e s k \<and> r = s + k + 1)" for r
    using balance_loop_spec[of 1 src ?b ?e "s + 1" r] True by (auto simp: balanced_def level_def)
  show ?thesis
  proof (cases "balance_loop src ?b ?e 1 (s + 1)")
    case None
    then have "{k. balanced src ?b ?e s k} = {}" using spec by auto
    then show ?thesis using None True p by (simp add: match_balance_def exact_none)
  next
    case (Some r)
    then obtain k where k: "balanced src ?b ?e s k" "r = s + k + 1" using spec by blast
    have "k' = k" if "balanced src ?b ?e s k'" for k'
    proof -
      have "balance_loop src ?b ?e 1 (s + 1) = Some (s + k' + 1)" using spec that by blast
      then show ?thesis using Some k(2) by simp
    qed
    then have "{k. balanced src ?b ?e s k} = {k}" using k(1) by blast
    then have "ends src (Balanced ?b ?e # is) caps s = ends src is caps r" using k(2) by simp
    moreover have "r \<le> length src" using k by (simp add: balanced_def)
    ultimately show ?thesis using dm[of r] Some True p by (simp add: match_balance_def)
  qed
qed

section \<open>The matcher finds an end, or there is none\<close>

lemma exact_mono: "exact full caps E m \<Longrightarrow> (full' \<Longrightarrow> full) \<Longrightarrow> exact full' caps E m"
  by (auto simp: exact_def split: prod.splits option.splits)

lemma match_capture_bound: "s \<le> length src \<Longrightarrow> match_capture src caps s d = Some s' \<Longrightarrow> s' \<le> length src"
  by (auto simp: match_capture_def Let_def split: if_splits)

lemma match_loop_exact:
  assumes dm: "\<And>caps s p. s \<le> length src \<Longrightarrow>
      exact (length (items pat p) < d) caps (ends src (items pat p) caps s) (dm caps s p)"
    and s: "s \<le> length src"
  shows "exact (length (items pat p) < Suc d) caps (ends src (items pat p) caps s) (match_loop dm src pat caps s p)"
  using s
proof (induction "length pat - p" arbitrary: s p rule: less_induct)
  case less
  note step = match_loop.simps[of dm src pat caps s p] items.simps[of pat p]
  have dm': "exact (Suc (length (items pat q)) < Suc d) c (ends src (items pat q) c s') (dm c s' q)"
    if "s' \<le> length src" for c s' q using dm[OF that] by simp
  show ?case
  proof (cases "length pat \<le> p")
    case True
    then show ?thesis by (simp add: step exact_def)
  next
    case p: False
    show ?thesis
    proof (cases "pat ! p = 0x28")
      case True
      show ?thesis
      proof (cases "p + 1 < length pat \<and> pat ! (p + 1) = 0x29")
        case pos: True
        have "match_loop dm src pat caps s p = start_capture dm caps s (p + 2) CAP_POSITION"
          "items pat p = PosCap # items pat (p + 2)" using p True pos by (simp_all add: step)
        then show ?thesis using dm'[OF less.prems] by (simp add: start_capture_exact)
      next
        case False
        then have "match_loop dm src pat caps s p = start_capture dm caps s (p + 1) CAP_UNFINISHED"
          "items pat p = OpenCap # items pat (p + 1)" using p True by (auto simp: step)
        then show ?thesis using dm'[OF less.prems] by (simp add: start_capture_exact)
      qed
    next
      case no28: False
      show ?thesis
      proof (cases "pat ! p = 0x29")
        case True
        then have "match_loop dm src pat caps s p = end_capture dm caps s (p + 1)"
          "items pat p = CloseCap # items pat (p + 1)" using p by (simp_all add: step)
        moreover have "exact (Suc (length (items pat (p + 1))) < Suc d) caps
            (ends src (CloseCap # items pat (p + 1)) caps s) (end_capture dm caps s (p + 1))"
          by (rule end_capture_exact) (rule dm'[OF less.prems])
        ultimately show ?thesis by simp
      next
        case no29: False
        show ?thesis
        proof (cases "pat ! p = 0x24 \<and> p + 1 = length pat")
          case True
          then show ?thesis using p by (simp add: step exact_def)
        next
          case no24: False
          show ?thesis
          proof (cases "pat ! p = L_ESC \<and> p + 1 < length pat \<and>
              (pat ! (p + 1) = 0x62 \<or> pat ! (p + 1) = 0x66 \<or> is_digit (pat ! (p + 1)))")
            case True
            then have esc: "pat ! p = L_ESC" "p + 1 < length pat" by blast+
            consider (bal) "pat ! (p + 1) = 0x62" | (front) "pat ! (p + 1) = 0x66"
              | (ref) "pat ! (p + 1) \<noteq> 0x62" "pat ! (p + 1) \<noteq> 0x66" "is_digit (pat ! (p + 1))" using True by blast
            then show ?thesis
            proof cases
              case bal
              have loop: "match_loop dm src pat caps s p = match_balance dm src pat caps s (p + 2)"
                using p no28 no29 no24 esc bal by (simp add: step)
              show ?thesis
              proof (cases "p + 3 < length pat")
                case True
                then have "items pat p = Balanced (pat ! (p + 2)) (pat ! (p + 3)) # items pat (p + 4)"
                  using p no28 no29 no24 esc bal by (simp add: step)
                moreover have "exact (Suc (length (items pat (p + 4))) < Suc d) caps
                    (ends src (Balanced (pat ! (p + 2)) (pat ! (p + 2 + 1)) # items pat (p + 4)) caps s)
                    (match_balance dm src pat caps s (p + 2))"
                proof (rule match_balance_exact)
                  show "p + 2 + 1 < length pat" using True by simp
                  fix s' assume "s' \<le> length src"
                  have four: "p + 2 + 2 = p + 4" by simp
                  show "exact (Suc (length (items pat (p + 4))) < Suc d) caps (ends src (items pat (p + 4)) caps s')
                      (dm caps s' (p + 2 + 2))" unfolding four by (rule dm') fact
                qed
                moreover have three: "p + 2 + 1 = p + 3" by simp
                ultimately show ?thesis unfolding three by (simp add: loop)
              next
                case False
                then have "items pat p = [Broken]" using p no28 no29 no24 esc bal by (simp add: step)
                then show ?thesis using False by (simp add: loop match_balance_def exact_def)
              qed
            next
              case front
              show ?thesis
              proof (cases "p + 2 < length pat \<and> pat ! (p + 2) = 0x5b \<and> class_end pat (p + 2) \<noteq> None")
                case True
                then obtain ep where ep: "class_end pat (p + 2) = Some ep" by blast
                let ?t = "\<lambda>c. match_bracket pat c (p + 2) (ep - 1)"
                let ?ok = "\<not> ?t (if s = 0 then 0 else src ! (s - 1)) \<and> ?t (if s < length src then src ! s else 0)"
                have loop: "match_loop dm src pat caps s p = (if ?ok then match_loop dm src pat caps s ep else (caps, None))"
                  using p no28 no29 no24 esc front True ep by (simp add: step(1))
                have its: "items pat p = Frontier ?t # items pat ep"
                  using p no28 no29 no24 esc front True ep by (simp add: step(2))
                have "length pat - ep < length pat - p" using class_end_gt[OF ep] p by linarith
                note ih = less.hyps[OF this less.prems]
                show ?thesis
                proof (cases ?ok)
                  case True
                  then have "ends src (items pat p) caps s = ends src (items pat ep) caps s"
                    unfolding its ends.simps by (rule if_P)
                  moreover have "match_loop dm src pat caps s p = match_loop dm src pat caps s ep"
                    unfolding loop using True by (rule if_P)
                  ultimately show ?thesis using exact_mono[OF ih] by (simp add: its)
                next
                  case False
                  then have "ends src (items pat p) caps s = {}" unfolding its ends.simps by (rule if_not_P)
                  moreover have "match_loop dm src pat caps s p = (caps, None)" unfolding loop using False by (rule if_not_P)
                  ultimately show ?thesis by (simp add: exact_none)
                qed
              next
                case False
                then have "items pat p = [Broken]" "match_loop dm src pat caps s p = (caps, None)"
                  using p no28 no29 no24 esc front by (auto simp: step)
                then show ?thesis by (simp add: exact_none)
              qed
            next
              case ref
              have loop: "match_loop dm src pat caps s p = (case match_capture src caps s (pat ! (p + 1)) of
                  None \<Rightarrow> (caps, None) | Some ns \<Rightarrow> match_loop dm src pat caps ns (p + 2))"
                using p no28 no29 no24 esc ref by (simp add: step(1))
              have its: "items pat p = BackRef (pat ! (p + 1)) # items pat (p + 2)"
                using p no28 no29 no24 esc ref by (simp add: step(2))
              show ?thesis
              proof (cases "match_capture src caps s (pat ! (p + 1))")
                case None
                then show ?thesis by (simp add: loop its exact_none)
              next
                case (Some ns)
                have "length pat - (p + 2) < length pat - p" using p by simp
                from exact_mono[OF less.hyps[OF this match_capture_bound[OF less.prems Some]]] Some
                show ?thesis by (simp add: loop its)
              qed
            qed
          next
            case no25: False
            have loop: "match_loop dm src pat caps s p = default_match dm src pat caps s p"
              using p no28 no29 no24 no25 by (auto simp: step)
            show ?thesis
            proof (cases "class_end pat p")
              case None
              then have "items pat p = [Broken]" using p no28 no29 no24 no25 by (auto simp: step)
              then show ?thesis using None by (simp add: loop default_match_def exact_def)
            next
              case (Some ep)
              obtain q p' where q: "quant_at pat ep = (q, p')" by fastforce
              have "items pat p = Single (item_test pat p ep) q # items pat p'"
                using p no28 no29 no24 no25 Some q by (auto simp: step)
              moreover have "exact (Suc (length (items pat p')) < Suc d) caps
                  (ends src (Single (item_test pat p ep) q # items pat p') caps s) (default_match dm src pat caps s p)"
                by (rule default_exact[OF Some q less.prems]) (rule dm')
              ultimately show ?thesis by (simp add: loop)
            qed
          qed
        qed
      qed
    qed
  qed
qed

lemma do_match_exact:
  "s \<le> length src \<Longrightarrow>
   exact (length (items pat p) < d) caps (ends src (items pat p) caps s) (do_match src pat d caps s p)"
proof (induction d arbitrary: caps s p)
  case 0
  then show ?case by (simp add: exact_none)
next
  case (Suc d)
  then show ?case by (simp add: match_loop_exact)
qed

lemma items_length: "length (items pat p) \<le> length pat - p"
proof (induction "length pat - p" arbitrary: p rule: less_induct)
  case less
  have shorter: "Suc (length (items pat q)) \<le> length pat - p" if "p < q" "p < length pat" for q
    using less[of q] that by linarith
  have single: "Suc (length (items pat q)) \<le> length pat - p"
    if "class_end pat p = Some ep" "quant_at pat ep = (t, q)" for ep t q
    using class_end_gt[OF that(1)] quant_at_ge[OF that(2)] by (intro shorter) auto
  have front: "Suc (length (items pat ep)) \<le> length pat - p"
    if "class_end pat (p + 2) = Some ep" "p < length pat" for ep
    using class_end_gt[OF that(1)] that(2) by (intro shorter) auto
  show ?case
  proof (cases "length pat \<le> p")
    case True
    then show ?thesis by (simp add: items.simps)
  next
    case False
    then have p: "p < length pat" "Suc 0 \<le> length pat - p" by auto
    have s: "Suc (length (items pat (p + 1))) \<le> length pat - p" "Suc (length (items pat (p + 2))) \<le> length pat - p"
      "Suc (length (items pat (p + 4))) \<le> length pat - p" using p(1) by (auto intro!: shorter)
    show ?thesis
      by (subst items.simps) (use s single front p in \<open>auto split: option.split prod.split\<close>)
  qed
qed

lemma lua_match_from_exact:
  assumes "s \<le> length src"
  shows "lua_match_from src pat anchor s \<longleftrightarrow>
    (\<exists>s' \<ge> s. s' \<le> length src \<and> (anchor \<longrightarrow> s' = s) \<and> snd (do_match src pat MAX_MATCH_DEPTH [] s' 0) \<noteq> None)"
  using assms
proof (induction "length src - s" arbitrary: s)
  case 0
  then have "s = length src" by simp
  then show ?case by (subst lua_match_from.simps) auto
next
  case (Suc n)
  then have ih: "lua_match_from src pat anchor (s + 1) \<longleftrightarrow> (\<exists>s' \<ge> s + 1. s' \<le> length src \<and> (anchor \<longrightarrow> s' = s + 1) \<and>
      snd (do_match src pat MAX_MATCH_DEPTH [] s' 0) \<noteq> None)" by simp
  have split: "s' \<ge> s \<longleftrightarrow> s' = s \<or> s' \<ge> s + 1" for s' by auto
  show ?case
    using Suc.prems Suc.hyps(2) ih by (subst lua_match_from.simps) (cases anchor; auto simp: split)
qed

text \<open>C26. The Lua pattern matcher is sound and, short of its depth limit, complete: it answers yes only
  if some position (the first, for a pattern anchored with \<open>^\<close>) has a match of the pattern's items, with
  every choice of repetitions open, and for a pattern of fewer than 200 items it answers yes whenever one
  has. Malformed patterns are items that match nothing.\<close>

theorem lua_match_exact:
  defines "anchored pat \<equiv> pat \<noteq> [] \<and> hd pat = (0x5e :: byte)"
  defines "body pat \<equiv> (if anchored pat then tl pat else pat)"
  defines "found src pat \<equiv>
    \<exists>s \<le> length src. (anchored pat \<longrightarrow> s = 0) \<and> ends src (items (body pat) 0) [] s \<noteq> {}"
  shows "(lua_match src pat \<longrightarrow> found src pat) \<and>
    (length (items (body pat) 0) < MAX_MATCH_DEPTH \<longrightarrow> (lua_match src pat \<longleftrightarrow> found src pat))"
proof -
  let ?m = "\<lambda>s. do_match src (body pat) MAX_MATCH_DEPTH [] s 0"
  have lm: "lua_match src pat \<longleftrightarrow> (\<exists>s \<le> length src. (anchored pat \<longrightarrow> s = 0) \<and> snd (?m s) \<noteq> None)"
    using lua_match_from_exact[of 0 src "body pat" "anchored pat"] unfolding lua_match_def body_def anchored_def Let_def by simp
  have sound: "ends src (items (body pat) 0) [] s \<noteq> {}" if "s \<le> length src" "snd (?m s) \<noteq> None" for s
    using do_match_exact[OF that(1), of "body pat" 0 MAX_MATCH_DEPTH "[]"] that(2)
    by (auto simp: exact_def split: prod.splits option.splits)
  have complete: "snd (?m s) \<noteq> None"
    if "length (items (body pat) 0) < MAX_MATCH_DEPTH" "s \<le> length src" "ends src (items (body pat) 0) [] s \<noteq> {}" for s
    using do_match_exact[OF that(2), of "body pat" 0 MAX_MATCH_DEPTH "[]"] that(1,3)
    by (auto simp: exact_def split: prod.splits option.splits)
  show ?thesis unfolding lm found_def using sound complete by blast
qed

text \<open>\<open>^#!\<close> on \<open>#!\<close>.\<close>

theorem lua_match_exact_witness:
  "lua_match [0x23, 0x21] [0x5e, 0x23, 0x21] \<and> ends [0x23, 0x21] (items [0x23, 0x21] 0) [] 0 \<noteq> {}"
proof -
  have m: "lua_match [0x23, 0x21] [0x5e, 0x23, 0x21]" by code_simp
  then show ?thesis using lua_match_exact[of "[0x23, 0x21]" "[0x5e, 0x23, 0x21]"] by simp
qed

section \<open>The depth limit\<close>

text \<open>Every single item of a pattern costs one level, also without a quantifier: a literal of 200
  bytes meets the limit before its end and is not found in itself.\<close>

lemma literal_depth:
  "d \<le> n - p \<Longrightarrow> p \<le> n \<Longrightarrow> c \<notin> {0x28, 0x29, 0x24, L_ESC, 0x5b, 0x2e, 0x3f, 0x2b, 0x2a, 0x2d} \<Longrightarrow>
   do_match src (replicate n c) d caps s p = (caps, None)"
proof (induction d arbitrary: s p)
  case (Suc d)
  then have p: "p < n" by simp
  have "class_end (replicate n c) p = Some (p + 1)" using p Suc.prems(3) by (simp add: class_end_def)
  then have "default_match (do_match src (replicate n c) d) src (replicate n c) caps s p = (caps, None)"
    using Suc p by (auto simp: default_match_def Let_def)
  then show ?case using p Suc.prems(3) by (auto simp: match_loop.simps[of _ src "replicate n c"])
qed simp

lemma long_literal_not_found: "\<not> lua_match (replicate 200 0x61) (replicate 200 (0x61 :: byte))"
proof -
  have "snd (do_match src (replicate 200 (0x61 :: byte)) MAX_MATCH_DEPTH [] s 0) = None" for src s
    by (simp add: literal_depth MAX_MATCH_DEPTH_def L_ESC_def)
  then show ?thesis using lua_match_from_exact[of 0 "replicate 200 0x61" "replicate 200 0x61" False]
    by (simp add: lua_match_def)
qed

text \<open>\<open>%0\<close> is no capture: \<open>d - b'1'\<close> wraps to 255 (and overflows where overflow is checked).\<close>

lemma zero_backref:
  "unat ((0x30 :: byte) - 0x31) = 255" and "length caps \<le> 255 \<Longrightarrow> match_capture src caps s 0x30 = None"
proof -
  show wrap: "unat ((0x30 :: byte) - 0x31) = 255" by code_simp
  show "length caps \<le> 255 \<Longrightarrow> match_capture src caps s 0x30 = None"
    unfolding match_capture_def wrap Let_def by simp
qed

end
