(* ===== verification/Buffer_EditProps.thy ===== *)
theory Buffer_EditProps
  imports Buffer_Edit
begin

text \<open>
  What the tracked mutations promise: every journal replays into the text, the change span covers what
  changed since it was taken, and marks stay on the text they were set on. The line index of the rope is
  a library's; the facts about points assume what it documents, that a line ends after \<open>\n\<close>, after
  \<open>\r\n\<close> and after a \<open>\r\<close> on its own.
\<close>

section \<open>The line index\<close>

definition is_break :: "byte list \<Rightarrow> nat \<Rightarrow> bool" where
  "is_break t x \<longleftrightarrow> 0 < x \<and> x \<le> length t \<and>
     (t ! (x - 1) = 10 \<or> (t ! (x - 1) = 13 \<and> \<not> (x < length t \<and> t ! x = 10)))"

definition breaks :: "byte list \<Rightarrow> nat \<Rightarrow> nat list" where
  "breaks t p = filter (is_break t) [0..<Suc p]"

definition lf_cr_index :: "rope_lines \<Rightarrow> bool" where
  "lf_cr_index rl \<longleftrightarrow> (\<forall>t. \<forall>p \<le> length t.
     byte_to_line_idx rl t p = length (breaks t p) \<and>
     line_to_byte_idx rl t (length (breaks t p)) = last (0 # breaks t p))"

definition lf_cr :: rope_lines where
  "lf_cr = \<lparr>byte_to_line_idx = (\<lambda>t p. length (breaks t p)),
            line_to_byte_idx = (\<lambda>t r. (0 # breaks t (length t)) ! r)\<rparr>"

lemma breaks_0 [simp]: "breaks t 0 = []"
  by (simp add: breaks_def is_break_def)

lemma breaks_Suc [simp]: "breaks t (Suc p) = breaks t p @ (if is_break t (Suc p) then [Suc p] else [])"
  by (simp add: breaks_def)

lemma breaks_mono: "p \<le> q \<Longrightarrow> \<exists>r. breaks t q = breaks t p @ r"
  by (induction q rule: dec_induct) auto

lemma lf_cr_index_lf_cr: "lf_cr_index lf_cr"
proof -
  have "(0 # breaks t (length t)) ! length (breaks t p) = last (0 # breaks t p)" if p: "p \<le> length t" for t p
    using breaks_mono[OF p, of t] by (cases "breaks t p" rule: rev_cases) (auto simp: nth_append)
  then show ?thesis by (simp add: lf_cr_index_def lf_cr_def)
qed

lemma is_break_append: "0 < x \<Longrightarrow> is_break (pre @ suf) (length pre + x) \<longleftrightarrow> is_break suf x"
  by (cases x) (auto simp: is_break_def nth_append)

lemma breaks_append:
  "breaks (pre @ suf) (length pre + k) = breaks (pre @ suf) (length pre) @ map ((+) (length pre)) (breaks suf k)"
proof (induction k)
  case (Suc k)
  then show ?case using is_break_append[of "Suc k" pre suf] by simp
qed simp

lemma breaks_prefix: "p < s \<Longrightarrow> s \<le> length t \<Longrightarrow> breaks (take s t @ u) p = breaks t p"
  unfolding breaks_def by (rule filter_cong) (auto simp: is_break_def nth_append)

text \<open>The point \<open>k\<close> bytes after the end of \<open>pre\<close>.\<close>

definition walk :: "nat \<times> nat \<Rightarrow> byte list \<Rightarrow> nat \<Rightarrow> nat \<times> nat" where
  "walk p suf k = (let b = breaks suf k in if b = [] then (fst p, snd p + k) else (fst p + length b, k - last b))"

lemma breaks_le: "x \<in> set (breaks t p) \<Longrightarrow> 0 < x \<and> x \<le> p"
  by (induction p) (auto split: if_splits)

lemma last_breaks_le: "last (0 # breaks t p) \<le> p"
  using breaks_le[of "last (breaks t p)" t p] by (cases "breaks t p = []") auto

lemma point_at_breaks:
  assumes "lf_cr_index rl" "p \<le> length t"
  shows "point_at rl t p = (length (breaks t p), p - last (0 # breaks t p))"
proof -
  have "byte_to_line_idx rl t p = length (breaks t p)" "line_to_byte_idx rl t (length (breaks t p)) = last (0 # breaks t p)"
    using assms by (auto simp: lf_cr_index_def)
  then show ?thesis by (simp add: point_at_def)
qed

lemma point_walk:
  assumes "lf_cr_index rl" "k \<le> length suf"
  shows "point_at rl (pre @ suf) (length pre + k) = walk (point_at rl (pre @ suf) (length pre)) suf k"
proof -
  let ?b = "breaks (pre @ suf) (length pre)"
  have "last (0 # ?b) \<le> length pre" by (rule last_breaks_le)
  then show ?thesis
    using assms(2) by (auto simp: point_at_breaks[OF assms(1)] walk_def Let_def breaks_append[of pre suf k] last_map)
qed

lemma walk_shift:
  "\<not> before (walk q suf k) q \<and>
   nat (int (fst (walk q suf k)) + (int (fst q') - int (fst q))) = fst (walk q' suf k) \<and>
   (if fst (walk q suf k) = fst q then nat (int (snd (walk q suf k)) + (int (snd q') - int (snd q)))
    else snd (walk q suf k)) = snd (walk q' suf k)"
  by (auto simp: walk_def Let_def before_def)

lemma walk_after: "0 < k \<Longrightarrow> before q (walk q suf k)"
  by (auto simp: walk_def Let_def before_def)

lemma not_before_trans: "\<not> before q p \<Longrightarrow> \<not> before r q \<Longrightarrow> \<not> before r p"
  by (auto simp: before_def)

section \<open>Marks stay on their text\<close>

lemma point_prefix:
  assumes "lf_cr_index rl" "p < s" "s \<le> length t"
  shows "point_at rl (take s t @ u) p = point_at rl t p"
  using assms(2,3) breaks_prefix[OF assms(2,3)] by (simp add: point_at_breaks[OF assms(1)])

lemma point_suffix:
  assumes "lf_cr_index rl" "q \<le> p" "p \<le> length t"
  shows "point_at rl t p = walk (point_at rl t q) (drop q t) (p - q)"
  using point_walk[OF assms(1), of "p - q" "drop q t" "take q t"] assms(2,3) by simp

lemma shift_point_follows:
  assumes rl: "lf_cr_index rl" and r: "s \<le> oe" "oe \<le> length t" and p: "p < s \<or> oe \<le> p" "p \<le> length t"
    and t': "t' = take s t @ u @ drop oe t"
  shows "shift_point (point_at rl t p) (point_at rl t s) (point_at rl t oe) (point_at rl t' (s + length u)) =
    Some (point_at rl t' (if p < s then p else p - oe + (s + length u)))"
proof (cases "p < s")
  case True
  then have "before (point_at rl t p) (point_at rl t s)"
    using point_suffix[OF rl, of p s t] r by (simp add: walk_after)
  then show ?thesis using True point_prefix[OF rl True, of t "u @ drop oe t"] r by (simp add: shift_point_def t')
next
  case False
  then have oe: "oe \<le> p" using p(1) by simp
  let ?k = "p - oe" and ?ne = "s + length u"
  have old: "point_at rl t p = walk (point_at rl t oe) (drop oe t) ?k"
    by (rule point_suffix[OF rl oe p(2)])
  have len: "length (take s t @ u) = ?ne" using r by simp
  have new: "point_at rl t' (?k + ?ne) = walk (point_at rl t' ?ne) (drop oe t) ?k"
    using point_walk[OF rl, of ?k "drop oe t" "take s t @ u"] p(2) oe len
    unfolding t' by (simp add: add.commute add.left_commute)
  have "\<not> before (point_at rl t p) (point_at rl t oe)" unfolding old using walk_shift by blast
  moreover have "\<not> before (point_at rl t oe) (point_at rl t s)"
    using point_suffix[OF rl r] walk_shift by metis
  ultimately have "\<not> before (point_at rl t p) (point_at rl t s)" by (rule not_before_trans[rotated])
  then show ?thesis
    using False walk_shift[of "point_at rl t oe" "drop oe t" ?k "point_at rl t' ?ne"]
    by (simp add: shift_point_def old new)
qed

text \<open>A removal records its start as the new end, read before the removal. Between a \<open>\r\<close> and a \<open>\n\<close> that
  is another point than after it.\<close>

definition crlf_at :: "byte list \<Rightarrow> nat \<Rightarrow> nat \<Rightarrow> bool" where
  "crlf_at t a b \<longleftrightarrow> 0 < a \<and> b < length t \<and> t ! (a - 1) = 13 \<and> t ! b = 10"

lemma point_after_removal:
  assumes rl: "lf_cr_index rl" and r: "a \<le> b" "b \<le> length t" and cr: "\<not> crlf_at t a a" "\<not> crlf_at t a b"
  shows "point_at rl (take a t @ drop b t) a = point_at rl t a"
proof -
  have "is_break (take a t @ drop b t) a = is_break t a"
    using r cr by (auto simp: is_break_def crlf_at_def nth_append)
  then have "breaks (take a t @ drop b t) a = breaks t a"
    using breaks_prefix[of "a - 1" a t "drop b t"] r by (cases a) auto
  then show ?thesis using r by (simp add: point_at_breaks[OF rl])
qed

lemma shift_point_noop: "shift_point q s s s = Some q"
  by (cases q) (auto simp: shift_point_def)

lemma record_edit_marks:
  assumes "c \<noteq> DOT" "marks_of bf c = Some q"
  shows "marks_of (record_edit e bf) c = shift_point q (start_point e) (old_end_point e) (new_end_point e)"
  using assms shift_point_noop[of q "start_point e"] by (auto simp: record_edit_def Let_def shift_marks_def)

lemma record_edit_text [simp]: "btext (record_edit e bf) = btext bf"
  by (simp add: record_edit_def Let_def)

lemma btext_replace: "a \<le> b \<Longrightarrow> btext (buf_replace rl a b u bf) = take a (btext bf) @ u @ drop b (btext bf)"
  by (auto simp: buf_replace_def buf_insert_def buf_remove_def Let_def)

text \<open>C29. A mark stays on the text it was set on. Replacing the bytes \<open>a\<close> to \<open>b\<close> by \<open>u\<close> (an insertion when
  \<open>a = b\<close>, a removal when \<open>u\<close> is empty) moves a mark on a byte before \<open>a\<close>, or at or after \<open>b\<close>, to the row and
  column where that byte is afterwards; a mark inside goes when its line's end was replaced, and otherwise
  collapses to the edit's start. A removal must not start between a \<open>\r\<close> and a \<open>\n\<close> nor join the two.\<close>

theorem marks_follow_text:
  assumes rl: "lf_cr_index rl" and r: "a \<le> b" "b \<le> length (btext bf)" "p \<le> length (btext bf)"
    and cr: "u \<noteq> [] \<or> (\<not> crlf_at (btext bf) a a \<and> \<not> crlf_at (btext bf) a b)"
    and m: "c \<noteq> DOT" "marks_of bf c = Some (point_at rl (btext bf) p)"
  shows "marks_of (buf_replace rl a b u bf) c =
    (if p < a then Some (point_at rl (btext (buf_replace rl a b u bf)) p)
     else if b \<le> p then Some (point_at rl (btext (buf_replace rl a b u bf)) (p - b + (a + length u)))
     else if fst (point_at rl (btext bf) p) < fst (point_at rl (btext bf) b) then None
     else Some (point_at rl (btext bf) a))"
proof (cases "a = b \<and> u = []")
  case True
  then show ?thesis using m(2) by (auto simp: buf_replace_def)
next
  case False
  let ?t = "btext bf" and ?t' = "take a (btext bf) @ u @ drop b (btext bf)"
  have ne: "point_at rl ?t' (a + length u) = point_at rl ?t a" if "u = []"
    using point_after_removal[OF rl r(1,2)] cr that by simp
  have "marks_of (buf_replace rl a b u bf) c =
      shift_point (point_at rl ?t p) (point_at rl ?t a) (point_at rl ?t b) (point_at rl ?t' (a + length u))"
    using False r m ne by (cases "a = b"; cases "u = []")
      (auto simp: buf_replace_def buf_insert_def buf_remove_def Let_def record_edit_marks)
  moreover have "shift_point (point_at rl ?t p) (point_at rl ?t a) (point_at rl ?t b) q =
      (if fst (point_at rl ?t p) < fst (point_at rl ?t b) then None else Some (point_at rl ?t a))"
    if "\<not> p < a" "p < b" for q
  proof -
    have "\<not> before (point_at rl ?t p) (point_at rl ?t a)"
      using point_suffix[OF rl, of a p ?t] that r walk_shift by (metis not_less)
    moreover have "before (point_at rl ?t p) (point_at rl ?t b)"
      using point_suffix[OF rl, of p b ?t] that r by (simp add: walk_after)
    ultimately show ?thesis by (simp add: shift_point_def)
  qed
  ultimately show ?thesis
    using shift_point_follows[OF rl r(1,2) _ r(3) refl, of u] r(1) by (auto simp: btext_replace)
qed

text \<open>A line inserted above a mark on the second line of \<open>ab cd\<close>, and a removal that splits a \<open>\r\n\<close>.\<close>

definition blank_buf :: "byte list \<Rightarrow> buf" where
  "blank_buf t = \<lparr>btext = t, marks_of = (\<lambda>_. None), changelist = [], changelistidx = 0, change_span = None,
     changedtick = 0, modified = False, journals = (\<lambda>_. \<lparr>batch_edits = [], batch_resync = False\<rparr>),
     ext_marks = (0, \<lparr>by_ns = [], generation = 0, virt_lines_marks = 0, gutter_widths = [], next_serial = 0, index = None\<rparr>)\<rparr>"

definition marked :: "byte list \<Rightarrow> nat \<Rightarrow> buf" where
  "marked t p = (blank_buf t)\<lparr>marks_of := (\<lambda>_. None)(97 \<mapsto> point_at lf_cr t p)\<rparr>"

theorem marks_follow_text_witness:
  "marks_of (buf_replace lf_cr 0 0 [120, 10] (marked [97, 98, 10, 99, 10] 3)) 97 = Some (2, 0)"
proof -
  let ?t = "[97, 98, 10, 99, 10] :: byte list"
  have "marks_of (buf_replace lf_cr 0 0 [120, 10] (marked ?t 3)) 97 = Some (point_at lf_cr ([120, 10] @ ?t) 5)"
    using marks_follow_text[of lf_cr 0 0 "marked ?t 3" 3 "[120, 10]" 97, OF lf_cr_index_lf_cr]
    by (simp add: marked_def blank_buf_def DOT_def btext_replace)
  moreover have "point_at lf_cr ([120, 10] @ ?t) 5 = (2, 0)" by code_simp
  ultimately show ?thesis by simp
qed

lemma removal_splits_crlf:
  "marks_of (buf_remove lf_cr 2 3 (marked [120, 13, 10, 121] 3)) 97 = Some (0, 2)"
  "point_at lf_cr (btext (buf_remove lf_cr 2 3 (marked [120, 13, 10, 121] 3))) 2 = (1, 0)"
  "new_end_point (last (batch_edits (journals (buf_remove lf_cr 2 3 (marked [120, 13, 10, 121] 3)) JSyntax))) = (0, 2)"
  by code_simp+

section \<open>Journals and change span\<close>

definition nl :: "byte list \<Rightarrow> byte list" where
  "nl t = (if t \<noteq> [] \<and> last t = 10 then t else t @ [10])"

definition replay :: "byte list \<Rightarrow> buffer_edit list \<Rightarrow> byte list" where
  "replay = foldl (\<lambda>t e. take (start_byte e) t @ edit_text e @ drop (old_end_byte e) t)"

text \<open>\<open>t\<close> is \<open>t0\<close> outside the span, up to the newline at the end that \<open>normalize\<close> keeps out of it.\<close>

fun outside_kept :: "byte list \<Rightarrow> byte list \<Rightarrow> (nat \<times> nat) option \<Rightarrow> bool" where
  "outside_kept t0 t None \<longleftrightarrow> t = t0 \<or> t = nl t0"
| "outside_kept t0 t (Some (lo, hi)) \<longleftrightarrow> lo \<le> hi \<and> hi \<le> length t \<and>
     (\<exists>old suf. nl t0 = take lo t @ old @ suf \<and> (drop hi t = suf \<or> drop hi t @ [10] = suf \<or> drop hi t = suf @ [10]))"

text \<open>A buffer with its consumers: what each has built from its journal; the text when the change span
  was last taken, or at the start; and, where the text was replaced wholesale since then, the text the
  last such replacement put in. An operation outside the text, on which the rope panics, is
  skipped.\<close>

record tracked =
  the_buf :: buf
  shadow :: "journal \<Rightarrow> byte list"
  taken_text :: "byte list"
  reset_text :: "byte list option"

datatype buf_op =
    BReplace nat nat "byte list"
  | BInsert nat "byte list"
  | BRemove nat nat
  | BNormalize
  | BReset "byte list"
  | BTake journal
  | BTakeSpan

definition consume :: "byte list \<Rightarrow> edit_batch \<Rightarrow> byte list \<Rightarrow> byte list" where
  "consume t b sh = (if batch_resync b then t else replay sh (batch_edits b))"

fun buf_step :: "rope_lines \<Rightarrow> tracked \<Rightarrow> buf_op \<Rightarrow> tracked" where
  "buf_step rl s (BReplace a b u) =
     (if a \<le> b \<and> b \<le> length (btext (the_buf s)) then s\<lparr>the_buf := buf_replace rl a b u (the_buf s)\<rparr> else s)"
| "buf_step rl s (BInsert a u) =
     (if a \<le> length (btext (the_buf s)) then s\<lparr>the_buf := buf_insert rl a u (the_buf s)\<rparr> else s)"
| "buf_step rl s (BRemove a b) =
     (if b \<le> length (btext (the_buf s)) then s\<lparr>the_buf := buf_remove rl a b (the_buf s)\<rparr> else s)"
| "buf_step rl s BNormalize = s\<lparr>the_buf := normalize rl (the_buf s)\<rparr>"
| "buf_step rl s (BReset t) = s\<lparr>the_buf := mark_resync ((the_buf s)\<lparr>btext := t\<rparr>), reset_text := Some t\<rparr>"
| "buf_step rl s (BTake j) =
     (case take_journal j (the_buf s) of (b, bf) \<Rightarrow>
        s\<lparr>the_buf := bf, shadow := (shadow s)(j := consume (btext bf) b (shadow s j))\<rparr>)"
| "buf_step rl s BTakeSpan =
     s\<lparr>the_buf := snd (take_change_span (the_buf s)), taken_text := btext (the_buf s), reset_text := None\<rparr>"

text \<open>The text the change span speaks about.\<close>

definition span_base :: "tracked \<Rightarrow> byte list" where
  "span_base s = (case reset_text s of None \<Rightarrow> taken_text s | Some t \<Rightarrow> t)"

lemma span_base_buf [simp]:
  "span_base (s\<lparr>the_buf := bf\<rparr>) = span_base s" "span_base (s\<lparr>shadow := h\<rparr>) = span_base s"
  "span_base (s\<lparr>reset_text := Some t\<rparr>) = t" "span_base (s\<lparr>taken_text := t, reset_text := None\<rparr>) = t"
  by (simp_all add: span_base_def split: option.split)

definition buf_inv :: "tracked \<Rightarrow> bool" where
  "buf_inv s \<longleftrightarrow>
     (\<forall>j. j \<noteq> JJump \<longrightarrow> consume (btext (the_buf s)) (journals (the_buf s) j) (shadow s j) = btext (the_buf s)) \<and>
     outside_kept (span_base s) (btext (the_buf s)) (change_span (the_buf s)) \<and>
     length (changelist (the_buf s)) \<le> CHANGELIST_SIZE \<and> changelistidx (the_buf s) \<le> length (changelist (the_buf s))"

lemma consume_push:
  "consume t b sh = t \<Longrightarrow>
   consume (take (start_byte e) t @ edit_text e @ drop (old_end_byte e) t) (push_edit e b) sh =
     take (start_byte e) t @ edit_text e @ drop (old_end_byte e) t"
  by (auto simp: consume_def push_edit_def replay_def)

lemma add_to_changelist_length: "length l \<le> CHANGELIST_SIZE \<Longrightarrow> length (add_to_changelist l p) \<le> CHANGELIST_SIZE"
  by (auto simp: add_to_changelist_def CHANGELIST_SIZE_def)

lemma shift_changelist_length: "length (shift_changelist l s oe ne) \<le> length l"
  by (auto simp: shift_changelist_def List.map_filter_def)

lemma nl_last [simp]: "nl t \<noteq> []" "last (nl t) = 10"
  by (auto simp: nl_def)

lemma suffix_up_to_newline:
  assumes "v = suf \<or> v @ [10] = suf \<or> v = suf @ [x]" "k \<le> length v"
  shows "\<exists>old suf'. suf = old @ suf' \<and> (drop k v = suf' \<or> drop k v @ [10] = suf' \<or> drop k v = suf' @ [x])"
proof (cases "k \<le> length suf")
  case True
  have "suf = take k suf @ drop k suf" by simp
  moreover have "drop k v = drop k suf \<or> drop k v @ [10] = drop k suf \<or> drop k v = drop k suf @ [x]"
    using assms True by auto
  ultimately show ?thesis by blast
next
  case False
  then have "drop k v = []" using assms by auto
  then show ?thesis by (intro exI[of _ suf] exI[of _ "[]"]) simp
qed

lemma outside_keptI:
  "lo \<le> hi \<Longrightarrow> hi \<le> length t \<Longrightarrow> nl t0 = take lo t @ old @ suf \<Longrightarrow>
   drop hi t = suf \<or> drop hi t @ [10] = suf \<or> drop hi t = suf @ [10] \<Longrightarrow> outside_kept t0 t (Some (lo, hi))"
  by auto

lemma outside_kept_edit:
  assumes k: "outside_kept t0 t sp" and r: "a \<le> b" "b \<le> length t"
  shows "outside_kept t0 (take a t @ u @ drop b t)
    (Some (case sp of None \<Rightarrow> (a, a + length u)
       | Some (lo, hi) \<Rightarrow> (min lo a, max hi b - b + (a + length u))))"
proof -
  obtain lo hi where sp: "lo \<le> hi" "hi \<le> length t" "outside_kept t0 t (Some (lo, hi))"
    "(case sp of None \<Rightarrow> (a, a + length u) | Some (lo, hi) \<Rightarrow> (min lo a, max hi b - b + (a + length u))) =
       (min lo a, max hi b - b + (a + length u))"
  proof (cases sp)
    case None
    have "nl t0 = t \<or> nl t0 = t @ [10]" using k None by (auto simp: nl_def)
    then have "nl t0 = take a t @ [] @ drop a t \<or> nl t0 = take a t @ [] @ (drop a t @ [10])"
      by (simp flip: append_assoc)
    then have "outside_kept t0 t (Some (a, a))" using outside_keptI[of a a t t0 "[]" "drop a t"] outside_keptI[of a a t t0 "[]" "drop a t @ [10]"] le_trans[OF r]
      by (metis order_refl)
    then show ?thesis using None r by (intro that[of a a]) auto
  next
    case (Some p)
    then obtain lo hi where "sp = Some (lo, hi)" by (cases p) simp
    with k show ?thesis by (intro that[of lo hi]) (simp_all only: outside_kept.simps option.case prod.case)
  qed
  obtain old suf where n: "nl t0 = take lo t @ old @ suf" and
    suf: "drop hi t = suf \<or> drop hi t @ [10] = suf \<or> drop hi t = suf @ [10]" using sp(3) by auto
  have len: "max hi b - hi \<le> length (drop hi t)" using r sp(2) by simp
  obtain old' suf' where n': "suf = old' @ suf'" and
    suf': "drop (max hi b - hi) (drop hi t) = suf' \<or> drop (max hi b - hi) (drop hi t) @ [10] = suf' \<or>
      drop (max hi b - hi) (drop hi t) = suf' @ [10]"
    using suffix_up_to_newline[OF suf len] by blast
  let ?t = "take a t @ u @ drop b t" and ?lo = "min lo a" and ?hi = "max hi b - b + (a + length u)"
  have "drop ?hi ?t = drop (max hi b - hi) (drop hi t)" using r by (auto simp: max_def)
  moreover have "take ?lo ?t = take ?lo t" using r by (simp add: min_def)
  moreover have "take lo t = take ?lo t @ drop ?lo (take lo t)"
    by (metis append_take_drop_id min.commute min.cobounded1 min.absorb_iff2 take_take)
  ultimately show ?thesis
    using n n' suf' r sp(1,2) unfolding sp(4)
    by (intro outside_kept.simps(2)[THEN iffD2] conjI exI[of _ "drop ?lo (take lo t) @ old @ old'"] exI[of _ suf']) auto
qed

lemma record_inv:
  assumes inv: "buf_inv s" and r: "a \<le> b" "b \<le> length (btext (the_buf s))"
    and e: "start_byte e = a" "old_end_byte e = b" "new_end_byte e = a + length u" "edit_text e = u"
  shows "buf_inv (s\<lparr>the_buf := record_edit e ((the_buf s)\<lparr>btext := take a (btext (the_buf s)) @ u @ drop b (btext (the_buf s))\<rparr>)\<rparr>)"
proof -
  let ?t = "btext (the_buf s)"
  have "consume (take a ?t @ u @ drop b ?t) (push_edit e (journals (the_buf s) j)) (shadow s j) = take a ?t @ u @ drop b ?t"
    if "j \<noteq> JJump" for j using inv consume_push[of ?t "journals (the_buf s) j" "shadow s j" e] that e by (simp add: buf_inv_def)
  moreover have "outside_kept (span_base s) (take a ?t @ u @ drop b ?t)
      (change_span (record_edit e ((the_buf s)\<lparr>btext := take a ?t @ u @ drop b ?t\<rparr>)))"
  proof -
    have "max (shift_span e hi) (a + length u) = max hi b - b + (a + length u)" "min (shift_span e lo) a = min lo a" for lo hi
      using r e by (auto simp: shift_span_def)
    then have "change_span (record_edit e ((the_buf s)\<lparr>btext := take a ?t @ u @ drop b ?t\<rparr>)) =
        Some (case change_span (the_buf s) of None \<Rightarrow> (a, a + length u)
          | Some (lo, hi) \<Rightarrow> (min lo a, max hi b - b + (a + length u)))"
      using e by (auto simp: record_edit_def Let_def split: option.splits)
    then show ?thesis using outside_kept_edit[OF _ r] inv by (simp add: buf_inv_def)
  qed
  moreover have "length (add_to_changelist (shift_changelist (changelist (the_buf s)) p q r) p) \<le> CHANGELIST_SIZE" for p q r
    using inv by (intro add_to_changelist_length le_trans[OF shift_changelist_length]) (simp add: buf_inv_def)
  ultimately show ?thesis by (simp add: buf_inv_def record_edit_def Let_def)
qed

lemma insert_inv: "buf_inv s \<Longrightarrow> p \<le> length (btext (the_buf s)) \<Longrightarrow> buf_inv (s\<lparr>the_buf := buf_insert rl p u (the_buf s)\<rparr>)"
  using record_inv[of s p p _ u] by (auto simp: buf_insert_def Let_def)

lemma remove_inv: "buf_inv s \<Longrightarrow> b \<le> length (btext (the_buf s)) \<Longrightarrow> buf_inv (s\<lparr>the_buf := buf_remove rl a b (the_buf s)\<rparr>)"
  using record_inv[of s a b _ "[]"] by (auto simp: buf_remove_def Let_def)

lemma replace_inv:
  "buf_inv s \<Longrightarrow> a \<le> b \<Longrightarrow> b \<le> length (btext (the_buf s)) \<Longrightarrow> buf_inv (s\<lparr>the_buf := buf_replace rl a b u (the_buf s)\<rparr>)"
  using record_inv[of s a b _ u] insert_inv[of s a rl u] remove_inv[of s b rl a]
  by (auto simp: buf_replace_def Let_def)

lemma btext_insert: "btext (buf_insert rl p u bf) = take p (btext bf) @ u @ drop p (btext bf)"
  by (simp add: buf_insert_def Let_def)

lemma btext_remove: "btext (buf_remove rl a b bf) = (if b \<le> a then btext bf else take a (btext bf) @ drop b (btext bf))"
  by (simp add: buf_remove_def Let_def)

lemma btext_normalize: "btext (normalize rl bf) = nl (btext bf)"
  by (simp add: normalize_def nl_def Let_def btext_insert)

lemma outside_kept_normalize:
  assumes "outside_kept t0 t sp" "\<not> (t \<noteq> [] \<and> last t = 10)"
  shows "outside_kept t0 (t @ [10]) (map_option (\<lambda>(lo, hi). (min lo (length t), min hi (length t))) sp)"
proof (cases sp)
  case None
  then show ?thesis using assms by (auto simp: nl_def split: if_splits)
next
  case (Some p)
  then obtain lo hi old suf where sp: "sp = Some (lo, hi)" "lo \<le> hi" "hi \<le> length t" "nl t0 = take lo t @ old @ suf"
    "drop hi t = suf \<or> drop hi t @ [10] = suf \<or> drop hi t = suf @ [10]" using assms(1) by (cases p) auto
  have "drop hi t \<noteq> suf @ [10]"
  proof
    assume s: "drop hi t = suf @ [10]"
    then have "t = take hi t @ suf @ [10]" by (metis append_take_drop_id)
    then show False using assms(2) by (metis append_is_Nil_conv last_append last_snoc not_Cons_self2 snoc_eq_iff_butlast)
  qed
  then have "outside_kept t0 (t @ [10]) (Some (lo, hi))"
    using sp by (intro outside_keptI[of lo hi _ t0 old suf]) auto
  then show ?thesis using sp by simp
qed

lemma normalize_inv: assumes "buf_inv s" shows "buf_inv (s\<lparr>the_buf := normalize rl (the_buf s)\<rparr>)"
proof (cases "btext (the_buf s) \<noteq> [] \<and> last (btext (the_buf s)) = 10")
  case True
  then show ?thesis using assms by (simp add: normalize_def)
next
  case False
  then show ?thesis
    using assms insert_inv[OF assms order_refl, of rl "[10]"] outside_kept_normalize[OF _ False]
    unfolding normalize_def Let_def buf_inv_def by (simp add: btext_insert)
qed

interpretation edits: guarded_system "buf_step rl" buf_inv for rl
proof
  fix s op assume inv: "buf_inv s"
  show "buf_inv (buf_step rl s op)"
  proof (cases op)
    case (BReplace a b u)
    then show ?thesis using inv by (simp add: replace_inv)
  next
    case (BInsert a u)
    then show ?thesis using inv by (simp add: insert_inv)
  next
    case (BRemove a b)
    then show ?thesis using inv by (simp add: remove_inv)
  next
    case BNormalize
    then show ?thesis using inv by (simp add: normalize_inv)
  next
    case (BReset t)
    then show ?thesis by (simp add: buf_inv_def mark_resync_def consume_def)
  next
    case (BTake j)
    then show ?thesis using inv by (auto simp: buf_inv_def take_journal_def consume_def replay_def)
  next
    case BTakeSpan
    then show ?thesis using inv by (simp add: buf_inv_def take_change_span_def consume_def)
  qed
qed

definition track :: "buf \<Rightarrow> tracked" where
  "track bf = \<lparr>the_buf = bf, shadow = (\<lambda>_. btext bf), taken_text = btext bf, reset_text = None\<rparr>"

definition fresh :: "buf \<Rightarrow> bool" where
  "fresh bf \<longleftrightarrow> (\<forall>j. journals bf j = \<lparr>batch_edits = [], batch_resync = False\<rparr>) \<and> change_span bf = None \<and>
     changelist bf = [] \<and> changelistidx bf = 0"

lemma fresh_inv: "fresh bf \<Longrightarrow> buf_inv (track bf)"
  by (simp add: fresh_def buf_inv_def track_def consume_def replay_def span_base_def)

text \<open>The text as the operations alone make it.\<close>

fun text_step :: "byte list \<Rightarrow> buf_op \<Rightarrow> byte list" where
  "text_step t (BReplace a b u) = (if a \<le> b \<and> b \<le> length t then take a t @ u @ drop b t else t)"
| "text_step t (BInsert a u) = (if a \<le> length t then take a t @ u @ drop a t else t)"
| "text_step t (BRemove a b) = (if a < b \<and> b \<le> length t then take a t @ drop b t else t)"
| "text_step t BNormalize = nl t"
| "text_step t (BReset t') = t'"
| "text_step t (BTake j) = t"
| "text_step t BTakeSpan = t"

lemma buf_step_text: "btext (the_buf (buf_step rl s op)) = text_step (btext (the_buf s)) op"
  by (cases op) (auto simp: btext_replace btext_insert btext_remove btext_normalize mark_resync_def take_journal_def
      take_change_span_def)

interpretation texts: simulation "buf_step rl" buf_inv "\<lambda>s. btext (the_buf s)" text_step for rl
  by unfold_locales (rule buf_step_text)



text \<open>C28. The change span covers what changed. While the text was not replaced wholesale since the
  span was last taken (or since the start), the text outside the span is the text as it was then: the
  text before it a prefix, the text after it a suffix, up to the final newline \<open>normalize\<close> maintains;
  an absent span means nothing changed but that newline. A wholesale replacement (an undo step or a
  reload) drops the span with everything else it knew of the old text: from then on, until the next
  take, the same holds against the text the last replacement put in, and the span says nothing about
  what was replaced (\<open>span_gone_after_reload\<close>). The span always lies inside the text. The change list
  holds at most 100 places and its index is one of them or just past them.\<close>

theorem change_span_covers:
  fixes rl :: rope_lines and ops :: "buf_op list"
  assumes "fresh bf"
  defines "s \<equiv> foldl (buf_step rl) (track bf) ops"
  shows "(case reset_text s of
       None \<Rightarrow> outside_kept (taken_text s) (btext (the_buf s)) (change_span (the_buf s))
     | Some t0 \<Rightarrow> outside_kept t0 (btext (the_buf s)) (change_span (the_buf s))) \<and>
    length (changelist (the_buf s)) \<le> CHANGELIST_SIZE \<and> changelistidx (the_buf s) \<le> length (changelist (the_buf s))"
  using edits.run_inv[OF fresh_inv[OF assms(1)], of rl ops]
  unfolding s_def buf_inv_def span_base_def by (simp split: option.splits)

theorem change_span_covers_witness:
  "let s = foldl (buf_step lf_cr) (track (blank_buf [97, 10])) [BInsert 0 [120], BNormalize] in
   change_span (the_buf s) = Some (0, 1) \<and> outside_kept [97, 10] [120, 97, 10] (Some (0, 1))"
proof -
  let ?s = "foldl (buf_step lf_cr) (track (blank_buf [97, 10])) [BInsert 0 [120], BNormalize]"
  have "fresh (blank_buf [97, 10])" by (simp add: fresh_def blank_buf_def)
  note span = change_span_covers[OF this, of lf_cr "[BInsert 0 [120], BNormalize]"]
  have e: "reset_text ?s = None" "taken_text ?s = [97, 10]" "btext (the_buf ?s) = [120, 97, 10]"
    "change_span (the_buf ?s) = Some (0, 1)"
    by code_simp+
  show ?thesis using span unfolding e Let_def by simp
qed

text \<open>An edit and a reload in one command: the next take finds no span although the whole text is
  another.\<close>

lemma span_gone_after_reload:
  "let s = foldl (buf_step lf_cr) (track (blank_buf [97, 10])) [BInsert 0 [120], BReset [98, 99, 10]] in
   taken_text s = [97, 10] \<and> btext (the_buf s) = [98, 99, 10] \<and> fst (take_change_span (the_buf s)) = None"
  by code_simp

end
