(* ===== verification/File_Text.thy ===== *)
theory File_Text
  imports Std_Text
begin

text \<open>
  A buffer and its file (\<open>crates/bemtvi-core/src/buffer.rs\<close>, \<open>encoding.rs\<close>): reading a file's bytes with
  the snapshot they belong to, decoding, detecting and normalizing line endings, the document the rope
  stands for, the bytes a save writes, and the comparison with the disk afterwards. The codecs of
  \<open>encoding_rs\<close> and the filesystem are arguments. Of the buffer only the fields these operations touch
  are kept; the rope is its text.
\<close>

section \<open>Line endings\<close>

datatype file_format = FfUnix | FfDos | FfMac

fun detect_fileformat :: "ustring \<Rightarrow> file_format" where
  "detect_fileformat [] = FfUnix"
| "detect_fileformat (c # s) =
     (if c = 13 then (if s \<noteq> [] \<and> hd s = 10 then FfDos else FfMac)
      else if c = 10 then FfUnix else detect_fileformat s)"

definition normalize_eol :: "ustring \<Rightarrow> file_format \<Rightarrow> ustring" where
  "normalize_eol s ff =
     (case ff of FfUnix \<Rightarrow> s | FfDos \<Rightarrow> replace_pair 13 10 [10] s | FfMac \<Rightarrow> replace_char 13 [10] s)"

definition ends_with_line_break :: "ustring \<Rightarrow> bool" where
  "ends_with_line_break s \<longleftrightarrow> s \<noteq> [] \<and> (last s = 10 \<or> last s = 13)"

definition ensure_trailing_newline :: "ustring \<Rightarrow> ustring" where
  "ensure_trailing_newline t = (if t = [] then [10] else if last t \<noteq> 10 then t @ [10] else t)"

section \<open>Encodings\<close>

text \<open>What the source uses of \<open>encoding_rs\<close>: strict decoding without BOM handling, encoding with the
  flag for unmappable characters, the BOM sniffer, the label table and the canonical names.\<close>

record 'e codec =
  cdc_decode :: "'e \<Rightarrow> byte list \<Rightarrow> ustring option"
  cdc_encode :: "'e \<Rightarrow> ustring \<Rightarrow> byte list \<times> bool"
  cdc_for_bom :: "byte list \<Rightarrow> ('e \<times> nat) option"
  cdc_for_label :: "ustring \<Rightarrow> 'e option"
  cdc_name :: "'e \<Rightarrow> ustring"
  cdc_replacement :: 'e
  cdc_utf8 :: 'e
  cdc_windows_1252 :: 'e

datatype save_error =
    Unrepresentable uchar nat
  | UnrepresentableSomewhere
  | NoFileName
  | IoError

definition vim_cjk_alias :: "ustring \<Rightarrow> ustring option" where
  "vim_cjk_alias l =
     (if l = us ''cp932'' then Some (us ''shift_jis'')
      else if l = us ''cp936'' \<or> l = us ''euc-cn'' then Some (us ''gbk'')
      else if l = us ''cp949'' then Some (us ''euc-kr'')
      else if l = us ''cp950'' then Some (us ''big5'')
      else None)"

definition from_label :: "'e codec \<Rightarrow> ustring \<Rightarrow> 'e option" where
  "from_label cdc label =
     (let normalized = map to_ascii_lowercase (trim label);
          resolved = (case vim_cjk_alias normalized of Some l \<Rightarrow> l | None \<Rightarrow> label)
      in case cdc_for_label cdc resolved of
           None \<Rightarrow> None
         | Some e \<Rightarrow> if e = cdc_replacement cdc then None else Some e)"

definition is_fileencodings_entry :: "'e codec \<Rightarrow> ustring \<Rightarrow> bool" where
  "is_fileencodings_entry cdc entry \<longleftrightarrow> entry = us ''ucs-bom'' \<or> from_label cdc entry \<noteq> None"

definition encoding_name :: "'e codec \<Rightarrow> 'e \<Rightarrow> ustring" where
  "encoding_name cdc e =
     (let n = cdc_name cdc e in
      if n = us ''UTF-8'' then us ''utf-8''
      else if n = us ''windows-1252'' then us ''latin1''
      else if n = us ''UTF-16LE'' then us ''utf-16le''
      else if n = us ''UTF-16BE'' then us ''utf-16be''
      else map to_ascii_lowercase n)"

fun decode_entries :: "'e codec \<Rightarrow> byte list \<Rightarrow> ustring list \<Rightarrow> (ustring \<times> 'e \<times> bool) option" where
  "decode_entries cdc bytes [] = None"
| "decode_entries cdc bytes (entry # rest) =
     (let found =
        (if entry = us ''ucs-bom'' then
           (case cdc_for_bom cdc bytes of
              None \<Rightarrow> None
            | Some (e, n) \<Rightarrow> map_option (\<lambda>t. (t, e, True)) (cdc_decode cdc e (drop n bytes)))
         else case from_label cdc entry of
              None \<Rightarrow> None
            | Some e \<Rightarrow> map_option (\<lambda>t. (t, e, False)) (cdc_decode cdc e bytes))
      in case found of None \<Rightarrow> decode_entries cdc bytes rest | Some r \<Rightarrow> Some r)"

text \<open>The fallback's \<open>expect\<close> panics where windows-1252 rejects the bytes: \<open>None\<close>.\<close>

definition decode_to_rope :: "'e codec \<Rightarrow> byte list \<Rightarrow> ustring \<Rightarrow> (ustring \<times> 'e \<times> bool) option" where
  "decode_to_rope cdc bytes fileencodings =
     (case decode_entries cdc bytes (filter (\<lambda>e. e \<noteq> []) (map trim (split_char (uc CHR '','') fileencodings))) of
        Some r \<Rightarrow> Some r
      | None \<Rightarrow> map_option (\<lambda>t. (t, cdc_windows_1252 cdc, False)) (cdc_decode cdc (cdc_windows_1252 cdc) bytes))"

definition bom_bytes :: "'e codec \<Rightarrow> 'e \<Rightarrow> byte list" where
  "bom_bytes cdc e =
     (let n = cdc_name cdc e in
      if n = us ''UTF-8'' then [0xEF, 0xBB, 0xBF]
      else if n = us ''UTF-16LE'' then [0xFF, 0xFE]
      else if n = us ''UTF-16BE'' then [0xFE, 0xFF]
      else [])"

definition utf16_endianness :: "'e codec \<Rightarrow> 'e \<Rightarrow> bool option" where
  "utf16_endianness cdc e =
     (let n = cdc_name cdc e in
      if n = us ''UTF-16LE'' then Some True else if n = us ''UTF-16BE'' then Some False else None)"

definition utf16_units :: "uchar \<Rightarrow> 16 word list" where
  "utf16_units c =
     (if c < 0x10000 then [of_nat c]
      else [of_nat (0xD800 + (c - 0x10000) div 0x400), of_nat (0xDC00 + (c - 0x10000) mod 0x400)])"

definition unit_bytes :: "bool \<Rightarrow> 16 word \<Rightarrow> byte list" where
  "unit_bytes little u =
     (let lo = of_nat (unat u mod 256); hi = of_nat (unat u div 256) in if little then [lo, hi] else [hi, lo])"

definition encode_utf16 :: "bool \<Rightarrow> ustring \<Rightarrow> byte list" where
  "encode_utf16 little t = concat (map (unit_bytes little) (concat (map utf16_units t)))"

fun first_unmappable :: "'e codec \<Rightarrow> 'e \<Rightarrow> nat \<Rightarrow> ustring \<Rightarrow> (uchar \<times> nat) option" where
  "first_unmappable cdc e offset [] = None"
| "first_unmappable cdc e offset (c # s) =
     (if snd (cdc_encode cdc e [c]) then Some (c, offset) else first_unmappable cdc e (offset + len_utf8 c) s)"

definition encode_from_str :: "'e codec \<Rightarrow> ustring \<Rightarrow> 'e \<Rightarrow> bool \<Rightarrow> save_error + byte list" where
  "encode_from_str cdc t e bomb =
     (let out = (if bomb then bom_bytes cdc e else []) in
      case utf16_endianness cdc e of
        Some little \<Rightarrow> Inr (out @ encode_utf16 little t)
      | None \<Rightarrow>
          (case cdc_encode cdc e t of
             (bytes, had_unmappable) \<Rightarrow>
               if had_unmappable then
                 (case first_unmappable cdc e 0 t of
                    Some (c, offset) \<Rightarrow> Inl (Unrepresentable c offset)
                  | None \<Rightarrow> Inl UnrepresentableSomewhere)
               else Inr (out @ bytes)))"

section \<open>Reading with a snapshot\<close>

record file_stat =
  mtime :: "nat option"
  file_size :: nat

text \<open>A file of the host as it answers over time: the n-th call is made at instant n. The file may change
  between calls; a call that fails answers \<open>Inl\<close>.\<close>

record host_file =
  fs_stat :: "nat \<Rightarrow> file_stat option"
  fs_exists :: "nat \<Rightarrow> bool"
  fs_read :: "nat \<Rightarrow> save_error + byte list"

definition TORN_READ_RETRIES :: nat where "TORN_READ_RETRIES = 3"

text \<open>The attempts left, the instant of the next call and the snapshot taken before. The result's last
  component is the instant after the last call.\<close>

fun read_attempts ::
  "host_file \<Rightarrow> nat \<Rightarrow> nat \<Rightarrow> file_stat option \<Rightarrow> save_error + (byte list option \<times> file_stat option \<times> nat)" where
  "read_attempts fs left now before =
     (let present = fs_exists fs now; at = (if present then now + 2 else now + 1) in
      case (if present then map_sum id Some (fs_read fs (now + 1)) else Inr None) of
        Inl e \<Rightarrow> Inl e
      | Inr bytes \<Rightarrow>
          let after = fs_stat fs at in
          if after = before then Inr (bytes, before, at + 1)
          else (case left of
              0 \<Rightarrow> Inr (bytes, before, at + 1)
            | Suc more_left \<Rightarrow> read_attempts fs more_left (at + 1) after))"

declare read_attempts.simps [simp del]

definition read_consistent :: "host_file \<Rightarrow> nat \<Rightarrow> save_error + (byte list option \<times> file_stat option \<times> nat)" where
  "read_consistent fs now = read_attempts fs (TORN_READ_RETRIES - 1) (now + 1) (fs_stat fs now)"

section \<open>The buffer of a file\<close>

record 'e file_buf =
  rope :: ustring
  fpath :: "ustring option"
  fmodified :: bool
  save_tick :: nat
  fileencoding :: 'e
  bomb :: bool
  fileformat :: file_format
  endofline :: bool
  fixendofline :: bool
  disk :: "file_stat option"
  disk_drift :: bool

definition empty_buf :: "'e codec \<Rightarrow> 'e file_buf" where
  "empty_buf cdc = \<lparr>rope = [10], fpath = None, fmodified = False, save_tick = 0, fileencoding = cdc_utf8 cdc, bomb = False,
     fileformat = FfUnix, endofline = False, fixendofline = True, disk = None, disk_drift = False\<rparr>"

definition named_buf :: "'e codec \<Rightarrow> ustring \<Rightarrow> 'e file_buf" where
  "named_buf cdc p = (empty_buf cdc)\<lparr>fpath := Some p\<rparr>"

definition load_decoded :: "ustring \<Rightarrow> 'e file_buf \<Rightarrow> 'e file_buf" where
  "load_decoded decoded b =
     b\<lparr>fileformat := detect_fileformat decoded,
       endofline := ends_with_line_break decoded,
       rope := ensure_trailing_newline (normalize_eol decoded (detect_fileformat decoded))\<rparr>"

text \<open>The outer \<open>None\<close> is the decoder's panic.\<close>

definition from_file ::
  "'e codec \<Rightarrow> host_file \<Rightarrow> ustring \<Rightarrow> ustring \<Rightarrow> nat \<Rightarrow> (save_error + 'e file_buf) option" where
  "from_file cdc fs path fileencodings now =
     (case read_consistent fs now of
        Inl e \<Rightarrow> Some (Inl e)
      | Inr (None, d, _) \<Rightarrow> Some (Inr ((named_buf cdc path)\<lparr>rope := ensure_trailing_newline [], disk := d\<rparr>))
      | Inr (Some bytes, d, _) \<Rightarrow>
          (case decode_to_rope cdc bytes fileencodings of
             None \<Rightarrow> None
           | Some (decoded, e, b) \<Rightarrow>
               Some (Inr ((load_decoded decoded (named_buf cdc path))\<lparr>fileencoding := e, bomb := b, disk := d\<rparr>))))"

section \<open>The document and its bytes\<close>

definition document_text :: "'e file_buf \<Rightarrow> ustring" where
  "document_text b = (if endofline b then rope b else butlast (rope b))"

definition document_len_bytes :: "'e file_buf \<Rightarrow> nat" where
  "document_len_bytes b = byte_len (rope b) - (if endofline b then 0 else 1)"

definition is_empty_document :: "'e file_buf \<Rightarrow> bool" where
  "is_empty_document b \<longleftrightarrow> document_len_bytes b = 0"

definition is_unterminated_document :: "'e file_buf \<Rightarrow> bool" where
  "is_unterminated_document b \<longleftrightarrow> \<not> endofline b \<and> \<not> is_empty_document b"

definition written_endofline :: "'e file_buf \<Rightarrow> bool" where
  "written_endofline b \<longleftrightarrow> endofline b \<or> (fixendofline b \<and> \<not> is_empty_document b)"

definition save_is_unterminated :: "'e file_buf \<Rightarrow> bool" where
  "save_is_unterminated b \<longleftrightarrow> \<not> written_endofline b \<and> \<not> is_empty_document b"

definition save_text :: "'e file_buf \<Rightarrow> ustring" where
  "save_text b =
     (let t = document_text b in if fixendofline b \<and> t \<noteq> [] \<and> last t \<noteq> 10 then t @ [10] else t)"

definition on_disk :: "file_format \<Rightarrow> ustring \<Rightarrow> ustring" where
  "on_disk ff raw = (case ff of FfUnix \<Rightarrow> raw | FfDos \<Rightarrow> replace_char 10 [13, 10] raw | FfMac \<Rightarrow> replace_char 10 [13] raw)"

definition to_save_bytes :: "'e codec \<Rightarrow> 'e file_buf \<Rightarrow> save_error + byte list" where
  "to_save_bytes cdc b = encode_from_str cdc (on_disk (fileformat b) (save_text b)) (fileencoding b) (bomb b)"

text \<open>\<open>wr\<close> is the atomic write of the host, \<open>st\<close> its \<open>stat\<close> after it. The result is the error or the bytes
  written, with the buffer afterwards.\<close>

definition buf_write ::
  "'e codec \<Rightarrow> (ustring \<Rightarrow> byte list \<Rightarrow> bool) \<Rightarrow> (ustring \<Rightarrow> file_stat option) \<Rightarrow> ustring option \<Rightarrow> 'e file_buf \<Rightarrow>
   (save_error + byte list) \<times> 'e file_buf" where
  "buf_write cdc wr st p b =
     (case (case p of Some t \<Rightarrow> Some t | None \<Rightarrow> fpath b) of
        None \<Rightarrow> (Inl NoFileName, b)
      | Some target \<Rightarrow>
          (case to_save_bytes cdc b of
             Inl e \<Rightarrow> (Inl e, b)
           | Inr bytes \<Rightarrow>
               if \<not> wr target bytes then (Inl IoError, b)
               else (Inr bytes,
                 b\<lparr>disk := st target, fpath := Some target, fmodified := False, endofline := written_endofline b,
                   save_tick := save_tick b + 1\<rparr>)))"

definition mark_written :: "ustring \<Rightarrow> file_stat option \<Rightarrow> 'e file_buf \<Rightarrow> 'e file_buf" where
  "mark_written p st b =
     b\<lparr>disk := st, disk_drift := False, fpath := Some p, fmodified := False, endofline := written_endofline b,
       save_tick := save_tick b + 1\<rparr>"

definition stamp_disk :: "file_stat option \<Rightarrow> 'e file_buf \<Rightarrow> 'e file_buf" where
  "stamp_disk st b = b\<lparr>disk := st, disk_drift := False\<rparr>"

definition note_disk_drift :: "'e file_buf \<Rightarrow> 'e file_buf" where
  "note_disk_drift b = b\<lparr>disk_drift := True\<rparr>"

datatype disk_change = DcUnchanged | DcChanged | DcVanished

definition disk_change_of :: "(ustring \<Rightarrow> file_stat option) \<Rightarrow> 'e file_buf \<Rightarrow> disk_change" where
  "disk_change_of st b =
     (case fpath b of
        None \<Rightarrow> DcUnchanged
      | Some p \<Rightarrow>
          let s = st p in
          if s = disk b then DcUnchanged else case s of None \<Rightarrow> DcVanished | Some _ \<Rightarrow> DcChanged)"

definition disk_changed :: "(ustring \<Rightarrow> file_stat option) \<Rightarrow> 'e file_buf \<Rightarrow> bool" where
  "disk_changed st b \<longleftrightarrow> disk_change_of st b \<noteq> DcUnchanged"

end
