(* ===== verification/File_TextProps.thy ===== *)
theory File_TextProps
  imports File_Text
begin

text \<open>
  Opening and saving a file: which files come back byte for byte, what a save appends, that a saved
  buffer reads back as itself, and that the snapshot recorded with a file's text never vouches for text
  the file did not hold.
\<close>

text \<open>A codec of two encodings: ASCII as \<open>UTF-8\<close>, with its BOM, and Latin-1 as windows-1252, for
  the examples.\<close>

definition latin1 :: "bool codec" where
  "latin1 = \<lparr>
     cdc_decode = (\<lambda>e bs. if e \<and> \<not> list_all (\<lambda>b. b < 0x80) bs then None else Some (map unat bs)),
     cdc_encode = (\<lambda>e t. (map of_nat t, \<not> list_all (\<lambda>c. c < (if e then 0x80 else 0x100)) t)),
     cdc_for_bom = (\<lambda>bs. if take 3 bs = [0xEF, 0xBB, 0xBF] then Some (True, 3) else None),
     cdc_for_label = (\<lambda>l. if l = us ''utf-8'' then Some True else if l = us ''latin1'' then Some False else None),
     cdc_name = (\<lambda>e. if e then us ''UTF-8'' else us ''windows-1252''),
     cdc_replacement = undefined, cdc_utf8 = True, cdc_windows_1252 = False\<rparr>"

section \<open>Line endings\<close>

text \<open>Every \<open>\n\<close> follows a \<open>\r\<close>.\<close>

definition no_lone_lf :: "ustring \<Rightarrow> bool" where
  "no_lone_lf s \<longleftrightarrow> (s = [] \<or> hd s \<noteq> 10) \<and> successively (\<lambda>a b. b = 10 \<longrightarrow> a = 13) s"

text \<open>A text whose line breaks are all of the kind its first is, and that does not end in a stray \<open>\r\<close>.\<close>

definition same_breaks :: "ustring \<Rightarrow> bool" where
  "same_breaks s \<longleftrightarrow>
     (case detect_fileformat s of
        FfUnix \<Rightarrow> s = [] \<or> last s \<noteq> 13
      | FfDos \<Rightarrow> no_lone_lf s \<and> last s \<noteq> 13
      | FfMac \<Rightarrow> 10 \<notin> set s)"

lemma no_lone_lf_Nil [simp]: "no_lone_lf []"
  by (simp add: no_lone_lf_def)

lemma no_lone_lf_single [simp]: "no_lone_lf [c] \<longleftrightarrow> c \<noteq> 10"
  by (simp add: no_lone_lf_def)

lemma no_lone_lf_Cons2:
  "no_lone_lf (c # d # s) \<longleftrightarrow> c \<noteq> 10 \<and> (if c = 13 \<and> d = 10 then no_lone_lf s else no_lone_lf (d # s))"
  by (cases s) (auto simp: no_lone_lf_def)

lemma crlf_back:
  "length s \<le> length (replace_char 10 [13, 10] (replace_pair 13 10 [10] s)) \<and>
   (replace_char 10 [13, 10] (replace_pair 13 10 [10] s) = s \<longleftrightarrow> no_lone_lf s)"
proof (induction "13 :: uchar" "10 :: uchar" "[10] :: ustring" s rule: replace_pair.induct)
  case (1 c d s)
  then show ?case by (auto simp: replace_char_def no_lone_lf_Cons2)
qed (auto simp: replace_char_def)

lemma cr_back: "replace_char 10 [13] (replace_char 13 [10] s) = s \<longleftrightarrow> 10 \<notin> set s"
  by (induction s) (auto simp: replace_char_def)

lemma replace_char_nonempty: "r \<noteq> [] \<Longrightarrow> replace_char c r s = [] \<longleftrightarrow> s = []"
  by (cases s) (auto simp: replace_char_def)

lemma replace_char_last: "s \<noteq> [] \<Longrightarrow> last (replace_char c [r] s) = (if last s = c then r else last s)"
  by (induction s rule: rev_induct) (auto simp: replace_char_def)

lemma replace_pair_last:
  "replace_pair 13 10 [10] s = [] \<longleftrightarrow> s = []" "s \<noteq> [] \<Longrightarrow> last (replace_pair 13 10 [10] s) = last s"
proof -
  have nil: "replace_pair 13 10 [10] s = [] \<longleftrightarrow> s = []" for s
    by (induction "13 :: uchar" "10 :: uchar" "[10] :: ustring" s rule: replace_pair.induct) auto
  show "replace_pair 13 10 [10] s = [] \<longleftrightarrow> s = []" by (rule nil)
  show "s \<noteq> [] \<Longrightarrow> last (replace_pair 13 10 [10] s) = last s"
    by (induction "13 :: uchar" "10 :: uchar" "[10] :: ustring" s rule: replace_pair.induct) (auto simp: nil)
qed

lemma normalize_last:
  "normalize_eol s ff = [] \<longleftrightarrow> s = []"
  "s \<noteq> [] \<Longrightarrow> last (normalize_eol s ff) = (if ff = FfMac \<and> last s = 13 then 10 else last s)"
  by (auto simp: normalize_eol_def replace_char_nonempty replace_char_last replace_pair_last split: file_format.split)

lemma normalize_Nil [simp]: "normalize_eol [] ff = []"
  by (simp add: normalize_last)

text \<open>The document of a file just read.\<close>

lemma loaded_document:
  "document_text (load_decoded s b) =
     (if s \<noteq> [] \<and> last s = 13 \<and> detect_fileformat s \<noteq> FfMac then normalize_eol s (detect_fileformat s) @ [10]
      else normalize_eol s (detect_fileformat s))"
  by (auto simp: document_text_def load_decoded_def ends_with_line_break_def ensure_trailing_newline_def normalize_last)

definition eol_text :: "file_format \<Rightarrow> ustring" where
  "eol_text ff = (case ff of FfUnix \<Rightarrow> [10] | FfDos \<Rightarrow> [13, 10] | FfMac \<Rightarrow> [13])"

lemma on_disk_append: "on_disk ff (s @ t) = on_disk ff s @ on_disk ff t"
  by (simp add: on_disk_def replace_char_def split: file_format.split)

lemma on_disk_lf: "on_disk ff [10] = eol_text ff"
  by (simp add: on_disk_def eol_text_def replace_char_def split: file_format.split)

lemma on_disk_normalize:
  "length s \<le> length (on_disk ff (normalize_eol s ff))"
  "on_disk ff (normalize_eol s ff) = s \<longleftrightarrow> (case ff of FfUnix \<Rightarrow> True | FfDos \<Rightarrow> no_lone_lf s | FfMac \<Rightarrow> 10 \<notin> set s)"
proof -
  have "length (replace_char c [r] t) = length t" for c r t by (induction t) (auto simp: replace_char_def)
  then show "length s \<le> length (on_disk ff (normalize_eol s ff))"
    using crlf_back[of s] by (simp add: on_disk_def normalize_eol_def split: file_format.split)
  show "on_disk ff (normalize_eol s ff) = s \<longleftrightarrow> (case ff of FfUnix \<Rightarrow> True | FfDos \<Rightarrow> no_lone_lf s | FfMac \<Rightarrow> 10 \<notin> set s)"
    using crlf_back[of s] cr_back[of s] by (simp add: on_disk_def normalize_eol_def split: file_format.split)
qed

lemma same_breaks_iff:
  "on_disk (detect_fileformat s) (document_text (load_decoded s b)) = s \<longleftrightarrow> same_breaks s"
proof (cases "s \<noteq> [] \<and> last s = 13 \<and> detect_fileformat s \<noteq> FfMac")
  case True
  then have "length s < length (on_disk (detect_fileformat s) (document_text (load_decoded s b)))"
    using on_disk_normalize(1)[of s "detect_fileformat s"]
    by (cases "detect_fileformat s") (auto simp: loaded_document on_disk_append on_disk_lf eol_text_def)
  then show ?thesis using True by (auto simp: same_breaks_def split: file_format.splits)
next
  case False
  then have doc: "document_text (load_decoded s b) = normalize_eol s (detect_fileformat s)"
    by (auto simp: loaded_document)
  have "detect_fileformat s = FfDos \<Longrightarrow> s \<noteq> []" by auto
  with False show ?thesis unfolding doc on_disk_normalize(2)
    by (auto simp: same_breaks_def split: file_format.split)
qed

lemma saved_text_line:
  fixes cdc :: "'e codec"
  defines "saved \<equiv> \<lambda>s keep. on_disk (detect_fileformat s) (save_text ((load_decoded s (empty_buf cdc))\<lparr>fixendofline := keep\<rparr>))"
  shows "(saved s False = s \<longleftrightarrow> same_breaks s) \<and>
    (same_breaks s \<longrightarrow> saved s True = s @ (if s = [] \<or> ends_with_line_break s then [] else eol_text (detect_fileformat s)))"
proof -
  let ?l = "load_decoded s (empty_buf cdc)"
  have doc: "document_text (?l\<lparr>fixendofline := keep\<rparr>) = document_text ?l" for keep
    by (simp add: document_text_def)
  have st: "save_text (?l\<lparr>fixendofline := keep\<rparr>) =
      (if keep \<and> document_text ?l \<noteq> [] \<and> last (document_text ?l) \<noteq> 10 then document_text ?l @ [10] else document_text ?l)" for keep
    unfolding save_text_def Let_def doc by simp
  have "saved s False = s \<longleftrightarrow> same_breaks s" unfolding saved_def st by (simp add: same_breaks_iff)
  moreover have "saved s True = s @ (if s = [] \<or> ends_with_line_break s then [] else eol_text (detect_fileformat s))"
    if "same_breaks s"
  proof -
    have "document_text ?l \<noteq> [] \<and> last (document_text ?l) \<noteq> 10 \<longleftrightarrow> \<not> (s = [] \<or> ends_with_line_break s)"
      using that by (auto simp: loaded_document normalize_last ends_with_line_break_def same_breaks_def split: file_format.splits)
    then show ?thesis
      using same_breaks_iff[of s "empty_buf cdc"] that unfolding saved_def st by (auto simp: on_disk_append on_disk_lf)
  qed
  ultimately show ?thesis by blast
qed

text \<open>What a save writes for a file just read: without \<open>'fixendofline'\<close> the file comes back exactly when its
  line breaks are all of the kind its first is and it does not end in a stray \<open>\r\<close>; with it, such a file gains
  the line break of its format when its last line lacks one, and nothing else, an empty file nothing at all.\<close>

theorem saved_text_exact:
  fixes cdc :: "'e codec"
  defines "saved s keep \<equiv> on_disk (detect_fileformat s) (save_text ((load_decoded s (empty_buf cdc))\<lparr>fixendofline := keep\<rparr>))"
  shows "(saved s False = s \<longleftrightarrow> same_breaks s) \<and>
    (same_breaks s \<longrightarrow> saved s True = s @ (if s = [] \<or> ends_with_line_break s then [] else eol_text (detect_fileformat s)))"
  unfolding saved_def by (rule saved_text_line)

theorem saved_text_exact_witness:
  shows "on_disk FfDos (save_text ((load_decoded [97, 13, 10, 98] (empty_buf latin1))\<lparr>fixendofline := True\<rparr>)) =
    [97, 13, 10, 98, 13, 10]"
  using saved_text_exact[of "[97, 13, 10, 98]" latin1]
  by (simp add: same_breaks_def no_lone_lf_def ends_with_line_break_def eol_text_def)

text \<open>A text that ends in a stray \<open>\r\<close> counts as terminated, and the \<open>\n\<close> the rope adds is saved with it.\<close>

lemma stray_cr_gains_newline:
  "on_disk FfUnix (save_text ((load_decoded [97, 10, 98, 13] (empty_buf cdc))\<lparr>fixendofline := False\<rparr>)) = [97, 10, 98, 13, 10]"
  "detect_fileformat [97, 10, 98, 13] = FfUnix"
  by (simp_all add: load_decoded_def empty_buf_def ends_with_line_break_def ensure_trailing_newline_def normalize_eol_def
      save_text_def document_text_def on_disk_def)

text \<open>The flag a write leaves is not whether what it wrote ends with a line break.\<close>

lemma written_endofline_differs:
  fixes cdc :: "'e codec"
  defines "b \<equiv> (empty_buf cdc)\<lparr>rope := [97, 10, 10], fixendofline := False\<rparr>"
  shows "save_text b = [97, 10]" and "\<not> written_endofline b"
  by (simp_all add: b_def empty_buf_def save_text_def document_text_def written_endofline_def)

section \<open>Saving, then reading\<close>

lemma detect_no_break: "13 \<notin> set s \<Longrightarrow> detect_fileformat s = FfUnix"
  by (induction s) auto

lemma detect_on_disk:
  "13 \<notin> set s \<Longrightarrow> detect_fileformat (on_disk ff s) = (if 10 \<in> set s then ff else FfUnix)"
proof (induction s)
  case (Cons c s)
  have "hd (replace_char 10 [13] s) \<noteq> 10" if "s \<noteq> []" using that by (cases s) (auto simp: replace_char_def)
  moreover have "replace_char 10 r (c # s) = (if c = 10 then r else [c]) @ replace_char 10 r s" for r
    by (simp add: replace_char_def)
  ultimately show ?case using Cons by (cases ff) (auto simp: on_disk_def detect_no_break replace_char_nonempty)
qed (simp add: on_disk_def replace_char_def split: file_format.split)

lemma replace_char_Cons: "replace_char c r (x # s) = (if x = c then r else [x]) @ replace_char c r s"
  by (simp add: replace_char_def)

lemma replace_pair_skip: "c \<noteq> a \<Longrightarrow> replace_pair a b r (c # s) = c # replace_pair a b r s"
  by (cases s) auto

lemma normalize_on_disk: "13 \<notin> set s \<Longrightarrow> normalize_eol (on_disk ff s) ff = s"
proof -
  assume n: "13 \<notin> set s"
  have "replace_char 13 [10] (replace_char 10 [13] s) = s"
    using n by (induction s) (auto simp: replace_char_def)
  moreover have "replace_pair 13 10 [10] (replace_char 10 [13, 10] s) = s"
    using n by (induction s) (simp_all add: replace_char_def[of _ _ "[]"] replace_char_Cons replace_pair_skip)
  ultimately show ?thesis by (simp add: normalize_eol_def on_disk_def split: file_format.split)
qed

lemma on_disk_plain: "10 \<notin> set s \<Longrightarrow> on_disk ff s = s"
proof -
  assume "10 \<notin> set s"
  then have "replace_char 10 r s = s" for r by (induction s) (auto simp: replace_char_def)
  then show ?thesis by (simp add: on_disk_def split: file_format.split)
qed

lemma on_disk_last: "13 \<notin> set s \<Longrightarrow> ff \<noteq> FfMac \<Longrightarrow> on_disk ff s \<noteq> [] \<Longrightarrow> last (on_disk ff s) \<noteq> 13"
  by (cases s rule: rev_cases; cases ff) (auto simp: on_disk_def replace_char_def)

text \<open>A saved buffer reads back as itself. For a buffer without stray \<open>\r\<close>s, whatever its format and flags,
  reading what a save wrote gives a buffer with exactly the saved document, and with the same lines,
  unless the document is unterminated and its last line empty: that line is gone.\<close>

theorem saved_reads_back:
  fixes b :: "'e file_buf" and cdc :: "'f codec"
  assumes r: "rope b = t @ [10]" "13 \<notin> set t"
  defines "b' \<equiv> load_decoded (on_disk (fileformat b) (save_text b)) (empty_buf cdc)"
  shows "document_text b' = save_text b \<and>
    (endofline b \<or> t = [] \<or> last t \<noteq> 10 \<longrightarrow> rope b' = rope b)"
proof -
  let ?d = "save_text b"
  have n: "13 \<notin> set ?d" using r by (auto simp: save_text_def document_text_def Let_def dest: in_set_butlastD)
  have norm: "normalize_eol (on_disk (fileformat b) ?d) (detect_fileformat (on_disk (fileformat b) ?d)) = ?d"
    using n normalize_on_disk[OF n] on_disk_plain by (simp add: detect_on_disk normalize_eol_def[of _ FfUnix])
  have "\<not> (on_disk (fileformat b) ?d \<noteq> [] \<and> last (on_disk (fileformat b) ?d) = 13 \<and>
      detect_fileformat (on_disk (fileformat b) ?d) \<noteq> FfMac)"
  proof (cases "10 \<in> set ?d")
    case True
    then show ?thesis using on_disk_last[OF n] n by (auto simp: detect_on_disk)
  next
    case False
    then show ?thesis using n by (metis last_in_set on_disk_plain)
  qed
  then have "document_text b' = ?d" unfolding b'_def loaded_document norm by (simp only: if_not_P if_False)
  moreover have "rope b' = ensure_trailing_newline ?d" unfolding b'_def by (simp add: load_decoded_def norm)
  moreover have "ensure_trailing_newline ?d = rope b" if "endofline b \<or> t = [] \<or> last t \<noteq> 10"
    using that r by (auto simp: save_text_def document_text_def Let_def ensure_trailing_newline_def)
  ultimately show ?thesis by auto
qed

text \<open>A Dos buffer of two lines, the last unterminated.\<close>

theorem saved_reads_back_witness:
  defines "b \<equiv> (empty_buf latin1)\<lparr>rope := [97, 10, 98, 10], fileformat := FfDos, fixendofline := False\<rparr>"
  shows "on_disk FfDos (save_text b) = [97, 13, 10, 98] \<and> rope (load_decoded [97, 13, 10, 98] (empty_buf latin1)) = rope b"
proof -
  have s: "on_disk (fileformat b) (save_text b) = [97, 13, 10, 98]"
    by (simp add: b_def empty_buf_def save_text_def document_text_def on_disk_def replace_char_def)
  show ?thesis
    using saved_reads_back[of b "[97, 10, 98]" latin1] s unfolding b_def by (simp add: empty_buf_def)
qed

section \<open>Bytes\<close>

text \<open>An encoding that encodes what it decoded from a file exactly as it was, with or without the bytes of
  a byte order mark. UTF-8, UTF-16 and windows-1252 do on every file they decode; of Shift_JIS,
  ISO-2022-JP and others it is a condition on the file, since several byte sequences decode to the same
  text and the encoder writes one of them.\<close>

definition exact_on :: "'e codec \<Rightarrow> 'e \<Rightarrow> byte list \<Rightarrow> bool" where
  "exact_on cdc e bytes \<longleftrightarrow> (\<forall>k t. cdc_decode cdc e (drop k bytes) = Some t \<longrightarrow>
     (case utf16_endianness cdc e of Some l \<Rightarrow> encode_utf16 l t = drop k bytes
      | None \<Rightarrow> cdc_encode cdc e t = (drop k bytes, False)))"

text \<open>A sniffed BOM is the encoding's, and windows-1252 decodes every byte stream.\<close>

definition codec_laws :: "'e codec \<Rightarrow> bool" where
  "codec_laws cdc \<longleftrightarrow>
     (\<forall>bs e n. cdc_for_bom cdc bs = Some (e, n) \<longrightarrow> take n bs = bom_bytes cdc e) \<and>
     (\<forall>bs. cdc_decode cdc (cdc_windows_1252 cdc) bs \<noteq> None)"

lemma exact_onD:
  assumes "exact_on cdc e bytes" "cdc_decode cdc e (drop k bytes) = Some t"
  shows "encode_from_str cdc t e b = Inr ((if b then bom_bytes cdc e else []) @ drop k bytes)"
proof (cases "utf16_endianness cdc e")
  case (Some l)
  then have "encode_utf16 l t = drop k bytes" using assms unfolding exact_on_def by fastforce
  then show ?thesis by (simp add: encode_from_str_def Let_def Some)
next
  case None
  then have "cdc_encode cdc e t = (drop k bytes, False)" using assms unfolding exact_on_def by fastforce
  then show ?thesis by (simp add: encode_from_str_def Let_def None)
qed

lemma decode_entries_back:
  assumes "codec_laws cdc" "exact_on cdc e bytes"
  shows "decode_entries cdc bytes es = Some (t, e, b) \<Longrightarrow> encode_from_str cdc t e b = Inr bytes"
proof (induction es)
  case (Cons x es)
  note enc = exact_onD[OF assms(2)] exact_onD[OF assms(2), of 0, simplified]
  have bom: "bom_bytes cdc e @ drop n bytes = bytes" if "cdc_for_bom cdc bytes = Some (e, n)" for n
    using assms(1) that unfolding codec_laws_def by (metis append_take_drop_id)
  show ?case
    using Cons by (auto simp: Let_def enc bom split: if_splits option.splits)
qed simp

lemma decode_back:
  assumes "codec_laws cdc" "exact_on cdc e bytes" "decode_to_rope cdc bytes encs = Some (t, e, b)"
  shows "encode_from_str cdc t e b = Inr bytes"
proof (cases "decode_entries cdc bytes (filter (\<lambda>e. e \<noteq> []) (map trim (split_char (uc CHR '','') encs)))")
  case None
  then have "e = cdc_windows_1252 cdc" "b = False" "cdc_decode cdc e bytes = Some t"
    using assms(3) by (auto simp: decode_to_rope_def)
  then show ?thesis using exact_onD[OF assms(2), of 0] by simp
next
  case (Some r)
  then show ?thesis using assms decode_entries_back[OF assms(1,2)] by (auto simp: decode_to_rope_def)
qed

text \<open>C30. Opening never fails on a file's bytes. Saving what was opened writes them back exactly, the byte
  order mark included, under three conditions: the encoding the file was read as encodes what it decoded
  from this file back to the same bytes (\<open>exact_on\<close>: true of every file in UTF-8, UTF-16 and
  windows-1252, and in an encoding such as Shift_JIS or ISO-2022-JP of the files written the way its
  encoder writes); the line breaks are all of one kind; and \<open>'fixendofline'\<close> is off, or the text ends
  with a line break or is empty. The codec is a parameter, assumed to name the encoding of the byte order
  mark it sniffed and to decode any bytes as windows-1252.\<close>

theorem open_save_same_bytes:
  assumes laws: "codec_laws cdc" and read: "read_consistent fs now = Inr (Some bytes, d, t')"
  shows "\<exists>decoded e bm b.
    decode_to_rope cdc bytes encs = Some (decoded, e, bm) \<and> from_file cdc fs path encs now = Some (Inr b) \<and>
    (exact_on cdc e bytes \<and> same_breaks decoded \<longrightarrow>
       to_save_bytes cdc (b\<lparr>fixendofline := False\<rparr>) = Inr bytes \<and>
       (decoded = [] \<or> ends_with_line_break decoded \<longrightarrow> to_save_bytes cdc (b\<lparr>fixendofline := True\<rparr>) = Inr bytes))"
proof -
  have "\<exists>r. decode_to_rope cdc bytes encs = Some r"
    using laws by (auto simp: codec_laws_def decode_to_rope_def split: option.split)
  then obtain decoded e bm where dec: "decode_to_rope cdc bytes encs = Some (decoded, e, bm)" by (metis prod_cases3)
  define b where "b = (load_decoded decoded (named_buf cdc path))\<lparr>fileencoding := e, bomb := bm, disk := d\<rparr>"
  have from_f: "from_file cdc fs path encs now = Some (Inr b)" by (simp add: from_file_def read dec b_def)
  have saved: "to_save_bytes cdc (b\<lparr>fixendofline := keep\<rparr>) =
      encode_from_str cdc (on_disk (detect_fileformat decoded)
        (save_text ((load_decoded decoded (empty_buf cdc))\<lparr>fixendofline := keep\<rparr>))) e bm" for keep
    by (simp add: to_save_bytes_def b_def load_decoded_def named_buf_def save_text_def document_text_def Let_def)
  have same: "to_save_bytes cdc (b\<lparr>fixendofline := keep\<rparr>) = Inr bytes"
    if "exact_on cdc e bytes" "same_breaks decoded" "keep \<longrightarrow> decoded = [] \<or> ends_with_line_break decoded" for keep
    using saved_text_line[of decoded cdc] that decode_back[OF laws that(1) dec] unfolding saved by (cases keep) auto
  show ?thesis using dec from_f same[of False] same[of True]
    by (intro exI[of _ decoded] exI[of _ e] exI[of _ bm] exI[of _ b]) simp
qed

text \<open>A file that stays as it is.\<close>

definition still_file :: "(byte list \<times> file_stat) option \<Rightarrow> host_file" where
  "still_file f = \<lparr>fs_stat = (\<lambda>_. map_option snd f), fs_exists = (\<lambda>_. f \<noteq> None),
     fs_read = (\<lambda>_. case f of Some (bs, _) \<Rightarrow> Inr bs | None \<Rightarrow> Inl IoError)\<rparr>"

lemma read_still: "read_consistent (still_file (Some (bs, st))) now = Inr (Some bs, Some st, now + 4)"
  by (simp add: read_consistent_def still_file_def read_attempts.simps TORN_READ_RETRIES_def)

lemma latin1_laws: "codec_laws latin1"
  by (auto simp: codec_laws_def latin1_def bom_bytes_def split: if_splits)

lemma latin1_exact: "exact_on latin1 e bytes"
  by (auto simp: exact_on_def latin1_def utf16_endianness_def list_all_iff comp_def word_less_nat_alt
      intro!: map_idI split: if_splits) (use unsigned_less[where 'b = 8 and 'a = nat] in fastforce)

theorem open_save_same_bytes_witness:
  defines "fs \<equiv> still_file (Some ([0xEF, 0xBB, 0xBF, 97, 13, 10, 98], \<lparr>mtime = Some 1, file_size = 7\<rparr>))"
  shows "\<exists>b. from_file latin1 fs [102] (us ''ucs-bom,utf-8,latin1'') 0 = Some (Inr b) \<and> rope b = [97, 10, 98, 10] \<and>
    to_save_bytes latin1 (b\<lparr>fixendofline := False\<rparr>) = Inr [0xEF, 0xBB, 0xBF, 97, 13, 10, 98]"
proof -
  let ?bs = "[0xEF, 0xBB, 0xBF, 97, 13, 10, 98] :: byte list"
  have dec: "decode_to_rope latin1 ?bs (us ''ucs-bom,utf-8,latin1'') = Some ([97, 13, 10, 98], True, True)"
    by (simp add: decode_to_rope_def latin1_def trim_def is_whitespace_def)
  have sb: "same_breaks [97, 13, 10, 98]" by (simp add: same_breaks_def no_lone_lf_def)
  have read: "read_consistent fs 0 = Inr (Some ?bs, Some \<lparr>mtime = Some 1, file_size = 7\<rparr>, 4)"
    using read_still[of ?bs _ 0] unfolding fs_def by simp
  have "from_file latin1 fs [102] (us ''ucs-bom,utf-8,latin1'') 0 =
      Some (Inr ((load_decoded [97, 13, 10, 98] (named_buf latin1 [102]))\<lparr>fileencoding := True, bomb := True,
        disk := Some \<lparr>mtime = Some 1, file_size = 7\<rparr>\<rparr>))"
    unfolding from_file_def read by (simp only: sum.case prod.case option.case dec)
  then have rope: "rope b = [97, 10, 98, 10]" if "from_file latin1 fs [102] (us ''ucs-bom,utf-8,latin1'') 0 = Some (Inr b)" for b
    using that by (auto simp: load_decoded_def normalize_eol_def ensure_trailing_newline_def)
  show ?thesis
    using open_save_same_bytes[OF latin1_laws read, of "us ''ucs-bom,utf-8,latin1''" "[102]"] dec sb latin1_exact rope by auto
qed

section \<open>The snapshot and the text\<close>

text \<open>The history of a file: \<open>v t\<close> is its version at instant \<open>t\<close>, \<open>file n\<close> what version \<open>n\<close> holds, and the host
  answers by the version there is. Change detection by size and modification time relies on a file that
  is there having the same two at two instants only if nothing changed in between. Of a file that is not
  there nothing is assumed: it may appear and vanish at will.\<close>

definition history :: "host_file \<Rightarrow> (nat \<Rightarrow> nat) \<Rightarrow> (nat \<Rightarrow> (byte list \<times> file_stat) option) \<Rightarrow> bool" where
  "history fs v file \<longleftrightarrow> (\<forall>s t. s \<le> t \<longrightarrow> v s \<le> v t) \<and>
     (\<forall>t. fs_stat fs t = map_option snd (file (v t)) \<and> fs_exists fs t = (file (v t) \<noteq> None) \<and>
       (case file (v t) of Some (bs, _) \<Rightarrow> fs_read fs t = Inr bs | None \<Rightarrow> \<exists>e. fs_read fs t = Inl e)) \<and>
     (\<forall>m n k st. m \<le> k \<and> k \<le> n \<and> map_option snd (file m) = Some st \<and> map_option snd (file n) = Some st \<longrightarrow>
       file k = file m)"

lemma history_mono: "history fs v file \<Longrightarrow> s \<le> t \<Longrightarrow> v s \<le> v t"
  unfolding history_def by blast

lemma history_stat: "history fs v file \<Longrightarrow> fs_stat fs t = map_option snd (file (v t))"
  unfolding history_def by blast

lemma history_exists: "history fs v file \<Longrightarrow> fs_exists fs t \<longleftrightarrow> file (v t) \<noteq> None"
  unfolding history_def by blast

lemma history_same:
  "history fs v file \<Longrightarrow> m \<le> k \<Longrightarrow> k \<le> n \<Longrightarrow> map_option snd (file m) = Some st \<Longrightarrow>
   map_option snd (file n) = Some st \<Longrightarrow> file k = file m"
  unfolding history_def by blast

text \<open>The file was not there at some instant from \<open>s0\<close> on and was at a later one before \<open>s1\<close>.\<close>

definition appeared :: "(nat \<Rightarrow> nat) \<Rightarrow> (nat \<Rightarrow> (byte list \<times> file_stat) option) \<Rightarrow> nat \<Rightarrow> nat \<Rightarrow> bool" where
  "appeared v file s0 s1 \<longleftrightarrow> (\<exists>s r. s0 \<le> s \<and> s < r \<and> r < s1 \<and> file (v s) = None \<and> file (v r) \<noteq> None)"

lemma appeared_mono: "appeared v file s0 s1 \<Longrightarrow> s0' \<le> s0 \<Longrightarrow> s1 \<le> s1' \<Longrightarrow> appeared v file s0' s1'"
  unfolding appeared_def by (meson le_trans less_le_trans)

lemma read_attempts_cases:
  assumes "read_attempts fs left now before = Inr (bytes, d, now')"
  obtains (stop) "at" where "at = (if fs_exists fs now then now + 2 else now + 1)" "now' = at + 1" "d = before"
      "(if fs_exists fs now then map_sum id Some (fs_read fs (now + 1)) else Inr None) = Inr bytes"
    | (again) "at" k where "at = (if fs_exists fs now then now + 2 else now + 1)" "left = Suc k"
      "read_attempts fs k (at + 1) (fs_stat fs at) = Inr (bytes, d, now')"
proof -
  let ?o = "if fs_exists fs now then map_sum id Some (fs_read fs (now + 1)) else Inr None"
  define a where "a = (if fs_exists fs now then now + 2 else now + 1)"
  have eq: "(case ?o of Inl e \<Rightarrow> Inl e | Inr bytes \<Rightarrow>
      if fs_stat fs a = before then Inr (bytes, before, a + 1)
      else (case left of 0 \<Rightarrow> Inr (bytes, before, a + 1) | Suc k \<Rightarrow> read_attempts fs k (a + 1) (fs_stat fs a))) =
      Inr (bytes, d, now')"
    using assms unfolding a_def by (subst (asm) read_attempts.simps) (simp only: Let_def)
  show ?thesis
  proof (cases ?o)
    case (Inl e)
    show ?thesis using eq unfolding Inl by simp
  next
    case (Inr b)
    have eq': "(if fs_stat fs a = before then Inr (b, before, a + 1)
      else (case left of 0 \<Rightarrow> Inr (b, before, a + 1) | Suc k \<Rightarrow> read_attempts fs k (a + 1) (fs_stat fs a))) =
      Inr (bytes, d, now')" using eq unfolding Inr sum.case .
    show ?thesis
    proof (cases "fs_stat fs a = before")
      case True
      then show ?thesis using eq' Inr by (intro stop[OF a_def]) auto
    next
      case False
      then show ?thesis
      proof (cases left)
        case 0
        then show ?thesis using eq' Inr False by (intro stop[OF a_def]) auto
      next
        case (Suc k)
        then show ?thesis using eq' False by (intro again[OF a_def Suc]) simp
      qed
    qed
  qed
qed

lemma read_in_history:
  assumes h: "history fs v file"
    and r: "(if fs_exists fs now then map_sum id Some (fs_read fs (now + 1)) else Inr None) = Inr b"
  shows "\<exists>r \<ge> now. r < (if fs_exists fs now then now + 2 else now + 1) \<and> b = map_option fst (file (v r))"
proof (cases "fs_exists fs now")
  case True
  then obtain bs where bs: "fs_read fs (now + 1) = Inr bs" "b = Some bs" using r by (cases "fs_read fs (now + 1)") auto
  have "case file (v (now + 1)) of Some (bs, _) \<Rightarrow> fs_read fs (now + 1) = Inr bs | None \<Rightarrow> \<exists>e. fs_read fs (now + 1) = Inl e"
    using h unfolding history_def by blast
  then have "b = map_option fst (file (v (now + 1)))" using bs by (cases "file (v (now + 1))") auto
  then show ?thesis using True by (intro exI[of _ "now + 1"]) simp
next
  case False
  then have "file (v now) = None" using history_exists[OF h] by blast
  then show ?thesis using False r by (intro exI[of _ now]) simp
qed

lemma read_between:
  assumes h: "history fs v file" and "s \<le> r" "r < s1" "s1 \<le> t" and "fs_stat fs t = map_option snd (file (v s))"
  shows "map_option fst (file (v r)) = map_option fst (file (v t)) \<or> fs_stat fs t = None \<and> appeared v file s s1"
proof (cases "file (v s)")
  case None
  then have gone: "fs_stat fs t = None" "file (v t) = None" using assms history_stat[OF h, of t] by auto
  show ?thesis
  proof (cases "file (v r)")
    case (Some x)
    then have "s \<noteq> r" using None by auto
    then have "appeared v file s s1" unfolding appeared_def using assms(2,3) None Some
      by (intro exI[of _ s] exI[of _ r]) simp
    with gone show ?thesis by simp
  qed (simp add: gone)
next
  case (Some x)
  then have st: "map_option snd (file (v s)) = Some (snd x)" "map_option snd (file (v t)) = Some (snd x)"
    using assms(5) history_stat[OF h, of t] by auto
  have "v s \<le> v r" "v r \<le> v t" using assms(2-4) by (auto intro: history_mono[OF h])
  then have "file (v r) = file (v s)" "file (v t) = file (v s)"
    using history_same[OF h _ _ st] history_same[OF h _ order_refl st] order_trans by blast+
  then show ?thesis by simp
qed

lemma read_attempts_current:
  assumes h: "history fs v file"
  shows "s < now \<Longrightarrow> before = map_option snd (file (v s)) \<Longrightarrow> read_attempts fs left now before = Inr (bytes, d, now') \<Longrightarrow>
    now < now' \<and> now' \<le> now + 3 * (left + 1) \<and>
    (\<forall>t \<ge> now'. fs_stat fs t = d \<longrightarrow>
       bytes = map_option fst (file (v t)) \<or> d = None \<and> appeared v file s now')"
proof (induction left arbitrary: s now before)
  note st = history_stat[OF h]
  have stopped: "now < at + 1 \<and> at + 1 \<le> now + 3 * (left + 1) \<and>
      (\<forall>t \<ge> at + 1. fs_stat fs t = map_option snd (file (v s)) \<longrightarrow>
         b = map_option fst (file (v t)) \<or> fs_stat fs t = None \<and> appeared v file s (at + 1))"
    if p: "s < now" "at = (if fs_exists fs now then now + 2 else now + 1)"
      "(if fs_exists fs now then map_sum id Some (fs_read fs (now + 1)) else Inr None) = Inr b" for s now "at" left b
  proof -
    obtain r where r: "now \<le> r" "r < at" "b = map_option fst (file (v r))"
      using read_in_history[OF h p(3)] p(2) by blast
    have "s \<le> r" "r < at + 1" using r p(1) by auto
    with read_between[OF h, of s r "at + 1"] r(3) p(2) show ?thesis by (auto split: if_splits)
  qed
  {
    case 0
    show ?case using 0(3)
    proof (cases rule: read_attempts_cases)
      case (stop "at")
      then show ?thesis using stopped[OF 0(1) stop(1) stop(4), of 0] 0(2) by auto
    qed simp
  next
    case (Suc left)
    show ?case using Suc.prems(3)
    proof (cases rule: read_attempts_cases)
      case (stop "at")
      then show ?thesis using stopped[OF Suc.prems(1) stop(1) stop(4), of "Suc left"] Suc.prems(2) by auto
    next
      case (again "at" k)
      have "at": "now < at" "at \<le> now + 2" using again(1) by auto
      have later: "at < now' \<and> now' \<le> at + 1 + 3 * (left + 1)"
        and found: "\<forall>t \<ge> now'. fs_stat fs t = d \<longrightarrow>
          bytes = map_option fst (file (v t)) \<or> d = None \<and> appeared v file at now'"
        using Suc.IH[OF _ st, of "at" "at + 1"] again by auto
      have mono: "appeared v file s now'" if "appeared v file at now'"
        by (rule appeared_mono[OF that]) (use "at" Suc.prems(1) in auto)
      show ?thesis using "at" later found mono by auto
    qed
  }
qed

lemma read_consistent_current:
  assumes "history fs v file" "read_consistent fs now = Inr (bytes, d, now')"
  shows "now' \<le> now + 10"
    and "now' \<le> t \<Longrightarrow> fs_stat fs t = d \<Longrightarrow>
      bytes = map_option fst (file (v t)) \<or> d = None \<and> appeared v file now now'"
  using read_attempts_current[OF assms(1), of now "now + 1" "fs_stat fs now" "TORN_READ_RETRIES - 1" bytes d now']
    history_stat[OF assms(1), of now] assms(2) by (auto simp: read_consistent_def TORN_READ_RETRIES_def)

text \<open>C31. The snapshot recorded with a buffer's text does not vouch for text the file did not hold, however
  often the file is rewritten while it is read. Assumed of the file is that while it is there an equal size
  and modification time at two instants mean it did not change in between (a file put back as it was, or
  two writes of one size in one clock tick, are outside). If, at any instant after the opening (at most ten
  calls of the host), the check against the snapshot says unchanged, then: where the file is there, the
  buffer's text is what opening it at that instant gives; where it is not there, the buffer is empty,
  unless the file was first seen missing and then appeared while it was being read and is gone again, a
  case the code gets wrong (\<open>vanished_file_unchanged\<close>).\<close>

theorem unchanged_means_current:
  assumes h: "history fs v file" and b: "from_file cdc fs path encs now = Some (Inr b)" and t: "now + 10 \<le> t"
    and u: "disk_change_of (\<lambda>_. fs_stat fs t) b = DcUnchanged"
  shows "case file (v t) of
      None \<Rightarrow> rope b = [10] \<or>
        (\<exists>s r. now \<le> s \<and> s < r \<and> r < now + 10 \<and> file (v s) = None \<and> file (v r) \<noteq> None)
    | Some (bytes, st) \<Rightarrow> disk b = Some st \<and> (\<exists>decoded e bm. decode_to_rope cdc bytes encs = Some (decoded, e, bm) \<and>
        rope b = rope (load_decoded decoded (named_buf cdc path)) \<and> fileencoding b = e \<and> bomb b = bm)"
proof -
  obtain bytes d now' where r: "read_consistent fs now = Inr (bytes, d, now')"
    using b by (auto simp: from_file_def split: sum.splits)
  have b': "fpath b = Some path \<and> disk b = d \<and>
      (case bytes of None \<Rightarrow> rope b = [10]
       | Some bs \<Rightarrow> \<exists>decoded e bm. decode_to_rope cdc bs encs = Some (decoded, e, bm) \<and>
           rope b = rope (load_decoded decoded (named_buf cdc path)) \<and> fileencoding b = e \<and> bomb b = bm)"
    using b by (auto simp: from_file_def r named_buf_def load_decoded_def ensure_trailing_newline_def split: option.splits)
  then have same: "fs_stat fs t = d" using u by (auto simp: disk_change_of_def Let_def split: if_splits option.splits)
  then have d: "d = map_option snd (file (v t))" using history_stat[OF h] by auto
  note now' = read_consistent_current(1)[OF h r]
  with t have "now' \<le> t" by simp
  from read_consistent_current(2)[OF h r this same] show ?thesis
  proof
    assume "bytes = map_option fst (file (v t))"
    then show ?thesis using b' d by (auto split: option.splits)
  next
    assume gone: "d = None \<and> appeared v file now now'"
    with now' have "appeared v file now (now + 10)" by (auto elim: appeared_mono)
    then show ?thesis using gone d unfolding appeared_def by simp
  qed
qed

text \<open>A file written anew at instant 2, while it is read for the first time.\<close>

definition changing_file :: "nat \<Rightarrow> (byte list \<times> file_stat) option" where
  "changing_file n = (if n = 0 then Some ([97], \<lparr>mtime = Some 1, file_size = 1\<rparr>)
     else Some ([97, 98], \<lparr>mtime = Some 2, file_size = 2\<rparr>))"

definition changing :: host_file where
  "changing = (let f = (\<lambda>t. changing_file (if t < 2 then 0 else 1)) in
     \<lparr>fs_stat = (\<lambda>t. map_option snd (f t)), fs_exists = (\<lambda>t. f t \<noteq> None), fs_read = (\<lambda>t. Inr (fst (the (f t))))\<rparr>)"

theorem unchanged_means_current_witness:
  "\<exists>b. from_file latin1 changing [102] (us ''latin1'') 0 = Some (Inr b) \<and> rope b = [97, 98, 10] \<and>
     disk b = Some \<lparr>mtime = Some 2, file_size = 2\<rparr>"
proof -
  have h: "history changing (\<lambda>t. if t < 2 then 0 else 1) changing_file"
    by (auto simp: history_def changing_def changing_file_def Let_def)
  have dec: "decode_to_rope latin1 [97, 98] (us ''latin1'') = Some ([97, 98], False, False)"
    by (simp add: decode_to_rope_def latin1_def trim_def is_whitespace_def from_label_def vim_cjk_alias_def
        to_ascii_lowercase_def is_ascii_uppercase_def)
  have r: "read_consistent changing 0 = Inr (Some [97, 98], Some \<lparr>mtime = Some 2, file_size = 2\<rparr>, 7)"
    by (simp add: read_consistent_def read_attempts.simps TORN_READ_RETRIES_def changing_def changing_file_def Let_def)
  obtain b where b: "from_file latin1 changing [102] (us ''latin1'') 0 = Some (Inr b)"
    unfolding from_file_def r by (simp only: sum.case prod.case option.case dec)
  have "disk_change_of (\<lambda>_. fs_stat changing 10) b = DcUnchanged"
    using b unfolding from_file_def r
    by (simp only: sum.case prod.case option.case dec) (auto simp: disk_change_of_def changing_def changing_file_def Let_def load_decoded_def named_buf_def)
  from unchanged_means_current[OF h b _ this] show ?thesis
    using b dec by (auto simp: changing_file_def load_decoded_def normalize_eol_def ensure_trailing_newline_def)
qed

text \<open>A file that is missing at the first stat, there when it is read, and missing from the second stat on:
  both stats say missing, so the read counts as consistent, and every later check says unchanged although
  the buffer shows text of a file that is gone.\<close>

definition flashing :: host_file where
  "flashing = \<lparr>fs_stat = (\<lambda>t. if t \<in> {1, 2} then Some \<lparr>mtime = Some 1, file_size = 1\<rparr> else None),
     fs_exists = (\<lambda>t. t \<in> {1, 2}), fs_read = (\<lambda>t. if t \<in> {1, 2} then Inr [97] else Inl IoError)\<rparr>"

lemma vanished_file_unchanged:
  "map_option (map_sum id (\<lambda>b. (rope b, disk b, disk_change_of (\<lambda>_. fs_stat flashing 10) b)))
     (from_file latin1 flashing [102] (us ''latin1'') 0) = Some (Inr ([97, 10], None, DcUnchanged))"
proof -
  have r: "read_consistent flashing 0 = Inr (Some [97], None, 4)"
    by (simp add: read_consistent_def read_attempts.simps TORN_READ_RETRIES_def flashing_def)
  have dec: "decode_to_rope latin1 [97] (us ''latin1'') = Some ([97], False, False)"
    by (simp add: decode_to_rope_def latin1_def trim_def is_whitespace_def from_label_def vim_cjk_alias_def
        to_ascii_lowercase_def is_ascii_uppercase_def)
  show ?thesis
    unfolding from_file_def r by (simp only: sum.case prod.case option.case dec)
      (simp add: disk_change_of_def flashing_def load_decoded_def named_buf_def normalize_eol_def ensure_trailing_newline_def)
qed

end
