(* ===== verification/Jumps.thy ===== *)
theory Jumps
  imports Buffer_Edit
begin

text \<open>
  The jump list of a window and the navigation of a buffer's change list
  (\<open>crates/bemtvi-core/src/editor/jumps.rs\<close>, \<open>changelist.rs\<close>). Opening a file, clamping a position to a
  buffer's text and whether a buffer still exists are arguments; of the editor the focused window, its
  buffer and its cursor are kept. An index outside a list is a panic, \<open>None\<close>.
\<close>

section \<open>The jump list\<close>

record jump_entry =
  jbuf :: nat
  jline :: nat
  jcol :: nat

record jump_win =
  jumps :: "jump_entry list"
  jump_idx :: nat
  jump_gen :: "64 word"

record jump_ed =
  jwin :: jump_win
  cur_buffer :: nat
  jcursor :: "nat \<times> nat"
  pending_jumplist :: "(ustring \<times> nat \<times> nat) list"

definition JUMPLIST_SIZE :: nat where "JUMPLIST_SIZE = 100"

definition here_entry :: "jump_ed \<Rightarrow> jump_entry" where
  "here_entry ed = \<lparr>jbuf = cur_buffer ed, jline = fst (jcursor ed), jcol = snd (jcursor ed)\<rparr>"

definition push_jump_entry :: "jump_entry \<Rightarrow> jump_ed \<Rightarrow> jump_ed" where
  "push_jump_entry e ed =
     (let w = jwin ed;
          kept = filter (\<lambda>x. \<not> (jbuf x = jbuf e \<and> jline x = jline e)) (jumps w);
          js = (if JUMPLIST_SIZE \<le> length kept then tl kept else kept) @ [e]
      in ed\<lparr>jwin := w\<lparr>jumps := js, jump_idx := length js, jump_gen := jump_gen w + 1\<rparr>\<rparr>)"

definition push_jump :: "jump_ed \<Rightarrow> jump_ed" where
  "push_jump ed = push_jump_entry (here_entry ed) ed"

text \<open>\<open>opn\<close> opens the file at a path and answers its buffer.\<close>

definition materialize_pending_jumplist :: "(ustring \<Rightarrow> nat option) \<Rightarrow> jump_ed \<Rightarrow> jump_ed" where
  "materialize_pending_jumplist opn ed =
     (if pending_jumplist ed = [] then ed
      else let ed' = ed\<lparr>pending_jumplist := []\<rparr> in
        if jumps (jwin ed) \<noteq> [] then ed'
        else let es = List.map_filter (\<lambda>(path, line, col).
                 map_option (\<lambda>b. \<lparr>jbuf = b, jline = line, jcol = col\<rparr>) (opn path)) (pending_jumplist ed)
             in ed'\<lparr>jwin := (jwin ed)\<lparr>jumps := es, jump_idx := length es, jump_gen := jump_gen (jwin ed) + 1\<rparr>\<rparr>)"

definition jump_to_entry :: "(nat \<Rightarrow> bool) \<Rightarrow> (nat \<Rightarrow> nat \<times> nat \<Rightarrow> nat \<times> nat) \<Rightarrow> jump_entry \<Rightarrow> jump_ed \<Rightarrow> jump_ed" where
  "jump_to_entry valid settle target ed =
     (if \<not> valid (jbuf target) then ed
      else ed\<lparr>cur_buffer := jbuf target, jcursor := settle (jbuf target) (jline target, jcol target)\<rparr>)"

definition jump_nav ::
  "(nat \<Rightarrow> bool) \<Rightarrow> (nat \<Rightarrow> nat \<times> nat \<Rightarrow> nat \<times> nat) \<Rightarrow> bool \<Rightarrow> nat \<Rightarrow> jump_ed \<Rightarrow> jump_ed option" where
  "jump_nav valid settle older n ed =
     (let delta = (if older then - int (max n 1) else int (max n 1));
          w = jwin ed; len = int (length (jumps w)); idx = int (jump_idx w)
      in if len = 0 \<or> idx + delta < 0 \<or> len \<le> idx + delta then Some ed
         else
           let at_present = (jump_idx w = length (jumps w));
               js = (if at_present then jumps w @ [here_entry ed] else jumps w);
               i = (if at_present then int (length js) - 1 else idx) + delta
           in if i < 0 \<or> int (length js) \<le> i then None
              else Some (jump_to_entry valid settle (js ! nat i)
                (ed\<lparr>jwin := w\<lparr>jumps := js, jump_idx := nat i, jump_gen := jump_gen w + 1\<rparr>\<rparr>)))"

definition jump_back where
  "jump_back opn valid settle n ed = jump_nav valid settle True n (materialize_pending_jumplist opn ed)"

definition jump_forward where
  "jump_forward opn valid settle n ed = jump_nav valid settle False n (materialize_pending_jumplist opn ed)"

section \<open>Edits\<close>

text \<open>The loop over the entries: what is kept, and the pointer.\<close>

fun shift_entries ::
  "nat \<Rightarrow> nat \<times> nat \<Rightarrow> nat \<times> nat \<Rightarrow> nat \<times> nat \<Rightarrow> nat \<Rightarrow> nat \<Rightarrow> nat \<Rightarrow> jump_entry list \<Rightarrow> jump_entry list \<times> nat" where
  "shift_entries b s oe ne ptr i idx [] = ([], idx)"
| "shift_entries b s oe ne ptr i idx (e # es) =
     (if jbuf e \<noteq> b then apfst ((#) e) (shift_entries b s oe ne ptr (i + 1) idx es)
      else case shift_point (jline e, jcol e) s oe ne of
          Some (line, col) \<Rightarrow>
            apfst ((#) \<lparr>jbuf = b, jline = line, jcol = col\<rparr>) (shift_entries b s oe ne ptr (i + 1) idx es)
        | None \<Rightarrow> shift_entries b s oe ne ptr (i + 1) (if i < ptr then idx - 1 else idx) es)"

definition shift_window_jumps :: "nat \<Rightarrow> nat \<times> nat \<Rightarrow> nat \<times> nat \<Rightarrow> nat \<times> nat \<Rightarrow> jump_win \<Rightarrow> jump_win" where
  "shift_window_jumps b s oe ne w =
     (if \<not> (\<exists>e \<in> set (jumps w). jbuf e = b) then w
      else case shift_entries b s oe ne (jump_idx w) 0 (jump_idx w) (jumps w) of
        (kept, idx) \<Rightarrow> w\<lparr>jumps := kept, jump_idx := min idx (length kept), jump_gen := jump_gen w + 1\<rparr>)"

text \<open>All windows, those of the live tree and of the parked ones; the journal is drained and returned.\<close>

definition adjust_jumplists_for_buffer :: "nat \<Rightarrow> buf \<Rightarrow> jump_win list \<Rightarrow> buffer_edit list \<times> buf \<times> jump_win list" where
  "adjust_jumplists_for_buffer b bf wins =
     (case take_journal JJump bf of
        (batch, bf') \<Rightarrow>
          (batch_edits batch, bf',
           foldl (\<lambda>ws e. map (shift_window_jumps b (start_point e) (old_end_point e) (new_end_point e)) ws)
             wins (batch_edits batch)))"

section \<open>The change list\<close>

datatype change_nav = ChangelistEmpty | AtStartOfChangelist | AtEndOfChangelist | GotoChange nat

definition change_older :: "nat \<Rightarrow> nat \<Rightarrow> buf \<Rightarrow> change_nav" where
  "change_older cnt line b =
     (let n = max cnt 1; len = length (changelist b); idx = changelistidx b in
      if len = 0 then ChangelistEmpty
      else if idx \<noteq> len \<and> idx = 0 then AtStartOfChangelist
      else let first =
             (if idx = len then
                (let newest = len - 1 in if fst (changelist b ! newest) = line \<and> 0 < newest then newest - 1 else newest)
              else idx - 1)
           in GotoChange (first - (n - 1)))"

definition change_newer :: "nat \<Rightarrow> buf \<Rightarrow> change_nav" where
  "change_newer cnt b =
     (let n = max cnt 1; len = length (changelist b); idx = changelistidx b in
      if len = 0 then ChangelistEmpty
      else if len - 1 \<le> idx then AtEndOfChangelist
      else GotoChange (min (idx + n) (len - 1)))"

definition goto_change :: "(nat \<times> nat \<Rightarrow> nat \<times> nat) \<Rightarrow> nat \<Rightarrow> buf \<Rightarrow> ((nat \<times> nat) \<times> buf) option" where
  "goto_change settle target b =
     (if target < length (changelist b) then Some (settle (changelist b ! target), b\<lparr>changelistidx := target\<rparr>)
      else None)"

end
