(* ===== verification/JumpsProps.thy ===== *)
theory JumpsProps
  imports Jumps
begin

text \<open>
  What the jump list promises: navigation never leaves the list, the pointer keeps its place when edits
  drop entries, and going back and forward again returns. The last section shows the cap that the
  navigation does not keep.
\<close>

section \<open>Edits\<close>

text \<open>What an edit makes of one entry.\<close>

definition shifted :: "nat \<Rightarrow> nat \<times> nat \<Rightarrow> nat \<times> nat \<Rightarrow> nat \<times> nat \<Rightarrow> jump_entry \<Rightarrow> jump_entry option" where
  "shifted b s oe ne e =
     (if jbuf e \<noteq> b then Some e
      else map_option (\<lambda>p. \<lparr>jbuf = b, jline = fst p, jcol = snd p\<rparr>) (shift_point (jline e, jcol e) s oe ne))"

abbreviation survivors where
  "survivors b s oe ne \<equiv> List.map_filter (shifted b s oe ne)"

lemma survivors_simps [simp]:
  "survivors b s oe ne [] = []"
  "survivors b s oe ne (e # es) = (case shifted b s oe ne e of Some e' \<Rightarrow> e' # survivors b s oe ne es | None \<Rightarrow> survivors b s oe ne es)"
  by (auto simp: List.map_filter_def split: option.split)

lemma survivors_append: "survivors b s oe ne (xs @ ys) = survivors b s oe ne xs @ survivors b s oe ne ys"
  by (simp add: List.map_filter_def)

lemma survivors_other: "\<not> (\<exists>e \<in> set es. jbuf e = b) \<Longrightarrow> survivors b s oe ne es = es"
  by (induction es) (auto simp: shifted_def)

lemma survivors_length: "length (survivors b s oe ne es) \<le> length es"
  by (simp add: List.map_filter_def)

lemma shift_entries_spec:
  "shift_entries b s oe ne ptr i idx es =
     (survivors b s oe ne es, idx - (length (take (ptr - i) es) - length (survivors b s oe ne (take (ptr - i) es))))"
proof (induction es arbitrary: i idx)
  case (Cons e es)
  have len: "length (survivors b s oe ne (take k es)) \<le> length (take k es)" for k by (rule survivors_length)
  show ?case
    using Cons len[of "ptr - Suc i"]
    by (cases "ptr - i") (auto simp: shifted_def[of b s oe ne e] Suc_diff_Suc diff_Suc split: option.split nat.splits)
qed simp

lemma shift_window_jumps_spec:
  assumes "jump_idx w \<le> length (jumps w)"
  shows "jumps (shift_window_jumps b s oe ne w) = survivors b s oe ne (jumps w)"
    and "jump_idx (shift_window_jumps b s oe ne w) = length (survivors b s oe ne (take (jump_idx w) (jumps w)))"
proof -
  let ?l = "take (jump_idx w) (jumps w)"
  have "survivors b s oe ne (jumps w) = survivors b s oe ne ?l @ survivors b s oe ne (drop (jump_idx w) (jumps w))"
    by (simp flip: survivors_append)
  moreover have "length (survivors b s oe ne ?l) \<le> length ?l" by (rule survivors_length)
  moreover have "survivors b s oe ne ?l = ?l" if "\<not> (\<exists>e \<in> set (jumps w). jbuf e = b)"
    using that by (intro survivors_other) (auto dest: in_set_takeD)
  ultimately show "jumps (shift_window_jumps b s oe ne w) = survivors b s oe ne (jumps w)"
    and "jump_idx (shift_window_jumps b s oe ne w) = length (survivors b s oe ne ?l)"
    using assms by (auto simp: shift_window_jumps_def shift_entries_spec survivors_other)
qed

text \<open>C32. The pointer of a jump list keeps its place in the history. Adjusting every window to an edit moves
  each entry of the buffer with its text and drops those whose line the edit deleted, in order, and the
  entries before the pointer afterwards are exactly the survivors of those before it, so that the next
  older and the next newer jump are the same as before wherever they survive.\<close>

theorem jump_list_follows_edits:
  fixes s oe ne :: "nat \<times> nat"
  assumes "jump_idx w \<le> length (jumps w)"
  shows "let w' = shift_window_jumps b s oe ne w in
    take (jump_idx w') (jumps w') = survivors b s oe ne (take (jump_idx w) (jumps w)) \<and>
    drop (jump_idx w') (jumps w') = survivors b s oe ne (drop (jump_idx w) (jumps w)) \<and>
    jump_idx w' \<le> length (jumps w')"
proof -
  have "survivors b s oe ne (jumps w) =
      survivors b s oe ne (take (jump_idx w) (jumps w)) @ survivors b s oe ne (drop (jump_idx w) (jumps w))"
    by (simp flip: survivors_append)
  then show ?thesis using shift_window_jumps_spec[OF assms(1)] by (simp add: Let_def)
qed

text \<open>Three jumps, the pointer on the last; the line of the first is deleted.\<close>

theorem jump_list_follows_edits_witness:
  defines "w \<equiv> \<lparr>jumps = [\<lparr>jbuf = 1, jline = 2, jcol = 0\<rparr>, \<lparr>jbuf = 2, jline = 2, jcol = 0\<rparr>, \<lparr>jbuf = 1, jline = 5, jcol = 3\<rparr>],
      jump_idx = 2, jump_gen = 0\<rparr>"
  shows "drop (jump_idx (shift_window_jumps 1 (2, 0) (3, 0) (2, 0) w)) (jumps (shift_window_jumps 1 (2, 0) (3, 0) (2, 0) w)) =
    [\<lparr>jbuf = 1, jline = 4, jcol = 3\<rparr>]"
  using jump_list_follows_edits[of w 1 "(2, 0)" "(3, 0)" "(2, 0)"]
  by (simp add: w_def shifted_def shift_point_def before_def Let_def)

section \<open>Navigation\<close>

definition jump_inv :: "jump_ed \<Rightarrow> bool" where
  "jump_inv ed \<longleftrightarrow> jump_idx (jwin ed) \<le> length (jumps (jwin ed))"

lemma materialize_inv: "jump_inv ed \<Longrightarrow> jump_inv (materialize_pending_jumplist opn ed)"
  by (simp add: materialize_pending_jumplist_def jump_inv_def Let_def)

lemma push_inv: "jump_inv (push_jump_entry e ed)"
  by (simp add: jump_inv_def push_jump_entry_def Let_def)

lemma jump_to_entry_win [simp]: "jwin (jump_to_entry valid settle e ed) = jwin ed"
  by (simp add: jump_to_entry_def)

lemma jump_nav_total:
  assumes "jump_inv ed"
  shows "\<exists>ed'. jump_nav valid settle older n ed = Some ed' \<and> jump_inv ed'"
proof -
  let ?l = "length (jumps (jwin ed))" and ?i = "jump_idx (jwin ed)"
  let ?d = "if older then - int (max n 1) else int (max n 1)"
  have "?i \<le> ?l" using assms by (simp add: jump_inv_def)
  then show ?thesis
    using assms by (cases "?l = 0 \<or> int ?i + ?d < 0 \<or> int ?l \<le> int ?i + ?d"; cases "?i = ?l")
      (auto simp: jump_nav_def Let_def jump_inv_def nat_less_iff)
qed

datatype jump_op = JPush | JPushEntry jump_entry | JBack nat | JForward nat | JEdit nat "nat \<times> nat" "nat \<times> nat" "nat \<times> nat"
  | JMove nat "nat \<times> nat" | JRestore "(ustring \<times> nat \<times> nat) list"

fun jump_step where
  "jump_step opn valid settle ed JPush = Some (push_jump ed)"
| "jump_step opn valid settle ed (JPushEntry e) = Some (push_jump_entry e ed)"
| "jump_step opn valid settle ed (JBack n) = jump_back opn valid settle n ed"
| "jump_step opn valid settle ed (JForward n) = jump_forward opn valid settle n ed"
| "jump_step opn valid settle ed (JEdit b s oe ne) = Some (ed\<lparr>jwin := shift_window_jumps b s oe ne (jwin ed)\<rparr>)"
| "jump_step opn valid settle ed (JMove b p) = Some (ed\<lparr>cur_buffer := b, jcursor := p\<rparr>)"
| "jump_step opn valid settle ed (JRestore js) = Some (ed\<lparr>pending_jumplist := js\<rparr>)"

interpretation jl: partial_system "jump_step opn valid settle" jump_inv for opn valid settle
proof
  fix ed op assume inv: "jump_inv ed"
  show "\<exists>ed'. jump_step opn valid settle ed op = Some ed' \<and> jump_inv ed'"
  proof (cases op)
    case (JEdit b s oe ne)
    have "length (survivors b s oe ne (take k es)) \<le> length (survivors b s oe ne es)" for k es
      by (metis append_take_drop_id length_append le_add1 survivors_append)
    then show ?thesis using inv JEdit by (simp add: jump_inv_def shift_window_jumps_spec)
  next
    case (JBack n)
    then show ?thesis using jump_nav_total[OF materialize_inv[OF inv]] by (simp add: jump_back_def)
  next
    case (JForward n)
    then show ?thesis using jump_nav_total[OF materialize_inv[OF inv]] by (simp add: jump_forward_def)
  qed (use inv in \<open>auto simp: push_jump_def push_inv\<close>, auto simp: jump_inv_def)
qed

text \<open>No sequence of jumps, navigation, edits, moves and restores takes the navigation outside the list: it
  always returns, and the pointer stays within the list or just past it.\<close>

theorem jumps_stay_in_list:
  assumes "jump_inv ed"
  shows "\<exists>ed'. run_ops (jump_step opn valid settle) ed ops = Some ed' \<and> jump_idx (jwin ed') \<le> length (jumps (jwin ed'))"
  using jl.run_total[OF assms] by (simp add: jump_inv_def)

definition at_start :: jump_ed where
  "at_start = \<lparr>jwin = \<lparr>jumps = [], jump_idx = 0, jump_gen = 0\<rparr>, cur_buffer = 1, jcursor = (0, 0), pending_jumplist = []\<rparr>"

theorem jumps_stay_in_list_witness:
  "\<exists>ed'. run_ops (jump_step (\<lambda>_. None) (\<lambda>_. True) (\<lambda>_ p. p)) at_start [JPush, JMove 1 (7, 0), JBack 1, JForward 3] = Some ed' \<and>
     jump_idx (jwin ed') \<le> length (jumps (jwin ed'))"
  by (rule jumps_stay_in_list) (simp add: jump_inv_def at_start_def)

text \<open>C33. Going back and forward again returns. From the present, \<open>n\<close> steps back land on the \<open>n\<close>-th newest jump (if
  its buffer still exists), and \<open>n\<close> steps forward then return to the buffer and position left, if that is a
  position of the text.\<close>

theorem back_then_forward:
  assumes p: "pending_jumplist ed = []" "jump_idx (jwin ed) = length (jumps (jwin ed))"
    and n: "0 < n" "n \<le> length (jumps (jwin ed))"
    and here: "valid (cur_buffer ed)" "settle (cur_buffer ed) (jcursor ed) = jcursor ed"
  shows "\<exists>ed1 ed2. jump_back opn valid settle n ed = Some ed1 \<and> jump_forward opn valid settle n ed1 = Some ed2 \<and>
    (let t = jumps (jwin ed) ! (length (jumps (jwin ed)) - n) in
       valid (jbuf t) \<longrightarrow> cur_buffer ed1 = jbuf t \<and> jcursor ed1 = settle (jbuf t) (jline t, jcol t)) \<and>
    cur_buffer ed2 = cur_buffer ed \<and> jcursor ed2 = jcursor ed \<and> jumps (jwin ed2) = jumps (jwin ed) @ [here_entry ed]"
proof -
  let ?l = "length (jumps (jwin ed))"
  let ?w = "(jwin ed)\<lparr>jumps := jumps (jwin ed) @ [here_entry ed], jump_idx := ?l - n, jump_gen := jump_gen (jwin ed) + 1\<rparr>"
  let ?ed1 = "jump_to_entry valid settle (jumps (jwin ed) ! (?l - n)) (ed\<lparr>jwin := ?w\<rparr>)"
  have went: "jump_back opn valid settle n ed = Some ?ed1"
    using p n by (auto simp: jump_back_def materialize_pending_jumplist_def jump_nav_def Let_def nth_append of_nat_diff nat_diff_distrib')
  have "pending_jumplist ?ed1 = []" "jwin ?ed1 = ?w" using p by (auto simp: jump_to_entry_def)
  then obtain ed2 where "jump_forward opn valid settle n ?ed1 = Some ed2"
    "ed2 = jump_to_entry valid settle (here_entry ed) (?ed1\<lparr>jwin := ?w\<lparr>jump_idx := ?l, jump_gen := jump_gen ?w + 1\<rparr>\<rparr>)"
    using n by (auto simp: jump_forward_def materialize_pending_jumplist_def jump_nav_def Let_def of_nat_diff)
  then show ?thesis using went here
    by (intro exI[of _ ?ed1] exI[of _ ed2]) (auto simp: jump_to_entry_def here_entry_def Let_def)
qed

definition jumped :: jump_ed where
  "jumped = \<lparr>jwin = \<lparr>jumps = [\<lparr>jbuf = 1, jline = 4, jcol = 0\<rparr>, \<lparr>jbuf = 2, jline = 8, jcol = 1\<rparr>], jump_idx = 2, jump_gen = 2\<rparr>,
     cur_buffer = 1, jcursor = (9, 2), pending_jumplist = []\<rparr>"

theorem back_then_forward_witness:
  "\<exists>ed1 ed2. jump_back (\<lambda>_. None) (\<lambda>_. True) (\<lambda>_ p. p) 2 jumped = Some ed1 \<and> jcursor ed1 = (4, 0) \<and>
     jump_forward (\<lambda>_. None) (\<lambda>_. True) (\<lambda>_ p. p) 2 ed1 = Some ed2 \<and> jcursor ed2 = (9, 2)"
  using back_then_forward[of jumped 2 "\<lambda>_. True" "\<lambda>_ p. p" "\<lambda>_. None"] by (fastforce simp: jumped_def Let_def)

section \<open>The change list\<close>

text \<open>Change-list navigation never leaves the list: an older or newer step that moves names a change of the
  list, older steps strictly lower the pointer and newer ones strictly raise it, and after a step to an
  older change that was not cut short at the oldest the same count of newer steps returns.\<close>

theorem change_navigation:
  assumes idx: "changelistidx b \<le> length (changelist b)"
  shows "(change_older n line b = GotoChange k \<longrightarrow> k < changelistidx b \<and> (\<exists>r. goto_change settle k b = Some r)) \<and>
    (change_newer n b = GotoChange k \<longrightarrow> changelistidx b < k \<and> (\<exists>r. goto_change settle k b = Some r)) \<and>
    (changelistidx b < length (changelist b) \<and> 0 < n \<and> n \<le> changelistidx b \<longrightarrow>
       change_older n line b = GotoChange (changelistidx b - n) \<and>
       change_newer n (b\<lparr>changelistidx := changelistidx b - n\<rparr>) = GotoChange (changelistidx b))"
  using idx by (auto simp: change_older_def change_newer_def goto_change_def Let_def max_def split: if_splits)

theorem change_navigation_witness:
  defines "b \<equiv> \<lparr>btext = [10], marks_of = (\<lambda>_. None), changelist = [(0, 0), (3, 1), (5, 2)], changelistidx = 2, change_span = None,
     changedtick = 0, modified = False, journals = (\<lambda>_. \<lparr>batch_edits = [], batch_resync = False\<rparr>),
     ext_marks = (0, \<lparr>by_ns = [], generation = 0, virt_lines_marks = 0, gutter_widths = [], next_serial = 0, index = None\<rparr>)\<rparr>"
  shows "change_older 2 9 b = GotoChange 0 \<and> change_newer 2 (b\<lparr>changelistidx := 0\<rparr>) = GotoChange 2"
  using change_navigation[of b 2 9 0 "\<lambda>p. p"] by (simp add: b_def)

section \<open>The cap\<close>

text \<open>Going back from the present appends where the cursor is without the cap, and the next jump takes off
  one entry only: a full list grows by one with every jump followed by a step back.\<close>

lemma jumplist_exceeds_cap:
  assumes "pending_jumplist ed = []" "JUMPLIST_SIZE \<le> length (jumps (jwin ed))"
    and "\<forall>e \<in> set (jumps (jwin ed)). \<not> (jbuf e = cur_buffer ed \<and> jline e = fst (jcursor ed))"
  shows "\<exists>ed'. jump_back opn valid settle 1 (push_jump ed) = Some ed' \<and>
    length (jumps (jwin ed')) = length (jumps (jwin ed)) + 1"
proof -
  have f: "filter (\<lambda>x. jbuf x = cur_buffer ed \<longrightarrow> jline x \<noteq> fst (jcursor ed)) (jumps (jwin ed)) = jumps (jwin ed)"
    using assms(3) by (simp add: filter_id_conv)
  have "length (jumps (jwin ed)) \<noteq> 0" using assms(2) unfolding JUMPLIST_SIZE_def by linarith
  then show ?thesis using assms(1,2)
    by (auto simp: jump_back_def push_jump_def push_jump_entry_def here_entry_def f materialize_pending_jumplist_def
        jump_nav_def Let_def)
qed

end
