(* ===== verification/Fold_Cache.thy ===== *)
theory Fold_Cache
  imports Buffer_Edit Fold_Levels
begin

text \<open>
  The cache of the computed folds (\<open>crates/bemtvi-core/src/editor/fold.rs\<close>): one value per line, derived from
  its text and spliced from the edit journal instead of derived anew, and the lines of the buffer it
  reads (\<open>buffer.rs\<close>). The rope's line index is an argument, as is the decoding \<open>dec\<close> of a line's bytes; the
  compiled \<open>'foldexpr'\<close> is the function \<open>ev\<close> of a line's text and number.
\<close>

section \<open>Lines of the rope\<close>

definition line_count :: "rope_lines \<Rightarrow> byte list \<Rightarrow> nat" where
  "line_count rl t = byte_to_line_idx rl t (length t)"

definition rope_line :: "rope_lines \<Rightarrow> byte list \<Rightarrow> nat \<Rightarrow> byte list" where
  "rope_line rl t i = take (line_to_byte_idx rl t (i + 1) - line_to_byte_idx rl t i) (drop (line_to_byte_idx rl t i) t)"

definition strip_eol :: "byte list \<Rightarrow> byte list" where
  "strip_eol s =
     (if s \<noteq> [] \<and> last s = 10 then
        (let r = butlast s in if r \<noteq> [] \<and> last r = 13 then butlast r else r)
      else s)"

definition line_cow :: "rope_lines \<Rightarrow> (byte list \<Rightarrow> ustring) \<Rightarrow> byte list \<Rightarrow> nat \<Rightarrow> ustring" where
  "line_cow rl dec t i = (if line_count rl t \<le> i then [] else dec (strip_eol (rope_line rl t i)))"

section \<open>The cached values\<close>

datatype fold_input_params = FpIndent nat | FpMarker ustring ustring | FpExpr ustring

datatype fold_values =
    FvIndent "nat option list"
  | FvMarker "marker_tok list option list"
  | FvExpr "ustring option list"

fun values_len :: "fold_values \<Rightarrow> nat" where
  "values_len (FvIndent v) = length v"
| "values_len (FvMarker v) = length v"
| "values_len (FvExpr v) = length v"

text \<open>\<open>Vec::splice\<close> of the range \<open>[start, old_end)\<close>.\<close>

definition vec_splice :: "nat \<Rightarrow> nat \<Rightarrow> 'a list \<Rightarrow> 'a list \<Rightarrow> 'a list" where
  "vec_splice start old_end fresh v = take start v @ fresh @ drop old_end v"

fun splice_values ::
  "rope_lines \<Rightarrow> (byte list \<Rightarrow> ustring) \<Rightarrow> byte list \<Rightarrow> fold_input_params \<Rightarrow> nat \<Rightarrow> nat \<Rightarrow> nat \<Rightarrow> fold_values \<Rightarrow> fold_values" where
  "splice_values rl dec t (FpIndent ts) s oe ne (FvIndent v) =
     FvIndent (vec_splice s oe (map (\<lambda>i. indent_cols_of (line_cow rl dec t i) ts) [s..<ne]) v)"
| "splice_values rl dec t (FpMarker opn cls) s oe ne (FvMarker v) =
     FvMarker (vec_splice s oe (map (\<lambda>i. marker_toks_of (line_cow rl dec t i) opn cls) [s..<ne]) v)"
| "splice_values rl dec t (FpExpr e) s oe ne (FvExpr v) = FvExpr (vec_splice s oe (map (\<lambda>_. None) [s..<ne]) v)"
| "splice_values rl dec t _ s oe ne v = v"

fun build_values :: "rope_lines \<Rightarrow> (byte list \<Rightarrow> ustring) \<Rightarrow> byte list \<Rightarrow> fold_input_params \<Rightarrow> fold_values" where
  "build_values rl dec t (FpIndent ts) =
     FvIndent (map (\<lambda>i. indent_cols_of (line_cow rl dec t i) ts) [0..<line_count rl t])"
| "build_values rl dec t (FpMarker opn cls) =
     FvMarker (map (\<lambda>i. marker_toks_of (line_cow rl dec t i) opn cls) [0..<line_count rl t])"
| "build_values rl dec t (FpExpr e) = FvExpr (replicate (line_count rl t) None)"

record fold_inputs =
  fi_tick :: nat
  fi_params :: fold_input_params
  fi_lines :: fold_values

definition sync_fold_inputs ::
  "rope_lines \<Rightarrow> (byte list \<Rightarrow> ustring) \<Rightarrow> fold_input_params \<Rightarrow> buf \<times> fold_inputs option \<Rightarrow> buf \<times> fold_inputs option" where
  "sync_fold_inputs rl dec params st =
     (case st of (b0, cached) \<Rightarrow>
        case take_journal JFold b0 of (batch, b) \<Rightarrow>
        let t = btext b;
            rebuild = (b, Some \<lparr>fi_tick = changedtick b, fi_params = params, fi_lines = build_values rl dec t params\<rparr>)
        in case cached of
             None \<Rightarrow> rebuild
           | Some c \<Rightarrow>
               if fi_params c = params \<and> \<not> batch_resync batch then
                 (if fi_tick c = changedtick b \<and> batch_edits batch = [] then (b, Some c)
                  else case fold_edit_rows (batch_edits batch) of
                      None \<Rightarrow> rebuild
                    | Some (s, oe, ne) \<Rightarrow>
                        let n = values_len (fi_lines c) in
                        if n < s \<or> n < oe then rebuild
                        else let l = splice_values rl dec t params s (min (oe + 1) n) (ne + 1) (fi_lines c) in
                          if values_len l \<noteq> line_count rl t then rebuild
                          else (b, Some \<lparr>fi_tick = changedtick b, fi_params = params, fi_lines = l\<rparr>))
               else rebuild)"

text \<open>The unevaluated rows of a \<open>'foldexpr'\<close>: the expression sees the row's text and its number from 1. An
  empty expression, one that does not compile (\<open>None\<close>) and a failing row leave them all at level 0.\<close>

definition fill_foldexpr_holes ::
  "ustring \<Rightarrow> (ustring \<Rightarrow> nat \<Rightarrow> ustring option) option \<Rightarrow> (nat \<Rightarrow> ustring) \<Rightarrow> ustring option list \<Rightarrow> ustring option list" where
  "fill_foldexpr_holes expr ev line v =
     (let holes = filter (\<lambda>i. v ! i = None) [0..<length v];
          out = (if trim expr = [] then None
                 else case ev of
                     None \<Rightarrow> None
                   | Some f \<Rightarrow> if \<exists>i \<in> set holes. f (line i) (i + 1) = None then None
                       else Some (\<lambda>i. f (line i) (i + 1)))
      in map (\<lambda>i. if v ! i = None then (case out of None \<Rightarrow> Some (us ''0'') | Some g \<Rightarrow> g i) else v ! i) [0..<length v])"

end
