(* ===== verification/Fold_CacheProps.thy ===== *)
theory Fold_CacheProps
  imports Fold_Cache Buffer_EditProps
begin

text \<open>
  The spliced cache is the rebuilt one: whatever edits, reloads and drains come between two
  synchronizations, the values of the indent and marker folds are those derived from the text as it is.
  A line ends where the rope's index says: after \<open>\n\<close>, \<open>\r\n\<close> or a \<open>\r\<close> on its own, which the text of a
  file with mixed line breaks holds and which can be typed. The edits covered are those that neither cut
  a \<open>\r\n\<close> in two nor bring a \<open>\r\<close> and a \<open>\n\<close> together; the last section shows the cache going stale
  on two that do.
\<close>

section \<open>Rows\<close>

text \<open>A break after the byte \<open>c\<close> with \<open>t\<close> behind it, and the rows of a text, their breaks included.\<close>

definition ends_row :: "byte \<Rightarrow> byte list \<Rightarrow> bool" where
  "ends_row c t \<longleftrightarrow> c = 10 \<or> c = 13 \<and> \<not> (t \<noteq> [] \<and> hd t = 10)"

fun rows :: "byte list \<Rightarrow> byte list list" where
  "rows [] = [[]]"
| "rows (c # t) =
     (if ends_row c t then [c] # rows t
      else (case rows t of [] \<Rightarrow> [[c]] | r # rs \<Rightarrow> (c # r) # rs))"

definition row_of :: "byte list \<Rightarrow> nat \<Rightarrow> nat" where
  "row_of t p = length (breaks t p)"

lemma rows_nonempty [simp]: "rows t \<noteq> []"
  by (cases t) (auto split: list.split)

lemma rows_append:
  "\<not> (x \<noteq> [] \<and> last x = 13 \<and> y \<noteq> [] \<and> hd y = 10) \<Longrightarrow>
   rows (x @ y) = butlast (rows x) @ (last (rows x) @ hd (rows y)) # tl (rows y)"
proof (induction x)
  case Nil
  then show ?case by (cases "rows y") auto
next
  case (Cons c x)
  have e: "ends_row c (x @ y) \<longleftrightarrow> ends_row c x"
    using Cons.prems by (cases x) (auto simp: ends_row_def)
  have "\<not> (x \<noteq> [] \<and> last x = 13 \<and> y \<noteq> [] \<and> hd y = 10)" using Cons.prems by (auto split: if_splits)
  note IH = Cons.IH[OF this]
  obtain r rs where r: "rows x = r # rs" by (cases "rows x") auto
  then show ?case using IH e by (cases rs) auto
qed

lemma break_Cons: "is_break (c # t) (Suc p) \<longleftrightarrow> (if p = 0 then ends_row c t else is_break t p)"
  by (cases p) (auto simp: is_break_def ends_row_def hd_conv_nth nth_Cons')

lemma breaks_Cons: "breaks (c # t) (Suc p) = (if ends_row c t then [1] else []) @ map Suc (breaks t p)"
  by (induction p) (auto simp: break_Cons)

lemma rows_length: "length (rows t) = Suc (row_of t (length t))"
proof (induction t)
  case (Cons c t)
  then show ?case by (cases "rows t") (auto simp: row_of_def breaks_Cons simp del: breaks_Suc)
qed (simp add: row_of_def)

text \<open>A place that is not inside a \<open>\r\n\<close>.\<close>

definition apart :: "byte list \<Rightarrow> nat \<Rightarrow> bool" where
  "apart t p \<longleftrightarrow> \<not> crlf_at t p p"

lemma apart_append:
  "apart (x @ y) (length x) \<longleftrightarrow> \<not> (x \<noteq> [] \<and> last x = 13 \<and> y \<noteq> [] \<and> hd y = 10)"
  by (cases x rule: rev_cases; cases y) (auto simp: apart_def crlf_at_def nth_append)

lemma row_of_append: "apart (x @ y) (length x) \<Longrightarrow> row_of (x @ y) (length x) = row_of x (length x)"
proof (cases x rule: rev_cases)
  case (snoc z c)
  assume a: "apart (x @ y) (length x)"
  have "breaks (x @ y) (length z) = breaks x (length z)"
    using breaks_prefix[of "length z" "length x" x y] snoc by simp
  moreover have "is_break (x @ y) (length x) \<longleftrightarrow> is_break x (length x)"
    using a snoc by (auto simp: is_break_def apart_def crlf_at_def nth_append)
  ultimately show ?thesis using snoc by (simp add: row_of_def)
qed (simp add: row_of_def)

lemma rows_around:
  assumes "apart (x @ y) (length x)"
  shows "take (row_of (x @ y) (length x)) (rows (x @ y)) = butlast (rows x)"
    and "drop (row_of (x @ y) (length x) + 1) (rows (x @ y)) = tl (rows y)"
    and "row_of (x @ y) (length x) < length (rows (x @ y))"
proof -
  have r: "rows (x @ y) = butlast (rows x) @ (last (rows x) @ hd (rows y)) # tl (rows y)"
    using rows_append assms[unfolded apart_append] .
  have "length (butlast (rows x)) = row_of (x @ y) (length x)"
    using row_of_append[OF assms] rows_length[of x] by simp
  then show "take (row_of (x @ y) (length x)) (rows (x @ y)) = butlast (rows x)"
    and "drop (row_of (x @ y) (length x) + 1) (rows (x @ y)) = tl (rows y)"
    and "row_of (x @ y) (length x) < length (rows (x @ y))"
    unfolding r by simp_all
qed

lemma row_of_mono: "p \<le> q \<Longrightarrow> row_of t p \<le> row_of t q"
  using breaks_mono[of p q t] by (auto simp: row_of_def)

text \<open>\<open>R'\<close> is \<open>R\<close> with the rows from \<open>s\<close> to \<open>oe\<close> replaced by those from \<open>s\<close> to \<open>ne\<close>.\<close>

definition rows_span :: "'a list \<Rightarrow> nat \<Rightarrow> nat \<Rightarrow> nat \<Rightarrow> 'a list \<Rightarrow> bool" where
  "rows_span R s oe ne R' \<longleftrightarrow> s \<le> oe \<and> oe < length R \<and> s \<le> ne \<and> ne < length R' \<and>
     take s R' = take s R \<and> drop (ne + 1) R' = drop (oe + 1) R"

text \<open>An edit that neither cuts nor makes a \<open>\r\n\<close>.\<close>

definition keeps_crlf :: "byte list \<Rightarrow> nat \<Rightarrow> nat \<Rightarrow> byte list \<Rightarrow> bool" where
  "keeps_crlf t a b u \<longleftrightarrow>
     (let t' = take a t @ u @ drop b t in apart t a \<and> apart t b \<and> apart t' a \<and> apart t' (a + length u))"

lemma edit_rows:
  assumes "a \<le> b" "b \<le> length t" and k: "keeps_crlf t a b u"
  shows "rows_span (rows t) (row_of t a) (row_of t b) (row_of (take a t @ u @ drop b t) (a + length u)) (rows (take a t @ u @ drop b t))"
proof -
  let ?t = "take a t @ u @ drop b t"
  have lens: "length (take a t) = a" "length (take b t) = b" "length (take a t @ u) = a + length u"
    using assms(1,2) by simp_all
  have ap: "apart t a" "apart t b" "apart ?t a" "apart ?t (a + length u)" using k by (simp_all add: keeps_crlf_def Let_def)
  note at_a = rows_around[of "take a t" "drop a t", unfolded append_take_drop_id lens, OF ap(1)]
  note at_b = rows_around[of "take b t" "drop b t", unfolded append_take_drop_id lens, OF ap(2)]
  note new_a = rows_around[of "take a t" "u @ drop b t", unfolded lens, OF ap(3)]
  note new_b = rows_around[of "take a t @ u" "drop b t", unfolded lens append.assoc, OF ap(4)]
  have "row_of ?t a = row_of t a"
    using row_of_append[of "take a t" "drop a t"] row_of_append[of "take a t" "u @ drop b t"] lens ap by simp
  moreover have "row_of ?t a \<le> row_of ?t (a + length u)" by (rule row_of_mono) simp
  ultimately show ?thesis
    using at_a at_b new_a new_b row_of_mono[OF assms(1), of t] by (simp add: rows_span_def)
qed

lemma rows_span_trans:
  assumes 1: "rows_span R s oe ne R'" and 2: "rows_span R' a b c R''" and f: "ne \<le> a"
  shows "rows_span R s (b - ne + oe) c R''"
proof -
  have "take s R'' = take s (take a R'')" using 1 f by (simp add: rows_span_def min_def)
  also have "\<dots> = take s R'" using 1 2 f by (simp add: rows_span_def min_def)
  finally have "take s R'' = take s R" using 1 by (simp add: rows_span_def)
  moreover have "drop (c + 1) R'' = drop (b - ne + oe + 1) R"
  proof -
    have "drop (c + 1) R'' = drop (b + 1) R'" using 2 by (simp add: rows_span_def)
    also have "\<dots> = drop (b - ne) (drop (ne + 1) R')" using 2 f by (simp add: rows_span_def)
    also have "drop (ne + 1) R' = drop (oe + 1) R" using 1 by (simp add: rows_span_def)
    finally show ?thesis by (simp add: add.assoc)
  qed
  moreover have "length R' - (ne + 1) = length R - (oe + 1)" using 1 unfolding rows_span_def by (metis length_drop)
  ultimately show ?thesis using 1 2 f by (auto simp: rows_span_def)
qed

section \<open>Lines\<close>

lemma rows_prefix:
  assumes "i < length (rows t)"
  shows "(let x = concat (take i (rows t)) in
     (\<exists>y. t = x @ y) \<and> length (breaks t (length x)) = i \<and> (x = [] \<or> is_break t (length x)))"
  using assms
proof (induction t arbitrary: i)
  case (Cons c t)
  obtain r rs where r: "rows t = r # rs" by (cases "rows t") auto
  show ?case
  proof (cases i)
    case (Suc j)
    let ?i = "if ends_row c t then j else i"
    let ?x = "concat (take ?i (rows t))"
    have x: "concat (take i (rows (c # t))) = c # ?x" using Suc r by simp
    have "?i < length (rows t)" using Cons.prems Suc r by (simp split: if_splits)
    note IH = Cons.IH[OF this, unfolded Let_def]
    have "?x \<noteq> []" if "\<not> ends_row c t"
    proof
      assume "?x = []"
      then have "breaks t (length ?x) = []" by (simp only: list.size breaks_0)
      then show False using IH that Suc by (simp del: concat_eq_Nil_conv)
    qed
    then show ?thesis using IH Suc unfolding x Let_def by (auto simp: breaks_Cons break_Cons simp del: breaks_Suc)
  qed simp
qed simp

lemma line_start:
  assumes "lf_cr_index rl" "i < length (rows t)"
  shows "line_to_byte_idx rl t i = length (concat (take i (rows t)))"
proof -
  let ?x = "concat (take i (rows t))"
  from rows_prefix[OF assms(2)] obtain y where
    p: "t = ?x @ y" "length (breaks t (length ?x)) = i" "?x = [] \<or> is_break t (length ?x)"
    unfolding Let_def by blast
  have "length ?x \<le> length t" using arg_cong[OF p(1), of length] by simp
  then have "line_to_byte_idx rl t i = last (0 # breaks t (length ?x))"
    using assms(1) p(2) unfolding lf_cr_index_def by metis
  also have "\<dots> = length ?x"
  proof (cases "length ?x")
    case (Suc k)
    then have "is_break t (Suc k)" using p(3) by (metis length_0_conv nat.distinct(1))
    then show ?thesis unfolding Suc by simp
  next
    case 0
    show ?thesis unfolding 0 by simp
  qed
  finally show ?thesis .
qed

lemma line_count_rows: "lf_cr_index rl \<Longrightarrow> line_count rl t = length (rows t) - 1"
  by (simp add: line_count_def lf_cr_index_def rows_length row_of_def)

lemma rope_line_rows:
  assumes "lf_cr_index rl" "i < line_count rl t"
  shows "rope_line rl t i = rows t ! i"
proof -
  have i: "i < length (rows t)" "i + 1 < length (rows t)" using assms line_count_rows[of rl t] by auto
  have "take (i + 1) (rows t) = take i (rows t) @ [rows t ! i]" using i by (simp add: take_Suc_conv_app_nth)
  moreover from rows_prefix[OF i(2)] obtain y where "t = concat (take (i + 1) (rows t)) @ y"
    unfolding Let_def by blast
  ultimately have t: "t = concat (take i (rows t)) @ rows t ! i @ y" by simp
  have n: "line_to_byte_idx rl t (i + 1) = length (concat (take i (rows t))) + length (rows t ! i)"
    using line_start[OF assms(1) i(2)] \<open>take (i + 1) (rows t) = _\<close> by simp
  show ?thesis
    unfolding rope_line_def n line_start[OF assms(1) i(1)] by (subst (3) t) simp
qed

lemma line_cow_rows:
  "lf_cr_index rl \<Longrightarrow> i < line_count rl t \<Longrightarrow> line_cow rl dec t i = dec (strip_eol (rows t ! i))"
  by (simp add: line_cow_def rope_line_rows)

lemma build_rows:
  assumes "lf_cr_index rl"
  shows "map (\<lambda>i. f (line_cow rl dec t i)) [0..<line_count rl t] = map (\<lambda>r. f (dec (strip_eol r))) (butlast (rows t))"
  using assms by (auto simp: list_eq_iff_nth_eq line_count_rows line_cow_rows nth_butlast)

section \<open>Splicing\<close>

lemma nth_slice: "s \<le> n \<Longrightarrow> n \<le> length xs \<Longrightarrow> map ((!) xs) [s..<n] = drop s (take n xs)"
  by (simp add: list_eq_iff_nth_eq)

lemma splice_rows:
  assumes sp: "rows_span R s oe ne R'" and v: "v = map g (butlast R)" and oe: "oe \<le> length v"
    and h: "\<And>i. i < length R' - 1 \<Longrightarrow> h i = g (R' ! i)"
    and l: "l = vec_splice s (min (oe + 1) (length v)) (map h [s..<ne + 1]) v" and len: "length l = length R' - 1"
  shows "l = map g (butlast R')"
proof -
  have R: "length v = length R - 1" "s \<le> oe" "s \<le> ne" "ne < length R'" "take s R' = take s R" "drop (ne + 1) R' = drop (oe + 1) R"
    using sp v by (auto simp: rows_span_def)
  have ld: "length R' - (ne + 1) = length R - (oe + 1)" using R(6) by (metis length_drop)
  have oe': "oe < length v"
  proof (rule ccontr)
    assume "\<not> oe < length v"
    then have "length l = ne + 1" "length R' = ne + 1" using R ld oe by (auto simp: l vec_splice_def)
    then show False using len by simp
  qed
  have ne: "ne + 1 \<le> length R' - 1" using ld oe' R(1) by linarith
  have "ne + 2 \<le> length R'" using ne R(4) by linarith
  then obtain k where "length R' = ne + 2 + k" using le_Suc_ex by blast
  then have "butlast R' = take (ne + 1) R' @ butlast (drop (ne + 1) R')"
    using take_add[of "ne + 1" k R'] by (simp add: butlast_conv_take)
  also have "take (ne + 1) R' = take s R' @ drop s (take (ne + 1) R')"
    using R(3) append_take_drop_id[of s "take (ne + 1) R'"] by (simp add: min_def)
  also have "drop s (take (ne + 1) R') = map ((!) R') [s..<ne + 1]" using ne R(3) by (intro nth_slice[symmetric]) auto
  finally have "map g (butlast R') = map g (take s R) @ map (g \<circ> (!) R') [s..<ne + 1] @ map g (butlast (drop (oe + 1) R))"
    using R(5,6) by simp
  moreover have "map (g \<circ> (!) R') [s..<ne + 1] = map h [s..<ne + 1]" using h ne by (intro map_cong) auto
  moreover have "map g (take s R) = take s v" using R(1,2) oe' by (simp add: v butlast_conv_take take_map min_def)
  moreover have "map g (butlast (drop (oe + 1) R)) = drop (oe + 1) v" by (simp add: v drop_map drop_butlast)
  ultimately show ?thesis using oe' by (simp add: l vec_splice_def)
qed

section \<open>Batches\<close>

definition row_edit :: "byte list \<Rightarrow> buffer_edit \<Rightarrow> byte list \<Rightarrow> bool" where
  "row_edit t e t' \<longleftrightarrow> start_byte e \<le> old_end_byte e \<and> old_end_byte e \<le> length t \<and>
     t' = take (start_byte e) t @ edit_text e @ drop (old_end_byte e) t \<and>
     keeps_crlf t (start_byte e) (old_end_byte e) (edit_text e) \<and>
     fst (start_point e) = row_of t (start_byte e) \<and> fst (old_end_point e) = row_of t (old_end_byte e) \<and>
     fst (new_end_point e) = row_of t' (start_byte e + length (edit_text e))"

fun row_edits :: "byte list \<Rightarrow> buffer_edit list \<Rightarrow> byte list \<Rightarrow> bool" where
  "row_edits t [] t' \<longleftrightarrow> t = t'"
| "row_edits t (e # es) t' \<longleftrightarrow> (\<exists>t1. row_edit t e t1 \<and> row_edits t1 es t')"

lemma row_edits_snoc: "row_edits t es t1 \<Longrightarrow> row_edit t1 e t' \<Longrightarrow> row_edits t (es @ [e]) t'"
  by (induction es arbitrary: t) auto

lemma row_edit_span:
  "row_edit t e t' \<Longrightarrow> rows_span (rows t) (fst (start_point e)) (fst (old_end_point e)) (fst (new_end_point e)) (rows t')"
  using edit_rows[of "start_byte e" "old_end_byte e" t "edit_text e"] by (simp add: row_edit_def)

lemma fold_rows_span:
  "row_edits t es t' \<Longrightarrow> rows_span R s oe ne (rows t) \<Longrightarrow> fold_rows_from oe ne (int ne - int oe) es = Some (oe', ne') \<Longrightarrow>
   rows_span R s oe' ne' (rows t')"
proof (induction es arbitrary: t oe ne)
  case (Cons e es)
  then obtain t1 where t1: "row_edit t e t1" "row_edits t1 es t'" by auto
  let ?a = "fst (start_point e)" and ?b = "fst (old_end_point e)" and ?c = "fst (new_end_point e)"
  have a: "ne \<le> ?a" and oe: "0 \<le> int ?b - (int ne - int oe)"
    and f: "fold_rows_from (nat (int ?b - (int ne - int oe))) ?c (int ?c - (int ?b - (int ne - int oe))) es = Some (oe', ne')"
    using Cons.prems(3) by (auto simp: Let_def split: if_splits)
  have sp: "rows_span (rows t) ?a ?b ?c (rows t1)" by (rule row_edit_span[OF t1(1)])
  then have "?a \<le> ?b" by (simp add: rows_span_def)
  then have n: "int ?b - (int ne - int oe) = int (?b - ne + oe)" using a by linarith
  have "fold_rows_from (?b - ne + oe) ?c (int ?c - int (?b - ne + oe)) es = Some (oe', ne')"
    using f unfolding n nat_int .
  then show ?case by (rule Cons.IH[OF t1(2) rows_span_trans[OF Cons.prems(2) sp a]])
qed simp

lemma fold_edit_rows_span:
  assumes "row_edits t es t'" "fold_edit_rows es = Some (s, oe, ne)"
  shows "rows_span (rows t) s oe ne (rows t')"
proof (cases es)
  case (Cons e es')
  then obtain t1 where t1: "row_edit t e t1" "row_edits t1 es' t'" using assms(1) by auto
  then show ?thesis using assms(2) Cons fold_rows_span[OF t1(2) row_edit_span[OF t1(1)]]
    by (auto simp: fold_edit_rows_def Let_def)
qed (use assms(2) in \<open>simp add: fold_edit_rows_def\<close>)

section \<open>The cache\<close>

text \<open>What a cache of values for a text holds: the derived values, or for an expression as many as lines.\<close>

fun values_fit :: "rope_lines \<Rightarrow> (byte list \<Rightarrow> ustring) \<Rightarrow> byte list \<Rightarrow> fold_input_params \<Rightarrow> fold_values \<Rightarrow> bool" where
  "values_fit rl dec t (FpExpr e) l \<longleftrightarrow> (\<exists>v. l = FvExpr v \<and> length v = line_count rl t)"
| "values_fit rl dec t p l \<longleftrightarrow> l = build_values rl dec t p"

lemma build_fits: "values_fit rl dec t p (build_values rl dec t p)"
  by (cases p) auto

lemma spliced_fits:
  assumes rl: "lf_cr_index rl" and l: "values_fit rl dec t p l"
    and sp: "rows_span (rows t) s oe ne (rows t')" and oe: "oe \<le> values_len l"
    and len: "values_len (splice_values rl dec t' p s (min (oe + 1) (values_len l)) (ne + 1) l) = line_count rl t'"
  shows "values_fit rl dec t' p (splice_values rl dec t' p s (min (oe + 1) (values_len l)) (ne + 1) l)"
proof -
  have derived: "vec_splice s (min (oe + 1) (length v)) (map (\<lambda>i. f (line_cow rl dec t' i)) [s..<ne + 1]) v =
      map (\<lambda>i. f (line_cow rl dec t' i)) [0..<line_count rl t']"
    if "v = map (\<lambda>i. f (line_cow rl dec t i)) [0..<line_count rl t]" "oe \<le> length v"
      "length (vec_splice s (min (oe + 1) (length v)) (map (\<lambda>i. f (line_cow rl dec t' i)) [s..<ne + 1]) v) = line_count rl t'" for f v
    unfolding build_rows[OF rl]
  proof (rule splice_rows[OF sp _ that(2) _ refl])
    show "v = map (\<lambda>r. f (dec (strip_eol r))) (butlast (rows t))" by (simp only: that(1) build_rows[OF rl])
    show "f (line_cow rl dec t' i) = f (dec (strip_eol (rows t' ! i)))" if "i < length (rows t') - 1" for i
      using that by (simp add: line_cow_rows[OF rl] line_count_rows[OF rl])
  qed (use that(3) in \<open>simp add: line_count_rows[OF rl]\<close>)
  show ?thesis
  proof (cases p)
    case (FpIndent ts)
    then show ?thesis using l oe len derived[of _ "\<lambda>r. indent_cols_of r ts"] by simp
  next
    case (FpMarker opn cls)
    then show ?thesis using l oe len derived[of _ "\<lambda>r. marker_toks_of r opn cls"] by simp
  next
    case (FpExpr e)
    then show ?thesis using l len by auto
  qed
qed

definition cache_ok :: "rope_lines \<Rightarrow> (byte list \<Rightarrow> ustring) \<Rightarrow> buf \<Rightarrow> fold_inputs \<Rightarrow> bool" where
  "cache_ok rl dec b c \<longleftrightarrow> batch_resync (journals b JFold) \<or>
     (\<exists>t0. values_fit rl dec t0 (fi_params c) (fi_lines c) \<and> row_edits t0 (batch_edits (journals b JFold)) (btext b))"

text \<open>The edits of a buffer and synchronizations. What an edit of the text \<open>t\<close> is assumed to be: no edit that
  cuts or makes a \<open>\r\n\<close>, no newline added by \<open>normalize\<close> behind a final \<open>\r\<close>, and no drain of the fold
  journal by anyone else. A reload is free.\<close>

datatype fold_op = FEdit buf_op | FSync fold_input_params

fun edit_ok :: "byte list \<Rightarrow> buf_op \<Rightarrow> bool" where
  "edit_ok t (BReplace a b u) \<longleftrightarrow> keeps_crlf t a b u"
| "edit_ok t (BInsert a u) \<longleftrightarrow> keeps_crlf t a a u"
| "edit_ok t (BRemove a b) \<longleftrightarrow> keeps_crlf t a b []"
| "edit_ok t BNormalize \<longleftrightarrow> t = [] \<or> last t \<noteq> 13"
| "edit_ok t (BTake j) \<longleftrightarrow> j \<noteq> JFold"
| "edit_ok t _ \<longleftrightarrow> True"

fun edits_ok :: "byte list \<Rightarrow> fold_op list \<Rightarrow> bool" where
  "edits_ok t [] \<longleftrightarrow> True"
| "edits_ok t (FEdit op # ops) \<longleftrightarrow> edit_ok t op \<and> edits_ok (text_step t op) ops"
| "edits_ok t (FSync p # ops) \<longleftrightarrow> edits_ok t ops"

fun fold_step ::
  "rope_lines \<Rightarrow> (byte list \<Rightarrow> ustring) \<Rightarrow> tracked \<times> fold_inputs option \<Rightarrow> fold_op \<Rightarrow> tracked \<times> fold_inputs option" where
  "fold_step rl dec (s, c) (FEdit op) = (buf_step rl s op, c)"
| "fold_step rl dec (s, c) (FSync p) =
     (case sync_fold_inputs rl dec p (the_buf s, c) of (b, c') \<Rightarrow> (s\<lparr>the_buf := b\<rparr>, c'))"

definition fold_inv :: "rope_lines \<Rightarrow> (byte list \<Rightarrow> ustring) \<Rightarrow> tracked \<times> fold_inputs option \<Rightarrow> bool" where
  "fold_inv rl dec st \<longleftrightarrow> (case snd st of None \<Rightarrow> True | Some c \<Rightarrow> cache_ok rl dec (the_buf (fst st)) c)"

lemma sync_exact:
  assumes rl: "lf_cr_index rl" and ok: "\<And>c. cached = Some c \<Longrightarrow> cache_ok rl dec b c"
  shows "\<exists>b' c'. sync_fold_inputs rl dec p (b, cached) = (b', Some c') \<and> btext b' = btext b \<and> fi_params c' = p \<and>
    values_fit rl dec (btext b) p (fi_lines c') \<and> journals b' JFold = \<lparr>batch_edits = [], batch_resync = False\<rparr>"
proof -
  let ?es = "batch_edits (journals b JFold)"
  obtain b1 where tj: "take_journal JFold b = (journals b JFold, b1)" by (simp add: take_journal_def)
  let ?re = "\<lparr>fi_tick = changedtick b1, fi_params = p, fi_lines = build_values rl dec (btext b) p\<rparr>"
  have b: "btext b1 = btext b" "journals b1 JFold = \<lparr>batch_edits = [], batch_resync = False\<rparr>"
    using tj by (auto simp: take_journal_def)
  have sync: "sync_fold_inputs rl dec p (b, cached) =
      (case cached of None \<Rightarrow> (b1, Some ?re)
       | Some c \<Rightarrow> if fi_params c = p \<and> \<not> batch_resync (journals b JFold) then
           (if fi_tick c = changedtick b1 \<and> ?es = [] then (b1, Some c)
            else case fold_edit_rows ?es of None \<Rightarrow> (b1, Some ?re)
              | Some (s, oe, ne) \<Rightarrow>
                  if values_len (fi_lines c) < s \<or> values_len (fi_lines c) < oe then (b1, Some ?re)
                  else if values_len (splice_values rl dec (btext b) p s (min (oe + 1) (values_len (fi_lines c))) (ne + 1) (fi_lines c))
                      \<noteq> line_count rl (btext b) then (b1, Some ?re)
                  else (b1, Some \<lparr>fi_tick = changedtick b1, fi_params = p,
                    fi_lines = splice_values rl dec (btext b) p s (min (oe + 1) (values_len (fi_lines c))) (ne + 1) (fi_lines c)\<rparr>))
         else (b1, Some ?re))"
    unfolding sync_fold_inputs_def prod.case tj Let_def b(1) by (rule refl)
  have done1: ?thesis if "sync_fold_inputs rl dec p (b, cached) = (b1, Some c')" "fi_params c' = p"
    "values_fit rl dec (btext b) p (fi_lines c')" for c' using that b by blast
  have re: ?thesis if "sync_fold_inputs rl dec p (b, cached) = (b1, Some ?re)"
    using done1[OF that] build_fits by simp
  show ?thesis
  proof (cases cached)
    case None
    then show ?thesis by (intro re) (unfold sync, simp)
  next
    case (Some c)
    show ?thesis
    proof (cases "fi_params c = p \<and> \<not> batch_resync (journals b JFold)")
      case False
      show ?thesis by (intro re) (subst sync, simp only: Some option.case if_not_P[OF False])
    next
      case True
      then obtain t0 where t0: "values_fit rl dec t0 p (fi_lines c)" "row_edits t0 ?es (btext b)"
        using ok[OF Some] by (auto simp: cache_ok_def)
      show ?thesis
      proof (cases "fi_tick c = changedtick b1 \<and> ?es = []")
        case True
        then show ?thesis using t0 Some \<open>fi_params c = p \<and> _\<close> by (intro done1[of c]) (unfold sync, auto)
      next
        case fresh: False
        show ?thesis
        proof (cases "fold_edit_rows ?es")
          case None
          then show ?thesis using True fresh Some by (intro re) (unfold sync, auto)
        next
          case span: (Some q)
          obtain s oe ne where q: "q = (s, oe, ne)" by (cases q)
          let ?n = "values_len (fi_lines c)"
          let ?l = "splice_values rl dec (btext b) p s (min (oe + 1) ?n) (ne + 1) (fi_lines c)"
          show ?thesis
          proof (cases "?n < s \<or> ?n < oe \<or> values_len ?l \<noteq> line_count rl (btext b)")
            case True
            then show ?thesis using \<open>fi_params c = p \<and> _\<close> fresh Some span q by (intro re) (unfold sync, auto)
          next
            case False
            then have "values_fit rl dec (btext b) p ?l"
              using spliced_fits[OF rl t0(1) fold_edit_rows_span[OF t0(2)]] span q by simp
            then show ?thesis using False \<open>fi_params c = p \<and> _\<close> fresh Some span q
              by (intro done1[of "\<lparr>fi_tick = changedtick b1, fi_params = p, fi_lines = ?l\<rparr>"]) (unfold sync, auto)
          qed
        qed
      qed
    qed
  qed
qed

lemma cache_ok_cong:
  "btext b' = btext b \<Longrightarrow> journals b' JFold = journals b JFold \<Longrightarrow> cache_ok rl dec b' c = cache_ok rl dec b c"
  by (simp add: cache_ok_def)

text \<open>A tracked edit appends itself to the batch with the rows it touched.\<close>

lemma record_cache:
  assumes rl: "lf_cr_index rl" and k: "keeps_crlf (btext b) p q u" and r: "p \<le> q" "q \<le> length (btext b)"
    and e: "start_byte e = p" "old_end_byte e = q" "edit_text e = u" "start_point e = point_at rl (btext b) p"
      "old_end_point e = point_at rl (btext b) q"
      "u \<noteq> [] \<and> new_end_point e = point_at rl (take p (btext b) @ u @ drop q (btext b)) (p + length u) \<or>
       u = [] \<and> new_end_point e = start_point e"
    and ok: "cache_ok rl dec b c"
  shows "cache_ok rl dec (record_edit e (b\<lparr>btext := take p (btext b) @ u @ drop q (btext b)\<rparr>)) c"
proof -
  let ?t = "take p (btext b) @ u @ drop q (btext b)"
  have row: "fst (point_at rl t x) = row_of t x" if "x \<le> length t" for t x
    using point_at_breaks[OF rl that] by (simp add: row_of_def)
  have "fst (new_end_point e) = row_of ?t (p + length u)"
  proof (cases "u = []")
    case True
    then have "row_of ?t p = row_of (btext b) p"
      using k r row_of_append[of "take p (btext b)" "drop p (btext b)"] row_of_append[of "take p (btext b)" "drop q (btext b)"]
      by (simp add: keeps_crlf_def Let_def)
    then show ?thesis using True e(4,6) r row[of p "btext b"] by simp
  next
    case False
    then show ?thesis using e(6) row[of "p + length u" ?t] r by simp
  qed
  then have "row_edit (btext b) e ?t"
    using r e k by (simp add: row_edit_def row)
  then show ?thesis using ok row_edits_snoc by (fastforce simp: cache_ok_def record_edit_def Let_def push_edit_def)
qed

lemma insert_cache:
  "lf_cr_index rl \<Longrightarrow> keeps_crlf (btext b) p p u \<Longrightarrow> p \<le> length (btext b) \<Longrightarrow> cache_ok rl dec b c \<Longrightarrow>
   cache_ok rl dec (buf_insert rl p u b) c"
  by (auto simp: buf_insert_def Let_def intro!: record_cache)

lemma remove_cache:
  "lf_cr_index rl \<Longrightarrow> keeps_crlf (btext b) p q [] \<Longrightarrow> q \<le> length (btext b) \<Longrightarrow> cache_ok rl dec b c \<Longrightarrow>
   cache_ok rl dec (buf_remove rl p q b) c"
  using record_cache[of rl b p q "[]"] by (auto simp: buf_remove_def Let_def)

lemma replace_cache:
  "lf_cr_index rl \<Longrightarrow> keeps_crlf (btext b) p q u \<Longrightarrow> p \<le> q \<Longrightarrow> q \<le> length (btext b) \<Longrightarrow> cache_ok rl dec b c \<Longrightarrow>
   cache_ok rl dec (buf_replace rl p q u b) c"
  by (auto simp: buf_replace_def Let_def intro!: record_cache insert_cache remove_cache)

lemma normalize_cache:
  assumes "lf_cr_index rl" "btext b = [] \<or> last (btext b) \<noteq> 13" "cache_ok rl dec b c"
  shows "cache_ok rl dec (normalize rl b) c"
proof (cases "btext b \<noteq> [] \<and> last (btext b) = 10")
  case False
  have "keeps_crlf (btext b) (length (btext b)) (length (btext b)) [10]"
    using assms(2) by (cases "btext b" rule: rev_cases) (auto simp: keeps_crlf_def apart_def crlf_at_def nth_append)
  then have "cache_ok rl dec (buf_insert rl (length (btext b)) [10] b) c" using insert_cache[OF assms(1) _ _ assms(3)] by simp
  then show ?thesis using False unfolding normalize_def Let_def by (auto simp: cache_ok_def)
qed (use assms in \<open>simp add: normalize_def\<close>)

lemma edit_cache:
  assumes "lf_cr_index rl" "edit_ok (btext (the_buf s)) op" "cache_ok rl dec (the_buf s) c"
  shows "cache_ok rl dec (the_buf (buf_step rl s op)) c"
proof (cases op)
  case (BReset t)
  then show ?thesis by (simp add: cache_ok_def mark_resync_def)
next
  case (BTake j)
  then show ?thesis using assms(2,3) by (simp add: take_journal_def cache_ok_def)
next
  case BTakeSpan
  then show ?thesis using assms(3) by (simp add: take_change_span_def cache_ok_def)
qed (use assms in \<open>auto simp: insert_cache remove_cache replace_cache normalize_cache\<close>)

lemma sync_text: "btext (fst (sync_fold_inputs rl dec p (b, c))) = btext b"
  by (auto simp: sync_fold_inputs_def take_journal_def Let_def split: option.split)

lemma fold_step_text:
  "btext (the_buf (fst (fold_step rl dec (s, c) op))) =
     (case op of FEdit e \<Rightarrow> text_step (btext (the_buf s)) e | FSync p \<Rightarrow> btext (the_buf s))"
proof (cases op)
  case (FSync p)
  then show ?thesis using sync_text[of rl dec p "the_buf s" c] by (cases "sync_fold_inputs rl dec p (the_buf s, c)") simp
qed (simp add: buf_step_text)

lemma fold_step_inv:
  assumes rl: "lf_cr_index rl" and inv: "fold_inv rl dec (s, c)"
    and ok: "\<And>e. op = FEdit e \<Longrightarrow> edit_ok (btext (the_buf s)) e"
  shows "fold_inv rl dec (fold_step rl dec (s, c) op)"
proof (cases op)
  case (FEdit e)
  then show ?thesis using inv edit_cache[OF rl ok] by (auto simp: fold_inv_def split: option.splits)
next
  case (FSync p)
  have "cache_ok rl dec (the_buf s) x" if "c = Some x" for x using inv that by (simp add: fold_inv_def)
  then obtain b' c' where "sync_fold_inputs rl dec p (the_buf s, c) = (b', Some c')" "btext b' = btext (the_buf s)"
    "fi_params c' = p" "values_fit rl dec (btext (the_buf s)) p (fi_lines c')" "journals b' JFold = \<lparr>batch_edits = [], batch_resync = False\<rparr>"
    using sync_exact[OF rl, of c dec "the_buf s" p] by blast
  then show ?thesis using FSync by (auto simp: fold_inv_def cache_ok_def)
qed

lemma fold_run:
  "lf_cr_index rl \<Longrightarrow> fold_inv rl dec st \<Longrightarrow> edits_ok (btext (the_buf (fst st))) ops \<Longrightarrow>
   fold_inv rl dec (foldl (fold_step rl dec) st ops)"
proof (induction ops arbitrary: st)
  case (Cons op ops)
  obtain s c where st: "st = (s, c)" by (cases st)
  have ok: "edit_ok (btext (the_buf s)) e" if "op = FEdit e" for e using Cons.prems(3) that by (simp add: st)
  have "edits_ok (btext (the_buf (fst (fold_step rl dec (s, c) op)))) ops"
    using Cons.prems(3) unfolding fold_step_text by (cases op) (simp_all add: st)
  then show ?case using Cons.IH[OF Cons.prems(1) fold_step_inv[OF Cons.prems(1) Cons.prems(2)[unfolded st] ok]]
    by (simp add: st)
qed simp

lemma fold_run_text:
  "btext (the_buf (fst (foldl (fold_step rl dec) st ops))) =
     foldl (\<lambda>t op. case op of FEdit e \<Rightarrow> text_step t e | FSync p \<Rightarrow> t) (btext (the_buf (fst st))) ops"
proof (induction ops arbitrary: st)
  case (Cons op ops)
  show ?case using Cons fold_step_text[of rl dec "fst st" "snd st" op] by simp
qed simp

text \<open>C34. The fold cache is exact. Whatever insertions, removals, replacements, reloads, drains of the other
  journals and earlier synchronizations under other parameters came before, the values of an indent or
  marker fold source after a synchronization are the ones derived from the whole text as it is, line by
  line, although only the rows the journal names were derived anew; those of an expression are one per
  line. The text may hold any bytes; the edits must not cut a \<open>\r\n\<close> in two nor bring a \<open>\r\<close> before a
  \<open>\n\<close> (\<open>edits_ok\<close>), where the journal names rows wrongly and the cache can go stale
  (\<open>crlf_edits_leave_stale_rows\<close>).\<close>

theorem fold_cache_exact:
  assumes rl: "lf_cr_index rl" and b: "fresh bf" and ops: "edits_ok (btext bf) ops"
  shows "\<exists>c. snd (foldl (fold_step rl dec) (track bf, None) (ops @ [FSync p])) = Some c \<and> fi_params c = p \<and>
    values_fit rl dec (btext (the_buf (fst (foldl (fold_step rl dec) (track bf, None) (ops @ [FSync p]))))) p (fi_lines c)"
proof -
  obtain s c where st: "foldl (fold_step rl dec) (track bf, None) ops = (s, c)" by fastforce
  have "fold_inv rl dec (track bf, None)" by (simp add: fold_inv_def)
  from fold_run[OF rl this, of ops] have "fold_inv rl dec (s, c)"
    using ops unfolding st by (simp add: track_def)
  then have "cache_ok rl dec (the_buf s) x" if "c = Some x" for x using that by (simp add: fold_inv_def)
  then obtain b' c' where "sync_fold_inputs rl dec p (the_buf s, c) = (b', Some c')" "btext b' = btext (the_buf s)"
    "fi_params c' = p" "values_fit rl dec (btext (the_buf s)) p (fi_lines c')"
    using sync_exact[OF rl, of c dec "the_buf s" p] by blast
  then show ?thesis using st by simp
qed

text \<open>An indented line inserted between two others.\<close>

theorem fold_cache_exact_witness:
  "\<exists>c. snd (foldl (fold_step lf_cr (map unat)) (track (blank_buf [97, 10, 98, 10]), None)
     ([FSync (FpIndent 4), FEdit (BInsert 2 [9, 120, 10])] @ [FSync (FpIndent 4)])) = Some c \<and>
   fi_lines c = FvIndent [Some 0, Some 4, Some 0]"
proof -
  let ?st = "foldl (fold_step lf_cr (map unat)) (track (blank_buf [97, 10, 98, 10]), None)
     ([FSync (FpIndent 4), FEdit (BInsert 2 [9, 120, 10])] @ [FSync (FpIndent 4)])"
  have b: "fresh (blank_buf [97, 10, 98, 10])"
    by (simp add: fresh_def blank_buf_def)
  have ok: "edits_ok (btext (blank_buf [97, 10, 98, 10])) [FSync (FpIndent 4), FEdit (BInsert 2 [9, 120, 10])]"
    by (simp add: blank_buf_def keeps_crlf_def apart_def crlf_at_def Let_def)
  obtain c where c: "snd ?st = Some c" "values_fit lf_cr (map unat) (btext (the_buf (fst ?st))) (FpIndent 4) (fi_lines c)"
    using fold_cache_exact[OF lf_cr_index_lf_cr b ok, of "map unat" "FpIndent 4"]
    by blast
  have "btext (the_buf (fst ?st)) = [97, 10, 9, 120, 10, 98, 10]"
    by (simp only: fold_run_text) (simp add: track_def blank_buf_def)
  moreover have "build_values lf_cr (map unat) [97, 10, 9, 120, 10, 98, 10] (FpIndent 4) = FvIndent [Some 0, Some 4, Some 0]"
    unfolding build_values.simps
    by (subst build_rows[OF lf_cr_index_lf_cr]) (simp_all add: indent_cols_of_def trim_def is_whitespace_def strip_eol_def ends_row_def)
  ultimately show ?thesis using c by (metis values_fit.simps(2))
qed

section \<open>Edits inside line breaks\<close>

text \<open>Two removals between synchronizations: one joins a \<open>\r\<close> and a \<open>\n\<close>, and the journal names no row the
  less; one starts inside a \<open>\r\n\<close>, and the journal names a row the less where none is. The spliced length
  is right again, so the check of it passes, and the last line keeps the indent it had before its tab was
  removed.\<close>

definition torn :: "buf \<times> fold_inputs option" where
  "torn = (case sync_fold_inputs lf_cr (map unat) (FpIndent 4)
       (blank_buf [97, 13, 120, 10, 32, 98, 10, 99, 13, 10, 9, 100, 10], None) of
     (b, c) \<Rightarrow> (buf_remove lf_cr 8 10 (buf_remove lf_cr 2 3 b), c))"

lemma indents_of:
  "build_values lf_cr (map unat) t (FpIndent 4) = FvIndent (map (\<lambda>r. indent_cols_of (map unat (strip_eol r)) 4) (butlast (rows t)))"
  unfolding build_values.simps by (subst build_rows[OF lf_cr_index_lf_cr]) (rule refl)

lemmas indent_eval = ends_row_def strip_eol_def indent_cols_of_def trim_def is_whitespace_def

lemma torn_state:
  "btext (fst torn) = [97, 13, 10, 32, 98, 10, 99, 13, 100, 10]"
  "changedtick (fst torn) = 2" "batch_resync (journals (fst torn) JFold) = False"
  "fold_edit_rows (batch_edits (journals (fst torn) JFold)) = Some (1, 3, 2)"
  "snd torn = Some \<lparr>fi_tick = 0, fi_params = FpIndent 4, fi_lines = FvIndent [Some 0, Some 0, Some 1, Some 0, Some 4]\<rparr>"
proof -
  let ?b = "snd (take_journal JFold (blank_buf [97, 13, 120, 10, 32, 98, 10, 99, 13, 10, 9, 100, 10]))"
  have t: "torn = (buf_remove lf_cr 8 10 (buf_remove lf_cr 2 3 ?b),
      Some \<lparr>fi_tick = 0, fi_params = FpIndent 4, fi_lines = FvIndent [Some 0, Some 0, Some 1, Some 0, Some 4]\<rparr>)"
    by (simp add: torn_def sync_fold_inputs_def take_journal_def blank_buf_def indents_of indent_eval del: build_values.simps)
  have "btext (buf_remove lf_cr 8 10 (buf_remove lf_cr 2 3 ?b)) = [97, 13, 10, 32, 98, 10, 99, 13, 100, 10] \<and>
      changedtick (buf_remove lf_cr 8 10 (buf_remove lf_cr 2 3 ?b)) = 2 \<and>
      batch_resync (journals (buf_remove lf_cr 8 10 (buf_remove lf_cr 2 3 ?b)) JFold) = False \<and>
      fold_edit_rows (batch_edits (journals (buf_remove lf_cr 8 10 (buf_remove lf_cr 2 3 ?b)) JFold)) = Some (1, 3, 2)"
    by code_simp
  then show "btext (fst torn) = [97, 13, 10, 32, 98, 10, 99, 13, 100, 10]"
    "changedtick (fst torn) = 2" "batch_resync (journals (fst torn) JFold) = False"
    "fold_edit_rows (batch_edits (journals (fst torn) JFold)) = Some (1, 3, 2)"
    unfolding t by simp_all
  show "snd torn = Some \<lparr>fi_tick = 0, fi_params = FpIndent 4, fi_lines = FvIndent [Some 0, Some 0, Some 1, Some 0, Some 4]\<rparr>"
    unfolding t by simp
qed

lemma crlf_edits_leave_stale_rows:
  "map_option fi_lines (snd (sync_fold_inputs lf_cr (map unat) (FpIndent 4) torn)) =
     Some (FvIndent [Some 0, Some 1, Some 0, Some 4])"
  "build_values lf_cr (map unat) (btext (fst torn)) (FpIndent 4) = FvIndent [Some 0, Some 1, Some 0, Some 0]"
proof -
  let ?t = "[97, 13, 10, 32, 98, 10, 99, 13, 100, 10] :: byte list"
  have n: "line_count lf_cr ?t = 4" by (simp add: line_count_rows[OF lf_cr_index_lf_cr] ends_row_def)
  have val: "indent_cols_of (line_cow lf_cr (map unat) ?t 1) 4 = Some 1"
    "indent_cols_of (line_cow lf_cr (map unat) ?t 2) 4 = Some 0"
    by (simp_all add: line_cow_rows[OF lf_cr_index_lf_cr] n indent_eval)
  obtain b0 c where torn: "torn = (b0, c)" by (cases torn)
  note state = torn_state[unfolded torn fst_conv snd_conv]
  obtain b where b: "take_journal JFold b0 = (journals b0 JFold, b)" "btext b = ?t" "changedtick b = 2"
    using state by (simp add: take_journal_def)
  show "map_option fi_lines (snd (sync_fold_inputs lf_cr (map unat) (FpIndent 4) torn)) =
      Some (FvIndent [Some 0, Some 1, Some 0, Some 4])"
    unfolding torn sync_fold_inputs_def prod.case b(1) using b(2,3) state(3-5) n val
    by (simp add: vec_splice_def upt_rec[of "Suc 0" 2] del: build_values.simps)
  show "build_values lf_cr (map unat) (btext (fst torn)) (FpIndent 4) = FvIndent [Some 0, Some 1, Some 0, Some 0]"
    unfolding torn_state(1) indents_of by (simp add: indent_eval)
qed

section \<open>Expressions see line numbers\<close>

text \<open>The values of a \<open>'foldexpr'\<close> are kept with their rows, but the expression sees the row's number: below an
  inserted line an expression of \<open>lnum\<close> keeps its value for the old number.\<close>

lemma foldexpr_lnum_stale:
  defines "ev \<equiv> \<lambda>_ n. Some (show_nat n)" and "t \<equiv> [120, 10, 97, 10, 98, 10] :: byte list"
  shows "splice_values lf_cr (map unat) t (FpExpr (us ''lnum'')) 0 1 2 (FvExpr [Some (us ''1''), Some (us ''2'')]) =
      FvExpr [None, None, Some (us ''2'')]"
    and "fill_foldexpr_holes (us ''lnum'') (Some ev) (line_cow lf_cr (map unat) t) [None, None, Some (us ''2'')] =
      [Some (us ''1''), Some (us ''2''), Some (us ''2'')]"
    and "fill_foldexpr_holes (us ''lnum'') (Some ev) (line_cow lf_cr (map unat) t) [None, None, None] =
      [Some (us ''1''), Some (us ''2''), Some (us ''3'')]"
  by (simp_all add: ev_def vec_splice_def fill_foldexpr_holes_def Let_def trim_def is_whitespace_def upt_rec show_nat.simps)

end
