(* ===== verification/F64.thy ===== *)
theory F64
  imports Std_Text Complex_Main "HOL-Library.Log_Nat"
begin

text \<open>
  Rust's \<open>f64\<close> (IEEE 754 binary64), as much of it as the components use: rounding to nearest
  with ties to even, the five arithmetic operators, comparison, conversion from integers and from
  decimal text, and the text \<open>Display\<close> prints (the shortest digits that read back).  A finite
  non-zero number is modelled by its rational value, the zeros and infinities by their sign.
\<close>

datatype f64 = F_NaN | F_Inf bool | F_Zero bool | F_Num rat

fun f_negative :: "f64 \<Rightarrow> bool" where
  "f_negative F_NaN = False"
| "f_negative (F_Inf n) = n"
| "f_negative (F_Zero n) = n"
| "f_negative (F_Num q) = (q < 0)"

section \<open>Rounding\<close>

definition pow_int :: "rat \<Rightarrow> int \<Rightarrow> rat" where
  "pow_int b k = (if 0 \<le> k then b ^ nat k else 1 / b ^ nat (- k))"

definition round_half_even :: "rat \<Rightarrow> int" where
  "round_half_even x =
     (let f = \<lfloor>x\<rfloor>; d = x - of_int f
      in if d < 1 / 2 \<or> (d = 1 / 2 \<and> even f) then f else f + 1)"

text \<open>The exponent \<open>e\<close> with \<open>2^e \<le> q < 2^(e+1)\<close>, for positive \<open>q\<close>.\<close>

definition exponent2 :: "rat \<Rightarrow> int" where
  "exponent2 q =
     (let (a, b) = quotient_of q; e = bitlen a - bitlen b in if q < pow_int 2 e then e - 1 else e)"

text \<open>Rounding a positive rational: 53 significant bits, never finer than \<open>2^(-1074)\<close>.\<close>

definition round_pos :: "bool \<Rightarrow> rat \<Rightarrow> f64" where
  "round_pos neg q =
     (let u = max (exponent2 q - 52) (- 1074);
          r = of_int (round_half_even (q / pow_int 2 u)) * pow_int 2 u
      in if r = 0 then F_Zero neg
         else if 2 ^ 1024 \<le> r then F_Inf neg
         else F_Num (if neg then - r else r))"

definition f_of_rat :: "bool \<Rightarrow> rat \<Rightarrow> f64" where
  "f_of_rat zero_neg q =
     (if q = 0 then F_Zero zero_neg else if q < 0 then round_pos True (- q) else round_pos False q)"

definition f_of_int :: "int \<Rightarrow> f64" where
  "f_of_int n = f_of_rat False (of_int n)"

section \<open>Arithmetic\<close>

fun f_neg :: "f64 \<Rightarrow> f64" where
  "f_neg F_NaN = F_NaN"
| "f_neg (F_Inf n) = F_Inf (\<not> n)"
| "f_neg (F_Zero n) = F_Zero (\<not> n)"
| "f_neg (F_Num q) = F_Num (- q)"

fun f_add :: "f64 \<Rightarrow> f64 \<Rightarrow> f64" where
  "f_add F_NaN _ = F_NaN"
| "f_add _ F_NaN = F_NaN"
| "f_add (F_Inf m) (F_Inf n) = (if m = n then F_Inf m else F_NaN)"
| "f_add (F_Inf m) _ = F_Inf m"
| "f_add _ (F_Inf n) = F_Inf n"
| "f_add (F_Zero m) (F_Zero n) = F_Zero (m \<and> n)"
| "f_add (F_Zero m) y = y"
| "f_add x (F_Zero n) = x"
| "f_add (F_Num p) (F_Num q) = f_of_rat False (p + q)"

definition f_sub :: "f64 \<Rightarrow> f64 \<Rightarrow> f64" where
  "f_sub x y = f_add x (f_neg y)"

fun f_mul :: "f64 \<Rightarrow> f64 \<Rightarrow> f64" where
  "f_mul F_NaN _ = F_NaN"
| "f_mul _ F_NaN = F_NaN"
| "f_mul (F_Inf m) (F_Zero n) = F_NaN"
| "f_mul (F_Zero m) (F_Inf n) = F_NaN"
| "f_mul (F_Num p) (F_Num q) = f_of_rat ((p < 0) \<noteq> (q < 0)) (p * q)"
| "f_mul (F_Inf m) y = F_Inf (m \<noteq> f_negative y)"
| "f_mul x (F_Inf n) = F_Inf (f_negative x \<noteq> n)"
| "f_mul x y = F_Zero (f_negative x \<noteq> f_negative y)"

fun f_div :: "f64 \<Rightarrow> f64 \<Rightarrow> f64" where
  "f_div F_NaN _ = F_NaN"
| "f_div _ F_NaN = F_NaN"
| "f_div (F_Inf m) (F_Inf n) = F_NaN"
| "f_div (F_Zero m) (F_Zero n) = F_NaN"
| "f_div (F_Num p) (F_Num q) = f_of_rat ((p < 0) \<noteq> (q < 0)) (p / q)"
| "f_div (F_Inf m) y = F_Inf (m \<noteq> f_negative y)"
| "f_div x (F_Zero n) = F_Inf (f_negative x \<noteq> n)"
| "f_div x y = F_Zero (f_negative x \<noteq> f_negative y)"

text \<open>The remainder of the truncated quotient has the sign of the dividend.\<close>

fun f_rem :: "f64 \<Rightarrow> f64 \<Rightarrow> f64" where
  "f_rem F_NaN _ = F_NaN"
| "f_rem _ F_NaN = F_NaN"
| "f_rem (F_Inf m) y = F_NaN"
| "f_rem x (F_Zero n) = F_NaN"
| "f_rem x (F_Inf n) = x"
| "f_rem (F_Zero m) y = F_Zero m"
| "f_rem (F_Num p) (F_Num q) =
     f_of_rat (p < 0) (let t = \<lfloor>\<bar>p / q\<bar>\<rfloor> in p - q * (if p / q < 0 then - of_int t else of_int t))"

section \<open>Comparison\<close>

datatype ordering = Less | Equal | Greater

definition compare_by :: "('a::linorder) \<Rightarrow> 'a \<Rightarrow> ordering" where
  "compare_by x y = (if x < y then Less else if x = y then Equal else Greater)"

text \<open>\<open>partial_cmp\<close>: no order with a NaN; the two zeros are equal.\<close>

fun f_key :: "f64 \<Rightarrow> int \<times> rat" where
  "f_key (F_Inf n) = (if n then - 1 else 1, 0)"
| "f_key (F_Num q) = (0, q)"
| "f_key _ = (0, 0)"

definition f_cmp :: "f64 \<Rightarrow> f64 \<Rightarrow> ordering option" where
  "f_cmp x y =
     (if x = F_NaN \<or> y = F_NaN then None
      else Some (case compare_by (fst (f_key x)) (fst (f_key y)) of
        Equal \<Rightarrow> compare_by (snd (f_key x)) (snd (f_key y)) | r \<Rightarrow> r))"

text \<open>The lexicographic order of \<open>str::cmp\<close>; by code points it is the order of the bytes.\<close>

fun str_cmp :: "ustring \<Rightarrow> ustring \<Rightarrow> ordering" where
  "str_cmp [] [] = Equal"
| "str_cmp [] (_ # _) = Less"
| "str_cmp (_ # _) [] = Greater"
| "str_cmp (a # s) (b # t) = (case compare_by a b of Equal \<Rightarrow> str_cmp s t | r \<Rightarrow> r)"

section \<open>Text\<close>

text \<open>\<open>str::parse\<close> of a sign, digits and decimals.\<close>

definition f_of_decimal :: "bool \<Rightarrow> ustring \<Rightarrow> ustring \<Rightarrow> f64" where
  "f_of_decimal neg ds fs =
     (let q = of_nat (digits_value (ds @ fs)) / 10 ^ length fs in f_of_rat neg (if neg then - q else q))"

text \<open>The number of digits before the decimal point (negative: minus the zeros after it).\<close>

fun decimal_point :: "nat \<Rightarrow> rat \<Rightarrow> int \<Rightarrow> int" where
  "decimal_point 0 q p = p"
| "decimal_point (Suc n) q p =
     (if q < 1 / 10 then decimal_point n (q * 10) (p - 1)
      else if 1 \<le> q then decimal_point n (q / 10) (p + 1) else p)"

text \<open>The shortest decimal that reads back: \<open>n\<close> digits, the nearer of the two neighbours.\<close>

fun shortest_digits :: "nat \<Rightarrow> nat \<Rightarrow> rat \<Rightarrow> int \<Rightarrow> int \<times> nat" where
  "shortest_digits 0 n q p = (round_half_even (q * pow_int 10 (int n - p)), n)"
| "shortest_digits (Suc k) n q p =
     (let x = q * pow_int 10 (int n - p); lo = \<lfloor>x\<rfloor>; hi = lo + 1;
          reads = (\<lambda>d. round_pos False (of_int d * pow_int 10 (p - int n)) = F_Num q);
          up = (of_int hi - x \<le> x - of_int lo)
      in if reads hi \<and> (up \<or> \<not> reads lo) then (hi, n)
         else if reads lo then (lo, n)
         else shortest_digits k (n + 1) q p)"

definition show_shortest :: "rat \<Rightarrow> ustring" where
  "show_shortest q =
     (let p = decimal_point 400 q 0; (d, n) = shortest_digits 17 1 q p;
          ds = show_nat (nat d); p' = p + (int (length ds) - int n)
      in if p' \<le> 0 then us ''0.'' @ replicate (nat (- p')) (uc CHR ''0'') @ ds
         else if nat p' \<ge> length ds then ds @ replicate (nat p' - length ds) (uc CHR ''0'')
         else take (nat p') ds @ us ''.'' @ drop (nat p') ds)"

definition f_fract_zero :: "f64 \<Rightarrow> bool" where
  "f_fract_zero x = (case x of F_NaN \<Rightarrow> False | F_Inf _ \<Rightarrow> False | F_Zero _ \<Rightarrow> True | F_Num q \<Rightarrow> of_int \<lfloor>q\<rfloor> = q)"

definition f_display :: "f64 \<Rightarrow> ustring" where
  "f_display x =
     (case x of
        F_NaN \<Rightarrow> us ''NaN''
      | F_Inf n \<Rightarrow> (if n then us ''-inf'' else us ''inf'')
      | F_Zero n \<Rightarrow> (if n then us ''-0'' else us ''0'')
      | F_Num q \<Rightarrow> (if q < 0 then us ''-'' else []) @ show_shortest \<bar>q\<bar>)"

text \<open>\<open>{f:.1}\<close> of a whole number.\<close>

definition f_display_whole :: "f64 \<Rightarrow> ustring" where
  "f_display_whole x =
     (if f_negative x then us ''-'' else []) @
     (case x of F_Num q \<Rightarrow> show_nat (nat \<bar>\<lfloor>q\<rfloor>\<bar>) | _ \<Rightarrow> us ''0'') @ us ''.0''"

end
