(* ===== verification/Expr.thy ===== *)
theory Expr
  imports F64
begin

text \<open>
  The expression evaluator of \<open>:echo\<close> and the statusline's \<open>%{...}\<close>
  (\<open>crates/bemtvi-core/src/editor/expr.rs\<close>): values, tokens, the recursive descent over the
  tokens with its depth bound, and the two entry points.  A position in the source is the rest of the
  source, a position in the token vector the rest of the vector; the recursion depth is counted down
  from \<open>MAX_EXPR_DEPTH\<close>.  The option resolver is an argument.
\<close>

section \<open>Values\<close>

datatype opt_val = OptInt int | OptStr ustring

type_synonym resolver = "ustring \<Rightarrow> opt_val option"

datatype value_t = VInt int | VFloat f64 | VStr ustring

text \<open>\<open>i64\<close>: the wrapping operations, and \<open>str::parse\<close> and \<open>from_str_radix\<close> with their
  overflow.\<close>

definition wrap_i64 :: "int \<Rightarrow> int" where
  "wrap_i64 x = (x + 2 ^ 63) mod 2 ^ 64 - 2 ^ 63"

definition trunc_div :: "int \<Rightarrow> int \<Rightarrow> int" where
  "trunc_div x y = sgn x * sgn y * (\<bar>x\<bar> div \<bar>y\<bar>)"

definition trunc_rem :: "int \<Rightarrow> int \<Rightarrow> int" where
  "trunc_rem x y = sgn x * (\<bar>x\<bar> mod \<bar>y\<bar>)"

definition parse_i64 :: "bool \<Rightarrow> ustring \<Rightarrow> int option" where
  "parse_i64 neg ds =
     (let n = (if neg then - int (digits_value ds) else int (digits_value ds))
      in if ds = [] \<or> n < I64_MIN \<or> I64_MAX < n then None else Some n)"

definition hex_digit :: "uchar \<Rightarrow> nat option" where
  "hex_digit c =
     (if is_ascii_digit c then Some (c - 48)
      else if 97 \<le> c \<and> c \<le> 102 then Some (c - 87)
      else if 65 \<le> c \<and> c \<le> 70 then Some (c - 55) else None)"

definition parse_hex_i64 :: "ustring \<Rightarrow> int option" where
  "parse_hex_i64 ds =
     (let n = int (foldl (\<lambda>n d. 16 * n + the (hex_digit d)) 0 ds)
      in if ds = [] \<or> I64_MAX < n then None else Some n)"

definition show_int :: "int \<Rightarrow> ustring" where
  "show_int n = (if n < 0 then us ''-'' else []) @ show_nat (nat \<bar>n\<bar>)"

definition fmt_float :: "f64 \<Rightarrow> ustring" where
  "fmt_float f = (if f_fract_zero f then f_display_whole f else f_display f)"

fun display :: "value_t \<Rightarrow> ustring" where
  "display (VInt n) = show_int n"
| "display (VFloat f) = fmt_float f"
| "display (VStr s) = s"

definition parse_leading_number :: "ustring \<Rightarrow> value_t" where
  "parse_leading_number s =
     (let t = dropWhile is_whitespace s;
          neg = (t \<noteq> [] \<and> hd t = uc CHR ''-'');
          t' = (if t \<noteq> [] \<and> (hd t = uc CHR ''-'' \<or> hd t = uc CHR ''+'') then tl t else t);
          ds = takeWhile is_ascii_digit t'; r = dropWhile is_ascii_digit t'
      in if ds = [] then VInt 0
         else case r of
           c # d # r' \<Rightarrow>
             if c = uc CHR ''.'' \<and> is_ascii_digit d
             then VFloat (f_of_decimal neg ds (takeWhile is_ascii_digit (d # r')))
             else VInt (case parse_i64 neg ds of Some n \<Rightarrow> n | None \<Rightarrow> 0)
         | _ \<Rightarrow> VInt (case parse_i64 neg ds of Some n \<Rightarrow> n | None \<Rightarrow> 0))"

fun as_number :: "value_t \<Rightarrow> value_t" where
  "as_number (VStr s) = parse_leading_number s"
| "as_number v = v"

definition truthy :: "value_t \<Rightarrow> bool" where
  "truthy v =
     (case as_number v of
        VInt n \<Rightarrow> n \<noteq> 0
      | VFloat f \<Rightarrow> (case f of F_Zero _ \<Rightarrow> False | _ \<Rightarrow> True)
      | VStr _ \<Rightarrow> False)"

fun to_f64 :: "value_t \<Rightarrow> f64" where
  "to_f64 (VInt n) = f_of_int n"
| "to_f64 (VFloat f) = f"
| "to_f64 (VStr s) =
     (case as_number (VStr s) of VInt n \<Rightarrow> f_of_int n | VFloat f \<Rightarrow> f | VStr _ \<Rightarrow> F_Zero False)"

datatype cmp_op = OpEq | OpNe | OpLt | OpLe | OpGt | OpGe

definition compare_ord :: "value_t \<Rightarrow> value_t \<Rightarrow> ordering" where
  "compare_ord a b =
     (case (a, b) of
        (VStr x, VStr y) \<Rightarrow> str_cmp x y
      | _ \<Rightarrow> (case f_cmp (to_f64 a) (to_f64 b) of Some r \<Rightarrow> r | None \<Rightarrow> Equal))"

definition compare :: "value_t \<Rightarrow> value_t \<Rightarrow> cmp_op \<Rightarrow> bool" where
  "compare a b op =
     (let ord = compare_ord a b in
      case op of
        OpEq \<Rightarrow> ord = Equal | OpNe \<Rightarrow> ord \<noteq> Equal
      | OpLt \<Rightarrow> ord = Less | OpLe \<Rightarrow> ord \<noteq> Greater
      | OpGt \<Rightarrow> ord = Greater | OpGe \<Rightarrow> ord \<noteq> Less)"

section \<open>Tokens\<close>

datatype tok =
    TInt int | TFloat f64 | TStr ustring | TIdent ustring | TOption ustring
  | TConcat | TPlus | TMinus | TStar | TSlash | TPercent | TLParen | TRParen
  | TEq | TNe | TLt | TLe | TGt | TGe | TBang | TAndAnd | TOrOr | TQuestion | TColon

datatype eval_error =
    Lone_equals | Lone_bar | No_option_name | Unexpected_char uchar
  | Missing_double_quote | Missing_single_quote
  | Too_recursive | Missing_colon | Missing_paren | Divide_by_zero
  | Unknown_option ustring | Options_unavailable ustring | Undefined_variable ustring
  | Unexpected_token tok | Unexpected_end | Trailing_tokens ustring

text \<open>Arithmetic: two integers wrap, any float makes a float.\<close>

datatype arith_op = Add | Sub | Mul | Div | Rem

definition arith :: "value_t \<Rightarrow> value_t \<Rightarrow> arith_op \<Rightarrow> eval_error + value_t" where
  "arith a b op =
     (case (as_number a, as_number b) of
        (VInt x, VInt y) \<Rightarrow>
          (case op of
             Add \<Rightarrow> Inr (VInt (wrap_i64 (x + y)))
           | Sub \<Rightarrow> Inr (VInt (wrap_i64 (x - y)))
           | Mul \<Rightarrow> Inr (VInt (wrap_i64 (x * y)))
           | Div \<Rightarrow> if y = 0 then Inl Divide_by_zero else Inr (VInt (wrap_i64 (trunc_div x y)))
           | Rem \<Rightarrow> if y = 0 then Inl Divide_by_zero else Inr (VInt (wrap_i64 (trunc_rem x y))))
      | (x, y) \<Rightarrow>
          Inr (VFloat ((case op of Add \<Rightarrow> f_add | Sub \<Rightarrow> f_sub | Mul \<Rightarrow> f_mul | Div \<Rightarrow> f_div | Rem \<Rightarrow> f_rem)
                         (to_f64 x) (to_f64 y))))"

section \<open>The tokenizer\<close>

definition unescape :: "uchar \<Rightarrow> uchar" where
  "unescape c =
     (if c = uc CHR ''n'' then 10 else if c = uc CHR ''t'' then 9 else if c = uc CHR ''r'' then 13
      else if c = uc CHR ''0'' then 0 else if c = uc CHR ''e'' then 27 else c)"

fun lex_double_string :: "ustring \<Rightarrow> ustring \<Rightarrow> eval_error + ustring \<times> ustring" where
  "lex_double_string out [] = Inl Missing_double_quote"
| "lex_double_string out (c # s) =
     (if c = 34 then Inr (out, s)
      else if c = 92 \<and> s \<noteq> [] then lex_double_string (out @ [unescape (hd s)]) (tl s)
      else lex_double_string (out @ [c]) s)"

fun lex_single_string :: "ustring \<Rightarrow> ustring \<Rightarrow> eval_error + ustring \<times> ustring" where
  "lex_single_string out [] = Inl Missing_single_quote"
| "lex_single_string out (c # s) =
     (if c = 39 then
        (if s \<noteq> [] \<and> hd s = 39 then lex_single_string (out @ [39]) (tl s) else Inr (out, s))
      else lex_single_string (out @ [c]) s)"

text \<open>A number, from its first digit on.\<close>

definition lex_number :: "ustring \<Rightarrow> tok \<times> ustring" where
  "lex_number s =
     (if hd s = 48 \<and> tl s \<noteq> [] \<and> (hd (tl s) = uc CHR ''x'' \<or> hd (tl s) = uc CHR ''X'') then
        (let is_hex = (\<lambda>c. hex_digit c \<noteq> None); r = tl (tl s)
         in (TInt (case parse_hex_i64 (takeWhile is_hex r) of Some n \<Rightarrow> n | None \<Rightarrow> 0), dropWhile is_hex r))
      else
        (let ds = takeWhile is_ascii_digit s; r = dropWhile is_ascii_digit s;
             as_int = (TInt (case parse_i64 False ds of Some n \<Rightarrow> n | None \<Rightarrow> 0), r)
         in case r of
              c # d # r' \<Rightarrow>
                if c = uc CHR ''.'' \<and> is_ascii_digit d
                then (TFloat (f_of_decimal False ds (takeWhile is_ascii_digit (d # r'))),
                      dropWhile is_ascii_digit (d # r'))
                else as_int
            | _ \<Rightarrow> as_int))"

text \<open>An option reference, from past the ampersand on.\<close>

definition is_name_char :: "uchar \<Rightarrow> bool" where
  "is_name_char c \<longleftrightarrow> is_ascii_alphabetic c \<or> c = uc CHR ''_''"

definition lex_option :: "ustring \<Rightarrow> eval_error + ustring \<times> ustring" where
  "lex_option s =
     (let r = (case s of
                 a # b # t \<Rightarrow> if (a = uc CHR ''l'' \<or> a = uc CHR ''g'') \<and> b = uc CHR '':'' then t else s
               | _ \<Rightarrow> s);
          name = takeWhile is_name_char r
      in if name = [] then Inl No_option_name else Inr (name, dropWhile is_name_char r))"

definition is_ident_char :: "uchar \<Rightarrow> bool" where
  "is_ident_char c \<longleftrightarrow>
     is_ascii_alphabetic c \<or> is_ascii_digit c \<or> c = uc CHR ''_'' \<or> c = uc CHR '':''"

text \<open>Two-character operators: \<open>both\<close> when \<open>second\<close> follows, else \<open>single\<close>.\<close>

definition lex_pair :: "uchar \<Rightarrow> tok \<Rightarrow> eval_error + tok \<Rightarrow> ustring \<Rightarrow> eval_error + tok \<times> ustring" where
  "lex_pair second both single s =
     (if s \<noteq> [] \<and> hd s = second then Inr (both, tl s)
      else case single of Inl e \<Rightarrow> Inl e | Inr t \<Rightarrow> Inr (t, s))"

text \<open>One token that starts with the character \<open>c\<close>.\<close>

definition lex_token :: "uchar \<Rightarrow> ustring \<Rightarrow> eval_error + tok \<times> ustring" where
  "lex_token c s =
     (if c = uc CHR ''('' then Inr (TLParen, s)
      else if c = uc CHR '')'' then Inr (TRParen, s)
      else if c = uc CHR ''+'' then Inr (TPlus, s)
      else if c = uc CHR ''-'' then Inr (TMinus, s)
      else if c = uc CHR ''*'' then Inr (TStar, s)
      else if c = uc CHR ''/'' then Inr (TSlash, s)
      else if c = uc CHR ''%'' then Inr (TPercent, s)
      else if c = uc CHR ''='' then lex_pair (uc CHR ''='') TEq (Inl Lone_equals) s
      else if c = uc CHR ''!'' then lex_pair (uc CHR ''='') TNe (Inr TBang) s
      else if c = uc CHR ''<'' then lex_pair (uc CHR ''='') TLe (Inr TLt) s
      else if c = uc CHR ''>'' then lex_pair (uc CHR ''='') TGe (Inr TGt) s
      else if c = uc CHR ''?'' then Inr (TQuestion, s)
      else if c = uc CHR '':'' then Inr (TColon, s)
      else if c = uc CHR ''|'' then lex_pair (uc CHR ''|'') TOrOr (Inl Lone_bar) s
      else if c = uc CHR ''&'' then
        (if s \<noteq> [] \<and> hd s = uc CHR ''&'' then Inr (TAndAnd, tl s)
         else case lex_option s of Inl e \<Rightarrow> Inl e | Inr (name, r) \<Rightarrow> Inr (TOption name, r))
      else if c = uc CHR ''.'' then lex_pair (uc CHR ''.'') TConcat (Inr TConcat) s
      else if c = 34 then
        (case lex_double_string [] s of Inl e \<Rightarrow> Inl e | Inr (t, r) \<Rightarrow> Inr (TStr t, r))
      else if c = 39 then
        (case lex_single_string [] s of Inl e \<Rightarrow> Inl e | Inr (t, r) \<Rightarrow> Inr (TStr t, r))
      else if is_ascii_digit c then Inr (lex_number (c # s))
      else if is_ascii_alphabetic c \<or> c = uc CHR ''_'' then
        Inr (TIdent (takeWhile is_ident_char (c # s)), dropWhile is_ident_char (c # s))
      else Inl (Unexpected_char c))"

text \<open>Every token consumes text, so the loop ends.\<close>

lemma lex_double_string_shorter: "lex_double_string out s = Inr (t, r) \<Longrightarrow> length r < length s"
proof (induction out s rule: lex_double_string.induct)
  case (2 out c s)
  show ?case
  proof (cases "c \<noteq> 34 \<and> c = 92 \<and> s \<noteq> []")
    case True
    with 2 have "length r < length (tl s)" by simp
    then show ?thesis by simp
  next
    case False
    with 2 show ?thesis by (fastforce split: if_splits)
  qed
qed simp

lemma lex_single_string_shorter: "lex_single_string out s = Inr (t, r) \<Longrightarrow> length r < length s"
proof (induction out s rule: lex_single_string.induct)
  case (2 out c s)
  show ?case
  proof (cases "c = 39 \<and> s \<noteq> [] \<and> hd s = 39")
    case True
    with 2 have "length r < length (tl s)" by simp
    then show ?thesis by simp
  next
    case False
    with 2 show ?thesis by (fastforce split: if_splits)
  qed
qed simp

lemma lex_option_shorter: "lex_option s = Inr (t, r) \<Longrightarrow> length r \<le> length s"
  by (auto simp: lex_option_def Let_def split: if_splits list.splits
    intro: order.trans[OF length_dropWhile_le] le_SucI)

lemma lex_number_shorter:
  assumes "is_ascii_digit c" and "lex_number (c # s) = (t, r)"
  shows "length r \<le> length s"
proof -
  have drop: "length (dropWhile P x) \<le> length x" for P :: "uchar \<Rightarrow> bool" and x by (rule length_dropWhile_le)
  have "length r \<le> length (tl s)"
    if "c = 48 \<and> s \<noteq> [] \<and> (hd s = uc CHR ''x'' \<or> hd s = uc CHR ''X'')"
    using assms(2) that drop[of _ "tl s"] by (auto simp: lex_number_def Let_def)
  moreover have "length r \<le> length s"
    if no: "\<not> (c = 48 \<and> s \<noteq> [] \<and> (hd s = uc CHR ''x'' \<or> hd s = uc CHR ''X''))"
  proof -
    have "length (dropWhile is_ascii_digit (tl (tl (dropWhile is_ascii_digit s)))) \<le> length s"
      using drop[of is_ascii_digit s] drop[of is_ascii_digit "tl (tl (dropWhile is_ascii_digit s))"]
      by simp
    with assms no show ?thesis
      by (auto simp: lex_number_def Let_def length_dropWhile_le split: list.splits if_splits)
  qed
  moreover have "length (tl s) \<le> length s" by simp
  ultimately show ?thesis by linarith
qed

lemma lex_pair_shorter: "lex_pair b t u s = Inr (v, r) \<Longrightarrow> length r \<le> length s"
  by (auto simp: lex_pair_def split: if_splits sum.splits)

lemma lex_token_shorter:
  assumes "lex_token c s = Inr (t, r)"
  shows "length r \<le> length s"
proof -
  have "length (dropWhile is_ident_char (c # s)) \<le> length s"
    if "is_ascii_alphabetic c \<or> c = uc CHR ''_''"
    using that length_dropWhile_le[of is_ident_char s] by (auto simp: is_ident_char_def)
  with assms show ?thesis
    by (auto simp: lex_token_def simp del: dropWhile.simps split: if_splits sum.splits prod.splits
      dest: lex_pair_shorter lex_option_shorter lex_double_string_shorter lex_single_string_shorter
        lex_number_shorter)
qed

function tokenize :: "ustring \<Rightarrow> eval_error + tok list" where
  "tokenize [] = Inr []"
| "tokenize (c # s) =
     (if c = 32 \<or> c = 9 then tokenize s
      else case lex_token c s of
        Inl e \<Rightarrow> Inl e
      | Inr (t, r) \<Rightarrow> (case tokenize r of Inl e \<Rightarrow> Inl e | Inr ts \<Rightarrow> Inr (t # ts)))"
  by pat_completeness auto
termination
  by (relation "measure length") (auto dest: lex_token_shorter)

section \<open>The evaluator\<close>

text \<open>A step of the descent takes the tokens left and gives a value and the tokens left after it.\<close>

type_synonym step = "tok list \<Rightarrow> eval_error + value_t \<times> tok list"

definition MAX_EXPR_DEPTH :: nat where
  "MAX_EXPR_DEPTH = 200"

text \<open>The loops of the binary levels: while the next token is an operator of the level, take it,
  evaluate an operand and combine.  An operand always consumes a token
  (lemma \<open>operands_consume\<close>), so the guard that makes the recursion decrease never stops the loop.\<close>

function level_loop ::
  "(tok \<Rightarrow> 'op option) \<Rightarrow> step \<Rightarrow> ('op \<Rightarrow> value_t \<Rightarrow> value_t \<Rightarrow> eval_error + value_t) \<Rightarrow> value_t \<Rightarrow> step"
where
  "level_loop op_of operand combine left toks =
     (case toks of
        [] \<Rightarrow> Inr (left, [])
      | t # ts \<Rightarrow>
          (case op_of t of
             None \<Rightarrow> Inr (left, t # ts)
           | Some op \<Rightarrow>
               (case operand ts of
                  Inl e \<Rightarrow> Inl e
                | Inr (right, r) \<Rightarrow>
                    (case combine op left right of
                       Inl e \<Rightarrow> Inl e
                     | Inr v \<Rightarrow> if length r \<le> length ts then level_loop op_of operand combine v r
                                else Inr (v, r)))))"
  by pat_completeness auto
termination
  by (relation "measure (\<lambda>(_, _, _, _, toks). length toks)") auto

declare level_loop.simps [simp del]

definition binary_level ::
  "(tok \<Rightarrow> 'op option) \<Rightarrow> step \<Rightarrow> ('op \<Rightarrow> value_t \<Rightarrow> value_t \<Rightarrow> eval_error + value_t) \<Rightarrow> step"
where
  "binary_level op_of operand combine toks =
     (case operand toks of
        Inl e \<Rightarrow> Inl e
      | Inr (left, r) \<Rightarrow> level_loop op_of operand combine left r)"

fun mul_op :: "tok \<Rightarrow> arith_op option" where
  "mul_op TStar = Some Mul"
| "mul_op TSlash = Some Div"
| "mul_op TPercent = Some Rem"
| "mul_op _ = None"

fun add_op :: "tok \<Rightarrow> arith_op option" where
  "add_op TPlus = Some Add"
| "add_op TMinus = Some Sub"
| "add_op _ = None"

fun cmp_op_of :: "tok \<Rightarrow> cmp_op option" where
  "cmp_op_of TEq = Some OpEq"
| "cmp_op_of TNe = Some OpNe"
| "cmp_op_of TLt = Some OpLt"
| "cmp_op_of TLe = Some OpLe"
| "cmp_op_of TGt = Some OpGt"
| "cmp_op_of TGe = Some OpGe"
| "cmp_op_of _ = None"

definition token_op :: "tok \<Rightarrow> tok \<Rightarrow> unit option" where
  "token_op t u = (if u = t then Some () else None)"

definition of_bool_value :: "bool \<Rightarrow> value_t" where
  "of_bool_value b = VInt (if b then 1 else 0)"

definition multiplicative :: "step \<Rightarrow> step" where
  "multiplicative una = binary_level mul_op una (\<lambda>op l r. arith l r op)"

definition additive :: "step \<Rightarrow> step" where
  "additive una = binary_level add_op (multiplicative una) (\<lambda>op l r. arith l r op)"

definition concat_level :: "step \<Rightarrow> step" where
  "concat_level una =
     binary_level (token_op TConcat) (additive una) (\<lambda>_ l r. Inr (VStr (display l @ display r)))"

definition comparison :: "step \<Rightarrow> step" where
  "comparison una toks =
     (case concat_level una toks of
        Inl e \<Rightarrow> Inl e
      | Inr (left, r) \<Rightarrow>
          (case Option.bind (if r = [] then None else Some (hd r)) cmp_op_of of
             None \<Rightarrow> Inr (left, r)
           | Some op \<Rightarrow>
               (case concat_level una (tl r) of
                  Inl e \<Rightarrow> Inl e
                | Inr (right, r') \<Rightarrow> Inr (of_bool_value (compare left right op), r'))))"

definition logic_and :: "step \<Rightarrow> step" where
  "logic_and una =
     binary_level (token_op TAndAnd) (comparison una) (\<lambda>_ l r. Inr (of_bool_value (truthy l \<and> truthy r)))"

definition logic_or :: "step \<Rightarrow> step" where
  "logic_or una =
     binary_level (token_op TOrOr) (logic_and una) (\<lambda>_ l r. Inr (of_bool_value (truthy l \<or> truthy r)))"

definition ternary_step :: "step \<Rightarrow> step \<Rightarrow> step" where
  "ternary_step una ter toks =
     (case logic_or una toks of
        Inl e \<Rightarrow> Inl e
      | Inr (cond, r) \<Rightarrow>
          if r \<noteq> [] \<and> hd r = TQuestion then
            (case ter (tl r) of
               Inl e \<Rightarrow> Inl e
             | Inr (then_branch, r1) \<Rightarrow>
                 if r1 = [] \<or> hd r1 \<noteq> TColon then Inl Missing_colon
                 else (case ter (tl r1) of
                   Inl e \<Rightarrow> Inl e
                 | Inr (else_branch, r2) \<Rightarrow> Inr (if truthy cond then then_branch else else_branch, r2)))
          else Inr (cond, r))"

definition primary :: "resolver option \<Rightarrow> step \<Rightarrow> step" where
  "primary opts ter toks =
     (case toks of
        [] \<Rightarrow> Inl Unexpected_end
      | t # r \<Rightarrow>
          (case t of
             TInt n \<Rightarrow> Inr (VInt n, r)
           | TFloat f \<Rightarrow> Inr (VFloat f, r)
           | TStr s \<Rightarrow> Inr (VStr s, r)
           | TLParen \<Rightarrow>
               (case ter r of
                  Inl e \<Rightarrow> Inl e
                | Inr (v, r') \<Rightarrow> if r' \<noteq> [] \<and> hd r' = TRParen then Inr (v, tl r') else Inl Missing_paren)
           | TOption name \<Rightarrow>
               (case opts of
                  None \<Rightarrow> Inl (Options_unavailable name)
                | Some resolve \<Rightarrow>
                    (case resolve name of
                       Some (OptInt n) \<Rightarrow> Inr (VInt n, r)
                     | Some (OptStr s) \<Rightarrow> Inr (VStr s, r)
                     | None \<Rightarrow> Inl (Unknown_option name)))
           | TIdent name \<Rightarrow> Inl (Undefined_variable name)
           | _ \<Rightarrow> Inl (Unexpected_token t)))"

definition unary_step :: "resolver option \<Rightarrow> step \<Rightarrow> step \<Rightarrow> step" where
  "unary_step opts una ter toks =
     (case toks of
        TMinus # r \<Rightarrow>
          (case una r of
             Inl e \<Rightarrow> Inl e
           | Inr (v, r') \<Rightarrow> (case arith (VInt 0) v Sub of Inl e \<Rightarrow> Inl e | Inr w \<Rightarrow> Inr (w, r')))
      | TPlus # r \<Rightarrow> una r
      | TBang # r \<Rightarrow>
          (case una r of Inl e \<Rightarrow> Inl e | Inr (v, r') \<Rightarrow> Inr (of_bool_value (\<not> truthy v), r'))
      | _ \<Rightarrow> primary opts ter toks)"

text \<open>\<open>nested\<close>: the number counts the levels of recursion still allowed.\<close>

fun unary :: "resolver option \<Rightarrow> nat \<Rightarrow> step"
and ternary :: "resolver option \<Rightarrow> nat \<Rightarrow> step"
where
  "unary opts 0 toks = Inl Too_recursive"
| "unary opts (Suc d) toks = unary_step opts (unary opts d) (ternary opts d) toks"
| "ternary opts 0 toks = Inl Too_recursive"
| "ternary opts (Suc d) toks = ternary_step (unary opts d) (ternary opts d) toks"

text \<open>The entry points.\<close>

function eval_all :: "resolver option \<Rightarrow> tok list \<Rightarrow> eval_error + ustring list" where
  "eval_all opts toks =
     (if toks = [] then Inr []
      else case ternary opts MAX_EXPR_DEPTH toks of
        Inl e \<Rightarrow> Inl e
      | Inr (v, r) \<Rightarrow>
          if length r < length toks then
            (case eval_all opts r of Inl e \<Rightarrow> Inl e | Inr ps \<Rightarrow> Inr (display v # ps))
          else Inr [display v])"
  by pat_completeness auto
termination
  by (relation "measure (\<lambda>(_, toks). length toks)") auto

declare eval_all.simps [simp del]

fun join_spaces :: "ustring list \<Rightarrow> ustring" where
  "join_spaces [] = []"
| "join_spaces [p] = p"
| "join_spaces (p # ps) = p @ 32 # join_spaces ps"

definition eval_echo :: "ustring \<Rightarrow> eval_error + ustring" where
  "eval_echo input =
     (let t = trim input in
      if t = [] then Inr []
      else case tokenize t of
        Inl e \<Rightarrow> Inl e
      | Inr toks \<Rightarrow> (case eval_all None toks of Inl e \<Rightarrow> Inl e | Inr ps \<Rightarrow> Inr (join_spaces ps)))"

definition eval_expr :: "ustring \<Rightarrow> resolver \<Rightarrow> eval_error + ustring" where
  "eval_expr input resolve =
     (let t = trim input in
      if t = [] then Inr []
      else case tokenize t of
        Inl e \<Rightarrow> Inl e
      | Inr toks \<Rightarrow>
          (case ternary (Some resolve) MAX_EXPR_DEPTH toks of
             Inl e \<Rightarrow> Inl e
           | Inr (v, r) \<Rightarrow> if r \<noteq> [] then Inl (Trailing_tokens t) else Inr (display v)))"

end
