(* ===== verification/ExprProps.thy ===== *)
theory ExprProps
  imports Expr
begin

text \<open>
  Correctness of the expression evaluator: a reference syntax of expressions with their precedences,
  their meaning by recursion on that syntax, and every spelling of their text: decimal and hexadecimal
  numbers, both kinds of quotes, both concatenation operators, redundant parentheses, blanks or none.
  The recursive descent gives the meaning of the text it reads or says that it nests too deep; a typing
  judgement says which expressions cannot fail otherwise and what they give.
\<close>

section \<open>Reference syntax and meaning\<close>

datatype expr =
    LitInt int | LitFloat f64 | LitStr ustring | OptRef ustring | Paren expr
  | Negate expr | Posit expr | NotE expr
  | Arith arith_op expr expr | Cat expr expr | Cmp cmp_op expr expr
  | And expr expr | Or expr expr | Cond expr expr expr

definition and_then :: "'e + 'a \<Rightarrow> ('a \<Rightarrow> 'e + 'b) \<Rightarrow> 'e + 'b" where
  "and_then r f = (case r of Inl e \<Rightarrow> Inl e | Inr v \<Rightarrow> f v)"

lemma and_then_simps [simp]: "and_then (Inl e) f = Inl e" "and_then (Inr v) f = f v"
  by (simp_all add: and_then_def)

lemma and_then_assoc: "and_then (and_then r f) g = and_then r (\<lambda>v. and_then (f v) g)"
  by (cases r) simp_all

definition option_value :: "resolver option \<Rightarrow> ustring \<Rightarrow> eval_error + value_t" where
  "option_value opts n =
     (case opts of
        None \<Rightarrow> Inl (Options_unavailable n)
      | Some r \<Rightarrow>
          (case r n of
             None \<Rightarrow> Inl (Unknown_option n)
           | Some (OptInt i) \<Rightarrow> Inr (VInt i)
           | Some (OptStr s) \<Rightarrow> Inr (VStr s)))"

text \<open>The meaning: \<open>&&\<close>, \<open>||\<close> and \<open>? :\<close> evaluate only the operands they need.\<close>

fun meaning :: "resolver option \<Rightarrow> expr \<Rightarrow> eval_error + value_t" where
  "meaning opts (LitInt n) = Inr (VInt n)"
| "meaning opts (LitFloat f) = Inr (VFloat f)"
| "meaning opts (LitStr s) = Inr (VStr s)"
| "meaning opts (OptRef n) = option_value opts n"
| "meaning opts (Paren a) = meaning opts a"
| "meaning opts (Negate a) = and_then (meaning opts a) (\<lambda>v. arith (VInt 0) v Sub)"
| "meaning opts (Posit a) = meaning opts a"
| "meaning opts (NotE a) = and_then (meaning opts a) (\<lambda>v. Inr (of_bool_value (\<not> truthy v)))"
| "meaning opts (Arith op a b) =
     and_then (meaning opts a) (\<lambda>v. and_then (meaning opts b) (\<lambda>w. arith v w op))"
| "meaning opts (Cat a b) =
     and_then (meaning opts a) (\<lambda>v. and_then (meaning opts b) (\<lambda>w. Inr (VStr (display v @ display w))))"
| "meaning opts (Cmp op a b) =
     and_then (meaning opts a) (\<lambda>v. and_then (meaning opts b) (\<lambda>w. Inr (of_bool_value (compare v w op))))"
| "meaning opts (And a b) =
     and_then (meaning opts a) (\<lambda>v.
       if truthy v then and_then (meaning opts b) (\<lambda>w. Inr (of_bool_value (truthy w)))
       else Inr (of_bool_value False))"
| "meaning opts (Or a b) =
     and_then (meaning opts a) (\<lambda>v.
       if truthy v then Inr (of_bool_value True)
       else and_then (meaning opts b) (\<lambda>w. Inr (of_bool_value (truthy w))))"
| "meaning opts (Cond c a b) =
     and_then (meaning opts c) (\<lambda>v. if truthy v then meaning opts a else meaning opts b)"

text \<open>No operand that the meaning passes over would fail: the evaluator evaluates those too.\<close>

definition succeeds :: "'e + 'a \<Rightarrow> bool" where
  "succeeds r = (case r of Inl _ \<Rightarrow> False | Inr _ \<Rightarrow> True)"

definition passes_over :: "(value_t \<Rightarrow> bool) \<Rightarrow> eval_error + value_t \<Rightarrow> eval_error + value_t \<Rightarrow> bool" where
  "passes_over skip v w = (case v of Inl _ \<Rightarrow> True | Inr x \<Rightarrow> skip x \<longrightarrow> succeeds w)"

fun skips_safely :: "resolver option \<Rightarrow> expr \<Rightarrow> bool" where
  "skips_safely opts (Paren a) = skips_safely opts a"
| "skips_safely opts (Negate a) = skips_safely opts a"
| "skips_safely opts (Posit a) = skips_safely opts a"
| "skips_safely opts (NotE a) = skips_safely opts a"
| "skips_safely opts (Arith _ a b) = (skips_safely opts a \<and> skips_safely opts b)"
| "skips_safely opts (Cat a b) = (skips_safely opts a \<and> skips_safely opts b)"
| "skips_safely opts (Cmp _ a b) = (skips_safely opts a \<and> skips_safely opts b)"
| "skips_safely opts (And a b) =
     (skips_safely opts a \<and> skips_safely opts b \<and>
      passes_over (\<lambda>v. \<not> truthy v) (meaning opts a) (meaning opts b))"
| "skips_safely opts (Or a b) =
     (skips_safely opts a \<and> skips_safely opts b \<and> passes_over truthy (meaning opts a) (meaning opts b))"
| "skips_safely opts (Cond c a b) =
     (skips_safely opts c \<and> skips_safely opts a \<and> skips_safely opts b \<and>
      passes_over truthy (meaning opts c) (meaning opts b) \<and>
      passes_over (\<lambda>v. \<not> truthy v) (meaning opts c) (meaning opts a))"
| "skips_safely opts _ = True"

text \<open>What the evaluator computes: every operand is evaluated, left to right.\<close>

fun eager :: "resolver option \<Rightarrow> expr \<Rightarrow> eval_error + value_t" where
  "eager opts (LitInt n) = Inr (VInt n)"
| "eager opts (LitFloat f) = Inr (VFloat f)"
| "eager opts (LitStr s) = Inr (VStr s)"
| "eager opts (OptRef n) = option_value opts n"
| "eager opts (Paren a) = eager opts a"
| "eager opts (Negate a) = and_then (eager opts a) (\<lambda>v. arith (VInt 0) v Sub)"
| "eager opts (Posit a) = eager opts a"
| "eager opts (NotE a) = and_then (eager opts a) (\<lambda>v. Inr (of_bool_value (\<not> truthy v)))"
| "eager opts (Arith op a b) =
     and_then (eager opts a) (\<lambda>v. and_then (eager opts b) (\<lambda>w. arith v w op))"
| "eager opts (Cat a b) =
     and_then (eager opts a) (\<lambda>v. and_then (eager opts b) (\<lambda>w. Inr (VStr (display v @ display w))))"
| "eager opts (Cmp op a b) =
     and_then (eager opts a) (\<lambda>v. and_then (eager opts b) (\<lambda>w. Inr (of_bool_value (compare v w op))))"
| "eager opts (And a b) =
     and_then (eager opts a) (\<lambda>v. and_then (eager opts b) (\<lambda>w.
       Inr (of_bool_value (truthy v \<and> truthy w))))"
| "eager opts (Or a b) =
     and_then (eager opts a) (\<lambda>v. and_then (eager opts b) (\<lambda>w.
       Inr (of_bool_value (truthy v \<or> truthy w))))"
| "eager opts (Cond c a b) =
     and_then (eager opts c) (\<lambda>v. and_then (eager opts a) (\<lambda>x. and_then (eager opts b) (\<lambda>y.
       Inr (if truthy v then x else y))))"

lemma eager_meaning: "skips_safely opts e \<Longrightarrow> eager opts e = meaning opts e"
proof (induction e)
  case (And a b)
  then show ?case
    by (cases "meaning opts a"; cases "meaning opts b") (simp_all add: passes_over_def succeeds_def)
next
  case (Or a b)
  then show ?case
    by (cases "meaning opts a"; cases "meaning opts b") (simp_all add: passes_over_def succeeds_def)
next
  case (Cond c a b)
  then show ?case
    by (cases "meaning opts c"; cases "meaning opts a"; cases "meaning opts b")
       (simp_all add: passes_over_def succeeds_def split: if_splits)
qed simp_all

section \<open>Text\<close>

text \<open>Precedences: from the conditional (0) to the operands (7).\<close>

fun prec :: "expr \<Rightarrow> nat" where
  "prec (Cond _ _ _) = 0"
| "prec (Or _ _) = 1"
| "prec (And _ _) = 2"
| "prec (Cmp _ _ _) = 3"
| "prec (Cat _ _) = 4"
| "prec (Arith op _ _) = (if op = Add \<or> op = Sub then 5 else 6)"
| "prec _ = 7"

text \<open>An expression's tokens, with the parentheses its operands need and those it has of its own.\<close>

fun arith_tok :: "arith_op \<Rightarrow> tok" where
  "arith_tok Add = TPlus"
| "arith_tok Sub = TMinus"
| "arith_tok Mul = TStar"
| "arith_tok Div = TSlash"
| "arith_tok Rem = TPercent"

fun cmp_tok :: "cmp_op \<Rightarrow> tok" where
  "cmp_tok OpEq = TEq"
| "cmp_tok OpNe = TNe"
| "cmp_tok OpLt = TLt"
| "cmp_tok OpLe = TLe"
| "cmp_tok OpGt = TGt"
| "cmp_tok OpGe = TGe"

definition wrapped :: "bool \<Rightarrow> tok list \<Rightarrow> tok list" where
  "wrapped p ts = (if p then TLParen # ts @ [TRParen] else ts)"

fun toks :: "nat \<Rightarrow> expr \<Rightarrow> tok list" where
  "toks p (LitInt n) = [TInt n]"
| "toks p (LitFloat f) = [TFloat f]"
| "toks p (LitStr s) = [TStr s]"
| "toks p (OptRef n) = [TOption n]"
| "toks p (Paren a) = TLParen # toks 0 a @ [TRParen]"
| "toks p (Negate a) = TMinus # toks 7 a"
| "toks p (Posit a) = TPlus # toks 7 a"
| "toks p (NotE a) = TBang # toks 7 a"
| "toks p (Arith op a b) =
     (let q = prec (Arith op a b) in wrapped (q < p) (toks q a @ arith_tok op # toks (q + 1) b))"
| "toks p (Cat a b) = wrapped (4 < p) (toks 4 a @ TConcat # toks 5 b)"
| "toks p (Cmp op a b) = wrapped (3 < p) (toks 4 a @ cmp_tok op # toks 4 b)"
| "toks p (And a b) = wrapped (2 < p) (toks 2 a @ TAndAnd # toks 3 b)"
| "toks p (Or a b) = wrapped (1 < p) (toks 1 a @ TOrOr # toks 2 b)"
| "toks p (Cond c a b) = wrapped (0 < p) (toks 1 c @ TQuestion # toks 0 a @ TColon # toks 0 b)"

lemma toks_nonempty [simp]: "toks p e \<noteq> []"
  by (cases e) (auto simp: wrapped_def Let_def)

text \<open>The number a literal stands for: 0 where it does not fit 64 bits.\<close>

definition int_lit :: "ustring \<Rightarrow> int" where
  "int_lit ds = (case parse_i64 False ds of Some n \<Rightarrow> n | None \<Rightarrow> 0)"

definition hex_lit :: "ustring \<Rightarrow> int" where
  "hex_lit hs = (case parse_hex_i64 hs of Some n \<Rightarrow> n | None \<Rightarrow> 0)"

definition is_hex :: "uchar \<Rightarrow> bool" where
  "is_hex c \<longleftrightarrow> hex_digit c \<noteq> None"

definition starts :: "(uchar \<Rightarrow> bool) \<Rightarrow> ustring \<Rightarrow> bool" where
  "starts P s \<longleftrightarrow> s \<noteq> [] \<and> P (hd s)"

text \<open>The inside of a text in single quotes, and in double quotes: five letters name a control character
  after a backslash, any other character stands for itself after one.\<close>

definition quoted :: "ustring \<Rightarrow> ustring" where
  "quoted s = 39 # concat (map (\<lambda>c. if c = 39 then [39, 39] else [c]) s) @ [39]"

definition escapes :: "(uchar \<times> uchar) list" where
  "escapes = [(uc CHR ''n'', 10), (uc CHR ''t'', 9), (uc CHR ''r'', 13), (uc CHR ''0'', 0), (uc CHR ''e'', 27)]"

inductive double_quoted :: "ustring \<Rightarrow> ustring \<Rightarrow> bool" where
  none: "double_quoted [] []"
| plain: "c \<noteq> 34 \<Longrightarrow> c \<noteq> 92 \<Longrightarrow> double_quoted s b \<Longrightarrow> double_quoted (c # s) (c # b)"
| named: "map_of escapes k = Some c \<Longrightarrow> double_quoted s b \<Longrightarrow> double_quoted (c # s) (92 # k # b)"
| other: "map_of escapes c = None \<Longrightarrow> double_quoted s b \<Longrightarrow> double_quoted (c # s) (92 # c # b)"

text \<open>The tokens with one spelling whatever follows.\<close>

definition fixed_spellings :: "(tok \<times> ustring) list" where
  "fixed_spellings =
     [(TPlus, us ''+''), (TMinus, us ''-''), (TStar, us ''*''), (TSlash, us ''/''), (TPercent, us ''%''),
      (TLParen, us ''(''), (TRParen, us '')''), (TEq, us ''==''), (TNe, us ''!=''), (TLe, us ''<=''),
      (TGe, us ''>=''), (TAndAnd, us ''&&''), (TOrOr, us ''||''), (TQuestion, us ''?''), (TColon, us '':''),
      (TConcat, us ''..'')]"

text \<open>\<open>spelling t s rest\<close>: \<open>s\<close> is a way to write \<open>t\<close> where \<open>rest\<close> follows, which must not run on.\<close>

inductive spelling :: "tok \<Rightarrow> ustring \<Rightarrow> ustring \<Rightarrow> bool" where
  fixed: "(t, s) \<in> set fixed_spellings \<Longrightarrow> spelling t s rest"
| less: "\<not> starts ((=) 61) rest \<Longrightarrow> spelling TLt (us ''<'') rest"
| greater: "\<not> starts ((=) 61) rest \<Longrightarrow> spelling TGt (us ''>'') rest"
| bang: "\<not> starts ((=) 61) rest \<Longrightarrow> spelling TBang (us ''!'') rest"
| dot: "\<not> starts ((=) 46) rest \<Longrightarrow> spelling TConcat (us ''.'') rest"
| decimal: "ds \<noteq> [] \<Longrightarrow> list_all is_ascii_digit ds \<Longrightarrow> \<not> starts is_ascii_digit rest \<Longrightarrow>
    \<not> (starts ((=) 46) rest \<and> starts is_ascii_digit (tl rest)) \<Longrightarrow>
    \<not> (ds = [48] \<and> starts (\<lambda>c. c = uc CHR ''x'' \<or> c = uc CHR ''X'') rest) \<Longrightarrow>
    spelling (TInt (int_lit ds)) ds rest"
| hexadecimal: "x = uc CHR ''x'' \<or> x = uc CHR ''X'' \<Longrightarrow> list_all is_hex hs \<Longrightarrow> \<not> starts is_hex rest \<Longrightarrow>
    spelling (TInt (hex_lit hs)) (48 # x # hs) rest"
| fraction: "ds \<noteq> [] \<Longrightarrow> list_all is_ascii_digit ds \<Longrightarrow> fs \<noteq> [] \<Longrightarrow> list_all is_ascii_digit fs \<Longrightarrow>
    \<not> starts is_ascii_digit rest \<Longrightarrow> spelling (TFloat (f_of_decimal False ds fs)) (ds @ us ''.'' @ fs) rest"
| single: "\<not> starts ((=) 39) rest \<Longrightarrow> spelling (TStr s) (quoted s) rest"
| double: "double_quoted s b \<Longrightarrow> spelling (TStr s) (34 # b @ [34]) rest"
| opt: "n \<noteq> [] \<Longrightarrow> list_all is_name_char n \<Longrightarrow> \<not> starts is_name_char rest \<Longrightarrow>
    \<not> ((n = us ''l'' \<or> n = us ''g'') \<and> starts ((=) (uc CHR '':'')) rest) \<Longrightarrow>
    spelling (TOption n) (us ''&'' @ n) rest"
| scoped: "n \<noteq> [] \<Longrightarrow> list_all is_name_char n \<Longrightarrow> \<not> starts is_name_char rest \<Longrightarrow>
    scope = us ''l:'' \<or> scope = us ''g:'' \<Longrightarrow> spelling (TOption n) (us ''&'' @ scope @ n) rest"

text \<open>A text of tokens: each spelt before what follows, with any blanks in between.\<close>

inductive text_of :: "tok list \<Rightarrow> ustring \<Rightarrow> bool" where
  one: "spelling t s [] \<Longrightarrow> text_of [t] s"
| more: "spelling t s (bs @ u) \<Longrightarrow> list_all (\<lambda>c. c = 32 \<or> c = 9) bs \<Longrightarrow> text_of ts u \<Longrightarrow>
    text_of (t # ts) (s @ bs @ u)"

text \<open>The recursion an expression needs: \<open>need p e\<close> for its text in a context of precedence \<open>p\<close>
  (0 in a whole expression, an argument of \<open>? :\<close> or parentheses, otherwise an operand).\<close>

fun inner_need :: "expr \<Rightarrow> nat" where
  "inner_need (Negate a) = 1 + (if prec a < 7 then 2 + inner_need a else inner_need a)"
| "inner_need (Posit a) = 1 + (if prec a < 7 then 2 + inner_need a else inner_need a)"
| "inner_need (NotE a) = 1 + (if prec a < 7 then 2 + inner_need a else inner_need a)"
| "inner_need (Arith op a b) =
     (let q = prec (Arith op a b) in
      max (if prec a < q then 2 + inner_need a else inner_need a)
          (if prec b < q + 1 then 2 + inner_need b else inner_need b))"
| "inner_need (Cat a b) =
     max (if prec a < 4 then 2 + inner_need a else inner_need a)
         (if prec b < 5 then 2 + inner_need b else inner_need b)"
| "inner_need (Cmp op a b) =
     max (if prec a < 4 then 2 + inner_need a else inner_need a)
         (if prec b < 4 then 2 + inner_need b else inner_need b)"
| "inner_need (And a b) =
     max (if prec a < 2 then 2 + inner_need a else inner_need a)
         (if prec b < 3 then 2 + inner_need b else inner_need b)"
| "inner_need (Or a b) =
     max (if prec a < 1 then 2 + inner_need a else inner_need a)
         (if prec b < 2 then 2 + inner_need b else inner_need b)"
| "inner_need (Cond c a b) =
     max (if prec c < 1 then 2 + inner_need c else inner_need c)
         (1 + max (inner_need a) (inner_need b))"
| "inner_need (Paren a) = 2 + inner_need a"
| "inner_need _ = 1"

definition need :: "nat \<Rightarrow> expr \<Rightarrow> nat" where
  "need p e =
     (if p = 0 then 1 + inner_need e else if prec e < p then 2 + inner_need e else inner_need e)"

section \<open>The loops of the binary levels\<close>

text \<open>\<open>reads f ts r\<close>: on the tokens \<open>ts\<close> the step \<open>f\<close> gives \<open>r\<close> and stops at what follows them.\<close>

definition give :: "tok list \<Rightarrow> eval_error + value_t \<Rightarrow> eval_error + value_t \<times> tok list" where
  "give rest r = and_then r (\<lambda>v. Inr (v, rest))"

lemma give_simps [simp]: "give rest (Inl e) = Inl e" "give rest (Inr v) = Inr (v, rest)"
  by (simp_all add: give_def)

lemma level_loop_stop:
  "(case rest of [] \<Rightarrow> True | t # _ \<Rightarrow> op_of t = None) \<Longrightarrow>
   level_loop op_of operand combine v rest = Inr (v, rest)"
  by (subst level_loop.simps) (auto split: list.splits)

lemma level_loop_op:
  assumes "op_of t = Some op" and "operand (ts @ rest) = give rest r"
  shows "level_loop op_of operand combine v (t # ts @ rest) =
    and_then r (\<lambda>w. and_then (combine op v w) (\<lambda>x. level_loop op_of operand combine x rest))"
  using assms by (subst level_loop.simps) (cases r; auto split: sum.splits simp: and_then_def)

lemma level_operand:
  assumes "operand (ts @ rest) = give rest r"
  shows "binary_level op_of operand combine (ts @ rest) =
    and_then r (\<lambda>v. level_loop op_of operand combine v rest)"
  using assms by (cases r) (simp_all add: binary_level_def)

text \<open>What an expression may not be followed by: an operator that binds at its level or above.\<close>

fun tok_level :: "tok \<Rightarrow> nat option" where
  "tok_level TQuestion = Some 0"
| "tok_level TOrOr = Some 1"
| "tok_level TAndAnd = Some 2"
| "tok_level TConcat = Some 4"
| "tok_level t =
     (if cmp_op_of t \<noteq> None then Some 3 else if add_op t \<noteq> None then Some 5
      else if mul_op t \<noteq> None then Some 6 else None)"

definition stops :: "nat \<Rightarrow> tok list \<Rightarrow> bool" where
  "stops p rest =
     (case rest of [] \<Rightarrow> True | t # _ \<Rightarrow> (case tok_level t of None \<Rightarrow> True | Some l \<Rightarrow> l < p))"

lemma stops_simps [simp]:
  "stops p []" "stops p (t # r) = (case tok_level t of None \<Rightarrow> True | Some l \<Rightarrow> l < p)"
  by (simp_all add: stops_def)

lemma stops_mono: "stops p rest \<Longrightarrow> p \<le> q \<Longrightarrow> stops q rest"
  by (auto simp: stops_def split: list.splits option.splits)
section \<open>The descent evaluates every operand\<close>

text \<open>The function of the descent that reads an expression in a context of precedence \<open>p\<close>, and
  the loop a binary level continues with.\<close>

definition reader_at :: "resolver option \<Rightarrow> nat \<Rightarrow> nat \<Rightarrow> step" where
  "reader_at opts d p =
     (if p = 0 then ternary opts d else if p = 1 then logic_or (unary opts d)
      else if p = 2 then logic_and (unary opts d) else if p = 3 then comparison (unary opts d)
      else if p = 4 then concat_level (unary opts d) else if p = 5 then additive (unary opts d)
      else if p = 6 then multiplicative (unary opts d) else unary opts d)"

definition loop_at :: "resolver option \<Rightarrow> nat \<Rightarrow> nat \<Rightarrow> value_t \<Rightarrow> step" where
  "loop_at opts d p v =
     (if p = 1 then level_loop (token_op TOrOr) (reader_at opts d 2)
                      (\<lambda>_ l r. Inr (of_bool_value (truthy l \<or> truthy r))) v
      else if p = 2 then level_loop (token_op TAndAnd) (reader_at opts d 3)
                      (\<lambda>_ l r. Inr (of_bool_value (truthy l \<and> truthy r))) v
      else if p = 4 then level_loop (token_op TConcat) (reader_at opts d 5)
                      (\<lambda>_ l r. Inr (VStr (display l @ display r))) v
      else if p = 5 then level_loop add_op (reader_at opts d 6) (\<lambda>op l r. arith l r op) v
      else level_loop mul_op (reader_at opts d 7) (\<lambda>op l r. arith l r op) v)"

definition is_loop_level :: "nat \<Rightarrow> bool" where
  "is_loop_level p \<longleftrightarrow> p = 1 \<or> p = 2 \<or> p = 4 \<or> p = 5 \<or> p = 6"

definition reads_in :: "resolver option \<Rightarrow> nat \<Rightarrow> expr \<Rightarrow> bool" where
  "reads_in opts p e \<longleftrightarrow>
     (\<forall>d rest. need p e \<le> d \<longrightarrow> stops p rest \<longrightarrow>
        reader_at opts d p (toks p e @ rest) = give rest (eager opts e))"

definition reads_into :: "resolver option \<Rightarrow> nat \<Rightarrow> expr \<Rightarrow> bool" where
  "reads_into opts p e \<longleftrightarrow>
     (\<forall>d rest. need p e \<le> d \<longrightarrow> stops (p + 1) rest \<longrightarrow>
        reader_at opts d p (toks p e @ rest) = and_then (eager opts e) (\<lambda>v. loop_at opts d p v rest))"

lemma reads_inD:
  "reads_in opts p e \<Longrightarrow> need p e \<le> d \<Longrightarrow> stops p rest \<Longrightarrow>
   reader_at opts d p (toks p e @ rest) = give rest (eager opts e)"
  by (simp add: reads_in_def)

lemma reads_intoD:
  "reads_into opts p e \<Longrightarrow> need p e \<le> d \<Longrightarrow> stops (p + 1) rest \<Longrightarrow>
   reader_at opts d p (toks p e @ rest) = and_then (eager opts e) (\<lambda>v. loop_at opts d p v rest)"
  by (simp add: reads_into_def)

lemma prec_le: "prec e \<le> 7"
  by (cases e) auto

lemma toks_paren: "p \<le> 7 \<Longrightarrow> toks p e = (if prec e < p then TLParen # toks 0 e @ [TRParen] else toks 0 e)"
  by (cases e) (auto simp: wrapped_def Let_def)

lemma reader_level:
  assumes "is_loop_level p" and "reader_at opts d (p + 1) (ts @ rest) = give rest r"
  shows "reader_at opts d p (ts @ rest) = and_then r (\<lambda>v. loop_at opts d p v rest)"
  using assms unfolding is_loop_level_def
  by (elim disjE)
     (simp_all add: reader_at_def loop_at_def logic_or_def logic_and_def concat_level_def additive_def
        multiplicative_def level_operand)

lemma tok_op_level:
  "add_op t \<noteq> None \<Longrightarrow> tok_level t = Some 5" "mul_op t \<noteq> None \<Longrightarrow> tok_level t = Some 6"
  "cmp_op_of t \<noteq> None \<Longrightarrow> tok_level t = Some 3"
  by (cases t; simp)+

lemma stops_op:
  assumes "stops p rest" and "\<And>t. op_of t \<noteq> None \<Longrightarrow> tok_level t = Some p"
  shows "level_loop op_of operand combine v rest = Inr (v, rest)"
proof (rule level_loop_stop, cases rest)
  case (Cons t r)
  with assms have "op_of t = None" by (cases "op_of t") force+
  with Cons show "case rest of [] \<Rightarrow> True | t # _ \<Rightarrow> op_of t = None" by simp
qed simp

lemma token_op_level: "tok_level u = Some p \<Longrightarrow> token_op u t \<noteq> None \<Longrightarrow> tok_level t = Some p"
  unfolding token_op_def by (cases "t = u") simp_all

lemma loop_at_levels:
  "loop_at opts d 1 v =
     level_loop (token_op TOrOr) (reader_at opts d 2) (\<lambda>_ l r. Inr (of_bool_value (truthy l \<or> truthy r))) v"
  "loop_at opts d 2 v =
     level_loop (token_op TAndAnd) (reader_at opts d 3) (\<lambda>_ l r. Inr (of_bool_value (truthy l \<and> truthy r))) v"
  "loop_at opts d 4 v =
     level_loop (token_op TConcat) (reader_at opts d 5) (\<lambda>_ l r. Inr (VStr (display l @ display r))) v"
  "loop_at opts d 5 v = level_loop add_op (reader_at opts d 6) (\<lambda>op l r. arith l r op) v"
  "loop_at opts d 6 v = level_loop mul_op (reader_at opts d 7) (\<lambda>op l r. arith l r op) v"
  by (simp_all add: loop_at_def)

lemma loop_stops:
  assumes "is_loop_level p" and "stops p rest"
  shows "loop_at opts d p v rest = Inr (v, rest)"
  using assms(1) unfolding is_loop_level_def
proof (elim disjE)
  assume "p = 1"
  then show ?thesis using assms(2)
    by (simp only: loop_at_levels) (erule stops_op, erule token_op_level[rotated], simp)
next
  assume "p = 2"
  then show ?thesis using assms(2)
    by (simp only: loop_at_levels) (erule stops_op, erule token_op_level[rotated], simp)
next
  assume "p = 4"
  then show ?thesis using assms(2)
    by (simp only: loop_at_levels) (erule stops_op, erule token_op_level[rotated], simp)
next
  assume "p = 5"
  then show ?thesis using assms(2)
    by (simp only: loop_at_levels) (erule stops_op, drule tok_op_level(1), simp)
next
  assume "p = 6"
  then show ?thesis using assms(2)
    by (simp only: loop_at_levels) (erule stops_op, drule tok_op_level(2), simp)
qed

lemma reads_into_in: "is_loop_level p \<Longrightarrow> reads_into opts p e \<Longrightarrow> reads_in opts p e"
  unfolding reads_in_def
proof (intro allI impI)
  fix d rest assume "is_loop_level p" "reads_into opts p e" "need p e \<le> d" "stops p rest"
  moreover from this(4) have "stops (p + 1) rest" by (rule stops_mono) simp
  ultimately show "reader_at opts d p (toks p e @ rest) = give rest (eager opts e)"
    using reads_intoD[of opts p e d rest] by (simp add: loop_stops give_def)
qed

lemma toks_next: "prec e \<noteq> p \<Longrightarrow> p < 7 \<Longrightarrow> toks p e = toks (p + 1) e"
  using toks_paren[of p e] toks_paren[of "p + 1" e] by auto

lemma need_next: "prec e \<noteq> p \<Longrightarrow> 1 \<le> p \<Longrightarrow> need p e = need (p + 1) e"
  by (auto simp: need_def)

lemma descend_loop:
  assumes "is_loop_level p" and "prec e \<noteq> p" and "reads_in opts (p + 1) e"
  shows "reads_into opts p e"
proof -
  have "1 \<le> p" "p < 7" using assms(1) by (auto simp: is_loop_level_def)
  with assms show ?thesis
    by (auto simp: reads_into_def reads_in_def toks_next need_next[simplified] intro!: reader_level)
qed

lemma descend_comparison:
  assumes "prec e \<noteq> 3" and "reads_in opts 4 e"
  shows "reads_in opts 3 e"
  unfolding reads_in_def
proof (intro allI impI)
  fix d rest assume d: "need 3 e \<le> d" and s: "stops 3 rest"
  then have "reader_at opts d 4 (toks 4 e @ rest) = give rest (eager opts e)"
    using assms need_next[of e 3] stops_mono[OF s, of 4] by (intro reads_inD) auto
  moreover have "cmp_op_of t = None" if "rest = t # r" for t r
    using s that tok_op_level(3)[of t] by (cases "cmp_op_of t") auto
  ultimately show "reader_at opts d 3 (toks 3 e @ rest) = give rest (eager opts e)"
    using assms toks_next[of e 3]
    by (cases "eager opts e"; cases rest) (auto simp: reader_at_def comparison_def)
qed

lemma descend_ternary:
  assumes "prec e \<noteq> 0" and "reads_in opts 1 e"
  shows "reads_in opts 0 e"
  unfolding reads_in_def
proof (intro allI impI)
  fix d rest assume d: "need 0 e \<le> d" and s: "stops 0 rest"
  then obtain d' where d': "d = Suc d'" "need 1 e \<le> d'"
    using assms by (cases d) (auto simp: need_def)
  have "reader_at opts d' 1 (toks 1 e @ rest) = give rest (eager opts e)"
    using assms d' stops_mono[OF s, of 1] by (intro reads_inD) auto
  moreover have "t \<noteq> TQuestion" if "rest = t # r" for t r
    using s that by auto
  ultimately show "reader_at opts d 0 (toks 0 e @ rest) = give rest (eager opts e)"
    using assms d' toks_next[of e 0]
    by (cases "eager opts e"; cases rest) (auto simp: reader_at_def ternary_step_def)
qed

lemma parenthesised:
  assumes "prec e < 7" and "reads_in opts 0 e"
  shows "reads_in opts 7 e"
  unfolding reads_in_def
proof (intro allI impI)
  fix d rest assume d: "need 7 e \<le> d" and s: "stops 7 rest"
  then obtain d' where d': "d = Suc d'" "need 0 e \<le> d'"
    using assms by (cases d) (auto simp: need_def)
  have "reader_at opts d' 0 (toks 0 e @ TRParen # rest) = give (TRParen # rest) (eager opts e)"
    using assms d' by (intro reads_inD) auto
  then show "reader_at opts d 7 (toks 7 e @ rest) = give rest (eager opts e)"
    using assms d' toks_paren[of 7 e]
    by (cases "eager opts e") (auto simp: reader_at_def unary_step_def primary_def)
qed
lemma descend_step:
  assumes "p < 7" and "prec e \<noteq> p" and "reads_in opts (p + 1) e"
  shows "reads_in opts p e"
proof -
  consider "p = 0" | "p = 3" | "is_loop_level p"
    using assms(1) unfolding is_loop_level_def by linarith
  then show ?thesis
  proof cases
    case 1 with assms show ?thesis by (simp add: descend_ternary)
  next
    case 2 with assms show ?thesis by (simp add: descend_comparison)
  next
    case 3 with assms show ?thesis by (blast intro: reads_into_in descend_loop)
  qed
qed

text \<open>It is enough to read an expression in the context of its own precedence.\<close>

definition reads_own :: "resolver option \<Rightarrow> expr \<Rightarrow> bool" where
  "reads_own opts e \<longleftrightarrow>
     (if is_loop_level (prec e) then reads_into opts (prec e) e else reads_in opts (prec e) e)"

lemma reads_own_in: "reads_own opts e \<Longrightarrow> reads_in opts (prec e) e"
  by (auto simp: reads_own_def intro: reads_into_in split: if_splits)

lemma reads_everywhere:
  assumes own: "reads_own opts e" and p: "p \<le> 7"
  shows "reads_in opts p e"
proof -
  have below: "reads_in opts k e" if "k \<le> prec e" for k
    using that
  proof (induction rule: inc_induct)
    case base then show ?case by (rule reads_own_in[OF own])
  next
    case (step n)
    with prec_le[of e] show ?case by - (rule descend_step, auto)
  qed
  have above: "reads_in opts k e" if "k \<le> 7" "prec e < k" for k
    using that
  proof (induction rule: inc_induct)
    case base
    with below[of 0] show ?case by (intro parenthesised) auto
  next
    case (step n)
    then show ?case by - (rule descend_step, auto)
  qed
  from below above p show ?thesis by (cases "p \<le> prec e") auto
qed

lemma reads_into_everywhere:
  assumes own: "reads_own opts e" and p: "is_loop_level p"
  shows "reads_into opts p e"
proof (cases "p = prec e")
  case True
  with own p show ?thesis by (simp add: reads_own_def)
next
  case False
  from p have "p + 1 \<le> 7" by (auto simp: is_loop_level_def)
  with own have "reads_in opts (p + 1) e" by (rule reads_everywhere)
  with False p show ?thesis by (intro descend_loop) auto
qed

text \<open>A binary operator: the left operand at its own level, the right one a level above.\<close>

lemma binary_reads:
  assumes p: "is_loop_level p" "prec e = p"
    and shape: "toks p e = toks p a @ t # toks (p + 1) b" "need p e = max (need p a) (need (p + 1) b)"
    and t: "tok_level t = Some p"
    and loop: "\<And>d v rest. loop_at opts d p v (t # toks (p + 1) b @ rest) =
      (case reader_at opts d (p + 1) (toks (p + 1) b @ rest) of
         Inl x \<Rightarrow> Inl x
       | Inr (w, r) \<Rightarrow>
           and_then (combine v w) (\<lambda>x. if length r \<le> length (toks (p + 1) b @ rest)
             then loop_at opts d p x r else Inr (x, r)))"
    and m: "eager opts e = and_then (eager opts a) (\<lambda>v. and_then (eager opts b) (combine v))"
    and IH: "reads_own opts a" "reads_own opts b"
  shows "reads_own opts e"
proof -
  have "reads_into opts p e"
    unfolding reads_into_def
  proof (intro allI impI)
    fix d rest assume d: "need p e \<le> d" and s: "stops (p + 1) rest"
    have a: "reader_at opts d p (toks p a @ t # toks (p + 1) b @ rest) =
      and_then (eager opts a) (\<lambda>v. loop_at opts d p v (t # toks (p + 1) b @ rest))"
      using d t by (intro reads_intoD reads_into_everywhere IH p) (simp_all add: shape)
    have "p + 1 \<le> 7" using p(1) by (auto simp: is_loop_level_def)
    then have b: "reader_at opts d (p + 1) (toks (p + 1) b @ rest) = give rest (eager opts b)"
      using d s by (intro reads_inD reads_everywhere IH) (simp_all add: shape)
    have "loop_at opts d p v (t # toks (p + 1) b @ rest) =
      and_then (eager opts b) (\<lambda>w. and_then (combine v w) (\<lambda>x. loop_at opts d p x rest))" for v
      unfolding loop b by (cases "eager opts b") simp_all
    with a show "reader_at opts d p (toks p e @ rest) = and_then (eager opts e) (\<lambda>v. loop_at opts d p v rest)"
      by (simp add: shape m and_then_assoc)
  qed
  with p show ?thesis by (simp add: reads_own_def)
qed

lemma level_loop_token:
  "op_of t = Some op \<Longrightarrow>
   level_loop op_of operand combine v (t # ts) =
     (case operand ts of
        Inl x \<Rightarrow> Inl x
      | Inr (w, r) \<Rightarrow>
          and_then (combine op v w) (\<lambda>x. if length r \<le> length ts
            then level_loop op_of operand combine x r else Inr (x, r)))"
  by (subst level_loop.simps, cases "operand ts") (simp_all add: and_then_def split_beta)

lemma reads_own_operand: "prec e = 7 \<Longrightarrow> reads_in opts 7 e \<Longrightarrow> reads_own opts e"
  by (simp add: reads_own_def is_loop_level_def)

lemma atom_reads:
  assumes "\<And>d rest. unary opts (Suc d) (toks 7 e @ rest) = give rest (eager opts e)"
    and "prec e = 7" "need 7 e = 1"
  shows "reads_own opts e"
proof (rule reads_own_operand[OF assms(2)], unfold reads_in_def, intro allI impI)
  fix d rest assume "need 7 e \<le> d"
  with assms(3) obtain d' where "d = Suc d'" by (cases d) auto
  with assms(1) show "reader_at opts d 7 (toks 7 e @ rest) = give rest (eager opts e)"
    by (simp add: reader_at_def)
qed

lemma paren_reads:
  assumes "reads_in opts 0 a"
  shows "reads_own opts (Paren a)"
proof (rule reads_own_operand, simp, unfold reads_in_def, intro allI impI)
  fix d rest assume "need 7 (Paren a) \<le> d"
  then obtain d' where d': "d = Suc d'" "need 0 a \<le> d'" by (cases d) (auto simp: need_def)
  have "reader_at opts d' 0 (toks 0 a @ TRParen # rest) = give (TRParen # rest) (eager opts a)"
    using assms d' by (intro reads_inD) auto
  then show "reader_at opts d 7 (toks 7 (Paren a) @ rest) = give rest (eager opts (Paren a))"
    using d' by (cases "eager opts a") (auto simp: reader_at_def unary_step_def primary_def)
qed

lemma prefix_reads:
  assumes "\<And>d rest. unary opts (Suc d) (t # toks 7 a @ rest) =
      and_then (unary opts d (toks 7 a @ rest)) (\<lambda>(v, r). and_then (f v) (\<lambda>w. Inr (w, r)))"
    and shape: "prec e = 7" "toks 7 e = t # toks 7 a" "need 7 e = 1 + need 7 a"
    and m: "eager opts e = and_then (eager opts a) f"
    and IH: "reads_own opts a"
  shows "reads_own opts e"
proof (rule reads_own_operand[OF shape(1)], unfold reads_in_def, intro allI impI)
  fix d rest assume "need 7 e \<le> d" and s: "stops 7 rest"
  then obtain d' where d': "d = Suc d'" "need 7 a \<le> d'" using shape(3) by (cases d) auto
  have "reader_at opts d' 7 (toks 7 a @ rest) = give rest (eager opts a)"
    using d' s by (intro reads_inD reads_everywhere IH) auto
  then have "unary opts d' (toks 7 a @ rest) = give rest (eager opts a)"
    by (simp add: reader_at_def)
  with d' show "reader_at opts d 7 (toks 7 e @ rest) = give rest (eager opts e)"
    by (cases "eager opts a")
       (simp_all add: reader_at_def shape m assms(1) give_def del: unary.simps)
qed

lemma comparison_reads:
  assumes IH: "reads_own opts a" "reads_own opts b"
  shows "reads_own opts (Cmp op a b)"
proof -
  have "reads_in opts 3 (Cmp op a b)"
    unfolding reads_in_def
  proof (intro allI impI)
    fix d rest assume d: "need 3 (Cmp op a b) \<le> d" and s: "stops 3 rest"
    obtain t where t: "cmp_tok op = t" "cmp_op_of t = Some op" "tok_level t = Some 3"
      by (cases op) auto
    have a: "reader_at opts d 4 (toks 4 a @ t # toks 4 b @ rest) =
      give (t # toks 4 b @ rest) (eager opts a)"
      using d t by (intro reads_inD reads_everywhere IH) (auto simp: need_def)
    have b: "reader_at opts d 4 (toks 4 b @ rest) = give rest (eager opts b)"
      using d stops_mono[OF s, of 4] by (intro reads_inD reads_everywhere IH) (auto simp: need_def)
    show "reader_at opts d 3 (toks 3 (Cmp op a b) @ rest) = give rest (eager opts (Cmp op a b))"
      using a b t
      by (cases "eager opts a"; cases "eager opts b")
         (simp_all add: reader_at_def comparison_def wrapped_def)
  qed
  then show ?thesis by (simp add: reads_own_def is_loop_level_def)
qed

lemma conditional_reads:
  assumes IH: "reads_own opts c" "reads_own opts a" "reads_own opts b"
  shows "reads_own opts (Cond c a b)"
proof -
  have "reads_in opts 0 (Cond c a b)"
    unfolding reads_in_def
  proof (intro allI impI)
    fix d rest assume "need 0 (Cond c a b) \<le> d" and s: "stops 0 rest"
    then obtain d' where d: "d = Suc d'" "need 1 c \<le> d'" "need 0 a \<le> d'" "need 0 b \<le> d'"
      by (cases d) (auto simp: need_def)
    let ?r2 = "TColon # toks 0 b @ rest" and ?r1 = "TQuestion # toks 0 a @ TColon # toks 0 b @ rest"
    have c: "reader_at opts d' 1 (toks 1 c @ ?r1) = give ?r1 (eager opts c)"
      using d by (intro reads_inD reads_everywhere IH) auto
    have a: "reader_at opts d' 0 (toks 0 a @ ?r2) = give ?r2 (eager opts a)"
      using d by (intro reads_inD reads_everywhere IH) auto
    have b: "reader_at opts d' 0 (toks 0 b @ rest) = give rest (eager opts b)"
      using d s by (intro reads_inD reads_everywhere IH) auto
    show "reader_at opts d 0 (toks 0 (Cond c a b) @ rest) = give rest (eager opts (Cond c a b))"
      using a b c d(1)
      by (cases "eager opts c"; cases "eager opts a"; cases "eager opts b")
         (simp_all add: reader_at_def ternary_step_def wrapped_def)
  qed
  then show ?thesis by (simp add: reads_own_def is_loop_level_def)
qed

lemma arith_reads:
  assumes IH: "reads_own opts a" "reads_own opts b"
  shows "reads_own opts (Arith op a b)"
proof -
  let ?q = "prec (Arith op a b)"
  obtain t where t: "arith_tok op = t" "tok_level t = Some ?q"
    "add_op t = Some op \<and> ?q = 5 \<or> mul_op t = Some op \<and> ?q = 6"
    by (cases op) auto
  show ?thesis
  proof (rule binary_reads[where a = a and b = b and t = t and combine = "\<lambda>v w. arith v w op"])
    show "is_loop_level ?q" by (auto simp: is_loop_level_def)
    show "toks ?q (Arith op a b) = toks ?q a @ t # toks (?q + 1) b"
      using t by (simp add: wrapped_def Let_def)
    show "need ?q (Arith op a b) = max (need ?q a) (need (?q + 1) b)"
      by (simp add: need_def Let_def)
    show "loop_at opts d ?q v (t # toks (?q + 1) b @ rest) =
      (case reader_at opts d (?q + 1) (toks (?q + 1) b @ rest) of
         Inl x \<Rightarrow> Inl x
       | Inr (w, r) \<Rightarrow>
           and_then (arith v w op) (\<lambda>x. if length r \<le> length (toks (?q + 1) b @ rest)
             then loop_at opts d ?q x r else Inr (x, r)))" for d v rest
      using t(3)
    proof (elim disjE conjE)
      assume o: "add_op t = Some op" and q: "?q = 5"
      show ?thesis unfolding q loop_at_levels level_loop_token[of add_op, OF o] by simp
    next
      assume o: "mul_op t = Some op" and q: "?q = 6"
      show ?thesis unfolding q loop_at_levels level_loop_token[of mul_op, OF o] by simp
    qed
  qed (use t IH in simp_all)
qed

lemma token_reads:
  assumes p: "is_loop_level p" "prec e = p" "q = p + 1"
    and shape: "toks p e = toks p a @ t # toks q b" "need p e = max (need p a) (need q b)"
      "tok_level t = Some p"
    and loop: "\<And>d v. loop_at opts d p v = level_loop (token_op t) (reader_at opts d q) (\<lambda>_ l r. Inr (f l r)) v"
    and m: "eager opts e = and_then (eager opts a) (\<lambda>v. and_then (eager opts b) (\<lambda>w. Inr (f v w)))"
    and IH: "reads_own opts a" "reads_own opts b"
  shows "reads_own opts e"
proof -
  have t: "token_op t t = Some ()" by (simp add: token_op_def)
  note loops = loop level_loop_token[of "token_op t", OF t]
  show ?thesis
    by (rule binary_reads[OF p(1,2) shape[unfolded p(3)]])
       (simp_all only: loops p(3) m IH)
qed

lemma reads: "reads_own opts e"
proof (induction e)
  case (LitInt n)
  show ?case by (rule atom_reads) (simp_all add: need_def unary_step_def primary_def)
next
  case (LitFloat f)
  show ?case by (rule atom_reads) (simp_all add: need_def unary_step_def primary_def)
next
  case (LitStr s)
  show ?case by (rule atom_reads) (simp_all add: need_def unary_step_def primary_def)
next
  case (OptRef n)
  show ?case
    by (rule atom_reads)
       (auto simp: need_def unary_step_def primary_def option_value_def split: option.split opt_val.split)
next
  case (Paren a)
  then have "reads_in opts 0 a" by (simp add: reads_everywhere)
  then show ?case by (rule paren_reads)
next
  case (Negate a)
  show ?case
    by (rule prefix_reads[where t = TMinus and a = a])
       (auto simp: need_def unary_step_def and_then_def Negate split: sum.split)
next
  case (Posit a)
  show ?case
    by (rule prefix_reads[where t = TPlus and a = a and f = Inr])
       (auto simp: need_def unary_step_def and_then_def Posit split: sum.split)
next
  case (NotE a)
  show ?case
    by (rule prefix_reads[where t = TBang and a = a])
       (auto simp: need_def unary_step_def and_then_def NotE split: sum.split)
next
  case (Arith op a b) then show ?case by (rule arith_reads)
next
  case (Cmp op a b) then show ?case by (rule comparison_reads)
next
  case (Cond c a b) then show ?case by (rule conditional_reads)
next
  case (Cat a b)
  show ?case
    by (rule token_reads[where p = 4 and q = 5 and a = a and b = b and t = TConcat])
       (simp_all add: is_loop_level_def wrapped_def need_def loop_at_levels Cat)
next
  case (And a b)
  show ?case
    by (rule token_reads[where p = 2 and q = 3 and a = a and b = b and t = TAndAnd])
       (simp_all add: is_loop_level_def wrapped_def need_def loop_at_levels And)
next
  case (Or a b)
  show ?case
    by (rule token_reads[where p = 1 and q = 2 and a = a and b = b and t = TOrOr])
       (simp_all add: is_loop_level_def wrapped_def need_def loop_at_def Or)
qed

lemma ternary_eager:
  assumes "need 0 e \<le> d" and "stops 0 rest"
  shows "ternary opts d (toks 0 e @ rest) = give rest (eager opts e)"
proof -
  have "reads_in opts 0 e" by (rule reads_everywhere[OF reads]) simp
  from reads_inD[OF this assms] show ?thesis by (simp add: reader_at_def)
qed

section \<open>The depth bound\<close>

text \<open>A step with less depth either gives up or does the same.\<close>

definition gives_up :: "step \<Rightarrow> step \<Rightarrow> bool" where
  "gives_up f g \<longleftrightarrow> (\<forall>ts. f ts = Inl Too_recursive \<or> f ts = g ts)"

lemma gives_upD: "gives_up f g \<Longrightarrow> f ts \<noteq> Inl Too_recursive \<Longrightarrow> f ts = g ts"
  unfolding gives_up_def by blast

lemma gives_upI: "(\<And>ts. f ts \<noteq> Inl Too_recursive \<Longrightarrow> f ts = g ts) \<Longrightarrow> gives_up f g"
  unfolding gives_up_def by blast

lemma loop_gives_up:
  "gives_up f g \<Longrightarrow> level_loop op_of f combine v ts \<noteq> Inl Too_recursive \<Longrightarrow>
   level_loop op_of f combine v ts = level_loop op_of g combine v ts"
proof (induction op_of f combine v ts rule: level_loop.induct)
  case (1 op_of f combine left toks)
  note prems = "1.prems"(2)[unfolded level_loop.simps[of op_of f combine left toks]]
  show ?case
  proof (cases toks)
    case (Cons t ts)
    show ?thesis
    proof (cases "op_of t")
      case None
      then show ?thesis using Cons by (simp add: level_loop.simps)
    next
      case (Some op)
      have f: "f ts \<noteq> Inl Too_recursive" using prems Cons Some by (auto split: sum.splits)
      note same = gives_upD[OF "1.prems"(1) f]
      show ?thesis
      proof (cases "f ts")
        case (Inl x)
        then show ?thesis using same Cons Some by (simp add: level_loop.simps)
      next
        case (Inr q)
        obtain w rest where q: "q = (w, rest)" by (cases q)
        show ?thesis
        proof (cases "combine op left w")
          case (Inl x)
          have "g ts = Inr (w, rest)" using same Inr q by simp
          then show ?thesis using Inl Inr q Cons Some by (simp add: level_loop.simps)
        next
          case c: (Inr v)
          have "level_loop op_of f combine v rest = level_loop op_of g combine v rest" if "length rest \<le> length ts"
            using "1.IH"[OF Cons Some Inr[unfolded q] refl c that "1.prems"(1)] prems Cons Some Inr q c that
            by simp
          moreover have "g ts = Inr (w, rest)" using same Inr q by simp
          ultimately show ?thesis using Inr q Cons Some c
            by (simp add: level_loop.simps[of op_of f combine left] level_loop.simps[of op_of g combine left])
        qed
      qed
    qed
  qed (simp add: level_loop.simps)
qed

lemma level_gives_up: "gives_up f g \<Longrightarrow> gives_up (binary_level op_of f combine) (binary_level op_of g combine)"
proof (rule gives_upI)
  fix ts assume g: "gives_up f g" and b: "binary_level op_of f combine ts \<noteq> Inl Too_recursive"
  then have "f ts \<noteq> Inl Too_recursive" by (auto simp: binary_level_def)
  with gives_upD[OF g this] loop_gives_up[OF g] b
  show "binary_level op_of f combine ts = binary_level op_of g combine ts"
    by (auto simp: binary_level_def split: sum.splits)
qed

lemma comparison_gives_up:
  assumes "gives_up f g"
  shows "gives_up (comparison f) (comparison g)"
proof (rule gives_upI)
  have "gives_up (concat_level f) (concat_level g)"
    unfolding concat_level_def additive_def multiplicative_def by (intro level_gives_up assms)
  note c = gives_upD[OF this]
  fix ts assume b: "comparison f ts \<noteq> Inl Too_recursive"
  then have "concat_level f ts \<noteq> Inl Too_recursive" by (auto simp: comparison_def)
  note first = c[OF this]
  show "comparison f ts = comparison g ts"
  proof (cases "concat_level f ts")
    case (Inr q)
    obtain v r where q: "q = (v, r)" by (cases q)
    have second: "concat_level f (tl r) = concat_level g (tl r)"
      if "Option.bind (if r = [] then None else Some (hd r)) cmp_op_of = Some op" for op
    proof (rule c)
      show "concat_level f (tl r) \<noteq> Inl Too_recursive"
        using b Inr that unfolding q comparison_def by auto
    qed
    have "concat_level g ts = Inr (v, r)" using first Inr q by simp
    then show ?thesis using second Inr unfolding q comparison_def by (simp split: option.split)
  qed (use first in \<open>simp add: comparison_def\<close>)
qed

lemma or_gives_up: "gives_up f g \<Longrightarrow> gives_up (logic_or f) (logic_or g)"
  unfolding logic_or_def logic_and_def by (intro level_gives_up comparison_gives_up)

lemma ternary_gives_up:
  assumes "gives_up u u'" and "gives_up t t'"
  shows "gives_up (ternary_step u t) (ternary_step u' t')"
proof (rule gives_upI)
  fix ts assume b: "ternary_step u t ts \<noteq> Inl Too_recursive"
  then have "logic_or u ts \<noteq> Inl Too_recursive" by (auto simp: ternary_step_def)
  note c = gives_upD[OF or_gives_up[OF assms(1)] this]
  show "ternary_step u t ts = ternary_step u' t' ts"
  proof (cases "logic_or u ts")
    case (Inr q)
    obtain v r where q: "q = (v, r)" by (cases q)
    show ?thesis
    proof (cases "r \<noteq> [] \<and> hd r = TQuestion")
      case True
      have "t (tl r) \<noteq> Inl Too_recursive" using b Inr q True by (auto simp: ternary_step_def)
      note a = gives_upD[OF assms(2) this]
      show ?thesis
      proof (cases "t (tl r)")
        case at: (Inr p)
        obtain x r1 where p: "p = (x, r1)" by (cases p)
        have "t (tl r1) = t' (tl r1)" if "\<not> (r1 = [] \<or> hd r1 \<noteq> TColon)"
          using b Inr q True at p that by (intro gives_upD[OF assms(2)]) (auto simp: ternary_step_def)
        moreover have "logic_or u' ts = Inr (v, r)" "t' (tl r) = Inr (x, r1)" using c a Inr q at p by simp_all
        ultimately show ?thesis using Inr q True at p by (simp add: ternary_step_def split: sum.split)
      next
        case (Inl x)
        then have "logic_or u' ts = Inr (v, r)" "t' (tl r) = Inl x" using c a \<open>logic_or u ts = Inr q\<close> q by simp_all
        then show ?thesis using Inl \<open>logic_or u ts = Inr q\<close> q True by (simp add: ternary_step_def)
      qed
    next
      case False
      have "logic_or u' ts = Inr (v, r)" using c Inr q by simp
      then show ?thesis using False Inr q by (auto simp: ternary_step_def)
    qed
  qed (use c in \<open>simp add: ternary_step_def\<close>)
qed

lemma unary_gives_up:
  assumes "gives_up u u'" and "gives_up t t'"
  shows "gives_up (unary_step opts u t) (unary_step opts u' t')"
proof (rule gives_upI)
  fix ts assume b: "unary_step opts u t ts \<noteq> Inl Too_recursive"
  show "unary_step opts u t ts = unary_step opts u' t' ts"
  proof (cases ts)
    case (Cons k r)
    consider "k \<in> {TMinus, TPlus, TBang}" | "k = TLParen" | "k \<notin> {TMinus, TPlus, TBang, TLParen}" by blast
    then show ?thesis
    proof cases
      case 1
      then have "u r \<noteq> Inl Too_recursive" using b Cons by (auto simp: unary_step_def)
      from gives_upD[OF assms(1) this] show ?thesis using 1 Cons by (auto simp: unary_step_def)
    next
      case 2
      then have "t r \<noteq> Inl Too_recursive" using b Cons by (auto simp: unary_step_def primary_def)
      from gives_upD[OF assms(2) this] show ?thesis using 2 Cons by (simp add: unary_step_def primary_def)
    next
      case 3
      then show ?thesis using Cons by (cases k) (auto simp: unary_step_def primary_def)
    qed
  qed (simp add: unary_step_def primary_def)
qed

lemma depth_gives_up:
  "d \<le> d' \<Longrightarrow> gives_up (unary opts d) (unary opts d') \<and> gives_up (ternary opts d) (ternary opts d')"
proof (induction d arbitrary: d')
  case 0
  show ?case by (simp add: gives_up_def)
next
  case (Suc d)
  then obtain k where k: "d' = Suc k" "d \<le> k" by (cases d') auto
  have "unary opts (Suc n) = unary_step opts (unary opts n) (ternary opts n)"
    "ternary opts (Suc n) = ternary_step (unary opts n) (ternary opts n)" for n by auto
  then show ?case using Suc.IH[OF k(2)] k(1) by (simp add: unary_gives_up ternary_gives_up)
qed

lemma ternary_eager_or_deep:
  "ternary opts d (toks 0 e) = give [] (eager opts e) \<or> d < need 0 e \<and> ternary opts d (toks 0 e) = Inl Too_recursive"
proof (cases "need 0 e \<le> d")
  case True
  then show ?thesis using ternary_eager[of e d "[]" opts] by simp
next
  case False
  then have "gives_up (ternary opts d) (ternary opts (need 0 e))" using depth_gives_up[of d "need 0 e"] by simp
  moreover have "ternary opts (need 0 e) (toks 0 e) = give [] (eager opts e)"
    using ternary_eager[of e "need 0 e" "[]" opts] by simp
  ultimately show ?thesis using False unfolding gives_up_def by fastforce
qed

section \<open>From the text to the tokens\<close>

lemma takeWhile_run:
  assumes "list_all P ds" and "\<not> starts P rest"
  shows "takeWhile P (ds @ rest) = ds" "dropWhile P (ds @ rest) = rest"
  using assms by (induction ds) (cases rest; auto simp: starts_def)+

lemma digit_facts:
  assumes "is_ascii_digit c"
  shows "\<not> is_whitespace c" "c < 58" "47 < c"
  using assms by (auto simp: is_ascii_digit_def is_whitespace_def)

lemma hex_facts: "is_hex c \<Longrightarrow> \<not> is_whitespace c"
  by (auto simp: is_hex_def hex_digit_def is_ascii_digit_def is_whitespace_def split: if_splits)

lemma name_char_facts: "is_name_char c \<Longrightarrow> \<not> is_whitespace c \<and> c \<noteq> 58 \<and> c \<noteq> 38"
  by (auto simp: is_name_char_def ascii_simps is_whitespace_def)

lemma last_all: "ds \<noteq> [] \<Longrightarrow> list_all P ds \<Longrightarrow> P (last ds)"
  by (simp add: list_all_iff)

lemma lex_digit: "is_ascii_digit c \<Longrightarrow> lex_token c s = Inr (lex_number (c # s))"
  by (auto simp: lex_token_def is_ascii_digit_def)

lemma lex_decimal:
  assumes "ds \<noteq> []" "list_all is_ascii_digit ds" "\<not> starts is_ascii_digit rest"
    and "\<not> (starts ((=) 46) rest \<and> starts is_ascii_digit (tl rest))"
    and "\<not> (ds = [48] \<and> starts (\<lambda>c. c = uc CHR ''x'' \<or> c = uc CHR ''X'') rest)"
  shows "lex_number (ds @ rest) = (TInt (int_lit ds), rest)"
proof -
  obtain c ds' where ds: "ds = c # ds'" using assms(1) by (cases ds) auto
  have nohex: "\<not> (hd (ds @ rest) = 48 \<and> tl (ds @ rest) \<noteq> [] \<and>
      (hd (tl (ds @ rest)) = uc CHR ''x'' \<or> hd (tl (ds @ rest)) = uc CHR ''X''))"
    using assms(2,5) ds digit_facts(2)[of "hd ds'"] by (cases ds') (auto simp: starts_def)
  show ?thesis
    unfolding lex_number_def if_not_P[OF nohex] takeWhile_run[OF assms(2,3)] Let_def int_lit_def
    using assms(4) by (auto simp: starts_def split: list.split)
qed

lemma lex_fraction:
  assumes "ds \<noteq> []" "list_all is_ascii_digit ds" "fs \<noteq> []" "list_all is_ascii_digit fs"
    and "\<not> starts is_ascii_digit rest"
  shows "lex_number (ds @ us ''.'' @ fs @ rest) = (TFloat (f_of_decimal False ds fs), rest)"
proof -
  obtain c ds' where ds: "ds = c # ds'" using assms(1) by (cases ds) auto
  obtain d fs' where fs: "fs = d # fs'" using assms(3) by (cases fs) auto
  let ?r = "us ''.'' @ fs @ rest"
  have nohex: "\<not> (hd (ds @ ?r) = 48 \<and> tl (ds @ ?r) \<noteq> [] \<and>
      (hd (tl (ds @ ?r)) = uc CHR ''x'' \<or> hd (tl (ds @ ?r)) = uc CHR ''X''))"
    using assms(2) ds digit_facts(2)[of "hd ds'"] by (cases ds') auto
  have dot: "\<not> starts is_ascii_digit ?r" by (simp add: starts_def is_ascii_digit_def)
  show ?thesis
    unfolding lex_number_def if_not_P[OF nohex] takeWhile_run[OF assms(2) dot] Let_def
    using takeWhile_run[OF assms(4,5)] assms(4) unfolding fs by (simp del: takeWhile.simps dropWhile.simps)
qed

lemma lex_hexadecimal:
  assumes "x = uc CHR ''x'' \<or> x = uc CHR ''X''" "list_all is_hex hs" "\<not> starts is_hex rest"
  shows "lex_number (48 # x # hs @ rest) = (TInt (hex_lit hs), rest)"
proof -
  have hex: "is_hex = (\<lambda>c. hex_digit c \<noteq> None)" by (simp add: fun_eq_iff is_hex_def)
  note run = takeWhile_run[OF assms(2,3), unfolded hex]
  show ?thesis using assms(1) run by (auto simp: lex_number_def Let_def hex_lit_def)
qed

lemma lex_single_quoted:
  assumes "\<not> starts ((=) 39) rest"
  shows "lex_single_string out (concat (map (\<lambda>c. if c = 39 then [39, 39] else [c]) s) @ 39 # rest) =
    Inr (out @ s, rest)"
  using assms by (induction s arbitrary: out) (auto simp: starts_def)

lemma lex_double_quoted:
  "double_quoted s b \<Longrightarrow> lex_double_string out (b @ 34 # rest) = Inr (out @ s, rest)"
  by (induction arbitrary: out rule: double_quoted.induct)
     (auto simp: escapes_def unescape_def split: if_splits)

lemma lex_option_name:
  assumes "n \<noteq> []" "list_all is_name_char n" "\<not> starts is_name_char rest"
    and "\<not> ((n = us ''l'' \<or> n = us ''g'') \<and> starts ((=) (uc CHR '':'')) rest)"
  shows "lex_option (n @ rest) = Inr (n, rest)"
proof -
  obtain a n' where n: "n = a # n'" using assms by (cases n) auto
  have "b \<noteq> 58" if "n' @ rest = b # t" "a = uc CHR ''l'' \<or> a = uc CHR ''g''" for b t
    using that n assms name_char_facts[of b] by (cases n') (auto simp: starts_def)
  with n have "(case n @ rest of a # b # t \<Rightarrow> if (a = uc CHR ''l'' \<or> a = uc CHR ''g'') \<and> b = uc CHR '':'' then t else n @ rest
      | _ \<Rightarrow> n @ rest) = n @ rest"
    by (auto split: list.splits)
  then show ?thesis
    using takeWhile_run[OF assms(2,3)] assms(1) by (simp add: lex_option_def Let_def)
qed

lemma lex_option_scoped:
  assumes "n \<noteq> []" "list_all is_name_char n" "\<not> starts is_name_char rest"
    and "scope = us ''l:'' \<or> scope = us ''g:''"
  shows "lex_option (scope @ n @ rest) = Inr (n, rest)"
  using assms takeWhile_run[OF assms(2,3)] by (auto simp: lex_option_def Let_def)

lemma fixed_lexes:
  "\<forall>(t, s) \<in> set fixed_spellings. s \<noteq> [] \<and> \<not> is_whitespace (hd s) \<and> \<not> is_whitespace (last s) \<and>
     lex_token (hd s) (tl s @ rest) = Inr (t, rest)"
  by (simp add: fixed_spellings_def lex_token_def lex_pair_def is_whitespace_def)

lemma spelling_lexes:
  assumes "spelling t s rest"
  shows "s \<noteq> [] \<and> \<not> is_whitespace (hd s) \<and> \<not> is_whitespace (last s) \<and>
    lex_token (hd s) (tl s @ rest) = Inr (t, rest)"
  using assms
proof cases
  case fixed
  then show ?thesis using fixed_lexes by fastforce
next
  case decimal
  then obtain c ds' where ds: "s = c # ds'" "is_ascii_digit c" by (cases s) auto
  then show ?thesis
    using lex_decimal[OF decimal(2-6)] lex_digit[of c "ds' @ rest"] last_all[OF decimal(2,3)] decimal(1)
    by (simp add: digit_facts)
next
  case (hexadecimal x hs)
  have "\<not> is_whitespace (last s)"
    using hexadecimal last_all[of hs is_hex] hex_facts[of "last hs"]
    by (cases "hs = []") (auto simp: is_whitespace_def)
  then show ?thesis
    using hexadecimal lex_hexadecimal[OF hexadecimal(3-5)] lex_digit[of 48 "x # hs @ rest"]
    by (simp add: is_whitespace_def is_ascii_digit_def)
next
  case (fraction ds fs)
  then obtain c ds' where ds: "ds = c # ds'" "is_ascii_digit c" by (cases ds) auto
  then show ?thesis
    using lex_fraction[OF fraction(3-7)] lex_digit[of c "ds' @ us ''.'' @ fs @ rest"] last_all[OF fraction(5,6)]
      fraction(1,2,5) by (simp add: digit_facts)
next
  case (single s')
  then show ?thesis
    using lex_single_quoted[OF single(3), of "[]" s'] by (simp add: quoted_def lex_token_def is_whitespace_def)
next
  case (double s' b)
  then show ?thesis
    using lex_double_quoted[OF double(3), of "[]" rest] by (simp add: lex_token_def is_whitespace_def)
next
  case (opt n)
  have "hd (n @ rest) \<noteq> 38" using opt name_char_facts[of "hd n"] by (cases n) auto
  then show ?thesis
    using opt(1,2,3) lex_option_name[OF opt(3-6)] name_char_facts[OF last_all[OF opt(3,4)]]
    by (simp add: lex_token_def) (simp add: is_whitespace_def)
next
  case (scoped n scope)
  then show ?thesis
    using lex_option_scoped[OF scoped(3-6)] last_all[OF scoped(3,4)] name_char_facts[of "last n"]
    by (auto simp: lex_token_def is_whitespace_def)
qed (auto simp: starts_def lex_token_def lex_pair_def is_whitespace_def)

lemma tokenize_blanks: "list_all (\<lambda>c. c = 32 \<or> c = 9) bs \<Longrightarrow> tokenize (bs @ s) = tokenize s"
  by (induction bs) auto

lemma tokenize_spelt:
  assumes "spelling t s rest" and "tokenize rest = Inr ts"
  shows "tokenize (s @ rest) = Inr (t # ts)"
proof -
  obtain c s' where s: "s = c # s'" using spelling_lexes[OF assms(1)] by (cases s) auto
  then show ?thesis using spelling_lexes[OF assms(1)] assms(2) by (auto simp: is_whitespace_def)
qed

lemma text_tokens:
  "text_of ts s \<Longrightarrow> tokenize s = Inr ts \<and> s \<noteq> [] \<and> \<not> is_whitespace (hd s) \<and> \<not> is_whitespace (last s)"
proof (induction rule: text_of.induct)
  case (one t s)
  then show ?case using spelling_lexes[OF one] tokenize_spelt[OF one, of "[]"] by simp
next
  case (more t s bs u ts)
  then show ?case
    using spelling_lexes[OF more.hyps(1)] tokenize_spelt[OF more.hyps(1)] tokenize_blanks[OF more.hyps(2)] by simp
qed

lemma trim_around:
  assumes "s \<noteq> []" "\<not> is_whitespace (hd s)" "\<not> is_whitespace (last s)"
    and "list_all is_whitespace pre" "list_all is_whitespace post"
  shows "trim (pre @ s @ post) = s"
proof -
  have skip: "dropWhile is_whitespace (p @ x) = x" if "list_all is_whitespace p" "x \<noteq> []" "\<not> is_whitespace (hd x)" for p x
    using that by (induction p) (cases x; auto)+
  have "list_all is_whitespace (rev post)" using assms(5) by (simp add: list_all_iff)
  then show ?thesis
    using skip[OF assms(4), of "s @ post"] skip[of "rev post" "rev s"] assms(1-3)
    by (simp add: trim_def hd_rev)
qed

section \<open>The loops end where the source's do\<close>

text \<open>Whatever a step of the descent returns, it has consumed a token.\<close>

definition consumes :: "step \<Rightarrow> bool" where
  "consumes f \<longleftrightarrow> (\<forall>ts v r. f ts = Inr (v, r) \<longrightarrow> length r < length ts)"

lemma consumesI: "(\<And>ts v r. f ts = Inr (v, r) \<Longrightarrow> length r < length ts) \<Longrightarrow> consumes f"
  by (simp add: consumes_def)

lemma consumesD: "consumes f \<Longrightarrow> f ts = Inr (v, r) \<Longrightarrow> length r < length ts"
  by (simp add: consumes_def)

lemma level_loop_shorter:
  "consumes operand \<Longrightarrow> level_loop op_of operand combine v ts = Inr (w, r) \<Longrightarrow> length r \<le> length ts"
proof (induction op_of operand combine v ts arbitrary: w r rule: level_loop.induct)
  case (1 op_of operand combine v ts)
  show ?case
  proof (cases "ts = [] \<or> op_of (hd ts) = None")
    case True
    with "1.prems" show ?thesis
      by (subst (asm) level_loop.simps) (auto split: list.splits option.splits)
  next
    case False
    then obtain t ts' op where ts: "ts = t # ts'" "op_of t = Some op" by (cases ts) auto
    with "1.prems" obtain x r' where o: "operand ts' = Inr (x, r')"
      by (auto simp: level_loop_token and_then_def split: sum.splits)
    from consumesD[OF "1.prems"(1) o] have len: "length r' \<le> length ts'" by simp
    with "1.prems" ts o obtain y where y: "combine op v x = Inr y" "level_loop op_of operand combine y r' = Inr (w, r)"
      by (auto simp: level_loop_token and_then_def split: sum.splits)
    from "1.IH"[OF ts(1) ts(2) o refl y(1) len "1.prems"(1) y(2)] len ts show ?thesis by simp
  qed
qed

lemma level_consumes: "consumes operand \<Longrightarrow> consumes (binary_level op_of operand combine)"
proof (rule consumesI)
  fix ts v r assume c: "consumes operand" and l: "binary_level op_of operand combine ts = Inr (v, r)"
  then obtain x r1 where o: "operand ts = Inr (x, r1)" and k: "level_loop op_of operand combine x r1 = Inr (v, r)"
    by (auto simp: binary_level_def split: sum.splits)
  from level_loop_shorter[OF c k] consumesD[OF c o] show "length r < length ts" by simp
qed

lemma concat_consumes: "consumes una \<Longrightarrow> consumes (concat_level una)"
  by (simp add: concat_level_def additive_def multiplicative_def level_consumes)

lemma comparison_consumes:
  assumes "consumes una"
  shows "consumes (comparison una)"
proof (rule consumesI)
  fix ts v r assume c: "comparison una ts = Inr (v, r)"
  note co = consumesD[OF concat_consumes[OF assms]]
  from c obtain l r1 where l: "concat_level una ts = Inr (l, r1)"
    by (auto simp: comparison_def split: sum.splits)
  from co[OF l] have len: "length r1 < length ts" .
  from c l consider "r = r1" | y where "concat_level una (tl r1) = Inr (y, r)"
    by (auto simp: comparison_def split: option.splits sum.splits)
  then show "length r < length ts"
  proof cases
    case 2
    from co[OF this] len show ?thesis by simp
  qed (use len in simp)
qed

lemma or_consumes: "consumes una \<Longrightarrow> consumes (logic_or una)"
  by (simp add: logic_or_def logic_and_def level_consumes comparison_consumes)

lemma operands_consume: "consumes (unary opts d) \<and> consumes (ternary opts d)"
proof (induction d)
  case 0
  show ?case by (simp add: consumes_def)
next
  case (Suc d)
  then have u: "consumes (unary opts d)" and t: "consumes (ternary opts d)" by auto
  have "length r < length ts" if p: "primary opts (ternary opts d) ts = Inr (v, r)" for ts v r
  proof (cases ts)
    case (Cons x xs)
    then show ?thesis
      using p consumesD[OF t, of xs]
      by (cases x) (auto simp: primary_def less_SucI split: sum.splits option.splits opt_val.splits if_splits)
  qed (use p in \<open>simp add: primary_def\<close>)
  moreover have "length r < length ts"
    if p: "unary_step opts (unary opts d) (ternary opts d) ts = Inr (v, r)"
      and "primary opts (ternary opts d) ts \<noteq> Inr (v, r)" for ts v r
    using that consumesD[OF u, of "tl ts"]
    by (auto simp: unary_step_def split: list.splits tok.splits sum.splits)
  ultimately have "consumes (unary opts (Suc d))"
    by (intro consumesI) (auto, blast)
  moreover have "consumes (ternary opts (Suc d))"
  proof (rule consumesI)
    fix ts v r assume c: "ternary opts (Suc d) ts = Inr (v, r)"
    then obtain x r1 where o: "logic_or (unary opts d) ts = Inr (x, r1)"
      by (auto simp: ternary_step_def split: sum.splits)
    have len: "length r1 < length ts" by (rule consumesD[OF or_consumes[OF u] o])
    show "length r < length ts"
    proof (cases "r1 \<noteq> [] \<and> hd r1 = TQuestion")
      case True
      with c o obtain y r2 z where "ternary opts d (tl r1) = Inr (y, r2)" "ternary opts d (tl r2) = Inr (z, r)"
        by (auto simp: ternary_step_def split: sum.splits if_splits)
      from consumesD[OF t this(1)] consumesD[OF t this(2)] len show ?thesis by simp
    next
      case False
      with c o len show ?thesis by (auto simp: ternary_step_def)
    qed
  qed
  ultimately show ?case ..
qed

text \<open>So the loops of the model unfold as the source's loops do, without a guard.\<close>

lemma level_loop_source:
  assumes "consumes operand"
  shows "level_loop op_of operand combine left input =
     (case input of
        [] \<Rightarrow> Inr (left, [])
      | t # ts \<Rightarrow>
          (case op_of t of
             None \<Rightarrow> Inr (left, t # ts)
           | Some op \<Rightarrow>
               and_then (operand ts) (\<lambda>(right, r).
                 and_then (combine op left right) (\<lambda>v. level_loop op_of operand combine v r))))"
  using consumesD[OF assms]
  by (subst level_loop.simps)
     (auto simp: and_then_def less_imp_le not_le split: list.split option.split sum.split dest: order.strict_trans2)

lemma eval_all_source:
  "eval_all opts input =
     (if input = [] then Inr []
      else and_then (ternary opts MAX_EXPR_DEPTH input) (\<lambda>(v, r).
        and_then (eval_all opts r) (\<lambda>ps. Inr (display v # ps))))"
proof (cases "ternary opts MAX_EXPR_DEPTH input")
  case (Inr p)
  obtain v r where p: "p = (v, r)" by (cases p)
  from operands_consume[of opts MAX_EXPR_DEPTH] Inr p have "length r < length input"
    by (auto dest: consumesD)
  with Inr p show ?thesis by (subst eval_all.simps) (simp add: and_then_def)
qed (simp add: eval_all.simps and_then_def)

section \<open>Properties\<close>

lemma eval_expr_eager:
  assumes "text_of (toks 0 e) s" "list_all is_whitespace pre" "list_all is_whitespace post"
  shows "eval_expr (pre @ s @ post) resolve = and_then (eager (Some resolve) e) (\<lambda>v. Inr (display v)) \<or>
    MAX_EXPR_DEPTH < need 0 e \<and> eval_expr (pre @ s @ post) resolve = Inl Too_recursive"
proof -
  note t = text_tokens[OF assms(1)]
  then have trim: "trim (pre @ s @ post) = s" using trim_around assms by blast
  then show ?thesis
    using ternary_eager_or_deep[of "Some resolve" MAX_EXPR_DEPTH e] t
    by (cases "eager (Some resolve) e") (auto simp: eval_expr_def)
qed

text \<open>C35. The evaluator gives the meaning of every text of an expression, errors included. The text may
  spell numbers in decimal or hexadecimal, strings in single or double quotes, concatenation as \<open>.\<close> or
  \<open>..\<close>, options with a scope or without, have parentheses beyond those it needs, any blanks between its
  tokens or none where none are needed, and white space around it. In the meaning \<open>&&\<close>, \<open>||\<close> and \<open>? :\<close>
  evaluate only the operands they need, as the code's comment promises of \<open>||\<close>; the code evaluates the
  others too, so it is assumed that none of those fails (\<open>skips_safely\<close>; \<open>or_evaluates_both\<close> shows that it
  matters). An expression that needs more than 200 levels of recursion may fail with E1169 instead, and
  no other does.\<close>

theorem eval_expr_meaning:
  assumes "text_of (toks 0 e) s" and "list_all is_whitespace pre" "list_all is_whitespace post"
    and "skips_safely (Some resolve) e"
  shows "eval_expr (pre @ s @ post) resolve = and_then (meaning (Some resolve) e) (\<lambda>v. Inr (display v)) \<or>
    MAX_EXPR_DEPTH < need 0 e \<and> eval_expr (pre @ s @ post) resolve = Inl Too_recursive"
  using eval_expr_eager[OF assms(1-3), of resolve] unfolding eager_meaning[OF assms(4)] .

text \<open>\<open>!0x1f?(1):"a"..'b'\<close> between blanks.\<close>

lemma dense_text:
  "text_of [TBang, TInt 31, TQuestion, TLParen, TInt 1, TRParen, TColon, TStr (us ''a''), TConcat, TStr (us ''b'')]
     (us ''!0x1f?(1):'' @ [34, 97, 34] @ us ''..'' @ [39, 98, 39])"
proof -
  note fixed = text_of.more[where bs = "[]", OF spelling.fixed, simplified]
  note glued = text_of.more[where bs = "[]", simplified]
  have 1: "text_of [TStr [98]] [39, 98, 39]"
    using text_of.one[OF spelling.single, of "[98]"] by (simp add: starts_def quoted_def)
  have 2: "text_of [TConcat, TStr [98]] (us ''..'' @ [39, 98, 39])"
    by (rule fixed[OF _ 1]) (simp add: fixed_spellings_def)
  have quoted: "double_quoted [97] [97]" by (intro double_quoted.intros) simp_all
  note 3 = glued[OF spelling.double[OF quoted] 2]
  have 4: "text_of [TColon, TStr [97], TConcat, TStr [98]] (us '':'' @ (34 # [97] @ [34]) @ us ''..'' @ [39, 98, 39])"
    by (rule fixed[OF _ 3]) (simp add: fixed_spellings_def)
  have 5: "text_of [TRParen, TColon, TStr [97], TConcat, TStr [98]]
      (us '')'' @ us '':'' @ (34 # [97] @ [34]) @ us ''..'' @ [39, 98, 39])"
    by (rule fixed[OF _ 4]) (simp add: fixed_spellings_def)
  have 6: "text_of [TInt (int_lit (us ''1'')), TRParen, TColon, TStr [97], TConcat, TStr [98]]
      (us ''1'' @ us '')'' @ us '':'' @ (34 # [97] @ [34]) @ us ''..'' @ [39, 98, 39])"
    by (rule glued[OF spelling.decimal 5]) (simp_all add: starts_def is_ascii_digit_def)
  have 7: "text_of [TLParen, TInt (int_lit (us ''1'')), TRParen, TColon, TStr [97], TConcat, TStr [98]]
      (us ''('' @ us ''1'' @ us '')'' @ us '':'' @ (34 # [97] @ [34]) @ us ''..'' @ [39, 98, 39])"
    by (rule fixed[OF _ 6]) (simp add: fixed_spellings_def)
  have 8: "text_of [TQuestion, TLParen, TInt (int_lit (us ''1'')), TRParen, TColon, TStr [97], TConcat, TStr [98]]
      (us ''?'' @ us ''('' @ us ''1'' @ us '')'' @ us '':'' @ (34 # [97] @ [34]) @ us ''..'' @ [39, 98, 39])"
    by (rule fixed[OF _ 7]) (simp add: fixed_spellings_def)
  have 9: "text_of [TInt (hex_lit (us ''1f'')), TQuestion, TLParen, TInt (int_lit (us ''1'')), TRParen, TColon,
      TStr [97], TConcat, TStr [98]]
      ((48 # uc CHR ''x'' # us ''1f'') @ us ''?'' @ us ''('' @ us ''1'' @ us '')'' @ us '':'' @ (34 # [97] @ [34]) @
        us ''..'' @ [39, 98, 39])"
    by (rule glued[OF spelling.hexadecimal 8]) (simp_all add: starts_def is_hex_def hex_digit_def is_ascii_digit_def)
  have "text_of [TBang, TInt (hex_lit (us ''1f'')), TQuestion, TLParen, TInt (int_lit (us ''1'')), TRParen, TColon,
      TStr [97], TConcat, TStr [98]]
      (us ''!'' @ (48 # uc CHR ''x'' # us ''1f'') @ us ''?'' @ us ''('' @ us ''1'' @ us '')'' @ us '':'' @
        (34 # [97] @ [34]) @ us ''..'' @ [39, 98, 39])"
    by (rule glued[OF spelling.bang 9]) (simp add: starts_def)
  moreover have "hex_lit (us ''1f'') = 31" "int_lit (us ''1'') = 1"
    by (simp_all add: hex_lit_def parse_hex_i64_def hex_digit_def is_ascii_digit_def int_lit_def parse_i64_def
        digits_value_def i64_simps)
  ultimately show ?thesis by simp
qed

theorem eval_expr_meaning_witness:
  "eval_expr (us ''  !0x1f?(1):'' @ [34, 97, 34] @ us ''..'' @ [39, 98, 39, 32]) (\<lambda>_. None) = Inr (us ''ab'')"
proof -
  let ?e = "Cond (NotE (LitInt 31)) (Paren (LitInt 1)) (Cat (LitStr (us ''a'')) (LitStr (us ''b'')))"
  have "text_of (toks 0 ?e) (us ''!0x1f?(1):'' @ [34, 97, 34] @ us ''..'' @ [39, 98, 39])"
    using dense_text by (simp add: wrapped_def)
  moreover have "list_all is_whitespace [32, 32]" "list_all is_whitespace [32]" by (simp_all add: is_whitespace_def)
  moreover have "skips_safely (Some (\<lambda>_. None)) ?e" by (simp add: passes_over_def succeeds_def)
  moreover have "meaning (Some (\<lambda>_. None)) ?e = Inr (VStr (us ''ab''))"
    by (simp add: of_bool_value_def truthy_def)
  moreover have "\<not> MAX_EXPR_DEPTH < need 0 ?e" by (simp add: MAX_EXPR_DEPTH_def need_def)
  ultimately show ?thesis
    using eval_expr_meaning[of ?e "us ''!0x1f?(1):'' @ [34, 97, 34] @ us ''..'' @ [39, 98, 39]" "[32, 32]" "[32]" "\<lambda>_. None"]
    by simp
qed

text \<open>\<open>:echo\<close> evaluates a text that is one expression to the same result, without options.\<close>

lemma eval_echo_eager:
  assumes "text_of (toks 0 e) s" and "need 0 e \<le> MAX_EXPR_DEPTH"
  shows "eval_echo s = and_then (eager None e) (\<lambda>v. Inr (display v))"
proof -
  note t = text_tokens[OF assms(1)]
  have "eval_all None (toks 0 e) = and_then (eager None e) (\<lambda>v. Inr [display v])"
    using ternary_eager[OF assms(2), of "[]" None]
    by (subst eval_all_source, cases "eager None e") (simp_all add: eval_all.simps[of None "[]"])
  moreover have "trim s = s" using t trim_around[of s "[]" "[]"] by simp
  ultimately show ?thesis using t
    by (cases "eager None e") (simp_all add: eval_echo_def)
qed

section \<open>Types\<close>

datatype ty = TyInt | TyFloat | TyText

text \<open>A value of a type; an integer is an \<open>i64\<close>.\<close>

fun has_type :: "value_t \<Rightarrow> ty \<Rightarrow> bool" where
  "has_type (VInt n) t = (t = TyInt \<and> I64_MIN \<le> n \<and> n \<le> I64_MAX)"
| "has_type (VFloat f) t = (t = TyFloat)"
| "has_type (VStr s) t = (t = TyText)"

fun opt_type :: "opt_val option \<Rightarrow> ty \<Rightarrow> bool" where
  "opt_type (Some (OptInt n)) t = has_type (VInt n) t"
| "opt_type (Some (OptStr s)) t = (t = TyText)"
| "opt_type None t = False"

text \<open>The typing judgement: an integer operation needs integers, and a divisor that is a literal other
  than zero; one float operand makes a float of numbers.\<close>

inductive typed :: "(ustring \<Rightarrow> ty option) \<Rightarrow> expr \<Rightarrow> ty \<Rightarrow> bool" where
  int: "I64_MIN \<le> n \<Longrightarrow> n \<le> I64_MAX \<Longrightarrow> typed G (LitInt n) TyInt"
| float: "typed G (LitFloat f) TyFloat"
| text_lit: "typed G (LitStr s) TyText"
| opt: "G n = Some t \<Longrightarrow> typed G (OptRef n) t"
| negate: "typed G a t \<Longrightarrow> t \<noteq> TyText \<Longrightarrow> typed G (Negate a) t"
| paren: "typed G a t \<Longrightarrow> typed G (Paren a) t"
| posit: "typed G a t \<Longrightarrow> typed G (Posit a) t"
| not: "typed G a t \<Longrightarrow> typed G (NotE a) TyInt"
| arith_int: "typed G a TyInt \<Longrightarrow> typed G b TyInt \<Longrightarrow> op \<noteq> Div \<and> op \<noteq> Rem \<Longrightarrow>
    typed G (Arith op a b) TyInt"
| div_lit: "typed G a TyInt \<Longrightarrow> n \<noteq> 0 \<Longrightarrow> typed G (Arith op a (LitInt n)) TyInt"
| arith_left: "typed G a TyFloat \<Longrightarrow> typed G b t \<Longrightarrow> typed G (Arith op a b) TyFloat"
| arith_right: "typed G a t \<Longrightarrow> typed G b TyFloat \<Longrightarrow> typed G (Arith op a b) TyFloat"
| cat: "typed G a t \<Longrightarrow> typed G b u \<Longrightarrow> typed G (Cat a b) TyText"
| cmp: "typed G a t \<Longrightarrow> typed G b u \<Longrightarrow> typed G (Cmp op a b) TyInt"
| conj: "typed G a t \<Longrightarrow> typed G b u \<Longrightarrow> typed G (And a b) TyInt"
| disj: "typed G a t \<Longrightarrow> typed G b u \<Longrightarrow> typed G (Or a b) TyInt"
| cond: "typed G c u \<Longrightarrow> typed G a t \<Longrightarrow> typed G b t \<Longrightarrow> typed G (Cond c a b) t"

lemma wrap_bounds: "I64_MIN \<le> wrap_i64 x" "wrap_i64 x \<le> I64_MAX"
proof -
  have "0 \<le> (x + 2 ^ 63) mod 2 ^ 64" "(x + 2 ^ 63) mod 2 ^ 64 < 2 ^ 64" by simp_all
  then show "I64_MIN \<le> wrap_i64 x" "wrap_i64 x \<le> I64_MAX"
    by (simp_all add: wrap_i64_def i64_simps)
qed

lemma bool_type [simp]: "has_type (of_bool_value b) TyInt"
  by (simp add: of_bool_value_def i64_simps)

lemma has_type_cases:
  assumes "has_type v t"
  obtains n where "t = TyInt" "v = VInt n" "I64_MIN \<le> n" "n \<le> I64_MAX"
    | f where "t = TyFloat" "v = VFloat f"
    | s where "t = TyText" "v = VStr s"
  using assms by (cases v) auto

lemma arith_ints: "op \<noteq> Div \<and> op \<noteq> Rem \<or> n \<noteq> 0 \<Longrightarrow> \<exists>v. arith (VInt m) (VInt n) op = Inr v \<and> has_type v TyInt"
  by (cases op) (auto simp: arith_def wrap_bounds)

lemma arith_float: "has_type v TyFloat \<or> has_type w TyFloat \<Longrightarrow> \<exists>x. arith v w op = Inr x \<and> has_type x TyFloat"
  by (auto elim!: has_type_cases simp: arith_def split: value_t.split)

lemma eager_typed:
  assumes "typed G e t" and "\<And>n u. G n = Some u \<Longrightarrow> opt_type (resolve n) u"
  shows "\<exists>v. eager (Some resolve) e = Inr v \<and> has_type v t"
  using assms
proof (induction rule: typed.induct)
  case (opt G n t)
  from opt(2)[OF opt(1)] show ?case by (auto simp: option_value_def opt_type.simps split: option.split opt_val.split elim!: opt_type.elims)
next
  case (negate G a t)
  then obtain v where v: "eager (Some resolve) a = Inr v" "has_type v t" by blast
  from v(2) negate.hyps(2) show ?case
    using arith_ints[of Sub] arith_float[of "VInt 0" v Sub] v(1) by (cases rule: has_type_cases) auto
next
  case (arith_int G a b op)
  then obtain v w where "eager (Some resolve) a = Inr v" "has_type v TyInt"
    "eager (Some resolve) b = Inr w" "has_type w TyInt" by blast
  with arith_int.hyps(3) arith_ints[of op] show ?case by (auto elim!: has_type_cases)
next
  case (div_lit G a n op)
  then obtain v where "eager (Some resolve) a = Inr v" "has_type v TyInt" by blast
  with div_lit.hyps(2) arith_ints[of op n] show ?case by (auto elim!: has_type_cases)
next
  case (arith_left G a b t op)
  then obtain v w where "eager (Some resolve) a = Inr v" "has_type v TyFloat"
    "eager (Some resolve) b = Inr w" by blast
  with arith_float[of v w op] show ?case by auto
next
  case (arith_right G a t b op)
  then obtain v w where "eager (Some resolve) a = Inr v"
    "eager (Some resolve) b = Inr w" "has_type w TyFloat" by blast
  with arith_float[of v w op] show ?case by auto
next
  case (cond G c u a t b)
  then obtain x y z where "eager (Some resolve) c = Inr x" "eager (Some resolve) a = Inr y"
    "eager (Some resolve) b = Inr z" "has_type y t" "has_type z t" by blast
  then show ?case by auto
qed fastforce+

text \<open>C36. A well-typed expression gives a value of its type, an integer within 64 bits, however its text is
  spelt; the one way it can fail is E1169, and only if it needs more than 200 levels of recursion (as 201
  unary minuses do). Well-typed means: arithmetic of two integers divides by a literal other than zero
  only, a unary minus is not taken of a text, both branches of a conditional have one type, and every
  option named has a value of the type assumed.\<close>

theorem well_typed_evaluates:
  assumes "text_of (toks 0 e) s" and "list_all is_whitespace pre" "list_all is_whitespace post"
    and "typed G e t" and "\<And>n u. G n = Some u \<Longrightarrow> opt_type (resolve n) u"
  shows "(\<exists>v. eval_expr (pre @ s @ post) resolve = Inr (display v) \<and> has_type v t) \<or>
    MAX_EXPR_DEPTH < need 0 e \<and> eval_expr (pre @ s @ post) resolve = Inl Too_recursive"
proof -
  obtain v where "eager (Some resolve) e = Inr v" "has_type v t"
    using eager_typed[of G e t resolve] assms(4,5) by blast
  with eval_expr_eager[OF assms(1-3), of resolve] show ?thesis by auto
qed

theorem well_typed_evaluates_witness:
  "\<exists>v. eval_expr (us ''&bomb+1'') (\<lambda>n. if n = us ''bomb'' then Some (OptInt 1) else None) = Inr (display v) \<and>
     has_type v TyInt"
proof -
  let ?e = "Arith Add (OptRef (us ''bomb'')) (LitInt (int_lit (us ''1'')))"
  let ?G = "\<lambda>n. if n = us ''bomb'' then Some TyInt else None"
  have one: "text_of [TInt (int_lit (us ''1''))] (us ''1'')"
    by (intro text_of.one spelling.decimal) (simp_all add: starts_def is_ascii_digit_def)
  have plus: "text_of [TPlus, TInt (int_lit (us ''1''))] (us ''+'' @ [] @ us ''1'')"
    by (rule text_of.more[OF _ _ one]) (simp_all add: spelling.fixed fixed_spellings_def)
  have "text_of [TOption (us ''bomb''), TPlus, TInt (int_lit (us ''1''))] ((us ''&'' @ us ''bomb'') @ [] @ us ''+'' @ [] @ us ''1'')"
    by (rule text_of.more[OF spelling.opt _ plus]) (simp_all add: starts_def is_name_char_def ascii_simps)
  then have spelt: "text_of (toks 0 ?e) (us ''&bomb+1'')" by (simp add: wrapped_def)
  have "typed ?G ?e TyInt" by (intro typed.intros) (simp_all add: int_lit_def parse_i64_def i64_simps)
  moreover have "opt_type (if n = us ''bomb'' then Some (OptInt 1) else None) u" if "?G n = Some u" for n u
    using that by (auto simp: i64_simps split: if_splits)
  moreover have "\<not> MAX_EXPR_DEPTH < need 0 ?e" by (simp add: MAX_EXPR_DEPTH_def need_def)
  ultimately show ?thesis
    using well_typed_evaluates[OF spelt, of "[]" "[]" ?G TyInt "\<lambda>n. if n = us ''bomb'' then Some (OptInt 1) else None"]
    by simp
qed

section \<open>Two behaviours the comments do not say\<close>

text \<open>\<open>||\<close> evaluates its right side whatever the left is.\<close>

lemma or_evaluates_both: "eval_echo (us ''1 || 1/0'') = Inl Divide_by_zero"
proof -
  let ?e = "Or (LitInt (int_lit (us ''1''))) (Arith Div (LitInt (int_lit (us ''1''))) (LitInt (int_lit (us ''0''))))"
  have zero: "text_of [TInt (int_lit (us ''0''))] (us ''0'')"
    by (intro text_of.one spelling.decimal) (simp_all add: starts_def is_ascii_digit_def)
  have slash: "text_of [TSlash, TInt (int_lit (us ''0''))] (us ''/'' @ [] @ us ''0'')"
    by (rule text_of.more[OF _ _ zero]) (simp_all add: spelling.fixed fixed_spellings_def)
  have right: "text_of [TInt (int_lit (us ''1'')), TSlash, TInt (int_lit (us ''0''))] (us ''1'' @ [] @ us ''/'' @ [] @ us ''0'')"
    by (rule text_of.more[OF spelling.decimal _ slash]) (simp_all add: starts_def is_ascii_digit_def)
  have bars: "text_of [TOrOr, TInt (int_lit (us ''1'')), TSlash, TInt (int_lit (us ''0''))]
      (us ''||'' @ [32] @ us ''1'' @ [] @ us ''/'' @ [] @ us ''0'')"
    by (rule text_of.more[OF _ _ right]) (simp_all add: spelling.fixed fixed_spellings_def)
  have "text_of [TInt (int_lit (us ''1'')), TOrOr, TInt (int_lit (us ''1'')), TSlash, TInt (int_lit (us ''0''))]
      (us ''1'' @ [32] @ us ''||'' @ [32] @ us ''1'' @ [] @ us ''/'' @ [] @ us ''0'')"
    by (rule text_of.more[OF spelling.decimal _ bars]) (simp_all add: starts_def is_ascii_digit_def)
  then have "text_of (toks 0 ?e) (us ''1 || 1/0'')" by (simp add: wrapped_def)
  moreover have "need 0 ?e \<le> MAX_EXPR_DEPTH" by (simp add: MAX_EXPR_DEPTH_def need_def)
  moreover have "eager None ?e = Inl Divide_by_zero"
    by (simp add: arith_def int_lit_def parse_i64_def digits_value_def i64_simps)
  ultimately show ?thesis using eval_echo_eager[of ?e] by simp
qed

text \<open>Two integers are compared through \<open>f64\<close>, so beyond \<open>2^53\<close> different ones compare equal.\<close>

lemma bitlen_2_53: "bitlen 9007199254740993 = 54"  "bitlen 9007199254740992 = 54"
  by (simp_all add: bitlen_def compute_floorlog)
lemma exponent_2_53: "exponent2 9007199254740993 = 53"  "exponent2 9007199254740992 = 53"
proof -
  have "quotient_of 9007199254740993 = (9007199254740993, 1)" "quotient_of 9007199254740992 = (9007199254740992, 1)"
    using quotient_of_int[of 9007199254740993] quotient_of_int[of 9007199254740992] 
    by (simp_all add: Rat.of_int_def)
  moreover have "bitlen 1 = 1"  by (simp add: bitlen_def compute_floorlog)
  ultimately show "exponent2 9007199254740993 = 53"  "exponent2 9007199254740992 = 53"
   by (simp_all add: exponent2_def bitlen_2_53 pow_int_def)
qed
lemma ints_compared_as_floats: "compare (VInt 9007199254740993) (VInt 9007199254740992) OpEq"
proof -
  have half: "\<lfloor>9007199254740993 / 2 :: rat\<rfloor> = 4503599627370496"
    by (rule floor_unique) simp_all
  have "f_of_int 9007199254740993 = f_of_int 9007199254740992"
    using half by (simp add: f_of_int_def f_of_rat_def round_pos_def exponent_2_53 pow_int_def round_half_even_def Let_def)
  then show ?thesis
    by (simp add: compare_def compare_ord_def f_cmp_def compare_by_def)
qed

end
