(* ===== verification/Snippet.thy ===== *)
theory Snippet
  imports Std_Text Ordered_Map
begin

text \<open>
  Snippet bodies (\<open>crates/bemtvi-core/src/snippet.rs\<close>): the grammar of tabstops, placeholders, choices
  and mirrors, the resolution of defaults and the layout into text and byte spans; and the re-indentation
  an expansion applies (\<open>editor/snippet.rs\<close>).  A position in the body is the rest of the body; spans
  are byte offsets.  \<open>u32\<close> saturates at \<open>U32_MAX\<close>.
\<close>

section \<open>Data\<close>

record tab_stop =
  ts_index :: nat
  ts_spans :: "(nat \<times> nat) list"
  ts_choices :: "ustring list"

record parsed_snippet =
  ps_text :: ustring
  ps_stops :: "tab_stop list"

datatype snippet_error = Unsupported ustring | Malformed ustring

datatype node = NText ustring | NStop nat "node list" "ustring list"

definition U32_MAX :: nat where
  "U32_MAX = 2 ^ 32 - 1"

section \<open>The grammar\<close>

definition int_step :: "nat \<Rightarrow> uchar \<Rightarrow> nat" where
  "int_step n d = min U32_MAX (min U32_MAX (n * 10) + (d - 48))"

definition parse_int :: "ustring \<Rightarrow> nat \<times> ustring" where
  "parse_int s = (foldl int_step 0 (takeWhile is_ascii_digit s), dropWhile is_ascii_digit s)"

definition is_ident :: "uchar \<Rightarrow> bool" where
  "is_ident c \<longleftrightarrow> is_ascii_alphabetic c \<or> is_ascii_digit c \<or> c = uc CHR ''_''"

definition read_ident :: "ustring \<Rightarrow> ustring" where
  "read_ident s = takeWhile is_ident s"

definition expect_close :: "ustring \<Rightarrow> snippet_error + ustring" where
  "expect_close s =
     (if s \<noteq> [] \<and> hd s = uc CHR ''}'' then Inr (tl s) else Inl (Malformed (us ''expected `}`'')))"

fun parse_choices :: "ustring list \<Rightarrow> ustring \<Rightarrow> ustring \<Rightarrow> snippet_error + ustring list \<times> ustring" where
  "parse_choices choices cur [] =
     Inl (Malformed (us ''unterminated choice `${N|'' @ 8230 # us ''|}`''))"
| "parse_choices choices cur (c # s) =
     (if c = 92 \<and> s \<noteq> [] then
        (if hd s \<in> {uc CHR '','', uc CHR ''|'', 92} then parse_choices choices (cur @ [hd s]) (tl s)
         else parse_choices choices (cur @ [92]) s)
      else if c = uc CHR '','' then parse_choices (choices @ [cur]) [] s
      else if c = uc CHR ''|'' then
        (case expect_close s of Inl e \<Rightarrow> Inl e | Inr r \<Rightarrow> Inr (choices @ [cur], r))
      else parse_choices choices (cur @ [c]) s)"

definition push_lit :: "ustring \<Rightarrow> node list \<Rightarrow> node list" where
  "push_lit lit ns = (if lit \<noteq> [] then NText lit # ns else ns)"

lemma parse_int_rest: "(i, c # r) = parse_int s \<Longrightarrow> length r < length s"
  using length_dropWhile_le[of is_ascii_digit s] by (simp add: parse_int_def) (metis Suc_le_eq length_Cons)

text \<open>The loop over a run of nodes continues behind a construct; a construct always consumes text
  (lemma \<open>parse_shorter\<close>), so the guard never stops the loop.\<close>

function parse_nodes :: "bool \<Rightarrow> ustring \<Rightarrow> ustring \<Rightarrow> snippet_error + node list \<times> ustring"
and parse_dollar :: "ustring \<Rightarrow> snippet_error + node \<times> ustring"
and parse_braced :: "ustring \<Rightarrow> snippet_error + node \<times> ustring"
where
  "parse_nodes in_brace lit s =
     (case s of
        [] \<Rightarrow> Inr (push_lit lit [], [])
      | c # r \<Rightarrow>
          if c = uc CHR ''}'' \<and> in_brace then Inr (push_lit lit [], s)
          else if c = 92 \<and> r \<noteq> [] then
            (if hd r \<in> {uc CHR ''$'', uc CHR ''}'', 92} then parse_nodes in_brace (lit @ [hd r]) (tl r)
             else parse_nodes in_brace (lit @ [92]) r)
          else if c = uc CHR ''$'' then
            (case parse_dollar r of
               Inl e \<Rightarrow> Inl e
             | Inr (n, r1) \<Rightarrow>
                 if length r1 \<le> length r then
                   (case parse_nodes in_brace [] r1 of
                      Inl e \<Rightarrow> Inl e
                    | Inr (ns, r2) \<Rightarrow> Inr (push_lit lit (n # ns), r2))
                 else Inr (push_lit lit [n], r1))
          else parse_nodes in_brace (lit @ [c]) r)"
| "parse_dollar s =
     (if s = [] then Inl (Malformed (us ''trailing `$`''))
      else if hd s = uc CHR ''{'' then parse_braced (tl s)
      else if is_ascii_digit (hd s) then
        (let (i, r) = parse_int s in Inr (NStop i [] [], r))
      else Inl (Unsupported (us ''variable `$'' @ read_ident s @ us ''`'')))"
| "parse_braced s =
     (if s = [] \<or> \<not> is_ascii_digit (hd s) then
        Inl (Unsupported (us ''variable placeholder `${'' @ read_ident s @ 8230 # us ''}`''))
      else
        (let (i, r) = parse_int s in
         case r of
           [] \<Rightarrow> Inl (Malformed (us ''unterminated `${'' @ show_nat i @ 8230 # us ''}`''))
         | c # r' \<Rightarrow>
             if c = uc CHR ''}'' then Inr (NStop i [] [], r')
             else if c = uc CHR '':'' then
               (case parse_nodes True [] r' of
                  Inl e \<Rightarrow> Inl e
                | Inr (body, r1) \<Rightarrow>
                    (case expect_close r1 of Inl e \<Rightarrow> Inl e | Inr r2 \<Rightarrow> Inr (NStop i body [], r2)))
             else if c = uc CHR ''|'' then
               (case parse_choices [] [] r' of
                  Inl e \<Rightarrow> Inl e
                | Inr (cs, r1) \<Rightarrow> Inr (NStop i [] cs, r1))
             else if c = uc CHR ''/'' then
               Inl (Unsupported (us ''transform on tabstop $'' @ show_nat i))
             else Inl (Malformed (us ''unterminated `${'' @ show_nat i @ 8230 # us ''}`''))))"
  by pat_completeness auto
termination
  by (relation "measure (\<lambda>x. case x of Inl (_, _, s) \<Rightarrow> 3 * length s
        | Inr (Inl s) \<Rightarrow> 3 * length s + 2 | Inr (Inr s) \<Rightarrow> 3 * length s + 1)")
     (auto simp: neq_Nil_conv dest: parse_int_rest)

declare parse_nodes.simps [simp del] parse_dollar.simps [simp del] parse_braced.simps [simp del]

section \<open>Defaults and layout\<close>

type_synonym defaults = "(nat \<times> ustring) list"

text \<open>\<open>entry(k).or_insert(v)\<close>: an entry already there stays.\<close>

definition or_insert :: "'k::linorder \<Rightarrow> 'v \<Rightarrow> ('k \<times> 'v) list \<Rightarrow> ('k \<times> 'v) list" where
  "or_insert k v m = (if map_of m k = None then bt_insert k v m else m)"

fun render_default :: "node list \<Rightarrow> defaults \<Rightarrow> ustring" where
  "render_default [] defs = []"
| "render_default (NText s # ns) defs = s @ render_default ns defs"
| "render_default (NStop i body ch # ns) defs =
     (if ch \<noteq> [] then hd ch
      else if body \<noteq> [] then render_default body defs
      else case map_of defs i of Some d \<Rightarrow> d | None \<Rightarrow> []) @ render_default ns defs"

fun resolve_defaults :: "node list \<Rightarrow> defaults \<Rightarrow> defaults" where
  "resolve_defaults [] defs = defs"
| "resolve_defaults (NText s # ns) defs = resolve_defaults ns defs"
| "resolve_defaults (NStop i body ch # ns) defs =
     resolve_defaults ns (resolve_defaults body
       (if ch \<noteq> [] then or_insert i (hd ch) defs
        else if body \<noteq> [] then or_insert i (render_default body defs) defs
        else defs))"

record layout_state =
  l_text :: ustring
  l_spans :: "(nat \<times> (nat \<times> nat) list) list"
  l_choices :: "(nat \<times> ustring list) list"

definition push_span :: "nat \<Rightarrow> nat \<times> nat \<Rightarrow> layout_state \<Rightarrow> layout_state" where
  "push_span i r st =
     st\<lparr>l_spans := bt_insert i ((case map_of (l_spans st) i of Some rs \<Rightarrow> rs | None \<Rightarrow> []) @ [r]) (l_spans st)\<rparr>"

fun layout :: "defaults \<Rightarrow> node list \<Rightarrow> layout_state \<Rightarrow> layout_state" where
  "layout defs [] st = st"
| "layout defs (NText s # ns) st = layout defs ns (st\<lparr>l_text := l_text st @ s\<rparr>)"
| "layout defs (NStop i body ch # ns) st =
     (let start = byte_len (l_text st);
          st1 = (if ch \<noteq> [] then st\<lparr>l_text := l_text st @ hd ch, l_choices := or_insert i ch (l_choices st)\<rparr>
                 else if body \<noteq> [] then layout defs body st
                 else case map_of defs i of Some d \<Rightarrow> st\<lparr>l_text := l_text st @ d\<rparr> | None \<Rightarrow> st)
      in layout defs ns (push_span i (start, byte_len (l_text st1)) st1))"

definition tab_order :: "tab_stop \<Rightarrow> nat" where
  "tab_order s = (if ts_index s = 0 then U32_MAX else ts_index s)"

definition collect_stops :: "layout_state \<Rightarrow> tab_stop list" where
  "collect_stops st =
     map (\<lambda>(i, rs). \<lparr>ts_index = i, ts_spans = sort_key fst rs,
                      ts_choices = (case map_of (l_choices st) i of Some ch \<Rightarrow> ch | None \<Rightarrow> [])\<rparr>)
       (l_spans st)"

definition parse_snippet :: "ustring \<Rightarrow> snippet_error + parsed_snippet" where
  "parse_snippet src =
     (case parse_nodes False [] src of
        Inl e \<Rightarrow> Inl e
      | Inr (nodes, rest) \<Rightarrow>
          if rest \<noteq> [] then Inl (Malformed (us ''unexpected `}`''))
          else
            (let st = layout (resolve_defaults nodes []) nodes \<lparr>l_text = [], l_spans = [], l_choices = []\<rparr>
             in Inr \<lparr>ps_text = l_text st, ps_stops = sort_key tab_order (collect_stops st)\<rparr>))"

section \<open>Re-indentation\<close>

text \<open>The re-indented text and the map from byte offsets to new byte offsets, by one walk over the
  characters.\<close>

fun reindent_walk :: "ustring \<Rightarrow> bool \<Rightarrow> nat \<Rightarrow> ustring \<Rightarrow> nat list \<Rightarrow> ustring \<Rightarrow> ustring \<times> nat list" where
  "reindent_walk indent prev_nl i out m [] = (out, m[i := byte_len out])"
| "reindent_walk indent prev_nl i out m (c # s) =
     (let out1 = (if prev_nl then out @ indent else out)
      in reindent_walk indent (c = 10) (i + len_utf8 c) (out1 @ [c]) (m[i := byte_len out1]) s)"

definition reindent :: "ustring \<Rightarrow> tab_stop list \<Rightarrow> ustring \<Rightarrow> ustring \<times> (nat \<times> nat) list list" where
  "reindent t stops indent =
     (if indent = [] \<or> 10 \<notin> set t then (t, map ts_spans stops)
      else
        (let (out, m) = reindent_walk indent False 0 [] (replicate (byte_len t + 1) 0) t
         in (out, map (\<lambda>s. map (\<lambda>(a, b). (m ! a, m ! b)) (ts_spans s)) stops)))"

end
