(* ===== verification/SnippetProps.thy ===== *)
theory SnippetProps
  imports Snippet
begin

text \<open>
  Snippet bodies: printing a tree of nodes and parsing it back, what the spans of the stops cover, when
  mirrors agree, and what re-indentation does to the spans.
\<close>

section \<open>The parser consumes text\<close>

lemma expect_close_shorter: "expect_close s = Inr r \<Longrightarrow> length r < length s"
  by (auto simp: expect_close_def neq_Nil_conv split: if_splits)

lemma parse_choices_shorter: "parse_choices cs cur s = Inr (ch, r) \<Longrightarrow> length r < length s"
proof (induction cs cur s rule: parse_choices.induct)
  case (2 choices cur c s)
  show ?case
  proof (cases "c = 92 \<and> s \<noteq> []")
    case True
    show ?thesis
    proof (cases "hd s \<in> {uc CHR '','', uc CHR ''|'', 92}")
      case esc: True
      with 2 True have "length r < length (tl s)" by (auto split: if_splits)
      then show ?thesis by simp
    next
      case False
      with "2.prems" True have "parse_choices choices (cur @ [92]) s = Inr (ch, r)" by auto
      from "2.IH"(2)[OF True False this] show ?thesis by simp
    qed
  next
    case False
    consider (comma) "c = uc CHR '',''" | (bar) "c = uc CHR ''|''" | (plain) "c \<noteq> uc CHR '',''" "c \<noteq> uc CHR ''|''"
      by blast
    then show ?thesis
    proof cases
      case comma
      with "2.prems" False have "parse_choices (choices @ [cur]) [] s = Inr (ch, r)" by simp
      from "2.IH"(3)[OF False comma this] show ?thesis by simp
    next
      case bar
      with "2.prems" False have "expect_close s = Inr r" by (simp split: sum.splits)
      then show ?thesis using expect_close_shorter by fastforce
    next
      case plain
      with "2.prems" False have "parse_choices choices (cur @ [c]) s = Inr (ch, r)" by simp
      from "2.IH"(4)[OF False plain this] show ?thesis by simp
    qed
  qed
qed simp

lemma parse_shorter:
  "parse_nodes b lit s = Inr (ns, r) \<Longrightarrow> length r \<le> length s"
  "parse_dollar s = Inr (n, r) \<Longrightarrow> length r < length s"
  "parse_braced s = Inr (n, r) \<Longrightarrow> length r < length s"
proof (induction b lit s and s and s arbitrary: ns r and n r and n r
    rule: parse_nodes_parse_dollar_parse_braced.induct)
  case (1 b lit s)
  show ?case
  proof (cases s)
    case Nil
    with "1.prems" show ?thesis by (simp add: parse_nodes.simps)
  next
    case (Cons c s')
    consider "c = uc CHR ''}'' \<and> b" | (esc) "\<not> (c = uc CHR ''}'' \<and> b)" "c = 92 \<and> s' \<noteq> []"
      | (dollar) "\<not> (c = 92 \<and> s' \<noteq> [])" "c = uc CHR ''$''"
      | (plain) "\<not> (c = uc CHR ''}'' \<and> b)" "\<not> (c = 92 \<and> s' \<noteq> [])" "c \<noteq> uc CHR ''$''"
      by auto
    then show ?thesis
    proof cases
      case 1
      with "1.prems" Cons show ?thesis by (simp add: parse_nodes.simps)
    next
      case esc
      show ?thesis
      proof (cases "hd s' \<in> {uc CHR ''$'', uc CHR ''}'', 92}")
        case True
        with esc "1.prems" Cons have "parse_nodes b (lit @ [hd s']) (tl s') = Inr (ns, r)"
          by (subst (asm) parse_nodes.simps) auto
        from "1.IH"(1)[OF Cons esc(1,2) True this] Cons show ?thesis by simp
      next
        case False
        with esc "1.prems" Cons have "parse_nodes b (lit @ [92]) s' = Inr (ns, r)"
          by (subst (asm) parse_nodes.simps) auto
        from "1.IH"(2)[OF Cons esc(1,2) False this] Cons show ?thesis by simp
      qed
    next
      case dollar
      then have nb: "\<not> (c = uc CHR ''}'' \<and> b)" by simp
      from "1.prems" Cons dollar obtain n1 r1 where d: "parse_dollar s' = Inr (n1, r1)"
        by (subst (asm) parse_nodes.simps) (auto split: sum.splits)
      from "1.IH"(3)[OF Cons nb dollar d] have len: "length r1 \<le> length s'" by simp
      show ?thesis
      proof (cases "parse_nodes b [] r1")
        case (Inl e)
        with "1.prems" Cons dollar d len show ?thesis by (subst (asm) parse_nodes.simps) auto
      next
        case (Inr q)
        obtain ns' r' where q: "q = (ns', r')" by (cases q)
        from "1.IH"(4)[OF Cons nb dollar d refl len] Inr q have "length r' \<le> length r1" by simp
        moreover from "1.prems" Cons dollar d len Inr q have "r = r'"
          by (subst (asm) parse_nodes.simps) auto
        ultimately show ?thesis using len Cons by simp
      qed
    next
      case plain
      with "1.prems" Cons have "parse_nodes b (lit @ [c]) s' = Inr (ns, r)"
        by (subst (asm) parse_nodes.simps) auto
      from "1.IH"(5)[OF Cons plain this] Cons show ?thesis by simp
    qed
  qed
next
  case (2 s)
  show ?case
  proof (cases "s \<noteq> [] \<and> hd s = uc CHR ''{''")
    case True
    with 2 have "length r < length (tl s)" by (auto simp: parse_dollar.simps)
    then show ?thesis by simp
  next
    case False
    with 2(2) show ?thesis
      by (cases s) (auto simp: parse_dollar.simps parse_int_def Let_def less_Suc_eq_le length_dropWhile_le
        split: if_splits)
  qed
next
  case (3 s)
  from "3.prems" obtain i c r' where p: "parse_int s = (i, c # r')" and s: "\<not> (s = [] \<or> \<not> is_ascii_digit (hd s))"
    by (auto simp: parse_braced.simps split: if_splits prod.splits list.splits)
  from parse_int_rest[OF p[symmetric]] have len: "length r' < length s" .
  consider (close) "c = uc CHR ''}''" | (body) "c = uc CHR '':''" | (choice) "c = uc CHR ''|''"
    using "3.prems" p s by (auto simp: parse_braced.simps split: if_splits)
  then show ?case
  proof cases
    case close
    with "3.prems" p s len show ?thesis by (auto simp: parse_braced.simps)
  next
    case body
    with "3.prems" p s obtain bd r1 where b: "parse_nodes True [] r' = Inr (bd, r1)" "expect_close r1 = Inr r"
      by (auto simp: parse_braced.simps split: sum.splits)
    have "c \<noteq> uc CHR ''}''" using body by simp
    from "3.IH"[OF s refl p[symmetric] refl this body b(1)] expect_close_shorter[OF b(2)] len show ?thesis by simp
  next
    case choice
    with "3.prems" p s obtain cs where "parse_choices [] [] r' = Inr (cs, r)"
      by (auto simp: parse_braced.simps split: sum.splits)
    from parse_choices_shorter[OF this] len show ?thesis by simp
  qed
qed

section \<open>Printing\<close>

definition escape_in :: "uchar set \<Rightarrow> ustring \<Rightarrow> ustring" where
  "escape_in X s = concat (map (\<lambda>c. if c \<in> X then [92, c] else [c]) s)"

abbreviation escape_text :: "ustring \<Rightarrow> ustring" where
  "escape_text \<equiv> escape_in {36, 125, 92}"

abbreviation escape_choice :: "ustring \<Rightarrow> ustring" where
  "escape_choice \<equiv> escape_in {44, 124, 92}"

lemma escape_in_simps [simp]:
  "escape_in X [] = []" "escape_in X (c # s) = (if c \<in> X then [92, c] else [c]) @ escape_in X s"
  by (simp_all add: escape_in_def)

fun print_choices :: "ustring list \<Rightarrow> ustring" where
  "print_choices [] = []"
| "print_choices [c] = escape_choice c"
| "print_choices (c # cs) = escape_choice c @ us '','' @ print_choices cs"

fun print_nodes :: "node list \<Rightarrow> ustring" where
  "print_nodes [] = []"
| "print_nodes (NText s # ns) = escape_text s @ print_nodes ns"
| "print_nodes (NStop i body ch # ns) =
     us ''${'' @ show_nat i @
     (if ch \<noteq> [] then us ''|'' @ print_choices ch @ us ''|}''
      else if body \<noteq> [] then us '':'' @ print_nodes body @ us ''}''
      else us ''}'') @ print_nodes ns"

text \<open>The trees the parser builds: no empty and no two adjacent texts, numbers that fit.\<close>

fun starts_text :: "node list \<Rightarrow> bool" where
  "starts_text (NText s # ns) = True"
| "starts_text _ = False"

fun wf_nodes :: "node list \<Rightarrow> bool" where
  "wf_nodes [] = True"
| "wf_nodes (NText s # ns) = (s \<noteq> [] \<and> \<not> starts_text ns \<and> wf_nodes ns)"
| "wf_nodes (NStop i body ch # ns) =
     (i \<le> U32_MAX \<and> (body = [] \<or> ch = []) \<and> wf_nodes body \<and> wf_nodes ns)"

lemma digits_fold:
  "foldl int_step n ds = n * 10 ^ length ds + digits_value ds"
  if "list_all is_ascii_digit ds" "n * 10 ^ length ds + digits_value ds \<le> U32_MAX" for n
  using that
proof (induction ds rule: rev_induct)
  case (snoc d ds)
  let ?m = "n * 10 ^ length ds + digits_value ds"
  have m: "10 * ?m + (d - 48) \<le> U32_MAX"
    using snoc.prems(2) by (simp add: algebra_simps)
  then have "?m \<le> U32_MAX" by simp
  with snoc have "foldl int_step n (ds @ [d]) = int_step ?m d" by simp
  also have "\<dots> = 10 * ?m + (d - 48)" using m by (simp add: int_step_def)
  finally show ?case by (simp add: algebra_simps)
qed (simp add: digits_value_def)

lemma parse_int_show:
  assumes "i \<le> U32_MAX" and "rest \<noteq> []" "\<not> is_ascii_digit (hd rest)"
  shows "parse_int (show_nat i @ rest) = (i, rest)"
proof -
  have run: "takeWhile is_ascii_digit (ds @ rest) = ds \<and> dropWhile is_ascii_digit (ds @ rest) = rest"
    if "list_all is_ascii_digit ds" for ds
    using that assms(2,3) by (induction ds) (cases rest; auto)+
  have "foldl int_step 0 (show_nat i) = i"
    using digits_fold[of "show_nat i" 0] assms(1) by (simp add: show_nat_digits)
  with run[OF show_nat_digits] show ?thesis by (simp add: parse_int_def)
qed

lemma hd_show_nat: "is_ascii_digit (hd (show_nat i @ s))"
  using show_nat_digits[of i] show_nat_nonempty[of i] by (cases "show_nat i") auto

lemma parse_escaped:
  "parse_nodes b lit (escape_text s @ rest) = parse_nodes b (lit @ s) rest"
proof (induction s arbitrary: lit)
  case (Cons c s)
  show ?case
  proof (cases "c \<in> {36, 125, 92}")
    case True
    then have "parse_nodes b lit (escape_text (c # s) @ rest) = parse_nodes b (lit @ [c]) (escape_text s @ rest)"
      by (subst parse_nodes.simps) auto
    with Cons.IH[of "lit @ [c]"] show ?thesis by (simp del: escape_in_simps)
  next
    case False
    then have "parse_nodes b lit (escape_text (c # s) @ rest) = parse_nodes b (lit @ [c]) (escape_text s @ rest)"
      by (subst parse_nodes.simps) auto
    with Cons.IH[of "lit @ [c]"] show ?thesis by (simp del: escape_in_simps)
  qed
qed simp

lemma parse_choice_escaped:
  "parse_choices cs cur (escape_choice s @ rest) = parse_choices cs (cur @ s) rest"
proof (induction s arbitrary: cur)
  case (Cons c s)
  have "parse_choices cs cur (escape_choice (c # s) @ rest) = parse_choices cs (cur @ [c]) (escape_choice s @ rest)"
    by (cases "c \<in> {44, 124, 92}") auto
  with Cons.IH[of "cur @ [c]"] show ?case by (simp del: escape_in_simps)
qed simp

lemma parse_printed_choices:
  "ch \<noteq> [] \<Longrightarrow> parse_choices cs [] (print_choices ch @ us ''|}'' @ rest) = Inr (cs @ ch, rest)"
proof (induction ch arbitrary: cs rule: print_choices.induct)
  case (2 c)
  show ?case by (simp add: parse_choice_escaped expect_close_def)
next
  case (3 c d ds)
  then show ?case by (simp add: parse_choice_escaped)
qed simp

lemma parse_stop:
  assumes "parse_dollar s = Inr (n, r)"
  shows "parse_nodes b lit (uc CHR ''$'' # s) =
    (case parse_nodes b [] r of Inl e \<Rightarrow> Inl e | Inr (ns, r2) \<Rightarrow> Inr (push_lit lit (n # ns), r2))"
  using parse_shorter(2)[OF assms] assms by (subst parse_nodes.simps) (simp add: less_imp_le)

lemma parse_braced_stop:
  assumes "i \<le> U32_MAX" and "c \<in> {uc CHR ''}'', uc CHR '':'', uc CHR ''|''}"
  shows "parse_dollar (uc CHR ''{'' # show_nat i @ c # r) =
    (if c = uc CHR ''}'' then Inr (NStop i [] [], r)
     else if c = uc CHR '':'' then
       (case parse_nodes True [] r of
          Inl e \<Rightarrow> Inl e
        | Inr (body, r1) \<Rightarrow>
            (case expect_close r1 of Inl e \<Rightarrow> Inl e | Inr r2 \<Rightarrow> Inr (NStop i body [], r2)))
     else (case parse_choices [] [] r of Inl e \<Rightarrow> Inl e | Inr (cs, r1) \<Rightarrow> Inr (NStop i [] cs, r1)))"
proof -
  have "parse_int (show_nat i @ c # r) = (i, c # r)"
    using assms by (intro parse_int_show) (auto simp: is_ascii_digit_def)
  with assms(2) hd_show_nat[of i "c # r"] show ?thesis
    by (auto simp: parse_dollar.simps parse_braced.simps)
qed

text \<open>What a run of printed nodes is parsed to, before the end or a closing brace.\<close>

lemma parse_printed:
  assumes "wf_nodes ns" and "lit = [] \<or> \<not> starts_text ns"
    and "rest = [] \<or> b \<and> hd rest = uc CHR ''}''"
  shows "parse_nodes b lit (print_nodes ns @ rest) = Inr (push_lit lit ns, rest)"
  using assms
proof (induction ns arbitrary: b lit rest rule: print_nodes.induct)
  case 1
  then show ?case by (cases rest) (auto simp: parse_nodes.simps)
next
  case (2 s ns)
  then show ?case by (simp add: parse_escaped push_lit_def)
next
  case (3 i body ch ns)
  from "3.prems" have wf: "i \<le> U32_MAX" "body = [] \<or> ch = []" "wf_nodes body" "wf_nodes ns" by auto
  have tail: "parse_nodes b [] (print_nodes ns @ rest) = Inr (ns, rest)"
    using "3.IH"(2)[of "[]" rest b] wf(4) "3.prems"(3) by (simp add: push_lit_def)
  let ?r = "print_nodes ns @ rest"
  have "parse_dollar (us ''{'' @ show_nat i @
      (if ch \<noteq> [] then us ''|'' @ print_choices ch @ us ''|}''
       else if body \<noteq> [] then us '':'' @ print_nodes body @ us ''}'' else us ''}'') @ ?r) =
    Inr (NStop i body ch, ?r)"
  proof (cases "ch \<noteq> []")
    case True
    with wf parse_braced_stop[of i "uc CHR ''|''" "print_choices ch @ us ''|}'' @ ?r"]
      parse_printed_choices[of ch "[]" ?r] show ?thesis by simp
  next
    case no: False
    show ?thesis
    proof (cases "body \<noteq> []")
      case True
      have "parse_nodes True [] (print_nodes body @ us ''}'' @ ?r) = Inr (body, us ''}'' @ ?r)"
        using "3.IH"(1)[of "[]" "us ''}'' @ ?r" True] no True wf(3) by (simp add: push_lit_def)
      with no True wf parse_braced_stop[of i "uc CHR '':''" "print_nodes body @ us ''}'' @ ?r"]
      show ?thesis by (simp add: expect_close_def)
    next
      case False
      with no wf parse_braced_stop[of i "uc CHR ''}''" ?r] show ?thesis by simp
    qed
  qed
  from parse_stop[OF this, of b lit] tail show ?case by simp
qed

section \<open>What the spans cover\<close>

text \<open>\<open>covers t r w\<close>: the span \<open>r\<close> of the text \<open>t\<close>, on character boundaries, is the text \<open>w\<close>.\<close>

definition covers :: "ustring \<Rightarrow> nat \<times> nat \<Rightarrow> ustring \<Rightarrow> bool" where
  "covers t r w \<longleftrightarrow> (\<exists>p q. t = p @ w @ q \<and> fst r = byte_len p \<and> snd r = byte_len (p @ w))"

lemma covers_extend: "covers t r w \<Longrightarrow> covers (t @ u) r w"
  unfolding covers_def by (metis append.assoc)

lemma covers_end: "covers (t @ w) (byte_len t, byte_len (t @ w)) w"
  unfolding covers_def by (intro exI[of _ t] exI[of _ "[]"]) simp

lemma covers_bounds: "covers t r w \<Longrightarrow> fst r \<le> snd r \<and> snd r \<le> byte_len t"
  by (auto simp: covers_def)

text \<open>The text a run of nodes is laid out to is its rendering with the final defaults.\<close>

lemma layout_text: "l_text (layout defs ns st) = l_text st @ render_default ns defs"
  by (induction defs ns st rule: layout.induct)
     (auto simp: Let_def push_span_def split: option.split)

text \<open>The stops of a tree, and what each occurrence renders.\<close>

fun stops_of :: "node list \<Rightarrow> (nat \<times> node list \<times> ustring list) list" where
  "stops_of [] = []"
| "stops_of (NText s # ns) = stops_of ns"
| "stops_of (NStop i body ch # ns) = (i, body, ch) # (if ch = [] then stops_of body else []) @ stops_of ns"

definition shown :: "defaults \<Rightarrow> nat \<times> node list \<times> ustring list \<Rightarrow> ustring" where
  "shown defs o' = (case o' of (i, body, ch) \<Rightarrow> render_default [NStop i body ch] defs)"

definition spans_right :: "defaults \<Rightarrow> (nat \<times> node list \<times> ustring list) set \<Rightarrow> layout_state \<Rightarrow> bool" where
  "spans_right defs X st \<longleftrightarrow>
     keys_sorted (l_spans st) \<and>
     (\<forall>(i, rs) \<in> set (l_spans st). rs \<noteq> [] \<and>
        (\<forall>r \<in> set rs. \<exists>body ch. (i, body, ch) \<in> X \<and> covers (l_text st) r (shown defs (i, body, ch))))"

lemma spans_right_extend:
  assumes "spans_right defs P st" "P \<subseteq> Q"
    and "l_spans st' = l_spans st" "l_text st' = l_text st @ w"
  shows "spans_right defs Q st'"
  using assms unfolding spans_right_def by (fastforce intro: covers_extend)

lemma bt_insert_set: "keys_sorted m \<Longrightarrow> (j, w) \<in> set (bt_insert k v m) \<longleftrightarrow> (j = k \<and> w = v) \<or> (j \<noteq> k \<and> (j, w) \<in> set m)"
  using map_of_eq_Some_iff[OF keys_sorted_distinct[OF bt_insert_sorted], of m k v j w]
    map_of_eq_Some_iff[OF keys_sorted_distinct, of m j w]
  by (auto simp: bt_insert_lookup split: if_splits)

lemma spans_right_push:
  assumes "spans_right defs P st" "(i, body, ch) \<in> P" "covers (l_text st) r (shown defs (i, body, ch))"
  shows "spans_right defs P (push_span i r st)"
proof -
  from assms(1) have ks: "keys_sorted (l_spans st)" by (simp add: spans_right_def)
  let ?old = "case map_of (l_spans st) i of Some rs \<Rightarrow> rs | None \<Rightarrow> []"
  have old: "r' \<in> set ?old \<Longrightarrow> \<exists>rs. (i, rs) \<in> set (l_spans st) \<and> r' \<in> set rs" for r'
    by (cases "map_of (l_spans st) i") (auto dest: map_of_SomeD)
  show ?thesis
    unfolding spans_right_def
  proof (intro conjI ballI, goal_cases)
    case 1 show ?case using ks by (simp add: push_span_def bt_insert_sorted)
  next
    case (2 x)
    obtain j rs where x: "x = (j, rs)" by (cases x)
    with 2 have "(j, rs) \<in> set (bt_insert i (?old @ [r]) (l_spans st))" by (simp add: push_span_def)
    with ks have c: "(j = i \<and> rs = ?old @ [r]) \<or> (j \<noteq> i \<and> (j, rs) \<in> set (l_spans st))"
      by (simp only: bt_insert_set)
    from c show ?case
    proof (elim disjE conjE)
      assume "j = i" "rs = ?old @ [r]"
      with assms old x show ?thesis unfolding spans_right_def by (fastforce simp: push_span_def)
    next
      assume "j \<noteq> i" "(j, rs) \<in> set (l_spans st)"
      with assms(1) x show ?thesis unfolding spans_right_def by (fastforce simp: push_span_def)
    qed
  qed
qed

lemma layout_spans:
  assumes "spans_right defs P st"
  shows "spans_right defs (P \<union> set (stops_of ns)) (layout defs ns st)"
  using assms
proof (induction defs ns st arbitrary: P rule: layout.induct)
  case (2 defs s ns st)
  have "spans_right defs P (st\<lparr>l_text := l_text st @ s\<rparr>)"
    by (rule spans_right_extend[OF "2.prems"]) simp_all
  from "2.IH"[OF this] show ?case by simp
next
  case (3 defs i body ch ns st)
  let ?o = "(i, body, ch)"
  let ?st1 = "if ch \<noteq> [] then st\<lparr>l_text := l_text st @ hd ch, l_choices := or_insert i ch (l_choices st)\<rparr>
    else if body \<noteq> [] then layout defs body st
    else case map_of defs i of Some d \<Rightarrow> st\<lparr>l_text := l_text st @ d\<rparr> | None \<Rightarrow> st"
  let ?P = "P \<union> insert ?o (if ch = [] then set (stops_of body) else {})"
  have grown: "l_text ?st1 = l_text st @ shown defs ?o"
    by (auto simp: shown_def layout_text split: option.split)
  have "spans_right defs ?P ?st1"
  proof (cases "ch = [] \<and> body \<noteq> []")
    case True
    with "3.IH"(1)[OF refl _ _ "3.prems"] have "spans_right defs (P \<union> set (stops_of body)) (layout defs body st)"
      by simp
    then have "spans_right defs ?P (layout defs body st)"
      by (rule spans_right_extend[where w = "[]"]) (use True in auto)
    with True show ?thesis by simp
  next
    case False
    then have "l_spans ?st1 = l_spans st" by (auto split: option.split)
    show ?thesis by (rule spans_right_extend[OF "3.prems" _ \<open>l_spans ?st1 = l_spans st\<close> grown]) auto
  qed
  moreover have "covers (l_text ?st1) (byte_len (l_text st), byte_len (l_text ?st1)) (shown defs ?o)"
    unfolding grown by (rule covers_end)
  ultimately have "spans_right defs ?P (push_span i (byte_len (l_text st), byte_len (l_text ?st1)) ?st1)"
    by (intro spans_right_push) auto
  from "3.IH"(2)[OF refl refl this]
  have "spans_right defs (?P \<union> set (stops_of ns)) (layout defs (NStop i body ch # ns) st)"
    by (simp only: layout.simps Let_def)
  moreover have "?P \<union> set (stops_of ns) = P \<union> set (stops_of (NStop i body ch # ns))" by auto
  ultimately show ?case by (simp only:)
qed simp

lemma layout_start: "spans_right defs {} \<lparr>l_text = [], l_spans = [], l_choices = []\<rparr>"
  by (simp add: spans_right_def)

lemma parsed_layout:
  assumes "parse_snippet src = Inr p"
  obtains ns st where "parse_nodes False [] src = Inr (ns, [])"
    "st = layout (resolve_defaults ns []) ns \<lparr>l_text = [], l_spans = [], l_choices = []\<rparr>"
    "ps_text p = l_text st" "ps_stops p = sort_key tab_order (collect_stops st)"
    "spans_right (resolve_defaults ns []) (set (stops_of ns)) st"
  using assms layout_spans[OF layout_start]
  by (force simp: parse_snippet_def Let_def split: sum.splits prod.splits if_splits)

lemma stop_span:
  assumes "spans_right defs X st" and "s \<in> set (collect_stops st)"
  shows "ts_spans s \<noteq> []" "sorted (map fst (ts_spans s))"
    "r \<in> set (ts_spans s) \<Longrightarrow>
       \<exists>body ch. (ts_index s, body, ch) \<in> X \<and> covers (l_text st) r (shown defs (ts_index s, body, ch))"
proof -
  from assms(2) obtain i rs where s: "(i, rs) \<in> set (l_spans st)" "ts_index s = i" "ts_spans s = sort_key fst rs"
    by (auto simp: collect_stops_def)
  with assms(1) have "rs \<noteq> []" "\<And>r. r \<in> set rs \<Longrightarrow>
    \<exists>body ch. (i, body, ch) \<in> X \<and> covers (l_text st) r (shown defs (i, body, ch))"
    unfolding spans_right_def by fastforce+
  with s show "ts_spans s \<noteq> []" "sorted (map fst (ts_spans s))"
    "r \<in> set (ts_spans s) \<Longrightarrow>
       \<exists>body ch. (ts_index s, body, ch) \<in> X \<and> covers (l_text st) r (shown defs (ts_index s, body, ch))"
    by (simp_all flip: set_empty)
qed

text \<open>As many spans are recorded of an index as it occurs.\<close>

definition spans_at :: "layout_state \<Rightarrow> nat \<Rightarrow> (nat \<times> nat) list" where
  "spans_at st i = (case map_of (l_spans st) i of Some rs \<Rightarrow> rs | None \<Rightarrow> [])"

definition occurrences :: "nat \<Rightarrow> node list \<Rightarrow> nat" where
  "occurrences i ns = length (filter (\<lambda>(j, _). j = i) (stops_of ns))"

lemma spans_at_push:
  "keys_sorted (l_spans st) \<Longrightarrow>
   keys_sorted (l_spans (push_span j r st)) \<and>
   length (spans_at (push_span j r st) i) = length (spans_at st i) + (if i = j then 1 else 0)"
  by (auto simp: push_span_def spans_at_def bt_insert_sorted bt_insert_lookup split: option.split)

lemma layout_counts:
  "keys_sorted (l_spans st) \<Longrightarrow>
   keys_sorted (l_spans (layout defs ns st)) \<and>
   length (spans_at (layout defs ns st) i) = length (spans_at st i) + occurrences i ns"
proof (induction defs ns st rule: layout.induct)
  case (2 defs s ns st)
  then show ?case by (simp add: spans_at_def occurrences_def)
next
  case (3 defs j body ch ns st)
  let ?st1 = "if ch \<noteq> [] then st\<lparr>l_text := l_text st @ hd ch, l_choices := or_insert j ch (l_choices st)\<rparr>
    else if body \<noteq> [] then layout defs body st
    else case map_of defs j of Some d \<Rightarrow> st\<lparr>l_text := l_text st @ d\<rparr> | None \<Rightarrow> st"
  have st1: "keys_sorted (l_spans ?st1) \<and>
    length (spans_at ?st1 i) = length (spans_at st i) + (if ch = [] then occurrences i body else 0)"
    using "3.IH"(1)[OF refl _ _ "3.prems"] "3.prems"
    by (auto simp: spans_at_def occurrences_def split: option.split)
  from spans_at_push[OF conjunct1[OF st1], of j "(byte_len (l_text st), byte_len (l_text ?st1))" i]
    "3.IH"(2)[OF refl refl, OF conjunct1[OF spans_at_push[OF conjunct1[OF st1]]]] st1
  show ?case by (simp only: layout.simps Let_def) (simp add: occurrences_def)
qed (simp add: occurrences_def)

lemma recorded_spans:
  assumes "l_spans st0 = []" and "st = layout defs ns st0" and "occurrences i ns \<noteq> 0"
  shows "\<exists>s \<in> set (collect_stops st). ts_index s = i \<and> length (ts_spans s) = occurrences i ns"
proof -
  have "length (spans_at st i) = occurrences i ns"
    using layout_counts[of st0 defs ns i] assms(1,2) by (simp add: spans_at_def)
  with assms(3) obtain rs where "map_of (l_spans st) i = Some rs" "length rs = occurrences i ns"
    by (cases "map_of (l_spans st) i") (auto simp: spans_at_def)
  then show ?thesis unfolding collect_stops_def by (force dest: map_of_SomeD)
qed

section \<open>When mirrors agree\<close>

text \<open>The occurrences that give their stop a text, for bodies without stops of their own.\<close>

definition flat :: "node list \<Rightarrow> bool" where
  "flat ns \<longleftrightarrow> (\<forall>(i, body, ch) \<in> set (stops_of ns). stops_of body = [])"

definition defining :: "node list \<Rightarrow> defaults" where
  "defining ns =
     map (\<lambda>(i, body, ch). (i, if ch \<noteq> [] then hd ch else render_default body []))
       (filter (\<lambda>(i, body, ch). ch \<noteq> [] \<or> body \<noteq> []) (stops_of ns))"

definition consistent :: "node list \<Rightarrow> bool" where
  "consistent ns \<longleftrightarrow> (\<forall>(i, d) \<in> set (defining ns). map_of (defining ns) i = Some d)"

lemma plain_body:
  "stops_of ns = [] \<Longrightarrow> resolve_defaults ns defs = defs \<and> render_default ns defs = render_default ns []"
  by (induction ns rule: stops_of.induct) auto

lemma or_insert_sorted: "keys_sorted m \<Longrightarrow> keys_sorted (or_insert k v m)"
  by (simp add: or_insert_def bt_insert_sorted)

lemma or_insert_lookup:
  "keys_sorted m \<Longrightarrow> map_of (or_insert k v m) i = (case map_of m i of Some d \<Rightarrow> Some d | None \<Rightarrow> map_of [(k, v)] i)"
  by (auto simp: or_insert_def bt_insert_lookup split: option.split)

lemma defaults_flat:
  "flat ns \<Longrightarrow> keys_sorted defs \<Longrightarrow>
   map_of (resolve_defaults ns defs) i = (case map_of defs i of Some d \<Rightarrow> Some d | None \<Rightarrow> map_of (defining ns) i)"
proof (induction ns defs rule: resolve_defaults.induct)
  case (3 j body ch ns defs)
  from "3.prems" have plain: "stops_of body = []" and flat: "flat ns" by (auto simp: flat_def)
  note pb = plain_body[OF plain]
  let ?defs = "if ch \<noteq> [] then or_insert j (hd ch) defs
    else if body \<noteq> [] then or_insert j (render_default body defs) defs else defs"
  have ks: "keys_sorted ?defs" using "3.prems" by (auto intro: or_insert_sorted)
  have rd: "render_default body defs = render_default body []" using pb by blast
  have "map_of (resolve_defaults ns (resolve_defaults body ?defs)) i =
    (case map_of ?defs i of Some d \<Rightarrow> Some d | None \<Rightarrow> map_of (defining ns) i)"
    using "3.IH"(2)[OF flat] pb ks by simp
  also have "\<dots> = (case map_of defs i of Some d \<Rightarrow> Some d | None \<Rightarrow> map_of (defining (NStop j body ch # ns)) i)"
    using plain "3.prems"(2) unfolding rd
    by (auto simp: defining_def or_insert_lookup split: option.split)
  finally show ?case by simp
qed (simp_all add: defining_def flat_def split: option.split)

lemma shown_flat:
  assumes "flat ns" "consistent ns" "(i, body, ch) \<in> set (stops_of ns)"
  shows "shown (resolve_defaults ns []) (i, body, ch) =
    (case map_of (defining ns) i of Some d \<Rightarrow> d | None \<Rightarrow> [])"
proof -
  from assms(1,3) have "stops_of body = []" by (auto simp: flat_def)
  then have body: "render_default body defs = render_default body []" for defs using plain_body by blast
  have "map_of (resolve_defaults ns []) i = map_of (defining ns) i"
    using defaults_flat[OF assms(1), of "[]" i] by simp
  moreover have "map_of (defining ns) i = Some (if ch \<noteq> [] then hd ch else render_default body [])"
    if "ch \<noteq> [] \<or> body \<noteq> []"
  proof -
    have "(i, if ch \<noteq> [] then hd ch else render_default body []) \<in> set (defining ns)"
      using that assms(3) by (force simp: defining_def)
    with assms(2) show ?thesis unfolding consistent_def by blast
  qed
  ultimately show ?thesis
    using body by (auto simp: shown_def split: option.split)
qed

section \<open>Properties of the parser\<close>

text \<open>C37. A printed tree of nodes parses back to the tree, and the text to insert is what the tree renders.\<close>

theorem snippet_roundtrip:
  assumes "wf_nodes ns"
  shows "parse_nodes False [] (print_nodes ns) = Inr (ns, []) \<and>
    (\<exists>p. parse_snippet (print_nodes ns) = Inr p \<and> ps_text p = render_default ns (resolve_defaults ns []))"
  using parse_printed[OF assms, of "[]" "[]" False] by (simp add: parse_snippet_def push_lit_def layout_text Let_def)

theorem snippet_roundtrip_witness:
  "parse_nodes False [] (92 # us ''$${1:a}${2|b,c|}'') =
    Inr ([NText (us ''$''), NStop 1 [NText (us ''a'')] [], NStop 2 [] [us ''b'', us ''c'']], [])"
proof -
  let ?ns = "[NText (us ''$''), NStop 1 [NText (us ''a'')] [], NStop 2 [] [us ''b'', us ''c'']]"
  have printed: "print_nodes ?ns = 92 # us ''$${1:a}${2|b,c|}''" by (simp add: show_nat.simps)
  have "wf_nodes ?ns" by (simp add: U32_MAX_def)
  from snippet_roundtrip[OF this, unfolded printed] show ?thesis by blast
qed

text \<open>Whatever parses has its stops in tab order, each index once, and every span of a stop lies in
  the text on character boundaries, in order of its start.\<close>

theorem snippet_spans:
  assumes "parse_snippet src = Inr p"
  shows "sorted (map tab_order (ps_stops p)) \<and> distinct (map ts_index (ps_stops p)) \<and>
    (\<forall>s \<in> set (ps_stops p). ts_spans s \<noteq> [] \<and> sorted (map fst (ts_spans s)) \<and>
       (\<forall>r \<in> set (ts_spans s). (\<exists>w. covers (ps_text p) r w)))"
proof -
  obtain ns st where p: "ps_text p = l_text st" "ps_stops p = sort_key tab_order (collect_stops st)"
    and ok: "spans_right (resolve_defaults ns []) (set (stops_of ns)) st"
    using parsed_layout[OF assms] by metis
  have "distinct (map fst (l_spans st))"
    using ok keys_sorted_distinct unfolding spans_right_def by blast
  moreover have "map ts_index (collect_stops st) = map fst (l_spans st)"
    by (auto simp: collect_stops_def)
  ultimately have "distinct (map ts_index (collect_stops st))" by simp
  then have "distinct (map ts_index (ps_stops p))"
    unfolding p by (simp add: distinct_map)
  with p stop_span[OF ok] show ?thesis by fastforce
qed

theorem snippet_spans_witness:
  "\<exists>p. parse_snippet (us ''${1}'') = Inr p \<and> sorted (map tab_order (ps_stops p))"
proof -
  have printed: "print_nodes [NStop 1 [] []] = us ''${1}''" by (simp add: show_nat.simps)
  have "wf_nodes [NStop 1 [] []]" by (simp add: U32_MAX_def)
  from parse_printed[OF this, of "[]" "[]" False, unfolded printed]
  obtain p where "parse_snippet (us ''${1}'') = Inr p"
    by (auto simp: parse_snippet_def push_lit_def Let_def)
  with snippet_spans[OF this] show ?thesis by blast
qed

text \<open>C38. When the bodies of a snippet hold no stops and no index is given two different texts, every
  occurrence of an index shows the same text, its default, and every index that occurs has a tab stop with
  one span for each of its occurrences.\<close>

theorem mirrors_agree:
  assumes "parse_snippet src = Inr p" and "parse_nodes False [] src = Inr (ns, [])"
    and "flat ns" "consistent ns"
  shows "(\<forall>s \<in> set (ps_stops p). \<forall>r \<in> set (ts_spans s).
      covers (ps_text p) r (case map_of (defining ns) (ts_index s) of Some d \<Rightarrow> d | None \<Rightarrow> [])) \<and>
    (\<forall>i. occurrences i ns \<noteq> 0 \<longrightarrow>
      (\<exists>s \<in> set (ps_stops p). ts_index s = i \<and> length (ts_spans s) = occurrences i ns))"
proof (intro conjI ballI allI impI)
  fix s r assume s: "s \<in> set (ps_stops p)" and r: "r \<in> set (ts_spans s)"
  obtain st where p: "ps_text p = l_text st" "ps_stops p = sort_key tab_order (collect_stops st)"
    and ok: "spans_right (resolve_defaults ns []) (set (stops_of ns)) st"
    by (rule parsed_layout[OF assms(1)]) (use assms(2) in auto)
  from s p(2) have "s \<in> set (collect_stops st)" by simp
  from stop_span(3)[OF ok this r] obtain body ch where o: "(ts_index s, body, ch) \<in> set (stops_of ns)"
    "covers (l_text st) r (shown (resolve_defaults ns []) (ts_index s, body, ch))" by blast
  with shown_flat[OF assms(3,4) o(1)] p show
    "covers (ps_text p) r (case map_of (defining ns) (ts_index s) of Some d \<Rightarrow> d | None \<Rightarrow> [])" by simp
next
  fix i assume "occurrences i ns \<noteq> 0"
  with recorded_spans[OF _ refl this, of "\<lparr>l_text = [], l_spans = [], l_choices = []\<rparr>" "resolve_defaults ns []"]
  show "\<exists>s \<in> set (ps_stops p). ts_index s = i \<and> length (ts_spans s) = occurrences i ns"
    using assms(1,2) by (auto simp: parse_snippet_def Let_def)
qed

lemma printed_layout:
  assumes "wf_nodes ns" and "print_nodes ns = src"
  shows "parse_nodes False [] src = Inr (ns, [])"
    "parse_snippet src =
      (let st = layout (resolve_defaults ns []) ns \<lparr>l_text = [], l_spans = [], l_choices = []\<rparr>
       in Inr \<lparr>ps_text = l_text st, ps_stops = sort_key tab_order (collect_stops st)\<rparr>)"
  using parse_printed[OF assms(1), of "[]" "[]" False] assms(2)
  by (simp_all add: parse_snippet_def push_lit_def Let_def)

theorem mirrors_agree_witness:
  "\<exists>p. parse_snippet (us ''${1}-${1:ab}'') = Inr p \<and>
    (\<forall>s \<in> set (ps_stops p). \<forall>r \<in> set (ts_spans s).
       covers (ps_text p) r (if ts_index s = 1 then us ''ab'' else [])) \<and>
    (\<exists>s \<in> set (ps_stops p). ts_index s = 1 \<and> length (ts_spans s) = 2)"
proof -
  let ?ns = "[NStop 1 [] [], NText (us ''-''), NStop 1 [NText (us ''ab'')] []]"
  have "wf_nodes ?ns" "print_nodes ?ns = us ''${1}-${1:ab}''"
    by (simp_all add: U32_MAX_def show_nat.simps)
  note parsed = printed_layout[OF this]
  from parsed(2) obtain p where p: "parse_snippet (us ''${1}-${1:ab}'') = Inr p" by (simp add: Let_def)
  have "flat ?ns" "consistent ?ns" by (simp_all add: flat_def consistent_def defining_def)
  note agree = mirrors_agree[OF p parsed(1) this]
  have "\<forall>s \<in> set (ps_stops p). \<forall>r \<in> set (ts_spans s).
       covers (ps_text p) r (if ts_index s = 1 then us ''ab'' else [])"
    using conjunct1[OF agree] by (auto simp: defining_def)
  moreover have "occurrences 1 ?ns = 2" by (simp add: occurrences_def)
  then have "\<exists>s \<in> set (ps_stops p). ts_index s = 1 \<and> length (ts_spans s) = 2"
    using conjunct2[OF agree, rule_format, of 1] by simp
  ultimately show ?thesis using p by blast
qed

text \<open>With a stop inside a default that is defined only later, the mirrors of the outer index differ.\<close>

lemma mirrors_disagree:
  "parse_snippet (us ''${1:${2}} ${1} ${2:x}'') =
    Inr \<lparr>ps_text = us ''x  x'',
      ps_stops = [\<lparr>ts_index = 1, ts_spans = [(0, 1), (2, 2)], ts_choices = []\<rparr>,
        \<lparr>ts_index = 2, ts_spans = [(0, 1), (3, 4)], ts_choices = []\<rparr>]\<rparr>"
proof -
  let ?ns = "[NStop 1 [NStop 2 [] []] [], NText (us '' ''), NStop 1 [] [], NText (us '' ''), NStop 2 [NText (us ''x'')] []]"
  have "wf_nodes ?ns" "print_nodes ?ns = us ''${1:${2}} ${1} ${2:x}''"
    by (simp_all add: U32_MAX_def show_nat.simps)
  from printed_layout(2)[OF this] show ?thesis
    by (simp add: or_insert_def push_span_def collect_stops_def tab_order_def Let_def len_utf8_def)
qed

text \<open>A number that saturates ties with the final stop, which is then visited before it.\<close>

lemma saturated_index_after_final:
  "parse_snippet (us ''${4294967295}${0}'') =
    Inr \<lparr>ps_text = [], ps_stops = [\<lparr>ts_index = 0, ts_spans = [(0, 0)], ts_choices = []\<rparr>,
        \<lparr>ts_index = 4294967295, ts_spans = [(0, 0)], ts_choices = []\<rparr>]\<rparr>"
proof -
  have "wf_nodes [NStop 4294967295 [] [], NStop 0 [] []]"
    "print_nodes [NStop 4294967295 [] [], NStop 0 [] []] = us ''${4294967295}${0}''"
    by (simp_all add: U32_MAX_def show_nat.simps)
  from printed_layout(2)[OF this] show ?thesis
    by (simp add: push_span_def collect_stops_def tab_order_def Let_def U32_MAX_def)
qed

section \<open>Re-indentation\<close>

text \<open>The reference: an indent before every character that follows a line break.\<close>

fun indented :: "ustring \<Rightarrow> bool \<Rightarrow> ustring \<Rightarrow> ustring" where
  "indented ind nl [] = []"
| "indented ind nl (c # s) = (if nl then ind else []) @ c # indented ind (c = 10) s"

definition ends_line :: "bool \<Rightarrow> ustring \<Rightarrow> bool" where
  "ends_line nl s = (if s = [] then nl else last s = 10)"

lemma indented_append: "indented ind nl (s @ t) = indented ind nl s @ indented ind (ends_line nl s) t"
  by (induction s arbitrary: nl) (auto simp: ends_line_def)

text \<open>The new offset of a position: behind the text before it and, on a new line, behind the indent.\<close>

lemma reindent_walk_map:
  assumes "reindent_walk ind nl i out m s = (out', m')" and "i + byte_len s < length m"
  shows "out' = out @ indented ind nl s \<and> length m' = length m \<and> (\<forall>j<i. m' ! j = m ! j) \<and>
    (\<forall>p q. s = p @ q \<longrightarrow> m' ! (i + byte_len p) =
       byte_len (out @ indented ind nl p @ (if q \<noteq> [] \<and> ends_line nl p then ind else [])))"
  using assms
proof (induction ind nl i out m s arbitrary: out' m' rule: reindent_walk.induct)
  case (1 ind nl i out m)
  then show ?case by (auto simp: ends_line_def)
next
  case (2 ind nl i out m c s)
  let ?out1 = "if nl then out @ ind else out" and ?m1 = "m[i := byte_len (if nl then out @ ind else out)]"
  from "2.prems" have w: "reindent_walk ind (c = 10) (i + len_utf8 c) (?out1 @ [c]) ?m1 s = (out', m')"
    "i + len_utf8 c + byte_len s < length ?m1" by (simp_all add: Let_def)
  note IH = "2.IH"[OF refl w]
  have pos: "0 < len_utf8 c" by simp
  have at_i: "m' ! i = byte_len ?out1" using IH w(2) pos by (auto simp: nth_list_update)
  show ?case
  proof (intro conjI allI impI)
    show "out' = out @ indented ind nl (c # s)" "length m' = length m" using IH by auto
    fix j assume "j < i"
    with IH pos show "m' ! j = m ! j" by auto
  next
    fix p q assume s: "c # s = p @ q"
    show "m' ! (i + byte_len p) =
       byte_len (out @ indented ind nl p @ (if q \<noteq> [] \<and> ends_line nl p then ind else []))"
    proof (cases p)
      case Nil
      with s at_i show ?thesis by (auto simp: ends_line_def)
    next
      case (Cons d p')
      with s have "d = c" "s = p' @ q" by auto
      with IH have "m' ! (i + len_utf8 c + byte_len p') =
        byte_len ((?out1 @ [c]) @ indented ind (c = 10) p' @ (if q \<noteq> [] \<and> ends_line (c = 10) p' then ind else []))"
        by blast
      with Cons \<open>d = c\<close> show ?thesis by (auto simp: add.assoc ends_line_def)
    qed
  qed
qed

text \<open>Every line after the first prefixed: the indent goes behind each line break.\<close>

definition prefixed :: "ustring \<Rightarrow> ustring \<Rightarrow> ustring" where
  "prefixed ind t = concat (map (\<lambda>c. if c = 10 then 10 # ind else [c]) t)"

lemma prefixed_append [simp]: "prefixed ind (s @ t) = prefixed ind s @ prefixed ind t"
  by (simp add: prefixed_def)

lemma prefixed_same: "ind = [] \<or> 10 \<notin> set t \<Longrightarrow> prefixed ind t = t"
  by (induction t) (auto simp: prefixed_def)

lemma prefixed_indented: "prefixed ind t = indented ind False t @ (if ends_line False t then ind else [])"
proof (induction t rule: rev_induct)
  case (snoc c t)
  then show ?case by (simp add: indented_append ends_line_def prefixed_def)
qed (simp add: prefixed_def ends_line_def)

text \<open>C39. Re-indenting a snippet's text that does not end with a line break prefixes every line after the
  first with the indent, empty ones too, and moves every span along: the text before it, the text it
  covers and so its two ends are the prefixed ones, the start of a line counting as behind its indent. A
  text that does end with a line break is outside: its empty last line gets no prefix
  (\<open>last_line_not_indented\<close>), which the function's comment does not say.\<close>

theorem reindent_keeps_stops:
  assumes "reindent t stops ind = (t', spans)" and "t = [] \<or> last t \<noteq> 10"
  shows "t' = prefixed ind t \<and>
    list_all2 (\<lambda>s rs. list_all2 (\<lambda>r r'. \<forall>p w q. t = p @ w @ q \<and> r = (byte_len p, byte_len (p @ w)) \<longrightarrow>
        r' = (byte_len (prefixed ind p), byte_len (prefixed ind (p @ w))))
      (ts_spans s) rs) stops spans"
proof (cases "ind = [] \<or> 10 \<notin> set t")
  case True
  then have "t' = t" "spans = map ts_spans stops" using assms by (auto simp: reindent_def)
  moreover have "prefixed ind p = p" "prefixed ind w = w" if "t = p @ w @ q" for p w q
    using prefixed_same[of ind p] prefixed_same[of ind w] True that by auto
  ultimately show ?thesis
    using prefixed_same[OF True] by (auto simp: list_all2_map2 list_all2_same intro!: list.rel_refl_strong)
next
  case False
  obtain out m where walk: "reindent_walk ind False 0 [] (replicate (byte_len t + 1) 0) t = (out, m)"
    by (cases "reindent_walk ind False 0 [] (replicate (byte_len t + 1) 0) t")
  with False assms have t': "t' = out" "spans = map (\<lambda>s. map (\<lambda>(a, b). (m ! a, m ! b)) (ts_spans s)) stops"
    by (auto simp: reindent_def)
  from reindent_walk_map[OF walk] have out: "out = indented ind False t"
    and at: "\<And>p q. t = p @ q \<Longrightarrow> m ! byte_len p =
      byte_len (indented ind False p @ (if q \<noteq> [] \<and> ends_line False p then ind else []))"
    by auto
  have last: "\<not> ends_line False t" using assms(2) by (auto simp: ends_line_def)
  have moved: "m ! byte_len p = byte_len (prefixed ind p)" if "t = p @ q" for p q
    using at[OF that] last that by (cases "q = []") (simp_all add: prefixed_indented)
  have both: "m ! byte_len p = byte_len (prefixed ind p)"
    "m ! (byte_len p + byte_len w) = byte_len (prefixed ind (p @ w))" if "t = p @ w @ q" for p w q
    using moved[of p "w @ q"] moved[of "p @ w" q] that by simp_all
  have "out = prefixed ind t" using out last by (simp add: prefixed_indented)
  then show ?thesis
    unfolding t' using both
    by (auto simp: list_all2_map2 list_all2_same split_beta simp del: prefixed_append intro!: list.rel_refl_strong)
qed

text \<open>A stop at the start of the second of two lines, and one that covers it.\<close>

theorem reindent_keeps_stops_witness:
  "reindent (us ''f'' @ 10 # us ''x'') [\<lparr>ts_index = 1, ts_spans = [(2, 2), (2, 3)], ts_choices = []\<rparr>] (us ''  '') =
     (us ''f'' @ 10 # us ''  x'', [[(4, 4), (4, 5)]])"
proof -
  let ?t = "us ''f'' @ 10 # us ''x''"
  let ?stops = "[\<lparr>ts_index = 1, ts_spans = [(2, 2), (2, 3)], ts_choices = []\<rparr>]"
  obtain t' spans where r: "reindent ?t ?stops (us ''  '') = (t', spans)"
    by (cases "reindent ?t ?stops (us ''  '')")
  define moves where "moves = (\<lambda>r r'. \<forall>p w q. ?t = p @ w @ q \<and> r = (byte_len p, byte_len (p @ w)) \<longrightarrow>
      r' = (byte_len (prefixed (us ''  '') p), byte_len (prefixed (us ''  '') (p @ w))))"
  have t': "t' = prefixed (us ''  '') ?t" and "list_all2 (\<lambda>s rs. list_all2 moves (ts_spans s) rs) ?stops spans"
    using reindent_keeps_stops[OF r] unfolding moves_def by simp_all
  then obtain r1 r2 where spans: "spans = [[r1, r2]]" and at: "moves (2, 2) r1" "moves (2, 3) r2"
    by (auto simp: list_all2_Cons1)
  have "r1 = (4, 4)"
    using at(1)[unfolded moves_def, rule_format, of "us ''f'' @ [10]" "[]" "us ''x''"] by (simp add: len_utf8_def prefixed_def)
  moreover have "r2 = (4, 5)"
    using at(2)[unfolded moves_def, rule_format, of "us ''f'' @ [10]" "us ''x''" "[]"] by (simp add: len_utf8_def prefixed_def)
  moreover have "t' = us ''f'' @ 10 # us ''  x''" using t' by (simp add: prefixed_def)
  ultimately show ?thesis using r spans by simp
qed

text \<open>An empty last line keeps no indent.\<close>

lemma last_line_not_indented: "fst (reindent [120, 10] [] [32]) = [120, 10]"
  by (simp add: reindent_def len_utf8_def)

end
