(* ===== verification/Lsp_Sync.thy ===== *)
theory Lsp_Sync
  imports Fold_Cache
begin

text \<open>
  Document synchronization with language servers: the shadow of a server's copy
  (\<open>crates/bemtvi-lsp/src/shadow.rs\<close>), the conversions between byte offsets and LSP positions, the
  \<open>didChange\<close> of a drained edit journal and the application of a server's text edits
  (\<open>crates/bemtvi-server/src/lsp/mod.rs\<close>, \<open>sync.rs\<close>, \<open>edit.rs\<close>).  Texts are their UTF-8 bytes; the
  rope's line index is an argument.
\<close>

section \<open>Characters in bytes\<close>

definition is_cont :: "byte \<Rightarrow> bool" where
  "is_cont b \<longleftrightarrow> 0x80 \<le> b \<and> b < 0xC0"

definition is_char_boundary :: "byte list \<Rightarrow> nat \<Rightarrow> bool" where
  "is_char_boundary t p \<longleftrightarrow> p \<le> length t \<and> (p < length t \<longrightarrow> \<not> is_cont (t ! p))"

text \<open>\<open>char::len_utf16\<close> of the character that starts with a byte.\<close>

definition lead_utf16 :: "byte \<Rightarrow> nat" where
  "lead_utf16 b = (if is_cont b then 0 else if 0xF0 \<le> b then 2 else 1)"

definition utf16_len :: "byte list \<Rightarrow> nat" where
  "utf16_len bs = sum_list (map lead_utf16 bs)"

definition char_count :: "byte list \<Rightarrow> nat" where
  "char_count bs = length (filter (\<lambda>b. \<not> is_cont b) bs)"

datatype position_encoding = Utf8 | Utf16 | Utf32

definition units :: "position_encoding \<Rightarrow> byte list \<Rightarrow> nat" where
  "units enc bs = (case enc of Utf8 \<Rightarrow> length bs | Utf16 \<Rightarrow> utf16_len bs | Utf32 \<Rightarrow> char_count bs)"

record lsp_position =
  pline :: nat
  pchar :: nat

definition as_u32 :: "nat \<Rightarrow> nat" where
  "as_u32 n = n mod 2 ^ 32"

lemma as_u32_code [code]:
  "as_u32 n = (if n div 256 div 256 div 256 div 256 = 0 then n else n mod 2 ^ 32)"
  by (simp add: as_u32_def flip: div_mult2_eq)

section \<open>The shadow\<close>

definition shadow_position :: "rope_lines \<Rightarrow> byte list \<Rightarrow> nat \<Rightarrow> position_encoding \<Rightarrow> lsp_position" where
  "shadow_position rl t byte0 enc =
     (let byte = min byte0 (length t);
          line = byte_to_line_idx rl t byte;
          line_start = min (line_to_byte_idx rl t line) byte
      in \<lparr>pline = as_u32 line, pchar = as_u32 (units enc (take (byte - line_start) (drop line_start t)))\<rparr>)"

definition ends_with_newline :: "byte list \<Rightarrow> bool" where
  "ends_with_newline t \<longleftrightarrow> t \<noteq> [] \<and> last t = 10"

definition shadow_replace :: "nat \<Rightarrow> nat \<Rightarrow> byte list \<Rightarrow> byte list \<Rightarrow> byte list option" where
  "shadow_replace a b s t =
     (if b < a \<or> \<not> is_char_boundary t a \<or> \<not> is_char_boundary t b then None
      else Some (take a t @ s @ drop b t))"

section \<open>Changes of a batch\<close>

datatype content_change = Ranged lsp_position lsp_position "byte list" | WholeText "byte list"

text \<open>The shadow is mutated even when the deltas are given up.\<close>

fun incremental_changes_against ::
  "rope_lines \<Rightarrow> position_encoding \<Rightarrow> byte list \<Rightarrow> buffer_edit list \<Rightarrow> byte list \<times> content_change list option"
where
  "incremental_changes_against rl enc t [] = (t, Some [])"
| "incremental_changes_against rl enc t (e # es) =
     (let start = min (start_byte e) (length t); stop = max (min (old_end_byte e) (length t)) start
      in if \<not> is_char_boundary t start \<or> \<not> is_char_boundary t stop then (t, None)
         else (case shadow_replace start stop (edit_text e) t of
           None \<Rightarrow> (t, None)
         | Some t' \<Rightarrow>
             (case incremental_changes_against rl enc t' es of (t'', r) \<Rightarrow>
                (t'', map_option ((#) (Ranged (shadow_position rl t start enc) (shadow_position rl t stop enc)
                  (edit_text e))) r))))"

definition incremental_changes_bridging_eol ::
  "rope_lines \<Rightarrow> position_encoding \<Rightarrow> byte list \<Rightarrow> buffer_edit list \<Rightarrow> bool \<Rightarrow> bool \<Rightarrow>
     byte list \<times> content_change list option"
where
  "incremental_changes_bridging_eol rl enc t edits was_short is_short =
     (if edits = [] \<and> was_short = is_short then (t, Some [])
      else
        (let at_end = shadow_position rl t (length t) enc;
             opening = (if was_short then [Ranged at_end at_end [10]] else []);
             t1 = (if was_short then (case shadow_replace (length t) (length t) [10] t of Some u \<Rightarrow> u | None \<Rightarrow> t) else t)
         in case incremental_changes_against rl enc t1 edits of
              (t2, None) \<Rightarrow> (t2, None)
            | (t2, Some cs) \<Rightarrow>
                if is_short then
                  (if \<not> ends_with_newline t2 then (t2, None)
                   else (let len = length t2; cut = len - 1
                         in (case shadow_replace cut len [] t2 of Some u \<Rightarrow> u | None \<Rightarrow> t2,
                             Some (opening @ cs @
                               [Ranged (shadow_position rl t2 cut enc) (shadow_position rl t2 len enc) []]))))
                else (t2, Some (opening @ cs))))"

section \<open>Servers and their documents\<close>

datatype sync_kind = SyncNone | SyncFull | SyncIncremental

record server_runtime =
  rt_encoding :: position_encoding
  rt_sync_kind :: sync_kind

record server_doc =
  sd_opened :: bool
  sd_version :: int
  sd_last_tick :: nat
  sd_last_save_tick :: nat
  sd_shadow :: "byte list"
  sd_endofline :: bool

definition new_server_doc :: server_doc where
  "new_server_doc = \<lparr>sd_opened = False, sd_version = 0, sd_last_tick = 0, sd_last_save_tick = 0,
     sd_shadow = [], sd_endofline = False\<rparr>"

text \<open>The buffer as the sync sees it: its text and journals, \<open>'endofline'\<close> and the write counter.\<close>

record lsp_buf =
  lb_buf :: buf
  lb_endofline :: bool
  lb_save_tick :: nat

definition document_bytes :: "lsp_buf \<Rightarrow> byte list" where
  "document_bytes b = (if lb_endofline b then btext (lb_buf b) else butlast (btext (lb_buf b)))"

definition take_lsp_edits :: "lsp_buf \<Rightarrow> edit_batch \<times> lsp_buf" where
  "take_lsp_edits b = (case take_journal JLsp (lb_buf b) of (batch, bf) \<Rightarrow> (batch, b\<lparr>lb_buf := bf\<rparr>))"

datatype lsp_notify = DidOpen int "byte list" | DidChange int "content_change list" | DidSave | DidClose

definition did_change_content ::
  "rope_lines \<Rightarrow> lsp_buf \<Rightarrow> edit_batch \<Rightarrow> sync_kind \<Rightarrow> position_encoding \<Rightarrow> server_doc \<Rightarrow>
     server_doc \<times> content_change list"
where
  "did_change_content rl b batch kind enc doc =
     (let whole = (\<lambda>doc. (doc\<lparr>sd_shadow := document_bytes b, sd_endofline := lb_endofline b\<rparr>,
                           [WholeText (document_bytes b)]))
      in if \<not> batch_resync batch \<and> kind \<noteq> SyncFull then
           (case incremental_changes_bridging_eol rl enc (sd_shadow doc) (batch_edits batch)
                   (\<not> sd_endofline doc) (\<not> lb_endofline b) of
              (t, Some cs) \<Rightarrow> (doc\<lparr>sd_shadow := t, sd_endofline := lb_endofline b\<rparr>, cs)
            | (t, None) \<Rightarrow> whole (doc\<lparr>sd_shadow := t\<rparr>))
         else whole doc)"

text \<open>One attached server in a sync: the document, the journal drained at most once and shared.\<close>

definition sync_server ::
  "rope_lines \<Rightarrow> server_runtime \<Rightarrow> server_doc \<Rightarrow> lsp_buf \<times> edit_batch option \<Rightarrow>
     server_doc \<times> lsp_notify list \<times> (lsp_buf \<times> edit_batch option)"
where
  "sync_server rl rt doc st =
     (case st of (b, batch) \<Rightarrow>
        let tick = changedtick (lb_buf b);
            (doc1, ms, st1) =
              (if \<not> sd_opened doc then
                 (doc\<lparr>sd_shadow := document_bytes b, sd_endofline := lb_endofline b, sd_version := 1,
                      sd_opened := True, sd_last_tick := tick, sd_last_save_tick := lb_save_tick b\<rparr>,
                  [DidOpen 1 (document_bytes b)], (b, batch))
               else if (tick \<noteq> sd_last_tick doc \<or> sd_endofline doc \<noteq> lb_endofline b) \<and>
                   rt_sync_kind rt \<noteq> SyncNone then
                 (let (bt, b1) = (case batch of Some bt \<Rightarrow> (bt, b) | None \<Rightarrow> take_lsp_edits b);
                      doc' = doc\<lparr>sd_version := sd_version doc + 1\<rparr>;
                      (doc'', cs) = did_change_content rl b1 bt (rt_sync_kind rt) (rt_encoding rt) doc'
                  in (doc''\<lparr>sd_last_tick := tick\<rparr>, [DidChange (sd_version doc') cs], (b1, Some bt)))
               else (doc, [], (b, batch)))
        in if sd_opened doc1 \<and> lb_save_tick b \<noteq> sd_last_save_tick doc1
           then (doc1\<lparr>sd_last_save_tick := lb_save_tick b\<rparr>, ms @ [DidSave], st1)
           else (doc1, ms, st1))"

fun sync_servers ::
  "rope_lines \<Rightarrow> ('k \<Rightarrow> server_runtime option) \<Rightarrow> ('k \<times> server_doc) list \<Rightarrow> lsp_buf \<times> edit_batch option \<Rightarrow>
     ('k \<times> server_doc) list \<times> ('k \<times> lsp_notify) list \<times> (lsp_buf \<times> edit_batch option)"
where
  "sync_servers rl servers [] st = ([], [], st)"
| "sync_servers rl servers ((k, doc) # docs) st =
     (case servers k of
        None \<Rightarrow> (case sync_servers rl servers docs st of (ds, ms, st') \<Rightarrow> ((k, doc) # ds, ms, st'))
      | Some rt \<Rightarrow>
          (case sync_server rl rt doc st of (doc', ns, st1) \<Rightarrow>
             (case sync_servers rl servers docs st1 of (ds, ms, st') \<Rightarrow>
                ((k, doc') # ds, map (Pair k) ns @ ms, st'))))"

definition sync_lsp ::
  "rope_lines \<Rightarrow> ('k \<Rightarrow> server_runtime option) \<Rightarrow> bool \<Rightarrow> lsp_buf \<Rightarrow> ('k \<times> server_doc) list \<Rightarrow>
     lsp_buf \<times> ('k \<times> server_doc) list \<times> ('k \<times> lsp_notify) list"
where
  "sync_lsp rl servers has_uri b docs =
     (if docs = [] then (snd (take_lsp_edits b), [], [])
      else if \<not> has_uri then (b, docs, [])
      else (case sync_servers rl servers docs (b, None) of
        (docs', ms, (b', batch)) \<Rightarrow>
          ((if batch = None then snd (take_lsp_edits b') else b'), docs', ms)))"

text \<open>The flush of a buffer that is not current.\<close>

definition wants_deltas :: "('k \<Rightarrow> server_runtime option) \<Rightarrow> 'k \<times> server_doc \<Rightarrow> bool" where
  "wants_deltas servers kd =
     (sd_opened (snd kd) \<and>
      (case servers (fst kd) of None \<Rightarrow> False | Some rt \<Rightarrow> rt_sync_kind rt \<noteq> SyncNone))"

fun flush_servers ::
  "rope_lines \<Rightarrow> ('k \<Rightarrow> server_runtime option) \<Rightarrow> lsp_buf \<Rightarrow> edit_batch \<Rightarrow> ('k \<times> server_doc) list \<Rightarrow>
     ('k \<times> server_doc) list \<times> ('k \<times> lsp_notify) list"
where
  "flush_servers rl servers b batch [] = ([], [])"
| "flush_servers rl servers b batch ((k, doc) # docs) =
     (case flush_servers rl servers b batch docs of (ds, ms) \<Rightarrow>
        if wants_deltas servers (k, doc) then
          (case servers k of
             None \<Rightarrow> ((k, doc) # ds, ms)
           | Some rt \<Rightarrow>
               (case did_change_content rl b batch (rt_sync_kind rt) (rt_encoding rt) doc of (doc', cs) \<Rightarrow>
                  let doc'' = doc'\<lparr>sd_version := sd_version doc' + 1, sd_last_tick := changedtick (lb_buf b)\<rparr>
                  in ((k, doc'') # ds, (k, DidChange (sd_version doc'') cs) # ms)))
        else ((k, doc) # ds, ms))"

definition sync_lsp_buffer ::
  "rope_lines \<Rightarrow> ('k \<Rightarrow> server_runtime option) \<Rightarrow> bool \<Rightarrow> lsp_buf \<Rightarrow> ('k \<times> server_doc) list \<Rightarrow>
     lsp_buf \<times> ('k \<times> server_doc) list \<times> ('k \<times> lsp_notify) list"
where
  "sync_lsp_buffer rl servers has_uri b docs =
     (if \<not> has_uri then (b, docs, [])
      else if filter (wants_deltas servers) docs = [] then (snd (take_lsp_edits b), docs, [])
      else (case take_lsp_edits b of (batch, b') \<Rightarrow>
        if batch_edits batch = [] \<and> \<not> batch_resync batch then (b', docs, [])
        else (case flush_servers rl servers b' batch docs of (ds, ms) \<Rightarrow> (b', ds, ms))))"

section \<open>Attaching, starting and ending\<close>

definition attach :: "'k::linorder \<Rightarrow> ('k \<times> server_doc) list \<Rightarrow> ('k \<times> server_doc) list" where
  "attach k docs = (if k \<in> fst ` set docs then docs else insort_key fst (k, new_server_doc) docs)"

definition detach :: "'k \<Rightarrow> ('k \<times> server_doc) list \<Rightarrow> ('k \<times> server_doc) list" where
  "detach k docs = filter (\<lambda>kd. fst kd \<noteq> k) docs"

definition closed_doc :: "server_doc \<Rightarrow> server_doc" where
  "closed_doc doc = doc\<lparr>sd_opened := False, sd_version := 0\<rparr>"

definition close_docs :: "('k \<times> server_doc \<Rightarrow> bool) \<Rightarrow> ('k \<times> server_doc) list \<Rightarrow> ('k \<times> server_doc) list" where
  "close_docs P docs = map (\<lambda>kd. if P kd then (fst kd, closed_doc (snd kd)) else kd) docs"

text \<open>\<open>LspEvent::Initialized\<close>.\<close>

definition server_initialized ::
  "'k \<Rightarrow> server_runtime \<Rightarrow> ('k \<Rightarrow> server_runtime option) \<times> ('k \<times> server_doc) list \<Rightarrow>
     ('k \<Rightarrow> server_runtime option) \<times> ('k \<times> server_doc) list"
where
  "server_initialized k rt sd = ((fst sd)(k \<mapsto> rt), close_docs (\<lambda>kd. fst kd = k) (snd sd))"

definition retire_lsp_server ::
  "'k \<Rightarrow> bool \<Rightarrow> ('k \<Rightarrow> server_runtime option) \<times> ('k \<times> server_doc) list \<Rightarrow>
     ('k \<Rightarrow> server_runtime option) \<times> ('k \<times> server_doc) list"
where
  "retire_lsp_server k drop_docs sd =
     (if fst sd k = None then sd
      else (let docs = close_docs (\<lambda>kd. fst kd = k \<and> sd_opened (snd kd)) (snd sd)
            in ((fst sd)(k := None), if drop_docs then detach k docs else docs)))"

definition resync_lsp_after_reconnect ::
  "('k \<Rightarrow> server_runtime option) \<times> ('k \<times> server_doc) list \<Rightarrow>
     ('k \<Rightarrow> server_runtime option) \<times> ('k \<times> server_doc) list"
where
  "resync_lsp_after_reconnect sd = (\<lambda>_. None, close_docs (\<lambda>_. True) (snd sd))"

text \<open>A file move: the recorded URI is taken, every document starts afresh.\<close>

definition reopen_lsp_document ::
  "bool \<Rightarrow> ('k \<times> server_doc) list \<Rightarrow> bool \<times> ('k \<times> server_doc) list \<times> ('k \<times> lsp_notify) list"
where
  "reopen_lsp_document has_uri docs =
     (if \<not> has_uri then (False, docs, [])
      else (False, map (\<lambda>kd. (fst kd, new_server_doc)) docs,
            map (\<lambda>kd. (fst kd, DidClose)) (filter (\<lambda>kd. sd_opened (snd kd)) docs)))"

end
