(* ===== verification/Lsp_Edit.thy ===== *)
theory Lsp_Edit
  imports Lsp_Sync "HOL-Library.Product_Lexorder"
begin

text \<open>
  Text edits of a language server applied to a buffer: positions resolved against the document
  (\<open>crates/bemtvi-server/src/lsp/mod.rs\<close>, \<open>semantic.rs\<close>), the edit that owns the document's tail, the
  batch applied from its end with the cursor carried along (\<open>editor/buffers.rs\<close> of the core) and
  \<open>'endofline'\<close> as the edits leave it (\<open>lsp/edit.rs\<close>).
\<close>

section \<open>Columns\<close>

definition line_bytes :: "rope_lines \<Rightarrow> byte list \<Rightarrow> nat \<Rightarrow> byte list" where
  "line_bytes rl t i = (if line_count rl t \<le> i then [] else strip_eol (rope_line rl t i))"

definition floor_char_boundary :: "byte list \<Rightarrow> nat \<Rightarrow> nat" where
  "floor_char_boundary t p = (case filter (is_char_boundary t) (rev [0..<Suc p]) of [] \<Rightarrow> 0 | q # _ \<Rightarrow> q)"

fun utf16_walk :: "nat \<Rightarrow> nat \<Rightarrow> nat \<Rightarrow> byte list \<Rightarrow> nat" where
  "utf16_walk target acc i [] = i"
| "utf16_walk target acc i (x # xs) =
     (if \<not> is_cont x \<and> target \<le> acc then i else utf16_walk target (acc + lead_utf16 x) (i + 1) xs)"

definition utf16_to_byte :: "byte list \<Rightarrow> nat \<Rightarrow> nat" where
  "utf16_to_byte line u16_units = utf16_walk u16_units 0 0 line"

definition char_indices :: "byte list \<Rightarrow> nat list" where
  "char_indices line = filter (is_char_boundary line) [0..<length line]"

definition byte_col :: "position_encoding \<Rightarrow> byte list \<Rightarrow> nat \<Rightarrow> nat" where
  "byte_col enc line c =
     (case enc of
        Utf8 \<Rightarrow> floor_char_boundary line (min c (length line))
      | Utf16 \<Rightarrow> utf16_to_byte line c
      | Utf32 \<Rightarrow> (if c < length (char_indices line) then char_indices line ! c else length line))"

fun col_bounds :: "nat \<Rightarrow> nat \<Rightarrow> nat \<Rightarrow> byte list \<Rightarrow> (nat \<times> nat \<times> nat) list" where
  "col_bounds u c b [] = [(u, c, b)]"
| "col_bounds u c b (x # xs) =
     (if is_cont x then col_bounds u c (b + 1) xs
      else (u, c, b) # col_bounds (u + lead_utf16 x) (c + 1) (b + 1) xs)"

definition col_partition_point :: "('a \<Rightarrow> bool) \<Rightarrow> 'a list \<Rightarrow> nat" where
  "col_partition_point P xs = length (takeWhile P xs)"

definition line_cols_byte :: "position_encoding \<Rightarrow> byte list \<Rightarrow> nat \<Rightarrow> nat" where
  "line_cols_byte enc line c =
     (if list_all (\<lambda>x. x < 0x80) line then min c (length line)
      else if enc = Utf8 then byte_col enc line c
      else let bounds = col_bounds 0 0 0 line;
               idx = col_partition_point (\<lambda>b. (if enc = Utf16 then fst b else fst (snd b)) < c) bounds
           in if idx < length bounds then snd (snd (bounds ! idx)) else length line)"

section \<open>Positions\<close>

definition lsp_document_len :: "lsp_buf \<Rightarrow> nat" where
  "lsp_document_len b = length (btext (lb_buf b)) - (if lb_endofline b then 0 else 1)"

definition resolve_pos :: "rope_lines \<Rightarrow> lsp_buf \<Rightarrow> position_encoding \<Rightarrow> lsp_position \<Rightarrow> nat" where
  "resolve_pos rl b enc p =
     (let t = btext (lb_buf b); last_row = line_count rl t - (if lb_endofline b then 0 else 1)
      in if last_row < pline p then lsp_document_len b
         else line_to_byte_idx rl t (pline p) + line_cols_byte enc (line_bytes rl t (pline p)) (pchar p))"

definition lsp_range_to_bytes_in ::
  "rope_lines \<Rightarrow> lsp_buf \<Rightarrow> position_encoding \<Rightarrow> lsp_position \<times> lsp_position \<Rightarrow> nat \<times> nat"
where
  "lsp_range_to_bytes_in rl b enc r =
     (let start = resolve_pos rl b enc (fst r); stop = resolve_pos rl b enc (snd r)
      in (start, max stop start))"

section \<open>The edits of a batch\<close>

type_synonym byte_edit = "(nat \<times> nat) \<times> byte list"

definition lsp_edits_to_byte_edits ::
  "rope_lines \<Rightarrow> lsp_buf \<Rightarrow> position_encoding \<Rightarrow> ((lsp_position \<times> lsp_position) \<times> byte list) list \<Rightarrow>
     byte_edit list \<times> bool option"
where
  "lsp_edits_to_byte_edits rl b enc edits =
     (let out = map (\<lambda>(r, u). (lsp_range_to_bytes_in rl b enc r, u)) edits;
          doc_len = lsp_document_len b; t = btext (lb_buf b);
          tail = max_by_key (\<lambda>(i, r, u). (snd r, fst r, i))
                   (filter (\<lambda>(i, r, u). doc_len \<le> snd r) (enumerate 0 out))
      in case tail of
           None \<Rightarrow> (out, None)
         | Some (i, r, u) \<Rightarrow>
             let ends_with_newline = (if u = [] then 0 < fst r \<and> t ! (fst r - 1) = 10 else last u = 10)
             in (out[i := ((fst r, length t), u)], Some ends_with_newline))"

definition apply_order :: "byte_edit list \<Rightarrow> byte_edit list" where
  "apply_order es = map snd (rev (sort_key (\<lambda>(i, e). (fst (fst e), i)) (enumerate 0 es)))"

definition apply_byte_edit :: "rope_lines \<Rightarrow> byte_edit \<Rightarrow> buf \<Rightarrow> buf" where
  "apply_byte_edit rl e bf =
     (let len = length (btext bf);
          start = floor_char_boundary (btext bf) (min (fst (fst e)) len);
          stop = floor_char_boundary (btext bf) (min (snd (fst e)) len);
          bf1 = (if start < stop then buf_remove rl start stop bf else bf)
      in if snd e = [] then bf1 else buf_insert rl start (snd e) bf1)"

definition apply_edits_to :: "rope_lines \<Rightarrow> byte_edit list \<Rightarrow> buf \<Rightarrow> buf" where
  "apply_edits_to rl es bf =
     (if es = [] then bf
      else normalize rl (foldl (\<lambda>bf e. apply_byte_edit rl e bf) bf (apply_order es)))"

text \<open>The cursor of the current buffer: each edit's start and end, the lines of its text and the length of
  the last one, replayed in the order of application.\<close>

record cursor_step =
  s_row :: nat
  s_col :: nat
  e_row :: nat
  e_col :: nat
  new_lines :: nat
  last_len :: nat

definition cursor_step_of :: "rope_lines \<Rightarrow> byte list \<Rightarrow> byte_edit \<Rightarrow> cursor_step" where
  "cursor_step_of rl t e =
     (let start = floor_char_boundary t (min (fst (fst e)) (length t));
          stop = floor_char_boundary t (min (snd (fst e)) (length t));
          start_row = byte_to_line_idx rl t start; end_row = byte_to_line_idx rl t stop
      in \<lparr>s_row = start_row, s_col = start - line_to_byte_idx rl t start_row,
          e_row = end_row, e_col = stop - line_to_byte_idx rl t end_row,
          new_lines = length (filter (\<lambda>x. x = 10) (snd e)) + 1,
          last_len = length (takeWhile (\<lambda>x. x \<noteq> 10) (rev (snd e)))\<rparr>)"

definition cursor_plan :: "rope_lines \<Rightarrow> byte list \<Rightarrow> byte_edit list \<Rightarrow> cursor_step list" where
  "cursor_plan rl t es = map (cursor_step_of rl t) (apply_order es)"

definition replay_cursor :: "nat \<times> nat \<Rightarrow> cursor_step \<Rightarrow> nat \<times> nat" where
  "replay_cursor pos s =
     (let row = fst pos; col = snd pos; row_delta = int (new_lines s) - (int (e_row s) - int (s_row s) + 1)
      in if e_row s < row then (nat (int row + row_delta), col)
         else if e_row s = row \<and> e_col s \<le> col then
           (nat (int row + row_delta), last_len s + (col - e_col s) + (if new_lines s = 1 then s_col s else 0))
         else pos)"

definition line_len :: "rope_lines \<Rightarrow> byte list \<Rightarrow> nat \<Rightarrow> nat" where
  "line_len rl t i = (if line_count rl t \<le> i then 0 else length (strip_eol (rope_line rl t i)))"

definition edits_cursor :: "rope_lines \<Rightarrow> byte list \<Rightarrow> byte_edit list \<Rightarrow> byte list \<Rightarrow> nat \<times> nat \<Rightarrow> nat" where
  "edits_cursor rl t es t' pos =
     (case foldl replay_cursor pos (cursor_plan rl t es) of (row, col) \<Rightarrow>
        let row = min row (line_count rl t' - 1); col = min col (line_len rl t' row)
        in line_to_byte_idx rl t' row + col)"

definition apply_lsp_edits ::
  "rope_lines \<Rightarrow> position_encoding \<Rightarrow> ((lsp_position \<times> lsp_position) \<times> byte list) list \<Rightarrow> lsp_buf \<Rightarrow> lsp_buf"
where
  "apply_lsp_edits rl enc edits b =
     (if edits = [] then b
      else (case lsp_edits_to_byte_edits rl b enc edits of (es, eol) \<Rightarrow>
        let b' = b\<lparr>lb_buf := apply_edits_to rl es (lb_buf b)\<rparr>
        in case eol of None \<Rightarrow> b' | Some e \<Rightarrow> b'\<lparr>lb_endofline := e\<rparr>))"

end
