(* ===== verification/Lsp_SyncProps.thy ===== *)
theory Lsp_SyncProps
  imports Lsp_Sync Buffer_EditProps
begin

text \<open>
  The language server's copy of a document: a server that applies what it is sent by the rules of the
  protocol holds the buffer's document after every sync, for every number of servers, encoding and
  sync kind.
\<close>

section \<open>A server by the protocol\<close>

text \<open>Lines end at \<open>\n\<close>, \<open>\r\n\<close> or \<open>\r\<close>; a character past the line's text is its end, a line past the
  last one the end of the document.  A character counts in the units of the negotiated encoding.\<close>

definition spec_line :: "byte list \<Rightarrow> nat \<Rightarrow> byte list" where
  "spec_line t start = takeWhile (\<lambda>b. b \<noteq> 10 \<and> b \<noteq> 13) (drop start t)"

definition spec_column :: "position_encoding \<Rightarrow> byte list \<Rightarrow> nat \<Rightarrow> nat" where
  "spec_column enc line c =
     (case filter (\<lambda>q. is_char_boundary line q \<and> c \<le> units enc (take q line)) [0..<Suc (length line)] of
        [] \<Rightarrow> length line | q # _ \<Rightarrow> q)"

definition spec_offset :: "position_encoding \<Rightarrow> byte list \<Rightarrow> lsp_position \<Rightarrow> nat" where
  "spec_offset enc t p =
     (if length (breaks t (length t)) < pline p then length t
      else let start = (0 # breaks t (length t)) ! pline p
        in start + spec_column enc (spec_line t start) (pchar p))"

fun spec_apply :: "position_encoding \<Rightarrow> byte list \<Rightarrow> content_change \<Rightarrow> byte list" where
  "spec_apply enc t (Ranged a b s) = take (spec_offset enc t a) t @ s @ drop (spec_offset enc t b) t"
| "spec_apply enc t (WholeText s) = s"

fun receive :: "position_encoding \<Rightarrow> byte list option \<Rightarrow> lsp_notify \<Rightarrow> byte list option" where
  "receive enc held (DidOpen v t) = Some t"
| "receive enc held (DidChange v cs) = map_option (\<lambda>t. foldl (spec_apply enc) t cs) held"
| "receive enc held DidSave = held"
| "receive enc held DidClose = None"

section \<open>Positions resolve to where they came from\<close>

text \<open>Texts whose positions fit the protocol's 32 bits, and the offsets that do not split a \<open>\r\n\<close>.\<close>

definition addressable :: "byte list \<Rightarrow> bool" where
  "addressable t \<longleftrightarrow> length t < 2 ^ 31"

definition places :: "byte list \<Rightarrow> nat \<Rightarrow> bool" where
  "places t p \<longleftrightarrow> is_char_boundary t p \<and> \<not> crlf_at t p p"

lemma units_append: "units enc (xs @ ys) = units enc xs + units enc ys"
  by (cases enc) (simp_all add: units_def utf16_len_def char_count_def)

lemma units_le: "units enc bs \<le> 2 * length bs"
proof -
  have "utf16_len bs \<le> 2 * length bs"
    by (induction bs) (auto simp: utf16_len_def lead_utf16_def)
  moreover have "char_count bs \<le> length bs" by (simp add: char_count_def)
  ultimately show ?thesis by (cases enc) (simp_all add: units_def)
qed

lemma units_take_less:
  assumes "p < q" "q \<le> length bs" "is_char_boundary bs p"
  shows "units enc (take p bs) < units enc (take q bs)"
proof -
  have b: "\<not> is_cont (bs ! p)" "p < length bs" using assms by (auto simp: is_char_boundary_def)
  obtain n where q: "q = Suc p + n" using assms(1) by (metis Suc_leI le_Suc_ex)
  have "take q bs = take p bs @ [bs ! p] @ take n (drop (Suc p) bs)"
    using b(2) by (simp add: q take_add take_Suc_conv_app_nth del: add_Suc)
  moreover have "0 < units enc [bs ! p]"
    using b(1) by (cases enc) (simp_all add: units_def utf16_len_def char_count_def lead_utf16_def)
  ultimately show ?thesis by (simp add: units_append del: append_Cons)
qed

lemma spec_column_units:
  assumes "is_char_boundary line q" "q \<le> length line"
  shows "spec_column enc line (units enc (take q line)) = q"
proof -
  let ?P = "\<lambda>x. is_char_boundary line x \<and> units enc (take q line) \<le> units enc (take x line)"
  have "filter ?P [0..<q] = []"
    using units_take_less[of _ q line enc] assms(2) by (auto simp: filter_empty_conv not_le)
  moreover have "[0..<Suc (length line)] = [0..<q] @ q # [Suc q..<Suc (length line)]"
    using assms(2) upt_add_eq_append[of 0 q "Suc (length line) - q"]
    by (simp add: upt_conv_Cons del: upt_Suc)
  ultimately show ?thesis using assms(1) unfolding spec_column_def by (simp del: upt_Suc)
qed

lemma breaks_few: "length (breaks t p) \<le> p"
  by (induction p) auto

lemma last_break: "x \<in> set (breaks t p) \<Longrightarrow> x \<le> last (breaks t p)"
proof (induction p)
  case (Suc p)
  then show ?case using breaks_le[of x t p] by (cases "is_break t (Suc p)") auto
qed simp

lemma no_break_between:
  assumes "last (0 # breaks t p) \<le> i" "i < p" "p \<le> length t" "\<not> crlf_at t p p"
  shows "t ! i \<noteq> 10 \<and> t ! i \<noteq> 13"
proof -
  have no: "\<not> is_break t (Suc x)" if "i \<le> x" "x < p" for x
  proof
    assume "is_break t (Suc x)"
    with that(2) have m: "Suc x \<in> set (breaks t p)" by (simp add: breaks_def del: upt_Suc)
    from last_break[OF this] have "Suc x \<le> last (breaks t p)" .
    with assms(1) that(1) m show False by (auto split: if_splits)
  qed
  have "t ! i \<noteq> 10" using no[of i] assms(2,3) by (auto simp: is_break_def)
  moreover have "t ! i \<noteq> 13"
  proof
    assume cr: "t ! i = 13"
    then have lf: "Suc i < length t" "t ! Suc i = 10" using no[of i] assms(2,3) by (auto simp: is_break_def)
    show False
    proof (cases "Suc i = p")
      case True
      then show False using assms(4) cr lf by (auto simp: crlf_at_def)
    next
      case False
      then show False using no[of "Suc i"] lf assms(2,3) by (auto simp: is_break_def)
    qed
  qed
  ultimately show ?thesis ..
qed

lemma take_while_prefix:
  "k \<le> length xs \<Longrightarrow> \<forall>i<k. P (xs ! i) \<Longrightarrow> take k (takeWhile P xs) = take k xs \<and> k \<le> length (takeWhile P xs)"
proof (induction xs arbitrary: k)
  case (Cons x xs)
  show ?case
  proof (cases k)
    case (Suc k')
    with Cons.prems have "P x" "\<forall>i<k'. P (xs ! i)" by (force, auto)
    with Suc Cons.IH[of k'] Cons.prems(1) show ?thesis by simp
  qed simp
qed simp

lemma position_resolves:
  assumes rl: "lf_cr_index rl" and t: "addressable t" and at: "places t p"
  shows "spec_offset enc t (shadow_position rl t p enc) = p"
proof -
  have b: "is_char_boundary t p" and cr: "\<not> crlf_at t p p" using at by (auto simp: places_def)
  then have p: "p \<le> length t" by (simp add: is_char_boundary_def)
  define bs where "bs = breaks t p"
  define ls where "ls = last (0 # bs)"
  let ?line = "spec_line t ls" and ?u = "units enc (take (p - ls) (drop ls t))"
  have ls: "ls \<le> p" using last_breaks_le by (simp add: ls_def bs_def del: last.simps)
  obtain r where all: "breaks t (length t) = bs @ r" using breaks_mono[OF p, of t] bs_def by blast
  have idx: "byte_to_line_idx rl t p = length bs" "line_to_byte_idx rl t (length bs) = ls"
    using rl p unfolding lf_cr_index_def bs_def ls_def by blast+
  have inside: "t ! i \<noteq> 10 \<and> t ! i \<noteq> 13" if "ls \<le> i" "i < p" for i
    using no_break_between[OF _ that(2) p cr] that(1) unfolding ls_def bs_def by blast
  have "take (p - ls) ?line = take (p - ls) (drop ls t) \<and> p - ls \<le> length ?line"
    unfolding spec_line_def by (rule take_while_prefix) (use p ls inside in auto)
  then have line: "take (p - ls) ?line = take (p - ls) (drop ls t)" "p - ls \<le> length ?line" by simp_all
  have "length ?line \<le> length t - ls"
    unfolding spec_line_def using length_takeWhile_le[of _ "drop ls t"] by simp
  moreover have "?line ! (p - ls) = t ! p" if "p - ls < length ?line"
    using takeWhile_nth[OF that[unfolded spec_line_def]] ls p by (simp add: spec_line_def)
  ultimately have "is_char_boundary ?line (p - ls)" using b line(2) ls by (auto simp: is_char_boundary_def)
  from spec_column_units[OF this line(2), of enc] line(1)
  have col: "spec_column enc ?line ?u = p - ls" by simp
  have "?u \<le> 2 * (p - ls)" using units_le[of enc "take (p - ls) (drop ls t)"] p by simp
  then have u32: "as_u32 ?u = ?u" "as_u32 (length bs) = length bs"
    using t p breaks_few[of t p] by (simp_all add: as_u32_def bs_def addressable_def)
  have "(0 # bs @ r) ! length bs = ls"
    unfolding ls_def by (cases bs rule: rev_cases) (simp_all add: nth_append)
  then show ?thesis
    using p ls col idx u32
    by (simp add: shadow_position_def spec_offset_def Let_def all min_absorb1)
qed


section \<open>Edits that fit\<close>

definition splice :: "byte list \<Rightarrow> buffer_edit \<Rightarrow> byte list" where
  "splice t e = take (start_byte e) t @ edit_text e @ drop (old_end_byte e) t"

definition fits :: "byte list \<Rightarrow> buffer_edit \<Rightarrow> bool" where
  "fits t e \<longleftrightarrow> start_byte e \<le> old_end_byte e \<and> places t (start_byte e) \<and> places t (old_end_byte e)"

text \<open>The edits lead from one text to another through addressable texts, each edit at places.\<close>

fun leads :: "byte list \<Rightarrow> buffer_edit list \<Rightarrow> byte list \<Rightarrow> bool" where
  "leads t [] t' \<longleftrightarrow> t = t' \<and> addressable t"
| "leads t (e # es) t' \<longleftrightarrow> addressable t \<and> fits t e \<and> leads (splice t e) es t'"

lemma leads_addressable: "leads t es t' \<Longrightarrow> addressable t \<and> addressable t'"
  by (induction es arbitrary: t) auto

lemma leads_snoc: "leads t es u \<Longrightarrow> fits u e \<Longrightarrow> addressable (splice u e) \<Longrightarrow> leads t (es @ [e]) (splice u e)"
  by (induction es arbitrary: t) auto

lemma incremental_leads:
  assumes rl: "lf_cr_index rl" and "leads t es t'"
  shows "\<exists>cs. incremental_changes_against rl enc t es = (t', Some cs) \<and> foldl (spec_apply enc) t cs = t'"
  using assms(2)
proof (induction es arbitrary: t)
  case (Cons e es)
  then have t: "addressable t" and f: "fits t e" and l: "leads (splice t e) es t'" by auto
  from Cons.IH[OF l] obtain cs where
    cs: "incremental_changes_against rl enc (splice t e) es = (t', Some cs)" "foldl (spec_apply enc) (splice t e) cs = t'"
    by blast
  let ?p = "\<lambda>x. shadow_position rl t x enc"
  from f have le: "start_byte e \<le> length t" "old_end_byte e \<le> length t" "start_byte e \<le> old_end_byte e"
    and bd: "is_char_boundary t (start_byte e)" "is_char_boundary t (old_end_byte e)"
    by (auto simp: fits_def places_def is_char_boundary_def)
  have "incremental_changes_against rl enc t (e # es) =
      (t', Some (Ranged (?p (start_byte e)) (?p (old_end_byte e)) (edit_text e) # cs))"
    using bd le cs(1) by (simp add: shadow_replace_def splice_def Let_def)
  moreover have "spec_apply enc t (Ranged (?p (start_byte e)) (?p (old_end_byte e)) (edit_text e)) = splice t e"
    using f position_resolves[OF rl t] by (simp add: fits_def splice_def)
  ultimately show ?case using cs(2) by auto
qed simp

text \<open>What the editor's text is when the server's copy is its document under a given \<open>'endofline'\<close>.\<close>

definition phantom :: "bool \<Rightarrow> byte list \<Rightarrow> byte list" where
  "phantom eol t = (if eol then t else t @ [10])"

lemma is_char_boundary_length [simp]: "is_char_boundary t (length t)"
  by (simp add: is_char_boundary_def)

lemma places_length [simp]: "places t (length t)"
  by (simp add: places_def crlf_at_def)

lemma bridging_leads:
  assumes rl: "lf_cr_index rl" and l: "leads (phantom eol sh) es t'" and nl: "ends_with_newline t'"
    and cr: "eol' \<or> \<not> crlf_at t' (length t' - 1) (length t' - 1)"
  shows "\<exists>cs. incremental_changes_bridging_eol rl enc sh es (\<not> eol) (\<not> eol') =
      (if eol' then t' else butlast t', Some cs) \<and>
    foldl (spec_apply enc) sh cs = (if eol' then t' else butlast t')"
proof (cases "es = [] \<and> eol = eol'")
  case True
  then show ?thesis using l
    by (auto simp: incremental_changes_bridging_eol_def phantom_def split: if_splits)
next
  case False
  have t': "addressable t'" and t1: "addressable (phantom eol sh)" using leads_addressable[OF l] by auto
  have sh: "addressable sh" using t1 by (auto simp: addressable_def phantom_def split: if_splits)
  let ?at_end = "shadow_position rl sh (length sh) enc"
  let ?opening = "if eol then [] else [Ranged ?at_end ?at_end [10]]"
  have op: "foldl (spec_apply enc) sh ?opening = phantom eol sh"
    using position_resolves[OF rl sh, of "length sh" enc] by (simp add: phantom_def)
  have t1': "(if \<not> eol then (case shadow_replace (length sh) (length sh) [10] sh of Some u \<Rightarrow> u | None \<Rightarrow> sh) else sh) = phantom eol sh"
    by (simp add: shadow_replace_def phantom_def)
  obtain cs where cs: "incremental_changes_against rl enc (phantom eol sh) es = (t', Some cs)"
    "foldl (spec_apply enc) (phantom eol sh) cs = t'" using incremental_leads[OF rl l] by blast
  let ?cut = "length t' - 1"
  have cut: "eol' \<or> places t' ?cut" "is_char_boundary t' ?cut" "?cut \<le> length t'" "take ?cut t' = butlast t'"
    using nl cr by (auto simp: ends_with_newline_def places_def is_char_boundary_def last_conv_nth is_cont_def butlast_conv_take)
  let ?closing = "if eol' then [] else [Ranged (shadow_position rl t' ?cut enc) (shadow_position rl t' (length t') enc) []]"
  have cl: "foldl (spec_apply enc) t' ?closing = (if eol' then t' else butlast t')"
    using position_resolves[OF rl t', of ?cut enc] position_resolves[OF rl t', of "length t'" enc] cut(1,4)
    by (cases eol') simp_all
  have "incremental_changes_bridging_eol rl enc sh es (\<not> eol) (\<not> eol') =
      (if eol' then t' else butlast t', Some (?opening @ cs @ ?closing))"
    using False nl cut unfolding incremental_changes_bridging_eol_def t1' Let_def cs(1) prod.case option.case
    by (cases eol; cases eol') (auto simp: shadow_replace_def)
  moreover have "foldl (spec_apply enc) sh (?opening @ cs @ ?closing) = (if eol' then t' else butlast t')"
    unfolding foldl_append op cs(2) cl ..
  ultimately show ?thesis by blast
qed


section \<open>One document\<close>

definition doc_current :: "lsp_buf \<Rightarrow> server_doc \<Rightarrow> bool" where
  "doc_current b doc \<longleftrightarrow> sd_shadow doc = document_bytes b \<and> sd_endofline doc = lb_endofline b \<and>
     sd_last_tick doc = changedtick (lb_buf b)"

definition no_edits :: edit_batch where
  "no_edits = \<lparr>batch_edits = [], batch_resync = False\<rparr>"

text \<open>What the pending edits still owe a document.\<close>

definition owed :: "lsp_buf \<Rightarrow> server_doc \<Rightarrow> edit_batch \<Rightarrow> bool" where
  "owed b doc pend \<longleftrightarrow> sd_last_tick doc \<le> changedtick (lb_buf b) \<and>
     (sd_last_tick doc = changedtick (lb_buf b) \<longrightarrow> pend = no_edits) \<and>
     (batch_resync pend \<or> leads (phantom (sd_endofline doc) (sd_shadow doc)) (batch_edits pend) (btext (lb_buf b)))"

definition settled :: "lsp_buf \<Rightarrow> bool" where
  "settled b \<longleftrightarrow> addressable (btext (lb_buf b)) \<and> ends_with_newline (btext (lb_buf b)) \<and>
     (lb_endofline b \<or> \<not> crlf_at (btext (lb_buf b)) (length (btext (lb_buf b)) - 1) (length (btext (lb_buf b)) - 1))"

lemma phantom_document: "settled b \<Longrightarrow> phantom (lb_endofline b) (document_bytes b) = btext (lb_buf b)"
  by (auto simp: settled_def phantom_def document_bytes_def ends_with_newline_def snoc_eq_iff_butlast)

lemma current_owed: "settled b \<Longrightarrow> doc_current b doc \<Longrightarrow> owed b doc no_edits"
  using phantom_document[of b] by (simp add: doc_current_def owed_def no_edits_def) (simp add: settled_def)

lemma did_change_exact:
  assumes rl: "lf_cr_index rl" and b: "settled b" and o: "owed b doc pend"
    and d: "did_change_content rl b pend kind enc doc' = (doc'', cs)"
    and same: "sd_shadow doc' = sd_shadow doc" "sd_endofline doc' = sd_endofline doc"
  shows "foldl (spec_apply enc) (sd_shadow doc) cs = document_bytes b \<and>
    doc'' = doc'\<lparr>sd_shadow := document_bytes b, sd_endofline := lb_endofline b\<rparr>"
proof (cases "\<not> batch_resync pend \<and> kind \<noteq> SyncFull")
  case True
  then have "leads (phantom (sd_endofline doc) (sd_shadow doc)) (batch_edits pend) (btext (lb_buf b))"
    using o by (simp add: owed_def)
  from bridging_leads[OF rl this, of "lb_endofline b" enc] b obtain cs' where
    "incremental_changes_bridging_eol rl enc (sd_shadow doc) (batch_edits pend) (\<not> sd_endofline doc) (\<not> lb_endofline b) =
       (document_bytes b, Some cs')" "foldl (spec_apply enc) (sd_shadow doc) cs' = document_bytes b"
    by (auto simp: settled_def document_bytes_def)
  then show ?thesis using True d same by (auto simp: did_change_content_def Let_def)
next
  case False
  then show ?thesis using d by (auto simp: did_change_content_def Let_def)
qed

definition pending :: "lsp_buf \<times> edit_batch option \<Rightarrow> edit_batch" where
  "pending st = (case snd st of Some bt \<Rightarrow> bt | None \<Rightarrow> journals (lb_buf (fst st)) JLsp)"

text \<open>Two views of one buffer: the journal may have been drained into the batch.\<close>

definition same_view :: "lsp_buf \<times> edit_batch option \<Rightarrow> lsp_buf \<times> edit_batch option \<Rightarrow> bool" where
  "same_view st st' \<longleftrightarrow> pending st' = pending st \<and> btext (lb_buf (fst st')) = btext (lb_buf (fst st)) \<and>
     changedtick (lb_buf (fst st')) = changedtick (lb_buf (fst st)) \<and> lb_endofline (fst st') = lb_endofline (fst st) \<and>
     lb_save_tick (fst st') = lb_save_tick (fst st) \<and>
     (snd st \<noteq> None \<longrightarrow> snd st' = snd st \<and> fst st' = fst st) \<and>
     (snd st = None \<longrightarrow> (snd st' = None \<and> fst st' = fst st) \<or> (snd st' \<noteq> None \<and> journals (lb_buf (fst st')) JLsp = no_edits))"

lemma same_view_refl: "same_view st st"
  by (simp add: same_view_def)

lemma same_view_trans: "same_view a b \<Longrightarrow> same_view b c \<Longrightarrow> same_view a c"
  unfolding same_view_def by (cases "snd a"; cases "snd b") auto

lemma same_view_doc:
  assumes "same_view st st'"
  shows "document_bytes (fst st') = document_bytes (fst st)" "settled (fst st') = settled (fst st)"
    "owed (fst st') doc p = owed (fst st) doc p" "doc_current (fst st') doc = doc_current (fst st) doc"
  using assms by (simp_all add: same_view_def document_bytes_def settled_def owed_def doc_current_def)

lemma drain_view:
  "same_view (b, batch) (case batch of Some bt \<Rightarrow> (b, Some bt) | None \<Rightarrow> (snd (take_lsp_edits b), Some (fst (take_lsp_edits b))))"
  by (cases batch) (auto simp: same_view_def pending_def take_lsp_edits_def take_journal_def no_edits_def)


section \<open>One server in a sync\<close>

definition doc_ok :: "('k \<Rightarrow> server_runtime option) \<Rightarrow> ('k \<Rightarrow> byte list option) \<Rightarrow> lsp_buf \<Rightarrow> edit_batch \<Rightarrow> 'k \<Rightarrow> server_doc \<Rightarrow> bool" where
  "doc_ok servers held b pend k doc \<longleftrightarrow> (sd_opened doc \<longrightarrow> held k = Some (sd_shadow doc) \<and>
     (\<exists>rt. servers k = Some rt \<and> (rt_sync_kind rt \<noteq> SyncNone \<longrightarrow> owed b doc pend)))"

definition doc_synced :: "('k \<Rightarrow> server_runtime option) \<Rightarrow> ('k \<Rightarrow> byte list option) \<Rightarrow> lsp_buf \<Rightarrow> 'k \<Rightarrow> server_doc \<Rightarrow> bool" where
  "doc_synced servers held b k doc \<longleftrightarrow> (case servers k of None \<Rightarrow> \<not> sd_opened doc
     | Some rt \<Rightarrow> sd_opened doc \<and> held k = Some (sd_shadow doc) \<and> (rt_sync_kind rt \<noteq> SyncNone \<longrightarrow> doc_current b doc))"

lemma same_view_simps:
  assumes "same_view st st'"
  shows "btext (lb_buf (fst st')) = btext (lb_buf (fst st))" "changedtick (lb_buf (fst st')) = changedtick (lb_buf (fst st))"
    "lb_endofline (fst st') = lb_endofline (fst st)" "lb_save_tick (fst st') = lb_save_tick (fst st)" "pending st' = pending st"
  using assms by (simp_all add: same_view_def)

lemma not_dirty_current:
  "settled b \<Longrightarrow> owed b doc p \<Longrightarrow> sd_last_tick doc = changedtick (lb_buf b) \<Longrightarrow> sd_endofline doc = lb_endofline b \<Longrightarrow>
   doc_current b doc"
  by (auto simp: owed_def doc_current_def no_edits_def phantom_def document_bytes_def) (metis butlast_snoc)

lemma changed_server:
  assumes rl: "lf_cr_index rl" and b: "settled (fst st)" and o: "owed (fst st) doc (pending st)"
    and st1: "st1 = (case snd st of Some bt \<Rightarrow> (fst st, Some bt)
      | None \<Rightarrow> (snd (take_lsp_edits (fst st)), Some (fst (take_lsp_edits (fst st)))))"
    and d: "did_change_content rl (fst st1) (the (snd st1)) kind enc (doc\<lparr>sd_version := v\<rparr>) = (doc'', cs)"
  shows "same_view st st1 \<and> doc_current (fst st) (doc''\<lparr>sd_last_tick := changedtick (lb_buf (fst st))\<rparr>) \<and>
    foldl (spec_apply enc) (sd_shadow doc) cs = sd_shadow doc'' \<and> sd_opened doc'' = sd_opened doc \<and>
    sd_last_save_tick doc'' = sd_last_save_tick doc"
proof -
  have v: "same_view st st1" using drain_view[of "fst st" "snd st"] unfolding st1 by simp
  have p: "the (snd st1) = pending st" using same_view_simps(5)[OF v] unfolding st1
    by (auto simp: pending_def split: option.splits)
  from did_change_exact[OF rl _ _ d[unfolded p], of doc] b o
  have e: "foldl (spec_apply enc) (sd_shadow doc) cs = document_bytes (fst st1)"
      "doc'' = doc\<lparr>sd_version := v, sd_shadow := document_bytes (fst st1), sd_endofline := lb_endofline (fst st1)\<rparr>"
    unfolding same_view_doc[OF v] by simp_all
  show ?thesis using v unfolding e same_view_doc[OF v] same_view_simps[OF v] doc_current_def by simp
qed

lemma sync_server_exact:
  assumes rl: "lf_cr_index rl" and b: "settled (fst st)" and rt: "servers k = Some rt"
    and ok: "doc_ok servers held (fst st) (pending st) k doc" and s: "sync_server rl rt doc st = (doc', ns, st')"
  shows "same_view st st' \<and> sd_opened doc' \<and> foldl (receive (rt_encoding rt)) (held k) ns = Some (sd_shadow doc') \<and>
    (rt_sync_kind rt \<noteq> SyncNone \<longrightarrow> doc_current (fst st) doc')"
proof -
  obtain b0 batch where st: "st = (b0, batch)" by (cases st)
  let ?tick = "changedtick (lb_buf b0)"
  show ?thesis
  proof (cases "sd_opened doc")
    case False
    then show ?thesis using s
      by (auto simp: sync_server_def st same_view_refl doc_current_def Let_def split: if_splits)
  next
    case True
    with ok rt have h: "held k = Some (sd_shadow doc)"
      and o: "rt_sync_kind rt \<noteq> SyncNone \<Longrightarrow> owed b0 doc (pending st)"
      by (auto simp: doc_ok_def st)
    show ?thesis
    proof (cases "(?tick \<noteq> sd_last_tick doc \<or> sd_endofline doc \<noteq> lb_endofline b0) \<and> rt_sync_kind rt \<noteq> SyncNone")
      case False
      then show ?thesis using s True h o b not_dirty_current[of b0 doc "pending st"]
        by (auto simp: sync_server_def st same_view_refl doc_current_def Let_def split: if_splits)
    next
      case dirty: True
      define st1 where "st1 = (case snd st of Some bt \<Rightarrow> (fst st, Some bt)
        | None \<Rightarrow> (snd (take_lsp_edits (fst st)), Some (fst (take_lsp_edits (fst st)))))"
      obtain doc'' cs where d: "did_change_content rl (fst st1) (the (snd st1)) (rt_sync_kind rt) (rt_encoding rt)
          (doc\<lparr>sd_version := sd_version doc + 1\<rparr>) = (doc'', cs)" by fastforce
      have "owed (fst st) doc (pending st)" using o dirty by (simp add: st)
      note c = changed_server[OF rl b this st1_def d]
      have "sync_server rl rt doc st =
          (let doc1 = doc''\<lparr>sd_last_tick := ?tick\<rparr>; ms = [DidChange (sd_version doc + 1) cs]
           in if lb_save_tick b0 \<noteq> sd_last_save_tick doc1
              then (doc1\<lparr>sd_last_save_tick := lb_save_tick b0\<rparr>, ms @ [DidSave], st1) else (doc1, ms, st1))"
        using True dirty d c unfolding sync_server_def st st1_def
        by (cases batch) (simp_all add: Let_def case_prod_beta)
      then show ?thesis using s c dirty h True
        by (auto simp: st doc_current_def Let_def split: if_splits)
    qed
  qed
qed


section \<open>All servers of a buffer\<close>

definition encoding_of :: "('k \<Rightarrow> server_runtime option) \<Rightarrow> 'k \<Rightarrow> position_encoding" where
  "encoding_of servers k = (case servers k of Some rt \<Rightarrow> rt_encoding rt | None \<Rightarrow> Utf16)"

definition deliver ::
  "('k \<Rightarrow> server_runtime option) \<Rightarrow> ('k \<Rightarrow> byte list option) \<Rightarrow> ('k \<times> lsp_notify) list \<Rightarrow> ('k \<Rightarrow> byte list option)"
where
  "deliver servers = foldl (\<lambda>h m. h(fst m := receive (encoding_of servers (fst m)) (h (fst m)) (snd m)))"

lemma deliver_append: "deliver servers h (xs @ ys) = deliver servers (deliver servers h xs) ys"
  by (simp add: deliver_def)

lemma deliver_Cons: "deliver servers h (m # ms) = deliver servers (deliver servers h [m]) ms"
  by (simp add: deliver_def)

lemma deliver_other: "k \<notin> fst ` set ms \<Longrightarrow> deliver servers h ms k = h k"
  by (induction ms arbitrary: h) (auto simp: deliver_def)

lemma deliver_same: "deliver servers h (map (Pair k) ns) k = foldl (receive (encoding_of servers k)) (h k) ns"
  by (induction ns arbitrary: h) (auto simp: deliver_def)

lemma deliver_pair: "j \<noteq> k \<Longrightarrow> deliver servers h (map (Pair k) ns) j = h j"
  by (rule deliver_other) auto

definition docs_synced where
  "docs_synced servers held b docs = (\<forall>(k, doc) \<in> set docs. doc_synced servers held b k doc)"

lemma doc_synced_view: "same_view st st' \<Longrightarrow> doc_synced servers held (fst st') k doc = doc_synced servers held (fst st) k doc"
  by (simp add: doc_synced_def same_view_doc split: option.splits)

lemma doc_ok_view: "same_view st st' \<Longrightarrow> doc_ok servers held (fst st') (pending st') k doc = doc_ok servers held (fst st) (pending st) k doc"
  by (simp add: doc_ok_def same_view_doc same_view_simps(5))

lemma sync_servers_exact:
  assumes rl: "lf_cr_index rl" and "settled (fst st)" and "distinct (map fst docs)"
    and "\<forall>(k, doc) \<in> set docs. doc_ok servers held (fst st) (pending st) k doc"
    and "sync_servers rl servers docs st = (docs', ms, st')"
  shows "same_view st st' \<and> map fst docs' = map fst docs \<and> fst ` set ms \<subseteq> fst ` set docs \<and>
    (\<forall>(k, doc) \<in> set docs'. doc_synced servers (deliver servers held ms) (fst st) k doc)"
  using assms(2-)
proof (induction docs arbitrary: st held docs' ms st')
  case Nil
  then show ?case by (simp add: same_view_refl)
next
  case (Cons kd docs)
  obtain k doc where kd: "kd = (k, doc)" by (cases kd)
  show ?case
  proof (cases "servers k")
    case None
    obtain ds where r: "sync_servers rl servers docs st = (ds, ms, st')" "docs' = (k, doc) # ds"
      using Cons.prems(4) None by (auto simp: kd split: prod.splits)
    have "\<not> sd_opened doc" using Cons.prems(3) None by (auto simp: kd doc_ok_def)
    then show ?thesis using Cons.IH[OF Cons.prems(1) _ _ r(1), of held] Cons.prems(2,3) None r(2)
      by (auto simp: kd doc_synced_def)
  next
    case (Some rt)
    obtain doc' ns st1 ds ms' where s: "sync_server rl rt doc st = (doc', ns, st1)"
      and r: "sync_servers rl servers docs st1 = (ds, ms', st')" "docs' = (k, doc') # ds" "ms = map (Pair k) ns @ ms'"
      using Cons.prems(4) Some by (auto simp: kd split: prod.splits)
    have ok: "doc_ok servers held (fst st) (pending st) k doc" using Cons.prems(3) by (simp add: kd)
    note here = sync_server_exact[OF rl Cons.prems(1) Some ok s]
    then have v: "same_view st st1" by blast
    let ?held = "deliver servers held (map (Pair k) ns)"
    have other: "?held j = held j" if "j \<in> fst ` set docs" for j
      using that Cons.prems(2) by (intro deliver_pair) (auto simp: kd)
    have "\<forall>(j, d) \<in> set docs. doc_ok servers ?held (fst st1) (pending st1) j d"
      unfolding doc_ok_view[OF v] using Cons.prems(3) other by (force simp: doc_ok_def)
    from Cons.IH[OF _ _ this r(1)] Cons.prems(1,2) v
    have rest: "same_view st1 st'" "map fst ds = map fst docs" "fst ` set ms' \<subseteq> fst ` set docs"
      "\<forall>(j, d) \<in> set ds. doc_synced servers (deliver servers ?held ms') (fst st) j d"
      by (auto simp: same_view_doc(2)[OF v] doc_synced_view[OF v])
    have "k \<notin> fst ` set ms'" using rest(3) Cons.prems(2) by (auto simp: kd)
    then have "deliver servers ?held ms' k = foldl (receive (rt_encoding rt)) (held k) ns"
      using Some by (simp add: deliver_other deliver_same encoding_of_def)
    then have "doc_synced servers (deliver servers ?held ms') (fst st) k doc'"
      using here Some by (simp add: doc_synced_def)
    then show ?thesis using rest r(2,3) same_view_trans[OF v rest(1)]
      by (auto simp: kd deliver_append)
  qed
qed

text \<open>The invariant of a buffer with its servers.\<close>

definition lsp_inv ::
  "('k \<Rightarrow> server_runtime option) \<Rightarrow> ('k \<Rightarrow> byte list option) \<Rightarrow> lsp_buf \<Rightarrow> ('k \<times> server_doc) list \<Rightarrow> bool"
where
  "lsp_inv servers held b docs \<longleftrightarrow> addressable (btext (lb_buf b)) \<and> distinct (map fst docs) \<and>
     (\<forall>(k, doc) \<in> set docs. doc_ok servers held b (journals (lb_buf b) JLsp) k doc)"

lemma synced_ok:
  "settled b \<Longrightarrow> doc_synced servers held b k doc \<Longrightarrow> doc_ok servers held b no_edits k doc"
  using current_owed[of b doc] by (auto simp: doc_synced_def doc_ok_def split: option.splits)

lemma take_lsp_edits_view: "same_view (b, Some bt) (snd (take_lsp_edits b), Some bt) = (snd (take_lsp_edits b) = b)"
  by (auto simp: same_view_def pending_def)

lemma take_lsp_edits_simps [simp]:
  "btext (lb_buf (snd (take_lsp_edits b))) = btext (lb_buf b)"
  "changedtick (lb_buf (snd (take_lsp_edits b))) = changedtick (lb_buf b)"
  "lb_endofline (snd (take_lsp_edits b)) = lb_endofline b" "lb_save_tick (snd (take_lsp_edits b)) = lb_save_tick b"
  "journals (lb_buf (snd (take_lsp_edits b))) JLsp = no_edits"
  "fst (take_lsp_edits b) = journals (lb_buf b) JLsp"
  by (simp_all add: take_lsp_edits_def take_journal_def no_edits_def)

lemma view_by_text:
  assumes "btext (lb_buf b') = btext (lb_buf b)" "changedtick (lb_buf b') = changedtick (lb_buf b)" "lb_endofline b' = lb_endofline b"
  shows "settled b' = settled b" "document_bytes b' = document_bytes b" "owed b' doc p = owed b doc p"
    "doc_current b' doc = doc_current b doc" "doc_synced servers held b' k doc = doc_synced servers held b k doc"
    "doc_ok servers held b' p k doc = doc_ok servers held b p k doc"
  using assms by (simp_all add: settled_def document_bytes_def owed_def doc_current_def doc_synced_def doc_ok_def split: option.splits)

lemma sync_lsp_exact:
  assumes rl: "lf_cr_index rl" and b: "settled b" and inv: "lsp_inv servers held b docs"
    and s: "sync_lsp rl servers True b docs = (b', docs', ms)"
  shows "lsp_inv servers (deliver servers held ms) b' docs' \<and> map fst docs' = map fst docs \<and>
    document_bytes b' = document_bytes b \<and>
    (\<forall>(k, doc) \<in> set docs'. doc_synced servers (deliver servers held ms) b' k doc)"
proof (cases "docs = []")
  case True
  then show ?thesis using s inv b
    by (auto simp: sync_lsp_def lsp_inv_def document_bytes_def settled_def)
next
  case False
  obtain b1 batch where r: "sync_servers rl servers docs (b, None) = (docs', ms, (b1, batch))"
    and b': "b' = (if batch = None then snd (take_lsp_edits b1) else b1)"
    using s False by (auto simp: sync_lsp_def split: prod.splits)
  have ok: "\<forall>(k, doc) \<in> set docs. doc_ok servers held (fst (b, None :: edit_batch option)) (pending (b, None)) k doc"
    and d: "distinct (map fst docs)" using inv by (auto simp: lsp_inv_def pending_def)
  from sync_servers_exact[OF rl _ d ok r] b
  have x: "same_view (b, None) (b1, batch)" "map fst docs' = map fst docs"
    "\<forall>(k, doc) \<in> set docs'. doc_synced servers (deliver servers held ms) b k doc" by auto
  have e: "btext (lb_buf b') = btext (lb_buf b)" "changedtick (lb_buf b') = changedtick (lb_buf b)"
    "lb_endofline b' = lb_endofline b" "journals (lb_buf b') JLsp = no_edits"
    using x(1) unfolding b' by (auto simp: same_view_def)
  note v = view_by_text[OF e(1-3)]
  have "doc_ok servers (deliver servers held ms) b no_edits k doc" if "(k, doc) \<in> set docs'" for k doc
  proof -
    have "doc_synced servers (deliver servers held ms) b k doc" using x(3) that by auto
    then show ?thesis by (rule synced_ok[OF b])
  qed
  then show ?thesis using x(2,3) d b e(4) unfolding lsp_inv_def v by (auto simp: settled_def e(1))
qed


section \<open>A buffer that is not current\<close>

lemma flush_servers_exact:
  assumes rl: "lf_cr_index rl" and b: "settled b" and "distinct (map fst docs)"
    and "\<forall>(k, doc) \<in> set docs. doc_ok servers held b batch k doc"
    and "flush_servers rl servers b batch docs = (docs', ms)"
  shows "map fst docs' = map fst docs \<and> fst ` set ms \<subseteq> fst ` set docs \<and>
    (\<forall>(k, doc) \<in> set docs'. doc_ok servers (deliver servers held ms) b no_edits k doc)"
  using assms(3-)
proof (induction docs arbitrary: held docs' ms)
  case (Cons kd docs)
  obtain k doc where kd: "kd = (k, doc)" by (cases kd)
  obtain ds ms1 where f: "flush_servers rl servers b batch docs = (ds, ms1)" by (cases "flush_servers rl servers b batch docs")
  have ok: "doc_ok servers held b batch k doc" using Cons.prems(2) by (simp add: kd)
  have k: "k \<notin> fst ` set docs" using Cons.prems(1) by (simp add: kd)
  show ?case
  proof (cases "wants_deltas servers (k, doc)")
    case True
    then obtain rt where rt: "servers k = Some rt" "rt_sync_kind rt \<noteq> SyncNone" "sd_opened doc"
      by (auto simp: wants_deltas_def split: option.splits)
    obtain doc1 cs where d: "did_change_content rl b batch (rt_sync_kind rt) (rt_encoding rt) doc = (doc1, cs)"
      by (cases "did_change_content rl b batch (rt_sync_kind rt) (rt_encoding rt) doc")
    define doc' where "doc' = doc1\<lparr>sd_version := sd_version doc1 + 1, sd_last_tick := changedtick (lb_buf b)\<rparr>"
    define m where "m = DidChange (sd_version doc') cs"
    have r: "docs' = (k, doc') # ds" "ms = map (Pair k) [m] @ ms1"
      using Cons.prems(3) True rt f d by (auto simp: kd doc'_def m_def Let_def)
    from ok rt have o: "owed b doc batch" "held k = Some (sd_shadow doc)" by (auto simp: doc_ok_def)
    from did_change_exact[OF rl b o(1) d refl refl]
    have c: "foldl (spec_apply (rt_encoding rt)) (sd_shadow doc) cs = document_bytes b" "doc_current b doc'"
      "sd_shadow doc' = document_bytes b"
      by (auto simp: doc'_def doc_current_def)
    let ?held = "deliver servers held (map (Pair k) [m])"
    have "\<forall>(j, d) \<in> set docs. doc_ok servers ?held b batch j d"
    proof (rule ballI, clarify)
      fix j d assume j: "(j, d) \<in> set docs"
      then have "j \<noteq> k" using k by force
      moreover have "doc_ok servers held b batch j d" using Cons.prems(2) j by auto
      ultimately show "doc_ok servers ?held b batch j d" unfolding doc_ok_def deliver_pair[OF \<open>j \<noteq> k\<close>] by simp
    qed
    from Cons.IH[OF _ this f] Cons.prems(1)
    have rest: "map fst ds = map fst docs" "fst ` set ms1 \<subseteq> fst ` set docs"
      "\<forall>(j, d) \<in> set ds. doc_ok servers (deliver servers ?held ms1) b no_edits j d" by (auto simp: kd)
    have "deliver servers ?held ms1 k = ?held k" using rest(2) k by (intro deliver_other) auto
    also have "\<dots> = Some (document_bytes b)"
      unfolding deliver_same by (simp add: m_def o(2) encoding_of_def rt(1) c(1))
    finally have "doc_ok servers (deliver servers ?held ms1) b no_edits k doc'"
      using current_owed[OF b c(2)] rt c(3) by (simp add: doc_ok_def)
    then show ?thesis using rest r by (auto simp: kd deliver_Cons[of servers held "(k, m)" ms1])
  next
    case False
    have r: "docs' = (k, doc) # ds" "ms = ms1" using Cons.prems(3) False f by (auto simp: kd)
    have "distinct (map fst docs)" "\<forall>(j, d) \<in> set docs. doc_ok servers held b batch j d"
      using Cons.prems(1,2) by (auto simp: kd)
    from Cons.IH[OF this f]
    have rest: "map fst ds = map fst docs" "fst ` set ms1 \<subseteq> fst ` set docs"
      "\<forall>(j, d) \<in> set ds. doc_ok servers (deliver servers held ms1) b no_edits j d" by auto
    have "deliver servers held ms1 k = held k" using rest(2) k by (intro deliver_other) auto
    then have "doc_ok servers (deliver servers held ms1) b no_edits k doc"
      using ok False by (auto simp: doc_ok_def wants_deltas_def split: option.splits)
    then show ?thesis using rest r by (auto simp: kd)
  qed
qed simp

lemma sync_lsp_buffer_inv:
  assumes rl: "lf_cr_index rl" and b: "settled b" and inv: "lsp_inv servers held b docs"
    and s: "sync_lsp_buffer rl servers has_uri b docs = (b', docs', ms)"
  shows "lsp_inv servers (deliver servers held ms) b' docs'"
proof -
  let ?pend = "journals (lb_buf b) JLsp"
  obtain b1 where b1: "b1 = snd (take_lsp_edits b)" by blast
  have v: "settled b1 = settled b" "doc_ok servers held b1 p k doc = doc_ok servers held b p k doc" for held p k doc
    by (rule view_by_text; simp add: b1)+
  have t: "take_lsp_edits b = (?pend, b1)" and j: "journals (lb_buf b1) JLsp = no_edits"
    and bt: "btext (lb_buf b1) = btext (lb_buf b)" by (simp_all add: prod_eq_iff b1)
  have d: "distinct (map fst docs)" "addressable (btext (lb_buf b))"
    and ok: "\<forall>(k, doc) \<in> set docs. doc_ok servers held b ?pend k doc" using inv by (auto simp: lsp_inv_def)
  consider (skip) "\<not> has_uri" | (idle) "has_uri" "filter (wants_deltas servers) docs = []"
    | (clean) "has_uri" "filter (wants_deltas servers) docs \<noteq> []" "batch_edits ?pend = []" "\<not> batch_resync ?pend"
    | (flush) "has_uri" "filter (wants_deltas servers) docs \<noteq> []" "\<not> (batch_edits ?pend = [] \<and> \<not> batch_resync ?pend)"
    by blast
  then show ?thesis
  proof cases
    case skip
    then show ?thesis using s inv by (simp add: sync_lsp_buffer_def deliver_def)
  next
    case idle
    have "doc_ok servers held b1 no_edits k doc" if kd: "(k, doc) \<in> set docs" for k doc
    proof -
      have "\<not> wants_deltas servers (k, doc)" using idle(2) kd unfolding filter_empty_conv by blast
      moreover have "doc_ok servers held b ?pend k doc" using bspec[OF ok kd] by simp
      ultimately show ?thesis by (auto simp: doc_ok_def wants_deltas_def split: option.splits)
    qed
    moreover have "b' = b1" "docs' = docs" "ms = []" using s idle by (simp_all add: sync_lsp_buffer_def t)
    ultimately show ?thesis using d by (auto simp: lsp_inv_def deliver_def j bt)
  next
    case clean
    then have "?pend = no_edits" by (simp add: no_edits_def)
    then have "b' = b1" "docs' = docs" "ms = []" using s clean by (simp_all add: sync_lsp_buffer_def t)
    then show ?thesis using d ok \<open>?pend = no_edits\<close> by (simp add: lsp_inv_def deliver_def v j bt)
  next
    case flush
    obtain ds ms1 where f: "flush_servers rl servers b1 ?pend docs = (ds, ms1)" by (cases "flush_servers rl servers b1 ?pend docs")
    have "b' = b1" "docs' = ds" "ms = ms1" using s flush f by (simp_all add: sync_lsp_buffer_def t split: if_splits)
    moreover have "settled b1" "\<forall>(k, doc) \<in> set docs. doc_ok servers held b1 ?pend k doc" using b ok v by auto
    ultimately show ?thesis using flush_servers_exact[OF rl _ d(1) _ f, of held] d
      by (simp add: lsp_inv_def j bt)
  qed
qed


section \<open>A session\<close>

text \<open>A buffer, whether its documents have a URI, its documents, the running servers, and the text each
  server holds.\<close>

record 'k lsp_world =
  lw_buf :: lsp_buf
  lw_uri :: bool
  lw_docs :: "('k \<times> server_doc) list"
  lw_servers :: "'k \<Rightarrow> server_runtime option"
  lw_held :: "'k \<Rightarrow> byte list option"

text \<open>What can happen to it: edits on character boundaries (the rope panics on others), normalization, a
  text put in whole, flips of \<open>'endofline'\<close>, writes; servers attached, initialized, ended, lost with the
  connection; the file moved; and the two syncs, between commands, when the text ends with a newline.\<close>

inductive lsp_reach :: "rope_lines \<Rightarrow> 'k::linorder lsp_world \<Rightarrow> bool" for rl where
  lsp_start: "addressable (btext (lb_buf b)) \<Longrightarrow>
    lsp_reach rl \<lparr>lw_buf = b, lw_uri = False, lw_docs = [], lw_servers = (\<lambda>_. None), lw_held = (\<lambda>_. None)\<rparr>"
| lsp_edit: "lsp_reach rl w \<Longrightarrow> b = lw_buf w \<Longrightarrow> t = btext (lb_buf b) \<Longrightarrow> x \<le> y \<Longrightarrow> places t x \<Longrightarrow>
    places t y \<Longrightarrow> addressable (take x t @ u @ drop y t) \<Longrightarrow>
    lsp_reach rl (w\<lparr>lw_buf := b\<lparr>lb_buf := buf_replace rl x y u (lb_buf b)\<rparr>\<rparr>)"
| lsp_normalize: "lsp_reach rl w \<Longrightarrow> b = lw_buf w \<Longrightarrow> addressable (nl (btext (lb_buf b))) \<Longrightarrow>
    lsp_reach rl (w\<lparr>lw_buf := b\<lparr>lb_buf := normalize rl (lb_buf b)\<rparr>\<rparr>)"
| lsp_reset: "lsp_reach rl w \<Longrightarrow> b = lw_buf w \<Longrightarrow> addressable t \<Longrightarrow>
    lsp_reach rl (w\<lparr>lw_buf := b\<lparr>lb_buf := mark_resync ((lb_buf b)\<lparr>btext := t\<rparr>)\<rparr>\<rparr>)"
| lsp_endofline: "lsp_reach rl w \<Longrightarrow> b = lw_buf w \<Longrightarrow> lsp_reach rl (w\<lparr>lw_buf := b\<lparr>lb_endofline := e\<rparr>\<rparr>)"
| lsp_written: "lsp_reach rl w \<Longrightarrow> b = lw_buf w \<Longrightarrow> lsp_reach rl (w\<lparr>lw_buf := b\<lparr>lb_save_tick := n\<rparr>\<rparr>)"
| lsp_attach: "lsp_reach rl w \<Longrightarrow> lsp_reach rl (w\<lparr>lw_docs := attach k (lw_docs w)\<rparr>)"
| lsp_initialized: "lsp_reach rl w \<Longrightarrow> server_initialized k rt (lw_servers w, lw_docs w) = (servers, docs) \<Longrightarrow>
    lsp_reach rl (w\<lparr>lw_servers := servers, lw_docs := docs, lw_held := (lw_held w)(k := None)\<rparr>)"
| lsp_retired: "lsp_reach rl w \<Longrightarrow> retire_lsp_server k drop_docs (lw_servers w, lw_docs w) = (servers, docs) \<Longrightarrow>
    lsp_reach rl (w\<lparr>lw_servers := servers, lw_docs := docs, lw_held := (lw_held w)(k := None)\<rparr>)"
| lsp_reconnected: "lsp_reach rl w \<Longrightarrow> resync_lsp_after_reconnect (lw_servers w, lw_docs w) = (servers, docs) \<Longrightarrow>
    lsp_reach rl (w\<lparr>lw_servers := servers, lw_docs := docs, lw_held := (\<lambda>_. None)\<rparr>)"
| lsp_moved: "lsp_reach rl w \<Longrightarrow> reopen_lsp_document (lw_uri w) (lw_docs w) = (uri, docs, ms) \<Longrightarrow>
    lsp_reach rl (w\<lparr>lw_uri := uri, lw_docs := docs, lw_held := deliver (lw_servers w) (lw_held w) ms\<rparr>)"
| lsp_synced: "lsp_reach rl w \<Longrightarrow> settled (lw_buf w) \<Longrightarrow>
    sync_lsp rl (lw_servers w) has_uri (lw_buf w) (lw_docs w) = (b, docs, ms) \<Longrightarrow>
    lsp_reach rl (w\<lparr>lw_buf := b, lw_uri := lw_uri w \<or> has_uri \<and> docs \<noteq> [], lw_docs := docs,
      lw_held := deliver (lw_servers w) (lw_held w) ms\<rparr>)"
| lsp_flushed: "lsp_reach rl w \<Longrightarrow> settled (lw_buf w) \<Longrightarrow>
    sync_lsp_buffer rl (lw_servers w) (lw_uri w) (lw_buf w) (lw_docs w) = (b, docs, ms) \<Longrightarrow>
    lsp_reach rl (w\<lparr>lw_buf := b, lw_docs := docs, lw_held := deliver (lw_servers w) (lw_held w) ms\<rparr>)"

text \<open>An edit grows the journal by one edit that fits, or does nothing.\<close>

lemma edit_owed:
  assumes o: "owed b doc (journals (lb_buf b) JLsp)" and t: "btext bf' = splice (btext (lb_buf b)) e" "addressable (btext bf')"
    and f: "fits (btext (lb_buf b)) e" and j: "journals bf' JLsp = push_edit e (journals (lb_buf b) JLsp)"
    and c: "changedtick bf' = changedtick (lb_buf b) + 1"
  shows "owed (b\<lparr>lb_buf := bf'\<rparr>) doc (journals bf' JLsp)"
  using assms leads_snoc[OF _ f] by (auto simp: owed_def push_edit_def)

lemma edit_inv:
  assumes inv: "lsp_inv servers held b docs" and t: "btext bf' = splice (btext (lb_buf b)) e" "addressable (btext bf')"
    and f: "fits (btext (lb_buf b)) e" and j: "journals bf' JLsp = push_edit e (journals (lb_buf b) JLsp)"
    and c: "changedtick bf' = changedtick (lb_buf b) + 1"
  shows "lsp_inv servers held (b\<lparr>lb_buf := bf'\<rparr>) docs"
  using inv edit_owed[OF _ t f j c] t(2) by (fastforce simp: lsp_inv_def doc_ok_def)

lemma replace_cases:
  assumes "x \<le> y"
  obtains "x = y" "u = []" "buf_replace rl x y u bf = bf"
  | e where "start_byte e = x" "old_end_byte e = y" "edit_text e = u"
      "buf_replace rl x y u bf = record_edit e (bf\<lparr>btext := take x (btext bf) @ u @ drop y (btext bf)\<rparr>)"
proof -
  let ?t = "btext bf"
  define e where "e = \<lparr>start_byte = x, old_end_byte = y, new_end_byte = x + length u, start_point = point_at rl ?t x,
    old_end_point = point_at rl ?t y, new_end_point = (if u = [] then point_at rl ?t x
      else point_at rl (take x ?t @ u @ drop y ?t) (x + length u)), edit_text = u\<rparr>"
  show thesis
  proof (cases "x = y \<and> u = []")
    case True
    then show thesis using that(1) by (simp add: buf_replace_def)
  next
    case False
    then have "buf_replace rl x y u bf = record_edit e (bf\<lparr>btext := take x ?t @ u @ drop y ?t\<rparr>)"
      using assms by (cases "x = y"; cases "u = []")
        (auto simp: buf_replace_def buf_insert_def buf_remove_def Let_def e_def)
    then show thesis by (rule that(2)[rotated 3]) (simp_all add: e_def)
  qed
qed

lemma record_edit_journal [simp]:
  "journals (record_edit e bf) j = push_edit e (journals bf j)" "changedtick (record_edit e bf) = changedtick bf + 1"
  by (simp_all add: record_edit_def Let_def)

lemma replace_inv_lsp:
  assumes inv: "lsp_inv servers held b docs" and r: "x \<le> y" "places (btext (lb_buf b)) x"
    "places (btext (lb_buf b)) y" "addressable (take x (btext (lb_buf b)) @ u @ drop y (btext (lb_buf b)))"
  shows "lsp_inv servers held (b\<lparr>lb_buf := buf_replace rl x y u (lb_buf b)\<rparr>) docs"
proof (rule replace_cases[OF r(1), of u rl "lb_buf b"])
  assume "buf_replace rl x y u (lb_buf b) = lb_buf b"
  then show ?thesis using inv by simp
next
  fix e
  assume e: "start_byte e = x" "old_end_byte e = y" "edit_text e = u"
    "buf_replace rl x y u (lb_buf b) = record_edit e ((lb_buf b)\<lparr>btext := take x (btext (lb_buf b)) @ u @ drop y (btext (lb_buf b))\<rparr>)"
  then show ?thesis using r inv by (auto intro!: edit_inv simp: splice_def fits_def)
qed

lemma normalize_inv_lsp:
  assumes inv: "lsp_inv servers held b docs" and t: "addressable (nl (btext (lb_buf b)))"
  shows "lsp_inv servers held (b\<lparr>lb_buf := normalize rl (lb_buf b)\<rparr>) docs"
proof (cases "btext (lb_buf b) \<noteq> [] \<and> last (btext (lb_buf b)) = 10")
  case True
  then show ?thesis using inv by (simp add: normalize_def)
next
  case False
  let ?t = "btext (lb_buf b)" and ?bf = "normalize rl (lb_buf b)"
  have n: "journals ?bf = journals (buf_insert rl (length ?t) [10] (lb_buf b))"
    "changedtick ?bf = changedtick (buf_insert rl (length ?t) [10] (lb_buf b))"
    using False by (auto simp: normalize_def Let_def)
  have i: "buf_insert rl (length ?t) [10] (lb_buf b) = buf_replace rl (length ?t) (length ?t) [10] (lb_buf b)"
    by (simp add: buf_replace_def)
  obtain e where e: "start_byte e = length ?t" "old_end_byte e = length ?t" "edit_text e = [10]"
    "journals ?bf JLsp = push_edit e (journals (lb_buf b) JLsp)" "changedtick ?bf = changedtick (lb_buf b) + 1"
    unfolding n i by (rule replace_cases[OF order_refl, of "length ?t", where rl = rl and u = "[10]" and bf = "lb_buf b"]) auto
  have "btext ?bf = nl ?t" by (rule btext_normalize)
  moreover have "nl ?t = splice ?t e" using e False by (simp add: nl_def splice_def)
  ultimately show ?thesis using e t inv by (intro edit_inv[of _ _ _ _ _ e]) (simp_all add: fits_def)
qed

lemma close_docs_set: "(k, doc) \<in> set (close_docs P docs) \<Longrightarrow>
    \<exists>d. (k, d) \<in> set docs \<and> doc = (if P (k, d) then closed_doc d else d)"
  by (auto simp: close_docs_def split: if_splits)

lemma close_docs_keys [simp]: "map fst (close_docs P docs) = map fst docs"
  by (simp add: close_docs_def comp_def)

lemma closed_doc_ok [simp]: "doc_ok servers held b p k (closed_doc d)" "doc_ok servers held b p k new_server_doc"
  by (simp_all add: doc_ok_def closed_doc_def new_server_doc_def)

text \<open>Closing documents, and changing what is known of their servers only.\<close>

lemma close_docs_inv:
  assumes inv: "lsp_inv servers held b docs"
    and same: "\<And>k d. (k, d) \<in> set docs \<Longrightarrow> \<not> P (k, d) \<Longrightarrow> sd_opened d \<Longrightarrow> servers' k = servers k \<and> held' k = held k"
  shows "lsp_inv servers' held' b (close_docs P docs)"
proof -
  have "doc_ok servers' held' b (journals (lb_buf b) JLsp) k doc" if kd: "(k, doc) \<in> set (close_docs P docs)" for k doc
  proof -
    obtain d where d: "(k, d) \<in> set docs" "doc = (if P (k, d) then closed_doc d else d)"
      using close_docs_set[OF kd] by blast
    have "doc_ok servers held b (journals (lb_buf b) JLsp) k d" using inv d(1) by (auto simp: lsp_inv_def)
    then show ?thesis using d same[OF d(1)] by (cases "P (k, d)") (simp_all add: doc_ok_def[of _ _ _ _ _ d])
  qed
  then show ?thesis using inv by (auto simp: lsp_inv_def)
qed

lemma filter_inv: "lsp_inv servers held b docs \<Longrightarrow> lsp_inv servers held b (filter P docs)"
  by (auto simp: lsp_inv_def distinct_map intro: inj_on_subset)

lemma insort_distinct_keys:
  "k \<notin> fst ` set l \<Longrightarrow> distinct (map fst l) \<Longrightarrow> distinct (map fst (insort_key fst (k, d) l))"
  by (induction l) (auto simp: set_insort_key)

lemma reach_inv: "lsp_reach rl w \<Longrightarrow> lf_cr_index rl \<Longrightarrow> lsp_inv (lw_servers w) (lw_held w) (lw_buf w) (lw_docs w)"
proof (induction rule: lsp_reach.induct)
  case (lsp_start b)
  then show ?case by (simp add: lsp_inv_def)
next
  case (lsp_edit w b t x y u)
  then show ?case by (simp add: replace_inv_lsp)
next
  case (lsp_normalize w b)
  then show ?case by (simp add: normalize_inv_lsp)
next
  case (lsp_reset w b t)
  then show ?case by (auto simp: lsp_inv_def doc_ok_def owed_def mark_resync_def)
next
  case (lsp_endofline w b e)
  then show ?case by (auto simp: lsp_inv_def doc_ok_def owed_def)
next
  case (lsp_written w b n)
  then show ?case by (auto simp: lsp_inv_def doc_ok_def owed_def)
next
  case (lsp_attach w k)
  then show ?case
    by (auto simp: lsp_inv_def attach_def set_insort_key insort_distinct_keys)
next
  case (lsp_initialized w k rt servers docs)
  then show ?case by (auto simp: server_initialized_def intro: close_docs_inv)
next
  case (lsp_retired w k drop_docs servers docs)
  let ?docs = "close_docs (\<lambda>kd. fst kd = k \<and> sd_opened (snd kd)) (lw_docs w)"
  have inv: "lsp_inv (lw_servers w) (lw_held w) (lw_buf w) (lw_docs w)" using lsp_retired by simp
  show ?case
  proof (cases "lw_servers w k")
    case None
    then show ?thesis using lsp_retired inv
      by (fastforce simp: retire_lsp_server_def lsp_inv_def doc_ok_def)
  next
    case (Some rt)
    have "lsp_inv ((lw_servers w)(k := None)) ((lw_held w)(k := None)) (lw_buf w) ?docs"
      by (rule close_docs_inv[OF inv]) auto
    then show ?thesis using lsp_retired(2) Some filter_inv
      by (auto simp: retire_lsp_server_def detach_def Let_def simp del: fun_upd_apply)
  qed
next
  case (lsp_reconnected w servers docs)
  then show ?case by (auto simp: resync_lsp_after_reconnect_def intro: close_docs_inv)
next
  case (lsp_moved w uri docs ms)
  then show ?case by (auto simp: reopen_lsp_document_def lsp_inv_def deliver_def comp_def split: if_splits)
next
  case (lsp_synced w has_uri b docs ms)
  then have inv: "lsp_inv (lw_servers w) (lw_held w) (lw_buf w) (lw_docs w)" by simp
  show ?case
  proof (cases "lw_docs w = [] \<or> has_uri")
    case True
    then have "sync_lsp rl (lw_servers w) True (lw_buf w) (lw_docs w) = (b, docs, ms)"
      using lsp_synced.hyps(3) by (auto simp: sync_lsp_def)
    from sync_lsp_exact[OF lsp_synced.prems lsp_synced.hyps(2) inv this] show ?thesis by simp
  next
    case False
    then have "b = lw_buf w" "docs = lw_docs w" "ms = []"
      using lsp_synced.hyps(3) by (auto simp: sync_lsp_def)
    then show ?thesis using inv by (simp add: deliver_def)
  qed
next
  case (lsp_flushed w b docs ms)
  then show ?case using sync_lsp_buffer_inv by simp
qed

section \<open>The servers hold the document\<close>

text \<open>C40. Document sync is exact. However a session went (edits, normalizations, wholesale reloads, flips of
  \<open>'endofline'\<close>, writes, servers attached, initialized, stopped, crashed, reconnected, the file moved,
  syncs of this buffer as the current one or not), after a sync every running server that wants changes
  holds, by the rules of the protocol and in its own position encoding, exactly the buffer's document,
  although it was sent edits and not the text. Assumed: texts below 2 GiB, no edit that starts or ends
  between a \<open>\r\<close> and a \<open>\n\<close>, and no text ending in \<open>\r\n\<close> whose \<open>'endofline'\<close> is off at a sync.\<close>

theorem servers_hold_document:
  assumes "lf_cr_index rl" "lsp_reach rl w" "settled (lw_buf w)"
    and "sync_lsp rl (lw_servers w) True (lw_buf w) (lw_docs w) = (b, docs, ms)"
    and "(k, doc) \<in> set docs" "lw_servers w k = Some rt" "rt_sync_kind rt \<noteq> SyncNone"
  shows "deliver (lw_servers w) (lw_held w) ms k = Some (document_bytes (lw_buf w)) \<and>
    document_bytes b = document_bytes (lw_buf w)"
proof -
  note x = sync_lsp_exact[OF assms(1,3) reach_inv[OF assms(2,1)] assms(4)]
  then have "doc_synced (lw_servers w) (deliver (lw_servers w) (lw_held w) ms) b k doc" using assms(5) by auto
  then show ?thesis using x assms(6,7) by (simp add: doc_synced_def doc_current_def)
qed

text \<open>A server attached, initialized for UTF-16 and opened on \<open>a\<close>; then an accented letter is put before it
  and a \<open>b\<close> after.\<close>

definition session_start :: "nat lsp_world" where
  "session_start = \<lparr>lw_buf = \<lparr>lb_buf = blank_buf [97, 10], lb_endofline = False, lb_save_tick = 0\<rparr>, lw_uri = False,
     lw_docs = attach 1 [], lw_servers = (\<lambda>_. None)(1 \<mapsto> \<lparr>rt_encoding = Utf16, rt_sync_kind = SyncIncremental\<rparr>),
     lw_held = (\<lambda>_. None)\<rparr>"

definition session_sync :: "nat lsp_world \<Rightarrow> nat lsp_world" where
  "session_sync w = (case sync_lsp lf_cr (lw_servers w) True (lw_buf w) (lw_docs w) of (b, docs, ms) \<Rightarrow>
     w\<lparr>lw_buf := b, lw_uri := lw_uri w \<or> docs \<noteq> [], lw_docs := docs, lw_held := deliver (lw_servers w) (lw_held w) ms\<rparr>)"

definition session_edit :: "nat \<Rightarrow> byte list \<Rightarrow> nat lsp_world \<Rightarrow> nat lsp_world" where
  "session_edit x u w = w\<lparr>lw_buf := (lw_buf w)\<lparr>lb_buf := buf_replace lf_cr x x u (lb_buf (lw_buf w))\<rparr>\<rparr>"

definition session :: "nat lsp_world" where
  "session = session_edit 3 [98] (session_edit 0 [0xC3, 0xA9] (session_sync session_start))"

lemma session_reach: "lsp_reach lf_cr session"
proof -
  let ?b = "\<lparr>lb_buf = blank_buf [97, 10], lb_endofline = False, lb_save_tick = 0\<rparr>"
  have "lsp_reach lf_cr \<lparr>lw_buf = ?b, lw_uri = False, lw_docs = [], lw_servers = (\<lambda>_. None),
      lw_held = (\<lambda>_. None :: byte list option)\<rparr>"
    by (rule lsp_start) (simp add: blank_buf_def addressable_def)
  from lsp_initialized[OF lsp_attach[OF this, of "1 :: nat"], of 1 "\<lparr>rt_encoding = Utf16, rt_sync_kind = SyncIncremental\<rparr>"]
  have 1: "lsp_reach lf_cr session_start"
    by (auto simp: session_start_def server_initialized_def close_docs_def attach_def closed_doc_def new_server_doc_def fun_eq_iff)
  have "settled (lw_buf session_start)" by (simp add: session_start_def settled_def crlf_at_def blank_buf_def addressable_def ends_with_newline_def)
  from lsp_synced[OF 1 this, of True]
  have 2: "lsp_reach lf_cr (session_sync session_start)"
    unfolding session_sync_def by (simp split: prod.splits)
  have t: "btext (lb_buf (lw_buf (session_sync session_start))) = [97, 10]" by code_simp
  have 3: "lsp_reach lf_cr (session_edit 0 [0xC3, 0xA9] (session_sync session_start))"
    unfolding session_edit_def
    by (rule lsp_edit[OF 2 refl refl]) (simp_all add: t addressable_def places_def crlf_at_def is_char_boundary_def is_cont_def)
  have t: "btext (lb_buf (lw_buf (session_edit 0 [0xC3, 0xA9] (session_sync session_start)))) = [0xC3, 0xA9, 97, 10]"
    by (simp add: session_edit_def btext_replace t)
  show ?thesis
    unfolding session_def session_edit_def[of 3]
    by (rule lsp_edit[OF 3 refl refl]) (simp_all add: t addressable_def places_def crlf_at_def is_char_boundary_def is_cont_def numeral_3_eq_3)
qed

theorem servers_hold_document_witness:
  "deliver (lw_servers session) (lw_held session)
     (snd (snd (sync_lsp lf_cr (lw_servers session) True (lw_buf session) (lw_docs session)))) 1 =
   Some [0xC3, 0xA9, 97, 98]"
proof -
  obtain b docs ms where s: "sync_lsp lf_cr (lw_servers session) True (lw_buf session) (lw_docs session) = (b, docs, ms)"
    by (metis prod_cases3)
  have start: "btext (lb_buf (lw_buf (session_sync session_start))) = [97, 10]"
    "lb_endofline (lw_buf (session_sync session_start)) = False" "map fst (lw_docs (session_sync session_start)) = [1]"
    "map_option rt_sync_kind (lw_servers (session_sync session_start) 1) = Some SyncIncremental" by code_simp+
  then have t: "btext (lb_buf (lw_buf session)) = [0xC3, 0xA9, 97, 98, 10]" "\<not> lb_endofline (lw_buf session)"
    by (simp_all add: session_def session_edit_def btext_replace numeral_3_eq_3)
  then have settled: "settled (lw_buf session)" by (simp add: settled_def crlf_at_def addressable_def ends_with_newline_def)
  have "map fst docs = [1]"
    using sync_lsp_exact[OF lf_cr_index_lf_cr settled reach_inv[OF session_reach lf_cr_index_lf_cr] s] start(3)
    by (simp add: session_def session_edit_def)
  then obtain doc where doc: "(1, doc) \<in> set docs" by (cases docs) auto
  obtain rt where rt: "lw_servers session 1 = Some rt" "rt_sync_kind rt \<noteq> SyncNone"
    using start(4) by (auto simp: session_def session_edit_def)
  show ?thesis
    using servers_hold_document[OF lf_cr_index_lf_cr session_reach settled s doc rt] s t
    by (simp add: document_bytes_def)
qed

text \<open>The document \<open>a\n b\r\<close> of a file without a final newline: the closing change that takes the added newline off
  again starts between the \<open>\r\<close> and the \<open>\n\<close>, and the server removes both.\<close>

lemma closing_removes_cr:
  "fst (incremental_changes_bridging_eol lf_cr Utf16 [97, 10, 98, 13]
      [\<lparr>start_byte = 0, old_end_byte = 0, new_end_byte = 1, start_point = (0, 0), old_end_point = (0, 0),
        new_end_point = (0, 1), edit_text = [120]\<rparr>] True True) = [120, 97, 10, 98, 13]"
  "map_option (foldl (spec_apply Utf16) [97, 10, 98, 13]) (snd (incremental_changes_bridging_eol lf_cr Utf16 [97, 10, 98, 13]
      [\<lparr>start_byte = 0, old_end_byte = 0, new_end_byte = 1, start_point = (0, 0), old_end_point = (0, 0),
        new_end_point = (0, 1), edit_text = [120]\<rparr>] True True)) = Some [120, 97, 10, 98]"
  by code_simp+

end
