(* ===== verification/Lsp_EditProps.thy ===== *)
theory Lsp_EditProps
  imports Lsp_Edit Lsp_SyncProps
begin

text \<open>
  A server's edits do to the document what the protocol says: positions resolve exactly, the batch is the
  simultaneous replacement of its ranges, \<open>'endofline'\<close> ends up as the new document ends, and the cursor
  stays on its text.
\<close>

section \<open>Lines of a text without carriage returns\<close>

abbreviation lf_rows :: "byte list \<Rightarrow> byte list list" where
  "lf_rows \<equiv> split_char 10"

definition lf_row_of :: "byte list \<Rightarrow> nat \<Rightarrow> nat" where
  "lf_row_of t p = length (filter (\<lambda>x. x = 10) (take p t))"

lemma lf_rows_length: "length (lf_rows t) = Suc (lf_row_of t (length t))"
  by (simp add: split_char_length lf_row_of_def)

lemma lf_rows_no_lf: "r \<in> set (lf_rows t) \<Longrightarrow> 10 \<notin> set r"
proof (induction t arbitrary: r)
  case (Cons c t)
  obtain p ps where "lf_rows t = p # ps" by (cases "lf_rows t") auto
  with Cons show ?case by (auto split: if_splits)
qed simp

lemma lf_rows_join: "concat (map (\<lambda>r. r @ [10]) (butlast (lf_rows t))) @ last (lf_rows t) = t"
proof (induction t)
  case (Cons c t)
  obtain p ps where "lf_rows t = p # ps" by (cases "lf_rows t") auto
  with Cons show ?case by (cases ps) auto
qed simp

lemma lf_row_of_breaks: "13 \<notin> set t \<Longrightarrow> p \<le> length t \<Longrightarrow> length (breaks t p) = lf_row_of t p"
proof (induction p)
  case (Suc p)
  then have "t ! p \<noteq> 13" using nth_mem[of p t] by force
  then have "is_break t (Suc p) \<longleftrightarrow> t ! p = 10" using Suc.prems by (auto simp: is_break_def)
  then show ?case using Suc by (auto simp: lf_row_of_def take_Suc_conv_app_nth)
qed (simp add: lf_row_of_def)

lemma lf_line_count_rows:
  assumes "lf_cr_index rl" "13 \<notin> set t"
  shows "line_count rl t = length (lf_rows t) - 1"
  using assms lf_row_of_breaks[of t "length t"] by (simp add: line_count_def lf_cr_index_def lf_rows_length)

lemma lf_line_start:
  assumes rl: "lf_cr_index rl" and cr: "13 \<notin> set (x @ y)" and x: "x = [] \<or> last x = 10"
  shows "line_to_byte_idx rl (x @ y) (length (filter (\<lambda>c. c = 10) x)) = length x"
proof -
  have "length (filter (\<lambda>c. c = 10) x) = length (breaks (x @ y) (length x))"
    using lf_row_of_breaks[OF cr, of "length x"] by (simp add: lf_row_of_def)
  then have l: "line_to_byte_idx rl (x @ y) (length (filter (\<lambda>c. c = 10) x)) = last (0 # breaks (x @ y) (length x))"
    using rl by (simp add: lf_cr_index_def)
  show ?thesis
  proof (cases x rule: rev_cases)
    case (snoc z c)
    then have "is_break (x @ y) (Suc (length z))" using x by (simp add: is_break_def nth_append)
    then show ?thesis unfolding l using snoc by simp
  next
    case Nil
    then show ?thesis using l by simp
  qed
qed

text \<open>Where a row starts.\<close>

definition lf_row_start :: "byte list \<Rightarrow> nat \<Rightarrow> nat" where
  "lf_row_start t i = length (concat (map (\<lambda>r. r @ [10]) (take i (lf_rows t))))"

lemma lf_line_rows:
  assumes rl: "lf_cr_index rl" and cr: "13 \<notin> set t" and i: "i < line_count rl t"
  shows "strip_eol (rope_line rl t i) = lf_rows t ! i" "line_to_byte_idx rl t i = lf_row_start t i"
    "take (length (lf_rows t ! i) + 1) (drop (lf_row_start t i) t) = lf_rows t ! i @ [10]"
proof -
  let ?join = "\<lambda>rs. concat (map (\<lambda>r. r @ [10]) rs)"
  have i': "i < length (butlast (lf_rows t))" using i lf_line_count_rows[OF rl cr] by simp
  define x y where "x = ?join (take i (butlast (lf_rows t)))" and "y = ?join (drop (Suc i) (butlast (lf_rows t))) @ last (lf_rows t)"
  have "butlast (lf_rows t) = take i (butlast (lf_rows t)) @ (lf_rows t ! i) # drop (Suc i) (butlast (lf_rows t))"
    using id_take_nth_drop[OF i'] nth_butlast[OF i'] by simp
  then have t: "t = x @ (lf_rows t ! i @ [10]) @ y"
    unfolding x_def y_def using lf_rows_join[of t]
    by (metis (no_types, lifting) append.assoc concat.simps(2) concat_append list.simps(9) map_append)
  have lfs: "length (filter (\<lambda>c. c = 10) (?join rs)) = length rs" if "set rs \<subseteq> set (lf_rows t)" for rs
    using that lf_rows_no_lf[of _ t] by (induction rs) (auto simp: filter_empty_conv)
  have xs: "x = [] \<or> last x = 10" unfolding x_def by (cases "take i (butlast (lf_rows t))" rule: rev_cases) auto
  have sub: "set (take i (butlast (lf_rows t))) \<subseteq> set (lf_rows t)" by (meson in_set_butlastD in_set_takeD subsetI)
  then have n: "length (filter (\<lambda>c. c = 10) x) = i" using lfs[OF sub] i' by (simp add: x_def)
  have row: "lf_rows t ! i \<in> set (lf_rows t)" using i' by simp
  then have n': "length (filter (\<lambda>c. c = 10) (x @ lf_rows t ! i @ [10])) = i + 1"
    using n lf_rows_no_lf[of "lf_rows t ! i" t] by (auto simp: filter_empty_conv)
  have "take i (lf_rows t) = take i (butlast (lf_rows t))" using i' by (simp add: take_butlast)
  then have rs: "lf_row_start t i = length x" by (simp add: lf_row_start_def x_def)
  have start: "line_to_byte_idx rl t i = length x" using lf_line_start[OF rl, of x "(lf_rows t ! i @ [10]) @ y"] t cr xs n by metis
  then show "line_to_byte_idx rl t i = lf_row_start t i" by (simp add: rs)
  show "take (length (lf_rows t ! i) + 1) (drop (lf_row_start t i) t) = lf_rows t ! i @ [10]"
    unfolding rs by (subst (2) t) simp
  have "line_to_byte_idx rl t (i + 1) = length (x @ lf_rows t ! i @ [10])"
    using lf_line_start[OF rl, of "x @ lf_rows t ! i @ [10]" y] t cr n' by (metis append.assoc last_appendR last_snoc snoc_eq_iff_butlast)
  then have "rope_line rl t i = lf_rows t ! i @ [10]"
    unfolding rope_line_def using start by (subst (3) t) simp
  moreover have "13 \<notin> set (lf_rows t ! i)" using cr by (subst (asm) t) auto
  then have "\<not> (lf_rows t ! i \<noteq> [] \<and> last (lf_rows t ! i) = 13)" using last_in_set by fastforce
  ultimately show "strip_eol (rope_line rl t i) = lf_rows t ! i" by (auto simp: strip_eol_def Let_def)
qed

section \<open>Columns resolve exactly\<close>

text \<open>A column on a character of the line, or past its end.\<close>

definition sound_col :: "position_encoding \<Rightarrow> byte list \<Rightarrow> nat \<Rightarrow> bool" where
  "sound_col enc line c \<longleftrightarrow> units enc line < c \<or> (\<exists>q \<le> length line. is_char_boundary line q \<and> units enc (take q line) = c)"

lemma spec_column_past: "units enc line < c \<Longrightarrow> spec_column enc line c = length line"
proof -
  assume c: "units enc line < c"
  have "units enc (take q line) \<le> units enc line" for q
    by (metis append_take_drop_id le_add1 units_append)
  with c have "filter (\<lambda>q. is_char_boundary line q \<and> c \<le> units enc (take q line)) [0..<Suc (length line)] = []"
    by (auto simp: filter_empty_conv dest: order.strict_trans2 simp del: upt_Suc)
  then show ?thesis by (simp add: spec_column_def del: upt_Suc)
qed

lemma boundary_Suc [simp]: "is_char_boundary (x # xs) (Suc q) = is_char_boundary xs q"
  by (simp add: is_char_boundary_def)

lemma boundary_0: "is_char_boundary xs 0 \<longleftrightarrow> xs = [] \<or> \<not> is_cont (hd xs)"
  by (cases xs) (simp_all add: is_char_boundary_def)

definition boundaries :: "byte list \<Rightarrow> nat list" where
  "boundaries line = filter (is_char_boundary line) [0..<Suc (length line)]"

lemma boundaries_Nil [simp]: "boundaries [] = [0]"
  by (simp add: boundaries_def is_char_boundary_def)

lemma boundaries_Cons [simp]:
  "boundaries (x # xs) = (if is_cont x then [] else [0]) @ map Suc (boundaries xs)"
proof -
  have "[0..<Suc (length (x # xs))] = 0 # map Suc [0..<Suc (length xs)]"
    by (simp add: map_Suc_upt upt_conv_Cons del: upt_Suc)
  then show ?thesis unfolding boundaries_def
    by (simp add: filter_map comp_def boundary_0 del: upt_Suc list.size)
qed

lemma col_bounds_boundaries:
  "col_bounds u c b line = map (\<lambda>q. (u + units Utf16 (take q line), c + units Utf32 (take q line), b + q)) (boundaries line)"
  by (induction line arbitrary: u c b) (auto simp: units_def utf16_len_def char_count_def lead_utf16_def)

lemma boundaries_split:
  assumes "is_char_boundary line q" "q \<le> length line"
  obtains r where "boundaries line = filter (is_char_boundary line) [0..<q] @ q # r"
proof -
  have "[0..<Suc (length line)] = [0..<q] @ q # [Suc q..<Suc (length line)]"
    using assms(2) upt_add_eq_append[of 0 q "Suc (length line) - q"] by (simp add: upt_conv_Cons del: upt_Suc)
  then show thesis using that assms(1) by (simp add: boundaries_def del: upt_Suc)
qed

lemma partition_boundaries:
  fixes line c enc
  defines "idx \<equiv> col_partition_point (\<lambda>q. units enc (take q line) < c) (boundaries line)"
  shows "is_char_boundary line q \<Longrightarrow> q \<le> length line \<Longrightarrow> units enc (take q line) = c \<Longrightarrow>
      idx < length (boundaries line) \<and> boundaries line ! idx = q"
    and "units enc line < c \<Longrightarrow> \<not> idx < length (boundaries line)"
proof -
  assume q: "is_char_boundary line q" "q \<le> length line" "units enc (take q line) = c"
  obtain r where r: "boundaries line = filter (is_char_boundary line) [0..<q] @ q # r"
    using boundaries_split[OF q(1,2)] .
  have "\<forall>x \<in> set (filter (is_char_boundary line) [0..<q]). units enc (take x line) < c"
    using units_take_less[of _ q line enc] q(2,3) by auto
  then have "takeWhile (\<lambda>x. units enc (take x line) < c) (boundaries line) = filter (is_char_boundary line) [0..<q]"
    unfolding r using q(3) by (subst takeWhile_append2) auto
  then show "idx < length (boundaries line) \<and> boundaries line ! idx = q"
    unfolding idx_def col_partition_point_def by (simp add: r nth_append)
next
  assume c: "units enc line < c"
  have "units enc (take q line) \<le> units enc line" for q
    by (metis append_take_drop_id le_add1 units_append)
  then have all: "takeWhile (\<lambda>x. units enc (take x line) < c) (boundaries line) = boundaries line"
    using c by (auto simp: takeWhile_eq_all_conv intro: order.strict_trans1)
  show "\<not> idx < length (boundaries line)" unfolding idx_def col_partition_point_def all by simp
qed

lemma col_partition_point_map: "col_partition_point P (map f xs) = col_partition_point (\<lambda>x. P (f x)) xs"
  by (simp add: col_partition_point_def takeWhile_map comp_def)

lemma floor_boundary: "is_char_boundary t p \<Longrightarrow> floor_char_boundary t p = p"
  by (simp add: floor_char_boundary_def)

lemma ascii_units: "list_all (\<lambda>x. x < 0x80) line \<Longrightarrow> units enc line = length line"
proof (induction line)
  case (Cons x xs)
  then have "\<not> is_cont x" "\<not> 0xF0 \<le> x" by (auto simp: is_cont_def word_le_nat_alt word_less_nat_alt)
  with Cons show ?case by (cases enc) (auto simp: units_def utf16_len_def char_count_def lead_utf16_def)
qed (cases enc; simp add: units_def utf16_len_def char_count_def)

lemma line_cols_exact:
  assumes "sound_col enc line c"
  shows "line_cols_byte enc line c = spec_column enc line c"
proof (cases "list_all (\<lambda>x. x < 0x80) line")
  case True
  then have "units enc (take q line) = length (take q line)" for q
    by (intro ascii_units) (meson list_all_iff in_set_takeD)
  moreover have "units enc line = length line" by (rule ascii_units[OF True])
  ultimately show ?thesis using True assms spec_column_units[of line _ enc] spec_column_past[of enc line c]
    by (auto simp: sound_col_def line_cols_byte_def)
next
  case wide: False
  consider (past) "units enc line < c"
    | (at) q where "q \<le> length line" "is_char_boundary line q" "units enc (take q line) = c"
    using assms by (auto simp: sound_col_def)
  then show ?thesis
  proof cases
    case past
    show ?thesis unfolding spec_column_past[OF past] using wide past partition_boundaries(2)[OF past]
      by (cases enc) (auto simp: line_cols_byte_def Let_def col_bounds_boundaries col_partition_point_map byte_col_def
        floor_boundary units_def[of Utf8])
  next
    case at
    have s: "spec_column enc line c = q" using spec_column_units[OF at(2,1), of enc] at(3) by simp
    show ?thesis unfolding s using wide at partition_boundaries(1)[OF at(2,1,3)]
      by (cases enc) (auto simp: line_cols_byte_def Let_def col_bounds_boundaries col_partition_point_map byte_col_def
        floor_boundary units_def[of Utf8])
  qed
qed

text \<open>The walk of the single conversion agrees.\<close>

lemma utf16_walk_exact:
  "is_char_boundary line q \<Longrightarrow> q \<le> length line \<Longrightarrow> utf16_walk (acc + utf16_len (take q line)) acc i line = i + q"
proof (induction line arbitrary: acc i q)
  case (Cons x xs)
  show ?case
  proof (cases q)
    case 0
    then show ?thesis using Cons.prems by (simp add: boundary_0 utf16_len_def)
  next
    case (Suc q')
    then show ?thesis using Cons.IH[of q' "acc + lead_utf16 x" "i + 1"] Cons.prems
      by (auto simp: utf16_len_def lead_utf16_def add.assoc)
  qed
qed (simp add: utf16_len_def)

section \<open>Positions resolve exactly\<close>

lemma lf_rows_split:
  "r < length (lf_rows t) \<Longrightarrow> \<exists>y. t = concat (map (\<lambda>r. r @ [10]) (take r (lf_rows t))) @ lf_rows t ! r @ y \<and> (y = [] \<or> hd y = 10)"
proof (induction t arbitrary: r)
  case (Cons c t)
  obtain p ps where ps: "lf_rows t = p # ps" by (cases "lf_rows t") auto
  show ?case
  proof (cases r)
    case 0
    obtain y where "t = p @ y" "y = [] \<or> hd y = 10" using Cons.IH[of 0] ps by auto
    then show ?thesis using 0 ps by auto
  next
    case (Suc r')
    show ?thesis
    proof (cases "c = 10")
      case True
      then show ?thesis using Cons.IH[of r'] Cons.prems Suc by auto
    next
      case False
      then show ?thesis using Cons.IH[of r] Cons.prems Suc ps by auto
    qed
  qed
qed simp

lemma lf_rows_at:
  assumes "r < length (lf_rows t)"
  obtains y where "drop (lf_row_start t r) t = lf_rows t ! r @ y" "y = [] \<or> hd y = 10" "lf_row_start t r \<le> length t"
    "take (lf_row_start t r) t = concat (map (\<lambda>r. r @ [10]) (take r (lf_rows t)))"
proof -
  from lf_rows_split[OF assms] obtain y where
    y: "t = concat (map (\<lambda>r. r @ [10]) (take r (lf_rows t))) @ lf_rows t ! r @ y" "y = [] \<or> hd y = 10" by blast
  let ?x = "concat (map (\<lambda>r. r @ [10]) (take r (lf_rows t)))"
  have "drop (length ?x) (?x @ lf_rows t ! r @ y) = lf_rows t ! r @ y" "take (length ?x) (?x @ lf_rows t ! r @ y) = ?x" by simp_all
  then have "drop (lf_row_start t r) t = lf_rows t ! r @ y" "take (lf_row_start t r) t = ?x"
    unfolding lf_row_start_def y(1)[symmetric] by auto
  moreover have "lf_row_start t r \<le> length t" unfolding lf_row_start_def using y(1) by (metis le_add1 length_append)
  ultimately show thesis using that y(2) by blast
qed

lemma lf_breaks_rows:
  assumes cr: "13 \<notin> set t" and r: "r < length (lf_rows t)"
  shows "(0 # breaks t (length t)) ! r = lf_row_start t r"
proof -
  obtain y where y: "drop (lf_row_start t r) t = lf_rows t ! r @ y" "lf_row_start t r \<le> length t"
    "take (lf_row_start t r) t = concat (map (\<lambda>r. r @ [10]) (take r (lf_rows t)))" by (rule lf_rows_at[OF r])
  let ?x = "take (lf_row_start t r) t"
  have "set (take r (lf_rows t)) \<subseteq> set (lf_rows t)" by (meson in_set_takeD subsetI)
  then have "length (filter (\<lambda>c. c = 10) (concat (map (\<lambda>r. r @ [10]) rs))) = length rs" if "set rs \<subseteq> set (lf_rows t)" for rs
    using that lf_rows_no_lf[of _ t] by (induction rs) (auto simp: filter_empty_conv)
  then have n: "length (filter (\<lambda>c. c = 10) ?x) = r" unfolding y(3) using r \<open>set (take r (lf_rows t)) \<subseteq> _\<close> by simp
  have "?x = [] \<or> last ?x = 10" unfolding y(3) by (cases "take r (lf_rows t)" rule: rev_cases) auto
  then have "line_to_byte_idx lf_cr t r = length ?x"
    using lf_line_start[OF lf_cr_index_lf_cr, of ?x "drop (lf_row_start t r) t"] cr n by simp
  then show ?thesis using y(2) by (simp add: lf_cr_def)
qed

lemma spec_offset_rows:
  assumes cr: "13 \<notin> set t"
  shows "spec_offset enc t p = (if length (lf_rows t) \<le> pline p then length t
    else lf_row_start t (pline p) + spec_column enc (lf_rows t ! pline p) (pchar p))"
proof -
  have n: "length (breaks t (length t)) = length (lf_rows t) - 1" "lf_rows t \<noteq> []"
    using lf_row_of_breaks[OF cr order_refl] lf_rows_length[of t] by auto
  show ?thesis
  proof (cases "pline p < length (lf_rows t)")
    case True
    obtain y where y: "drop (lf_row_start t (pline p)) t = lf_rows t ! pline p @ y" "y = [] \<or> hd y = 10"
      by (rule lf_rows_at[OF True])
    have "10 \<notin> set (lf_rows t ! pline p)" using lf_rows_no_lf[of "lf_rows t ! pline p" t] True by simp
    moreover have "13 \<notin> set (lf_rows t ! pline p)" using cr y(1) in_set_dropD[of 13 "lf_row_start t (pline p)" t] by force
    ultimately have all: "\<And>x. x \<in> set (lf_rows t ! pline p) \<Longrightarrow> x \<noteq> 10 \<and> x \<noteq> 13" by auto
    have "spec_line t (lf_row_start t (pline p)) = lf_rows t ! pline p"
      unfolding spec_line_def y(1) by (subst takeWhile_append2[OF all]) (use y(2) in \<open>cases y; auto\<close>)+
    moreover have "\<not> length (lf_rows t) - 1 < pline p" using True by linarith
    ultimately show ?thesis using True n lf_breaks_rows[OF cr True] by (simp add: spec_offset_def)
  next
    case False
    moreover have "0 < length (lf_rows t)" using n(2) by simp
    ultimately have "length (lf_rows t) - 1 < pline p" by linarith
    with False show ?thesis using n by (simp add: spec_offset_def)
  qed
qed

text \<open>A position that is past the document or on a sound column of its line.\<close>

definition sound_pos :: "position_encoding \<Rightarrow> byte list \<Rightarrow> lsp_position \<Rightarrow> bool" where
  "sound_pos enc d p \<longleftrightarrow> length (lf_rows d) \<le> pline p \<or> sound_col enc (lf_rows d ! pline p) (pchar p)"

lemma lf_rows_newline: "ends_with_newline t \<Longrightarrow> lf_rows t = lf_rows (butlast t) @ [[]]"
proof -
  have "lf_rows (d @ [10]) = lf_rows d @ [[]]" for d :: "byte list"
  proof (induction d)
    case (Cons c d)
    obtain p ps where "lf_rows d = p # ps" by (cases "lf_rows d") auto
    with Cons show ?case by auto
  qed simp
  from this[of "butlast t"] show "ends_with_newline t \<Longrightarrow> ?thesis"
    by (metis append_butlast_last_id ends_with_newline_def)
qed

lemma resolve_exact:
  assumes rl: "lf_cr_index rl" and cr: "13 \<notin> set (btext (lb_buf b))" and nl: "ends_with_newline (btext (lb_buf b))"
    and s: "sound_pos enc (document_bytes b) p"
  shows "resolve_pos rl b enc p = spec_offset enc (document_bytes b) p"
proof -
  let ?t = "btext (lb_buf b)" and ?d = "document_bytes b"
  have rt: "lf_rows ?t = lf_rows (butlast ?t) @ [[]]" by (rule lf_rows_newline[OF nl])
  have lc: "line_count rl ?t = length (lf_rows ?t) - 1" by (rule lf_line_count_rows[OF rl cr])
  have crd: "13 \<notin> set ?d" using cr by (auto simp: document_bytes_def dest: in_set_butlastD)
  have len: "lsp_document_len b = length ?d" by (simp add: lsp_document_len_def document_bytes_def)
  have last_row: "line_count rl ?t - (if lb_endofline b then 0 else 1) = length (lf_rows ?d) - 1"
    unfolding lc by (subst (1) rt) (simp add: document_bytes_def rt)
  have ne: "0 < length (lf_rows ?d)" by (simp add: lf_rows_length)
  show ?thesis
  proof (cases "pline p < length (lf_rows ?d)")
    case False
    then have "length (lf_rows ?d) - 1 < pline p" using ne by linarith
    with False show ?thesis using last_row by (simp add: resolve_pos_def Let_def spec_offset_rows[OF crd] len)
  next
    case in_doc: True
    have same: "lf_rows ?d ! pline p = lf_rows ?t ! pline p" "lf_row_start ?d (pline p) = lf_row_start ?t (pline p)"
      using in_doc rt by (auto simp: document_bytes_def nth_append lf_row_start_def split: if_splits)
    have "line_to_byte_idx rl ?t (pline p) = lf_row_start ?t (pline p) \<and> line_bytes rl ?t (pline p) = lf_rows ?t ! pline p"
    proof (cases "pline p < line_count rl ?t")
      case True
      then show ?thesis using lf_line_rows(1,2)[OF rl cr True] by (simp add: line_bytes_def)
    next
      case False
      have "length (lf_rows ?d) \<le> length (lf_rows ?t)" by (subst rt) (simp add: document_bytes_def rt)
      with False in_doc lc have r: "pline p = line_count rl ?t" by linarith
      have "lf_row_of ?t (length ?t) = line_count rl ?t" using lc by (simp add: lf_rows_length)
      then have "length (breaks ?t (length ?t)) = line_count rl ?t" using lf_row_of_breaks[OF cr order_refl] by simp
      then have "line_to_byte_idx rl ?t (pline p) = last (0 # breaks ?t (length ?t))"
        using rl r by (metis lf_cr_index_def order_refl)
      also have "\<dots> = (0 # breaks ?t (length ?t)) ! pline p"
        using r \<open>length (breaks ?t _) = _\<close> last_conv_nth[of "0 # breaks ?t (length ?t)"] by (simp del: last.simps)
      also have "\<dots> = lf_row_start ?t (pline p)" using r lc rt by (intro lf_breaks_rows[OF cr]) simp
      finally have "line_to_byte_idx rl ?t (pline p) = lf_row_start ?t (pline p)" .
      moreover have "lf_rows ?t ! pline p = []" using r lc by (subst rt) (simp add: rt nth_append)
      ultimately show ?thesis using r by (simp add: line_bytes_def)
    qed
    moreover have "\<not> length (lf_rows ?d) - 1 < pline p" using in_doc by linarith
    ultimately show ?thesis using in_doc ne last_row s same line_cols_exact[of enc "lf_rows ?d ! pline p" "pchar p"]
      by (simp add: resolve_pos_def Let_def spec_offset_rows[OF crd] sound_pos_def)
  qed
qed

lemma spec_offset_place:
  assumes cr: "13 \<notin> set t" and s: "sound_pos enc t p"
  shows "is_char_boundary t (spec_offset enc t p)"
proof (cases "length (lf_rows t) \<le> pline p")
  case True
  then show ?thesis by (simp add: spec_offset_rows[OF cr])
next
  case False
  let ?r = "lf_rows t ! pline p" and ?st = "lf_row_start t (pline p)"
  obtain y where y: "drop ?st t = ?r @ y" "y = [] \<or> hd y = 10" "?st \<le> length t"
    using lf_rows_at[of "pline p" t] False by auto
  have "sound_col enc ?r (pchar p)" using s False by (simp add: sound_pos_def)
  then obtain q where q: "spec_column enc ?r (pchar p) = q" "is_char_boundary ?r q" "q \<le> length ?r"
    unfolding sound_col_def using spec_column_past[of enc ?r "pchar p"] spec_column_units[of ?r _ enc]
    by (metis is_char_boundary_length order_refl)
  have len: "length t = ?st + length ?r + length y" using y(1,3) by (metis add.assoc length_append length_drop le_add_diff_inverse)
  have "t ! (?st + q) = (?r @ y) ! q" if "?st + q < length t" using that y(1,3) by (metis nth_drop)
  then have "is_char_boundary t (?st + q)"
    using q len y(2) by (cases y) (auto simp: is_char_boundary_def nth_append is_cont_def)
  then show ?thesis using False q(1) by (simp add: spec_offset_rows[OF cr])
qed

section \<open>A batch\<close>

text \<open>What the protocol makes of edits: their ranges address the one document they were made for, and are
  all replaced at once. Ordered: no two overlap, insertions at one place come in their order.\<close>

fun weave :: "byte list \<Rightarrow> nat \<Rightarrow> byte_edit list \<Rightarrow> byte list" where
  "weave d p [] = drop p d"
| "weave d p (((a, b), u) # es) = take (a - p) (drop p d) @ u @ weave d b es"

fun in_order :: "nat \<Rightarrow> byte_edit list \<Rightarrow> bool" where
  "in_order p [] \<longleftrightarrow> True"
| "in_order p (((a, b), u) # es) \<longleftrightarrow> p \<le> a \<and> a \<le> b \<and> in_order b es"

definition by_start :: "byte_edit list \<Rightarrow> byte_edit list" where
  "by_start = sort_key (\<lambda>e. fst (fst e))"

definition text_edit :: "byte_edit \<Rightarrow> byte list \<Rightarrow> byte list" where
  "text_edit e t = take (fst (fst e)) t @ snd e @ drop (snd (fst e)) t"

lemma in_order_last: "in_order p (es @ [((a, b), u)]) \<Longrightarrow> p \<le> a \<and> a \<le> b \<and> (\<forall>e \<in> set es. snd (fst e) \<le> a)"
  by (induction p es rule: in_order.induct) (auto intro: order.trans)

lemma in_order_prefix: "in_order p (xs @ ys) \<Longrightarrow> in_order p xs"
  by (induction p xs rule: in_order.induct) auto

lemma in_order_snoc:
  "in_order p xs \<Longrightarrow> \<forall>e \<in> set xs. snd (fst e) \<le> a \<Longrightarrow> p \<le> a \<Longrightarrow> a \<le> b \<Longrightarrow> in_order p (xs @ [((a, b), u)])"
  by (induction p xs rule: in_order.induct) auto

lemma in_order_ends: "in_order p es \<Longrightarrow> e \<in> set es \<Longrightarrow> p \<le> fst (fst e) \<and> fst (fst e) \<le> snd (fst e)"
  by (induction p es rule: in_order.induct) (auto intro: order.trans)

lemma apply_weave:
  "in_order p es \<Longrightarrow> \<forall>e \<in> set es. snd (fst e) \<le> length t \<Longrightarrow> p \<le> length t \<Longrightarrow>
   foldr text_edit es t = take p t @ weave t p es"
proof (induction p es rule: in_order.induct)
  case (2 p a b u es)
  have "take p t @ take (a - p) (drop p t) = take a t" using 2(2) by (metis in_order.simps(2) le_add_diff_inverse take_add)
  then show ?case using 2 by (simp add: text_edit_def)
qed simp

text \<open>The order of application is that of the starts, equal starts in the batch's order, from the end.\<close>

lemma map_sort_key: "map f (sort_key (\<lambda>x. g (f x)) xs) = sort_key g (map f xs)"
proof (induction xs)
  case (Cons x xs)
  have "map f (insort_key (\<lambda>x. g (f x)) x ys) = insort_key g (f x) (map f ys)" for ys
    by (induction ys) auto
  with Cons show ?case by simp
qed simp

lemma stable_by_index:
  "sort_key (\<lambda>(i, e). (f e, i)) (enumerate n xs) = sort_key (\<lambda>(i, e). f e :: 'b::linorder) (enumerate n xs)"
proof (rule sym, rule properties_for_sort_key)
  let ?g = "\<lambda>(i :: nat, e). (f e, i)" and ?xs = "enumerate n xs"
  show "mset (sort_key ?g ?xs) = mset ?xs" by simp
  show "sorted (map (\<lambda>(i, e). f e) (sort_key ?g ?xs))"
  proof -
    have "sorted (map ?g (sort_key ?g ?xs))" by simp
    then have "sorted (map fst (map ?g (sort_key ?g ?xs)))"
      unfolding sorted_wrt_map by (rule sorted_wrt_mono_rel[rotated]) (auto simp: less_eq_prod_def)
    then show ?thesis by (simp add: comp_def case_prod_unfold)
  qed
  fix k assume "k \<in> set (sort_key ?g ?xs)"
  let ?P = "\<lambda>x. (\<lambda>(i, e). f e) k = (\<lambda>(i, e). f e) x"
  have "sorted (map fst (filter ?P ?xs))" by (intro sorted_filter) (simp add: enumerate_eq_zip)
  then have "sorted (map ?g (filter ?P ?xs))"
    by (auto simp: sorted_wrt_map less_eq_prod_def case_prod_beta elim!: sorted_wrt_mono_rel[rotated] split: prod.splits)
  then show "filter ?P (sort_key ?g ?xs) = filter ?P ?xs"
    by (simp add: filter_sort sort_key_id_if_sorted)
qed

lemma sort_key_on:
  "\<forall>x \<in> set xs. f x = g x \<Longrightarrow> sort_key f xs = sort_key g xs"
proof (induction xs)
  case (Cons x xs)
  have "insort_key f x ys = insort_key g x ys" if "\<forall>y \<in> set ys. f y = g y" for ys
    using that Cons.prems by (induction ys) auto
  with Cons show ?case by simp
qed simp

definition indexed :: "byte_edit list \<Rightarrow> (nat \<times> byte_edit) list" where
  "indexed es = sort_key (\<lambda>(i, e). (fst (fst e), i)) (enumerate 0 es)"

lemma indexed_by_start: "map snd (indexed es) = by_start es"
  unfolding indexed_def by_start_def stable_by_index
  using map_sort_key[of snd "\<lambda>e. fst (fst e)" "enumerate 0 es"] by (simp add: case_prod_unfold)

lemma apply_order_by_start: "apply_order es = rev (by_start es)"
  by (simp add: apply_order_def rev_map flip: indexed_by_start indexed_def)

lemma set_by_start [simp]: "set (by_start es) = set es"
  by (simp add: by_start_def)

lemma indexed_mem: "(i, e) \<in> set (indexed es) \<longleftrightarrow> i < length es \<and> es ! i = e"
  by (auto simp: indexed_def in_set_enumerate_eq)

text \<open>Widening the last edit keeps the order.\<close>

lemma widen_last:
  assumes x: "indexed es = xs @ [(i, r, u)]"
  shows "by_start (es[i := ((fst r, n), u)]) = map snd xs @ [((fst r, n), u)]"
proof -
  let ?key = "\<lambda>(i, e :: byte_edit). (fst (fst e), i)" and ?f = "\<lambda>(j, e). if j = i then (i, (fst r, n), u) else (j, e)"
  have i: "i < length es" "es ! i = (r, u)" using x indexed_mem[of i "(r, u)" es] by auto
  have "enumerate 0 (es[i := ((fst r, n), u)]) = map ?f (enumerate 0 es)"
    using i by (auto simp: list_eq_iff_nth_eq nth_enumerate_eq nth_list_update)
  then have "indexed (es[i := ((fst r, n), u)]) = map ?f (sort_key (\<lambda>x. ?key (?f x)) (enumerate 0 es))"
    unfolding indexed_def by (simp add: map_sort_key)
  also have "sort_key (\<lambda>x. ?key (?f x)) (enumerate 0 es) = indexed es"
    unfolding indexed_def by (rule sort_key_on) (use i in \<open>auto simp: in_set_enumerate_eq split: if_splits\<close>)
  also have "map ?f (indexed es) = xs @ [(i, (fst r, n), u)]"
  proof -
    have "distinct (map fst (indexed es))"
    proof -
      have "mset (map fst (indexed es)) = mset (map fst (enumerate 0 es))"
        unfolding indexed_def mset_map mset_sort ..
      moreover have "distinct (map fst (enumerate 0 es))" by (simp add: enumerate_eq_zip)
      ultimately show ?thesis using mset_eq_imp_distinct_iff by blast
    qed
    then have fresh: "i \<notin> fst ` set xs" unfolding x by simp
    have "map ?f xs = xs"
    proof (rule map_idI)
      fix y assume "y \<in> set xs"
      then have "fst y \<noteq> i" using fresh by force
      then show "?f y = y" by (cases y) simp
    qed
    then show ?thesis unfolding x by simp
  qed
  finally have "indexed (es[i := ((fst r, n), u)]) = xs @ [(i, (fst r, n), u)]" .
  then show ?thesis by (simp flip: indexed_by_start)
qed

text \<open>The tail edit is the last one, if it reaches the end of the document.\<close>

lemma tail_is_last:
  assumes x: "indexed es = xs @ [(i, r, u)]" and o: "in_order 0 (by_start es)"
  shows "max_by_key (\<lambda>(i, r, u). (snd r, fst r, i)) (filter (\<lambda>(i, r, u). n \<le> snd r) (enumerate 0 es)) =
    (if n \<le> snd r then Some (i, r, u) else None)"
proof -
  let ?key = "\<lambda>(i :: nat, r :: nat \<times> nat, u :: byte list). (snd r, fst r, i)" and ?l = "filter (\<lambda>(i, r, u). n \<le> snd r) (enumerate 0 es)"
  have bs: "by_start es = map snd xs @ [((fst r, snd r), u)]" using indexed_by_start[of es] x by simp
  have le: "snd (fst e) \<le> fst r" if "(j, e) \<in> set xs" for j e
    using in_order_last[of 0 "map snd xs" "fst r" "snd r" u] o that unfolding bs by force
  have r: "fst r \<le> snd r" using in_order_last[of 0 "map snd xs" "fst r" "snd r" u] o unfolding bs by blast
  have "set (indexed es) = set (enumerate 0 es)" by (simp add: indexed_def)
  then have set: "set ?l = {y. y \<in> insert (i, r, u) (set xs) \<and> n \<le> snd (fst (snd y))}" using x by auto
  show ?thesis
  proof (cases "n \<le> snd r")
    case False
    then have "set ?l = {}" unfolding set using le r by force
    then have "?l = []" by (simp only: set_empty)
    then show ?thesis using False by simp
  next
    case True
    have m: "(i, r, u) \<in> set ?l" unfolding set using True by simp
    then have "?l \<noteq> []" by (metis empty_iff list.set(1))
    then obtain y where y: "max_by_key ?key ?l = Some y" using max_by_key_None by blast
    obtain j s v where jsv: "y = (j, s, v)" by (cases y) auto
    have my: "y \<in> set ?l" "?key (i, r, u) \<le> ?key y"
      using max_by_key_Some[OF y] m by blast+
    have "(j, s, v) = (i, r, u)"
    proof (rule ccontr)
      assume ne: "(j, s, v) \<noteq> (i, r, u)"
      then have mx: "(j, s, v) \<in> set xs" using my(1) unfolding set jsv by auto
      have s: "fst s \<le> snd s" "snd s \<le> fst r"
        using le[OF mx] in_order_ends[OF o, of "(s, v)"] x indexed_mem[of j "(s, v)" es] mx by (auto simp: in_set_conv_nth)
      have "sorted (map (\<lambda>(i, e). (fst (fst e), i)) (indexed es))" by (simp add: indexed_def)
      then have "(fst s, j) \<le> (fst r, i)" using mx unfolding x by (force simp: sorted_append)
      with my(2) jsv s r have "s = r \<and> j = i" by (auto simp: less_eq_prod_def prod_eq_iff split: if_splits)
      moreover have "es ! j = (s, v)" using indexed_mem[of j "(s, v)" es] x mx by simp
      moreover have "es ! i = (r, u)" using indexed_mem[of i "(r, u)" es] x by simp
      ultimately show False using ne by auto
    qed
    then show ?thesis using y jsv True by simp
  qed
qed

section \<open>The text of the buffer\<close>

text \<open>Edits whose ends are on characters of the text, with texts that start with one.\<close>

definition edits_fit :: "byte list \<Rightarrow> byte_edit list \<Rightarrow> bool" where
  "edits_fit t es \<longleftrightarrow> (\<forall>e \<in> set es. is_char_boundary t (fst (fst e)) \<and> is_char_boundary t (snd (fst e)) \<and>
     is_char_boundary (snd e) 0)"

lemma boundary_append: "is_char_boundary (xs @ ys) (length xs) \<longleftrightarrow> is_char_boundary ys 0"
  by (auto simp: is_char_boundary_def nth_append)

lemma boundary_before: "p < length xs \<Longrightarrow> is_char_boundary (xs @ ys) p \<longleftrightarrow> is_char_boundary xs p"
  by (auto simp: is_char_boundary_def nth_append)

lemma weave_boundary:
  "in_order p es \<Longrightarrow> edits_fit t es \<Longrightarrow> is_char_boundary t p \<Longrightarrow> is_char_boundary (weave t p es) 0"
proof (induction p es rule: in_order.induct)
  case (1 p)
  then show ?case by (cases "p = length t") (auto simp: is_char_boundary_def)
next
  case (2 p a b u es)
  have "p \<le> a" "a \<le> length t" using 2 by (auto simp: edits_fit_def is_char_boundary_def)
  then consider "p < a" | "p = a" "u \<noteq> []" | "p = a" "u = []" by linarith
  then show ?case
  proof cases
    case 1
    then have "take (a - p) (drop p t) = t ! p # take (a - p - 1) (drop (Suc p) t)"
      using \<open>a \<le> length t\<close> by (metis Cons_nth_drop_Suc diff_is_0_eq less_le_trans linorder_not_le take_Cons')
    then show ?thesis using 2(4) 1 \<open>a \<le> length t\<close> by (simp add: is_char_boundary_def)
  next
    case 2
    then show ?thesis using "2.prems"(2) by (cases u) (auto simp: edits_fit_def is_char_boundary_def)
  next
    case 3
    then show ?thesis using 2 by (auto simp: edits_fit_def)
  qed
qed

lemma apply_byte_edit_text:
  assumes "a \<le> b" "is_char_boundary (btext bf) a" "is_char_boundary (btext bf) b"
  shows "btext (apply_byte_edit rl ((a, b), u) bf) = text_edit ((a, b), u) (btext bf)"
proof -
  have "a \<le> length (btext bf)" "b \<le> length (btext bf)" using assms by (auto simp: is_char_boundary_def)
  then show ?thesis using assms
    by (auto simp: apply_byte_edit_def Let_def floor_boundary text_edit_def btext_insert btext_remove)
qed

lemma apply_fold_text:
  assumes "in_order p es" "edits_fit (btext bf) es"
  shows "btext (foldr (apply_byte_edit rl) es bf) = foldr text_edit es (btext bf)"
  using assms
proof (induction p es rule: in_order.induct)
  case (2 p a b u es)
  let ?t = "btext bf" and ?bf = "foldr (apply_byte_edit rl) es bf"
  have fit: "is_char_boundary ?t a" "is_char_boundary ?t b" "edits_fit ?t es" and o: "a \<le> b" "in_order b es"
    using 2 by (auto simp: edits_fit_def)
  have bl: "b \<le> length ?t" using fit(2) by (simp add: is_char_boundary_def)
  have ends: "\<forall>e \<in> set es. snd (fst e) \<le> length ?t" using fit(3) by (auto simp: edits_fit_def is_char_boundary_def)
  have t: "btext ?bf = take b ?t @ weave ?t b es"
    using 2 fit o apply_weave[OF o(2) ends bl] by simp
  have "is_char_boundary (btext ?bf) b"
    unfolding t using weave_boundary[OF o(2) fit(3,2)] boundary_append[of "take b ?t"] bl by (simp add: min_absorb2)
  moreover have "is_char_boundary (btext ?bf) a"
  proof (cases "a = b")
    case False
    then show ?thesis unfolding t using o(1) bl fit(1) by (subst boundary_before) (auto simp: is_char_boundary_def)
  qed (use calculation in simp)
  ultimately show ?case using apply_byte_edit_text[OF o(1), of ?bf rl u] 2 fit o by simp
qed simp

lemma apply_edits_text:
  assumes o: "in_order 0 (by_start es)" and fit: "edits_fit (btext bf) es" and ne: "es \<noteq> []"
  shows "btext (apply_edits_to rl es bf) = nl (weave (btext bf) 0 (by_start es))"
proof -
  have fit': "edits_fit (btext bf) (by_start es)" using fit by (simp add: edits_fit_def)
  then have ends: "\<forall>e \<in> set (by_start es). snd (fst e) \<le> length (btext bf)"
    by (auto simp: edits_fit_def is_char_boundary_def)
  have "foldl (\<lambda>bf e. apply_byte_edit rl e bf) bf (apply_order es) = foldr (apply_byte_edit rl) (by_start es) bf"
    by (simp add: apply_order_by_start foldr_conv_foldl)
  then show ?thesis
    using ne apply_fold_text[OF o fit', of rl] apply_weave[OF o ends]
    by (simp add: apply_edits_to_def btext_normalize)
qed

section \<open>The document afterwards\<close>

lemma weave_last_edit:
  "in_order p es \<Longrightarrow> \<forall>e \<in> set es. snd (fst e) \<le> a \<Longrightarrow> p \<le> a \<Longrightarrow> a \<le> length t \<Longrightarrow>
   weave t p (es @ [((a, length t), u)]) = weave (take a t) p es @ u"
proof (induction p es rule: in_order.induct)
  case (2 p x y v es)
  have "x \<le> a" using 2 by auto
  then have "take (x - p) (drop p (take a t)) = take (x - p) (drop p t)"
    by (simp add: drop_take min_def)
  with 2 show ?case by simp
qed (simp add: drop_take)

lemma weave_ends:
  "in_order p es \<Longrightarrow> \<forall>e \<in> set es. snd (fst e) < length t \<Longrightarrow> p < length t \<Longrightarrow>
   weave t p es \<noteq> [] \<and> last (weave t p es) = last t"
  by (induction p es rule: in_order.induct) (auto simp: last_append)

lemma weave_append:
  "in_order p es \<Longrightarrow> \<forall>e \<in> set es. snd (fst e) \<le> length d \<Longrightarrow> p \<le> length d \<Longrightarrow>
   weave (d @ x) p es = weave d p es @ x"
proof (induction p es rule: in_order.induct)
  case (2 p a b u es)
  then have "a \<le> length d" by auto
  with 2 show ?case by simp
qed simp

text \<open>The edits of a batch as byte ranges of the document, and the case in which the new document's last
  byte cannot be told from the tail edit alone.\<close>

definition spec_edits ::
  "position_encoding \<Rightarrow> byte list \<Rightarrow> ((lsp_position \<times> lsp_position) \<times> byte list) list \<Rightarrow> byte_edit list"
where
  "spec_edits enc d = map (\<lambda>(r, u). ((spec_offset enc d (fst r), spec_offset enc d (snd r)), u))"

fun tail_decides :: "byte list \<Rightarrow> byte_edit list \<Rightarrow> bool" where
  "tail_decides d (((a, b), u) # rest) \<longleftrightarrow> u \<noteq> [] \<or> b < length d \<or> list_all (\<lambda>e. snd (fst e) < a) rest"
| "tail_decides d [] \<longleftrightarrow> True"

lemma document_prefix: "ends_with_newline t \<Longrightarrow> lb_endofline b \<or> btext (lb_buf b) = document_bytes b @ [10]"
  if "t = btext (lb_buf b)"
  using that by (auto simp: document_bytes_def ends_with_newline_def) (metis append_butlast_last_id)

lemma document_boundary:
  assumes "ends_with_newline (btext (lb_buf b))" "is_char_boundary (document_bytes b) p"
  shows "is_char_boundary (btext (lb_buf b)) p"
proof (cases "lb_endofline b")
  case False
  then have "btext (lb_buf b) = document_bytes b @ [10]" using document_prefix[OF refl assms(1)] by simp
  then show ?thesis using assms(2) by (auto simp: is_char_boundary_def nth_append is_cont_def)
qed (use assms in \<open>simp add: document_bytes_def\<close>)

lemma document_of_nl:
  "e = ends_with_newline w \<Longrightarrow> btext (lb_buf b) = nl w \<Longrightarrow> lb_endofline b = e \<Longrightarrow> document_bytes b = w"
  by (auto simp: document_bytes_def nl_def ends_with_newline_def)

theorem server_edits_exact:
  assumes rl: "lf_cr_index rl" and cr: "13 \<notin> set (btext (lb_buf b))" and nlt: "ends_with_newline (btext (lb_buf b))"
    and sound: "\<forall>(r, u) \<in> set edits. sound_pos enc (document_bytes b) (fst r) \<and> sound_pos enc (document_bytes b) (snd r) \<and>
      is_char_boundary u 0"
    and o: "in_order 0 (by_start (spec_edits enc (document_bytes b) edits))"
    and tail: "tail_decides (document_bytes b) (rev (by_start (spec_edits enc (document_bytes b) edits)))"
  shows "document_bytes (apply_lsp_edits rl enc edits b) =
    weave (document_bytes b) 0 (by_start (spec_edits enc (document_bytes b) edits))"
proof (cases "edits = []")
  case True
  then show ?thesis by (simp add: apply_lsp_edits_def spec_edits_def by_start_def)
next
  case False
  let ?t = "btext (lb_buf b)" and ?d = "document_bytes b" and ?E = "spec_edits enc (document_bytes b) edits"
  have crd: "13 \<notin> set ?d" using cr by (auto simp: document_bytes_def dest: in_set_butlastD)
  have len: "lsp_document_len b = length ?d" by (simp add: lsp_document_len_def document_bytes_def)
  have le: "fst (fst e) \<le> snd (fst e)" if "e \<in> set ?E" for e using in_order_ends[OF o, of e] that by simp
  have fit: "edits_fit ?t ?E"
    using sound document_boundary[OF nlt] spec_offset_place[OF crd] by (fastforce simp: edits_fit_def spec_edits_def)
  have ends: "snd (fst e) \<le> length ?d" if "e \<in> set ?E" for e
    using that sound spec_offset_place[OF crd] by (fastforce simp: spec_edits_def is_char_boundary_def)
  have out: "map (\<lambda>(r, u). (lsp_range_to_bytes_in rl b enc r, u)) edits = ?E"
  proof -
    have "(lsp_range_to_bytes_in rl b enc r, u) = ((spec_offset enc ?d (fst r), spec_offset enc ?d (snd r)), u)"
      if "(r, u) \<in> set edits" for r u
    proof -
      have "((spec_offset enc ?d (fst r), spec_offset enc ?d (snd r)), u) \<in> set ?E" using that by (force simp: spec_edits_def)
      from le[OF this] show ?thesis using that sound resolve_exact[OF rl cr nlt]
        by (fastforce simp: lsp_range_to_bytes_in_def Let_def)
    qed
    then show ?thesis by (auto simp: spec_edits_def)
  qed
  have "?E \<noteq> []" using False by (simp add: spec_edits_def)
  then have "indexed ?E \<noteq> []" using indexed_by_start[of ?E] by (metis length_greater_0_conv length_map length_sort by_start_def)
  then obtain xs i a z u where x: "indexed ?E = xs @ [(i, (a, z), u)]" by (metis rev_exhaust surj_pair)
  let ?X = "map snd xs"
  have S: "by_start ?E = ?X @ [((a, z), u)]" using indexed_by_start[of ?E] x by simp
  have last: "\<forall>e \<in> set ?X. snd (fst e) \<le> a" "a \<le> z" "in_order 0 ?X"
    using in_order_last[of 0 ?X a z u] o S by (auto intro: in_order_prefix)
  have zd: "z \<le> length ?d" using ends[of "((a, z), u)"] S by (metis in_set_conv_decomp set_by_start fst_conv snd_conv)
  note conv = lsp_edits_to_byte_edits_def[of rl b enc edits, unfolded out Let_def len tail_is_last[OF x o]]
  have "?t = ?d \<or> ?t = ?d @ [10]" using document_prefix[OF refl nlt] by (auto simp: document_bytes_def)
  then have pre: "take a ?t = take a ?d" and td: "length ?d \<le> length ?t" using last(2) zd by auto
  show ?thesis
  proof (cases "length ?d \<le> z")
    case True
    then have z: "z = length ?d" using zd by simp
    let ?E' = "?E[i := ((a, length ?t), u)]" and ?new = "if u = [] then 0 < a \<and> ?t ! (a - 1) = 10 else last u = 10"
    have S': "by_start ?E' = ?X @ [((a, length ?t), u)]" using widen_last[OF x, of "length ?t"] by simp
    have al: "a \<le> length ?t" using last(2) zd td by linarith
    have "set ?E' \<subseteq> insert ((a, length ?t), u) (set ?E)" by (rule set_update_subset_insert)
    moreover have "is_char_boundary ?t a" "is_char_boundary u 0" using fit S by (auto simp: edits_fit_def simp flip: set_by_start[of ?E])
    ultimately have fit': "edits_fit ?t ?E'" using fit by (fastforce simp: edits_fit_def)
    have w: "weave ?d 0 (by_start ?E) = weave (take a ?d) 0 ?X @ u"
      unfolding S z using last zd z by (intro weave_last_edit) auto
    have tx: "btext (apply_edits_to rl ?E' (lb_buf b)) = nl (weave (take a ?d) 0 ?X @ u)"
    proof -
      have "in_order 0 (by_start ?E')" unfolding S' using last al by (intro in_order_snoc) auto
      moreover have "weave ?t 0 (by_start ?E') = weave (take a ?t) 0 ?X @ u"
        unfolding S' using last al by (intro weave_last_edit) auto
      ultimately show ?thesis using apply_edits_text[of ?E' "lb_buf b" rl] fit' \<open>?E \<noteq> []\<close> pre by simp
    qed
    have eol: "?new = ends_with_newline (weave (take a ?d) 0 ?X @ u)"
    proof (cases "u = []")
      case True
      have X: "\<forall>e \<in> set ?X. snd (fst e) < a" using tail True z unfolding S by (simp add: list_all_iff)
      show ?thesis
      proof (cases "a = 0")
        case True
        then have "?X = []" using X by (cases ?X) auto
        then show ?thesis using True \<open>u = []\<close> by (simp add: ends_with_newline_def)
      next
        case False
        have "last (take a ?t) = ?t ! (a - 1)" using False al by (cases a) (auto simp: take_Suc_conv_app_nth)
        then show ?thesis using weave_ends[OF last(3), of "take a ?d"] X False last(2) zd True pre
          by (simp add: ends_with_newline_def min_absorb2)
      qed
    qed (simp add: ends_with_newline_def)
    have "lsp_edits_to_byte_edits rl b enc edits = (?E', Some ?new)" using conv True by simp
    then have "apply_lsp_edits rl enc edits b =
        b\<lparr>lb_buf := apply_edits_to rl ?E' (lb_buf b), lb_endofline := ?new\<rparr>"
      using False by (simp add: apply_lsp_edits_def)
    then show ?thesis unfolding w using document_of_nl[OF eol, of "apply_lsp_edits rl enc edits b"] tx by simp
  next
    case short: False
    have "\<forall>e \<in> set (by_start ?E). snd (fst e) < length ?d" unfolding S using last(1,2) short by fastforce
    note lt = this
    have tx: "btext (apply_edits_to rl ?E (lb_buf b)) = nl (weave ?t 0 (by_start ?E))"
      by (rule apply_edits_text[OF o fit \<open>?E \<noteq> []\<close>])
    have "lsp_edits_to_byte_edits rl b enc edits = (?E, None)" using conv short by simp
    then have r: "apply_lsp_edits rl enc edits b = b\<lparr>lb_buf := apply_edits_to rl ?E (lb_buf b)\<rparr>"
      using False by (simp add: apply_lsp_edits_def)
    have "0 < length ?d" using short by linarith
    show ?thesis
    proof (cases "lb_endofline b")
      case True
      then have "?d = ?t" by (simp add: document_bytes_def)
      moreover have "ends_with_newline (weave ?t 0 (by_start ?E))"
        using weave_ends[OF o, of ?t] lt \<open>0 < length ?d\<close> nlt \<open>?d = ?t\<close> by (simp add: ends_with_newline_def)
      ultimately show ?thesis using r tx True by (simp add: document_bytes_def nl_def ends_with_newline_def)
    next
      case False
      then have "?t = ?d @ [10]" using document_prefix[OF refl nlt] by simp
      then have "weave ?t 0 (by_start ?E) = weave ?d 0 (by_start ?E) @ [10]"
        using weave_append[OF o, of ?d "[10]"] lt by (auto intro: less_imp_le)
      then show ?thesis using r tx False by (simp add: document_bytes_def nl_def)
    qed
  qed
qed

text \<open>A replacement and an insertion at the document's end, listed bottom-up, without a final newline; and
  an insertion and a deletion at one place of the end, after which \<open>'endofline'\<close> is wrong.\<close>

definition plain_buf :: "byte list \<Rightarrow> bool \<Rightarrow> lsp_buf" where
  "plain_buf t e = \<lparr>lb_buf = blank_buf t, lb_endofline = e, lb_save_tick = 0\<rparr>"

definition at_pos :: "nat \<Rightarrow> nat \<Rightarrow> lsp_position" where
  "at_pos l c = \<lparr>pline = l, pchar = c\<rparr>"

theorem server_edits_exact_witness:
  "document_bytes (apply_lsp_edits lf_cr Utf16
     [((at_pos 0 2, at_pos 0 2), [59]), ((at_pos 0 1, at_pos 0 2), [50])] (plain_buf [97, 49, 10] False)) = [97, 50, 59]"
proof -
  let ?b = "plain_buf [97, 49, 10] False" and ?es = "[((at_pos 0 2, at_pos 0 2), [59]), ((at_pos 0 1, at_pos 0 2), [50])] :: ((lsp_position \<times> lsp_position) \<times> byte list) list"
  have d: "document_bytes ?b = [97, 49]" by (simp add: document_bytes_def plain_buf_def blank_buf_def)
  have s: "sound_col Utf16 [97, 49] 1" "sound_col Utf16 [97, 49] 2"
    unfolding sound_col_def by (rule disjI2, rule exI[of _ 1], code_simp, rule disjI2, rule exI[of _ 2], code_simp)
  have S: "by_start (spec_edits Utf16 (document_bytes ?b) ?es) = [((1, 2), [50]), ((2, 2), [59])]" unfolding d by code_simp
  have "document_bytes (apply_lsp_edits lf_cr Utf16 ?es ?b) = weave [97, 49] 0 [((1, 2), [50]), ((2, 2), [59])]"
    using server_edits_exact[OF lf_cr_index_lf_cr, of ?b ?es Utf16, unfolded S] s
    by (simp add: d sound_pos_def at_pos_def boundary_0 is_cont_def) (simp add: plain_buf_def blank_buf_def ends_with_newline_def)
  then show ?thesis by (simp add: numeral_2_eq_2)
qed

lemma tail_deletion_keeps_newline:
  "document_bytes (apply_lsp_edits lf_cr Utf8
     [((at_pos 1 0, at_pos 1 0), [120]), ((at_pos 1 0, at_pos 2 0), [])] (plain_buf [97, 10, 98, 10] True)) = [97, 10, 120, 10]"
  "weave [97, 10, 98, 10] 0 (by_start (spec_edits Utf8 [97, 10, 98, 10]
     [((at_pos 1 0, at_pos 1 0), [120]), ((at_pos 1 0, at_pos 2 0), [])])) = [97, 10, 120]"
  by code_simp+

section \<open>The cursor\<close>

lemma breaks_same:
  "13 \<notin> set t \<Longrightarrow> 13 \<notin> set t' \<Longrightarrow> take p t' = take p t \<Longrightarrow> p \<le> length t \<Longrightarrow> p \<le> length t' \<Longrightarrow> breaks t' p = breaks t p"
proof (induction p)
  case (Suc p)
  have "take p t' = take p t" by (metis Suc.prems(3) Suc_leD Suc_leI lessI min.absorb1 take_take)
  moreover have "t' ! p = t ! p" using Suc.prems by (metis lessI nth_take)
  moreover have "t ! p \<noteq> 13" using Suc.prems nth_mem[of p t] by force
  ultimately have "is_break t' (Suc p) = is_break t (Suc p)" using Suc.prems(4,5) by (auto simp: is_break_def)
  then show ?case using Suc \<open>take p t' = _\<close> by simp
qed simp

lemma point_same:
  "lf_cr_index rl \<Longrightarrow> 13 \<notin> set t \<Longrightarrow> 13 \<notin> set t' \<Longrightarrow> take p t' = take p t \<Longrightarrow> p \<le> length t \<Longrightarrow> p \<le> length t' \<Longrightarrow>
   point_at rl t' p = point_at rl t p"
  using breaks_same[of t t' p] by (simp add: point_at_breaks)

lemma text_shape:
  "13 \<notin> set u \<Longrightarrow> length (breaks u (length u)) = length (filter (\<lambda>x. x = 10) u) \<and>
   length u - last (0 # breaks u (length u)) = length (takeWhile (\<lambda>x. x \<noteq> 10) (rev u))"
proof (induction u rule: rev_induct)
  case (snoc c u)
  have "breaks (u @ [c]) (length u) = breaks u (length u)" using snoc.prems by (intro breaks_same) auto
  moreover have "is_break (u @ [c]) (Suc (length u)) \<longleftrightarrow> c = 10" using snoc.prems by (auto simp: is_break_def nth_append)
  ultimately show ?case using snoc last_breaks_le[of u "length u"] by (auto simp: Suc_diff_le)
qed simp

lemma before_asym: "before q r \<Longrightarrow> \<not> before r q"
  by (auto simp: before_def)

lemma in_order_high: "in_order b es \<Longrightarrow> p < b \<Longrightarrow> e \<in> set es \<Longrightarrow> p < fst (fst e)"
  using in_order_ends[of b es e] by simp

text \<open>One step of the replay is the shift of a point by the edit.\<close>

lemma replay_is_shift:
  assumes A: "A = (s_row s, s_col s)" and B: "B = (e_row s, e_col s)"
    and shape: "new_lines s = Suc (length (breaks u (length u)))" "last_len s = length u - last (0 # breaks u (length u))"
    and o: "\<not> before Q B" "\<not> before B A"
  shows "Some (replay_cursor Q s) = shift_point Q A B (walk A u (length u))"
proof -
  have "\<not> before Q A" using o by (auto simp: before_def)
  then show ?thesis using o unfolding A B
    by (cases "breaks u (length u) = []"; cases Q)
      (auto simp: replay_cursor_def Let_def shift_point_def walk_def before_def shape)
qed

lemma replay_step:
  assumes rl: "lf_cr_index rl" and cr: "13 \<notin> set t" "13 \<notin> set tt" "13 \<notin> set u"
    and r: "a \<le> b" "b \<le> length t" "take b tt = take b t" "b \<le> length tt"
    and bd: "is_char_boundary t a" "is_char_boundary t b" and q: "q \<le> length tt" "q < a \<or> b \<le> q"
  shows "replay_cursor (point_at rl tt q) (cursor_step_of rl t ((a, b), u)) =
    point_at rl (take a tt @ u @ drop b tt) (if q < a then q else q - b + (a + length u))"
proof -
  let ?t' = "take a tt @ u @ drop b tt"
  have ta: "take a tt = take a t" using r by (metis min.absorb1 take_take)
  have pa: "point_at rl t a = point_at rl tt a" "point_at rl t b = point_at rl tt b"
    using point_same[OF rl cr(1,2), of a] point_same[OF rl cr(1,2), of b] r ta by simp_all
  have cr': "13 \<notin> set ?t'" using cr by (auto dest: in_set_takeD in_set_dropD)
  have "point_at rl ?t' a = point_at rl tt a"
    using point_same[OF rl cr(2) cr', of a] r by simp
  moreover have "point_at rl ?t' (a + length u) = walk (point_at rl ?t' a) (drop a ?t') (length u)"
    using point_suffix[OF rl, of a "a + length u" ?t'] r by simp
  moreover have "walk p (drop a ?t') (length u) = walk p u (length u)" for p
  proof -
    have "breaks (u @ drop b tt) (length u) = breaks u (length u)"
      using cr by (intro breaks_same) (auto dest: in_set_dropD)
    then show ?thesis using r by (simp add: walk_def)
  qed
  ultimately have ne: "point_at rl ?t' (a + length u) = walk (point_at rl tt a) u (length u)" by simp
  let ?s = "cursor_step_of rl t ((a, b), u)"
  have s: "(s_row ?s, s_col ?s) = point_at rl tt a" "(e_row ?s, e_col ?s) = point_at rl tt b"
    using bd r unfolding pa[symmetric]
    by (simp_all add: cursor_step_of_def Let_def floor_boundary min_absorb1 point_at_def)
  have shape: "new_lines ?s = Suc (length (breaks u (length u)))" "last_len ?s = length u - last (0 # breaks u (length u))"
    using text_shape[OF cr(3)] by (simp_all add: cursor_step_of_def Let_def)
  show ?thesis
  proof (cases "q < a")
    case True
    have "before (point_at rl tt q) (point_at rl tt b)"
      using point_suffix[OF rl, of q b tt] True r by (simp add: walk_after)
    then have "replay_cursor (point_at rl tt q) ?s = point_at rl tt q"
      unfolding s(2)[symmetric] by (cases "point_at rl tt q") (auto simp: replay_cursor_def Let_def before_def)
    moreover have "point_at rl ?t' q = point_at rl tt q"
    proof -
      have "take q ?t' = take q tt" "q \<le> length tt" "q \<le> length ?t'" using True r by auto
      then show ?thesis using point_same[OF rl cr(2) cr', of q] by simp
    qed
    ultimately show ?thesis using True by simp
  next
    case False
    with q(2) have bq: "b \<le> q" by simp
    have sh: "shift_point (point_at rl tt q) (point_at rl tt a) (point_at rl tt b) (walk (point_at rl tt a) u (length u)) =
        Some (point_at rl ?t' (q - b + (a + length u)))"
      using shift_point_follows[OF rl r(1,4) _ q(1) refl, of u] bq False ne by simp
    have "\<not> before (point_at rl tt q) (point_at rl tt b)"
      using point_suffix[OF rl bq q(1)] walk_shift by metis
    moreover have "\<not> before (point_at rl tt b) (point_at rl tt a)"
      using point_suffix[OF rl r(1,4)] walk_shift by metis
    ultimately have "Some (replay_cursor (point_at rl tt q) ?s) =
        shift_point (point_at rl tt q) (point_at rl tt a) (point_at rl tt b) (walk (point_at rl tt a) u (length u))"
      using s shape by (intro replay_is_shift) simp_all
    then show ?thesis using sh False by simp
  qed
qed

text \<open>The text before the cursor after the edits that end at or before it.\<close>

definition cursor_moved :: "nat \<Rightarrow> byte list \<Rightarrow> nat \<Rightarrow> byte_edit list \<Rightarrow> nat" where
  "cursor_moved q t p es = p + length (weave (take q t) p (filter (\<lambda>e. snd (fst e) \<le> q) es))"

lemma foldr_text_cr: "13 \<notin> set t \<Longrightarrow> \<forall>e \<in> set es. 13 \<notin> set (snd e) \<Longrightarrow> 13 \<notin> set (foldr text_edit es t)"
  by (induction es) (auto simp: text_edit_def dest: in_set_takeD in_set_dropD)

lemma replay_fold:
  assumes rl: "lf_cr_index rl" and cr: "13 \<notin> set t"
    and "in_order p es" "edits_fit t es" "\<forall>e \<in> set es. 13 \<notin> set (snd e)" "p \<le> length t"
    and q: "q \<le> length t" and "\<forall>e \<in> set es. q < fst (fst e) \<or> snd (fst e) \<le> q"
  defines "at \<equiv> \<lambda>p es. if q < p then q else cursor_moved q t p es"
  shows "foldr (\<lambda>e pos. replay_cursor pos (cursor_step_of rl t e)) es (point_at rl t q) = point_at rl (foldr text_edit es t) (at p es) \<and>
    at p es \<le> length (foldr text_edit es t) \<and> (p \<le> q \<longrightarrow> p \<le> at p es)"
  using assms(3-6,8)
proof (induction p es rule: in_order.induct)
  case (1 p)
  then show ?case using q by (auto simp: at_def cursor_moved_def)
next
  case (2 p a b u es)
  let ?T = "foldr text_edit es t"
  have o: "p \<le> a" "a \<le> b" "in_order b es" and fit: "is_char_boundary t a" "is_char_boundary t b" "edits_fit t es"
    using 2 by (auto simp: edits_fit_def)
  have bl: "b \<le> length t" using fit(2) by (simp add: is_char_boundary_def)
  have IH: "foldr (\<lambda>e pos. replay_cursor pos (cursor_step_of rl t e)) es (point_at rl t q) = point_at rl ?T (at b es)"
    "at b es \<le> length ?T" "b \<le> q \<longrightarrow> b \<le> at b es"
    using 2 o fit bl by auto
  have T: "?T = take b t @ weave t b es"
    using fit(3) bl by (intro apply_weave[OF o(3)]) (auto simp: edits_fit_def is_char_boundary_def)
  have crT: "13 \<notin> set ?T" "13 \<notin> set u" using foldr_text_cr[OF cr, of es] 2 by auto
  have here: "q < a \<or> b \<le> q" using 2 by auto
  have "at b es < a \<or> b \<le> at b es" and lt: "(at b es < a) = (q < a)"
    using here o(2) IH(3) by (auto simp: at_def)
  then have step: "replay_cursor (point_at rl ?T (at b es)) (cursor_step_of rl t ((a, b), u)) =
      point_at rl (take a ?T @ u @ drop b ?T) (if q < a then at b es else at b es - b + (a + length u))"
    using replay_step[OF rl cr crT o(2) bl _ _ fit(1,2) IH(2)] T bl lt by simp
  have none: "filter (\<lambda>e. snd (fst e) \<le> q) es = []" if "q < a"
    using in_order_ends[OF o(3)] that o(2) by (fastforce simp: filter_empty_conv)
  have at: "at p (((a, b), u) # es) = (if q < a then at b es else at b es - b + (a + length u))"
  proof (cases "q < a")
    case True
    then show ?thesis using none o q by (auto simp: at_def cursor_moved_def)
  next
    case False
    then have "b \<le> q" using here by simp
    then have "\<not> q - p \<le> a - p \<or> q = a" using o by linarith
    then show ?thesis using \<open>b \<le> q\<close> o q bl by (auto simp: at_def cursor_moved_def min_def)
  qed
  have te: "text_edit ((a, b), u) X = take a X @ u @ drop b X" for X by (simp add: text_edit_def)
  have at_low: "at b es = q" if "q < a" using that o(2) by (simp add: at_def)
  have "b \<le> length ?T" using T bl by simp
  then have "at p (((a, b), u) # es) \<le> length (text_edit ((a, b), u) ?T)"
    unfolding at te using IH(2,3) here o(2) at_low by auto
  moreover have "p \<le> q \<longrightarrow> p \<le> at p (((a, b), u) # es)" by (simp add: at_def cursor_moved_def)
  ultimately show ?case using IH(1) step at by (simp add: te)
qed

text \<open>The clamp of the cursor leaves a place in the text where it is.\<close>

lemma next_break:
  "m < length t \<Longrightarrow> is_break t (length t) \<Longrightarrow> \<exists>z. m < z \<and> z \<le> length t \<and> breaks t z = breaks t m @ [z]"
proof (induction "length t - m" arbitrary: m)
  case (Suc n)
  show ?case
  proof (cases "is_break t (Suc m)")
    case True
    then show ?thesis using Suc by (intro exI[of _ "Suc m"]) simp
  next
    case False
    then have "Suc m < length t" using Suc.prems by (cases "Suc m = length t") auto
    moreover have "n = length t - Suc m" using Suc.hyps(2) by linarith
    ultimately obtain z where "Suc m < z" "z \<le> length t" "breaks t z = breaks t (Suc m) @ [z]"
      using Suc.hyps(1)[of "Suc m"] Suc.hyps(2) Suc.prems(2) by (auto simp del: breaks_Suc)
    then show ?thesis using False by (intro exI[of _ z]) simp
  qed
qed simp

lemma strip_eol_lf: "13 \<notin> set x \<Longrightarrow> strip_eol (x @ [10]) = x"
proof -
  assume "13 \<notin> set x"
  then have "\<not> (x \<noteq> [] \<and> last x = 13)" by (metis last_in_set)
  then show ?thesis by (auto simp: strip_eol_def Let_def)
qed

lemma clamp_in_text:
  assumes rl: "lf_cr_index rl" and cr: "13 \<notin> set t" and nlt: "ends_with_newline t" and m: "m < length t"
    and p: "point_at rl t m = (row, col)"
  shows "row \<le> line_count rl t - 1" "col \<le> line_len rl t row" "line_to_byte_idx rl t row + col = m"
proof -
  have idx: "byte_to_line_idx rl t q = length (breaks t q)"
    "line_to_byte_idx rl t (length (breaks t q)) = last (0 # breaks t q)" if "q \<le> length t" for q
    using rl that by (auto simp: lf_cr_index_def)
  have rc: "row = length (breaks t m)" "col = m - last (0 # breaks t m)"
    using p point_at_breaks[OF rl, of m t] m by auto
  have "is_break t (length t)" using nlt m by (auto simp: is_break_def ends_with_newline_def last_conv_nth)
  from next_break[OF m this] obtain z where z: "m < z" "z \<le> length t" "breaks t z = breaks t m @ [z]" by blast
  have "length (breaks t z) \<le> length (breaks t (length t))"
    using breaks_mono[OF z(2), of t] by auto
  then have lc: "row + 1 \<le> line_count rl t" using z(3) idx(1)[of "length t"] by (simp add: line_count_def rc(1))
  then show "row \<le> line_count rl t - 1" by simp
  have starts: "line_to_byte_idx rl t row = last (0 # breaks t m)" "line_to_byte_idx rl t (row + 1) = z"
    using idx(2)[of m] idx(2)[of z] m z by (simp_all add: rc(1))
  note low = last_breaks_le[of t m]
  then show "line_to_byte_idx rl t row + col = m" using starts(1) rc(2) by simp
  have "z \<in> set (breaks t z)" using z(3) by simp
  then have "is_break t z" unfolding breaks_def by (auto simp del: upt_Suc)
  moreover have "t ! (z - 1) \<in> set t" using z by (intro nth_mem) simp
  then have "t ! (z - 1) \<noteq> 13" using cr by metis
  ultimately have "t ! (z - 1) = 10" by (simp add: is_break_def)
  moreover have "rope_line rl t row = take (z - 1 - last (0 # breaks t m)) (drop (last (0 # breaks t m)) t) @ [t ! (z - 1)]"
  proof -
    have "z - last (0 # breaks t m) = Suc (z - 1 - last (0 # breaks t m))" using z low by simp
    then show ?thesis unfolding rope_line_def starts using z low
      by (simp only:) (subst take_Suc_conv_app_nth, simp_all)
  qed
  moreover have "13 \<notin> set (take (z - 1 - last (0 # breaks t m)) (drop (last (0 # breaks t m)) t))"
    using cr by (auto dest!: in_set_takeD in_set_dropD simp del: last.simps)
  ultimately have "line_bytes rl t row = take (z - 1 - last (0 # breaks t m)) (drop (last (0 # breaks t m)) t)"
    using lc by (simp add: line_bytes_def strip_eol_lf del: last.simps)
  then have "line_len rl t row = z - 1 - last (0 # breaks t m)"
    using lc z low by (simp add: line_len_def line_bytes_def)
  then show "col \<le> line_len rl t row" using z rc(2) low by simp
qed

text \<open>The cursor follows its text. On a byte that no edit replaces, it is afterwards on the same byte: behind
  what the edits make of the text before it.\<close>

theorem cursor_follows_edits:
  assumes rl: "lf_cr_index rl" and cr: "13 \<notin> set t" "\<forall>e \<in> set es. 13 \<notin> set (snd e)"
    and o: "in_order 0 (by_start es)" and fit: "edits_fit t es"
    and q: "q \<le> length t" "\<forall>e \<in> set es. q < fst (fst e) \<or> snd (fst e) \<le> q"
  defines "w \<equiv> nl (weave t 0 (by_start es))" and "m \<equiv> cursor_moved q t 0 (by_start es)"
  assumes inside: "m < length w"
  shows "edits_cursor rl t es w (point_at rl t q) = m"
proof -
  let ?v = "weave t 0 (by_start es)"
  have v: "foldr text_edit (by_start es) t = ?v"
    using apply_weave[OF o, of t] fit by (simp add: edits_fit_def is_char_boundary_def)
  have fit': "edits_fit t (by_start es)" using fit by (simp add: edits_fit_def)
  have run: "foldr (\<lambda>e pos. replay_cursor pos (cursor_step_of rl t e)) (by_start es) (point_at rl t q) = point_at rl ?v m"
    "m \<le> length ?v"
    using replay_fold[OF rl cr(1) o fit' _ _ q(1)] cr(2) q(2) unfolding v m_def by simp_all
  have crv: "13 \<notin> set ?v" using foldr_text_cr[OF cr(1), of "by_start es"] cr(2) v by simp
  have "foldl replay_cursor (point_at rl t q) (cursor_plan rl t es) = point_at rl ?v m"
    using run(1) by (simp add: cursor_plan_def apply_order_by_start foldl_map foldl_conv_foldr rev_map foldr_map comp_def)
  moreover have "point_at rl ?v m = point_at rl w m"
    using point_same[OF rl crv, of w m] crv run(2) by (auto simp: w_def nl_def)
  moreover obtain row col where p: "point_at rl w m = (row, col)" by fastforce
  moreover have crw: "13 \<notin> set w" "ends_with_newline w" using crv by (auto simp: w_def nl_def ends_with_newline_def)
  ultimately show ?thesis
    using clamp_in_text[OF rl crw inside p] by (simp add: edits_cursor_def Let_def min_absorb1)
qed

end
