(* ===== verification/Spec2Isabelle.thy ===== *)
theory Spec2Isabelle
  imports Matching Building UndoProps Registers Cwd ExtmarkUndo WindowsProps RpcProps FoldProps Lua_PatternProps Buffer_EditProps File_TextProps JumpsProps Fold_CacheProps
    ExprProps SnippetProps Lsp_EditProps
begin

text \<open>
  bemtvi is a modal editor in Rust: a synchronous core (\<open>crates/bemtvi-core\<close>: buffers, windows, modes),
  a server that drives it, runs the Lua configuration and talks to language servers
  (\<open>crates/bemtvi-server\<close>, \<open>-lua\<close>, \<open>-lsp\<close>, \<open>-ts\<close>), and clients that draw it and send keys over an RPC
  connection (\<open>crates/bemtvi-rpc\<close>; \<open>-tui\<close>, \<open>-gpu\<close>, \<open>-gui\<close>, \<open>-view\<close>). A key travels: the connection's
  frames, the key notation, the keymap engine, the command grammar, an edit of the buffer, and from there
  to everything that has to follow the edit: the undo tree, marks, extmarks, folds, jump lists and the
  language servers' copies. This development models the parts of that path that have state and an
  algorithm of their own, function by function from the source, and proves what each promises.

  \<^bold>\<open>Theories and sources.\<close> A definition has the name of the function it models, save where HOL or another
  component has that name; paths are below \<open>crates/\<close>.
  \<^item> \<open>Prelude\<close>, \<open>Std_Text\<close>, \<open>Ordered_Map\<close>, \<open>F64\<close>: what Rust's standard library gives several components
    (slices, decimal text, \<open>char\<close> and \<open>str\<close> predicates, \<open>BTreeMap\<close>, \<open>f64\<close>), and the interfaces
    \<open>update_store\<close> (the last write of a key wins), \<open>partial_system\<close> and \<open>guarded_system\<close> (operations keep an
    invariant and return, lifted to runs) and \<open>simulation\<close> (they implement an abstract system).
  \<^item> \<open>Input\<close>, \<open>Mode\<close> (\<open>bemtvi-core/src/input.rs\<close>, \<open>mode.rs\<close>): keys, their notation, termcodes, the modes.
  \<^item> \<open>Trie\<close>, \<open>Keymap\<close>, \<open>Matcher\<close>, \<open>Matching\<close>, \<open>Building\<close> (\<open>bemtvi-server/src/keymap.rs\<close>): mappings are
    compiled from the registry into a trie per mode; the matcher's state is the withheld keys and a remap
    budget; \<open>feed\<close> takes a key, \<open>flush\<close> is the idle timeout. The \<open>Matcher\<close> is a refinement of a
    small-step machine; \<open>Building\<close> gives the precedence of mappings.
  \<^item> \<open>Undo\<close>, \<open>UndoTree\<close>, \<open>UndoDoc\<close>, \<open>UndoProps\<close> (\<open>bemtvi-core/src/editor/undo.rs\<close>): the arena of states,
    commit, prune and travel; the editor's change groups over it; the invariant over every run.
  \<^item> \<open>Registers\<close> (\<open>editor/registers.rs\<close>) and \<open>Cwd\<close> (\<open>bemtvi-server/src/cwd.rs\<close>): each against an abstract
    specification of what it holds after every operation.
  \<^item> \<open>Extmark\<close>, \<open>ExtmarkProps\<close>, \<open>ExtmarkQuery\<close>, \<open>ExtmarkUndo\<close> (\<open>bemtvi-core/src/extmark.rs\<close>): the store of marks,
    its gravity under edits, the indexed queries equal to a scan, the counters, undo's adoption of positions.
  \<^item> \<open>Layout\<close>, \<open>Floats\<close>, \<open>Windows\<close> and \<open>LayoutProps\<close>, \<open>LayoutThms\<close>, \<open>WindowsProps\<close> (\<open>editor/windows.rs\<close>): the split
    tree as an algebra, the placement of floats, and the commands over one layer's tree.
  \<^item> \<open>Frame_Scan\<close>, \<open>Frame_Props\<close>, \<open>Rpc\<close>, \<open>RpcProps\<close> (\<open>bemtvi-rpc/src/lib.rs\<close>): the resumable frame scanner
    against the grammar of the wire, and the atomic sections of the connection's tasks as events.
  \<^item> \<open>Buffer_Edit\<close>, \<open>Buffer_EditProps\<close>, \<open>File_Text\<close>, \<open>File_TextProps\<close> (\<open>bemtvi-core/src/buffer.rs\<close>, \<open>encoding.rs\<close>):
    the tracked edits with their journals, one per consumer, and the buffer's file on disk.
  \<^item> \<open>Fold_Levels\<close>, \<open>Folds\<close>, \<open>Fold_Cache\<close> with \<open>Fold_LevelProps\<close>, \<open>FoldProps\<close>, \<open>Fold_CacheProps\<close>
    (\<open>editor/fold.rs\<close>): levels from lines, ranges from levels, a window's fold set and the \<open>z\<close> commands, and
    the cache of per-line inputs that the edit journal of \<open>Buffer_Edit\<close> keeps current.
  \<^item> \<open>Jumps\<close>, \<open>JumpsProps\<close> (\<open>editor/jumps.rs\<close>, \<open>changelist.rs\<close>): fed by another journal of \<open>Buffer_Edit\<close>.
  \<^item> \<open>Lsp_Sync\<close>, \<open>Lsp_SyncProps\<close>, \<open>Lsp_Edit\<close>, \<open>Lsp_EditProps\<close> (\<open>bemtvi-server/src/lsp\<close>, \<open>bemtvi-lsp/src/shadow.rs\<close>):
    what the servers are sent from the journal, judged by a receiver written from the protocol, and what
    their edits do to the buffer.
  \<^item> \<open>Expr\<close>, \<open>ExprProps\<close> (\<open>editor/expr.rs\<close>), \<open>Snippet\<close>, \<open>SnippetProps\<close> (\<open>snippet.rs\<close>) and \<open>Lua_Pattern\<close>,
    \<open>Lua_PatternProps\<close> (\<open>bemtvi-ts/src/lua_pattern.rs\<close>): three small languages, each against a reference
    syntax and meaning of its own.
\<close>

text \<open>
  \<^bold>\<open>How the code is rendered.\<close> A struct is a record, an enum a datatype, a \<open>Result\<close> a sum, a panic \<open>None\<close>; a
  method on \<open>&mut self\<close> returns the new state. A \<open>char\<close> is its code point and a \<open>String\<close> a list of them, or its
  bytes where the code counts bytes. A \<open>usize\<close> that counts things in memory is a natural number with the
  code's saturating and underflowing operations written out; \<open>i64\<close>, \<open>u32\<close>, \<open>u8\<close> and the floats keep their
  width where values come from the user.

  \<^bold>\<open>Loops and bounds.\<close> A loop that need not end is a partial function, and that it ends is proved for the
  reachable states. The keymap engine recurses through \<open>feed_key\<close>; the model counts its nesting, and the
  fuel (the remap budget times the height of the trie, plus the withheld keys, plus one) is proved enough
  in every state. The loop of \<open>flush\<close> has no fuel: its measure is the pending run, which shrinks because of
  the code's own check that a pass made progress. The matcher of Lua patterns has the code's depth limit of
  200, the expression parser its limit of 200 levels and a file is read at most three times; a statement
  that depends on such a limit says so.

  \<^bold>\<open>What is assumed.\<close> Arguments stand for code outside the repository: the command grammar's answer, the rope's
  line index, codecs, the msgpack codec, file system, option resolver and display widths. What a statement
  needs of them is a hypothesis of it: that a line ends at a line feed, a carriage return or both together;
  that a codec encodes back what it decoded from the file in question; that size and time identify the
  content of a file that is there. Other hypotheses restrict the program's own states, each where the code
  is wrong otherwise and with a lemma that shows it:
  \<^item> \<open>op_ok\<close>: windows are not split, nor a float re-tiled, while (another) float has the focus;
  \<^item> \<open>edits_ok\<close>: no edit cuts a \<open>\r\n\<close> in two or joins one;
  \<^item> \<open>skips_safely\<close>: no operand that lazy evaluation passes over would fail;
  \<^item> \<open>canonical_key\<close>: the chords the key notation preserves.

  \<^bold>\<open>Where the code differs from what it means.\<close> Lemmas that exhibit a fault stand beside the property they
  limit: \<open>shift_lost\<close>, \<open>termcode_drops_cmd\<close>, \<open>fold_drops_cmd\<close> (keys); \<open>undolevels_lost_to_branches\<close>;
  \<open>split_of_float_orphans\<close>, \<open>retile_orphans\<close> (windows); \<open>crossing_folds_disagree\<close>, \<open>emptied_fold_overflows\<close>,
  \<open>levels_differ\<close>, \<open>enabling_strands_cursor\<close>, \<open>foldexpr_lnum_stale\<close>, \<open>crlf_edits_leave_stale_rows\<close> (folds);
  \<open>long_literal_not_found\<close>, \<open>zero_backref\<close> (Lua patterns); \<open>removal_splits_crlf\<close>, \<open>stray_cr_gains_newline\<close>,
  \<open>written_endofline_differs\<close>, \<open>vanished_file_unchanged\<close> (buffers and files); \<open>jumplist_exceeds_cap\<close>;
  \<open>or_evaluates_both\<close>, \<open>ints_compared_as_floats\<close> (expressions); \<open>mirrors_disagree\<close>,
  \<open>saturated_index_after_final\<close>, \<open>last_line_not_indented\<close> (snippets); \<open>closing_removes_cr\<close>,
  \<open>tail_deletion_keeps_newline\<close> (language servers).

  \<^bold>\<open>Not modelled.\<close> The command grammar and the operators, motions and insert commands it drives, Ex commands and
  options: they read and write the whole editor and mostly call the parts modelled here. Views, decorations and
  the clients: presentation, resting on tables of display widths. The server's event loop, processes, sockets,
  persistence, git and sandbox: input and output through library crates. The Lua interpreter, the regex engine
  and tree-sitter: C code. Of the parts modelled, left out are the cursor, marks and extmarks an undo snapshot
  carries, a window's view, tab pages and docks, a connection's task scheduling, the requests and hooks of the
  language-server features.
\<close>

end
